(* ===== verification/Prelude.thy ===== *)
theory Prelude
  imports Main "HOL-Library.Word"
begin

unbundle bit_operations_syntax

text \<open>
  Shared vocabulary of the development: machine types, the faults a C program can run
  into, tagged pointers (the mark bit that the lock-free lists keep in bit 0 of a pointer),
  and generic lemmas on lists that the component theories use.
\<close>

section \<open>Machine types and faults\<close>

type_synonym u8 = "8 word"
type_synonym u32 = "32 word"
type_synonym u64 = "64 word"

text \<open>A pointer is a 64-bit word (\<open>uintptr_t\<close> on the supported x86-64 target).\<close>

type_synonym ptr = "64 word"

text \<open>
  What can go wrong at run time: the access of an address that holds no object (this
  includes NULL), an array index outside the object, a failed \<open>assert\<close>.
\<close>

datatype fault = Bad_access | Out_of_range | Assert_failed

named_theorems tag_simps \<open>facts on marked and unmarked pointers\<close>
named_theorems mem_simps \<open>facts on reading and writing the modelled memory\<close>

section \<open>Tagged pointers\<close>

definition get_marked_ref :: "ptr \<Rightarrow> ptr" where
  "get_marked_ref p = p OR 1"

definition get_unmarked_ref :: "ptr \<Rightarrow> ptr" where
  "get_unmarked_ref p = p AND NOT 1"

definition is_marked_ref :: "ptr \<Rightarrow> bool" where
  "is_marked_ref p \<longleftrightarrow> p AND 1 \<noteq> 0"

text \<open>An object address is aligned, so its bit 0 is clear, and is not NULL.\<close>

definition valid_addr :: "ptr \<Rightarrow> bool" where
  "valid_addr p \<longleftrightarrow> p \<noteq> 0 \<and> \<not> is_marked_ref p"

lemma is_marked_ref_bit: "is_marked_ref p \<longleftrightarrow> bit p 0"
proof -
  have "p AND 1 = of_bool (odd p)"
    by (simp add: and_one_eq mod_2_eq_odd)
  then show ?thesis
    by (simp add: is_marked_ref_def bit_0)
qed

lemma marked_of_marked [tag_simps, simp]: "is_marked_ref (get_marked_ref p)"
  by (simp add: is_marked_ref_bit get_marked_ref_def bit_simps)

lemma marked_of_unmarked [tag_simps, simp]: "\<not> is_marked_ref (get_unmarked_ref p)"
  by (simp add: is_marked_ref_bit get_unmarked_ref_def bit_simps)

lemma marked_zero [tag_simps, simp]: "\<not> is_marked_ref 0"
  by (simp add: is_marked_ref_def)

lemma unmarked_id [tag_simps]: "\<not> is_marked_ref p \<Longrightarrow> get_unmarked_ref p = p"
  by (rule bit_eqI) (auto simp: get_unmarked_ref_def is_marked_ref_bit bit_simps intro: gr0I)

lemma unmark_mark [tag_simps]: "\<not> is_marked_ref p \<Longrightarrow> get_unmarked_ref (get_marked_ref p) = p"
  by (rule bit_eqI)
     (auto simp: get_unmarked_ref_def get_marked_ref_def is_marked_ref_bit bit_simps intro: gr0I)

lemma mark_unmark [tag_simps]: "is_marked_ref p \<Longrightarrow> get_marked_ref (get_unmarked_ref p) = p"
  by (rule bit_eqI)
     (auto simp: get_unmarked_ref_def get_marked_ref_def is_marked_ref_bit bit_simps intro: gr0I)

lemma mark_marked [tag_simps]: "is_marked_ref p \<Longrightarrow> get_marked_ref p = p"
  by (rule bit_eqI) (auto simp: get_marked_ref_def is_marked_ref_bit bit_simps)

lemma unmark_unmark [tag_simps, simp]:
  "get_unmarked_ref (get_unmarked_ref p) = get_unmarked_ref p"
  by (simp add: unmarked_id)

lemma mark_inj: "\<not> is_marked_ref p \<Longrightarrow> \<not> is_marked_ref q \<Longrightarrow>
    get_marked_ref p = get_marked_ref q \<Longrightarrow> p = q"
  by (metis unmark_mark)

lemma valid_addrD [dest]: "valid_addr p \<Longrightarrow> p \<noteq> 0 \<and> \<not> is_marked_ref p"
  by (simp add: valid_addr_def)

lemma valid_unmark [simp]: "valid_addr p \<Longrightarrow> get_unmarked_ref p = p"
  by (simp add: valid_addr_def unmarked_id)

lemma valid_unmark_mark [simp]: "valid_addr p \<Longrightarrow> get_unmarked_ref (get_marked_ref p) = p"
  by (simp add: valid_addr_def unmark_mark)

lemma valid_not_marked [simp]: "valid_addr p \<Longrightarrow> \<not> is_marked_ref p"
  by (simp add: valid_addr_def)

lemma marked_not_valid: "is_marked_ref w \<Longrightarrow> \<not> valid_addr w"
  by (simp add: valid_addr_def)

end
