(* ===== verification/Linden_Mem.thy ===== *)
theory Linden_Mem
  imports Prelude
begin

text \<open>
  The data of the Linden-Jonsson priority queue (\<^verbatim>\<open>lib/linden/prioq.h\<close>,
  \<^verbatim>\<open>lib/linden/prioq.c\<close> and the copy \<^verbatim>\<open>lib/spraylist/linden.c\<close>): nodes, the queue
  descriptor, the memory they live in with its atomic operations, the level generator and the
  initialisation. The key width is a type parameter: \<^verbatim>\<open>prioq.h\<close> has 32-bit keys,
  \<^verbatim>\<open>spraylist/linden.h\<close> has 64-bit keys; both compare keys with 64-bit sentinels.
\<close>

section \<open>Constants\<close>

definition NUM_LEVELS :: nat where
  "NUM_LEVELS = 32"

definition SENTINEL_KEYMIN :: u64 where
  "SENTINEL_KEYMIN = 0"

definition SENTINEL_KEYMAX :: u64 where
  "SENTINEL_KEYMAX = NOT 1"

section \<open>Nodes, the queue and the memory\<close>

text \<open>
  \<^verbatim>\<open>struct node_s\<close>: the flexible array \<^verbatim>\<open>next\<close> is the list \<open>nnext\<close>, whose length is
  the number of slots the node was allocated with.
\<close>

record 'a node =
  nkey :: 'a
  nlevel :: nat
  ninserting :: bool
  nval :: 'a
  nnext :: "ptr list"

text \<open>
  The shared state: the heap of nodes, the fields of \<^verbatim>\<open>pq_t\<close> that the operations use, and
  the blocks handed to \<^verbatim>\<open>gc_free\<close> so far, in order.
\<close>

record 'a shared =
  heap :: "ptr \<Rightarrow> 'a node option"
  q_head :: ptr
  q_tail :: ptr
  max_offset :: int
  garbage :: "ptr list"

text \<open>A read of \<open>p->next[i]\<close>: \<open>None\<close> if \<open>p\<close> is no node or has no slot \<open>i\<close>.\<close>

definition rd :: "'a shared \<Rightarrow> ptr \<Rightarrow> nat \<Rightarrow> ptr option" where
  "rd s p i = (case heap s p of
      None \<Rightarrow> None
    | Some n \<Rightarrow> if i < length (nnext n) then Some (nnext n ! i) else None)"

definition wr :: "'a shared \<Rightarrow> ptr \<Rightarrow> nat \<Rightarrow> ptr \<Rightarrow> 'a shared" where
  "wr s p i w = (case heap s p of
      None \<Rightarrow> s
    | Some n \<Rightarrow> s\<lparr>heap := (heap s)(p \<mapsto> n\<lparr>nnext := (nnext n)[i := w]\<rparr>)\<rparr>)"

text \<open>
  \<^verbatim>\<open>__sync_bool_compare_and_swap(&p->next[i], old, new)\<close> and
  \<^verbatim>\<open>__sync_fetch_and_or(&p->next[i], 1)\<close>: one atomic access each.
\<close>

definition cas :: "'a shared \<Rightarrow> ptr \<Rightarrow> nat \<Rightarrow> ptr \<Rightarrow> ptr \<Rightarrow> (bool \<times> 'a shared) option" where
  "cas s p i old new = (case rd s p i of
      None \<Rightarrow> None
    | Some w \<Rightarrow> if w = old then Some (True, wr s p i new) else Some (False, s))"

definition fetch_or1 :: "'a shared \<Rightarrow> ptr \<Rightarrow> nat \<Rightarrow> (ptr \<times> 'a shared) option" where
  "fetch_or1 s p i = (case rd s p i of
      None \<Rightarrow> None
    | Some w \<Rightarrow> Some (w, wr s p i (get_marked_ref w)))"

definition set_inserting :: "'a shared \<Rightarrow> ptr \<Rightarrow> bool \<Rightarrow> 'a shared" where
  "set_inserting s p b = (case heap s p of
      None \<Rightarrow> s
    | Some n \<Rightarrow> s\<lparr>heap := (heap s)(p \<mapsto> n\<lparr>ninserting := b\<rparr>)\<rparr>)"

section \<open>Level generation and allocation\<close>

text \<open>The loop \<^verbatim>\<open>while ((r >>= 1) & 1) ++level;\<close>.\<close>

function level_loop :: "u32 \<Rightarrow> nat \<Rightarrow> nat" where
  "level_loop r level =
     (let r' = drop_bit 1 r in if r' AND 1 \<noteq> 0 then level_loop r' (level + 1) else level)"
  by pat_completeness auto
termination
proof (relation "measure (\<lambda>(r, level). unat r)")
  fix r r' :: u32 and level :: nat
  assume r': "r' = drop_bit 1 r" and one: "r' AND 1 \<noteq> 0"
  have "unat r' = drop_bit 1 (unat r)"
    by (simp only: r' unat_drop_bit_eq)
  then have half: "unat r' = unat r div 2"
    by (simp add: drop_bit_eq_div)
  have "r' \<noteq> 0"
    using one by auto
  then have "unat r' \<noteq> 0"
    by (simp add: unat_eq_0)
  with half have "unat r' < unat r"
    by simp
  then show "((r', level + 1), r, level) \<in> measure (\<lambda>(r, level). unat r)"
    by simp
qed simp

declare level_loop.simps [simp del]

text \<open>
  The random part of \<^verbatim>\<open>alloc_node\<close>: the thread's generator advances by the linear
  congruential step, and the level is read off the old value, masked to 31 bits.
\<close>

definition next_rand :: "u32 \<Rightarrow> u32" where
  "next_rand r = r * 1103515245 + 12345"

definition rand_level :: "u32 \<Rightarrow> nat" where
  "rand_level r = level_loop (r AND (push_bit (NUM_LEVELS - 1) 1 - 1)) 1"

text \<open>
  The block that \<^verbatim>\<open>gc_alloc\<close> returns has room for \<open>level\<close> pointers; key and value are
  written by the caller, \<open>inserting\<close> is set and the pointers are cleared.
\<close>

definition alloc_node :: "u32 \<Rightarrow> 'k::len word \<Rightarrow> 'k word \<Rightarrow> 'k word node" where
  "alloc_node r k v =
     \<lparr>nkey = k, nlevel = rand_level r, ninserting = True, nval = v,
      nnext = replicate (rand_level r) 0\<rparr>"

section \<open>Initialisation\<close>

text \<open>
  \<^verbatim>\<open>pq_init\<close>: two \<^verbatim>\<open>malloc\<close>ed sentinels. The code never writes the pointer array of the
  tail nor the value fields: they keep whatever the allocator left there (\<open>junk\<close>,
  \<open>vt\<close>, \<open>vh\<close>). The sentinel key is truncated to the key width.
\<close>

definition tail_key :: "'k::len word" where
  "tail_key = ucast SENTINEL_KEYMAX"

definition pq_init :: "ptr \<Rightarrow> ptr \<Rightarrow> ptr list \<Rightarrow> 'k::len word \<Rightarrow> 'k word \<Rightarrow> int \<Rightarrow> 'k word shared" where
  "pq_init t h junk vt vh offs =
     \<lparr>heap = [t \<mapsto> \<lparr>nkey = tail_key, nlevel = NUM_LEVELS, ninserting = False, nval = vt,
                     nnext = junk\<rparr>,
              h \<mapsto> \<lparr>nkey = ucast SENTINEL_KEYMIN, nlevel = NUM_LEVELS, ninserting = False,
                     nval = vh, nnext = replicate NUM_LEVELS t\<rparr>],
      q_head = h, q_tail = t, max_offset = offs, garbage = []\<rparr>"

text \<open>The precondition that \<^verbatim>\<open>insert\<close> asserts, evaluated in \<^verbatim>\<open>unsigned long\<close>.\<close>

definition insert_assert :: "'k::len word \<Rightarrow> bool" where
  "insert_assert k \<longleftrightarrow> SENTINEL_KEYMIN < ucast k \<and> ucast k < SENTINEL_KEYMAX"

end
