(* ===== verification/Linden_Step.thy ===== *)
theory Linden_Step
  imports Linden_Mem
begin

text \<open>
  The operations of the Linden-Jonsson queue as step functions: \<^verbatim>\<open>locate_preds\<close>,
  \<^verbatim>\<open>insert\<close>, \<^verbatim>\<open>restructure\<close>, \<^verbatim>\<open>deletemin\<close>. A thread is a record of its
  local variables and a program counter; one step makes at most one access to shared memory
  (a read, a write, a compare-and-swap or a fetch-and-or), so that every interleaving of the C
  statements of several threads is a sequence of such steps. Memory is sequentially consistent.
\<close>

section \<open>Program counters and thread state\<close>

text \<open>
  Prefixes: \<open>L\<close> for \<^verbatim>\<open>locate_preds\<close>, \<open>I\<close> for \<^verbatim>\<open>insert\<close>, \<open>D\<close> for
  \<^verbatim>\<open>deletemin\<close>, \<open>R\<close> for \<^verbatim>\<open>restructure\<close>, \<open>F\<close> for the freeing loop at the end of
  \<^verbatim>\<open>deletemin\<close>. \<open>Leave\<close> is the label \<^verbatim>\<open>out\<close> (\<^verbatim>\<open>critical_exit()\<close>).
\<close>

datatype pc =
    Idle
  | I_Enter | I_Dup1 | I_Dup2 | I_Dup3 | I_Link0 | I_Cas0 | I_Loop
  | I_Chk1 | I_Chk2 | I_LinkI | I_CasI | I_Re | I_Fin
  | L_Read | L_Test
  | D_Enter | D_Read | D_Ins | D_Fao | D_Val | D_Hd | D_CasH
  | R_Head | R_Cur | R_Test | R_Walk | R_Step | R_Assert | R_Cas
  | F_Test | F_Free
  | Leave | Returned | Crashed fault

text \<open>
  The locals, named after the C variables with a prefix. \<open>v_i\<close> is the level index of
  \<^verbatim>\<open>locate_preds\<close> and \<^verbatim>\<open>restructure\<close>, \<open>v_ii\<close> the one of \<^verbatim>\<open>insert\<close>;
  \<open>v_relocate\<close> tells which of the two calls of \<^verbatim>\<open>locate_preds\<close> is running;
  \<open>v_ok\<close> is the result that \<^verbatim>\<open>spraylist/linden.c\<close> returns from \<^verbatim>\<open>insert\<close>,
  \<open>v_ret\<close> the one of \<^verbatim>\<open>deletemin\<close>. Of the per-thread state of \<^verbatim>\<open>ptst.h\<close> the
  record has the generator state \<open>p_rand\<close> and the nesting count \<open>p_count\<close>, which
  \<^verbatim>\<open>critical_enter\<close> creates as 1: inside a critical section it is at least 2.
\<close>

record 'a thr =
  pc :: pc
  v_k :: 'a
  v_v :: 'a
  v_new :: ptr
  v_del :: ptr
  v_x :: ptr
  v_x_next :: ptr
  v_d :: bool
  v_i :: nat
  v_ii :: nat
  v_relocate :: bool
  v_preds :: "ptr list"
  v_succs :: "ptr list"
  v_ok :: bool
  v_nxt :: ptr
  v_obs_head :: ptr
  v_newhead :: ptr
  v_cur :: ptr
  v_pred :: ptr
  v_h :: ptr
  v_offset :: int
  v_ret :: 'a
  p_rand :: u32
  p_count :: nat
  nb_collisions :: nat

text \<open>
  The two copies of the code differ in two places: \<^verbatim>\<open>spraylist/linden.c\<close> returns from
  \<^verbatim>\<open>insert\<close> on a duplicate key without \<^verbatim>\<open>critical_exit()\<close>, and counts collisions.
\<close>

record variant =
  dup_leaves :: bool
  counts_collisions :: bool

definition prioq_variant :: variant where
  "prioq_variant = \<lparr>dup_leaves = True, counts_collisions = False\<rparr>"

definition spray_variant :: variant where
  "spray_variant = \<lparr>dup_leaves = False, counts_collisions = True\<rparr>"

definition crash :: "fault \<Rightarrow> 'a thr \<Rightarrow> 'a thr" where
  "crash e l = l\<lparr>pc := Crashed e\<rparr>"

definition goto :: "pc \<Rightarrow> 'a thr \<Rightarrow> 'a thr" where
  "goto q l = l\<lparr>pc := q\<rparr>"

section \<open>locate\_preds\<close>

text \<open>Entry of \<^verbatim>\<open>locate_preds\<close>: \<^verbatim>\<open>x = pq->head; i = NUM_LEVELS - 1; del = NULL\<close>.\<close>

definition start_locate :: "'a shared \<Rightarrow> bool \<Rightarrow> 'a thr \<Rightarrow> 'a thr" where
  "start_locate s again l =
     l\<lparr>v_x := q_head s, v_i := NUM_LEVELS - 1, v_del := 0, v_d := False,
       v_relocate := again, pc := L_Read\<rparr>"

text \<open>
  The loop condition, evaluated as C does (the read of \<^verbatim>\<open>x_next->next[0]\<close> only if the key
  comparison fails): \<open>None\<close> is a bad access.
\<close>

definition locate_cond :: "('a::ord) shared \<Rightarrow> 'a thr \<Rightarrow> bool option" where
  "locate_cond s l = (case heap s (v_x_next l) of
      None \<Rightarrow> None
    | Some n \<Rightarrow>
        if nkey n < v_k l then Some True
        else (case rd s (v_x_next l) 0 of
            None \<Rightarrow> None
          | Some w \<Rightarrow> Some (is_marked_ref w \<or> (v_i l = 0 \<and> v_d l))))"

definition locate_step :: "('a::ord) shared \<Rightarrow> 'a thr \<Rightarrow> 'a thr" where
  "locate_step s l = (case pc l of
      L_Read \<Rightarrow> (case rd s (v_x l) (v_i l) of
          None \<Rightarrow> crash Bad_access l
        | Some w \<Rightarrow>
            if get_unmarked_ref w = 0 then crash Assert_failed l
            else l\<lparr>v_x_next := get_unmarked_ref w, v_d := is_marked_ref w, pc := L_Test\<rparr>)
    | L_Test \<Rightarrow> (case locate_cond s l of
          None \<Rightarrow> crash Bad_access l
        | Some True \<Rightarrow>
            l\<lparr>v_del := (if v_i l = 0 \<and> v_d l then v_x_next l else v_del l),
              v_x := v_x_next l, pc := L_Read\<rparr>
        | Some False \<Rightarrow>
            (let l' = l\<lparr>v_preds := (v_preds l)[v_i l := v_x l],
                        v_succs := (v_succs l)[v_i l := v_x_next l]\<rparr>
             in if v_i l = 0 then goto (if v_relocate l then I_Re else I_Dup1) l'
                else l'\<lparr>v_i := v_i l - 1, pc := L_Read\<rparr>))
    | _ \<Rightarrow> l)"

section \<open>insert\<close>

text \<open>
  \<open>fresh\<close> is the address of the block that \<^verbatim>\<open>gc_alloc\<close> returns at \<open>I_Enter\<close>; the
  step after the failed assertion aborts the program.
\<close>

definition insert_step :: "variant \<Rightarrow> ptr \<Rightarrow> 'k::len word shared \<Rightarrow> 'k word thr \<Rightarrow>
    'k word shared \<times> 'k word thr" where
  "insert_step var fresh s l = (case pc l of
      I_Enter \<Rightarrow>
        if \<not> insert_assert (v_k l) then (s, crash Assert_failed l)
        else (s\<lparr>heap := (heap s)(fresh \<mapsto> alloc_node (p_rand l) (v_k l) (v_v l))\<rparr>,
              start_locate s False
                (l\<lparr>p_count := p_count l + 1, p_rand := next_rand (p_rand l), v_new := fresh\<rparr>))
    | I_Dup1 \<Rightarrow> (case heap s (v_succs l ! 0) of
          None \<Rightarrow> (s, crash Bad_access l)
        | Some n \<Rightarrow> (s, goto (if nkey n = v_k l then I_Dup2 else I_Link0) l))
    | I_Dup2 \<Rightarrow> (case rd s (v_preds l ! 0) 0 of
          None \<Rightarrow> (s, crash Bad_access l)
        | Some w \<Rightarrow> (s, goto (if is_marked_ref w then I_Link0 else I_Dup3) l))
    | I_Dup3 \<Rightarrow> (case rd s (v_preds l ! 0) 0 of
          None \<Rightarrow> (s, crash Bad_access l)
        | Some w \<Rightarrow>
            if w = v_succs l ! 0
            then ((set_inserting s (v_new l) False)\<lparr>garbage := garbage s @ [v_new l]\<rparr>,
                  l\<lparr>v_ok := False, pc := (if dup_leaves var then Leave else Returned)\<rparr>)
            else (s, goto I_Link0 l))
    | I_Link0 \<Rightarrow> (wr s (v_new l) 0 (v_succs l ! 0), goto I_Cas0 l)
    | I_Cas0 \<Rightarrow> (case cas s (v_preds l ! 0) 0 (v_succs l ! 0) (v_new l) of
          None \<Rightarrow> (s, crash Bad_access l)
        | Some (True, s') \<Rightarrow> (s', l\<lparr>v_ii := 1, pc := I_Loop\<rparr>)
        | Some (False, s') \<Rightarrow> (s', start_locate s False l))
    | I_Loop \<Rightarrow> (case heap s (v_new l) of
          None \<Rightarrow> (s, crash Bad_access l)
        | Some n \<Rightarrow> (s, goto (if v_ii l < nlevel n then I_Chk1 else I_Fin) l))
    | I_Chk1 \<Rightarrow> (case rd s (v_new l) 0 of
          None \<Rightarrow> (s, crash Bad_access l)
        | Some w \<Rightarrow> (s, goto (if is_marked_ref w then I_Fin else I_Chk2) l))
    | I_Chk2 \<Rightarrow> (case rd s (v_succs l ! v_ii l) 0 of
          None \<Rightarrow> (s, crash Bad_access l)
        | Some w \<Rightarrow>
            (s, goto (if is_marked_ref w \<or> v_del l = v_succs l ! v_ii l
                      then I_Fin else I_LinkI) l))
    | I_LinkI \<Rightarrow> (wr s (v_new l) (v_ii l) (v_succs l ! v_ii l), goto I_CasI l)
    | I_CasI \<Rightarrow> (case cas s (v_preds l ! v_ii l) (v_ii l) (v_succs l ! v_ii l) (v_new l) of
          None \<Rightarrow> (s, crash Bad_access l)
        | Some (True, s') \<Rightarrow> (s', l\<lparr>v_ii := v_ii l + 1, pc := I_Loop\<rparr>)
        | Some (False, s') \<Rightarrow> (s', start_locate s True l))
    | I_Re \<Rightarrow> (s, goto (if v_succs l ! 0 \<noteq> v_new l then I_Fin else I_Loop) l)
    | I_Fin \<Rightarrow> (set_inserting s (v_new l) False, l\<lparr>v_ok := True, pc := Leave\<rparr>)
    | _ \<Rightarrow> (s, l))"

section \<open>restructure\<close>

text \<open>
  \<open>R_Head\<close> is the loop test with the read of \<^verbatim>\<open>pq->head->next[i]\<close>; when the loop ends
  control is back in \<^verbatim>\<open>deletemin\<close>, at \<^verbatim>\<open>cur = get_unmarked_ref(obs_head)\<close>.
\<close>

definition restructure_step :: "'a shared \<Rightarrow> 'a thr \<Rightarrow> 'a shared \<times> 'a thr" where
  "restructure_step s l = (case pc l of
      R_Head \<Rightarrow>
        if v_i l = 0
        then (s, l\<lparr>v_cur := get_unmarked_ref (v_obs_head l), pc := F_Test\<rparr>)
        else (case rd s (q_head s) (v_i l) of
            None \<Rightarrow> (s, crash Bad_access l)
          | Some w \<Rightarrow> (s, l\<lparr>v_h := w, pc := R_Cur\<rparr>))
    | R_Cur \<Rightarrow> (case rd s (v_pred l) (v_i l) of
          None \<Rightarrow> (s, crash Bad_access l)
        | Some w \<Rightarrow> (s, l\<lparr>v_cur := w, pc := R_Test\<rparr>))
    | R_Test \<Rightarrow> (case rd s (v_h l) 0 of
          None \<Rightarrow> (s, crash Bad_access l)
        | Some w \<Rightarrow>
            if \<not> is_marked_ref w then (s, l\<lparr>v_i := v_i l - 1, pc := R_Head\<rparr>)
            else (s, goto R_Walk l))
    | R_Walk \<Rightarrow> (case rd s (v_cur l) 0 of
          None \<Rightarrow> (s, crash Bad_access l)
        | Some w \<Rightarrow>
            if is_marked_ref w then (s, l\<lparr>v_pred := v_cur l, pc := R_Step\<rparr>)
            else (s, goto R_Assert l))
    | R_Step \<Rightarrow> (case rd s (v_pred l) (v_i l) of
          None \<Rightarrow> (s, crash Bad_access l)
        | Some w \<Rightarrow> (s, l\<lparr>v_cur := w, pc := R_Walk\<rparr>))
    | R_Assert \<Rightarrow> (case rd s (v_pred l) 0 of
          None \<Rightarrow> (s, crash Bad_access l)
        | Some w \<Rightarrow>
            (s, if is_marked_ref w then goto R_Cas l else crash Assert_failed l))
    | R_Cas \<Rightarrow> (case cas s (q_head s) (v_i l) (v_h l) (v_cur l) of
          None \<Rightarrow> (s, crash Bad_access l)
        | Some (True, s') \<Rightarrow> (s', l\<lparr>v_i := v_i l - 1, pc := R_Head\<rparr>)
        | Some (False, s') \<Rightarrow> (s', goto R_Head l))
    | _ \<Rightarrow> (s, l))"

section \<open>deletemin\<close>

text \<open>The test at the end of the \<^verbatim>\<open>do\<close> loop, \<^verbatim>\<open>(x = get_unmarked_ref(nxt)) && is_marked_ref(nxt)\<close>.\<close>

definition deletemin_while :: "'a thr \<Rightarrow> 'a thr" where
  "deletemin_while l =
     (let x = get_unmarked_ref (v_nxt l)
      in l\<lparr>v_x := x, pc := (if x \<noteq> 0 \<and> is_marked_ref (v_nxt l) then D_Read else D_Val)\<rparr>)"

definition deletemin_step :: "variant \<Rightarrow> ('a::zero) shared \<Rightarrow> 'a thr \<Rightarrow> 'a shared \<times> 'a thr" where
  "deletemin_step var s l = (case pc l of
      D_Enter \<Rightarrow> (case rd s (q_head s) 0 of
          None \<Rightarrow> (s, crash Bad_access l)
        | Some w \<Rightarrow>
            (s, l\<lparr>p_count := p_count l + 1, v_ret := 0, v_newhead := 0, v_offset := 0,
                  v_x := q_head s, v_obs_head := w, pc := D_Read\<rparr>))
    | D_Read \<Rightarrow> (case rd s (v_x l) 0 of
          None \<Rightarrow> (s, crash Bad_access l)
        | Some w \<Rightarrow>
            (s, l\<lparr>v_offset := v_offset l + 1, v_nxt := w,
                  pc := (if get_unmarked_ref w = q_tail s then Leave else D_Ins)\<rparr>))
    | D_Ins \<Rightarrow> (case heap s (v_x l) of
          None \<Rightarrow> (s, crash Bad_access l)
        | Some n \<Rightarrow>
            (let l' = (if v_newhead l = 0 \<and> ninserting n then l\<lparr>v_newhead := v_x l\<rparr> else l)
             in (s, if is_marked_ref (v_nxt l) then deletemin_while l' else goto D_Fao l')))
    | D_Fao \<Rightarrow> (case fetch_or1 s (v_x l) 0 of
          None \<Rightarrow> (s, crash Bad_access l)
        | Some (w, s') \<Rightarrow>
            (s', deletemin_while
                   (l\<lparr>v_nxt := w,
                      nb_collisions := nb_collisions l +
                        (if counts_collisions var \<and> is_marked_ref w then 1 else 0)\<rparr>)))
    | D_Val \<Rightarrow> (case heap s (v_x l) of
          None \<Rightarrow> (s, crash Bad_access l)
        | Some n \<Rightarrow>
            (s, l\<lparr>v_ret := nval n,
                  v_newhead := (if v_newhead l = 0 then v_x l else v_newhead l),
                  pc := (if v_offset l \<le> max_offset s then Leave else D_Hd)\<rparr>))
    | D_Hd \<Rightarrow> (case rd s (q_head s) 0 of
          None \<Rightarrow> (s, crash Bad_access l)
        | Some w \<Rightarrow> (s, goto (if w \<noteq> v_obs_head l then Leave else D_CasH) l))
    | D_CasH \<Rightarrow> (case cas s (q_head s) 0 (v_obs_head l) (get_marked_ref (v_newhead l)) of
          None \<Rightarrow> (s, crash Bad_access l)
        | Some (True, s') \<Rightarrow>
            (s', l\<lparr>v_i := NUM_LEVELS - 1, v_pred := q_head s, pc := R_Head\<rparr>)
        | Some (False, s') \<Rightarrow> (s', goto Leave l))
    | F_Test \<Rightarrow>
        if v_cur l = get_unmarked_ref (v_newhead l) then (s, goto Leave l)
        else (case rd s (v_cur l) 0 of
            None \<Rightarrow> (s, crash Bad_access l)
          | Some w \<Rightarrow> (s, l\<lparr>v_nxt := get_unmarked_ref w, pc := F_Free\<rparr>))
    | F_Free \<Rightarrow> (case rd s (v_cur l) 0 of
          None \<Rightarrow> (s, crash Bad_access l)
        | Some w \<Rightarrow>
            if \<not> is_marked_ref w then (s, crash Assert_failed l)
            else (s\<lparr>garbage := garbage s @ [v_cur l]\<rparr>, l\<lparr>v_cur := v_nxt l, pc := F_Test\<rparr>))
    | _ \<Rightarrow> (s, l))"

section \<open>One step of a thread\<close>

definition thread_step :: "variant \<Rightarrow> ptr \<Rightarrow> 'k::len word shared \<Rightarrow> 'k word thr \<Rightarrow>
    'k word shared \<times> 'k word thr" where
  "thread_step var fresh s l =
     (if pc l = Leave then (s, l\<lparr>p_count := p_count l - 1, pc := Returned\<rparr>)
      else if pc l \<in> {L_Read, L_Test} then (s, locate_step s l)
      else if pc l \<in> {R_Head, R_Cur, R_Test, R_Walk, R_Step, R_Assert, R_Cas}
        then restructure_step s l
      else if pc l \<in> {D_Enter, D_Read, D_Ins, D_Fao, D_Val, D_Hd, D_CasH, F_Test, F_Free}
        then deletemin_step var s l
      else insert_step var fresh s l)"

text \<open>The functions of the copy \<^verbatim>\<open>spraylist/linden.c\<close>, with 64-bit keys.\<close>

definition sl_alloc_node :: "u32 \<Rightarrow> u64 \<Rightarrow> u64 \<Rightarrow> u64 node" where
  "sl_alloc_node = alloc_node"

definition sl_locate_step :: "u64 shared \<Rightarrow> u64 thr \<Rightarrow> u64 thr" where
  "sl_locate_step = locate_step"

definition sl_insert_step :: "ptr \<Rightarrow> u64 shared \<Rightarrow> u64 thr \<Rightarrow> u64 shared \<times> u64 thr" where
  "sl_insert_step = insert_step spray_variant"

definition sl_restructure_step :: "u64 shared \<Rightarrow> u64 thr \<Rightarrow> u64 shared \<times> u64 thr" where
  "sl_restructure_step = restructure_step"

definition sl_deletemin_step :: "u64 shared \<Rightarrow> u64 thr \<Rightarrow> u64 shared \<times> u64 thr" where
  "sl_deletemin_step = deletemin_step spray_variant"

definition sl_pq_init :: "ptr \<Rightarrow> ptr \<Rightarrow> ptr list \<Rightarrow> u64 \<Rightarrow> u64 \<Rightarrow> int \<Rightarrow> u64 shared" where
  "sl_pq_init = pq_init"

end
