(* ===== verification/Linden_Spec.thy ===== *)
theory Linden_Spec
  imports Linden_Step
begin

text \<open>
  The abstract specification of the priority queue and of a linearisable history, and the
  linearisation points of the code. The auxiliary record kept here never influences the code's
  state; it plays the part of the calls of \<^verbatim>\<open>seq_add\<close>, \<^verbatim>\<open>seq_remove\<close> and
  \<^verbatim>\<open>seq_empty\<close> in the repository's SPIN model \<^verbatim>\<open>lib/linden/prioq_model.pml\<close>.
\<close>

section \<open>The abstract priority queue\<close>

text \<open>
  A linearisation event: an insertion that took effect, an insertion refused because the key is
  present, a deletion of a minimal entry, a deletion from the empty queue. The address of the
  node is carried along for the auxiliary lists.
\<close>

datatype 'a event = Ins ptr 'a 'a | Dup 'a | Del ptr 'a 'a | Empty

text \<open>The specification: a finite map from keys to values.\<close>

inductive pq_spec :: "('a::linorder \<rightharpoonup> 'a) \<Rightarrow> 'a event \<Rightarrow> ('a \<rightharpoonup> 'a) \<Rightarrow> bool" where
  spec_ins: "k \<notin> dom m \<Longrightarrow> pq_spec m (Ins p k v) (m(k \<mapsto> v))"
| spec_dup: "k \<in> dom m \<Longrightarrow> pq_spec m (Dup k) m"
| spec_del: "m k = Some v \<Longrightarrow> \<forall>k' \<in> dom m. k \<le> k' \<Longrightarrow> pq_spec m (Del p k v) (m(k := None))"
| spec_empty: "dom m = {} \<Longrightarrow> pq_spec m Empty m"

inductive pq_spec_run :: "('a::linorder \<rightharpoonup> 'a) \<Rightarrow> 'a event list \<Rightarrow> ('a \<rightharpoonup> 'a) \<Rightarrow> bool" where
  run_nil: "pq_spec_run m [] m"
| run_snoc: "pq_spec_run m es m' \<Longrightarrow> pq_spec m' e m'' \<Longrightarrow> pq_spec_run m (es @ [e]) m''"

section \<open>Histories\<close>

text \<open>
  A history lists calls, linearisation events and returns, each with the thread. A return shows
  the two result variables of the code: the status of \<^verbatim>\<open>insert\<close> (returned by
  \<^verbatim>\<open>spraylist/linden.c\<close> only) and the value of \<^verbatim>\<open>deletemin\<close>.
\<close>

datatype 'a opcall = Op_Insert 'a 'a | Op_Deletemin

datatype 'a label = Call nat "'a opcall" | Lin nat "'a event" | Ret nat bool 'a

text \<open>What a thread is doing, according to the history.\<close>

datatype 'a phase = Ready | Called "'a opcall" | Linearised "'a opcall" "'a event"

fun event_of :: "'a opcall \<Rightarrow> 'a event \<Rightarrow> bool" where
  "event_of (Op_Insert k v) (Ins p k' v') \<longleftrightarrow> k' = k \<and> v' = v"
| "event_of (Op_Insert k v) (Dup k') \<longleftrightarrow> k' = k"
| "event_of Op_Deletemin (Del p k v) \<longleftrightarrow> True"
| "event_of Op_Deletemin Empty \<longleftrightarrow> True"
| "event_of _ _ \<longleftrightarrow> False"

fun result_of :: "('a::zero) event \<Rightarrow> bool \<Rightarrow> 'a \<Rightarrow> bool" where
  "result_of (Ins p k v) ok r \<longleftrightarrow> ok"
| "result_of (Dup k) ok r \<longleftrightarrow> \<not> ok"
| "result_of (Del p k v) ok r \<longleftrightarrow> r = v"
| "result_of Empty ok r \<longleftrightarrow> r = 0"

text \<open>
  One label advances the phase of the thread it belongs to; \<open>None\<close> is a label out of order, an
  event that is not one of the called operation or a result that is not the event's.
\<close>

fun advance :: "nat \<Rightarrow> ('a::zero) phase option \<Rightarrow> 'a label \<Rightarrow> 'a phase option" where
  "advance t (Some Ready) (Call u c) = (if u = t then Some (Called c) else Some Ready)"
| "advance t (Some (Called c)) (Lin u e) =
     (if u \<noteq> t then Some (Called c) else if event_of c e then Some (Linearised c e) else None)"
| "advance t (Some (Linearised c e)) (Ret u ok r) =
     (if u \<noteq> t then Some (Linearised c e) else if result_of e ok r then Some Ready else None)"
| "advance t p (Call u c) = (if u = t then None else p)"
| "advance t p (Lin u e) = (if u = t then None else p)"
| "advance t p (Ret u ok r) = (if u = t then None else p)"

definition phase_of :: "nat \<Rightarrow> ('a::zero) label list \<Rightarrow> 'a phase option" where
  "phase_of t h = foldl (advance t) (Some Ready) h"

fun lin_events :: "'a label list \<Rightarrow> 'a event list" where
  "lin_events (Lin t e # h) = e # lin_events h"
| "lin_events (l # h) = lin_events h"
| "lin_events [] = []"

text \<open>
  A linearised history: every thread runs its operations one after the other, each with exactly
  one linearisation event between its call and its return, which fits the call and the result;
  and the events, in the order in which they happened, are a run of the specification.
\<close>

definition linearised :: "('a::{linorder,zero}) label list \<Rightarrow> bool" where
  "linearised h \<longleftrightarrow> (\<forall>t. phase_of t h \<noteq> None) \<and> (\<exists>m. pq_spec_run Map.empty (lin_events h) m)"

section \<open>Linearisation points\<close>

text \<open>
  The event, if any, of the next step of a thread: the successful compare-and-swap on the bottom
  level, the read that confirms a duplicate, the fetch-and-or that finds an unmarked pointer, the
  read of a pointer to the tail.
\<close>

definition lin_event :: "'a shared \<Rightarrow> 'a thr \<Rightarrow> 'a event option" where
  "lin_event s l = (case pc l of
      I_Cas0 \<Rightarrow>
        if rd s (v_preds l ! 0) 0 = Some (v_succs l ! 0)
        then Some (Ins (v_new l) (v_k l) (v_v l)) else None
    | I_Dup3 \<Rightarrow>
        if rd s (v_preds l ! 0) 0 = Some (v_succs l ! 0) then Some (Dup (v_k l)) else None
    | D_Fao \<Rightarrow> (case rd s (v_x l) 0 of
          None \<Rightarrow> None
        | Some w \<Rightarrow> if is_marked_ref w then None
                    else (case heap s w of
                        None \<Rightarrow> None
                      | Some n \<Rightarrow> Some (Del w (nkey n) (nval n))))
    | D_Read \<Rightarrow> (case rd s (v_x l) 0 of
          None \<Rightarrow> None
        | Some w \<Rightarrow> if get_unmarked_ref w = q_tail s then Some Empty else None)
    | _ \<Rightarrow> None)"

text \<open>
  The auxiliary lists: the nodes deleted so far, oldest first, and the entries that are in the
  queue, sorted by key. \<open>play\<close> follows one event.
\<close>

type_synonym 'a entry = "ptr \<times> 'a \<times> 'a"

definition entry_key :: "'a entry \<Rightarrow> 'a" where
  "entry_key e = fst (snd e)"

fun play :: "ptr list \<times> ('a::ord) entry list \<Rightarrow> 'a event \<Rightarrow> ptr list \<times> 'a entry list" where
  "play (D, L) (Ins p k v) =
     (D, takeWhile (\<lambda>e. entry_key e < k) L @ (p, k, v) # dropWhile (\<lambda>e. entry_key e < k) L)"
| "play (D, L) (Del p k v) = (D @ [p], tl L)"
| "play DL (Dup k) = DL"
| "play DL Empty = DL"

definition play_opt :: "ptr list \<times> ('a::ord) entry list \<Rightarrow> 'a event option \<Rightarrow>
    ptr list \<times> 'a entry list" where
  "play_opt DL e = (case e of None \<Rightarrow> DL | Some ev \<Rightarrow> play DL ev)"

lemma play_opt_simps [simp]: "play_opt DL None = DL" "play_opt DL (Some e) = play DL e"
  by (simp_all add: play_opt_def)

lemma phase_of_Nil [simp]: "phase_of t [] = Some Ready"
  by (simp add: phase_of_def)

lemma phase_of_snoc [simp]: "phase_of t (h @ [e]) = advance t (phase_of t h) e"
  by (simp add: phase_of_def)

lemma lin_events_append [simp]: "lin_events (h @ h') = lin_events h @ lin_events h'"
  by (induction h rule: lin_events.induct) simp_all

lemma advance_other:
  "t \<noteq> u \<Longrightarrow> advance t p (Call u c) = p" "t \<noteq> u \<Longrightarrow> advance t p (Lin u e) = p"
  "t \<noteq> u \<Longrightarrow> advance t p (Ret u ok r) = p"
  by (cases p rule: option.exhaust; (cases "the p")?; simp)+

end
