(* ===== verification/Linden_Sys.thy ===== *)
theory Linden_Sys
  imports Linden_Spec
begin

text \<open>
  Any number of threads on one queue: the interleaving relation on the code's state and the
  history, and the states that it can reach.
\<close>

text \<open>\<open>dead\<close> and \<open>live\<close> are the auxiliary lists, \<open>hist\<close> the history so far.\<close>

record 'a sys =
  sh :: "'a shared"
  th :: "nat \<Rightarrow> 'a thr"
  hist :: "'a label list"
  dead :: "ptr list"
  live :: "'a entry list"

text \<open>Keys that the queue can hold: strictly between the (truncated) sentinel keys.\<close>

definition valid_key :: "'k::len word \<Rightarrow> bool" where
  "valid_key k \<longleftrightarrow> insert_assert k \<and> k < tail_key"

text \<open>The local arrays of \<^verbatim>\<open>insert\<close> start uninitialised.\<close>

definition call_insert :: "'a \<Rightarrow> 'a \<Rightarrow> ptr list \<Rightarrow> ptr list \<Rightarrow> 'a thr \<Rightarrow> 'a thr" where
  "call_insert k v jp js l =
     l\<lparr>pc := I_Enter, v_k := k, v_v := v, v_new := 0, v_del := 0, v_preds := jp, v_succs := js\<rparr>"

definition call_deletemin :: "'a thr \<Rightarrow> 'a thr" where
  "call_deletemin l = l\<lparr>pc := D_Enter\<rparr>"

definition fresh_addr :: "'a shared \<Rightarrow> ptr \<Rightarrow> bool" where
  "fresh_addr s p \<longleftrightarrow> valid_addr p \<and> heap s p = None"

definition running :: "pc \<Rightarrow> bool" where
  "running q \<longleftrightarrow> q \<noteq> Idle \<and> q \<noteq> Returned \<and> (\<forall>e. q \<noteq> Crashed e)"

definition exec_thread :: "variant \<Rightarrow> ptr \<Rightarrow> nat \<Rightarrow> 'k::len word sys \<Rightarrow> 'k word sys" where
  "exec_thread var fresh t \<sigma> =
     (let (s', l') = thread_step var fresh (sh \<sigma>) (th \<sigma> t);
          ev = lin_event (sh \<sigma>) (th \<sigma> t);
          (D', L') = play_opt (dead \<sigma>, live \<sigma>) ev
      in \<sigma>\<lparr>sh := s', th := (th \<sigma>)(t := l'),
           hist := (case ev of None \<Rightarrow> hist \<sigma> | Some e \<Rightarrow> hist \<sigma> @ [Lin t e]),
           dead := D', live := L'\<rparr>)"

inductive sys_step :: "variant \<Rightarrow> 'k::len word sys \<Rightarrow> 'k word sys \<Rightarrow> bool" for var where
  invoke_insert:
    "pc (th \<sigma> t) = Idle \<Longrightarrow> valid_key k \<Longrightarrow> length jp = NUM_LEVELS \<Longrightarrow> length js = NUM_LEVELS \<Longrightarrow>
     sys_step var \<sigma> (\<sigma>\<lparr>th := (th \<sigma>)(t := call_insert k v jp js (th \<sigma> t)),
                          hist := hist \<sigma> @ [Call t (Op_Insert k v)]\<rparr>)"
| invoke_deletemin:
    "pc (th \<sigma> t) = Idle \<Longrightarrow>
     sys_step var \<sigma> (\<sigma>\<lparr>th := (th \<sigma>)(t := call_deletemin (th \<sigma> t)),
                          hist := hist \<sigma> @ [Call t Op_Deletemin]\<rparr>)"
| thread:
    "running (pc (th \<sigma> t)) \<Longrightarrow> (pc (th \<sigma> t) = I_Enter \<Longrightarrow> fresh_addr (sh \<sigma>) fresh) \<Longrightarrow>
     sys_step var \<sigma> (exec_thread var fresh t \<sigma>)"
| respond:
    "pc (th \<sigma> t) = Returned \<Longrightarrow>
     sys_step var \<sigma> (\<sigma>\<lparr>th := (th \<sigma>)(t := goto Idle (th \<sigma> t)),
                          hist := hist \<sigma> @ [Ret t (v_ok (th \<sigma> t)) (v_ret (th \<sigma> t))]\<rparr>)"

text \<open>
  Initial states: the queue of \<^verbatim>\<open>pq_init\<close> and idle threads. The memory that the code leaves
  uninitialised is arbitrary, except that the first pointer slot of the tail has a clear mark
  bit: the algorithm reads it and relies on that.
\<close>

definition sys_init :: "'k::len word sys \<Rightarrow> bool" where
  "sys_init \<sigma> \<longleftrightarrow>
     (\<exists>t h junk vt vh offs.
        sh \<sigma> = pq_init t h junk vt vh offs \<and> valid_addr t \<and> valid_addr h \<and> t \<noteq> h \<and>
        length junk = NUM_LEVELS \<and> \<not> is_marked_ref (junk ! 0)) \<and>
     (\<forall>i. pc (th \<sigma> i) = Idle \<and> p_count (th \<sigma> i) = 1) \<and>
     hist \<sigma> = [] \<and> dead \<sigma> = [] \<and> live \<sigma> = []"

inductive reachable :: "variant \<Rightarrow> 'k::len word sys \<Rightarrow> bool" for var where
  reach_init: "sys_init \<sigma> \<Longrightarrow> reachable var \<sigma>"
| reach_step: "reachable var \<sigma> \<Longrightarrow> sys_step var \<sigma> \<sigma>' \<Longrightarrow> reachable var \<sigma>'"

inductive_cases sys_stepE: "sys_step var \<sigma> \<sigma>'"

end
