(* ===== verification/Linden_Level.thy ===== *)
theory Linden_Level
  imports Linden_Mem
begin

text \<open>
  The level of a new node: the shift loop of \<^verbatim>\<open>alloc_node\<close> ends between 1 and 31, so that
  the highest of the 32 levels is never used.
\<close>

lemma level_loop_ge: "level \<le> level_loop r level"
proof (induction r level rule: level_loop.induct)
  case (1 r level)
  show ?case
    using "1.IH" [OF refl] by (subst level_loop.simps) (auto simp: Let_def)
qed

lemma level_loop_le: "unat r < 2 ^ Suc n \<Longrightarrow> level_loop r level \<le> level + n"
proof (induction r level arbitrary: n rule: level_loop.induct)
  case (1 r level)
  let ?r' = "drop_bit 1 r"
  have half: "unat ?r' = unat r div 2"
    by (simp only: unat_drop_bit_eq) (simp add: drop_bit_eq_div)
  show ?case
  proof (cases "?r' AND 1 = 0")
    case True
    then show ?thesis by (subst level_loop.simps) (simp add: Let_def)
  next
    case False
    then have "?r' \<noteq> 0" by auto
    then have "unat ?r' \<noteq> 0" by (simp add: unat_eq_0)
    then obtain m where n: "n = Suc m"
      using half "1.prems" by (cases n) auto
    have "unat ?r' < 2 ^ Suc m"
      using half "1.prems" n by simp
    from "1.IH" [OF refl False this] have "level_loop ?r' (level + 1) \<le> level + 1 + m" .
    then show ?thesis
      using False n by (subst level_loop.simps) (simp add: Let_def)
  qed
qed

lemma unat_masked: "unat (r AND (push_bit (NUM_LEVELS - 1) 1 - 1) :: u32) < 2 ^ 31"
proof -
  have "(push_bit (NUM_LEVELS - 1) 1 - 1 :: u32) = mask 31"
    by (simp add: NUM_LEVELS_def mask_eq_exp_minus_1)
  then have "r AND (push_bit (NUM_LEVELS - 1) 1 - 1) = take_bit 31 r"
    by (simp add: take_bit_eq_mask)
  then show ?thesis
    using take_bit_nat_less_exp [of 31 "unat r"] by (simp add: unsigned_take_bit_eq)
qed

lemma rand_level_range: "1 \<le> rand_level r \<and> rand_level r \<le> 31"
  using level_loop_ge [of 1] level_loop_le [of _ 30 1] unat_masked [of r]
  by (simp add: rand_level_def)

lemma alloc_node_fields [simp]:
  "nkey (alloc_node r k v) = k" "nval (alloc_node r k v) = v" "ninserting (alloc_node r k v)"
  "nlevel (alloc_node r k v) = length (nnext (alloc_node r k v))"
  by (simp_all add: alloc_node_def)

lemma alloc_node_size:
  "1 \<le> length (nnext (alloc_node r k v))" "length (nnext (alloc_node r k v)) \<le> NUM_LEVELS"
  "i < length (nnext (alloc_node r k v)) \<Longrightarrow> nnext (alloc_node r k v) ! i = 0"
  using rand_level_range [of r] by (simp_all add: alloc_node_def NUM_LEVELS_def)

end
