(* ===== verification/Linden_Inv.thy ===== *)
theory Linden_Inv
  imports Linden_Sys Linden_Level
begin

text \<open>
  The inductive invariant of the Linden-Jonsson queue. \<open>glob\<close> speaks of the shared memory and the
  auxiliary lists: the deleted nodes form a chain of marked pointers, the live nodes a chain of
  unmarked pointers from the last deleted node (or the head) to the tail, sorted by key; every
  non-null pointer at a higher level leads to a node that has that level. \<open>loc\<close> gives, for each
  program counter, what the thread may rely on.
\<close>

section \<open>Reading and writing\<close>

lemma rd_Some_iff: "rd s p i = Some w \<longleftrightarrow> (\<exists>n. heap s p = Some n \<and> i < length (nnext n) \<and> nnext n ! i = w)"
  by (auto simp: rd_def split: option.splits)

lemma wr_fields [mem_simps, simp]:
  "q_head (wr s p i w) = q_head s" "q_tail (wr s p i w) = q_tail s"
  "max_offset (wr s p i w) = max_offset s" "garbage (wr s p i w) = garbage s"
  by (simp_all add: wr_def split: option.split)

lemma set_inserting_fields [mem_simps, simp]:
  "q_head (set_inserting s p b) = q_head s" "q_tail (set_inserting s p b) = q_tail s"
  "max_offset (set_inserting s p b) = max_offset s" "garbage (set_inserting s p b) = garbage s"
  by (simp_all add: set_inserting_def split: option.split)

lemma heap_wr: "heap (wr s p i w) q =
    (if q = p then map_option (\<lambda>n. n\<lparr>nnext := (nnext n)[i := w]\<rparr>) (heap s p) else heap s q)"
  by (auto simp: wr_def split: option.split)

lemma heap_set_inserting: "heap (set_inserting s p b) q =
    (if q = p then map_option (\<lambda>n. n\<lparr>ninserting := b\<rparr>) (heap s p) else heap s q)"
  by (auto simp: set_inserting_def split: option.split)

lemma rd_wr: "rd (wr s p i w) q j = (if q = p \<and> j = i \<and> rd s p i \<noteq> None then Some w else rd s q j)"
  by (auto simp: rd_def heap_wr nth_list_update split: option.splits)

lemma rd_set_inserting [simp]: "rd (set_inserting s p b) q j = rd s q j"
  by (auto simp: rd_def heap_set_inserting split: option.splits)

lemma rd_garbage [simp]: "rd (s\<lparr>garbage := g\<rparr>) q j = rd s q j"
  by (simp add: rd_def)

section \<open>Members, levels and chains\<close>

definition members :: "ptr list \<Rightarrow> 'a entry list \<Rightarrow> ptr set" where
  "members D L = set D \<union> fst ` set L"

definition okn :: "'a shared \<Rightarrow> nat \<Rightarrow> ptr \<Rightarrow> bool" where
  "okn s i p \<longleftrightarrow> (\<forall>j\<le>i. \<exists>w. rd s p j = Some w \<and> w \<noteq> 0)"

definition src :: "'a shared \<Rightarrow> ptr list \<Rightarrow> 'a entry list \<Rightarrow> nat \<Rightarrow> ptr \<Rightarrow> bool" where
  "src s D L i p \<longleftrightarrow> (p = q_head s \<or> p \<in> members D L) \<and> okn s i p"

definition dst :: "'a shared \<Rightarrow> ptr list \<Rightarrow> 'a entry list \<Rightarrow> nat \<Rightarrow> ptr \<Rightarrow> bool" where
  "dst s D L i p \<longleftrightarrow> p = q_tail s \<or> p \<in> members D L \<and> okn s i p"

definition key_of :: "'a shared \<Rightarrow> ptr \<Rightarrow> 'a" where
  "key_of s p = nkey (the (heap s p))"

fun linked :: "'a shared \<Rightarrow> bool \<Rightarrow> ptr list \<Rightarrow> bool" where
  "linked s m (p # q # ps) \<longleftrightarrow>
     rd s p 0 = Some (if m then get_marked_ref q else q) \<and> linked s m (q # ps)"
| "linked s m _ \<longleftrightarrow> True"

definition front :: "'a shared \<Rightarrow> ptr list \<Rightarrow> ptr" where
  "front s D = (if D = [] then q_head s else last D)"

definition chain_of :: "'a shared \<Rightarrow> ptr list \<Rightarrow> 'a entry list \<Rightarrow> ptr list" where
  "chain_of s D L = front s D # map fst L @ [q_tail s]"

section \<open>The invariant of the shared state\<close>

definition glob_sent :: "'k::len word shared \<Rightarrow> ptr list \<Rightarrow> 'k word entry list \<Rightarrow> bool" where
  "glob_sent s D L \<longleftrightarrow>
     q_head s \<noteq> q_tail s \<and> q_head s \<notin> members D L \<and> q_tail s \<notin> members D L \<and>
     (\<exists>n. heap s (q_head s) = Some n \<and> length (nnext n) = NUM_LEVELS \<and> \<not> ninserting n) \<and>
     okn s (NUM_LEVELS - 1) (q_head s) \<and>
     (\<exists>n. heap s (q_tail s) = Some n \<and> nkey n = tail_key \<and> length (nnext n) = NUM_LEVELS \<and>
          \<not> is_marked_ref (nnext n ! 0))"

definition glob_nodes :: "'k::len word shared \<Rightarrow> ptr list \<Rightarrow> 'k word entry list \<Rightarrow> bool" where
  "glob_nodes s D L \<longleftrightarrow>
     distinct (D @ map fst L) \<and>
     (\<forall>p \<in> dom (heap s). valid_addr p) \<and>
     (\<forall>p \<in> members D L. \<exists>n. heap s p = Some n \<and> nlevel n = length (nnext n) \<and>
        1 \<le> nlevel n \<and> nlevel n \<le> NUM_LEVELS) \<and>
     (\<forall>(p, k, v) \<in> set L. \<exists>n. heap s p = Some n \<and> nkey n = k \<and> nval n = v \<and> k < tail_key) \<and>
     sorted_wrt (<) (map entry_key L)"

definition glob_chain :: "'k::len word shared \<Rightarrow> ptr list \<Rightarrow> 'k word entry list \<Rightarrow> bool" where
  "glob_chain s D L \<longleftrightarrow>
     linked s True D \<and> linked s False (chain_of s D L) \<and>
     (D \<noteq> [] \<longrightarrow> (\<exists>m<length D. rd s (q_head s) 0 = Some (get_marked_ref (D ! m))))"

definition glob_up :: "'k::len word shared \<Rightarrow> ptr list \<Rightarrow> 'k word entry list \<Rightarrow> bool" where
  "glob_up s D L \<longleftrightarrow>
     (\<forall>p i w. p \<noteq> q_tail s \<and> 1 \<le> i \<and> rd s p i = Some w \<and> w \<noteq> 0 \<longrightarrow> dst s D L i w)"

definition glob :: "'k::len word shared \<Rightarrow> ptr list \<Rightarrow> 'k word entry list \<Rightarrow> bool" where
  "glob s D L \<longleftrightarrow> glob_sent s D L \<and> glob_nodes s D L \<and> glob_chain s D L \<and> glob_up s D L"

section \<open>The invariant of a thread\<close>

definition lo :: "('a::ord) shared \<Rightarrow> ptr list \<Rightarrow> 'a \<Rightarrow> ptr \<Rightarrow> bool" where
  "lo s D k p \<longleftrightarrow> p = q_head s \<or> p \<in> set D \<or> key_of s p < k"

definition located :: "('a::ord) shared \<Rightarrow> ptr list \<Rightarrow> 'a entry list \<Rightarrow> 'a thr \<Rightarrow> nat \<Rightarrow> bool" where
  "located s D L l j \<longleftrightarrow>
     src s D L j (v_preds l ! j) \<and> lo s D (v_k l) (v_preds l ! j) \<and> dst s D L j (v_succs l ! j)"

definition all_located :: "('a::ord) shared \<Rightarrow> ptr list \<Rightarrow> 'a entry list \<Rightarrow> 'a thr \<Rightarrow> bool" where
  "all_located s D L l \<longleftrightarrow>
     (\<forall>j<NUM_LEVELS. located s D L l j) \<and> v_k l \<le> key_of s (v_succs l ! 0)"

definition ins_ctx :: "'k::len word thr \<Rightarrow> bool" where
  "ins_ctx l \<longleftrightarrow> v_k l < tail_key \<and>
     length (v_preds l) = NUM_LEVELS \<and> length (v_succs l) = NUM_LEVELS"

definition priv_node :: "'a shared \<Rightarrow> ptr list \<Rightarrow> 'a entry list \<Rightarrow> 'a thr \<Rightarrow> bool" where
  "priv_node s D L l \<longleftrightarrow>
     v_new l \<notin> members D L \<and> v_new l \<noteq> q_head s \<and> v_new l \<noteq> q_tail s \<and>
     (\<exists>n. heap s (v_new l) = Some n \<and> nkey n = v_k l \<and> nval n = v_v l \<and>
        nlevel n = length (nnext n) \<and> 1 \<le> nlevel n \<and> nlevel n \<le> NUM_LEVELS)"

definition pub_node :: "'a shared \<Rightarrow> ptr list \<Rightarrow> 'a entry list \<Rightarrow> 'a thr \<Rightarrow> bool" where
  "pub_node s D L l \<longleftrightarrow>
     v_new l \<in> members D L \<and> 1 \<le> v_ii l \<and> okn s (v_ii l - 1) (v_new l)"

definition stale :: "'a shared \<Rightarrow> 'a thr \<Rightarrow> bool" where
  "stale s l \<longleftrightarrow> key_of s (v_succs l ! 0) \<noteq> v_k l \<or> rd s (v_preds l ! 0) 0 \<noteq> Some (v_succs l ! 0)"

text \<open>Nodes met by \<^verbatim>\<open>deletemin\<close>: deleted nodes, at or after the observed first node.\<close>

definition past_obs :: "ptr list \<Rightarrow> 'a thr \<Rightarrow> ptr \<Rightarrow> bool" where
  "past_obs D l p \<longleftrightarrow>
     (\<exists>j<length D. D ! j = p \<and> (\<forall>a<length D. v_obs_head l = get_marked_ref (D ! a) \<longrightarrow> a \<le> j))"

definition obs_ok :: "'a shared \<Rightarrow> ptr list \<Rightarrow> 'a thr \<Rightarrow> bool" where
  "obs_ok s D l \<longleftrightarrow> (is_marked_ref (v_obs_head l) \<longrightarrow>
     (\<exists>a<length D. v_obs_head l = get_marked_ref (D ! a) \<and>
        (\<exists>m<length D. a \<le> m \<and> rd s (q_head s) 0 = Some (get_marked_ref (D ! m)))))"

definition del_ctx :: "'a shared \<Rightarrow> ptr list \<Rightarrow> 'a thr \<Rightarrow> bool" where
  "del_ctx s D l \<longleftrightarrow> obs_ok s D l \<and> (v_newhead l = 0 \<or> past_obs D l (v_newhead l))"

definition rst_ctx :: "'a shared \<Rightarrow> ptr list \<Rightarrow> 'a thr \<Rightarrow> bool" where
  "rst_ctx s D l \<longleftrightarrow> is_marked_ref (v_obs_head l) \<and> obs_ok s D l \<and> past_obs D l (v_newhead l)"

definition marked_src :: "'a shared \<Rightarrow> ptr list \<Rightarrow> 'a entry list \<Rightarrow> nat \<Rightarrow> ptr \<Rightarrow> bool" where
  "marked_src s D L i p \<longleftrightarrow>
     src s D L i p \<and> (\<exists>w. rd s p 0 = Some w \<and> is_marked_ref w)"

definition loc :: "'k::len word shared \<Rightarrow> ptr list \<Rightarrow> 'k word entry list \<Rightarrow> 'k word thr \<Rightarrow> bool" where
  "loc s D L l = (case pc l of
      Idle \<Rightarrow> True
    | I_Enter \<Rightarrow> ins_ctx l \<and> insert_assert (v_k l)
    | L_Read \<Rightarrow> ins_ctx l \<and> (if v_relocate l then pub_node s D L l else priv_node s D L l) \<and>
        v_i l < NUM_LEVELS \<and> src s D L (v_i l) (v_x l) \<and> lo s D (v_k l) (v_x l) \<and>
        (\<forall>j. v_i l < j \<and> j < NUM_LEVELS \<longrightarrow> located s D L l j)
    | L_Test \<Rightarrow> ins_ctx l \<and> (if v_relocate l then pub_node s D L l else priv_node s D L l) \<and>
        v_i l < NUM_LEVELS \<and> src s D L (v_i l) (v_x l) \<and> lo s D (v_k l) (v_x l) \<and>
        (\<forall>j. v_i l < j \<and> j < NUM_LEVELS \<longrightarrow> located s D L l j) \<and>
        dst s D L (v_i l) (v_x_next l) \<and> (v_i l = 0 \<and> v_d l \<longrightarrow> v_x_next l \<in> set D)
    | I_Dup1 \<Rightarrow> ins_ctx l \<and> priv_node s D L l \<and> all_located s D L l
    | I_Dup2 \<Rightarrow> ins_ctx l \<and> priv_node s D L l \<and> all_located s D L l \<and>
        key_of s (v_succs l ! 0) = v_k l
    | I_Dup3 \<Rightarrow> ins_ctx l \<and> priv_node s D L l \<and> all_located s D L l \<and>
        key_of s (v_succs l ! 0) = v_k l
    | I_Link0 \<Rightarrow> ins_ctx l \<and> priv_node s D L l \<and> all_located s D L l \<and> stale s l
    | I_Cas0 \<Rightarrow> ins_ctx l \<and> priv_node s D L l \<and> all_located s D L l \<and> stale s l \<and>
        rd s (v_new l) 0 = Some (v_succs l ! 0)
    | I_Loop \<Rightarrow> ins_ctx l \<and> pub_node s D L l \<and> all_located s D L l
    | I_Chk1 \<Rightarrow> ins_ctx l \<and> pub_node s D L l \<and> all_located s D L l \<and>
        rd s (v_new l) (v_ii l) \<noteq> None
    | I_Chk2 \<Rightarrow> ins_ctx l \<and> pub_node s D L l \<and> all_located s D L l \<and>
        rd s (v_new l) (v_ii l) \<noteq> None
    | I_LinkI \<Rightarrow> ins_ctx l \<and> pub_node s D L l \<and> all_located s D L l \<and>
        rd s (v_new l) (v_ii l) \<noteq> None
    | I_CasI \<Rightarrow> ins_ctx l \<and> pub_node s D L l \<and> all_located s D L l \<and>
        okn s (v_ii l) (v_new l)
    | I_Re \<Rightarrow> ins_ctx l \<and> pub_node s D L l \<and> all_located s D L l
    | I_Fin \<Rightarrow> v_new l \<in> members D L
    | D_Enter \<Rightarrow> True
    | D_Read \<Rightarrow> del_ctx s D l \<and> (v_x l = q_head s \<or> past_obs D l (v_x l))
    | D_Ins \<Rightarrow> del_ctx s D l \<and> (v_x l = q_head s \<or> past_obs D l (v_x l)) \<and>
        (is_marked_ref (v_nxt l) \<longrightarrow> past_obs D l (get_unmarked_ref (v_nxt l))) \<and>
        rd s (v_x l) 0 \<noteq> Some (q_tail s)
    | D_Fao \<Rightarrow> del_ctx s D l \<and> (v_x l = q_head s \<or> past_obs D l (v_x l)) \<and>
        rd s (v_x l) 0 \<noteq> Some (q_tail s)
    | D_Val \<Rightarrow> del_ctx s D l \<and> past_obs D l (v_x l)
    | D_Hd \<Rightarrow> obs_ok s D l \<and> past_obs D l (v_newhead l)
    | D_CasH \<Rightarrow> obs_ok s D l \<and> past_obs D l (v_newhead l)
    | R_Head \<Rightarrow> rst_ctx s D l \<and> v_i l < NUM_LEVELS \<and> marked_src s D L (v_i l) (v_pred l)
    | R_Cur \<Rightarrow> rst_ctx s D l \<and> v_i l < NUM_LEVELS \<and> marked_src s D L (v_i l) (v_pred l) \<and>
        1 \<le> v_i l \<and> dst s D L (v_i l) (v_h l)
    | R_Test \<Rightarrow> rst_ctx s D l \<and> v_i l < NUM_LEVELS \<and> marked_src s D L (v_i l) (v_pred l) \<and>
        1 \<le> v_i l \<and> dst s D L (v_i l) (v_h l) \<and> dst s D L (v_i l) (v_cur l)
    | R_Walk \<Rightarrow> rst_ctx s D l \<and> v_i l < NUM_LEVELS \<and> marked_src s D L (v_i l) (v_pred l) \<and>
        1 \<le> v_i l \<and> dst s D L (v_i l) (v_cur l)
    | R_Step \<Rightarrow> rst_ctx s D l \<and> v_i l < NUM_LEVELS \<and> marked_src s D L (v_i l) (v_pred l) \<and>
        1 \<le> v_i l
    | R_Assert \<Rightarrow> rst_ctx s D l \<and> v_i l < NUM_LEVELS \<and> marked_src s D L (v_i l) (v_pred l) \<and>
        1 \<le> v_i l \<and> dst s D L (v_i l) (v_cur l)
    | R_Cas \<Rightarrow> rst_ctx s D l \<and> v_i l < NUM_LEVELS \<and> marked_src s D L (v_i l) (v_pred l) \<and>
        1 \<le> v_i l \<and> dst s D L (v_i l) (v_cur l)
    | F_Test \<Rightarrow> rst_ctx s D l \<and>
        (\<exists>c b. c \<le> b \<and> b < length D \<and> D ! c = v_cur l \<and> D ! b = v_newhead l)
    | F_Free \<Rightarrow> rst_ctx s D l \<and>
        (\<exists>c b. c < b \<and> b < length D \<and> D ! c = v_cur l \<and> D ! b = v_newhead l \<and>
               v_nxt l = D ! Suc c)
    | Leave \<Rightarrow> True
    | Returned \<Rightarrow> True
    | Crashed e \<Rightarrow> False)"

end
