(* ===== verification/Linden_Evo.thy ===== *)
theory Linden_Evo
  imports Linden_Inv
begin

text \<open>
  What a step of one thread guarantees to the others (\<open>evo\<close>: nodes keep their keys, deleted nodes
  stay deleted, marked pointers stay marked, a pointer that has left its successor never comes
  back to it, private nodes are left alone) and that this keeps every local invariant.
\<close>

section \<open>How a step may change the shared state\<close>

definition evo_nodes :: "'a shared \<Rightarrow> 'a shared \<Rightarrow> bool" where
  "evo_nodes s s' \<longleftrightarrow>
     q_head s' = q_head s \<and> q_tail s' = q_tail s \<and> max_offset s' = max_offset s \<and>
     (\<forall>p n. heap s p = Some n \<longrightarrow> (\<exists>n'. heap s' p = Some n' \<and> nkey n' = nkey n \<and>
        nval n' = nval n \<and> nlevel n' = nlevel n \<and> length (nnext n') = length (nnext n))) \<and>
     (\<forall>p i w. rd s p i = Some w \<and> w \<noteq> 0 \<longrightarrow> (\<exists>w'. rd s' p i = Some w' \<and> w' \<noteq> 0))"

definition evo_lists :: "ptr list \<Rightarrow> 'a entry list \<Rightarrow> ptr list \<Rightarrow> 'a entry list \<Rightarrow> ptr \<Rightarrow> bool" where
  "evo_lists D L D' L' q \<longleftrightarrow>
     (\<exists>E. D' = D @ E) \<and> members D L \<subseteq> members D' L' \<and> members D' L' \<subseteq> insert q (members D L)"

definition evo_marks :: "'a shared \<Rightarrow> ptr list \<Rightarrow> 'a entry list \<Rightarrow> 'a shared \<Rightarrow> ptr list \<Rightarrow> bool" where
  "evo_marks s D L s' D' \<longleftrightarrow>
     (\<forall>p w. p = q_head s \<or> p \<in> members D L \<longrightarrow> rd s p 0 = Some w \<longrightarrow> is_marked_ref w \<longrightarrow>
        (\<exists>w'. rd s' p 0 = Some w' \<and> is_marked_ref w')) \<and>
     (\<forall>p r. p = q_head s \<or> p \<in> members D L \<longrightarrow> r = q_tail s \<or> r \<in> members D L \<longrightarrow>
        rd s p 0 \<noteq> Some r \<longrightarrow> rd s' p 0 \<noteq> Some r) \<and>
     (\<forall>a<length D. rd s (q_head s) 0 = Some (get_marked_ref (D ! a)) \<longrightarrow>
        (\<exists>b<length D'. a \<le> b \<and> rd s' (q_head s) 0 = Some (get_marked_ref (D' ! b))))"

definition evo_private :: "'a shared \<Rightarrow> ptr list \<Rightarrow> 'a entry list \<Rightarrow> 'a shared \<Rightarrow> ptr \<Rightarrow> bool" where
  "evo_private s D L s' q \<longleftrightarrow>
     (\<forall>p \<in> dom (heap s). p \<notin> members D L \<longrightarrow> p \<noteq> q_head s \<longrightarrow> p \<noteq> q \<longrightarrow> heap s' p = heap s p)"

definition evo :: "'a shared \<Rightarrow> ptr list \<Rightarrow> 'a entry list \<Rightarrow>
    'a shared \<Rightarrow> ptr list \<Rightarrow> 'a entry list \<Rightarrow> ptr \<Rightarrow> bool" where
  "evo s D L s' D' L' q \<longleftrightarrow>
     evo_nodes s s' \<and> evo_lists D L D' L' q \<and> evo_marks s D L s' D' \<and> evo_private s D L s' q"

lemma evo_refl: "evo s D L s D L q"
  by (auto simp: evo_def evo_nodes_def evo_lists_def evo_marks_def evo_private_def)

section \<open>Stability of the facts a thread relies on\<close>

lemma evo_head: "evo s D L s' D' L' q \<Longrightarrow> q_head s' = q_head s"
  and evo_tail: "evo s D L s' D' L' q \<Longrightarrow> q_tail s' = q_tail s"
  and evo_offset: "evo s D L s' D' L' q \<Longrightarrow> max_offset s' = max_offset s"
  by (auto simp: evo_def evo_nodes_def)

lemma glob_member:
  assumes "glob s D L" and "p \<in> members D L"
  obtains n where "heap s p = Some n" "nlevel n = length (nnext n)" "1 \<le> nlevel n"
    "nlevel n \<le> NUM_LEVELS" "valid_addr p" "p \<noteq> q_head s" "p \<noteq> q_tail s"
proof -
  from assms obtain n where n: "heap s p = Some n" "nlevel n = length (nnext n)" "1 \<le> nlevel n"
      "nlevel n \<le> NUM_LEVELS"
    by (auto simp: glob_def glob_nodes_def)
  moreover from assms n(1) have "valid_addr p"
    by (auto simp: glob_def glob_nodes_def)
  moreover from assms have "p \<noteq> q_head s" "p \<noteq> q_tail s"
    by (auto simp: glob_def glob_sent_def)
  ultimately show thesis by (rule that)
qed

lemma glob_valid: "glob s D L \<Longrightarrow> p \<in> members D L \<Longrightarrow> valid_addr p"
  by (blast elim: glob_member)

lemma set_D_members: "p \<in> set D \<Longrightarrow> p \<in> members D L"
  by (simp add: members_def)

lemma nth_D_members: "j < length D \<Longrightarrow> D ! j \<in> members D L"
  by (simp add: members_def)

lemma glob_sentinels:
  assumes "glob s D L"
  shows "valid_addr (q_head s)" "valid_addr (q_tail s)" "q_head s \<noteq> q_tail s"
    "q_head s \<notin> members D L" "q_tail s \<notin> members D L" "okn s (NUM_LEVELS - 1) (q_head s)"
    "heap s (q_head s) \<noteq> None" "heap s (q_tail s) \<noteq> None" "key_of s (q_tail s) = tail_key"
    "\<exists>w. rd s (q_tail s) 0 = Some w \<and> \<not> is_marked_ref w"
  using assms by (auto simp: glob_def glob_sent_def glob_nodes_def key_of_def rd_def NUM_LEVELS_def)

lemma evo_members: "evo s D L s' D' L' q \<Longrightarrow> p \<in> members D L \<Longrightarrow> p \<in> members D' L'"
  by (auto simp: evo_def evo_lists_def)

lemma evo_okn: "evo s D L s' D' L' q \<Longrightarrow> okn s i p \<Longrightarrow> okn s' i p"
  unfolding okn_def evo_def evo_nodes_def by meson

lemma evo_src: "evo s D L s' D' L' q \<Longrightarrow> src s D L i p \<Longrightarrow> src s' D' L' i p"
  using evo_head evo_okn evo_members unfolding src_def by metis

lemma evo_dst: "evo s D L s' D' L' q \<Longrightarrow> dst s D L i p \<Longrightarrow> dst s' D' L' i p"
  using evo_tail evo_okn evo_members unfolding dst_def by metis

lemma evo_key: "evo s D L s' D' L' q \<Longrightarrow> heap s p = Some n \<Longrightarrow> key_of s' p = key_of s p"
  by (fastforce simp: key_of_def evo_def evo_nodes_def)

lemma evo_D: "evo s D L s' D' L' q \<Longrightarrow> p \<in> set D \<Longrightarrow> p \<in> set D'"
  by (auto simp: evo_def evo_lists_def)

lemma evo_nth: "evo s D L s' D' L' q \<Longrightarrow> j < length D \<Longrightarrow> j < length D' \<and> D' ! j = D ! j"
  by (auto simp: evo_def evo_lists_def nth_append)

lemma evo_rd_defined: "evo s D L s' D' L' q \<Longrightarrow> rd s p i \<noteq> None \<Longrightarrow> rd s' p i \<noteq> None"
proof -
  assume e: "evo s D L s' D' L' q" and r: "rd s p i \<noteq> None"
  then obtain n where "heap s p = Some n" "i < length (nnext n)"
    by (auto simp: rd_def split: option.splits if_splits)
  with e show ?thesis
    by (fastforce simp: evo_def evo_nodes_def rd_def)
qed

lemma okn_heap: "okn s i p \<Longrightarrow> \<exists>n. heap s p = Some n"
  by (fastforce simp: okn_def rd_def split: option.splits)

lemma src_heap: "src s D L i p \<Longrightarrow> \<exists>n. heap s p = Some n"
  by (auto simp: src_def dest: okn_heap)

lemma dst_heap: "glob s D L \<Longrightarrow> dst s D L i p \<Longrightarrow> \<exists>n. heap s p = Some n"
  by (auto simp: dst_def glob_def glob_sent_def dest: okn_heap)

lemma evo_lo: "evo s D L s' D' L' q \<Longrightarrow> src s D L i p \<Longrightarrow> lo s D k p \<Longrightarrow> lo s' D' k p"
  unfolding lo_def using evo_head evo_D evo_key src_heap by metis

lemma evo_located: "evo s D L s' D' L' q \<Longrightarrow> located s D L l j \<Longrightarrow> located s' D' L' l j"
  unfolding located_def using evo_src evo_lo evo_dst by metis

lemma evo_all_located:
  assumes e: "evo s D L s' D' L' q" and g: "glob s D L" and a: "all_located s D L l"
  shows "all_located s' D' L' l"
proof -
  have "dst s D L 0 (v_succs l ! 0)"
    using a by (auto simp: all_located_def located_def NUM_LEVELS_def)
  then obtain n where "heap s (v_succs l ! 0) = Some n"
    using dst_heap [OF g] by blast
  then have "key_of s' (v_succs l ! 0) = key_of s (v_succs l ! 0)"
    by (rule evo_key [OF e])
  then show ?thesis
    using a evo_located [OF e] by (simp add: all_located_def)
qed

lemma evo_succ_key:
  assumes "evo s D L s' D' L' q" "glob s D L" "all_located s D L l"
  shows "key_of s' (v_succs l ! 0) = key_of s (v_succs l ! 0)"
proof -
  have "dst s D L 0 (v_succs l ! 0)"
    using assms by (auto simp: all_located_def located_def NUM_LEVELS_def)
  then show ?thesis
    using dst_heap [OF assms(2)] evo_key [OF assms(1)] by blast
qed

lemma evo_stale:
  assumes e: "evo s D L s' D' L' q" and g: "glob s D L" and a: "all_located s D L l"
    and st: "stale s l"
  shows "stale s' l"
proof -
  have l0: "located s D L l 0"
    using a by (simp add: all_located_def NUM_LEVELS_def)
  show ?thesis
  proof (cases "key_of s (v_succs l ! 0) = v_k l")
    case True
    with st have "rd s (v_preds l ! 0) 0 \<noteq> Some (v_succs l ! 0)"
      by (simp add: stale_def)
    moreover have "v_preds l ! 0 = q_head s \<or> v_preds l ! 0 \<in> members D L"
        "v_succs l ! 0 = q_tail s \<or> v_succs l ! 0 \<in> members D L"
      using l0 by (auto simp: located_def src_def dst_def)
    ultimately have "rd s' (v_preds l ! 0) 0 \<noteq> Some (v_succs l ! 0)"
      using e unfolding evo_def evo_marks_def by blast
    then show ?thesis by (simp add: stale_def)
  next
    case False
    then show ?thesis
      using evo_succ_key [OF e g a] by (simp add: stale_def)
  qed
qed

lemma evo_priv_node:
  assumes e: "evo s D L s' D' L' q" and p: "priv_node s D L l" and q: "v_new l \<noteq> q"
  shows "priv_node s' D' L' l" and "rd s' (v_new l) i = rd s (v_new l) i"
proof -
  have h: "heap s' (v_new l) = heap s (v_new l)"
    using e p q by (auto simp: evo_def evo_private_def priv_node_def)
  show "priv_node s' D' L' l"
    using e p q h by (auto simp: priv_node_def evo_def evo_lists_def evo_nodes_def)
  show "rd s' (v_new l) i = rd s (v_new l) i"
    by (simp add: rd_def h)
qed

lemma evo_pub_node: "evo s D L s' D' L' q \<Longrightarrow> pub_node s D L l \<Longrightarrow> pub_node s' D' L' l"
  by (auto simp: pub_node_def intro: evo_okn evo_members)

lemma evo_past_obs:
  assumes e: "evo s D L s' D' L' q" and o: "obs_ok s D l" "glob s D L"
    and dd: "glob s' D' L'" and p: "past_obs D l p"
  shows "past_obs D' l p"
proof -
  obtain j where j: "j < length D" "D ! j = p"
    "\<forall>a<length D. v_obs_head l = get_marked_ref (D ! a) \<longrightarrow> a \<le> j"
    using p by (auto simp: past_obs_def)
  have j': "j < length D'" "D' ! j = p"
    using evo_nth [OF e j(1)] j(2) by auto
  have "a \<le> j" if a: "a < length D'" "v_obs_head l = get_marked_ref (D' ! a)" for a
  proof -
    have "is_marked_ref (v_obs_head l)" using a by simp
    then obtain b where b: "b < length D" "v_obs_head l = get_marked_ref (D ! b)"
      using o by (auto simp: obs_ok_def)
    have b': "b < length D'" "D' ! b = D ! b"
      using evo_nth [OF e b(1)] by auto
    have val: "\<forall>x \<in> set D'. \<not> is_marked_ref x"
      using glob_valid [OF dd] set_D_members by blast
    have "get_marked_ref (D' ! a) = get_marked_ref (D' ! b)"
      using a b b' by simp
    moreover have "\<not> is_marked_ref (D' ! a)" "\<not> is_marked_ref (D' ! b)"
      using val nth_mem [OF a(1)] nth_mem [OF b'(1)] by blast+
    ultimately have "D' ! a = D' ! b"
      by (metis mark_inj)
    moreover have "distinct D'"
      using dd by (simp add: glob_def glob_nodes_def)
    ultimately have "a = b"
      using nth_eq_iff_index_eq [OF _ a(1) b'(1)] by blast
    with b j(3) show ?thesis by blast
  qed
  with j' show ?thesis
    by (auto simp: past_obs_def)
qed

lemma evo_obs_ok:
  assumes e: "evo s D L s' D' L' q" and o: "obs_ok s D l"
  shows "obs_ok s' D' l"
proof (unfold obs_ok_def, intro impI)
  assume "is_marked_ref (v_obs_head l)"
  then obtain a m where a: "a < length D" "v_obs_head l = get_marked_ref (D ! a)"
    and m: "m < length D" "a \<le> m" "rd s (q_head s) 0 = Some (get_marked_ref (D ! m))"
    using o by (auto simp: obs_ok_def)
  from m e obtain b where b: "b < length D'" "m \<le> b" "rd s' (q_head s) 0 = Some (get_marked_ref (D' ! b))"
    unfolding evo_def evo_marks_def by blast
  have a': "a < length D'" "v_obs_head l = get_marked_ref (D' ! a)"
    using a evo_nth [OF e a(1)] by auto
  moreover have "a \<le> b" "rd s' (q_head s') 0 = Some (get_marked_ref (D' ! b))"
    using b m(2) evo_head [OF e] by auto
  ultimately show "\<exists>a<length D'. v_obs_head l = get_marked_ref (D' ! a) \<and>
      (\<exists>m<length D'. a \<le> m \<and> rd s' (q_head s') 0 = Some (get_marked_ref (D' ! m)))"
    using b(1) by blast
qed

lemma evo_marked_src:
  assumes e: "evo s D L s' D' L' q" and m: "marked_src s D L i p"
  shows "marked_src s' D' L' i p"
proof -
  from m obtain w where w: "src s D L i p" "rd s p 0 = Some w" "is_marked_ref w"
    by (auto simp: marked_src_def)
  then have "p = q_head s \<or> p \<in> members D L" by (simp add: src_def)
  with e w(2,3) have "\<exists>w'. rd s' p 0 = Some w' \<and> is_marked_ref w'"
    unfolding evo_def evo_marks_def by blast
  with evo_src [OF e w(1)] show ?thesis by (simp add: marked_src_def)
qed

lemma evo_del_ctx:
  "evo s D L s' D' L' q \<Longrightarrow> glob s D L \<Longrightarrow> glob s' D' L' \<Longrightarrow> del_ctx s D l \<Longrightarrow> del_ctx s' D' l"
  unfolding del_ctx_def using evo_obs_ok evo_past_obs by metis

lemma evo_rst_ctx:
  "evo s D L s' D' L' q \<Longrightarrow> glob s D L \<Longrightarrow> glob s' D' L' \<Longrightarrow> rst_ctx s D l \<Longrightarrow> rst_ctx s' D' l"
  unfolding rst_ctx_def using evo_obs_ok evo_past_obs by metis

definition is_private :: "'a thr \<Rightarrow> bool" where
  "is_private l \<longleftrightarrow> pc l \<in> {I_Dup1, I_Dup2, I_Dup3, I_Link0, I_Cas0} \<or>
     pc l \<in> {L_Read, L_Test} \<and> \<not> v_relocate l"

lemma evo_loc:
  assumes e: "evo s D L s' D' L' q" and g: "glob s D L" "glob s' D' L'"
    and l: "loc s D L l" and q: "is_private l \<Longrightarrow> v_new l \<noteq> q"
  shows "loc s' D' L' l"
proof -
  note hd = evo_head [OF e] and tl = evo_tail [OF e]
  note st = evo_pub_node [OF e] evo_src [OF e] evo_dst [OF e] evo_lo [OF e] evo_located [OF e]
    evo_all_located [OF e g(1)] evo_stale [OF e g(1)] evo_members [OF e] evo_D [OF e]
    evo_del_ctx [OF e g] evo_rst_ctx [OF e g] evo_obs_ok [OF e] evo_marked_src [OF e] evo_okn [OF e]
    evo_past_obs [OF e _ g]
  have pn: "priv_node s D L l \<Longrightarrow> v_new l \<noteq> q \<Longrightarrow> priv_node s' D' L' l"
    by (rule evo_priv_node(1) [OF e])
  have obs: "del_ctx s D l \<Longrightarrow> obs_ok s D l" by (simp add: del_ctx_def)
  have nt: "rd s' (v_x l) 0 \<noteq> Some (q_tail s')"
    if "rd s (v_x l) 0 \<noteq> Some (q_tail s)" "v_x l = q_head s \<or> past_obs D l (v_x l)"
    using e that tl set_D_members unfolding evo_def evo_marks_def past_obs_def
    by (metis nth_mem)
  show ?thesis
  proof (cases "pc l")
    case L_Read
    then show ?thesis
      using l q pn st evo_lo [OF e, of "v_i l"] by (auto simp: loc_def is_private_def)
  next
    case L_Test
    then show ?thesis
      using l q pn st evo_lo [OF e, of "v_i l"] by (auto simp: loc_def is_private_def)
  next
    case I_Cas0
    then have "rd s' (v_new l) 0 = rd s (v_new l) 0"
      using l q evo_priv_node(2) [OF e] by (simp add: loc_def is_private_def)
    then show ?thesis
      using I_Cas0 l q pn st by (simp add: loc_def is_private_def)
  next
    case I_Dup2
    then show ?thesis
      using l q pn st evo_succ_key [OF e g(1)] by (simp add: loc_def is_private_def)
  next
    case I_Dup3
    then show ?thesis
      using l q pn st evo_succ_key [OF e g(1)] by (simp add: loc_def is_private_def)
  next
    case I_Chk1
    then show ?thesis using l st evo_rd_defined [OF e, of "v_new l" "v_ii l"] by (auto simp: loc_def)
  next
    case I_Chk2
    then show ?thesis using l st evo_rd_defined [OF e, of "v_new l" "v_ii l"] by (auto simp: loc_def)
  next
    case I_LinkI
    then show ?thesis using l st evo_rd_defined [OF e, of "v_new l" "v_ii l"] by (auto simp: loc_def)
  next
    case D_Read
    then show ?thesis using l st obs hd by (auto simp: loc_def)
  next
    case D_Ins
    then show ?thesis using l st obs hd nt by (auto simp: loc_def)
  next
    case D_Fao
    then show ?thesis using l st obs hd nt by (auto simp: loc_def)
  next
    case F_Test
    then obtain c b where cb: "c \<le> b" "b < length D" "D ! c = v_cur l" "D ! b = v_newhead l"
      using l by (auto simp: loc_def)
    then have "c < length D" by simp
    then have "c \<le> b \<and> b < length D' \<and> D' ! c = v_cur l \<and> D' ! b = v_newhead l"
      using cb evo_nth [OF e] by metis
    then show ?thesis
      using F_Test l st by (auto simp: loc_def)
  next
    case F_Free
    then obtain c b where cb: "c < b" "b < length D" "D ! c = v_cur l" "D ! b = v_newhead l"
        "v_nxt l = D ! Suc c"
      using l by (auto simp: loc_def)
    then have "c < length D" "Suc c < length D" by simp_all
    then have "c < b \<and> b < length D' \<and> D' ! c = v_cur l \<and> D' ! b = v_newhead l \<and> v_nxt l = D' ! Suc c"
      using cb evo_nth [OF e] by metis
    then show ?thesis
      using F_Free l st by (auto simp: loc_def)
  qed (use l q pn st obs in \<open>simp_all add: loc_def is_private_def\<close>)
qed

end
