(* ===== verification/Linden_Chain.thy ===== *)
theory Linden_Chain
  imports Linden_Evo
begin

text \<open>
  The bottom level of the list: where a pointer can lead. A node whose bottom pointer is unmarked
  is the last deleted node (or the head) or a live node; a marked bottom pointer leads to a
  deleted node.
\<close>

section \<open>Chains of bottom-level pointers\<close>

lemma linked_snoc_append:
  "linked s m (as @ p # cs) \<longleftrightarrow> linked s m (as @ [p]) \<and> linked s m (p # cs)"
proof (induction as)
  case (Cons a as)
  then show ?case by (cases as) auto
qed simp

lemma linked_cong:
  "(\<And>x. x \<in> set (butlast xs) \<Longrightarrow> rd s' x 0 = rd s x 0) \<Longrightarrow> linked s' m xs = linked s m xs"
proof (induction xs rule: induct_list012)
  case (3 x y zs)
  from "3.prems" have "rd s' x 0 = rd s x 0" "\<And>u. u \<in> set (butlast (y # zs)) \<Longrightarrow> rd s' u 0 = rd s u 0"
    by auto
  with "3.IH"(2) show ?case by simp
qed simp_all

lemma linked_nth:
  "linked s m xs \<Longrightarrow> Suc i < length xs \<Longrightarrow>
     rd s (xs ! i) 0 = Some (if m then get_marked_ref (xs ! Suc i) else xs ! Suc i)"
proof (induction xs arbitrary: i rule: induct_list012)
  case (3 x y zs)
  then show ?case by (cases i) auto
qed simp_all

lemma linked_insert:
  assumes l: "linked s False (as @ p # r # bs)" and d: "distinct (as @ p # r # bs)"
    and n: "rd s n 0 = Some r" "n \<notin> set (as @ p # r # bs)" and p: "rd s p 0 \<noteq> None"
  shows "linked (wr s p 0 n) False (as @ p # n # r # bs)"
proof -
  let ?s = "wr s p 0 n"
  have split: "linked s False (as @ [p])" "linked s False (r # bs)"
    using l linked_snoc_append [of s False as p "r # bs"] by simp_all
  have "linked ?s False (as @ [p])"
    using split(1) d by (subst linked_cong [of _ _ s]) (auto simp: rd_wr butlast_append)
  moreover have "linked ?s False (r # bs)"
    using split(2) d by (subst linked_cong [of _ _ s]) (auto simp: rd_wr dest: in_set_butlastD split: if_splits)
  moreover have "rd ?s p 0 = Some n" "rd ?s n 0 = Some r"
    using n p d by (auto simp: rd_wr)
  ultimately show ?thesis
    using linked_snoc_append [of ?s False as p "n # r # bs"] by simp
qed

lemma linked_snoc: "linked s m (xs @ [x, y]) \<longleftrightarrow>
    linked s m (xs @ [x]) \<and> rd s x 0 = Some (if m then get_marked_ref y else y)"
  using linked_snoc_append [of s m xs x "[y]"] by simp

lemma wr_same: "rd s p i = Some w \<Longrightarrow> wr s p i w = s"
  by (auto simp: rd_def wr_def fun_upd_idem split: option.splits if_splits)

section \<open>What the bottom level looks like\<close>

lemma get_marked_nonzero [simp]: "get_marked_ref p \<noteq> 0"
  using marked_of_marked [of p] marked_zero by metis

lemma head_empty:
  assumes g: "glob s D L" and "rd s (q_head s) 0 = Some w" "\<not> is_marked_ref w"
  shows "D = []"
  using assms by (auto simp: glob_def glob_chain_def)

lemma dead_next:
  assumes g: "glob s D L" and j: "Suc j < length D"
  shows "rd s (D ! j) 0 = Some (get_marked_ref (D ! Suc j))"
  using linked_nth [of s True D j] g j by (simp add: glob_def glob_chain_def)

lemma chain_next:
  assumes g: "glob s D L" and j: "j \<le> length L"
  shows "rd s (chain_of s D L ! j) 0 = Some (chain_of s D L ! Suc j)"
  using linked_nth [of s False "chain_of s D L" j] g j
  by (simp add: glob_def glob_chain_def chain_of_def)

lemma front_cases: "front s D = q_head s \<and> D = [] \<or> front s D \<in> set D \<and> D \<noteq> []"
  by (simp add: front_def)

lemma chain_elems:
  assumes "x \<in> set (chain_of s D L)"
  shows "x = front s D \<or> x \<in> fst ` set L \<or> x = q_tail s"
  using assms by (auto simp: chain_of_def)

lemma chain_dist:
  assumes g: "glob s D L"
  shows "distinct (chain_of s D L)"
proof -
  have d: "distinct (D @ map fst L)" using g by (simp add: glob_def glob_nodes_def)
  have "front s D \<notin> fst ` set L" "front s D \<noteq> q_tail s"
    using front_cases [of s D] d glob_sentinels(3,4,5) [OF g]
    by (auto simp: members_def image_iff)
  moreover have "q_tail s \<notin> fst ` set L"
    using glob_sentinels(5) [OF g] by (simp add: members_def)
  ultimately show ?thesis
    using d by (simp add: chain_of_def)
qed

text \<open>A node with an unmarked bottom pointer is the front node or live.\<close>

lemma position:
  assumes g: "glob s D L" and p: "p = q_head s \<or> p \<in> members D L"
    and r: "rd s p 0 = Some w" "\<not> is_marked_ref w"
  obtains j where "j \<le> length L" "p = chain_of s D L ! j" "w = chain_of s D L ! Suc j"
proof -
  have "p = front s D \<or> p \<in> fst ` set L"
  proof (cases "p = q_head s")
    case True
    then show ?thesis using head_empty [OF g] r by (simp add: front_def)
  next
    case False
    then consider "p \<in> set D" | "p \<in> fst ` set L" using p by (auto simp: members_def)
    then show ?thesis
    proof cases
      case 1
      then obtain j where j: "j < length D" "D ! j = p" by (auto simp: in_set_conv_nth)
      have "\<not> Suc j < length D" using dead_next [OF g, of j] j r by auto
      then have "j = length D - 1" using j by simp
      with j show ?thesis by (auto simp: front_def last_conv_nth)
    qed simp
  qed
  then have "p \<in> set (front s D # map fst L)" by auto
  then obtain j where j: "j < length (front s D # map fst L)" "(front s D # map fst L) ! j = p"
    unfolding in_set_conv_nth by blast
  then have j': "j \<le> length L" "p = chain_of s D L ! j"
    by (auto simp: chain_of_def nth_append nth_Cons split: nat.splits)
  with chain_next [OF g j'(1)] r(1) that show thesis by simp
qed

text \<open>What a read of a bottom pointer returns.\<close>

lemma chain_nth_dst:
  assumes g: "glob s D L" and j: "j \<le> length L"
  shows "chain_of s D L ! Suc j = q_tail s \<or> chain_of s D L ! Suc j \<in> fst ` set L"
  using j by (auto simp: chain_of_def nth_append)

lemma marked_dead:
  assumes g: "glob s D L" and p: "p = q_head s \<or> p \<in> members D L \<or> p = q_tail s"
    and r: "rd s p 0 = Some w" "is_marked_ref w"
  shows "p = q_head s \<or> p \<in> set D"
    "\<exists>j<length D. w = get_marked_ref (D ! j) \<and> (p = q_head s \<or> (\<exists>i. j = Suc i \<and> p = D ! i))"
proof -
  have live: "p \<notin> set (front s D # map fst L)"
  proof
    assume "p \<in> set (front s D # map fst L)"
    then obtain j where "j < length (front s D # map fst L)" "(front s D # map fst L) ! j = p"
      unfolding in_set_conv_nth by blast
    then have j: "j \<le> length L" "p = chain_of s D L ! j"
      by (auto simp: chain_of_def nth_append nth_Cons split: nat.splits)
    have "valid_addr (chain_of s D L ! Suc j)"
      using chain_nth_dst [OF g j(1)] glob_valid [OF g] glob_sentinels(2) [OF g]
      by (auto simp: members_def)
    with chain_next [OF g j(1)] j(2) r show False by auto
  qed
  moreover have "p \<noteq> q_tail s"
    using glob_sentinels(10) [OF g] r by auto
  ultimately show "p = q_head s \<or> p \<in> set D"
    using p by (auto simp: members_def)
  then show "\<exists>j<length D. w = get_marked_ref (D ! j) \<and> (p = q_head s \<or> (\<exists>i. j = Suc i \<and> p = D ! i))"
  proof
    assume h: "p = q_head s"
    have "D \<noteq> []" using live h by (auto simp: front_def)
    with g r h show ?thesis by (auto simp: glob_def glob_chain_def)
  next
    assume "p \<in> set D"
    then obtain i where i: "i < length D" "D ! i = p" by (auto simp: in_set_conv_nth)
    have "Suc i < length D"
    proof (rule ccontr)
      assume "\<not> Suc i < length D"
      then have "i = length D - 1" using i by simp
      then have "p = front s D" using i by (auto simp: front_def last_conv_nth)
      with live show False by simp
    qed
    with dead_next [OF g this] i r show ?thesis by auto
  qed
qed

lemma bottom_defined:
  assumes g: "glob s D L" and p: "p = q_head s \<or> p \<in> members D L"
  shows "okn s 0 p"
proof -
  obtain w where w: "rd s p 0 = Some w"
  proof (cases "p = q_head s")
    case True
    then show thesis using that glob_sentinels(6) [OF g] by (auto simp: okn_def)
  next
    case False
    with p have "p \<in> members D L" by simp
    then obtain n where "heap s p = Some n" "nlevel n = length (nnext n)" "1 \<le> nlevel n"
      by (rule glob_member [OF g])
    then have "rd s p 0 = Some (nnext n ! 0)" by (auto simp: rd_def)
    then show thesis by (rule that)
  qed
  have "w \<noteq> 0"
  proof (cases "is_marked_ref w")
    case False
    with g p w obtain j where "j \<le> length L" "w = chain_of s D L ! Suc j"
      by (rule position)
    then have "valid_addr w"
      using chain_nth_dst [OF g, of j] glob_valid [OF g, of w] glob_sentinels(2) [OF g]
      by (auto simp: members_def)
    then show ?thesis by auto
  qed auto
  with w show ?thesis by (simp add: okn_def)
qed

lemma member_dst0: "glob s D L \<Longrightarrow> p \<in> members D L \<Longrightarrow> dst s D L 0 p"
  by (simp add: dst_def bottom_defined)

lemma next0:
  assumes g: "glob s D L" and x: "x = q_head s \<or> x \<in> members D L"
  obtains w where "rd s x 0 = Some w" "w \<noteq> 0"
    "dst s D L 0 (get_unmarked_ref w)" "get_unmarked_ref w \<noteq> 0"
    "is_marked_ref w \<Longrightarrow> get_unmarked_ref w \<in> set D"
proof -
  obtain w where w: "rd s x 0 = Some w" "w \<noteq> 0"
    using bottom_defined [OF g x] by (auto simp: okn_def)
  show thesis
  proof (cases "is_marked_ref w")
    case True
    obtain j where j: "j < length D" "w = get_marked_ref (D ! j)"
      using marked_dead(2) [OF g _ w(1) True] x by blast
    have "valid_addr (D ! j)" using glob_valid [OF g] j by (simp add: members_def)
    then have "get_unmarked_ref w = D ! j" "D ! j \<noteq> 0" using j by auto
    with that w j show thesis
      using member_dst0 [OF g] by (simp add: nth_D_members)
  next
    case False
    obtain j where j: "j \<le> length L" "w = chain_of s D L ! Suc j"
      using position [OF g x w(1) False] .
    have "dst s D L 0 w"
      using chain_nth_dst [OF g j(1)] member_dst0 [OF g] j
      by (auto simp: members_def dst_def)
    with that w False show thesis by (simp add: unmarked_id)
  qed
qed

lemma next_up:
  assumes g: "glob s D L" and x: "src s D L i x" and i: "1 \<le> i"
  obtains w where "rd s x i = Some w" "w \<noteq> 0" "dst s D L i w" "\<not> is_marked_ref w"
proof -
  obtain w where w: "rd s x i = Some w" "w \<noteq> 0"
    using x by (auto simp: src_def okn_def)
  have "x \<noteq> q_tail s"
    using x glob_sentinels(3,5) [OF g] by (auto simp: src_def)
  with g w i have d: "dst s D L i w" by (auto simp: glob_def glob_up_def)
  then have "valid_addr w"
    using glob_valid [OF g] glob_sentinels(2) [OF g] by (auto simp: dst_def)
  with w d that show thesis by simp
qed

lemma dst_valid: "glob s D L \<Longrightarrow> dst s D L i p \<Longrightarrow> valid_addr p"
  using glob_valid glob_sentinels(2) by (fastforce simp: dst_def)

lemma dst_bottom:
  assumes g: "glob s D L" and d: "dst s D L i p"
  obtains w where "rd s p 0 = Some w" "is_marked_ref w \<longrightarrow> p \<in> set D"
proof (cases "p = q_tail s")
  case True
  then show thesis using glob_sentinels(10) [OF g] that by auto
next
  case False
  then have p: "p \<in> members D L" using d by (simp add: dst_def)
  then obtain w where w: "rd s p 0 = Some w"
    using bottom_defined [OF g, of p] by (auto simp: okn_def)
  have "p \<noteq> q_head s" using p glob_sentinels(4) [OF g] by auto
  with that w marked_dead(1) [OF g] p show thesis by metis
qed

end
