(* ===== verification/Linden_Update.thy ===== *)
theory Linden_Update
  imports Linden_Chain
begin

text \<open>
  Every update of shared memory that the code makes keeps the shared invariant and is one that
  the other threads can tolerate: the updates that leave the bottom level alone (allocation, the
  \<^verbatim>\<open>inserting\<close> flag, private nodes, higher levels), the swing of the head, the deletion of
  the first live node and the insertion of a node.
\<close>

definition upd :: "'k::len word shared \<Rightarrow> ptr list \<Rightarrow> 'k word entry list \<Rightarrow>
    'k word shared \<Rightarrow> ptr list \<Rightarrow> 'k word entry list \<Rightarrow> ptr \<Rightarrow> bool" where
  "upd s D L s' D' L' q \<longleftrightarrow> glob s' D' L' \<and> evo s D L s' D' L' q"

lemma upd_refl: "glob s D L \<Longrightarrow> upd s D L s D L q"
  by (simp add: upd_def evo_refl)

section \<open>Updates that leave the bottom level of the queue alone\<close>

definition same_nodes :: "'a shared \<Rightarrow> 'a shared \<Rightarrow> bool" where
  "same_nodes s s' \<longleftrightarrow>
     q_head s' = q_head s \<and> q_tail s' = q_tail s \<and> max_offset s' = max_offset s \<and>
     (\<forall>p n. heap s p = Some n \<longrightarrow> (\<exists>n'. heap s' p = Some n' \<and> nkey n' = nkey n \<and>
        nval n' = nval n \<and> nlevel n' = nlevel n \<and> length (nnext n') = length (nnext n) \<and>
        (p = q_head s \<longrightarrow> ninserting n' = ninserting n))) \<and>
     (\<forall>p i w. rd s p i = Some w \<and> w \<noteq> 0 \<longrightarrow> (\<exists>w'. rd s' p i = Some w' \<and> w' \<noteq> 0)) \<and>
     (\<forall>p \<in> dom (heap s'). p \<in> dom (heap s) \<or> valid_addr p)"

lemma same_nodes_evo: "same_nodes s s' \<Longrightarrow> evo_nodes s s'"
  unfolding same_nodes_def evo_nodes_def by fast

lemma same_nodes_wr: "w \<noteq> 0 \<Longrightarrow> same_nodes s (wr s p i w)"
  by (auto simp: same_nodes_def heap_wr rd_wr split: if_splits)

lemma same_nodes_set_inserting: "p \<noteq> q_head s \<Longrightarrow> same_nodes s (set_inserting s p b)"
  by (auto simp: same_nodes_def heap_set_inserting split: if_splits)

lemma same_nodes_garbage: "same_nodes s s' \<Longrightarrow> same_nodes s (s'\<lparr>garbage := g\<rparr>)"
  by (simp add: same_nodes_def)

lemma same_nodes_alloc: "fresh_addr s p \<Longrightarrow> same_nodes s (s\<lparr>heap := (heap s)(p \<mapsto> n)\<rparr>)"
  by (auto simp: same_nodes_def fresh_addr_def rd_def)

lemma glob_sent_step:
  assumes g: "glob s D L" and n: "same_nodes s s'"
    and m: "q_head s \<notin> members D' L'" "q_tail s \<notin> members D' L'"
    and t: "rd s' (q_tail s) 0 = rd s (q_tail s) 0"
  shows "glob_sent s' D' L'"
proof -
  have gs: "glob_sent s D L" using g by (simp add: glob_def)
  have f: "q_head s' = q_head s" "q_tail s' = q_tail s"
    using n by (auto simp: same_nodes_def)
  obtain nh where "heap s (q_head s) = Some nh" "length (nnext nh) = NUM_LEVELS" "\<not> ninserting nh"
    using gs by (auto simp: glob_sent_def)
  with n have h: "\<exists>n. heap s' (q_head s) = Some n \<and> length (nnext n) = NUM_LEVELS \<and> \<not> ninserting n"
    unfolding same_nodes_def by metis
  obtain nt where nt: "heap s (q_tail s) = Some nt" "nkey nt = tail_key"
      "length (nnext nt) = NUM_LEVELS" "\<not> is_marked_ref (nnext nt ! 0)"
    using gs by (auto simp: glob_sent_def)
  with n obtain nt' where nt': "heap s' (q_tail s) = Some nt'" "nkey nt' = tail_key"
      "length (nnext nt') = NUM_LEVELS"
    unfolding same_nodes_def by metis
  have "nnext nt' ! 0 = nnext nt ! 0"
    using t nt nt' by (simp add: rd_def NUM_LEVELS_def)
  with nt nt' have tl: "\<exists>n. heap s' (q_tail s) = Some n \<and> nkey n = tail_key \<and>
      length (nnext n) = NUM_LEVELS \<and> \<not> is_marked_ref (nnext n ! 0)"
    by simp
  have "okn s (NUM_LEVELS - 1) (q_head s)" using gs by (simp add: glob_sent_def)
  then have "okn s' (NUM_LEVELS - 1) (q_head s)"
    using n unfolding okn_def same_nodes_def by meson
  with h tl m f glob_sentinels(3) [OF g] show ?thesis
    by (simp add: glob_sent_def)
qed

lemma glob_nodes_step:
  assumes g: "glob s D L" and n: "same_nodes s s'"
    and d: "distinct (D' @ map fst L')"
    and m: "\<And>p. p \<in> members D' L' \<Longrightarrow> p \<in> members D L \<or>
      (\<exists>n. heap s p = Some n \<and> nlevel n = length (nnext n) \<and> 1 \<le> nlevel n \<and> nlevel n \<le> NUM_LEVELS)"
    and e: "\<And>p k v. (p, k, v) \<in> set L' \<Longrightarrow> (p, k, v) \<in> set L \<or>
      (\<exists>n. heap s p = Some n \<and> nkey n = k \<and> nval n = v \<and> k < tail_key)"
    and o: "sorted_wrt (<) (map entry_key L')"
  shows "glob_nodes s' D' L'"
proof -
  have gn: "glob_nodes s D L" using g by (simp add: glob_def)
  have keep: "\<exists>n'. heap s' p = Some n' \<and> nkey n' = nkey n \<and> nval n' = nval n \<and>
      nlevel n' = nlevel n \<and> length (nnext n') = length (nnext n)" if "heap s p = Some n" for p n
    using n that unfolding same_nodes_def by metis
  have "\<exists>n. heap s' p = Some n \<and> nlevel n = length (nnext n) \<and> 1 \<le> nlevel n \<and> nlevel n \<le> NUM_LEVELS"
    if p: "p \<in> members D' L'" for p
  proof -
    obtain n where "heap s p = Some n" "nlevel n = length (nnext n)" "1 \<le> nlevel n" "nlevel n \<le> NUM_LEVELS"
      using m [OF p] glob_member [OF g] by metis
    with keep [OF this(1)] show ?thesis by metis
  qed
  moreover have "\<exists>n. heap s' p = Some n \<and> nkey n = k \<and> nval n = v \<and> k < tail_key"
    if p: "(p, k, v) \<in> set L'" for p k v
  proof -
    obtain n where "heap s p = Some n" "nkey n = k" "nval n = v" "k < tail_key"
      using e [OF p] gn unfolding glob_nodes_def by fastforce
    with keep [OF this(1)] show ?thesis by metis
  qed
  moreover from this have "\<forall>(p, k, v) \<in> set L'. \<exists>n. heap s' p = Some n \<and> nkey n = k \<and> nval n = v \<and> k < tail_key"
    by blast
  moreover have "\<forall>p \<in> dom (heap s'). p \<in> dom (heap s) \<or> valid_addr p"
      "\<forall>p \<in> dom (heap s). valid_addr p"
    using n gn by (simp_all add: same_nodes_def glob_nodes_def)
  then have "\<forall>p \<in> dom (heap s'). valid_addr p"
    by blast
  ultimately show ?thesis
    unfolding glob_nodes_def using d o by (intro conjI) simp_all
qed

lemma quiet_upd:
  assumes g: "glob s D L" and n: "same_nodes s s'"
    and b: "\<And>p. p = q_head s \<or> p \<in> members D L \<or> p = q_tail s \<Longrightarrow> rd s' p 0 = rd s p 0"
    and up: "\<And>p i w. 1 \<le> i \<Longrightarrow> p \<noteq> q_tail s \<Longrightarrow> rd s' p i = Some w \<Longrightarrow> w \<noteq> 0 \<Longrightarrow>
        rd s p i = Some w \<or> dst s D L i w"
    and pr: "\<And>p. p \<in> dom (heap s) \<Longrightarrow> p \<notin> members D L \<Longrightarrow> p \<noteq> q_head s \<Longrightarrow> p \<noteq> q \<Longrightarrow>
        heap s' p = heap s p"
  shows "upd s D L s' D L q"
proof -
  have f: "q_head s' = q_head s" "q_tail s' = q_tail s" using n by (auto simp: same_nodes_def)
  have e: "evo s D L s' D L q"
    unfolding evo_def
  proof (intro conjI)
    show "evo_nodes s s'" by (rule same_nodes_evo [OF n])
    show "evo_lists D L D L q" by (auto simp: evo_lists_def)
    show "evo_marks s D L s' D" unfolding evo_marks_def using b by (metis order_refl)
    show "evo_private s D L s' q" unfolding evo_private_def using pr by blast
  qed
  have gn: "glob_nodes s D L" using g by (simp add: glob_def)
  have "glob_sent s' D L"
    using glob_sent_step [OF g n] glob_sentinels(4,5) [OF g] b by blast
  moreover have "glob_nodes s' D L"
    using gn by (intro glob_nodes_step [OF g n]) (auto simp: glob_nodes_def)
  moreover have "glob_chain s' D L"
  proof -
    have "linked s' True D = linked s True D"
      by (rule linked_cong) (auto intro!: b dest: in_set_butlastD simp: members_def)
    moreover have "chain_of s' D L = chain_of s D L"
      by (simp add: chain_of_def front_def f)
    moreover have "linked s' False (chain_of s D L) = linked s False (chain_of s D L)"
      using front_cases [of s D]
      by (intro linked_cong b) (auto simp: chain_of_def members_def dest!: in_set_butlastD)
    ultimately show ?thesis
      using g f b by (auto simp: glob_def glob_chain_def)
  qed
  moreover have "glob_up s' D L"
    unfolding glob_up_def
  proof (intro allI impI, elim conjE)
    fix p i w assume w: "p \<noteq> q_tail s'" "1 \<le> i" "rd s' p i = Some w" "w \<noteq> 0"
    then have "rd s p i = Some w \<or> dst s D L i w" using up f by simp
    then have "dst s D L i w" using g w f by (auto simp: glob_def glob_up_def)
    then show "dst s' D L i w" by (rule evo_dst [OF e])
  qed
  ultimately show ?thesis using e by (simp add: upd_def glob_def)
qed

lemma upd_alloc:
  assumes g: "glob s D L" and f: "fresh_addr s p"
    and n: "\<And>i. i < length (nnext n) \<Longrightarrow> nnext n ! i = 0"
  shows "upd s D L (s\<lparr>heap := (heap s)(p \<mapsto> n)\<rparr>) D L q"
proof (rule quiet_upd [OF g same_nodes_alloc [OF f]])
  have p: "heap s p = None" using f by (simp add: fresh_addr_def)
  fix x assume "x = q_head s \<or> x \<in> members D L \<or> x = q_tail s"
  then have "heap s x \<noteq> None"
    using glob_sentinels(7,8) [OF g] glob_member [OF g, of x] by (metis option.distinct(1))
  with p show "rd (s\<lparr>heap := (heap s)(p \<mapsto> n)\<rparr>) x 0 = rd s x 0"
    by (auto simp: rd_def)
next
  fix x i w assume "rd (s\<lparr>heap := (heap s)(p \<mapsto> n)\<rparr>) x i = Some w" "w \<noteq> 0"
  then show "rd s x i = Some w \<or> dst s D L i w"
    using n by (auto simp: rd_def split: if_splits option.splits)
next
  fix x assume "x \<in> dom (heap s)"
  then show "heap (s\<lparr>heap := (heap s)(p \<mapsto> n)\<rparr>) x = heap s x"
    using f by (auto simp: fresh_addr_def)
qed

lemma upd_set_inserting:
  assumes g: "glob s D L" and p: "p = q \<or> p \<in> members D L" "p \<noteq> q_head s"
  shows "upd s D L (set_inserting s p b) D L q"
    "upd s D L ((set_inserting s p b)\<lparr>garbage := gl\<rparr>) D L q"
  by (rule quiet_upd [OF g];
      use p same_nodes_set_inserting [OF p(2)] same_nodes_garbage in
      \<open>auto simp: heap_set_inserting\<close>)+

lemma upd_garbage:
  assumes g: "glob s D L"
  shows "upd s D L (s\<lparr>garbage := gl\<rparr>) D L q"
  by (rule quiet_upd [OF g]) (auto simp: same_nodes_def)

lemma upd_private:
  assumes g: "glob s D L" and p: "p \<notin> members D L" "p \<noteq> q_head s" "p \<noteq> q_tail s" and w: "w \<noteq> 0"
  shows "upd s D L (wr s p 0 w) D L p"
  by (rule quiet_upd [OF g same_nodes_wr [OF w]]) (use p in \<open>auto simp: rd_wr heap_wr\<close>)

lemma upd_upper:
  assumes g: "glob s D L" and p: "p = q_head s \<or> p \<in> members D L"
    and i: "1 \<le> i" and d: "dst s D L i w"
  shows "upd s D L (wr s p i w) D L q"
proof -
  have "w \<noteq> 0" using dst_valid [OF g d] by auto
  show ?thesis
    by (rule quiet_upd [OF g same_nodes_wr [OF \<open>w \<noteq> 0\<close>]])
       (use p i d in \<open>auto simp: rd_wr heap_wr split: if_splits\<close>)
qed


section \<open>Updates of the bottom level\<close>

lemma live_not_dead:
  assumes "glob s D L" "p \<in> fst ` set L"
  shows "p \<notin> set D" "p \<noteq> q_head s" "p \<noteq> q_tail s" "p \<in> members D L"
proof -
  show m: "p \<in> members D L" using assms(2) by (simp add: members_def)
  show "p \<noteq> q_head s" "p \<noteq> q_tail s" using m glob_sentinels(4,5) [OF assms(1)] by auto
  have "set D \<inter> fst ` set L = {}" using assms(1) by (simp add: glob_def glob_nodes_def)
  then show "p \<notin> set D" using assms(2) by blast
qed

lemma set_insert_mid: "as @ bs = xs \<Longrightarrow> set (as @ n # bs) = insert n (set xs)"
  by auto

lemma distinct_insert_mid: "as @ bs = xs \<Longrightarrow> distinct (as @ n # bs) \<longleftrightarrow> n \<notin> set xs \<and> distinct xs"
  by auto

lemma glob_up_bottom:
  assumes g: "glob s D L" and e: "evo s D L (wr s p 0 w) D' L' q"
  shows "glob_up (wr s p 0 w) D' L'"
  unfolding glob_up_def
proof (intro allI impI, elim conjE)
  fix x i v
  assume "x \<noteq> q_tail (wr s p 0 w)" "1 \<le> i" "rd (wr s p 0 w) x i = Some v" "v \<noteq> 0"
  then have "dst s D L i v"
    using g by (auto simp: glob_def glob_up_def rd_wr)
  then show "dst (wr s p 0 w) D' L' i v" by (rule evo_dst [OF e])
qed

text \<open>\<^verbatim>\<open>deletemin\<close> swings the bottom pointer of the head forward to a later deleted node.\<close>

lemma upd_swing:
  assumes g: "glob s D L" and r: "rd s (q_head s) 0 = Some (get_marked_ref (D ! m))"
    and m: "m \<le> j" "j < length D"
  shows "upd s D L (wr s (q_head s) 0 (get_marked_ref (D ! j))) D L q"
proof -
  let ?s = "wr s (q_head s) 0 (get_marked_ref (D ! j))"
  have n: "same_nodes s ?s" by (rule same_nodes_wr) simp
  have val: "\<And>a. a < length D \<Longrightarrow> \<not> is_marked_ref (D ! a)"
    using glob_valid [OF g] nth_D_members by blast
  have dist: "distinct D" using g by (simp add: glob_def glob_nodes_def)
  have rh: "rd ?s (q_head s) 0 = Some (get_marked_ref (D ! j))" using r by (simp add: rd_wr)
  have ro: "\<And>p. p \<noteq> q_head s \<Longrightarrow> rd ?s p 0 = rd s p 0" by (simp add: rd_wr)
  have hD: "q_head s \<notin> set D" "q_head s \<notin> fst ` set L" "D \<noteq> []"
    using glob_sentinels(4) [OF g] m by (auto simp: members_def)
  have e: "evo s D L ?s D L q"
    unfolding evo_def
  proof (intro conjI)
    show "evo_nodes s ?s" by (rule same_nodes_evo [OF n])
    show "evo_lists D L D L q" by (auto simp: evo_lists_def)
    show "evo_private s D L ?s q" by (auto simp: evo_private_def heap_wr)
    show "evo_marks s D L ?s D"
      unfolding evo_marks_def
    proof (intro conjI allI impI)
      fix p w assume "rd s p 0 = Some w" "is_marked_ref w"
      then show "\<exists>w'. rd ?s p 0 = Some w' \<and> is_marked_ref w'"
        using rh by (cases "p = q_head s") (auto simp: ro)
    next
      fix p x assume x: "x = q_tail s \<or> x \<in> members D L" "rd s p 0 \<noteq> Some x"
      have "\<not> is_marked_ref x" using x(1) glob_valid [OF g] glob_sentinels(2) [OF g] by blast
      then show "rd ?s p 0 \<noteq> Some x"
        using x(2) rh ro by (cases "p = q_head s") auto
    next
      fix a assume a: "a < length D" "rd s (q_head s) 0 = Some (get_marked_ref (D ! a))"
      then have "D ! a = D ! m" using r mark_inj val m by auto
      then have "a = m" using a m dist by (simp add: nth_eq_iff_index_eq)
      then show "\<exists>b<length D. a \<le> b \<and> rd ?s (q_head s) 0 = Some (get_marked_ref (D ! b))"
        using rh m by blast
    qed
  qed
  have "linked ?s True D = linked s True D" "linked ?s False (chain_of s D L) = linked s False (chain_of s D L)"
    using hD by (intro linked_cong ro; auto simp: chain_of_def front_def dest!: in_set_butlastD split: if_splits)+
  then have "glob_chain ?s D L"
    using g rh m by (auto simp: glob_def glob_chain_def chain_of_def front_def)
  moreover have "glob_sent ?s D L"
    using glob_sent_step [OF g n] glob_sentinels(3,4,5) [OF g] ro by simp
  moreover have "glob_nodes ?s D L"
    using g by (intro glob_nodes_step [OF g n]) (auto simp: glob_def glob_nodes_def)
  ultimately show ?thesis
    using e glob_up_bottom [OF g e] by (simp add: upd_def glob_def)
qed

text \<open>The fetch-and-or of \<^verbatim>\<open>deletemin\<close> deletes the first live node.\<close>

lemma upd_delete:
  assumes g: "glob s D L" and x: "x = q_head s \<or> x \<in> members D L"
    and r: "rd s x 0 = Some w" "\<not> is_marked_ref w" "w \<noteq> q_tail s" "x = q_head s \<or> x \<in> set D"
  shows "\<exists>k v L'. L = (w, k, v) # L' \<and> upd s D L (wr s x 0 (get_marked_ref w)) (D @ [w]) L' q"
proof -
  let ?s = "wr s x 0 (get_marked_ref w)"
  obtain j where j: "j \<le> length L" "x = chain_of s D L ! j" "w = chain_of s D L ! Suc j"
    using position [OF g x r(1,2)] .
  have dist: "distinct (chain_of s D L)" by (rule chain_dist [OF g])
  have dD: "distinct (D @ map fst L)" using g by (simp add: glob_def glob_nodes_def)
  have "x \<in> set (chain_of s D L)"
    using j by (auto simp: chain_of_def nth_Cons nth_append split: nat.splits)
  moreover have "x \<notin> fst ` set L"
    using r(4) live_not_dead [OF g] by blast
  moreover have "x \<noteq> q_tail s"
    using x glob_sentinels(3,5) [OF g] by auto
  ultimately have xf: "x = front s D"
    using chain_elems by metis
  then have "j = 0"
    using j dist nth_eq_iff_index_eq [OF dist, of j 0] by (auto simp: chain_of_def)
  with j r(3) obtain k v L' where L: "L = (w, k, v) # L'"
    by (cases L) (auto simp: chain_of_def)
  have m: "members (D @ [w]) L' = members D L" by (auto simp: members_def L)
  have wm: "w \<in> members D L" by (simp add: members_def L)
  have n: "same_nodes s ?s" by (rule same_nodes_wr) simp
  have rx: "rd ?s x 0 = Some (get_marked_ref w)" using r by (simp add: rd_wr)
  have ro: "\<And>p. p \<noteq> x \<Longrightarrow> rd ?s p 0 = rd s p 0" by (simp add: rd_wr)
  have wx: "w \<noteq> x" using xf dist by (auto simp: chain_of_def L)
  have xt: "q_tail s \<noteq> x" "x \<notin> fst ` set L'" using dist xf by (auto simp: chain_of_def L)
  have hd: "D \<noteq> [] \<Longrightarrow> x \<noteq> q_head s"
    using head_empty [OF g] r by auto
  have e: "evo s D L ?s (D @ [w]) L' q"
    unfolding evo_def
  proof (intro conjI)
    show "evo_nodes s ?s" by (rule same_nodes_evo [OF n])
    show "evo_lists D L (D @ [w]) L' q" using m by (auto simp: evo_lists_def)
    show "evo_private s D L ?s q" using x by (auto simp: evo_private_def heap_wr)
    show "evo_marks s D L ?s (D @ [w])"
      unfolding evo_marks_def
    proof (intro conjI allI impI)
      fix p u assume "rd s p 0 = Some u" "is_marked_ref u"
      then show "\<exists>w'. rd ?s p 0 = Some w' \<and> is_marked_ref w'"
        using rx by (cases "p = x") (auto simp: ro)
    next
      fix p u assume u: "u = q_tail s \<or> u \<in> members D L" "rd s p 0 \<noteq> Some u"
      have "\<not> is_marked_ref u" using u(1) glob_valid [OF g] glob_sentinels(2) [OF g] by blast
      then show "rd ?s p 0 \<noteq> Some u"
        using u(2) rx ro by (cases "p = x") auto
    next
      fix a assume a: "a < length D" "rd s (q_head s) 0 = Some (get_marked_ref (D ! a))"
      then have "D \<noteq> []" by auto
      then have "q_head s \<noteq> x" using hd by blast
      then show "\<exists>b<length (D @ [w]). a \<le> b \<and>
          rd ?s (q_head s) 0 = Some (get_marked_ref ((D @ [w]) ! b))"
        using a ro by (intro exI [of _ a]) (auto simp: nth_append)
    qed
  qed
  have "glob_chain ?s (D @ [w]) L'"
  proof -
    have gc: "linked s True D" "linked s False (x # w # map fst L' @ [q_tail s])"
      using g xf by (auto simp: glob_def glob_chain_def chain_of_def L)
    have "linked ?s True (D @ [w])"
    proof (cases "D = []")
      case False
      then obtain D0 where D0: "D = D0 @ [x]" using xf by (metis append_butlast_last_id front_def)
      have "linked ?s True D = linked s True D"
        using dD D0 by (intro linked_cong ro) auto
      then show ?thesis using gc(1) rx D0 linked_snoc [of ?s True D0 x w] by simp
    qed simp
    moreover have "linked ?s False (w # map fst L' @ [q_tail s])
        = linked s False (w # map fst L' @ [q_tail s])"
      using xt wx by (intro linked_cong ro) (auto simp: butlast_append)
    moreover have "\<exists>m<length (D @ [w]). rd ?s (q_head s) 0 = Some (get_marked_ref ((D @ [w]) ! m))"
    proof (cases "D = []")
      case True
      then show ?thesis using xf rx by (simp add: front_def)
    next
      case False
      then obtain a where "a < length D" "rd s (q_head s) 0 = Some (get_marked_ref (D ! a))"
        using g by (auto simp: glob_def glob_chain_def)
      then show ?thesis using hd [OF False] ro by (intro exI [of _ a]) (auto simp: nth_append)
    qed
    ultimately show ?thesis
      using gc(2) by (simp add: glob_chain_def chain_of_def front_def)
  qed
  moreover have "glob_sent ?s (D @ [w]) L'"
    using glob_sent_step [OF g n] glob_sentinels(4,5) [OF g] ro m xt by simp
  moreover have "glob_nodes ?s (D @ [w]) L'"
    using g dD m by (intro glob_nodes_step [OF g n]) (auto simp: glob_def glob_nodes_def L)
  ultimately show ?thesis
    using e glob_up_bottom [OF g e] L by (auto simp: upd_def glob_def)
qed


text \<open>The compare-and-swap of \<^verbatim>\<open>insert\<close> on the bottom level.\<close>

lemma upd_insert:
  assumes g: "glob s D L" and p: "p = q_head s \<or> p \<in> members D L" and lp: "lo s D k p"
    and r: "rd s p 0 = Some r" "r = q_tail s \<or> r \<in> members D L" "k < key_of s r"
    and n: "n \<notin> members D L" "n \<noteq> q_head s" "n \<noteq> q_tail s" "rd s n 0 = Some r"
      "heap s n = Some nd" "nkey nd = k" "nval nd = v" "nlevel nd = length (nnext nd)"
      "1 \<le> nlevel nd" "nlevel nd \<le> NUM_LEVELS" and k: "k < tail_key"
  defines "L' \<equiv> takeWhile (\<lambda>e. entry_key e < k) L @ (n, k, v) # dropWhile (\<lambda>e. entry_key e < k) L"
  shows "upd s D L (wr s p 0 n) D L' n"
proof -
  let ?s = "wr s p 0 n" and ?P = "\<lambda>e. entry_key e < k"
  have gn: "glob_nodes s D L" using g by (simp add: glob_def)
  have rv: "\<not> is_marked_ref r" using r(2) glob_valid [OF g] glob_sentinels(2) [OF g] by auto
  obtain j where j: "j \<le> length L" "p = chain_of s D L ! j" "r = chain_of s D L ! Suc j"
    using position [OF g p r(1) rv] .
  have dist: "distinct (chain_of s D L)" by (rule chain_dist [OF g])
  have dD: "distinct (D @ map fst L)" and so: "sorted_wrt (<) (map entry_key L)"
    using gn by (simp_all add: glob_nodes_def)
  have ek: "\<And>i. i < length L \<Longrightarrow> entry_key (L ! i) = key_of s (fst (L ! i))"
    using gn by (fastforce simp: glob_nodes_def entry_key_def key_of_def dest: nth_mem)
  have below: "?P (L ! i)" if i: "i < j" "i < length L" for i
  proof -
    obtain j0 where j0: "j = Suc j0" using i by (cases j) auto
    have pL: "p = fst (L ! j0)" using j j0 by (simp add: chain_of_def nth_append)
    have "p \<in> fst ` set L" using pL j j0 by simp
    then have "p \<notin> set D" "p \<noteq> q_head s" using live_not_dead [OF g] by blast+
    then have "entry_key (L ! j0) < k" using lp ek [of j0] pL j j0 by (simp add: lo_def)
    moreover have "entry_key (L ! i) \<le> entry_key (L ! j0)"
      using so i j0 j by (cases "i = j0") (auto simp: sorted_wrt_iff_nth_less intro: less_imp_le)
    ultimately show ?thesis by simp
  qed
  have above: "k < entry_key (L ! i)" if i: "j \<le> i" "i < length L" for i
  proof -
    have "k < entry_key (L ! j)"
      using r(3) ek [of j] j i by (simp add: chain_of_def nth_append)
    moreover have "entry_key (L ! j) \<le> entry_key (L ! i)"
      using so i by (cases "i = j") (auto simp: sorted_wrt_iff_nth_less intro: less_imp_le)
    ultimately show ?thesis by simp
  qed
  have tw: "takeWhile ?P L = take j L"
    using below above [of j] by (intro takeWhile_eq_take_P_nth) (auto simp: not_less less_imp_le)
  have dw: "dropWhile ?P L = drop j L"
    using tw j by (simp add: dropWhile_eq_drop)
  have L': "L' = take j L @ (n, k, v) # drop j L"
    by (simp add: L'_def tw dw)
  have mL: "map fst (take j L) @ map fst (drop j L) = map fst L"
    by (simp flip: map_append)
  have m: "members D L' = insert n (members D L)"
    using set_insert_mid [OF mL, of n] by (auto simp: L' members_def)
  have "\<forall>x \<in> dom (heap s). valid_addr x" using gn by (simp add: glob_nodes_def)
  then have "valid_addr n" using n(5) by blast
  then have ss: "same_nodes s ?s" by (intro same_nodes_wr) auto
  have rp: "rd ?s p 0 = Some n" using r by (simp add: rd_wr)
  have ro: "\<And>x. x \<noteq> p \<Longrightarrow> rd ?s x 0 = rd s x 0" by (simp add: rd_wr)
  have pt: "q_tail s \<noteq> p" using p glob_sentinels(3,5) [OF g] by auto
  have hd: "D \<noteq> [] \<Longrightarrow> p \<noteq> q_head s" using head_empty [OF g] r rv by auto
  have e: "evo s D L ?s D L' n"
    unfolding evo_def
  proof (intro conjI)
    show "evo_nodes s ?s" by (rule same_nodes_evo [OF ss])
    show "evo_lists D L D L' n" using m by (auto simp: evo_lists_def)
    show "evo_private s D L ?s n" using p by (auto simp: evo_private_def heap_wr)
    show "evo_marks s D L ?s D"
      unfolding evo_marks_def
    proof (intro conjI allI impI)
      fix x u assume "rd s x 0 = Some u" "is_marked_ref u"
      then show "\<exists>w'. rd ?s x 0 = Some w' \<and> is_marked_ref w'"
        using r rv ro by (cases "x = p") auto
    next
      fix x u assume "u = q_tail s \<or> u \<in> members D L" "rd s x 0 \<noteq> Some u"
      then show "rd ?s x 0 \<noteq> Some u"
        using rp ro n by (cases "x = p") auto
    next
      fix a assume a: "a < length D" "rd s (q_head s) 0 = Some (get_marked_ref (D ! a))"
      then have "D \<noteq> []" by auto
      then have "q_head s \<noteq> p" using hd by blast
      then show "\<exists>b<length D. a \<le> b \<and> rd ?s (q_head s) 0 = Some (get_marked_ref (D ! b))"
        using a ro by auto
    qed
  qed
  let ?C = "chain_of s D L"
  have lC: "Suc j < length ?C" using j by (simp add: chain_of_def)
  have tC: "take (Suc j) ?C = take j ?C @ [p]" "drop (Suc j) ?C = r # drop (Suc (Suc j)) ?C"
    using lC j by (simp_all add: take_Suc_conv_app_nth Cons_nth_drop_Suc)
  have ch: "?C = take j ?C @ p # r # drop (Suc (Suc j)) ?C"
    using append_take_drop_id [of "Suc j" ?C] tC by simp
  have "chain_of s D L' = take (Suc j) ?C @ n # drop (Suc j) ?C"
    using j by (simp add: L' chain_of_def take_map drop_map)
  then have ch': "chain_of s D L' = take j ?C @ p # n # r # drop (Suc (Suc j)) ?C"
    by (simp add: tC)
  have nc: "n \<notin> set (chain_of s D L)"
    using n front_cases [of s D] by (auto simp: chain_of_def members_def)
  have "linked ?s False (chain_of ?s D L')"
  proof -
    have "linked s False (chain_of s D L)" using g by (simp add: glob_def glob_chain_def)
    then have "linked ?s False (take j (chain_of s D L) @ p # n # r # drop (Suc (Suc j)) (chain_of s D L))"
      using linked_insert dist nc n(4) r(1) ch by (metis option.distinct(1))
    moreover have "chain_of ?s D L' = chain_of s D L'" by (simp add: chain_of_def front_def)
    ultimately show ?thesis by (simp only: ch')
  qed
  moreover have "linked ?s True D = linked s True D"
  proof (intro linked_cong ro)
    fix x assume "x \<in> set (butlast D)"
    then obtain i where "i < length D - 1" "x = D ! i"
      by (metis in_set_conv_nth length_butlast nth_butlast)
    then show "x \<noteq> p" using dead_next [OF g, of i] r rv by auto
  qed
  ultimately have "glob_chain ?s D L'"
    using g hd ro by (auto simp: glob_def glob_chain_def)
  moreover have "glob_sent ?s D L'"
    using glob_sent_step [OF g ss] glob_sentinels(4,5) [OF g] ro m pt n by simp
  moreover have "glob_nodes ?s D L'"
  proof (rule glob_nodes_step [OF g ss])
    show "distinct (D @ map fst L')"
      using dD n(1) distinct_insert_mid [OF mL, of n] set_insert_mid [OF mL, of n]
      by (auto simp: L' members_def)
    show "sorted_wrt (<) (map entry_key L')"
      using so below above j
      by (auto simp: L' sorted_wrt_iff_nth_less nth_append nth_Cons entry_key_def split: nat.splits)
  qed (use m n k L' in \<open>auto dest: in_set_takeD in_set_dropD\<close>)
  ultimately show ?thesis
    using e glob_up_bottom [OF g e] by (simp add: upd_def glob_def)
qed

end
