(* ===== verification/Linden_Own.thy ===== *)
theory Linden_Own
  imports Linden_Update
begin

text \<open>
  Every step of a thread, at every program counter: from the shared invariant and the thread's
  own, the step does not fault, follows the auxiliary lists, re-establishes both invariants and
  stays within what the other threads tolerate.
\<close>

text \<open>The node that only this thread may change: the one it has allocated and not yet linked.\<close>

definition own_addr :: "'a thr \<Rightarrow> ptr" where
  "own_addr l = (if is_private l then v_new l else 0)"

definition own_ok :: "'k::len word shared \<Rightarrow> ptr list \<Rightarrow> 'k word entry list \<Rightarrow> 'k word thr \<Rightarrow>
    'k word event option \<Rightarrow> 'k word shared \<times> 'k word thr \<Rightarrow> bool" where
  "own_ok s D L l ev r \<longleftrightarrow>
     (\<exists>D' L'. play_opt (D, L) ev = (D', L') \<and> upd s D L (fst r) D' L' (own_addr l) \<and>
        loc (fst r) D' L' (snd r))"

lemma own_readI:
  "glob s D L \<Longrightarrow> play_opt (D, L) ev = (D, L) \<Longrightarrow> loc s D L l' \<Longrightarrow> own_ok s D L l ev (s, l')"
  by (simp add: own_ok_def upd_refl)

lemma own_updI:
  "upd s D L s' D' L' (own_addr l) \<Longrightarrow> play_opt (D, L) ev = (D', L') \<Longrightarrow> loc s' D' L' l' \<Longrightarrow>
     own_ok s D L l ev (s', l')"
  by (simp add: own_ok_def)

lemma updD: "upd s D L s' D' L' q \<Longrightarrow> evo s D L s' D' L' q" "upd s D L s' D' L' q \<Longrightarrow> glob s' D' L'"
  by (simp_all add: upd_def)

text \<open>The predicates on a thread's locals read some of the locals only.\<close>

named_theorems frame_simps \<open>updates of locals that a predicate does not read\<close>

lemma ins_ctx_frame [frame_simps, simp]:
  "ins_ctx (l\<lparr>pc := a0\<rparr>) = ins_ctx l"
  "ins_ctx (l\<lparr>v_x := a1\<rparr>) = ins_ctx l"
  "ins_ctx (l\<lparr>v_x_next := a2\<rparr>) = ins_ctx l"
  "ins_ctx (l\<lparr>v_d := a3\<rparr>) = ins_ctx l"
  "ins_ctx (l\<lparr>v_i := a4\<rparr>) = ins_ctx l"
  "ins_ctx (l\<lparr>v_ii := a5\<rparr>) = ins_ctx l"
  "ins_ctx (l\<lparr>v_del := a6\<rparr>) = ins_ctx l"
  "ins_ctx (l\<lparr>v_relocate := a7\<rparr>) = ins_ctx l"
  "ins_ctx (l\<lparr>v_ok := a8\<rparr>) = ins_ctx l"
  by (simp_all add: ins_ctx_def)

lemma priv_node_frame [frame_simps, simp]:
  "priv_node s D L (l\<lparr>pc := a0\<rparr>) = priv_node s D L l"
  "priv_node s D L (l\<lparr>v_x := a1\<rparr>) = priv_node s D L l"
  "priv_node s D L (l\<lparr>v_x_next := a2\<rparr>) = priv_node s D L l"
  "priv_node s D L (l\<lparr>v_d := a3\<rparr>) = priv_node s D L l"
  "priv_node s D L (l\<lparr>v_i := a4\<rparr>) = priv_node s D L l"
  "priv_node s D L (l\<lparr>v_ii := a5\<rparr>) = priv_node s D L l"
  "priv_node s D L (l\<lparr>v_del := a6\<rparr>) = priv_node s D L l"
  "priv_node s D L (l\<lparr>v_relocate := a7\<rparr>) = priv_node s D L l"
  "priv_node s D L (l\<lparr>v_ok := a8\<rparr>) = priv_node s D L l"
  "priv_node s D L (l\<lparr>v_preds := a9\<rparr>) = priv_node s D L l"
  "priv_node s D L (l\<lparr>v_succs := a10\<rparr>) = priv_node s D L l"
  by (simp_all add: priv_node_def)

lemma pub_node_frame [frame_simps, simp]:
  "pub_node s D L (l\<lparr>pc := a0\<rparr>) = pub_node s D L l"
  "pub_node s D L (l\<lparr>v_x := a1\<rparr>) = pub_node s D L l"
  "pub_node s D L (l\<lparr>v_x_next := a2\<rparr>) = pub_node s D L l"
  "pub_node s D L (l\<lparr>v_d := a3\<rparr>) = pub_node s D L l"
  "pub_node s D L (l\<lparr>v_i := a4\<rparr>) = pub_node s D L l"
  "pub_node s D L (l\<lparr>v_del := a5\<rparr>) = pub_node s D L l"
  "pub_node s D L (l\<lparr>v_relocate := a6\<rparr>) = pub_node s D L l"
  "pub_node s D L (l\<lparr>v_ok := a7\<rparr>) = pub_node s D L l"
  "pub_node s D L (l\<lparr>v_preds := a8\<rparr>) = pub_node s D L l"
  "pub_node s D L (l\<lparr>v_succs := a9\<rparr>) = pub_node s D L l"
  by (simp_all add: pub_node_def)

lemma located_frame [frame_simps, simp]:
  "located s D L (l\<lparr>pc := a0\<rparr>) j = located s D L l j"
  "located s D L (l\<lparr>v_x := a1\<rparr>) j = located s D L l j"
  "located s D L (l\<lparr>v_x_next := a2\<rparr>) j = located s D L l j"
  "located s D L (l\<lparr>v_d := a3\<rparr>) j = located s D L l j"
  "located s D L (l\<lparr>v_i := a4\<rparr>) j = located s D L l j"
  "located s D L (l\<lparr>v_ii := a5\<rparr>) j = located s D L l j"
  "located s D L (l\<lparr>v_del := a6\<rparr>) j = located s D L l j"
  "located s D L (l\<lparr>v_relocate := a7\<rparr>) j = located s D L l j"
  "located s D L (l\<lparr>v_ok := a8\<rparr>) j = located s D L l j"
  by (simp_all add: located_def)

lemma all_located_frame [frame_simps, simp]:
  "all_located s D L (l\<lparr>pc := a0\<rparr>) = all_located s D L l"
  "all_located s D L (l\<lparr>v_x := a1\<rparr>) = all_located s D L l"
  "all_located s D L (l\<lparr>v_x_next := a2\<rparr>) = all_located s D L l"
  "all_located s D L (l\<lparr>v_d := a3\<rparr>) = all_located s D L l"
  "all_located s D L (l\<lparr>v_i := a4\<rparr>) = all_located s D L l"
  "all_located s D L (l\<lparr>v_ii := a5\<rparr>) = all_located s D L l"
  "all_located s D L (l\<lparr>v_del := a6\<rparr>) = all_located s D L l"
  "all_located s D L (l\<lparr>v_relocate := a7\<rparr>) = all_located s D L l"
  "all_located s D L (l\<lparr>v_ok := a8\<rparr>) = all_located s D L l"
  by (simp_all add: all_located_def located_def)

lemma stale_frame [frame_simps, simp]:
  "stale s (l\<lparr>pc := a0\<rparr>) = stale s l"
  "stale s (l\<lparr>v_x := a1\<rparr>) = stale s l"
  "stale s (l\<lparr>v_x_next := a2\<rparr>) = stale s l"
  "stale s (l\<lparr>v_d := a3\<rparr>) = stale s l"
  "stale s (l\<lparr>v_i := a4\<rparr>) = stale s l"
  "stale s (l\<lparr>v_ii := a5\<rparr>) = stale s l"
  "stale s (l\<lparr>v_del := a6\<rparr>) = stale s l"
  "stale s (l\<lparr>v_relocate := a7\<rparr>) = stale s l"
  "stale s (l\<lparr>v_ok := a8\<rparr>) = stale s l"
  by (simp_all add: stale_def)

lemma obs_ok_frame [frame_simps, simp]:
  "obs_ok s D (l\<lparr>pc := a0\<rparr>) = obs_ok s D l"
  "obs_ok s D (l\<lparr>v_x := a1\<rparr>) = obs_ok s D l"
  "obs_ok s D (l\<lparr>v_x_next := a2\<rparr>) = obs_ok s D l"
  "obs_ok s D (l\<lparr>v_nxt := a3\<rparr>) = obs_ok s D l"
  "obs_ok s D (l\<lparr>v_offset := a4\<rparr>) = obs_ok s D l"
  "obs_ok s D (l\<lparr>v_i := a5\<rparr>) = obs_ok s D l"
  "obs_ok s D (l\<lparr>v_pred := a6\<rparr>) = obs_ok s D l"
  "obs_ok s D (l\<lparr>v_cur := a7\<rparr>) = obs_ok s D l"
  "obs_ok s D (l\<lparr>v_h := a8\<rparr>) = obs_ok s D l"
  "obs_ok s D (l\<lparr>v_ret := a9\<rparr>) = obs_ok s D l"
  "obs_ok s D (l\<lparr>nb_collisions := a10\<rparr>) = obs_ok s D l"
  "obs_ok s D (l\<lparr>v_newhead := a11\<rparr>) = obs_ok s D l"
  by (simp_all add: obs_ok_def)

lemma past_obs_frame [frame_simps, simp]:
  "past_obs D (l\<lparr>pc := a0\<rparr>) p = past_obs D l p"
  "past_obs D (l\<lparr>v_x := a1\<rparr>) p = past_obs D l p"
  "past_obs D (l\<lparr>v_x_next := a2\<rparr>) p = past_obs D l p"
  "past_obs D (l\<lparr>v_nxt := a3\<rparr>) p = past_obs D l p"
  "past_obs D (l\<lparr>v_offset := a4\<rparr>) p = past_obs D l p"
  "past_obs D (l\<lparr>v_i := a5\<rparr>) p = past_obs D l p"
  "past_obs D (l\<lparr>v_pred := a6\<rparr>) p = past_obs D l p"
  "past_obs D (l\<lparr>v_cur := a7\<rparr>) p = past_obs D l p"
  "past_obs D (l\<lparr>v_h := a8\<rparr>) p = past_obs D l p"
  "past_obs D (l\<lparr>v_ret := a9\<rparr>) p = past_obs D l p"
  "past_obs D (l\<lparr>nb_collisions := a10\<rparr>) p = past_obs D l p"
  "past_obs D (l\<lparr>v_newhead := a11\<rparr>) p = past_obs D l p"
  by (simp_all add: past_obs_def)

lemma del_ctx_frame [frame_simps, simp]:
  "del_ctx s D (l\<lparr>pc := a0\<rparr>) = del_ctx s D l"
  "del_ctx s D (l\<lparr>v_x := a1\<rparr>) = del_ctx s D l"
  "del_ctx s D (l\<lparr>v_x_next := a2\<rparr>) = del_ctx s D l"
  "del_ctx s D (l\<lparr>v_nxt := a3\<rparr>) = del_ctx s D l"
  "del_ctx s D (l\<lparr>v_offset := a4\<rparr>) = del_ctx s D l"
  "del_ctx s D (l\<lparr>v_i := a5\<rparr>) = del_ctx s D l"
  "del_ctx s D (l\<lparr>v_pred := a6\<rparr>) = del_ctx s D l"
  "del_ctx s D (l\<lparr>v_cur := a7\<rparr>) = del_ctx s D l"
  "del_ctx s D (l\<lparr>v_h := a8\<rparr>) = del_ctx s D l"
  "del_ctx s D (l\<lparr>v_ret := a9\<rparr>) = del_ctx s D l"
  "del_ctx s D (l\<lparr>nb_collisions := a10\<rparr>) = del_ctx s D l"
  by (simp_all add: del_ctx_def)

lemma rst_ctx_frame [frame_simps, simp]:
  "rst_ctx s D (l\<lparr>pc := a0\<rparr>) = rst_ctx s D l"
  "rst_ctx s D (l\<lparr>v_x := a1\<rparr>) = rst_ctx s D l"
  "rst_ctx s D (l\<lparr>v_x_next := a2\<rparr>) = rst_ctx s D l"
  "rst_ctx s D (l\<lparr>v_nxt := a3\<rparr>) = rst_ctx s D l"
  "rst_ctx s D (l\<lparr>v_offset := a4\<rparr>) = rst_ctx s D l"
  "rst_ctx s D (l\<lparr>v_i := a5\<rparr>) = rst_ctx s D l"
  "rst_ctx s D (l\<lparr>v_pred := a6\<rparr>) = rst_ctx s D l"
  "rst_ctx s D (l\<lparr>v_cur := a7\<rparr>) = rst_ctx s D l"
  "rst_ctx s D (l\<lparr>v_h := a8\<rparr>) = rst_ctx s D l"
  "rst_ctx s D (l\<lparr>v_ret := a9\<rparr>) = rst_ctx s D l"
  "rst_ctx s D (l\<lparr>nb_collisions := a10\<rparr>) = rst_ctx s D l"
  by (simp_all add: rst_ctx_def)

section \<open>locate\_preds\<close>

lemma start_locate_loc:
  assumes g: "glob s D L" and c: "ins_ctx l"
    and n: "if again then pub_node s D L l else priv_node s D L l"
  shows "loc s D L (start_locate s again l)"
  using c n glob_sentinels(6) [OF g]
  by (auto simp: start_locate_def loc_def ins_ctx_def pub_node_def priv_node_def src_def lo_def
      NUM_LEVELS_def)

lemma read_next:
  assumes g: "glob s D L" and x: "src s D L i x"
  obtains w where "rd s x i = Some w" "w \<noteq> 0" "dst s D L i (get_unmarked_ref w)"
    "get_unmarked_ref w \<noteq> 0" "i = 0 \<and> is_marked_ref w \<longrightarrow> get_unmarked_ref w \<in> set D"
proof (cases "i = 0")
  case True
  have "x = q_head s \<or> x \<in> members D L" using x by (simp add: src_def)
  from next0 [OF g this] show thesis using that True by metis
next
  case False
  then have "1 \<le> i" by simp
  from next_up [OF g x this] obtain w where "rd s x i = Some w" "w \<noteq> 0" "dst s D L i w" "\<not> is_marked_ref w" .
  with that False show thesis by (simp add: unmarked_id)
qed

lemma locate_read_own:
  assumes g: "glob s D L" and l: "loc s D L l" and p: "pc l = L_Read"
  shows "own_ok s D L l (lin_event s l) (s, locate_step s l)"
proof -
  have x: "src s D L (v_i l) (v_x l)" using l p by (simp add: loc_def)
  obtain w where w: "rd s (v_x l) (v_i l) = Some w" "dst s D L (v_i l) (get_unmarked_ref w)"
      "get_unmarked_ref w \<noteq> 0" "v_i l = 0 \<and> is_marked_ref w \<longrightarrow> get_unmarked_ref w \<in> set D"
    by (rule read_next [OF g x])
  have "loc s D L (locate_step s l)"
    using l p w by (auto simp: loc_def locate_step_def)
  then show ?thesis using g p by (intro own_readI) (simp_all add: lin_event_def)
qed

lemma locate_cond_defined:
  assumes g: "glob s D L" and d: "dst s D L i (v_x_next l)" and k: "v_k l < tail_key"
    and dd: "v_i l = 0 \<and> v_d l \<longrightarrow> v_x_next l \<in> set D" and i: "i = v_i l"
  shows "locate_cond s l = Some True \<and> src s D L i (v_x_next l) \<and> lo s D (v_k l) (v_x_next l) \<or>
    locate_cond s l = Some False \<and> v_k l \<le> key_of s (v_x_next l)"
proof -
  obtain n where n: "heap s (v_x_next l) = Some n" using dst_heap [OF g d] by blast
  obtain w where w: "rd s (v_x_next l) 0 = Some w" "is_marked_ref w \<longrightarrow> v_x_next l \<in> set D"
    by (rule dst_bottom [OF g d])
  have key: "key_of s (v_x_next l) = nkey n" using n by (simp add: key_of_def)
  have go: "src s D L i (v_x_next l)" if "v_x_next l \<noteq> q_tail s"
    using d that by (auto simp: dst_def src_def)
  have dead: "v_x_next l \<noteq> q_tail s" if "v_x_next l \<in> set D"
    using that glob_sentinels(5) [OF g] by (auto simp: members_def)
  show ?thesis
  proof (cases "nkey n < v_k l")
    case True
    then have "v_x_next l \<noteq> q_tail s" using k key glob_sentinels(9) [OF g] by auto
    with True n go key show ?thesis by (simp add: locate_cond_def lo_def)
  next
    case False
    show ?thesis
    proof (cases "is_marked_ref w \<or> v_i l = 0 \<and> v_d l")
      case True
      then have "v_x_next l \<in> set D" using w dd by blast
      with True False n w go dead show ?thesis by (simp add: locate_cond_def lo_def)
    qed (use False n w key in \<open>auto simp: locate_cond_def\<close>)
  qed
qed

lemma located_update:
  assumes "located s D L l j" "j \<noteq> i"
  shows "located s D L (l\<lparr>v_preds := (v_preds l)[i := x], v_succs := (v_succs l)[i := y]\<rparr>) j"
  using assms by (simp add: located_def)

lemma locate_test_own:
  assumes g: "glob s D L" and l: "loc s D L l" and p: "pc l = L_Test"
  shows "own_ok s D L l (lin_event s l) (s, locate_step s l)"
proof -
  have c: "ins_ctx l" "if v_relocate l then pub_node s D L l else priv_node s D L l"
      "v_i l < NUM_LEVELS" "src s D L (v_i l) (v_x l)" "lo s D (v_k l) (v_x l)"
      "\<And>j. v_i l < j \<Longrightarrow> j < NUM_LEVELS \<Longrightarrow> located s D L l j"
      "dst s D L (v_i l) (v_x_next l)" "v_i l = 0 \<and> v_d l \<longrightarrow> v_x_next l \<in> set D"
    using l p by (simp_all add: loc_def)
  have k: "v_k l < tail_key" using c(1) by (simp add: ins_ctx_def)
  from locate_cond_defined [OF g c(7) k c(8) refl]
  have "loc s D L (locate_step s l)"
  proof (elim disjE conjE)
    assume a: "locate_cond s l = Some True" "src s D L (v_i l) (v_x_next l)"
      "lo s D (v_k l) (v_x_next l)"
    show ?thesis
      using c a p by (auto simp: loc_def locate_step_def)
  next
    assume a: "locate_cond s l = Some False" "v_k l \<le> key_of s (v_x_next l)"
    let ?l = "l\<lparr>v_preds := (v_preds l)[v_i l := v_x l], v_succs := (v_succs l)[v_i l := v_x_next l]\<rparr>"
    have len: "length (v_preds l) = NUM_LEVELS" "length (v_succs l) = NUM_LEVELS"
      using c(1) by (simp_all add: ins_ctx_def)
    have here: "located s D L ?l (v_i l)"
      using c len by (simp add: located_def)
    have all: "located s D L ?l j" if "v_i l \<le> j" "j < NUM_LEVELS" for j
      using located_update [OF c(6)] here that by (cases "j = v_i l") (simp, metis le_neq_implies_less)
    have ctx: "ins_ctx ?l" using c(1) by (simp add: ins_ctx_def)
    have node: "if v_relocate l then pub_node s D L ?l else priv_node s D L ?l"
      using c(2) by simp
    show ?thesis
    proof (cases "v_i l = 0")
      case True
      then have "all_located s D L ?l"
        using all a len c(3) by (simp add: all_located_def)
      then show ?thesis
        using True ctx node p a
        by (auto simp: loc_def locate_step_def goto_def all_located_def Let_def)
    next
      case False
      have "\<forall>j. v_i l - 1 < j \<and> j < NUM_LEVELS \<longrightarrow> located s D L ?l j"
        using all False by auto
      moreover have "src s D L (v_i l - 1) (v_x l)"
        using c(4) by (auto simp: src_def okn_def)
      ultimately show ?thesis
        using False ctx node p a c
        by (auto simp: loc_def locate_step_def Let_def)
    qed
  qed
  then show ?thesis using g p by (intro own_readI) (simp_all add: lin_event_def)
qed


section \<open>insert\<close>

lemma all_located0:
  "all_located s D L l \<Longrightarrow> located s D L l 0 \<and> v_k l \<le> key_of s (v_succs l ! 0)"
  by (simp add: all_located_def NUM_LEVELS_def)

lemma insert_enter_own:
  assumes g: "glob s D L" and l: "loc s D L l" and p: "pc l = I_Enter" and f: "fresh_addr s fresh"
  shows "own_ok s D L l (lin_event s l) (insert_step var fresh s l)"
proof -
  let ?n = "alloc_node (p_rand l) (v_k l) (v_v l)"
  let ?s = "s\<lparr>heap := (heap s)(fresh \<mapsto> ?n)\<rparr>"
  let ?l = "l\<lparr>p_count := p_count l + 1, p_rand := next_rand (p_rand l), v_new := fresh\<rparr>"
  have u: "upd s D L ?s D L (own_addr l)"
    by (rule upd_alloc [OF g f]) (rule alloc_node_size(3))
  have c: "ins_ctx ?l" "insert_assert (v_k l)"
    using l p by (simp_all add: loc_def ins_ctx_def)
  have "heap s fresh = None" using f by (simp add: fresh_addr_def)
  then have "fresh \<notin> members D L" "fresh \<noteq> q_head s" "fresh \<noteq> q_tail s"
    using glob_member [OF g, of fresh] glob_sentinels(7,8) [OF g] by auto
  then have "priv_node ?s D L ?l"
    using alloc_node_size(1,2) [of "p_rand l" "v_k l" "v_v l"] by (simp add: priv_node_def)
  then have "loc ?s D L (start_locate s False ?l)"
    using start_locate_loc [OF updD(2) [OF u] c(1), of False] by (simp add: start_locate_def)
  then show ?thesis
    using p c(2) u by (auto simp: insert_step_def lin_event_def own_ok_def)
qed

lemma insert_dup_own:
  assumes g: "glob s D L" and l: "loc s D L l" and p: "pc l \<in> {I_Dup1, I_Dup2, I_Dup3}"
  shows "own_ok s D L l (lin_event s l) (insert_step var fresh s l)"
proof -
  have a: "all_located s D L l" "ins_ctx l" "priv_node s D L l"
    using l p by (auto simp: loc_def)
  have d0: "dst s D L 0 (v_succs l ! 0)" and s0: "src s D L 0 (v_preds l ! 0)"
    using all_located0 [OF a(1)] by (simp_all add: located_def)
  obtain n where n: "heap s (v_succs l ! 0) = Some n" using dst_heap [OF g d0] by blast
  obtain w where w: "rd s (v_preds l ! 0) 0 = Some w"
    using s0 by (auto simp: src_def okn_def)
  have sv: "\<not> is_marked_ref (v_succs l ! 0)" using dst_valid [OF g d0] by simp
  consider "pc l = I_Dup1" | "pc l = I_Dup2" | "pc l = I_Dup3" using p by auto
  then show ?thesis
  proof cases
    case 1
    then show ?thesis
      using a n g by (auto simp: insert_step_def lin_event_def goto_def loc_def stale_def key_of_def intro!: own_readI)
  next
    case 2
    then show ?thesis
      using a w sv l g by (auto simp: insert_step_def lin_event_def goto_def loc_def stale_def intro!: own_readI)
  next
    case 3
    show ?thesis
    proof (cases "w = v_succs l ! 0")
      case True
      let ?s = "(set_inserting s (v_new l) False)\<lparr>garbage := garbage s @ [v_new l]\<rparr>"
      have "upd s D L ?s D L (v_new l)"
        using a(3) by (intro upd_set_inserting(2) [OF g]) (auto simp: priv_node_def)
      then show ?thesis
        using 3 True w by (auto simp: insert_step_def lin_event_def loc_def own_ok_def own_addr_def is_private_def)
    next
      case False
      then show ?thesis
        using 3 a w g by (auto simp: insert_step_def lin_event_def goto_def loc_def stale_def intro!: own_readI)
    qed
  qed
qed

lemma insert_link0_own:
  assumes g: "glob s D L" and l: "loc s D L l" and p: "pc l = I_Link0"
  shows "own_ok s D L l (lin_event s l) (insert_step var fresh s l)"
proof -
  have a: "ins_ctx l" "all_located s D L l" "priv_node s D L l" "stale s l"
    using l p by (auto simp: loc_def)
  let ?s = "wr s (v_new l) 0 (v_succs l ! 0)"
  have d0: "dst s D L 0 (v_succs l ! 0)" using all_located0 [OF a(2)] by (simp add: located_def)
  have "v_succs l ! 0 \<noteq> 0" using dst_valid [OF g d0] by auto
  then have u: "upd s D L ?s D L (v_new l)"
    using a(3) by (intro upd_private [OF g]) (simp_all add: priv_node_def)
  note e = updD(1) [OF u]
  have "priv_node ?s D L l" using a(3) by (auto simp: priv_node_def heap_wr)
  moreover have "rd s (v_new l) 0 \<noteq> None" using a(3) by (auto simp: priv_node_def rd_def)
  then have "rd ?s (v_new l) 0 = Some (v_succs l ! 0)" by (simp add: rd_wr)
  ultimately have "loc ?s D L (goto I_Cas0 l)"
    using a evo_all_located [OF e g] evo_stale [OF e g] by (simp add: loc_def goto_def)
  then show ?thesis
    using p u by (auto simp: insert_step_def lin_event_def own_ok_def own_addr_def is_private_def)
qed

lemma insert_cas0_own:
  assumes g: "glob s D L" and l: "loc s D L l" and p: "pc l = I_Cas0"
  shows "own_ok s D L l (lin_event s l) (insert_step var fresh s l)"
proof -
  have a: "ins_ctx l" "all_located s D L l" "priv_node s D L l" "stale s l"
      "rd s (v_new l) 0 = Some (v_succs l ! 0)"
    using l p by (auto simp: loc_def)
  let ?p = "v_preds l ! 0" and ?r = "v_succs l ! 0"
  have l0: "src s D L 0 ?p" "lo s D (v_k l) ?p" "dst s D L 0 ?r" "v_k l \<le> key_of s ?r"
    using all_located0 [OF a(2)] by (simp_all add: located_def)
  obtain w where w: "rd s ?p 0 = Some w" using l0(1) by (auto simp: src_def okn_def)
  show ?thesis
  proof (cases "w = ?r")
    case False
    then have "loc s D L (start_locate s False l)"
      using start_locate_loc [OF g a(1), of False] a(3) by simp
    then show ?thesis
      using p w False g by (auto simp: insert_step_def lin_event_def cas_def intro!: own_readI)
  next
    case True
    let ?s = "wr s ?p 0 (v_new l)"
    obtain nd where nd: "heap s (v_new l) = Some nd" "nkey nd = v_k l" "nval nd = v_v l"
        "nlevel nd = length (nnext nd)" "1 \<le> nlevel nd" "nlevel nd \<le> NUM_LEVELS"
      using a(3) by (auto simp: priv_node_def)
    have k: "v_k l < key_of s ?r" "v_k l < tail_key"
      using a(1,4) l0(4) w True by (auto simp: stale_def ins_ctx_def)
    let ?L = "takeWhile (\<lambda>e. entry_key e < v_k l) L @ (v_new l, v_k l, v_v l) #
        dropWhile (\<lambda>e. entry_key e < v_k l) L"
    have u: "upd s D L ?s D ?L (v_new l)"
      by (rule upd_insert [OF g _ l0(2) _ _ k(1) _ _ _ a(5) nd k(2)])
         (use l0 w True a(3) in \<open>auto simp: src_def dst_def priv_node_def\<close>)
    note e = updD(1) [OF u]
    have "v_new l \<in> members D ?L" by (auto simp: members_def)
    moreover have "okn ?s 0 (v_new l)"
      using bottom_defined [OF updD(2) [OF u]] calculation by blast
    ultimately have "loc ?s D ?L (l\<lparr>v_ii := 1, pc := I_Loop\<rparr>)"
      using a(1) evo_all_located [OF e g a(2)] by (simp add: loc_def pub_node_def)
    then show ?thesis
      using p u w True by (auto simp: insert_step_def lin_event_def cas_def own_ok_def own_addr_def is_private_def)
  qed
qed

lemma insert_upper_own:
  assumes g: "glob s D L" and l: "loc s D L l"
    and p: "pc l \<in> {I_Loop, I_Chk1, I_Chk2, I_LinkI, I_CasI, I_Re, I_Fin}"
  shows "own_ok s D L l (lin_event s l) (insert_step var fresh s l)"
proof (cases "pc l = I_Fin")
  case True
  then have m: "v_new l \<in> members D L" using l by (simp add: loc_def)
  then have "v_new l \<noteq> q_head s" using glob_sentinels(4) [OF g] by auto
  then have "upd s D L (set_inserting s (v_new l) False) D L (own_addr l)"
    by (intro upd_set_inserting(1) [OF g]) (simp_all add: m)
  then show ?thesis
    using True by (auto simp: insert_step_def lin_event_def own_ok_def loc_def)
next
  case False
  then have a: "ins_ctx l" "pub_node s D L l" "all_located s D L l" using l p by (auto simp: loc_def)
  have m: "v_new l \<in> members D L" using a by (simp add: pub_node_def)
  obtain n where n: "heap s (v_new l) = Some n" "nlevel n = length (nnext n)" "nlevel n \<le> NUM_LEVELS"
    using glob_member [OF g m] by metis
  obtain w where w: "rd s (v_new l) 0 = Some w"
    using bottom_defined [OF g, of "v_new l"] m by (auto simp: okn_def)
  have ii: "1 \<le> v_ii l" using a by (simp add: pub_node_def)
  have loc_ii: "v_ii l < NUM_LEVELS \<and> located s D L l (v_ii l)" if "rd s (v_new l) (v_ii l) \<noteq> None"
    using that n a(3) by (auto simp: rd_def all_located_def split: if_splits)
  consider "pc l = I_Loop" | "pc l = I_Chk1" | "pc l = I_Chk2" | "pc l = I_LinkI" | "pc l = I_CasI"
      | "pc l = I_Re" using p False by auto
  then show ?thesis
  proof cases
    case 1
    then show ?thesis
      using a n m g by (auto simp: insert_step_def lin_event_def goto_def loc_def rd_def intro!: own_readI)
  next
    case 2
    then show ?thesis
      using a w m g l by (auto simp: insert_step_def lin_event_def goto_def loc_def intro!: own_readI)
  next
    case 3
    then have r: "rd s (v_new l) (v_ii l) \<noteq> None" using l by (simp add: loc_def)
    then have "dst s D L (v_ii l) (v_succs l ! v_ii l)" using loc_ii by (simp add: located_def)
    then obtain w' where "rd s (v_succs l ! v_ii l) 0 = Some w'" by (rule dst_bottom [OF g])
    then show ?thesis
      using 3 a m g r by (auto simp: insert_step_def lin_event_def goto_def loc_def intro!: own_readI)
  next
    case 4
    then have r: "rd s (v_new l) (v_ii l) \<noteq> None" using l by (simp add: loc_def)
    let ?s = "wr s (v_new l) (v_ii l) (v_succs l ! v_ii l)"
    have d: "dst s D L (v_ii l) (v_succs l ! v_ii l)" using loc_ii [OF r] by (simp add: located_def)
    have u: "upd s D L ?s D L (own_addr l)" using upd_upper [OF g _ ii d] m by blast
    note e = updD(1) [OF u]
    have "okn ?s (v_ii l) (v_new l)"
      unfolding okn_def
    proof (intro allI impI)
      fix j assume j: "j \<le> v_ii l"
      show "\<exists>w. rd ?s (v_new l) j = Some w \<and> w \<noteq> 0"
      proof (cases "j = v_ii l")
        case True
        have "v_succs l ! v_ii l \<noteq> 0" using dst_valid [OF g d] by auto
        then show ?thesis using True r by (simp add: rd_wr)
      next
        case False
        then have "j \<le> v_ii l - 1" using j ii by simp
        then have "\<exists>w. rd s (v_new l) j = Some w \<and> w \<noteq> 0" using a(2) by (simp add: pub_node_def okn_def)
        then show ?thesis using False by (simp add: rd_wr)
      qed
    qed
    then have "loc ?s D L (goto I_CasI l)"
      using a evo_all_located [OF e g] evo_pub_node [OF e] by (simp add: loc_def goto_def)
    then show ?thesis using 4 u by (auto simp: insert_step_def lin_event_def own_ok_def)
  next
    case 5
    let ?p = "v_preds l ! v_ii l"
    have o: "okn s (v_ii l) (v_new l)" using l 5 by (simp add: loc_def)
    then have "rd s (v_new l) (v_ii l) \<noteq> None" by (auto simp: okn_def)
    then have "src s D L (v_ii l) ?p" using loc_ii by (simp add: located_def)
    then obtain w where w: "rd s ?p (v_ii l) = Some w" and pm: "?p = q_head s \<or> ?p \<in> members D L"
      by (auto simp: src_def okn_def)
    show ?thesis
    proof (cases "w = v_succs l ! v_ii l")
      case True
      let ?s = "wr s ?p (v_ii l) (v_new l)"
      have d: "dst s D L (v_ii l) (v_new l)" using m o by (simp add: dst_def)
      have u: "upd s D L ?s D L (own_addr l)" by (rule upd_upper [OF g pm ii d])
      note e = updD(1) [OF u]
      have "loc ?s D L (l\<lparr>v_ii := v_ii l + 1, pc := I_Loop\<rparr>)"
        using a evo_all_located [OF e g] evo_okn [OF e o] evo_members [OF e m]
        by (simp add: loc_def pub_node_def)
      then show ?thesis
        using 5 u w True by (auto simp: insert_step_def lin_event_def cas_def own_ok_def)
    next
      case False
      have "loc s D L (start_locate s True l)"
        using start_locate_loc [OF g a(1), of True] a(2) by simp
      then show ?thesis
        using 5 w False g by (auto simp: insert_step_def lin_event_def cas_def intro!: own_readI)
    qed
  next
    case 6
    then show ?thesis
      using a m g by (auto simp: insert_step_def lin_event_def goto_def loc_def intro!: own_readI)
  qed
qed


section \<open>deletemin\<close>

lemma dead_inj:
  assumes g: "glob s D L" and e: "get_marked_ref (D ! a) = get_marked_ref (D ! b)"
    and ab: "a < length D" "b < length D"
  shows "a = b"
proof -
  have "\<not> is_marked_ref (D ! a)" "\<not> is_marked_ref (D ! b)"
    using glob_valid [OF g] ab nth_D_members by blast+
  then have "D ! a = D ! b" using e by (metis mark_inj)
  moreover have "distinct D" using g by (simp add: glob_def glob_nodes_def)
  ultimately show "a = b" using ab nth_eq_iff_index_eq by blast
qed

lemma dead_valid: "glob s D L \<Longrightarrow> p \<in> set D \<Longrightarrow> valid_addr p"
  using glob_valid set_D_members by blast

lemma past_obs_member: "past_obs D l p \<Longrightarrow> p \<in> set D"
  by (auto simp: past_obs_def)

text \<open>Following a marked pointer from the head or from a node past the observed one.\<close>

lemma past_obs_next:
  assumes g: "glob s D L" and o: "obs_ok s D l" and x: "x = q_head s \<or> past_obs D l x"
    and r: "rd s x 0 = Some w" "is_marked_ref w"
  shows "past_obs D l (get_unmarked_ref w) \<and> get_unmarked_ref w \<noteq> 0"
proof -
  have "x = q_head s \<or> x \<in> members D L \<or> x = q_tail s"
    using x past_obs_member set_D_members by metis
  then obtain j where j: "j < length D" "w = get_marked_ref (D ! j)"
      "x = q_head s \<or> (\<exists>i. j = Suc i \<and> x = D ! i)"
    using marked_dead(2) [OF g _ r] by blast
  have v: "valid_addr (D ! j)" using dead_valid [OF g] j(1) by simp
  have "a \<le> j" if a: "a < length D" "v_obs_head l = get_marked_ref (D ! a)" for a
  proof (cases "x = q_head s")
    case True
    from a o obtain b m where "b < length D" "v_obs_head l = get_marked_ref (D ! b)"
        "m < length D" "b \<le> m" "rd s (q_head s) 0 = Some (get_marked_ref (D ! m))"
      by (auto simp: obs_ok_def)
    with a r(1) j True show ?thesis using dead_inj [OF g, of a b] dead_inj [OF g, of m j] by auto
  next
    case False
    with j(3) obtain i where i: "j = Suc i" "x = D ! i" by blast
    from x False obtain c where c: "c < length D" "D ! c = x"
        "\<forall>a<length D. v_obs_head l = get_marked_ref (D ! a) \<longrightarrow> a \<le> c"
      by (auto simp: past_obs_def)
    have "c = i" using dead_inj [OF g, of c i] c i j(1) by simp
    with c(3) a i show ?thesis by auto
  qed
  with j v show ?thesis by (auto simp: past_obs_def)
qed

lemma deletemin_own_read:
  assumes g: "glob s D L" and l: "loc s D L l" and p: "pc l \<in> {D_Enter, D_Read, D_Val, D_Hd}"
  shows "own_ok s D L l (lin_event s l) (deletemin_step var s l)"
proof -
  obtain wh where wh: "rd s (q_head s) 0 = Some wh"
    using glob_sentinels(6) [OF g] by (auto simp: okn_def)
  consider "pc l = D_Enter" | "pc l = D_Read" | "pc l = D_Val" | "pc l = D_Hd" using p by auto
  then show ?thesis
  proof cases
    case 1
    let ?l = "l\<lparr>p_count := p_count l + 1, v_ret := 0, v_newhead := 0, v_offset := 0,
        v_x := q_head s, v_obs_head := wh, pc := D_Read\<rparr>"
    have "obs_ok s D ?l"
      using marked_dead(2) [OF g, of "q_head s" wh] wh by (auto simp: obs_ok_def)
    then have "loc s D L ?l" by (simp add: loc_def del_ctx_def)
    then show ?thesis
      using 1 wh g by (auto simp: deletemin_step_def lin_event_def intro!: own_readI)
  next
    case 2
    then have c: "del_ctx s D l" "v_x l = q_head s \<or> past_obs D l (v_x l)"
      using l by (simp_all add: loc_def)
    have x: "v_x l = q_head s \<or> v_x l \<in> members D L"
      using c(2) past_obs_member set_D_members by metis
    then obtain w where w: "rd s (v_x l) 0 = Some w"
      using bottom_defined [OF g] by (auto simp: okn_def)
    have "is_marked_ref w \<Longrightarrow> past_obs D l (get_unmarked_ref w)"
      using past_obs_next [OF g _ c(2) w] c(1) by (simp add: del_ctx_def)
    moreover have "get_unmarked_ref w \<noteq> q_tail s \<Longrightarrow> w \<noteq> q_tail s"
      using glob_sentinels(2) [OF g] by auto
    ultimately show ?thesis
      using 2 c w g by (auto simp: deletemin_step_def lin_event_def loc_def intro!: own_readI)
  next
    case 3
    then have c: "del_ctx s D l" "past_obs D l (v_x l)" using l by (simp_all add: loc_def)
    obtain n where "heap s (v_x l) = Some n"
      using glob_member [OF g] c(2) past_obs_member set_D_members by metis
    then show ?thesis
      using 3 c g by (auto simp: deletemin_step_def lin_event_def loc_def del_ctx_def intro!: own_readI)
  next
    case 4
    then show ?thesis
      using wh l g by (auto simp: deletemin_step_def lin_event_def loc_def goto_def intro!: own_readI)
  qed
qed

lemma deletemin_own_ins:
  assumes g: "glob s D L" and l: "loc s D L l" and p: "pc l = D_Ins"
  shows "own_ok s D L l (lin_event s l) (deletemin_step var s l)"
proof -
  have c: "obs_ok s D l" "v_newhead l = 0 \<or> past_obs D l (v_newhead l)"
      "v_x l = q_head s \<or> past_obs D l (v_x l)" "rd s (v_x l) 0 \<noteq> Some (q_tail s)"
      "is_marked_ref (v_nxt l) \<Longrightarrow> past_obs D l (get_unmarked_ref (v_nxt l))"
    using l p by (simp_all add: loc_def del_ctx_def)
  have "v_x l = q_head s \<or> v_x l \<in> members D L"
    using c(3) past_obs_member set_D_members by metis
  then obtain n where n: "heap s (v_x l) = Some n"
    using glob_member [OF g] glob_sentinels(7) [OF g] by (metis option.exhaust)
  have nh: "ninserting n \<Longrightarrow> past_obs D l (v_x l)"
    using c(3) n g by (auto simp: glob_def glob_sent_def)
  let ?l = "if v_newhead l = 0 \<and> ninserting n then l\<lparr>v_newhead := v_x l\<rparr> else l"
  have d: "del_ctx s D ?l" using c nh by (auto simp: del_ctx_def)
  have po: "\<And>p. past_obs D ?l p = past_obs D l p" by simp
  have "loc s D L (if is_marked_ref (v_nxt l) then deletemin_while ?l else goto D_Fao ?l)"
  proof (cases "is_marked_ref (v_nxt l)")
    case True
    then have "get_unmarked_ref (v_nxt l) \<noteq> 0"
      using c(5) dead_valid [OF g] past_obs_member by blast
    then show ?thesis
      using True d c(5) po by (auto simp: loc_def deletemin_while_def Let_def split: if_splits)
  next
    case False
    then show ?thesis
      using d c(3,4) po by (auto simp: loc_def goto_def)
  qed
  then show ?thesis
    using p n g by (auto simp: deletemin_step_def lin_event_def Let_def intro!: own_readI)
qed

lemma past_obs_last: "past_obs (D @ [w]) l w"
  unfolding past_obs_def by (rule exI [of _ "length D"]) auto

lemma deletemin_own_fao:
  assumes g: "glob s D L" and l: "loc s D L l" and p: "pc l = D_Fao"
  shows "own_ok s D L l (lin_event s l) (deletemin_step var s l)"
proof -
  have c: "del_ctx s D l" "v_x l = q_head s \<or> past_obs D l (v_x l)"
      "rd s (v_x l) 0 \<noteq> Some (q_tail s)"
    using l p by (simp_all add: loc_def)
  have x: "v_x l = q_head s \<or> v_x l \<in> set D" "v_x l = q_head s \<or> v_x l \<in> members D L"
    using c(2) past_obs_member set_D_members by metis+
  then obtain w where w: "rd s (v_x l) 0 = Some w" "w \<noteq> 0"
    using bottom_defined [OF g] by (auto simp: okn_def)
  let ?s = "wr s (v_x l) 0 (get_marked_ref w)"
  show ?thesis
  proof (cases "is_marked_ref w")
    case True
    then have s: "?s = s" using w wr_same by (simp add: mark_marked)
    have "past_obs D l (get_unmarked_ref w)" "get_unmarked_ref w \<noteq> 0"
      using past_obs_next [OF g _ c(2) w(1) True] c(1) by (auto simp: del_ctx_def)
    then have "loc s D L (deletemin_while (l\<lparr>v_nxt := w, nb_collisions := n\<rparr>))" for n
      using True c(1) by (simp add: loc_def deletemin_while_def)
    from this this [of "nb_collisions l"] show ?thesis
      using p w True s g
      by (auto simp: deletemin_step_def lin_event_def fetch_or1_def intro!: own_readI)
  next
    case False
    have "w \<noteq> q_tail s" using c(3) w by auto
    from upd_delete [OF g x(2) w(1) False this x(1)] obtain k v L'
      where L: "L = (w, k, v) # L'" and u: "upd s D L ?s (D @ [w]) L' (own_addr l)"
      by blast
    note e = updD(1) [OF u]
    obtain n where n: "heap s w = Some n" using g L by (auto simp: glob_def glob_nodes_def)
    have "del_ctx ?s (D @ [w]) l" by (rule evo_del_ctx [OF e g updD(2) [OF u] c(1)])
    then have "loc ?s (D @ [w]) L' (deletemin_while (l\<lparr>v_nxt := w, nb_collisions := m\<rparr>))" for m
      using False past_obs_last by (simp add: loc_def deletemin_while_def unmarked_id)
    from this this [of "nb_collisions l"] show ?thesis
      using p w n u L False
      by (auto simp: deletemin_step_def lin_event_def fetch_or1_def own_ok_def)
  qed
qed

lemma deletemin_own_cash:
  assumes g: "glob s D L" and l: "loc s D L l" and p: "pc l = D_CasH"
  shows "own_ok s D L l (lin_event s l) (deletemin_step var s l)"
proof -
  have c: "obs_ok s D l" "past_obs D l (v_newhead l)" using l p by (simp_all add: loc_def)
  obtain w where w: "rd s (q_head s) 0 = Some w"
    using glob_sentinels(6) [OF g] by (auto simp: okn_def)
  show ?thesis
  proof (cases "w = v_obs_head l")
    case False
    then show ?thesis
      using p w g by (auto simp: deletemin_step_def lin_event_def cas_def goto_def loc_def intro!: own_readI)
  next
    case True
    obtain j where j: "j < length D" "D ! j = v_newhead l"
        "\<forall>a<length D. v_obs_head l = get_marked_ref (D ! a) \<longrightarrow> a \<le> j"
      using c(2) by (auto simp: past_obs_def)
    then have "D \<noteq> []" by auto
    then obtain m where m: "m < length D" "rd s (q_head s) 0 = Some (get_marked_ref (D ! m))"
      using g by (auto simp: glob_def glob_chain_def)
    then have o: "v_obs_head l = get_marked_ref (D ! m)" "m \<le> j" using w True j(3) by auto
    let ?s = "wr s (q_head s) 0 (get_marked_ref (v_newhead l))"
    have u: "upd s D L ?s D L (own_addr l)"
      using upd_swing [OF g m(2) o(2) j(1)] j(2) by simp
    note e = updD(1) [OF u]
    let ?l = "l\<lparr>v_i := NUM_LEVELS - 1, v_pred := q_head s, pc := R_Head\<rparr>"
    have "obs_ok ?s D l" by (rule evo_obs_ok [OF e c(1)])
    then have "rst_ctx ?s D l" using o(1) c(2) by (simp add: rst_ctx_def)
    moreover have "rd ?s (q_head s) 0 = Some (get_marked_ref (v_newhead l))"
      using w by (simp add: rd_wr)
    then have "marked_src ?s D L (NUM_LEVELS - 1) (q_head s)"
      using evo_okn [OF e glob_sentinels(6) [OF g]] by (simp add: marked_src_def src_def)
    ultimately have "loc ?s D L ?l" by (simp add: loc_def NUM_LEVELS_def)
    then show ?thesis
      using p w True u by (auto simp: deletemin_step_def lin_event_def cas_def own_ok_def)
  qed
qed

lemma deletemin_own_free:
  assumes g: "glob s D L" and l: "loc s D L l" and p: "pc l \<in> {F_Test, F_Free}"
  shows "own_ok s D L l (lin_event s l) (deletemin_step var s l)"
proof -
  have c: "rst_ctx s D l" using l p by (auto simp: loc_def)
  have "v_newhead l \<in> set D" using c past_obs_member by (auto simp: rst_ctx_def)
  then have nh: "get_unmarked_ref (v_newhead l) = v_newhead l" using dead_valid [OF g] by simp
  have D: "distinct D" using g by (simp add: glob_def glob_nodes_def)
  consider "pc l = F_Test" | "pc l = F_Free" using p by auto
  then show ?thesis
  proof cases
    case 1
    then obtain i b where i: "i \<le> b" "b < length D" "D ! i = v_cur l" "D ! b = v_newhead l"
      using l by (auto simp: loc_def)
    show ?thesis
    proof (cases "v_cur l = v_newhead l")
      case True
      then show ?thesis
        using 1 g nh by (auto simp: deletemin_step_def lin_event_def goto_def loc_def intro!: own_readI)
    next
      case False
      then have ib: "i < b" using i by (cases "i = b") auto
      then have r: "rd s (v_cur l) 0 = Some (get_marked_ref (D ! Suc i))"
        using dead_next [OF g, of i] i by simp
      have "D ! Suc i \<in> set D" using ib i(2) by simp
      then have "get_unmarked_ref (get_marked_ref (D ! Suc i)) = D ! Suc i"
        using dead_valid [OF g] by simp
      then have "loc s D L (l\<lparr>v_nxt := get_unmarked_ref (get_marked_ref (D ! Suc i)), pc := F_Free\<rparr>)"
        using c i ib by (auto simp: loc_def)
      then show ?thesis
        using 1 r False nh g by (auto simp: deletemin_step_def lin_event_def intro!: own_readI)
    qed
  next
    case 2
    then obtain i b where i: "i < b" "b < length D" "D ! i = v_cur l" "D ! b = v_newhead l"
        "v_nxt l = D ! Suc i"
      using l by (auto simp: loc_def)
    then have r: "rd s (v_cur l) 0 = Some (get_marked_ref (D ! Suc i))"
      using dead_next [OF g, of i] by simp
    let ?s = "s\<lparr>garbage := garbage s @ [v_cur l]\<rparr>"
    have u: "upd s D L ?s D L (own_addr l)" by (rule upd_garbage [OF g])
    note e = updD(1) [OF u]
    have "rst_ctx ?s D l" by (rule evo_rst_ctx [OF e g updD(2) [OF u] c])
    moreover have "\<exists>c b. c \<le> b \<and> b < length D \<and> D ! c = v_nxt l \<and> D ! b = v_newhead l"
      using i by (intro exI [of _ "Suc i"] exI [of _ b]) auto
    ultimately have "loc ?s D L (l\<lparr>v_cur := v_nxt l, pc := F_Test\<rparr>)"
      by (simp add: loc_def)
    then show ?thesis
      using 2 r u by (auto simp: deletemin_step_def lin_event_def own_ok_def)
  qed
qed

section \<open>restructure\<close>

lemma restructure_own:
  assumes g: "glob s D L" and l: "loc s D L l"
    and p: "pc l \<in> {R_Head, R_Cur, R_Test, R_Walk, R_Step, R_Assert, R_Cas}"
  shows "own_ok s D L l (lin_event s l) (restructure_step s l)"
proof -
  have c: "rst_ctx s D l" "v_i l < NUM_LEVELS" "marked_src s D L (v_i l) (v_pred l)"
    using l p by (auto simp: loc_def)
  have sp: "src s D L (v_i l) (v_pred l)" using c(3) by (simp add: marked_src_def)
  have down: "marked_src s D L (v_i l - 1) (v_pred l)" "v_i l - 1 < NUM_LEVELS"
    using c(2,3) by (auto simp: marked_src_def src_def okn_def)
  have lin: "lin_event s l = None" using p by (auto simp: lin_event_def)
  have sh: "src s D L (v_i l) (q_head s)"
    using glob_sentinels(6) [OF g] c(2) by (auto simp: src_def okn_def NUM_LEVELS_def)
  consider "pc l = R_Head" | "pc l = R_Cur" | "pc l = R_Test" | "pc l = R_Walk" | "pc l = R_Step"
      | "pc l = R_Assert" | "pc l = R_Cas" using p by auto
  then show ?thesis
  proof cases
    case 1
    show ?thesis
    proof (cases "v_i l = 0")
      case True
      obtain a where a: "a < length D" "v_obs_head l = get_marked_ref (D ! a)"
        using c(1) by (auto simp: rst_ctx_def obs_ok_def)
      obtain b where b: "b < length D" "D ! b = v_newhead l" "a \<le> b"
        using c(1) a by (auto simp: rst_ctx_def past_obs_def)
      have "get_unmarked_ref (v_obs_head l) = D ! a" using a dead_valid [OF g] by simp
      then have "loc s D L (l\<lparr>v_cur := get_unmarked_ref (v_obs_head l), pc := F_Test\<rparr>)"
        using a b c(1) by (auto simp: loc_def)
      then show ?thesis
        using 1 True lin g by (auto simp: restructure_step_def intro!: own_readI)
    next
      case False
      then have i: "1 \<le> v_i l" by simp
      obtain w where "rd s (q_head s) (v_i l) = Some w" "dst s D L (v_i l) w"
        by (rule next_up [OF g sh i])
      then show ?thesis
        using 1 False lin c i g by (auto simp: restructure_step_def loc_def intro!: own_readI)
    qed
  next
    case 2
    then have i: "1 \<le> v_i l" "dst s D L (v_i l) (v_h l)" using l by (simp_all add: loc_def)
    obtain w where "rd s (v_pred l) (v_i l) = Some w" "dst s D L (v_i l) w"
      by (rule next_up [OF g sp i(1)])
    then show ?thesis
      using 2 lin c i g by (auto simp: restructure_step_def loc_def intro!: own_readI)
  next
    case 3
    then have i: "1 \<le> v_i l" "dst s D L (v_i l) (v_h l)" "dst s D L (v_i l) (v_cur l)"
      using l by (simp_all add: loc_def)
    obtain w where "rd s (v_h l) 0 = Some w" by (rule dst_bottom [OF g i(2)])
    then show ?thesis
      using 3 lin c i down g by (auto simp: restructure_step_def loc_def goto_def intro!: own_readI)
  next
    case 4
    then have i: "1 \<le> v_i l" "dst s D L (v_i l) (v_cur l)" using l by (simp_all add: loc_def)
    obtain w where w: "rd s (v_cur l) 0 = Some w" "is_marked_ref w \<longrightarrow> v_cur l \<in> set D"
      by (rule dst_bottom [OF g i(2)])
    have "marked_src s D L (v_i l) (v_cur l)" if m: "is_marked_ref w"
      using w m i(2) glob_sentinels(5) [OF g] by (auto simp: marked_src_def src_def dst_def members_def)
    then show ?thesis
      using 4 w lin c i g by (auto simp: restructure_step_def loc_def goto_def intro!: own_readI)
  next
    case 5
    then have i: "1 \<le> v_i l" using l by (simp_all add: loc_def)
    obtain w where "rd s (v_pred l) (v_i l) = Some w" "dst s D L (v_i l) w"
      by (rule next_up [OF g sp i])
    then show ?thesis
      using 5 lin c i g by (auto simp: restructure_step_def loc_def intro!: own_readI)
  next
    case 6
    then have i: "1 \<le> v_i l" "dst s D L (v_i l) (v_cur l)" using l by (simp_all add: loc_def)
    obtain w where "rd s (v_pred l) 0 = Some w" "is_marked_ref w"
      using c(3) by (auto simp: marked_src_def)
    then show ?thesis
      using 6 lin c i g by (auto simp: restructure_step_def loc_def goto_def intro!: own_readI)
  next
    case 7
    then have i: "1 \<le> v_i l" "dst s D L (v_i l) (v_cur l)" using l by (simp_all add: loc_def)
    obtain w where w: "rd s (q_head s) (v_i l) = Some w" by (rule next_up [OF g sh i(1)])
    show ?thesis
    proof (cases "w = v_h l")
      case True
      let ?s = "wr s (q_head s) (v_i l) (v_cur l)"
      have u: "upd s D L ?s D L (own_addr l)" by (rule upd_upper [OF g _ i]) simp
      note e = updD(1) [OF u]
      have "loc ?s D L (l\<lparr>v_i := v_i l - 1, pc := R_Head\<rparr>)"
        using evo_rst_ctx [OF e g updD(2) [OF u] c(1)] evo_marked_src [OF e down(1)] down(2)
        by (simp add: loc_def)
      then show ?thesis
        using 7 w True u lin by (auto simp: restructure_step_def cas_def own_ok_def)
    next
      case False
      then show ?thesis
        using 7 w lin c g by (auto simp: restructure_step_def cas_def loc_def goto_def intro!: own_readI)
    qed
  qed
qed

section \<open>Every step\<close>

theorem own_step:
  assumes g: "glob s D L" and l: "loc s D L l" and r: "running (pc l)"
    and f: "pc l = I_Enter \<Longrightarrow> fresh_addr s fresh"
  shows "own_ok s D L l (lin_event s l) (thread_step var fresh s l)"
proof (cases "pc l")
  case Leave
  then show ?thesis
    using g by (auto simp: thread_step_def lin_event_def loc_def intro!: own_readI)
qed (use locate_read_own [OF g l] locate_test_own [OF g l] insert_enter_own [OF g l _ f]
      insert_dup_own [OF g l] insert_link0_own [OF g l] insert_cas0_own [OF g l]
      insert_upper_own [OF g l] deletemin_own_read [OF g l] deletemin_own_ins [OF g l]
      deletemin_own_fao [OF g l] deletemin_own_cash [OF g l] deletemin_own_free [OF g l]
      restructure_own [OF g l] r
    in \<open>simp_all add: thread_step_def running_def\<close>)

end
