(* ===== verification/Linden_Lin.thy ===== *)
theory Linden_Lin
  imports Linden_Own
begin

text \<open>
  The invariants of the whole system, by induction over the interleaving: the shared and local
  invariants hold in every reachable state, and every reachable history is linearised.
\<close>

section \<open>The initial queue\<close>

lemma init_glob:
  assumes "valid_addr t" "valid_addr h" "t \<noteq> h" "length junk = NUM_LEVELS" "\<not> is_marked_ref (junk ! 0)"
  shows "glob (pq_init t h junk vt vh offs) [] []"
proof -
  let ?s = "pq_init t h junk vt vh offs"
  have rh: "rd ?s h i = (if i < NUM_LEVELS then Some t else None)" for i
    using assms(3) by (simp add: pq_init_def rd_def)
  have f: "q_head ?s = h" "q_tail ?s = t" by (simp_all add: pq_init_def)
  have ok: "okn ?s (NUM_LEVELS - 1) h"
    using rh assms(1) by (auto simp: okn_def NUM_LEVELS_def)
  have "glob_sent ?s [] []"
    unfolding glob_sent_def f using ok assms by (simp add: members_def pq_init_def)
  moreover have "glob_nodes ?s [] []"
    using assms by (auto simp: glob_nodes_def members_def pq_init_def split: if_splits)
  moreover have "glob_chain ?s [] []"
    using rh f by (simp add: glob_chain_def chain_of_def front_def NUM_LEVELS_def)
  moreover have "glob_up ?s [] []"
    unfolding glob_up_def
  proof (intro allI impI, elim conjE)
    fix p i w assume a: "p \<noteq> q_tail ?s" "rd ?s p i = Some w"
    then have "p = h" by (auto simp: rd_def pq_init_def split: if_splits)
    with a rh have "w = t" by (simp split: if_splits)
    then show "dst ?s [] [] i w" using f by (simp add: dst_def)
  qed
  ultimately show ?thesis by (simp add: glob_def)
qed

section \<open>Private nodes\<close>

lemma is_private_pc [simp]:
  "pc l \<in> {I_Dup1, I_Dup2, I_Dup3, I_Link0, I_Cas0} \<Longrightarrow> is_private l"
  "pc l = L_Read \<Longrightarrow> is_private l \<longleftrightarrow> \<not> v_relocate l"
  "pc l = L_Test \<Longrightarrow> is_private l \<longleftrightarrow> \<not> v_relocate l"
  by (auto simp: is_private_def)

lemma not_private_pc [simp]:
  "pc l \<notin> {L_Read, L_Test, I_Dup1, I_Dup2, I_Dup3, I_Link0, I_Cas0} \<Longrightarrow> \<not> is_private l"
  by (auto simp: is_private_def)

lemma locate_private:
  assumes "pc l = L_Read \<or> pc l = L_Test" and "is_private (locate_step s l)"
  shows "is_private l \<and> v_new (locate_step s l) = v_new l"
proof -
  from assms(1) show ?thesis
  proof
    assume "pc l = L_Read"
    then show ?thesis
      using assms(2) by (cases "rd s (v_x l) (v_i l)") (simp_all add: locate_step_def crash_def split: if_splits)
  next
    assume p: "pc l = L_Test"
    show ?thesis
    proof (cases "locate_cond s l")
      case (Some b)
      then show ?thesis
        using p assms(2)
        by (cases b; cases "v_i l = 0") (simp_all add: locate_step_def goto_def Let_def split: if_splits)
    qed (use p assms(2) in \<open>simp add: locate_step_def crash_def\<close>)
  qed
qed

lemma restructure_private:
  assumes "pc l \<in> {R_Head, R_Cur, R_Test, R_Walk, R_Step, R_Assert, R_Cas}"
  shows "\<not> is_private (snd (restructure_step s l))"
  using assms
  by (elim insertE emptyE)
     (simp_all add: restructure_step_def crash_def goto_def split: option.split bool.split prod.split)

lemma deletemin_private:
  assumes "pc l \<in> {D_Enter, D_Read, D_Ins, D_Fao, D_Val, D_Hd, D_CasH, F_Test, F_Free}"
  shows "\<not> is_private (snd (deletemin_step var s l))"
  using assms
  by (elim insertE emptyE)
     (simp_all add: deletemin_step_def crash_def goto_def deletemin_while_def Let_def
       split: option.split bool.split prod.split)

lemma insert_private:
  assumes "is_private (snd (insert_step var fresh s l))" "pc l \<noteq> L_Read" "pc l \<noteq> L_Test"
  shows "is_private l \<and> v_new (snd (insert_step var fresh s l)) = v_new l \<or>
    pc l = I_Enter \<and> v_new (snd (insert_step var fresh s l)) = fresh"
  using assms
  by (cases "pc l")
     (simp_all add: insert_step_def crash_def goto_def start_locate_def
       split: option.splits bool.splits prod.splits if_splits)

lemma private_step:
  assumes t: "thread_step var fresh s l = (s', l')" and p: "is_private l'"
  shows "is_private l \<and> v_new l' = v_new l \<or> pc l = I_Enter \<and> v_new l' = fresh"
proof -
  have l': "l' = snd (thread_step var fresh s l)" using t by simp
  have "pc l \<noteq> Leave" using t p by (auto simp: thread_step_def)
  then consider "pc l = L_Read \<or> pc l = L_Test"
    | "pc l \<in> {R_Head, R_Cur, R_Test, R_Walk, R_Step, R_Assert, R_Cas}"
    | "pc l \<in> {D_Enter, D_Read, D_Ins, D_Fao, D_Val, D_Hd, D_CasH, F_Test, F_Free}"
    | "thread_step var fresh s l = insert_step var fresh s l" "pc l \<noteq> L_Read" "pc l \<noteq> L_Test"
    by (cases "pc l") (simp_all add: thread_step_def)
  then show ?thesis
  proof cases
    case 1
    then show ?thesis using l' p locate_private [OF 1, of s] by (auto simp: thread_step_def)
  next
    case 2
    then have "thread_step var fresh s l = restructure_step s l" by (auto simp: thread_step_def)
    then show ?thesis using l' p restructure_private [OF 2] by simp
  next
    case 3
    then have "thread_step var fresh s l = deletemin_step var s l" by (auto simp: thread_step_def)
    then show ?thesis using l' p deletemin_private [OF 3] by simp
  next
    case 4
    then show ?thesis using l' p insert_private by metis
  qed
qed

section \<open>The specification follows the auxiliary lists\<close>

definition contents :: "'a entry list \<Rightarrow> 'a \<rightharpoonup> 'a" where
  "contents L = map_of (map snd L)"

lemma dom_contents: "dom (contents L) = entry_key ` set L"
  by (auto simp: contents_def dom_map_of_conv_image_fst entry_key_def image_image)

lemma contents_insert:
  assumes "sorted_wrt (<) (map entry_key (A @ (p, k :: 'a::linorder, v) # B))"
  shows "contents (A @ (p, k, v) # B) = (contents (A @ B))(k \<mapsto> v)" and "k \<notin> dom (contents (A @ B))"
proof -
  have "k \<notin> entry_key ` set (A @ B)"
    using assms by (fastforce simp: sorted_wrt_append entry_key_def)
  then show k: "k \<notin> dom (contents (A @ B))" by (simp add: dom_contents)
  then have "k \<notin> dom (map_of (map snd A))"
    by (auto simp: contents_def map_add_def split: option.splits)
  then show "contents (A @ (p, k, v) # B) = (contents (A @ B))(k \<mapsto> v)"
    by (auto simp: contents_def map_add_def fun_eq_iff split: option.splits)
qed

lemma tail_is_end:
  assumes g: "glob s D L" and x: "x = q_head s \<or> x \<in> set D" and r: "rd s x 0 = Some w"
    and u: "get_unmarked_ref w = q_tail s"
  shows "L = []"
proof -
  have x': "x = q_head s \<or> x \<in> members D L" using x by (auto simp: members_def)
  have "\<not> is_marked_ref w"
  proof
    assume m: "is_marked_ref w"
    have "x = q_head s \<or> x \<in> members D L \<or> x = q_tail s" using x' by blast
    then obtain j where j: "j < length D" "w = get_marked_ref (D ! j)"
      using marked_dead(2) [OF g _ r m] by blast
    then have "D ! j = q_tail s" using u dead_valid [OF g] by simp
    then show False using j glob_sentinels(5) [OF g] by (metis nth_D_members)
  qed
  then have w: "w = q_tail s" "\<not> is_marked_ref w" using u by (simp_all add: unmarked_id)
  show ?thesis
  proof (rule ccontr)
    assume L: "L \<noteq> []"
    have "x = front s D"
    proof -
      obtain j where j: "j \<le> length L" "x = chain_of s D L ! j" "w = chain_of s D L ! Suc j"
        using position [OF g x' r w(2)] .
      have "j < length (chain_of s D L)" using j by (simp add: chain_of_def)
      then have "x \<in> set (chain_of s D L)" using j(2) by simp
      then show ?thesis
        using chain_elems x live_not_dead [OF g] glob_sentinels(3,5) [OF g] set_D_members by metis
    qed
    then have "w = fst (L ! 0)"
      using chain_next [OF g, of 0] L r by (simp add: chain_of_def nth_append)
    then show False
      using L w live_not_dead(3) [OF g, of "fst (L ! 0)"] by (metis image_eqI length_greater_0_conv nth_mem)
  qed
qed

lemma event_spec:
  assumes g: "glob s D L" and l: "loc s D L l" and e: "lin_event s l = Some e"
    and D': "play (D, L) e = (D', L')" and g': "glob s' D' L'"
  shows "pq_spec (contents L) e (contents L')"
proof -
  have so: "sorted_wrt (<) (map entry_key L')" "sorted_wrt (<) (map entry_key L)"
    using g g' by (simp_all add: glob_def glob_nodes_def)
  from e consider "pc l = I_Cas0" | "pc l = I_Dup3" | "pc l = D_Fao" | "pc l = D_Read"
    by (auto simp: lin_event_def split: pc.splits)
  then show ?thesis
  proof cases
    case 1
    let ?P = "\<lambda>x. entry_key x < v_k l"
    have e': "e = Ins (v_new l) (v_k l) (v_v l)"
      using e 1 by (simp add: lin_event_def split: if_splits)
    then have L': "L' = takeWhile ?P L @ (v_new l, v_k l, v_v l) # dropWhile ?P L"
      using D' by simp
    show ?thesis
      unfolding e' using contents_insert [OF so(1) [unfolded L']] spec_ins by (simp add: L')
  next
    case 2
    then have e': "e = Dup (v_k l)" "rd s (v_preds l ! 0) 0 = Some (v_succs l ! 0)"
      using e by (simp_all add: lin_event_def split: if_splits)
    have a: "all_located s D L l" "key_of s (v_succs l ! 0) = v_k l" "v_k l < tail_key"
      using l 2 by (simp_all add: loc_def ins_ctx_def)
    have d: "dst s D L 0 (v_succs l ! 0)" "v_preds l ! 0 = q_head s \<or> v_preds l ! 0 \<in> members D L"
      using all_located0 [OF a(1)] by (simp_all add: located_def src_def)
    have "\<not> is_marked_ref (v_succs l ! 0)" using dst_valid [OF g d(1)] by simp
    then obtain j where "j \<le> length L" "v_succs l ! 0 = chain_of s D L ! Suc j"
      using position [OF g d(2) e'(2)] by metis
    moreover have "v_succs l ! 0 \<noteq> q_tail s" using a(2,3) glob_sentinels(9) [OF g] by auto
    ultimately have "v_succs l ! 0 \<in> fst ` set L" using chain_nth_dst [OF g] by metis
    then obtain k v where kv: "(v_succs l ! 0, k, v) \<in> set L" by force
    then have "k = v_k l" using a(2) g by (fastforce simp: glob_def glob_nodes_def key_of_def)
    then have "v_k l \<in> dom (contents L)"
      using imageI [OF kv, of entry_key] by (simp add: dom_contents entry_key_def)
    then show ?thesis using e'(1) D' by (auto intro: spec_dup)
  next
    case 3
    have c: "v_x l = q_head s \<or> past_obs D l (v_x l)" "rd s (v_x l) 0 \<noteq> Some (q_tail s)"
      using l 3 by (simp_all add: loc_def)
    have x: "v_x l = q_head s \<or> v_x l \<in> set D" "v_x l = q_head s \<or> v_x l \<in> members D L"
      using c(1) past_obs_member set_D_members by metis+
    obtain w n where w: "rd s (v_x l) 0 = Some w" "\<not> is_marked_ref w" "heap s w = Some n"
        "e = Del w (nkey n) (nval n)"
      using e 3 by (auto simp: lin_event_def split: option.splits if_splits)
    have "w \<noteq> q_tail s" using c(2) w(1) by auto
    from upd_delete [OF g x(2) w(1,2) this x(1), of 0] obtain k v L1 where L: "L = (w, k, v) # L1"
      by blast
    have n: "nkey n = k" "nval n = v" using g L w(3) by (auto simp: glob_def glob_nodes_def)
    have "L' = L1" using D' w(4) L by simp
    moreover have less: "\<forall>x\<in>set L1. k < entry_key x"
      using so(2) L by (auto simp: entry_key_def)
    then have "k \<notin> dom (contents L1)" by (auto simp: dom_contents)
    then have "contents L1 = (contents L)(k := None)"
      by (auto simp: L contents_def fun_eq_iff domIff)
    moreover have "\<forall>k' \<in> dom (contents L). k \<le> k'"
      using less by (auto simp: dom_contents L entry_key_def intro: less_imp_le)
    moreover have "contents L k = Some v" by (simp add: L contents_def)
    ultimately show ?thesis using w(4) n spec_del by metis
  next
    case 4
    have x: "v_x l = q_head s \<or> v_x l \<in> set D" 
      using l 4 past_obs_member by (auto simp: loc_def)
    obtain w where w: "rd s (v_x l) 0 = Some w" "get_unmarked_ref w = q_tail s" "e = Empty"
      using e 4 by (auto simp: lin_event_def split: option.splits if_splits)
    have "L = []" by (rule tail_is_end [OF g x w(1,2)])
    then show ?thesis using w(3) D' by (auto simp: contents_def intro: spec_empty)
  qed
qed

section \<open>Threads and the history\<close>

text \<open>
  What the program counter of a thread says about its phase. \<open>in_insert\<close> are the program counters
  of \<^verbatim>\<open>insert\<close> after its linearisation.
\<close>

definition in_insert :: "pc \<Rightarrow> bool" where
  "in_insert q \<longleftrightarrow> q \<in> {L_Read, L_Test, I_Loop, I_Chk1, I_Chk2, I_LinkI, I_CasI, I_Re, I_Fin}"

definition in_tail :: "pc \<Rightarrow> bool" where
  "in_tail q \<longleftrightarrow> q \<in> {D_Hd, D_CasH, R_Head, R_Cur, R_Test, R_Walk, R_Step, R_Assert, R_Cas, F_Test, F_Free}"

definition phase_ok :: "'k::len word shared \<Rightarrow> 'k word thr \<Rightarrow> 'k word phase \<Rightarrow> bool" where
  "phase_ok s l ph \<longleftrightarrow>
     (pc l = Idle \<longrightarrow> ph = Ready) \<and>
     (pc l = I_Enter \<or> is_private l \<longrightarrow> ph = Called (Op_Insert (v_k l) (v_v l))) \<and>
     (in_insert (pc l) \<and> \<not> is_private l \<longrightarrow>
        ph = Linearised (Op_Insert (v_k l) (v_v l)) (Ins (v_new l) (v_k l) (v_v l))) \<and>
     (pc l = D_Enter \<longrightarrow> ph = Called Op_Deletemin) \<and>
     (pc l \<in> {D_Read, D_Ins, D_Fao} \<longrightarrow> ph = Called Op_Deletemin \<and> v_ret l = 0) \<and>
     (pc l = D_Val \<longrightarrow> (\<exists>k n. ph = Linearised Op_Deletemin (Del (v_x l) k (nval n)) \<and>
        heap s (v_x l) = Some n)) \<and>
     (in_tail (pc l) \<longrightarrow> (\<exists>p k. ph = Linearised Op_Deletemin (Del p k (v_ret l)))) \<and>
     (pc l \<in> {Leave, Returned} \<longrightarrow> (\<exists>c e. ph = Linearised c e \<and> result_of e (v_ok l) (v_ret l)))"

definition next_phase :: "nat \<Rightarrow> 'a::zero phase \<Rightarrow> 'a event option \<Rightarrow> 'a phase option" where
  "next_phase t ph ev = (case ev of None \<Rightarrow> Some ph | Some e \<Rightarrow> advance t (Some ph) (Lin t e))"

lemma evo_phase_ok:
  assumes e: "evo s D L s' D' L' q" and p: "phase_ok s l ph"
  shows "phase_ok s' l ph"
proof -
  have "\<exists>n'. heap s' p = Some n' \<and> nval n' = nval n" if "heap s p = Some n" for p n
    using e that by (fastforce simp: evo_def evo_nodes_def)
  then show ?thesis
    using p unfolding phase_ok_def by metis
qed

lemma phase_locate:
  assumes c: "pc l = L_Read \<or> pc l = L_Test" and p: "phase_ok s l ph"
  shows "phase_ok s (locate_step s l) ph"
  using c
proof
  assume "pc l = L_Read"
  then show ?thesis
    using p by (cases "rd s (v_x l) (v_i l)")
      (auto simp: locate_step_def crash_def phase_ok_def in_insert_def in_tail_def is_private_def)
next
  assume q: "pc l = L_Test"
  show ?thesis
  proof (cases "locate_cond s l")
    case (Some b)
    then show ?thesis
      using q p by (cases b; cases "v_i l = 0"; cases "v_relocate l")
        (simp_all add: locate_step_def goto_def Let_def phase_ok_def in_insert_def in_tail_def is_private_def)
  qed (use q p in \<open>simp add: locate_step_def crash_def phase_ok_def in_insert_def in_tail_def is_private_def\<close>)
qed

lemma phase_restructure:
  assumes c: "pc l \<in> {R_Head, R_Cur, R_Test, R_Walk, R_Step, R_Assert, R_Cas}"
    and p: "phase_ok s l ph"
  shows "phase_ok s' (snd (restructure_step s l)) ph"
  using assms
  by (elim insertE emptyE)
     (simp_all add: restructure_step_def crash_def goto_def phase_ok_def in_insert_def in_tail_def is_private_def
       split: option.split bool.split prod.split)

lemma phase_insert:
  assumes c: "pc l = I_Enter \<or> is_private l \<or> in_insert (pc l)" "pc l \<noteq> L_Read" "pc l \<noteq> L_Test"
    and p: "phase_ok s l ph"
  shows "\<exists>ph'. next_phase t ph (lin_event s l) = Some ph' \<and> phase_ok s' (snd (insert_step var fresh s l)) ph'"
proof -
  note defs = insert_step_def lin_event_def next_phase_def crash_def goto_def start_locate_def cas_def
    phase_ok_def in_insert_def in_tail_def is_private_def
  show ?thesis
    using assms
    by (cases "pc l") (simp_all add: defs split: option.split bool.split prod.split if_splits)
qed

lemma phase_deletemin:
  assumes c: "pc l \<in> {D_Enter, D_Read, D_Ins, D_Val, D_Hd, D_CasH, F_Test, F_Free}"
    and p: "phase_ok s l ph"
    and nz: "pc l = D_Ins \<Longrightarrow> is_marked_ref (v_nxt l) \<Longrightarrow> get_unmarked_ref (v_nxt l) \<noteq> 0"
  shows "\<exists>ph'. next_phase t ph (lin_event s l) = Some ph' \<and> phase_ok s' (snd (deletemin_step var s l)) ph'"
proof -
  note defs = deletemin_step_def lin_event_def next_phase_def crash_def goto_def cas_def
    phase_ok_def in_insert_def in_tail_def is_private_def deletemin_while_def Let_def
  show ?thesis
    using assms
    by (elim insertE emptyE) (auto simp: defs split: option.splits bool.split prod.split if_splits)
qed

lemma phase_fao:
  assumes g: "glob s D L" and l: "loc s D L l" and c: "pc l = D_Fao" and p: "phase_ok s l ph"
    and s: "deletemin_step var s l = (s', l')"
  shows "\<exists>ph'. next_phase t ph (lin_event s l) = Some ph' \<and> phase_ok s' l' ph'"
proof -
  note defs = next_phase_def phase_ok_def in_insert_def in_tail_def is_private_def deletemin_while_def Let_def
  have x: "v_x l = q_head s \<or> past_obs D l (v_x l)" "obs_ok s D l"
    using l c by (simp_all add: loc_def del_ctx_def)
  then have xm: "v_x l = q_head s \<or> v_x l \<in> members D L"
    using past_obs_member set_D_members by metis
  obtain w where w: "rd s (v_x l) 0 = Some w" "w \<noteq> 0" "dst s D L 0 (get_unmarked_ref w)"
      "get_unmarked_ref w \<noteq> 0"
    using next0 [OF g xm] by metis
  obtain n where n: "heap s (get_unmarked_ref w) = Some n" using dst_heap [OF g w(3)] by blast
  have ph: "ph = Called Op_Deletemin" "v_ret l = 0" using p c by (simp_all add: phase_ok_def)
  show ?thesis
  proof (cases "is_marked_ref w")
    case True
    then show ?thesis
      using c w ph s by (auto simp: defs deletemin_step_def lin_event_def fetch_or1_def)
  next
    case False
    then have u: "get_unmarked_ref w = w" by (rule unmarked_id)
    have "s' = wr s (v_x l) 0 (get_marked_ref w)"
      using s c w by (auto simp: deletemin_step_def fetch_or1_def)
    then have "\<exists>n'. heap s' w = Some n' \<and> nval n' = nval n"
      using n u by (auto simp: heap_wr)
    then obtain n' where "heap s' w = Some n'" "nval n' = nval n" by blast
    then show ?thesis
      using c w ph s n u False by (auto simp: defs deletemin_step_def lin_event_def fetch_or1_def)
  qed
qed

lemma phase_step:
  assumes g: "glob s D L" and l: "loc s D L l" and r: "running (pc l)" and p: "phase_ok s l ph"
    and s: "thread_step var fresh s l = (s', l')"
  shows "\<exists>ph'. next_phase t ph (lin_event s l) = Some ph' \<and> phase_ok s' l' ph'"
proof -
  have s': "l' = snd (thread_step var fresh s l)" using s by simp
  consider "pc l = Leave" | "pc l = L_Read \<or> pc l = L_Test" | "pc l = D_Fao"
    | "pc l \<in> {R_Head, R_Cur, R_Test, R_Walk, R_Step, R_Assert, R_Cas}"
    | "pc l \<in> {D_Enter, D_Read, D_Ins, D_Val, D_Hd, D_CasH, F_Test, F_Free}"
    | "thread_step var fresh s l = insert_step var fresh s l" "pc l = I_Enter \<or> is_private l \<or> in_insert (pc l)"
      "pc l \<noteq> L_Read" "pc l \<noteq> L_Test"
    using r by (cases "pc l") (simp_all add: thread_step_def running_def in_insert_def)
  then show ?thesis
  proof cases
    case 1
    then show ?thesis
      using p s by (auto simp: thread_step_def next_phase_def lin_event_def phase_ok_def in_insert_def in_tail_def)
  next
    case 2
    then have "thread_step var fresh s l = (s, locate_step s l)" "lin_event s l = None"
      by (auto simp: thread_step_def lin_event_def)
    then show ?thesis using s phase_locate [OF 2 p] by (simp add: next_phase_def)
  next
    case 3
    then have "deletemin_step var s l = (s', l')" using s by (simp add: thread_step_def)
    then show ?thesis by (rule phase_fao [OF g l 3 p])
  next
    case 4
    then have "thread_step var fresh s l = restructure_step s l" "lin_event s l = None"
      by (auto simp: thread_step_def lin_event_def)
    then show ?thesis using s' phase_restructure [OF 4 p] by (simp add: next_phase_def)
  next
    case 5
    then have t: "thread_step var fresh s l = deletemin_step var s l" by (auto simp: thread_step_def)
    have "get_unmarked_ref (v_nxt l) \<noteq> 0" if "pc l = D_Ins" "is_marked_ref (v_nxt l)"
      using that l dead_valid [OF g] past_obs_member by (fastforce simp: loc_def)
    then show ?thesis using t s' phase_deletemin [OF 5 p] by simp
  next
    case 6
    then show ?thesis using s' phase_insert [OF 6(2,3,4) p] by simp
  qed
qed

section \<open>The invariant of the system\<close>

definition inv_mem :: "'k::len word sys \<Rightarrow> bool" where
  "inv_mem \<sigma> \<longleftrightarrow> glob (sh \<sigma>) (dead \<sigma>) (live \<sigma>) \<and> (\<forall>t. loc (sh \<sigma>) (dead \<sigma>) (live \<sigma>) (th \<sigma> t)) \<and>
     (\<forall>t u. t \<noteq> u \<and> is_private (th \<sigma> t) \<and> is_private (th \<sigma> u) \<longrightarrow> v_new (th \<sigma> t) \<noteq> v_new (th \<sigma> u))"

definition inv_hist :: "'k::len word sys \<Rightarrow> bool" where
  "inv_hist \<sigma> \<longleftrightarrow> (\<forall>t. \<exists>ph. phase_of t (hist \<sigma>) = Some ph \<and> phase_ok (sh \<sigma>) (th \<sigma> t) ph) \<and>
     pq_spec_run Map.empty (lin_events (hist \<sigma>)) (contents (live \<sigma>))"

lemma private_heap:
  assumes "loc s D L l" "is_private l"
  shows "heap s (v_new l) \<noteq> None \<and> priv_node s D L l"
proof -
  have "priv_node s D L l" using assms by (auto simp: is_private_def loc_def)
  then show ?thesis by (auto simp: priv_node_def)
qed

lemma exec_step:
  assumes i: "inv_mem \<sigma>" and r: "running (pc (th \<sigma> t))"
    and f: "pc (th \<sigma> t) = I_Enter \<Longrightarrow> fresh_addr (sh \<sigma>) fresh"
    and s: "thread_step var fresh (sh \<sigma>) (th \<sigma> t) = (s', l')"
    and D: "play_opt (dead \<sigma>, live \<sigma>) (lin_event (sh \<sigma>) (th \<sigma> t)) = (D', L')"
  shows "glob s' D' L'" "loc s' D' L' l'" "evo (sh \<sigma>) (dead \<sigma>) (live \<sigma>) s' D' L' (own_addr (th \<sigma> t))"
    "u \<noteq> t \<Longrightarrow> loc s' D' L' (th \<sigma> u)"
    "u \<noteq> t \<Longrightarrow> is_private l' \<Longrightarrow> is_private (th \<sigma> u) \<Longrightarrow> v_new l' \<noteq> v_new (th \<sigma> u)"
proof -
  have g: "glob (sh \<sigma>) (dead \<sigma>) (live \<sigma>)" and l: "\<And>u. loc (sh \<sigma>) (dead \<sigma>) (live \<sigma>) (th \<sigma> u)"
    using i by (simp_all add: inv_mem_def)
  have o: "own_ok (sh \<sigma>) (dead \<sigma>) (live \<sigma>) (th \<sigma> t) (lin_event (sh \<sigma>) (th \<sigma> t)) (s', l')"
    using own_step [OF g l r f, of var] s by simp
  then show g': "glob s' D' L'" and "loc s' D' L' l'"
    and e: "evo (sh \<sigma>) (dead \<sigma>) (live \<sigma>) s' D' L' (own_addr (th \<sigma> t))"
    using D by (simp_all add: own_ok_def upd_def)
  show "loc s' D' L' (th \<sigma> u)" if u: "u \<noteq> t"
  proof (rule evo_loc [OF e g g' l])
    assume p: "is_private (th \<sigma> u)"
    have "v_new (th \<sigma> u) \<noteq> 0"
      using private_heap [OF l p] g by (fastforce simp: glob_def glob_nodes_def)
    then show "v_new (th \<sigma> u) \<noteq> own_addr (th \<sigma> t)"
      using i u p by (auto simp: inv_mem_def own_addr_def)
  qed
  show "v_new l' \<noteq> v_new (th \<sigma> u)" if u: "u \<noteq> t" and p: "is_private l'" "is_private (th \<sigma> u)"
    using private_step [OF s p(1)]
  proof (elim disjE conjE)
    assume "is_private (th \<sigma> t)" "v_new l' = v_new (th \<sigma> t)"
    then show ?thesis using i u p(2) by (auto simp: inv_mem_def)
  next
    assume "pc (th \<sigma> t) = I_Enter" "v_new l' = fresh"
    then show ?thesis using private_heap [OF l p(2)] f by (auto simp: fresh_addr_def)
  qed
qed

lemma exec_inv_mem:
  assumes i: "inv_mem \<sigma>" and r: "running (pc (th \<sigma> t))"
    and f: "pc (th \<sigma> t) = I_Enter \<Longrightarrow> fresh_addr (sh \<sigma>) fresh"
  shows "inv_mem (exec_thread var fresh t \<sigma>)"
proof -
  obtain s' l' where s: "thread_step var fresh (sh \<sigma>) (th \<sigma> t) = (s', l')" by fastforce
  obtain D' L' where D: "play_opt (dead \<sigma>, live \<sigma>) (lin_event (sh \<sigma>) (th \<sigma> t)) = (D', L')" by fastforce
  note x = exec_step [OF i r f s D]
  have "\<forall>u. loc s' D' L' (((th \<sigma>)(t := l')) u)" using x(2,4) by simp
  moreover have "\<forall>u w. u \<noteq> w \<and> is_private (((th \<sigma>)(t := l')) u) \<and> is_private (((th \<sigma>)(t := l')) w) \<longrightarrow>
      v_new (((th \<sigma>)(t := l')) u) \<noteq> v_new (((th \<sigma>)(t := l')) w)"
    using x(5) i unfolding inv_mem_def by (metis fun_upd_apply)
  ultimately show ?thesis
    using x(1) by (simp add: exec_thread_def s D inv_mem_def)
qed

lemma exec_inv_hist:
  assumes i: "inv_mem \<sigma>" "inv_hist \<sigma>" and r: "running (pc (th \<sigma> t))"
    and f: "pc (th \<sigma> t) = I_Enter \<Longrightarrow> fresh_addr (sh \<sigma>) fresh"
  shows "inv_hist (exec_thread var fresh t \<sigma>)"
proof -
  obtain s' l' where s: "thread_step var fresh (sh \<sigma>) (th \<sigma> t) = (s', l')" by fastforce
  let ?ev = "lin_event (sh \<sigma>) (th \<sigma> t)"
  obtain D' L' where D: "play_opt (dead \<sigma>, live \<sigma>) ?ev = (D', L')" by fastforce
  note x = exec_step [OF i(1) r f s D]
  have g: "glob (sh \<sigma>) (dead \<sigma>) (live \<sigma>)" and l: "loc (sh \<sigma>) (dead \<sigma>) (live \<sigma>) (th \<sigma> t)"
    using i by (simp_all add: inv_mem_def)
  let ?h = "case ?ev of None \<Rightarrow> hist \<sigma> | Some e \<Rightarrow> hist \<sigma> @ [Lin t e]"
  have "\<exists>ph. phase_of u ?h = Some ph \<and> phase_ok s' (((th \<sigma>)(t := l')) u) ph" for u
  proof -
    obtain ph where ph: "phase_of u (hist \<sigma>) = Some ph" "phase_ok (sh \<sigma>) (th \<sigma> u) ph"
      using i(2) by (auto simp: inv_hist_def)
    show ?thesis
    proof (cases "u = t")
      case True
      then show ?thesis
        using phase_step [OF g l r _ s, of ph t] ph by (auto simp: next_phase_def split: option.splits)
    next
      case False
      then have "phase_of u ?h = Some ph" using ph(1) by (auto simp: advance_other split: option.split)
      then show ?thesis using evo_phase_ok [OF x(3) ph(2)] False by auto
    qed
  qed
  moreover have "pq_spec_run Map.empty (lin_events ?h) (contents L')"
  proof (cases ?ev)
    case None
    then show ?thesis using i(2) D by (simp add: inv_hist_def)
  next
    case (Some e)
    then have "pq_spec (contents (live \<sigma>)) e (contents L')"
      using event_spec [OF g l Some _ x(1)] D by simp
    then show ?thesis using i(2) Some run_snoc by (fastforce simp: inv_hist_def)
  qed
  ultimately show ?thesis by (simp add: exec_thread_def s D inv_hist_def)
qed

lemma outside_inv:
  assumes i: "inv_mem \<sigma>" and h: "inv_hist \<sigma>"
    and l: "loc (sh \<sigma>) (dead \<sigma>) (live \<sigma>) l'" "\<not> is_private l'"
    and e: "\<And>ph. phase_ok (sh \<sigma>) (th \<sigma> t) ph \<Longrightarrow>
        \<exists>ph'. advance t (Some ph) e = Some ph' \<and> phase_ok (sh \<sigma>) l' ph'"
    and o: "\<And>u p. u \<noteq> t \<Longrightarrow> advance u p e = p" and n: "lin_events [e] = []"
  shows "inv_mem (\<sigma>\<lparr>th := (th \<sigma>)(t := l'), hist := hist \<sigma> @ [e]\<rparr>) \<and>
    inv_hist (\<sigma>\<lparr>th := (th \<sigma>)(t := l'), hist := hist \<sigma> @ [e]\<rparr>)"
proof
  show "inv_mem (\<sigma>\<lparr>th := (th \<sigma>)(t := l'), hist := hist \<sigma> @ [e]\<rparr>)"
    using i l by (auto simp: inv_mem_def)
  have "\<exists>ph. phase_of u (hist \<sigma> @ [e]) = Some ph \<and> phase_ok (sh \<sigma>) (((th \<sigma>)(t := l')) u) ph" for u
  proof -
    obtain ph where ph: "phase_of u (hist \<sigma>) = Some ph" "phase_ok (sh \<sigma>) (th \<sigma> u) ph"
      using h by (auto simp: inv_hist_def)
    then show ?thesis using e [of ph] o [of u] by (cases "u = t") auto
  qed
  then show "inv_hist (\<sigma>\<lparr>th := (th \<sigma>)(t := l'), hist := hist \<sigma> @ [e]\<rparr>)"
    using h n by (simp add: inv_hist_def)
qed

lemma step_inv:
  assumes st: "sys_step var \<sigma> \<sigma>'" and i: "inv_mem \<sigma>" and h: "inv_hist \<sigma>"
  shows "inv_mem \<sigma>' \<and> inv_hist \<sigma>'"
  using st
proof cases
  case (invoke_insert t k jp js v)
  show ?thesis
    unfolding invoke_insert(1)
    by (rule outside_inv [OF i h])
       (use invoke_insert in \<open>auto simp: call_insert_def loc_def ins_ctx_def valid_key_def phase_ok_def
          in_insert_def in_tail_def advance_other\<close>)
next
  case (invoke_deletemin t)
  show ?thesis
    unfolding invoke_deletemin(1)
    by (rule outside_inv [OF i h])
       (use invoke_deletemin in \<open>auto simp: call_deletemin_def loc_def phase_ok_def
          in_insert_def in_tail_def advance_other\<close>)
next
  case (thread t fresh)
  then show ?thesis using exec_inv_mem [OF i] exec_inv_hist [OF i h] by simp
next
  case (respond t)
  show ?thesis
    unfolding respond(1)
    by (rule outside_inv [OF i h])
       (use respond in \<open>auto simp: goto_def loc_def phase_ok_def in_insert_def in_tail_def advance_other\<close>)
qed

lemma init_inv:
  assumes "sys_init \<sigma>"
  shows "inv_mem \<sigma> \<and> inv_hist \<sigma>"
proof -
  have p: "\<And>t. pc (th \<sigma> t) = Idle" using assms by (simp add: sys_init_def)
  have "glob (sh \<sigma>) (dead \<sigma>) (live \<sigma>)"
    using assms init_glob by (auto simp: sys_init_def)
  then have "inv_mem \<sigma>"
    using p by (auto simp: inv_mem_def loc_def is_private_def)
  moreover have "inv_hist \<sigma>"
    using assms p by (auto simp: inv_hist_def sys_init_def phase_ok_def in_insert_def in_tail_def
        is_private_def contents_def intro: run_nil)
  ultimately show ?thesis by simp
qed

theorem reachable_inv: "reachable var \<sigma> \<Longrightarrow> inv_mem \<sigma> \<and> inv_hist \<sigma>"
  by (induction rule: reachable.induct) (auto simp: init_inv dest: step_inv)

lemma reachable_linearised: "reachable var \<sigma> \<Longrightarrow> linearised (hist \<sigma>)"
  using reachable_inv unfolding inv_hist_def linearised_def by fastforce

end
