(* ===== verification/Linden_Abs.thy ===== *)
theory Linden_Abs
  imports Linden_Lin
begin

text \<open>
  The contents of the queue, read off the memory: a walk along the bottom level from the head,
  which skips the nodes whose predecessor pointer is marked.
\<close>

fun bottom_walk :: "'a shared \<Rightarrow> nat \<Rightarrow> ptr \<Rightarrow> ('a \<times> 'a) list option" where
  "bottom_walk s 0 p = None"
| "bottom_walk s (Suc fuel) p = (case rd s p 0 of
      None \<Rightarrow> None
    | Some w \<Rightarrow>
        if get_unmarked_ref w = q_tail s then Some []
        else (case heap s (get_unmarked_ref w) of
            None \<Rightarrow> None
          | Some n \<Rightarrow> map_option (\<lambda>es. if is_marked_ref w then es else (nkey n, nval n) # es)
              (bottom_walk s fuel (get_unmarked_ref w))))"

definition queue_entries :: "'a shared \<Rightarrow> nat \<Rightarrow> ('a \<times> 'a) list option" where
  "queue_entries s fuel = bottom_walk s fuel (q_head s)"

lemma walk_live:
  assumes g: "glob s D L" and j: "j \<le> length L" and f: "length L - j < fuel"
  shows "bottom_walk s fuel (chain_of s D L ! j) = Some (map snd (drop j L))"
  using j f
proof (induction "length L - j" arbitrary: j fuel)
  case 0
  then have j: "j = length L" by simp
  obtain fuel' where fuel: "fuel = Suc fuel'" using 0 by (cases fuel) auto
  have "chain_of s D L ! Suc (length L) = q_tail s" by (simp add: chain_of_def nth_append)
  then show ?case
    using chain_next [OF g, of j] glob_sentinels(2) [OF g] by (simp add: j fuel)
next
  case (Suc n)
  then have j: "j < length L" by simp
  obtain fuel' where fuel: "fuel = Suc fuel'" using Suc.prems by (cases fuel) auto
  obtain p k v where e: "L ! j = (p, k, v)" by (cases "L ! j") auto
  then have m: "(p, k, v) \<in> set L" using j nth_mem by metis
  obtain n' where n': "heap s p = Some n'" "nkey n' = k" "nval n' = v"
    using g m by (fastforce simp: glob_def glob_nodes_def)
  have p: "p \<in> fst ` set L" using m by force
  have c: "chain_of s D L ! Suc j = p" using j e by (simp add: chain_of_def nth_append)
  have r: "rd s (chain_of s D L ! j) 0 = Some p" using chain_next [OF g, of j] j c by simp
  have u: "valid_addr p" using glob_valid [OF g] live_not_dead [OF g p] by simp
  have "bottom_walk s fuel' (chain_of s D L ! Suc j) = Some (map snd (drop (Suc j) L))"
    using Suc j fuel by (intro Suc.hyps) auto
  then show ?case
    using r u n' c j e live_not_dead(3) [OF g p] by (simp add: fuel flip: Cons_nth_drop_Suc)
qed

lemma walk_dead:
  assumes g: "glob s D L" and i: "i < length D" and f: "length D - i + length L < fuel"
  shows "bottom_walk s fuel (D ! i) = Some (map snd L)"
  using i f
proof (induction "length D - i" arbitrary: i fuel)
  case (Suc n)
  obtain fuel' where fuel: "fuel = Suc fuel'" using Suc.prems by (cases fuel) auto
  show ?case
  proof (cases "Suc i < length D")
    case False
    then have "i = length D - 1" "D \<noteq> []" using Suc.prems by auto
    then have "D ! i = last D" "D \<noteq> []" by (simp_all add: last_conv_nth)
    then have "D ! i = chain_of s D L ! 0" by (simp add: chain_of_def front_def)
    moreover have "bottom_walk s fuel (chain_of s D L ! 0) = Some (map snd L)"
      using walk_live [OF g, of 0 fuel] Suc.prems by simp
    ultimately show ?thesis by simp
  next
    case True
    have r: "rd s (D ! i) 0 = Some (get_marked_ref (D ! Suc i))" by (rule dead_next [OF g True])
    have m: "D ! Suc i \<in> members D L" using True by (rule nth_D_members)
    then obtain n' where n': "heap s (D ! Suc i) = Some n'" "valid_addr (D ! Suc i)" "D ! Suc i \<noteq> q_tail s"
      by (rule glob_member [OF g])
    have "bottom_walk s fuel' (D ! Suc i) = Some (map snd L)"
      using Suc True fuel by (intro Suc.hyps) auto
    then show ?thesis using r n' by (simp add: fuel)
  qed
qed simp

lemma queue_entries_glob:
  assumes g: "glob s D L" and f: "length D + length L + 1 < fuel"
  shows "queue_entries s fuel = Some (map snd L)"
proof (cases "D = []")
  case True
  then have "q_head s = chain_of s D L ! 0" by (simp add: chain_of_def front_def)
  then show ?thesis using walk_live [OF g, of 0 fuel] f by (simp add: queue_entries_def)
next
  case False
  obtain fuel' where fuel: "fuel = Suc fuel'" using f by (cases fuel) auto
  obtain m where m: "m < length D" "rd s (q_head s) 0 = Some (get_marked_ref (D ! m))"
    using g False by (auto simp: glob_def glob_chain_def)
  obtain n where n: "heap s (D ! m) = Some n" "valid_addr (D ! m)" "D ! m \<noteq> q_tail s"
    using glob_member [OF g nth_D_members [OF m(1)]] by metis
  have "bottom_walk s fuel' (D ! m) = Some (map snd L)"
    using f fuel by (intro walk_dead [OF g m(1)]) auto
  then show ?thesis using m n by (simp add: queue_entries_def fuel)
qed

end
