(* ===== verification/Linden_Count.thy ===== *)
theory Linden_Count
  imports Linden_Lin
begin

text \<open>
  The nesting count of a thread's critical section (\<^verbatim>\<open>ptst->count\<close>). \<^verbatim>\<open>prioq.c\<close> leaves
  the section on every path; \<^verbatim>\<open>spraylist/linden.c\<close> returns from a refused insertion inside
  it, so that its count is the number of refused insertions.
\<close>

fun n_refused :: "nat \<Rightarrow> 'a label list \<Rightarrow> nat" where
  "n_refused t [] = 0"
| "n_refused t (Lin u (Dup k) # h) = (if u = t then 1 else 0) + n_refused t h"
| "n_refused t (l # h) = n_refused t h"

lemma n_refused_append [simp]: "n_refused t (h @ h') = n_refused t h + n_refused t h'"
  by (induction t h rule: n_refused.induct) simp_all

definition critical :: "pc \<Rightarrow> bool" where
  "critical q \<longleftrightarrow> running q \<and> q \<noteq> I_Enter \<and> q \<noteq> D_Enter"

definition refused :: "'a event option \<Rightarrow> nat" where
  "refused ev = (case ev of Some (Dup k) \<Rightarrow> 1 | _ \<Rightarrow> 0)"

lemma refused_simps [simp]:
  "refused None = 0" "refused (Some (Dup k)) = 1" "refused (Some (Ins p k v)) = 0"
  "refused (Some (Del p k v)) = 0" "refused (Some Empty) = 0"
  by (simp_all add: refused_def)

definition count_ok :: "variant \<Rightarrow> 'a thr \<Rightarrow> nat \<Rightarrow> bool" where
  "count_ok var l n \<longleftrightarrow>
     p_count l = 1 + (if critical (pc l) then 1 else 0) + (if dup_leaves var then 0 else n)"

abbreviation not_crashed :: "'a thr \<Rightarrow> bool" where
  "not_crashed l \<equiv> (\<forall>e. pc l \<noteq> Crashed e)"

lemma count_locate:
  assumes "pc l = L_Read \<or> pc l = L_Test" "count_ok var l n" "not_crashed (locate_step s l)"
  shows "count_ok var (locate_step s l) n"
  using assms(1)
proof
  assume "pc l = L_Read"
  then show ?thesis
    using assms(2,3) by (cases "rd s (v_x l) (v_i l)")
      (auto simp: locate_step_def crash_def count_ok_def critical_def running_def split: if_splits)
next
  assume q: "pc l = L_Test"
  show ?thesis
  proof (cases "locate_cond s l")
    case (Some b)
    then show ?thesis
      using q assms(2) by (cases b; cases "v_i l = 0"; cases "v_relocate l")
        (simp_all add: locate_step_def goto_def Let_def count_ok_def critical_def running_def)
  qed (use q assms(3) in \<open>simp add: locate_step_def crash_def\<close>)
qed

lemma count_restructure:
  assumes "pc l \<in> {R_Head, R_Cur, R_Test, R_Walk, R_Step, R_Assert, R_Cas}"
    and "count_ok var l n" "not_crashed (snd (restructure_step s l))"
  shows "count_ok var (snd (restructure_step s l)) n"
  using assms
  by (elim insertE emptyE)
     (auto simp: restructure_step_def crash_def goto_def count_ok_def critical_def running_def
       split: option.splits bool.splits prod.splits if_splits)

lemma count_deletemin:
  assumes "pc l \<in> {D_Enter, D_Read, D_Ins, D_Fao, D_Val, D_Hd, D_CasH, F_Test, F_Free}"
    and "count_ok var l n" "not_crashed (snd (deletemin_step var s l))"
  shows "count_ok var (snd (deletemin_step var s l)) n"
  using assms
  by (elim insertE emptyE)
     (auto simp: deletemin_step_def crash_def goto_def deletemin_while_def Let_def count_ok_def
        critical_def running_def
       split: option.splits bool.splits prod.splits if_splits)

lemma count_insert:
  assumes "pc l \<in> {I_Enter, I_Dup1, I_Dup2, I_Dup3, I_Link0, I_Cas0, I_Loop, I_Chk1, I_Chk2, I_LinkI,
      I_CasI, I_Re, I_Fin}"
    and "count_ok var l n" "not_crashed (snd (insert_step var fresh s l))"
  shows "count_ok var (snd (insert_step var fresh s l)) (n + refused (lin_event s l))"
  using assms
  by (elim insertE emptyE)
     (auto simp: insert_step_def lin_event_def crash_def goto_def start_locate_def cas_def count_ok_def
        critical_def running_def
       split: option.splits bool.splits prod.splits if_splits)

lemma refused_insert: "pc l \<noteq> I_Dup3 \<Longrightarrow> refused (lin_event s l) = 0"
  by (cases "pc l") (simp_all add: lin_event_def split: option.split)

lemma count_step:
  assumes r: "running (pc l)" and c: "count_ok var l n" and s: "thread_step var fresh s l = (s', l')"
    and nc: "not_crashed l'"
  shows "count_ok var l' (n + refused (lin_event s l))"
proof -
  have l': "l' = snd (thread_step var fresh s l)" using s by simp
  consider "pc l = Leave" | "pc l = L_Read \<or> pc l = L_Test"
    | "pc l \<in> {R_Head, R_Cur, R_Test, R_Walk, R_Step, R_Assert, R_Cas}"
    | "pc l \<in> {D_Enter, D_Read, D_Ins, D_Fao, D_Val, D_Hd, D_CasH, F_Test, F_Free}"
    | "pc l \<in> {I_Enter, I_Dup1, I_Dup2, I_Dup3, I_Link0, I_Cas0, I_Loop, I_Chk1, I_Chk2, I_LinkI,
        I_CasI, I_Re, I_Fin}"
    using r by (cases "pc l") (simp_all add: running_def)
  then show ?thesis
  proof cases
    case 1
    then show ?thesis
      using l' c by (auto simp: thread_step_def lin_event_def count_ok_def critical_def running_def)
  next
    case 2
    then have "thread_step var fresh s l = (s, locate_step s l)" "refused (lin_event s l) = 0"
      by (auto simp: thread_step_def lin_event_def)
    then show ?thesis using s nc count_locate [OF 2 c] by auto
  next
    case 3
    then have "thread_step var fresh s l = restructure_step s l" "refused (lin_event s l) = 0"
      by (auto simp: thread_step_def lin_event_def)
    then show ?thesis using l' nc count_restructure [OF 3 c] by simp
  next
    case 4
    then have "thread_step var fresh s l = deletemin_step var s l" "refused (lin_event s l) = 0"
      using refused_insert [of l s] by (auto simp: thread_step_def)
    then show ?thesis using l' nc count_deletemin [OF 4 c] by simp
  next
    case 5
    then have "thread_step var fresh s l = insert_step var fresh s l" by (auto simp: thread_step_def)
    then show ?thesis using l' nc count_insert [OF 5 c] by simp
  qed
qed

definition inv_count :: "variant \<Rightarrow> 'k::len word sys \<Rightarrow> bool" where
  "inv_count var \<sigma> \<longleftrightarrow> (\<forall>t. count_ok var (th \<sigma> t) (n_refused t (hist \<sigma>)))"

lemma loc_not_crashed: "loc s D L l \<Longrightarrow> not_crashed l"
  by (auto simp: loc_def)

lemma count_sys_step:
  assumes st: "sys_step var \<sigma> \<sigma>'" and i: "inv_mem \<sigma>" "inv_mem \<sigma>'" and c: "inv_count var \<sigma>"
  shows "inv_count var \<sigma>'"
  using st
proof cases
  case (thread t fresh)
  obtain s' l' where s: "thread_step var fresh (sh \<sigma>) (th \<sigma> t) = (s', l')" by fastforce
  let ?ev = "lin_event (sh \<sigma>) (th \<sigma> t)"
  have t: "th \<sigma>' = (th \<sigma>)(t := l')"
    "hist \<sigma>' = (case ?ev of None \<Rightarrow> hist \<sigma> | Some e \<Rightarrow> hist \<sigma> @ [Lin t e])"
    unfolding thread(1) exec_thread_def by (simp_all add: s Let_def split: prod.split)
  have h: "n_refused u (hist \<sigma>') = n_refused u (hist \<sigma>) + (if u = t then refused ?ev else 0)" for u
    unfolding t by (auto simp: refused_def split: option.split event.split)
  have "not_crashed l'"
    using i(2) t loc_not_crashed unfolding inv_mem_def by (metis fun_upd_same)
  then have "count_ok var l' (n_refused t (hist \<sigma>) + refused ?ev)"
    using count_step [OF thread(2) _ s] c by (simp add: inv_count_def)
  then show ?thesis using c h t(1) by (simp add: inv_count_def)
qed (use c in \<open>auto simp: inv_count_def count_ok_def critical_def running_def call_insert_def
    call_deletemin_def goto_def\<close>)

lemma reachable_count: "reachable var \<sigma> \<Longrightarrow> inv_count var \<sigma>"
proof (induction rule: reachable.induct)
  case (reach_init \<sigma>)
  then show ?case
    by (auto simp: inv_count_def count_ok_def sys_init_def critical_def running_def)
next
  case (reach_step \<sigma> \<sigma>')
  moreover have "inv_mem \<sigma>'"
    using reachable_inv [OF reachable.reach_step [OF reach_step(1,2)]] by simp
  ultimately show ?case using count_sys_step reachable_inv by blast
qed

end
