(* ===== verification/Linden_Run.thy ===== *)
theory Linden_Run
  imports Linden_Lin
begin

section \<open>Schedules\<close>

text \<open>
  Concrete runs: a schedule is a list of commands, \<open>run\<close> executes it and checks the guards of
  the step relation, so that what it returns is reachable.
\<close>

fun is_running :: "pc \<Rightarrow> bool" where
  "is_running Idle = False"
| "is_running Returned = False"
| "is_running (Crashed e) = False"
| "is_running _ = True"

lemma is_running: "is_running q \<longleftrightarrow> running q"
  by (cases q) (simp_all add: running_def)

datatype 'a command = C_Insert nat 'a 'a | C_Deletemin nat | C_Step nat ptr | C_Return nat

definition no_array :: "ptr list" where
  "no_array = replicate NUM_LEVELS 0"

definition exec_command :: "variant \<Rightarrow> 'k::len word command \<Rightarrow> 'k word sys \<Rightarrow> 'k word sys option" where
  "exec_command var c \<sigma> = (case c of
      C_Insert t k v \<Rightarrow>
        if pc (th \<sigma> t) = Idle \<and> valid_key k
        then Some (\<sigma>\<lparr>th := (th \<sigma>)(t := call_insert k v no_array no_array (th \<sigma> t)),
                     hist := hist \<sigma> @ [Call t (Op_Insert k v)]\<rparr>)
        else None
    | C_Deletemin t \<Rightarrow>
        if pc (th \<sigma> t) = Idle
        then Some (\<sigma>\<lparr>th := (th \<sigma>)(t := call_deletemin (th \<sigma> t)),
                     hist := hist \<sigma> @ [Call t Op_Deletemin]\<rparr>)
        else None
    | C_Step t fresh \<Rightarrow>
        if is_running (pc (th \<sigma> t)) \<and> (pc (th \<sigma> t) = I_Enter \<longrightarrow> valid_addr fresh \<and> heap (sh \<sigma>) fresh = None)
        then Some (exec_thread var fresh t \<sigma>) else None
    | C_Return t \<Rightarrow>
        if pc (th \<sigma> t) = Returned
        then Some (\<sigma>\<lparr>th := (th \<sigma>)(t := goto Idle (th \<sigma> t)),
                     hist := hist \<sigma> @ [Ret t (v_ok (th \<sigma> t)) (v_ret (th \<sigma> t))]\<rparr>)
        else None)"

fun run :: "variant \<Rightarrow> 'k::len word command list \<Rightarrow> 'k word sys \<Rightarrow> 'k word sys option" where
  "run var [] \<sigma> = Some \<sigma>"
| "run var (c # cs) \<sigma> = (case exec_command var c \<sigma> of None \<Rightarrow> None | Some \<sigma>' \<Rightarrow> run var cs \<sigma>')"

lemma exec_command_step: "exec_command var c \<sigma> = Some \<sigma>' \<Longrightarrow> sys_step var \<sigma> \<sigma>'"
proof (cases c)
  case (C_Insert t k v)
  moreover assume "exec_command var c \<sigma> = Some \<sigma>'"
  ultimately show ?thesis
    using invoke_insert [of \<sigma> t k no_array no_array var v]
    by (auto simp: exec_command_def no_array_def split: if_splits)
next
  case (C_Step t fresh)
  moreover assume "exec_command var c \<sigma> = Some \<sigma>'"
  ultimately have g: "running (pc (th \<sigma> t))" "pc (th \<sigma> t) = I_Enter \<Longrightarrow> fresh_addr (sh \<sigma>) fresh" "\<sigma>' = exec_thread var fresh t \<sigma>"
    by (simp_all add: exec_command_def is_running fresh_addr_def split: if_splits)
  show ?thesis unfolding g(3) by (rule thread [OF g(1,2)])
qed (auto simp: exec_command_def intro: sys_step.intros split: if_splits)

lemma run_reachable: "reachable var \<sigma> \<Longrightarrow> run var cs \<sigma> = Some \<sigma>' \<Longrightarrow> reachable var \<sigma>'"
  by (induction cs arbitrary: \<sigma>) (auto split: option.splits dest!: exec_command_step intro: reach_step)

definition thr0 :: "'k::len word thr" where
  "thr0 = \<lparr>pc = Idle, v_k = 0, v_v = 0, v_new = 0, v_del = 0, v_x = 0, v_x_next = 0, v_d = False,
     v_i = 0, v_ii = 0, v_relocate = False, v_preds = [], v_succs = [], v_ok = False, v_nxt = 0,
     v_obs_head = 0, v_newhead = 0, v_cur = 0, v_pred = 0, v_h = 0, v_offset = 0, v_ret = 0,
     p_rand = 1, p_count = 1, nb_collisions = 0\<rparr>"

definition sys0 :: "int \<Rightarrow> 'k::len word sys" where
  "sys0 offs = \<lparr>sh = pq_init 16 32 no_array 0 0 offs, th = \<lambda>t. thr0, hist = [], dead = [], live = []\<rparr>"

lemma sys0_reachable: "reachable var (sys0 offs)"
proof (rule reach_init)
  have "valid_addr 16" "valid_addr 32" by (simp_all add: valid_addr_def is_marked_ref_def)
  then show "sys_init (sys0 offs)"
    unfolding sys_init_def
    by (intro conjI exI [of _ 16] exI [of _ 32] exI [of _ no_array] exI [of _ 0] exI [of _ offs])
       (simp_all add: sys0_def thr0_def no_array_def NUM_LEVELS_def)
qed


section \<open>A run of one insertion and one deletion\<close>

definition demo_cmds :: "32 word command list" where
  "demo_cmds = [C_Insert 0 5 7, C_Step 0 48] @ replicate 70 (C_Step 0 8) @
     [C_Return 0, C_Deletemin 0] @ replicate 6 (C_Step 0 8) @ [C_Return 0]"

definition demo :: "32 word sys" where
  "demo = the (run prioq_variant demo_cmds (sys0 10))"

definition summary :: "'a sys \<Rightarrow> 'a label list \<times> ptr list \<times> 'a entry list \<times> pc" where
  "summary \<sigma> = (hist \<sigma>, dead \<sigma>, live \<sigma>, pc (th \<sigma> 0))"

lemma demo_run:
  "map_option summary (run prioq_variant demo_cmds (sys0 10)) =
     Some ([Call 0 (Op_Insert 5 7), Lin 0 (Ins 48 5 7), Ret 0 True 0,
            Call 0 Op_Deletemin, Lin 0 (Del 48 5 7), Ret 0 True 7], [48], [], Idle)"
  by code_simp

lemma demo_summary:
  "summary demo = ([Call 0 (Op_Insert 5 7), Lin 0 (Ins 48 5 7), Ret 0 True 0,
     Call 0 Op_Deletemin, Lin 0 (Del 48 5 7), Ret 0 True 7], [48], [], Idle)"
  using demo_run by (auto simp: demo_def)

lemma demo_reachable: "reachable prioq_variant demo"
proof -
  obtain \<sigma> where "run prioq_variant demo_cmds (sys0 10) = Some \<sigma>"
    using demo_run by auto
  then show ?thesis
    using run_reachable [OF sys0_reachable] by (simp add: demo_def)
qed

section \<open>Runs outside the preconditions\<close>

text \<open>A single insertion on the queue of \<^verbatim>\<open>pq_init\<close> with a given content of the tail's array.\<close>

definition lone_insert :: "ptr list \<Rightarrow> 'k::len word \<Rightarrow> nat \<Rightarrow> 'k word sys option" where
  "lone_insert junk k n =
     run prioq_variant ([C_Step 0 48] @ replicate n (C_Step 0 80))
       ((sys0 10)\<lparr>sh := pq_init 16 32 junk 0 0 10,
                  th := \<lambda>t. call_insert k 7 no_array no_array thr0\<rparr>)"

lemma lone_insert_fffffffe:
  "map_option summary (lone_insert no_array (0xFFFFFFFE :: 32 word) 67) =
     Some ([Lin 0 (Dup 0xFFFFFFFE)], [], [], Leave)"
  by code_simp

lemma lone_insert_ffffffff:
  "map_option summary (lone_insert no_array (0xFFFFFFFF :: 32 word) 3) =
     Some ([], [], [], Crashed Assert_failed)"
  by code_simp

lemma lone_insert_marked_tail:
  "map_option summary (lone_insert (replicate NUM_LEVELS 1) (5 :: 32 word) 3) =
     Some ([], [], [], Crashed Assert_failed)"
  by code_simp

end
