(* ===== verification/Linden_Props.thy ===== *)
theory Linden_Props
  imports Linden_Abs Linden_Count Linden_Run
begin

text \<open>
  The properties of the Linden-Jonsson queue, for any number of threads and any interleaving of
  their steps, and the two sequential functions \<^verbatim>\<open>pq_destroy\<close> and \<^verbatim>\<open>empty\<close>.
\<close>

section \<open>Teardown and the emptiness test\<close>

text \<open>
  \<^verbatim>\<open>pq_destroy\<close>: the nodes given to the collector, in order, and the blocks given to
  \<^verbatim>\<open>free\<close>. The walk ends at the tail; \<open>fuel\<close> bounds it.
\<close>

fun destroy_walk :: "'a shared \<Rightarrow> nat \<Rightarrow> ptr \<Rightarrow> ptr list option" where
  "destroy_walk s 0 cur = None"
| "destroy_walk s (Suc fuel) cur =
     (if cur = q_tail s then Some []
      else (case rd s cur 0 of
          None \<Rightarrow> None
        | Some w \<Rightarrow> map_option ((#) cur) (destroy_walk s fuel (get_unmarked_ref w))))"

definition pq_destroy :: "'a shared \<Rightarrow> nat \<Rightarrow> (ptr list \<times> ptr list) option" where
  "pq_destroy s fuel =
     map_option (\<lambda>collected. (collected, [q_tail s, q_head s])) (destroy_walk s fuel (q_head s))"

definition empty_test :: "'a shared \<Rightarrow> bool option" where
  "empty_test s = map_option (\<lambda>w. w = q_tail s) (rd s (q_head s) 0)"

lemma length_chain: "length (chain_of s D L) = length L + 2"
  by (simp add: chain_of_def)

lemma destroy_live:
  assumes g: "glob s D L" and j: "Suc j \<le> Suc (length L)" and f: "length L - j < fuel"
  shows "destroy_walk s (Suc fuel) (chain_of s D L ! j) =
    Some (chain_of s D L ! j # map fst (drop j L))"
  using j f
proof (induction "length L - j" arbitrary: j fuel)
  case 0
  then have j: "j = length L" by simp
  obtain fuel' where fuel: "fuel = Suc fuel'" using 0 by (cases fuel) auto
  have "chain_of s D L ! Suc (length L) = q_tail s" by (simp add: chain_of_def nth_append)
  moreover have "chain_of s D L ! length L \<noteq> chain_of s D L ! Suc (length L)"
    using nth_eq_iff_index_eq [OF chain_dist [OF g], of "length L" "Suc (length L)"]
    by (simp add: length_chain)
  ultimately show ?case
    using chain_next [OF g, of j] glob_sentinels(2) [OF g] by (simp add: j fuel)
next
  case (Suc n)
  then have j: "j < length L" by simp
  obtain fuel' where fuel: "fuel = Suc fuel'" using Suc.prems by (cases fuel) auto
  have c: "chain_of s D L ! Suc j = fst (L ! j)" using j by (simp add: chain_of_def nth_append)
  have p: "fst (L ! j) \<in> fst ` set L" using j by simp
  have u: "valid_addr (fst (L ! j))" using glob_valid [OF g] live_not_dead [OF g p] by simp
  have "chain_of s D L ! Suc (length L) = q_tail s" by (simp add: chain_of_def nth_append)
  then have "chain_of s D L ! j \<noteq> q_tail s"
    using nth_eq_iff_index_eq [OF chain_dist [OF g], of j "Suc (length L)"] j
    by (auto simp: length_chain)
  moreover have "destroy_walk s (Suc fuel') (chain_of s D L ! Suc j) =
      Some (chain_of s D L ! Suc j # map fst (drop (Suc j) L))"
    using Suc j fuel by (intro Suc.hyps) auto
  ultimately show ?case
    using chain_next [OF g, of j] u c j by (simp add: fuel flip: Cons_nth_drop_Suc)
qed

lemma destroy_dead:
  assumes g: "glob s D L" and i: "i < length D" and f: "length D - i + length L < fuel"
  shows "destroy_walk s (Suc fuel) (D ! i) = Some (drop i D @ map fst L)"
  using i f
proof (induction "length D - i" arbitrary: i fuel)
  case (Suc n)
  obtain fuel' where fuel: "fuel = Suc fuel'" using Suc.prems by (cases fuel) auto
  show ?case
  proof (cases "Suc i < length D")
    case False
    then have i: "i = length D - 1" "D \<noteq> []" using Suc.prems by auto
    then have "D ! i = chain_of s D L ! 0" by (simp add: chain_of_def front_def last_conv_nth)
    moreover have "drop i D = [D ! i]" using i by (simp add: Cons_nth_drop_Suc [symmetric])
    ultimately show ?thesis
      using destroy_live [OF g, of 0 fuel] Suc.prems by simp
  next
    case True
    have r: "rd s (D ! i) 0 = Some (get_marked_ref (D ! Suc i))" by (rule dead_next [OF g True])
    have v: "valid_addr (D ! Suc i)" using glob_valid [OF g nth_D_members [OF True]] .
    have "D ! i \<in> members D L" using Suc.prems(1) by (rule nth_D_members)
    then have "D ! i \<noteq> q_tail s" using glob_sentinels(5) [OF g] by metis
    moreover have "destroy_walk s (Suc fuel') (D ! Suc i) = Some (drop (Suc i) D @ map fst L)"
      using Suc True fuel by (intro Suc.hyps) auto
    ultimately show ?thesis
      using r v Suc.prems(1) by (simp add: fuel flip: Cons_nth_drop_Suc)
  qed
qed simp

lemma destroy_glob:
  assumes g: "glob s D L"
  shows "\<exists>m. \<forall>fuel > length D + length L + 2.
    pq_destroy s fuel = Some (q_head s # drop m D @ map fst L, [q_tail s, q_head s])"
proof (cases "D = []")
  case True
  have h: "q_head s = chain_of s D L ! 0" using True by (simp add: chain_of_def front_def)
  have "pq_destroy s fuel = Some (q_head s # drop 0 D @ map fst L, [q_tail s, q_head s])"
    if "length D + length L + 2 < fuel" for fuel
    using destroy_live [OF g, of 0 "fuel - 1"] h that by (simp add: pq_destroy_def True)
  then show ?thesis by blast
next
  case False
  obtain m where m: "m < length D" "rd s (q_head s) 0 = Some (get_marked_ref (D ! m))"
    using g False by (auto simp: glob_def glob_chain_def)
  have v: "valid_addr (D ! m)" using glob_valid [OF g nth_D_members [OF m(1)]] .
  have "pq_destroy s fuel = Some (q_head s # drop m D @ map fst L, [q_tail s, q_head s])"
    if f: "length D + length L + 2 < fuel" for fuel
  proof -
    obtain fuel' where fuel: "fuel = Suc (Suc fuel')" using f by (metis Suc_lessE add_2_eq_Suc')
    have "destroy_walk s (Suc fuel') (D ! m) = Some (drop m D @ map fst L)"
      using f fuel by (intro destroy_dead [OF g m(1)]) auto
    then have "destroy_walk s fuel (q_head s) = Some (q_head s # drop m D @ map fst L)"
      using m v glob_sentinels(3) [OF g] by (simp add: fuel)
    then show ?thesis by (simp add: pq_destroy_def)
  qed
  then show ?thesis by blast
qed

lemma empty_glob:
  assumes g: "glob s D L"
  shows "empty_test s = Some (D = [] \<and> L = [])"
proof (cases "D = []")
  case True
  have "rd s (q_head s) 0 = Some (chain_of s D L ! 1)"
    using chain_next [OF g, of 0] True by (simp add: chain_of_def front_def)
  moreover have "L \<noteq> [] \<Longrightarrow> fst (hd L) \<noteq> q_tail s"
    using live_not_dead(3) [OF g] by (metis image_eqI list.set_sel(1))
  ultimately show ?thesis
    using True by (cases L) (auto simp: empty_test_def chain_of_def)
next
  case False
  then obtain m where "m < length D" "rd s (q_head s) 0 = Some (get_marked_ref (D ! m))"
    using g by (auto simp: glob_def glob_chain_def)
  moreover have "get_marked_ref (D ! m) \<noteq> q_tail s"
    using glob_sentinels(2) [OF g] marked_not_valid marked_of_marked by metis
  ultimately show ?thesis using False by (simp add: empty_test_def)
qed

section \<open>Correctness under concurrency\<close>

text \<open>
  C1. Linearisability, for both copies of the code: in every reachable state of any number of
  threads that run \<^verbatim>\<open>insert\<close> and \<^verbatim>\<open>deletemin\<close> in any interleaving, the history is
  linearised. Every completed operation has exactly one linearisation event between its call and
  its return, which fits its arguments and its result, and the events in their order are a run of
  the sequential priority queue (insert unless present, delete the least key, report empty only
  when empty).
\<close>

theorem pq_linearisable:
  assumes "reachable var \<sigma>"
  shows "linearised (hist \<sigma>)"
  using assms by (rule reachable_linearised)

theorem pq_linearisable_witness:
  "linearised (hist demo) \<and> hist demo = [Call 0 (Op_Insert 5 7), Lin 0 (Ins 48 5 7), Ret 0 True 0,
     Call 0 Op_Deletemin, Lin 0 (Del 48 5 7), Ret 0 True 7]"
  using pq_linearisable [OF demo_reachable] demo_summary by (simp add: summary_def)

text \<open>
  C2. Memory safety and the assertions: no thread ever reads a missing node or slot (NULL
  included) and no \<^verbatim>\<open>assert\<close> of the code fails, in any reachable state.
\<close>

theorem pq_no_fault:
  assumes "reachable var \<sigma>"
  shows "pc (th \<sigma> t) \<noteq> Crashed e"
proof -
  have "loc (sh \<sigma>) (dead \<sigma>) (live \<sigma>) (th \<sigma> t)" using reachable_inv [OF assms] by (simp add: inv_mem_def)
  then show ?thesis using loc_not_crashed by blast
qed

theorem pq_no_fault_witness: "pc (th demo 3) \<noteq> Crashed Bad_access"
  by (rule pq_no_fault [OF demo_reachable])

text \<open>
  Refinement of the memory: in every reachable state a walk along the bottom level from the
  head, skipping the nodes behind marked pointers, ends at the tail and yields entries in strictly
  increasing key order, and these entries are the state that the specification has reached after
  the linearisation events so far.
\<close>

theorem pq_memory_refines:
  assumes "reachable var \<sigma>"
  shows "\<exists>n es. (\<forall>fuel>n. queue_entries (sh \<sigma>) fuel = Some es) \<and> sorted_wrt (<) (map fst es) \<and>
    pq_spec_run Map.empty (lin_events (hist \<sigma>)) (map_of es)"
proof -
  have i: "glob (sh \<sigma>) (dead \<sigma>) (live \<sigma>)"
      "pq_spec_run Map.empty (lin_events (hist \<sigma>)) (contents (live \<sigma>))"
    using reachable_inv [OF assms] by (auto simp: inv_mem_def inv_hist_def)
  have "(entry_key :: 'a word entry \<Rightarrow> 'a word) = fst \<circ> snd" by (simp add: fun_eq_iff entry_key_def)
  then have "sorted_wrt (<) (map fst (map snd (live \<sigma>)))"
    using i(1) by (simp add: glob_def glob_nodes_def)
  then show ?thesis
    using i(2) queue_entries_glob [OF i(1)] unfolding contents_def by blast
qed

theorem pq_memory_refines_witness:
  "\<exists>n es. (\<forall>fuel>n. queue_entries (sh demo) fuel = Some es) \<and> sorted_wrt (<) (map fst es) \<and>
    pq_spec_run Map.empty (lin_events (hist demo)) (map_of es)"
  by (rule pq_memory_refines [OF demo_reachable])

text \<open>
  C4. Forward simulation: every step of the system from a reachable state either leaves the
  contents of the queue alone and adds no event, or adds one event and changes the contents as the
  specification says.
\<close>

theorem pq_step_simulates:
  assumes "reachable var \<sigma>" and "sys_step var \<sigma> \<sigma>'"
  shows "lin_events (hist \<sigma>') = lin_events (hist \<sigma>) \<and> contents (live \<sigma>') = contents (live \<sigma>) \<or>
    (\<exists>e. lin_events (hist \<sigma>') = lin_events (hist \<sigma>) @ [e] \<and>
       pq_spec (contents (live \<sigma>)) e (contents (live \<sigma>')))"
  using assms(2)
proof cases
  case (thread t fresh)
  note i = reachable_inv [OF assms(1), THEN conjunct1]
  obtain s' l' where s: "thread_step var fresh (sh \<sigma>) (th \<sigma> t) = (s', l')" by fastforce
  let ?ev = "lin_event (sh \<sigma>) (th \<sigma> t)"
  obtain D' L' where D: "play_opt (dead \<sigma>, live \<sigma>) ?ev = (D', L')" by fastforce
  have g: "glob (sh \<sigma>) (dead \<sigma>) (live \<sigma>)" "loc (sh \<sigma>) (dead \<sigma>) (live \<sigma>) (th \<sigma> t)"
    using i by (simp_all add: inv_mem_def)
  show ?thesis
  proof (cases ?ev)
    case None
    then show ?thesis using D by (simp add: thread(1) exec_thread_def s)
  next
    case (Some e)
    then have "pq_spec (contents (live \<sigma>)) e (contents L')"
      using event_spec [OF g Some _ exec_step(1) [OF i thread(2,3) s D]] D by simp
    then show ?thesis using Some D by (auto simp: thread(1) exec_thread_def s)
  qed
qed simp_all

theorem pq_step_simulates_witness:
  "\<exists>\<sigma>'. sys_step prioq_variant demo \<sigma>' \<and> contents (live \<sigma>') = contents (live demo)"
proof -
  let ?s = "demo\<lparr>th := (th demo)(0 := call_deletemin (th demo 0)),
      hist := hist demo @ [Call 0 Op_Deletemin]\<rparr>"
  have "pc (th demo 0) = Idle" using demo_summary by (simp add: summary_def)
  then have st: "sys_step prioq_variant demo ?s" by (rule invoke_deletemin)
  from pq_step_simulates [OF demo_reachable st] have "contents (live ?s) = contents (live demo)"
    by simp
  with st show ?thesis by blast
qed

text \<open>
  C5. The bottom level in every reachable state: the deleted nodes form a chain of marked pointers
  in deletion order, the head points into it, and from the last deleted node (or the head) unmarked
  pointers lead through exactly the live nodes, in strictly increasing key order and without
  duplicates, to the tail; each live node holds its entry.
\<close>

theorem pq_bottom_level:
  assumes "reachable var \<sigma>"
  shows "linked (sh \<sigma>) True (dead \<sigma>) \<and>
    linked (sh \<sigma>) False (chain_of (sh \<sigma>) (dead \<sigma>) (live \<sigma>)) \<and>
    distinct (q_head (sh \<sigma>) # q_tail (sh \<sigma>) # dead \<sigma> @ map fst (live \<sigma>)) \<and>
    sorted_wrt (<) (map entry_key (live \<sigma>)) \<and>
    (dead \<sigma> \<noteq> [] \<longrightarrow> (\<exists>d \<in> set (dead \<sigma>). rd (sh \<sigma>) (q_head (sh \<sigma>)) 0 = Some (get_marked_ref d))) \<and>
    (\<forall>(p, k, v) \<in> set (live \<sigma>). \<exists>n. heap (sh \<sigma>) p = Some n \<and> nkey n = k \<and> nval n = v)"
proof -
  have g: "glob (sh \<sigma>) (dead \<sigma>) (live \<sigma>)" using reachable_inv [OF assms] by (simp add: inv_mem_def)
  have c: "glob_chain (sh \<sigma>) (dead \<sigma>) (live \<sigma>)" "glob_nodes (sh \<sigma>) (dead \<sigma>) (live \<sigma>)"
    using g by (simp_all add: glob_def)
  have "distinct (q_head (sh \<sigma>) # q_tail (sh \<sigma>) # dead \<sigma> @ map fst (live \<sigma>))"
    using c(2) glob_sentinels(3,4,5) [OF g] by (simp add: glob_nodes_def members_def)
  moreover have "\<forall>(p, k, v) \<in> set (live \<sigma>). \<exists>n. heap (sh \<sigma>) p = Some n \<and> nkey n = k \<and> nval n = v"
    using c(2) by (fastforce simp: glob_nodes_def)
  moreover have "dead \<sigma> \<noteq> [] \<longrightarrow>
      (\<exists>d \<in> set (dead \<sigma>). rd (sh \<sigma>) (q_head (sh \<sigma>)) 0 = Some (get_marked_ref d))"
    using c(1) by (auto simp: glob_chain_def)
  ultimately show ?thesis using c by (simp add: glob_chain_def glob_nodes_def)
qed

theorem pq_bottom_level_witness:
  "linked (sh demo) False (chain_of (sh demo) [48] []) \<and> distinct [q_head (sh demo), q_tail (sh demo), 48]"
  using pq_bottom_level [OF demo_reachable] demo_summary by (simp add: summary_def)

text \<open>
  C6. The higher levels in every reachable state: a pointer other than NULL at level one or above,
  in any node but the tail (private nodes included), is unmarked and leads to the tail or to a node
  of the list (live or deleted) that has that level and whose own pointers up to it are set.
\<close>

theorem pq_upper_levels:
  assumes "reachable var \<sigma>" and "rd (sh \<sigma>) p i = Some w" and "1 \<le> i" and "w \<noteq> 0"
    and "p \<noteq> q_tail (sh \<sigma>)"
  shows "\<not> is_marked_ref w \<and> (w = q_tail (sh \<sigma>) \<or>
    w \<in> set (dead \<sigma>) \<union> fst ` set (live \<sigma>) \<and> (\<forall>j\<le>i. \<exists>u. rd (sh \<sigma>) w j = Some u \<and> u \<noteq> 0))"
proof -
  have g: "glob (sh \<sigma>) (dead \<sigma>) (live \<sigma>)" using reachable_inv [OF assms(1)] by (simp add: inv_mem_def)
  then have d: "dst (sh \<sigma>) (dead \<sigma>) (live \<sigma>) i w"
    using assms(2-5) by (auto simp: glob_def glob_up_def)
  then show ?thesis
    using valid_not_marked [OF dst_valid [OF g d]] by (auto simp: dst_def members_def okn_def)
qed

theorem pq_upper_levels_witness:
  "\<not> is_marked_ref 16 \<and> rd (sh (sys0 10 :: 32 word sys)) 32 3 = Some 16"
proof -
  have r: "rd (sh (sys0 10 :: 32 word sys)) 32 3 = Some 16"
    by (simp add: sys0_def pq_init_def rd_def NUM_LEVELS_def)
  moreover have "q_tail (sh (sys0 10 :: 32 word sys)) = 16" by (simp add: sys0_def pq_init_def)
  ultimately show ?thesis
    using pq_upper_levels [OF sys0_reachable r] by simp
qed

section \<open>Critical sections\<close>

text \<open>
  C30. \<^verbatim>\<open>prioq.c\<close> leaves its critical section on every path: a thread between operations has
  the nesting count 1 with which \<^verbatim>\<open>critical_enter\<close> created it, and a thread inside an
  operation has 2.
\<close>

theorem pq_critical_balanced:
  assumes "reachable prioq_variant \<sigma>"
  shows "p_count (th \<sigma> t) = (if critical (pc (th \<sigma> t)) then 2 else 1)"
  using reachable_count [OF assms] by (simp add: inv_count_def count_ok_def prioq_variant_def)

theorem pq_critical_balanced_witness: "p_count (th demo 0) = 1"
  using pq_critical_balanced [OF demo_reachable, of 0] demo_summary
  by (simp add: summary_def critical_def running_def)

text \<open>
  C31. \<^verbatim>\<open>spraylist/linden.c\<close> does not: its \<^verbatim>\<open>insert\<close> returns on a duplicate key without
  \<^verbatim>\<open>critical_exit\<close>, so that the nesting count of a thread grows by one with every refused
  insertion and the collector counts an idle thread as inside a critical section.
\<close>

theorem sl_critical_leak:
  assumes "reachable spray_variant \<sigma>"
  shows "p_count (th \<sigma> t) =
    (if critical (pc (th \<sigma> t)) then 2 else 1) + n_refused t (hist \<sigma>)"
  using reachable_count [OF assms] by (simp add: inv_count_def count_ok_def spray_variant_def)

theorem sl_critical_leak_witness: "p_count (th (sys0 10 :: 64 word sys) 0) = 1"
  using sl_critical_leak [OF sys0_reachable [of spray_variant 10], of 0]
  by (simp add: sys0_def thr0_def critical_def running_def)

section \<open>Sequential functions\<close>

text \<open>
  C40. A node that \<^verbatim>\<open>alloc_node\<close> prepares has between 1 and 31 levels, as many pointer slots
  as levels, and every slot is NULL.
\<close>

theorem alloc_node_levels:
  "1 \<le> nlevel (alloc_node r k v) \<and> nlevel (alloc_node r k v) \<le> 31 \<and>
   nnext (alloc_node r k v) = replicate (nlevel (alloc_node r k v)) 0"
  using rand_level_range [of r] by (simp add: alloc_node_def)

text \<open>
  \<^verbatim>\<open>pq_destroy\<close>, run after all threads have stopped, ends, and hands the head, then every
  deleted node from the one the head points at on, then every live node to the collector; the head
  is then passed to \<^verbatim>\<open>free\<close> as well, a second release of the same block.
\<close>

theorem pq_destroy_releases:
  assumes "reachable var \<sigma>"
  shows "\<exists>n m. \<forall>fuel>n. pq_destroy (sh \<sigma>) fuel =
    Some (q_head (sh \<sigma>) # drop m (dead \<sigma>) @ map fst (live \<sigma>), [q_tail (sh \<sigma>), q_head (sh \<sigma>)])"
proof -
  have "glob (sh \<sigma>) (dead \<sigma>) (live \<sigma>)" using reachable_inv [OF assms] by (simp add: inv_mem_def)
  from destroy_glob [OF this] show ?thesis by blast
qed

theorem pq_destroy_releases_witness:
  "\<exists>n m. \<forall>fuel>n. pq_destroy (sh demo) fuel =
    Some (q_head (sh demo) # drop m [48], [q_tail (sh demo), q_head (sh demo)])"
  using pq_destroy_releases [OF demo_reachable] demo_summary by (simp add: summary_def)

text \<open>
  \<^verbatim>\<open>empty\<close> compares the head's pointer with the tail without unmarking it: in every
  reachable state it answers true exactly when the queue is empty and nothing has ever been
  deleted, so that a queue that has been emptied by \<^verbatim>\<open>deletemin\<close> is reported non-empty.
\<close>

theorem empty_test_exact:
  assumes "reachable var \<sigma>"
  shows "empty_test (sh \<sigma>) = Some (dead \<sigma> = [] \<and> live \<sigma> = [])"
  using reachable_inv [OF assms] empty_glob by (auto simp: inv_mem_def)

theorem empty_test_exact_witness: "empty_test (sh demo) = Some False \<and> live demo = []"
  using empty_test_exact [OF demo_reachable] demo_summary by (simp add: summary_def)

section \<open>Outside the preconditions\<close>

text \<open>
  The assertion of \<^verbatim>\<open>insert\<close> compares the 32-bit key with a 64-bit sentinel and lets
  every key but 0 pass, while the tail's key is truncated: on a fresh queue, inserting 0xFFFFFFFE is
  refused as a duplicate of a key that no one inserted, and inserting 0xFFFFFFFF walks past the
  tail and stops at a failed assertion.
\<close>

theorem insert_assert_gap:
  "insert_assert (0xFFFFFFFE :: 32 word) \<and> insert_assert (0xFFFFFFFF :: 32 word) \<and>
   map_option summary (lone_insert no_array (0xFFFFFFFE :: 32 word) 67) =
     Some ([Lin 0 (Dup 0xFFFFFFFE)], [], [], Leave) \<and>
   map_option summary (lone_insert no_array (0xFFFFFFFF :: 32 word) 3) =
     Some ([], [], [], Crashed Assert_failed)"
proof (intro conjI lone_insert_fffffffe lone_insert_ffffffff)
  show "insert_assert (0xFFFFFFFE :: 32 word)" by code_simp
  show "insert_assert (0xFFFFFFFF :: 32 word)" by code_simp
qed


end
