(* ===== verification/Linden_Order.thy ===== *)
theory Linden_Order
  imports Linden_Lin
begin

text \<open>
  Pointers lead nowhere twice: on the bottom level every pointer leads forward in the order of the nodes, and on every
  higher level the pointers of all nodes form an acyclic graph. Both hold in every reachable state; so every walk along
  a level comes to an end.
\<close>

section \<open>The bottom level\<close>

text \<open>The head, the deleted nodes, the live nodes, the tail.\<close>

definition order :: "'a shared \<Rightarrow> ptr list \<Rightarrow> 'a entry list \<Rightarrow> ptr list" where
  "order s D L = q_head s # D @ map fst L @ [q_tail s]"

definition ahead :: "'a shared \<Rightarrow> ptr list \<Rightarrow> 'a entry list \<Rightarrow> ptr \<Rightarrow> ptr \<Rightarrow> bool" where
  "ahead s D L p q \<longleftrightarrow> (\<exists>as bs. order s D L = as @ p # bs \<and> q \<in> set bs)"

lemma aheadI: "order s D L = as @ p # bs \<Longrightarrow> q \<in> set bs \<Longrightarrow> ahead s D L p q"
  by (auto simp: ahead_def)

lemma order_distinct:
  assumes "glob s D L"
  shows "distinct (order s D L)"
  using assms glob_sentinels(3,4,5) [OF assms] by (auto simp: order_def members_def glob_def glob_nodes_def)

lemma order_set: "set (order s D L) = {q_head s, q_tail s} \<union> members D L"
  by (auto simp: order_def members_def)

lemma ahead_head: "q \<in> members D L \<or> q = q_tail s \<Longrightarrow> ahead s D L (q_head s) q"
  by (rule aheadI [where as = "[]" and bs = "D @ map fst L @ [q_tail s]"]) (auto simp: order_def members_def)

lemma ahead_dead:
  assumes "i < j" "j < length D"
  shows "ahead s D L (D ! i) (D ! j)"
proof -
  have "D = take i D @ D ! i # drop (Suc i) D" using assms by (simp add: id_take_nth_drop)
  then have "order s D L = (q_head s # take i D) @ D ! i # drop (Suc i) D @ map fst L @ [q_tail s]"
    by (simp add: order_def)
  moreover have "D ! j = drop (Suc i) D ! (j - Suc i)" "j - Suc i < length (drop (Suc i) D)" using assms by simp_all
  then have "D ! j \<in> set (drop (Suc i) D)" using nth_mem by metis
  ultimately show ?thesis by (intro aheadI [of s D L "q_head s # take i D" _ "drop (Suc i) D @ map fst L @ [q_tail s]"]) simp_all
qed

text \<open>The position of a node; it decreases the distance to the end.\<close>

definition place :: "'a shared \<Rightarrow> ptr list \<Rightarrow> 'a entry list \<Rightarrow> ptr \<Rightarrow> nat" where
  "place s D L p = length (takeWhile (\<lambda>q. q \<noteq> p) (order s D L))"

lemma ahead_place:
  assumes g: "glob s D L" and a: "ahead s D L p q"
  shows "place s D L p < place s D L q \<and> place s D L q < length (order s D L)"
proof -
  obtain as bs where o: "order s D L = as @ p # bs" "q \<in> set bs" using a by (auto simp: ahead_def)
  obtain cs ds where bs: "bs = cs @ q # ds" using o(2) by (meson split_list)
  have d: "distinct (as @ p # cs @ q # ds)" using order_distinct [OF g] o bs by simp
  have "takeWhile (\<lambda>r. r \<noteq> p) (as @ p # cs @ q # ds) = as" using d by (subst takeWhile_append2) auto
  moreover have "takeWhile (\<lambda>r. r \<noteq> q) ((as @ p # cs) @ q # ds) = as @ p # cs" using d by (subst takeWhile_append2) auto
  ultimately show ?thesis by (simp add: place_def o(1) bs)
qed

lemma next_ahead:
  assumes g: "glob s D L" and x: "x = q_head s \<or> x \<in> members D L" and r: "rd s x 0 = Some w"
  shows "ahead s D L x (get_unmarked_ref w)"
proof (cases "is_marked_ref w")
  case True
  obtain j where j: "j < length D" "w = get_marked_ref (D ! j)" "x = q_head s \<or> (\<exists>i. j = Suc i \<and> x = D ! i)"
    using marked_dead(2) [OF g _ r True] x by blast
  have "get_unmarked_ref w = D ! j" using j dead_valid [OF g, of "D ! j"] by simp
  then show ?thesis using j ahead_head [of "D ! j" D L s] ahead_dead [of _ j D s L] by (auto simp: members_def)
next
  case False
  obtain j where j: "j \<le> length L" "x = chain_of s D L ! j" "w = chain_of s D L ! Suc j" by (rule position [OF g x r False])
  let ?C = "chain_of s D L"
  have "j < length ?C" using j by (simp add: chain_of_def)
  then have "?C = take j ?C @ x # drop (Suc j) ?C" unfolding j(2) by (rule id_take_nth_drop)
  moreover have "order s D L = (if D = [] then [] else q_head s # butlast D) @ ?C"
    by (auto simp: order_def chain_of_def front_def)
  ultimately have "order s D L = ((if D = [] then [] else q_head s # butlast D) @ take j ?C) @ x # drop (Suc j) ?C" by simp
  moreover have "drop (Suc j) ?C ! 0 = w" "0 < length (drop (Suc j) ?C)" using j by (simp_all add: chain_of_def nth_append)
  then have "w \<in> set (drop (Suc j) ?C)" using nth_mem by metis
  ultimately show ?thesis unfolding unmarked_id [OF False] by (rule aheadI)
qed

end
