(* ===== verification/Linden_Acyclic.thy ===== *)
theory Linden_Acyclic
  imports Linden_Order
begin

text \<open>
  The higher levels: the pointers of a level form an acyclic graph. A node is linked at a level by one thread, once, and
  no thread holds a pointer to it at that level before: \<open>up_ok\<close> is kept by every step of every thread.
\<close>

section \<open>The pointers of a level\<close>

definition edges :: "'a shared \<Rightarrow> nat \<Rightarrow> (ptr \<times> ptr) set" where
  "edges s i = {(p, q). p \<noteq> q_tail s \<and> rd s p i = Some q \<and> q \<noteq> 0}"

lemma edgesI: "p \<noteq> q_tail s \<Longrightarrow> rd s p i = Some q \<Longrightarrow> q \<noteq> 0 \<Longrightarrow> (p, q) \<in> edges s i"
  by (simp add: edges_def)

text \<open>A pointer from a node that nothing leads to cannot close a cycle, nor can the insertion between two neighbours.\<close>

lemma no_way_in: "(a, b) \<in> E\<^sup>* \<Longrightarrow> \<forall>p. (p, b) \<notin> E \<Longrightarrow> a = b"
  by (auto elim: rtranclE)

lemma acyclic_redirect:
  assumes "acyclic E" "\<forall>p. (p, n) \<notin> E" "n \<noteq> q" "E' \<subseteq> insert (n, q) {e \<in> E. fst e \<noteq> n}"
  shows "acyclic E'"
proof -
  have "acyclic {e \<in> E. fst e \<noteq> n}" using assms(1) by (rule acyclic_subset) blast
  moreover have "(q, n) \<notin> {e \<in> E. fst e \<noteq> n}\<^sup>*" using no_way_in [of q n "{e \<in> E. fst e \<noteq> n}"] assms(2,3) by blast
  ultimately have "acyclic (insert (n, q) {e \<in> E. fst e \<noteq> n})" by simp
  then show ?thesis using assms(4) by (rule acyclic_subset)
qed

lemma acyclic_splice:
  assumes a: "acyclic E" and e: "(p, r) \<in> E" "(n, r) \<in> E" and f: "\<forall>q. (n, q) \<in> E \<longrightarrow> q = r" and pn: "p \<noteq> n"
    and E': "E' \<subseteq> insert (p, n) E"
  shows "acyclic E'"
proof -
  have "(n, p) \<notin> E\<^sup>*"
  proof
    assume "(n, p) \<in> E\<^sup>*"
    then obtain q where "(n, q) \<in> E" "(q, p) \<in> E\<^sup>*" using pn by (auto elim: converse_rtranclE)
    then have "(p, p) \<in> E\<^sup>+" using f e(1) by (metis rtrancl_into_trancl2)
    then show False using a by (auto simp: acyclic_def)
  qed
  then have "acyclic (insert (p, n) E)" using a by simp
  then show ?thesis using E' by (rule acyclic_subset)
qed

section \<open>What the threads hold\<close>

text \<open>A thread that is linking its node at the higher levels; the pointers that a thread holds at a level.\<close>

definition linking :: "'a thr \<Rightarrow> bool" where
  "linking l = (case pc l of
      L_Read \<Rightarrow> v_relocate l | L_Test \<Rightarrow> v_relocate l
    | I_Loop \<Rightarrow> True | I_Chk1 \<Rightarrow> True | I_Chk2 \<Rightarrow> True | I_LinkI \<Rightarrow> True | I_CasI \<Rightarrow> True | I_Re \<Rightarrow> True
    | _ \<Rightarrow> False)"

definition found :: "'a thr \<Rightarrow> nat \<Rightarrow> ptr set" where
  "found l i = (if i < NUM_LEVELS then {v_preds l ! i, v_succs l ! i} else {})"

definition held :: "'a thr \<Rightarrow> nat \<Rightarrow> ptr set" where
  "held l i = (case pc l of
      L_Read \<Rightarrow> if i = v_i l then {v_x l} else if v_i l < i then found l i else {}
    | L_Test \<Rightarrow> if i = v_i l then {v_x l, v_x_next l} else if v_i l < i then found l i else {}
    | I_Dup1 \<Rightarrow> found l i | I_Dup2 \<Rightarrow> found l i | I_Dup3 \<Rightarrow> found l i | I_Link0 \<Rightarrow> found l i | I_Cas0 \<Rightarrow> found l i
    | I_Loop \<Rightarrow> found l i | I_Chk1 \<Rightarrow> found l i | I_Chk2 \<Rightarrow> found l i | I_LinkI \<Rightarrow> found l i | I_CasI \<Rightarrow> found l i
    | I_Re \<Rightarrow> found l i
    | R_Test \<Rightarrow> if i = v_i l then {v_cur l} else {} | R_Walk \<Rightarrow> if i = v_i l then {v_cur l} else {}
    | R_Assert \<Rightarrow> if i = v_i l then {v_cur l} else {} | R_Cas \<Rightarrow> if i = v_i l then {v_cur l} else {}
    | _ \<Rightarrow> {})"

lemma linking_pub: "loc s D L l \<Longrightarrow> linking l \<Longrightarrow> pub_node s D L l \<and> ins_ctx l"
  by (cases "pc l") (simp_all add: linking_def loc_def)

lemma linking_not_private: "linking l \<Longrightarrow> \<not> is_private l"
  by (cases "pc l") (simp_all add: linking_def)

lemma src_place: "src s D L i p \<Longrightarrow> p = q_head s \<or> p \<in> members D L"
  by (simp add: src_def)

lemma dst_place: "dst s D L i p \<Longrightarrow> p = q_tail s \<or> p \<in> members D L"
  by (auto simp: dst_def)

lemma found_places:
  assumes "\<And>j. v_i l < j \<Longrightarrow> j < NUM_LEVELS \<Longrightarrow> located s D L l j" "v_i l < i"
  shows "found l i \<subseteq> {q_head s, q_tail s} \<union> members D L"
  using assms by (auto simp: found_def located_def dest!: src_place dst_place)

lemma found_all: "all_located s D L l \<Longrightarrow> found l i \<subseteq> {q_head s, q_tail s} \<union> members D L"
  by (auto simp: found_def all_located_def located_def dest!: src_place dst_place)

lemma held_places:
  assumes "loc s D L l"
  shows "held l i \<subseteq> {q_head s, q_tail s} \<union> members D L"
proof (cases "pc l")
  case L_Read
  then show ?thesis using assms found_places [of l s D L i] src_place [of s D L i "v_x l"] by (auto simp: held_def loc_def)
next
  case L_Test
  then show ?thesis
    using assms found_places [of l s D L i] src_place [of s D L i "v_x l"] dst_place [of s D L i "v_x_next l"]
    by (auto simp: held_def loc_def)
qed (use assms found_all [of s D L l i] dst_place [of s D L i "v_cur l"] in \<open>auto simp: held_def loc_def\<close>)

text \<open>
  The invariant: no pointer of a level from \<open>v_ii\<close> up leads to a node that is being linked, no thread holds it at such
  a level, and each such node has one owner.
\<close>

definition fresh_up :: "'a shared \<Rightarrow> 'a thr \<Rightarrow> bool" where
  "fresh_up s l \<longleftrightarrow> (\<forall>i \<ge> v_ii l. \<forall>p. (p, v_new l) \<notin> edges s i) \<and>
     (pc l = I_CasI \<longrightarrow> (v_new l, v_succs l ! v_ii l) \<in> edges s (v_ii l))"

definition apart :: "'a thr \<Rightarrow> 'a thr \<Rightarrow> bool" where
  "apart l l' \<longleftrightarrow> (\<forall>i \<ge> v_ii l. v_new l \<notin> held l' i)"

definition up_ok :: "'a shared \<Rightarrow> (nat \<Rightarrow> 'a thr) \<Rightarrow> bool" where
  "up_ok s T \<longleftrightarrow> (\<forall>i \<ge> 1. acyclic (edges s i)) \<and>
     (\<forall>t. linking (T t) \<longrightarrow> fresh_up s (T t) \<and> (\<forall>u. apart (T t) (T u))) \<and>
     (\<forall>t u. t \<noteq> u \<longrightarrow> linking (T t) \<longrightarrow> linking (T u) \<longrightarrow> v_new (T t) \<noteq> v_new (T u))"

section \<open>What a step does to the higher levels\<close>

definition redirect :: "(ptr \<times> ptr) set \<Rightarrow> ptr \<Rightarrow> ptr \<Rightarrow> (ptr \<times> ptr) set" where
  "redirect E p w = insert (p, w) {e \<in> E. fst e \<noteq> p}"

lemma redirect_acyclic: "acyclic E \<Longrightarrow> \<forall>p. (p, n) \<notin> E \<Longrightarrow> n \<noteq> q \<Longrightarrow> acyclic (redirect E n q)"
  by (rule acyclic_redirect) (auto simp: redirect_def)

lemma splice_acyclic:
  "acyclic E \<Longrightarrow> (p, r) \<in> E \<Longrightarrow> (n, r) \<in> E \<Longrightarrow> (\<And>q. (n, q) \<in> E \<Longrightarrow> r = q) \<Longrightarrow> p \<noteq> n \<Longrightarrow> acyclic (redirect E p n)"
proof (rule acyclic_splice [of E p r n])
  assume "\<And>q. (n, q) \<in> E \<Longrightarrow> r = q"
  then show "\<forall>q. (n, q) \<in> E \<longrightarrow> q = r" by blast
  show "redirect E p n \<subseteq> insert (p, n) E" by (auto simp: redirect_def)
qed

lemma edges_same: "q_tail s' = q_tail s \<Longrightarrow> (\<And>p. rd s' p i = rd s p i) \<Longrightarrow> edges s' i = edges s i"
  by (simp add: edges_def)

lemma edges_wr:
  assumes "p \<noteq> q_tail s" "w \<noteq> 0" "rd s p j \<noteq> None"
  shows "edges (wr s p j w) i = (if i = j then redirect (edges s i) p w else edges s i)"
proof -
  have "rd (wr s p j w) a b = (if a = p \<and> b = j then Some w else rd s a b)" for a b using assms(3) by (simp add: rd_wr)
  then show ?thesis using assms(1,2) by (auto simp: edges_def redirect_def split: if_split_asm)
qed

lemma edges_wr0: "1 \<le> i \<Longrightarrow> edges (wr s p 0 w) i = edges s i"
  by (rule edges_same) (auto simp: rd_wr)

lemma edges_alloc:
  "heap s p = None \<Longrightarrow> (\<And>i. i < length (nnext n) \<Longrightarrow> nnext n ! i = 0) \<Longrightarrow> edges (s\<lparr>heap := (heap s)(p \<mapsto> n)\<rparr>) i = edges s i"
proof -
  assume a: "heap s p = None" "\<And>i. i < length (nnext n) \<Longrightarrow> nnext n ! i = 0"
  have "rd (s\<lparr>heap := (heap s)(p \<mapsto> n)\<rparr>) a i = (if a = p then (if i < length (nnext n) then Some 0 else None) else rd s a i)" for a
    using a(2) by (simp add: rd_def)
  moreover have "rd s p i = None" by (simp add: rd_def a(1))
  ultimately show ?thesis by (auto simp: edges_def split: if_split_asm)
qed

definition quiet :: "'a shared \<Rightarrow> 'a shared \<Rightarrow> bool" where
  "quiet s s' \<longleftrightarrow> (\<forall>i \<ge> 1. edges s' i = edges s i)"

definition changes :: "'a shared \<Rightarrow> 'a shared \<Rightarrow> nat \<Rightarrow> ptr \<Rightarrow> ptr \<Rightarrow> bool" where
  "changes s s' j p w \<longleftrightarrow> 1 \<le> j \<and> (\<forall>i \<ge> 1. edges s' i = (if i = j then redirect (edges s i) p w else edges s i))"

lemma quiet_simps [simp]:
  "quiet s s" "quiet s (s\<lparr>garbage := g\<rparr>)" "quiet s (set_inserting s p b)" "quiet s ((set_inserting s p b)\<lparr>garbage := g\<rparr>)"
  "quiet s (wr s p 0 w)"
  by (auto simp: quiet_def edges_wr0 intro!: edges_same)

text \<open>The pointers that a thread takes up are read from that level, or it held them at the level or a higher one.\<close>

definition takes :: "'a shared \<Rightarrow> 'a thr \<Rightarrow> 'a thr \<Rightarrow> bool" where
  "takes s l l' \<longleftrightarrow> (\<forall>i \<ge> 1. held l' i \<subseteq> (\<Union>j \<in> {i..}. held l j) \<union> {q_head s} \<union> Range (edges s i))"

text \<open>The next step of a thread, as far as the higher levels are concerned.\<close>

definition stays :: "'a thr \<Rightarrow> 'a thr \<Rightarrow> bool" where
  "stays l l' \<longleftrightarrow> (linking l' \<longrightarrow> pc l' \<noteq> I_CasI \<and> v_new l' = v_new l \<and>
     (linking l \<and> v_ii l' = v_ii l \<or> pc l = I_Cas0 \<and> v_ii l' = 1))"

definition up_step :: "'a shared \<Rightarrow> 'a thr \<Rightarrow> 'a shared \<Rightarrow> 'a thr \<Rightarrow> bool" where
  "up_step s l s' l' \<longleftrightarrow> takes s l l' \<and> q_tail s' = q_tail s \<and>
     (quiet s s' \<and> stays l l' \<or>
      pc l = I_LinkI \<and> changes s s' (v_ii l) (v_new l) (v_succs l ! v_ii l) \<and> v_ii l < NUM_LEVELS \<and>
        pc l' = I_CasI \<and> v_new l' = v_new l \<and> v_ii l' = v_ii l \<and> v_succs l' = v_succs l \<or>
      pc l = I_CasI \<and> changes s s' (v_ii l) (v_preds l ! v_ii l) (v_new l) \<and> v_ii l < NUM_LEVELS \<and>
        (v_preds l ! v_ii l, v_succs l ! v_ii l) \<in> edges s (v_ii l) \<and>
        pc l' = I_Loop \<and> v_new l' = v_new l \<and> v_ii l' = Suc (v_ii l) \<or>
      pc l = R_Cas \<and> changes s s' (v_i l) (q_head s) (v_cur l) \<and> \<not> linking l')"

lemma quiet_stepI: "takes s l l' \<Longrightarrow> q_tail s' = q_tail s \<Longrightarrow> quiet s s' \<Longrightarrow> stays l l' \<Longrightarrow> up_step s l s' l'"
  by (simp add: up_step_def)

lemma takes_found:
  "(\<And>i. i \<ge> 1 \<Longrightarrow> held l' i \<subseteq> found l i) \<Longrightarrow> (\<And>i. held l i = found l i) \<Longrightarrow> takes s l l'"
  by (fastforce simp: takes_def)

lemma takes_none: "(\<And>i. held l' i = {}) \<Longrightarrow> takes s l l'"
  by (simp add: takes_def)

lemma start_locate_up:
  assumes "linking l \<longrightarrow> again" "again \<longrightarrow> linking l"
  shows "takes s l (start_locate s again l) \<and> stays l (start_locate s again l)"
proof
  have "held (start_locate s again l) i \<subseteq> {q_head s}" for i
    by (auto simp: start_locate_def held_def found_def)
  then show "takes s l (start_locate s again l)" by (auto simp: takes_def)
  show "stays l (start_locate s again l)" using assms by (simp add: stays_def start_locate_def linking_def)
qed

lemma up_locate:
  assumes g: "glob s D L" and l: "loc s D L l" and p: "pc l = L_Read \<or> pc l = L_Test"
  shows "up_step s l s (locate_step s l)"
  using p
proof
  assume p: "pc l = L_Read"
  have x: "src s D L (v_i l) (v_x l)" using l p by (simp add: loc_def)
  obtain w where w: "rd s (v_x l) (v_i l) = Some w" "w \<noteq> 0" "get_unmarked_ref w \<noteq> 0" using read_next [OF g x] by metis
  have l': "locate_step s l = l\<lparr>v_x_next := get_unmarked_ref w, v_d := is_marked_ref w, pc := L_Test\<rparr>"
    using p w by (simp add: locate_step_def)
  have "v_x l \<noteq> q_tail s" using src_place [OF x] glob_sentinels(3,5) [OF g] by auto
  have up: "get_unmarked_ref w \<in> Range (edges s (v_i l))" if "1 \<le> v_i l"
  proof -
    have "\<not> is_marked_ref w" using next_up [OF g x that] w(1) by auto
    then show ?thesis using w edgesI [OF \<open>v_x l \<noteq> q_tail s\<close> w(1,2)] by (auto simp: unmarked_id)
  qed
  show ?thesis
    unfolding l'
  proof (rule quiet_stepI)
    show "takes s l (l\<lparr>v_x_next := get_unmarked_ref w, v_d := is_marked_ref w, pc := L_Test\<rparr>)"
      unfolding takes_def
    proof (intro allI impI)
      fix i :: nat assume "1 \<le> i"
      have "held (l\<lparr>v_x_next := get_unmarked_ref w, v_d := is_marked_ref w, pc := L_Test\<rparr>) i
          \<subseteq> held l i \<union> (if i = v_i l then {get_unmarked_ref w} else {})"
        using p by (auto simp: held_def found_def)
      then show "held (l\<lparr>v_x_next := get_unmarked_ref w, v_d := is_marked_ref w, pc := L_Test\<rparr>) i
          \<subseteq> (\<Union>j \<in> {i..}. held l j) \<union> {q_head s} \<union> Range (edges s i)"
        using up \<open>1 \<le> i\<close> by (fastforce split: if_splits)
    qed
  qed (use p in \<open>simp_all add: stays_def linking_def\<close>)
next
  assume p: "pc l = L_Test"
  have len: "length (v_preds l) = NUM_LEVELS" "length (v_succs l) = NUM_LEVELS" and vi: "v_i l < NUM_LEVELS"
    and d: "dst s D L (v_i l) (v_x_next l)" "v_k l < tail_key" "v_i l = 0 \<and> v_d l \<longrightarrow> v_x_next l \<in> set D"
    using l p by (simp_all add: loc_def ins_ctx_def)
  have q: "stays l (locate_step s l)"
    using locate_cond_defined [OF g d refl] p by (cases "v_i l = 0") (auto simp: stays_def linking_def locate_step_def goto_def Let_def)
  have h: "held l i = (if i = v_i l then {v_x l, v_x_next l} else if v_i l < i then found l i else {})" for i
    using p by (simp add: held_def)
  have "takes s l (locate_step s l)"
    using locate_cond_defined [OF g d refl]
  proof (elim disjE conjE)
    assume "locate_cond s l = Some True"
    then have "held (locate_step s l) i \<subseteq> held l i" for i
      using p by (auto simp: locate_step_def held_def found_def)
    then show ?thesis by (fastforce simp: takes_def)
  next
    assume c: "locate_cond s l = Some False"
    let ?l = "l\<lparr>v_preds := (v_preds l)[v_i l := v_x l], v_succs := (v_succs l)[v_i l := v_x_next l]\<rparr>"
    have f: "found ?l i \<subseteq> held l i" if "v_i l \<le> i" for i
      using that len vi h [of i] by (auto simp: found_def)
    have "held (locate_step s l) i \<subseteq> held l i \<union> held l (Suc i)" if "1 \<le> i" for i
      using f [of i] p c that h [of i] h [of "Suc i"] by (cases "v_i l = 0") (auto simp: locate_step_def goto_def Let_def held_def found_def split: if_splits)
    then show ?thesis by (fastforce simp: takes_def)
  qed
  then show ?thesis using q by (intro quiet_stepI) simp_all
qed

lemma up_restructure:
  assumes g: "glob s D L" and l: "loc s D L l" and p: "pc l \<in> {R_Head, R_Cur, R_Test, R_Walk, R_Step, R_Assert, R_Cas}"
    and st: "restructure_step s l = (s', l')"
  shows "up_step s l s' l'"
proof -
  have hd: "src s D L i (q_head s)" if "i < NUM_LEVELS" for i
    using glob_sentinels(6) [OF g] that by (auto simp: src_def okn_def NUM_LEVELS_def)
  have vi: "v_i l < NUM_LEVELS" and m: "marked_src s D L (v_i l) (v_pred l)" using l p by (auto simp: loc_def)
  have ns: "stays l l'" if "pc l' \<in> {R_Head, R_Cur, R_Test, R_Walk, R_Step, R_Assert, R_Cas, F_Test}"
    using that by (auto simp: stays_def linking_def)
  have pt: "v_pred l \<noteq> q_tail s" using m glob_sentinels(3,5) [OF g] by (auto simp: marked_src_def src_def)
  have reads: "\<exists>w. rd s (v_pred l) (v_i l) = Some w \<and> w \<in> Range (edges s (v_i l))" if "1 \<le> v_i l"
  proof -
    have "src s D L (v_i l) (v_pred l)" using m by (simp add: marked_src_def)
    from next_up [OF g this that] obtain w where "rd s (v_pred l) (v_i l) = Some w" "w \<noteq> 0" by metis
    then show ?thesis using edgesI [OF pt] by blast
  qed
  have level: "1 \<le> v_i l" if "pc l \<noteq> R_Head" using l p that by (auto simp: loc_def)
  consider "pc l = R_Head" | "pc l = R_Cur" | "pc l = R_Test" | "pc l = R_Walk" | "pc l = R_Step" | "pc l = R_Assert" | "pc l = R_Cas"
    using p by auto
  then show ?thesis
  proof cases
    case 1
    obtain w where w: "rd s (q_head s) (v_i l) = Some w" using hd [OF vi] by (auto simp: src_def okn_def)
    then have "s' = s" "pc l' \<in> {F_Test, R_Cur}" using 1 st by (auto simp: restructure_step_def split: if_splits)
    then show ?thesis using ns by (auto intro!: quiet_stepI takes_none simp: held_def)
  next
    case 2
    then obtain w where w: "rd s (v_pred l) (v_i l) = Some w" "w \<in> Range (edges s (v_i l))" using reads level by auto
    then have "s' = s" "l' = l\<lparr>v_cur := w, pc := R_Test\<rparr>" using 2 st by (auto simp: restructure_step_def)
    then show ?thesis using ns w(2) by (auto intro!: quiet_stepI simp: takes_def held_def)
  next
    case 3
    then have "dst s D L (v_i l) (v_h l)" using l by (simp add: loc_def)
    then obtain w where "rd s (v_h l) 0 = Some w" by (rule dst_bottom [OF g])
    then consider "s' = s" "l' = l\<lparr>v_i := v_i l - 1, pc := R_Head\<rparr>" | "s' = s" "l' = goto R_Walk l"
      using 3 st by (auto simp: restructure_step_def split: if_splits)
    then show ?thesis using ns 3 by cases (auto intro!: quiet_stepI simp: takes_def held_def goto_def)
  next
    case 4
    then have "dst s D L (v_i l) (v_cur l)" using l by (simp add: loc_def)
    then obtain w where "rd s (v_cur l) 0 = Some w" by (rule dst_bottom [OF g])
    then consider "s' = s" "l' = l\<lparr>v_pred := v_cur l, pc := R_Step\<rparr>" | "s' = s" "l' = goto R_Assert l"
      using 4 st by (auto simp: restructure_step_def split: if_splits)
    then show ?thesis using ns 4 by cases (auto intro!: quiet_stepI simp: takes_def held_def goto_def)
  next
    case 5
    then obtain w where w: "rd s (v_pred l) (v_i l) = Some w" "w \<in> Range (edges s (v_i l))" using reads level by auto
    then have "s' = s" "l' = l\<lparr>v_cur := w, pc := R_Walk\<rparr>" using 5 st by (auto simp: restructure_step_def)
    then show ?thesis using ns w(2) by (auto intro!: quiet_stepI simp: takes_def held_def)
  next
    case 6
    obtain w where "rd s (v_pred l) 0 = Some w" "is_marked_ref w" using m by (auto simp: marked_src_def)
    then have "s' = s" "l' = goto R_Cas l" using 6 st by (auto simp: restructure_step_def)
    then show ?thesis using ns 6 by (auto intro!: quiet_stepI simp: takes_def held_def goto_def)
  next
    case 7
    then have i: "1 \<le> v_i l" and d: "dst s D L (v_i l) (v_cur l)" using l by (simp_all add: loc_def)
    obtain w where w: "rd s (q_head s) (v_i l) = Some w" by (rule next_up [OF g hd [OF vi] i])
    show ?thesis
    proof (cases "w = v_h l")
      case True
      then have s': "s' = wr s (q_head s) (v_i l) (v_cur l)" "l' = l\<lparr>v_i := v_i l - 1, pc := R_Head\<rparr>"
        using 7 w st by (auto simp: restructure_step_def cas_def)
      have "v_cur l \<noteq> 0" using dst_valid [OF g d] by auto
      then have "changes s s' (v_i l) (q_head s) (v_cur l)"
        using edges_wr [of "q_head s" s "v_cur l" "v_i l"] glob_sentinels(3) [OF g] w i by (simp add: changes_def s')
      moreover have "takes s l l'" by (rule takes_none) (simp add: s' held_def)
      ultimately show ?thesis using 7 s' by (simp add: up_step_def linking_def)
    next
      case False
      then have "s' = s" "l' = goto R_Head l" using 7 w st by (auto simp: restructure_step_def cas_def)
      then show ?thesis using ns by (auto intro!: quiet_stepI takes_none simp: held_def goto_def)
    qed
  qed
qed

lemma up_insert:
  assumes g: "glob s D L" and l: "loc s D L l"
    and f: "pc l = I_Enter \<Longrightarrow> fresh_addr s fresh"
    and p: "pc l \<in> {I_Enter, I_Dup1, I_Dup2, I_Dup3, I_Link0, I_Cas0, I_Loop, I_Chk1, I_Chk2, I_LinkI, I_CasI, I_Re, I_Fin}"
    and st: "insert_step var fresh s l = (s', l')" and ok: "loc s' D' L' l'"
  shows "up_step s l s' l'"
proof -
  have nc: "\<And>e. pc l' \<noteq> Crashed e" using ok by (auto simp: loc_def)
  show ?thesis
  proof (cases "pc l \<in> {I_LinkI, I_CasI}")
    case False
    have "takes s l l' \<and> stays l l' \<and> q_tail s' = q_tail s \<and> quiet s s'"
    proof (cases "pc l = I_Enter")
      case True
      let ?n = "alloc_node (p_rand l) (v_k l) (v_v l)"
      let ?l = "l\<lparr>p_count := p_count l + 1, p_rand := next_rand (p_rand l), v_new := fresh\<rparr>"
      have "s' = s\<lparr>heap := (heap s)(fresh \<mapsto> ?n)\<rparr>" "l' = start_locate s False ?l"
        using True st l by (auto simp: insert_step_def loc_def)
      moreover have "quiet s (s\<lparr>heap := (heap s)(fresh \<mapsto> ?n)\<rparr>)"
        using f [OF True] edges_alloc [OF _ alloc_node_size(3), of s fresh] by (simp add: quiet_def fresh_addr_def)
      moreover have "takes s l (start_locate s False ?l) \<and> stays l (start_locate s False ?l)"
        by (auto simp: takes_def stays_def start_locate_def held_def found_def linking_def)
      ultimately show ?thesis by simp
    next
      case False
      then have pp: "pc l \<in> {I_Dup1, I_Dup2, I_Dup3, I_Link0, I_Cas0, I_Loop, I_Chk1, I_Chk2, I_Re, I_Fin}"
        using \<open>pc l \<notin> {I_LinkI, I_CasI}\<close> p by auto
      have "q_tail (fst (insert_step var fresh s l)) = q_tail s \<and> quiet s (fst (insert_step var fresh s l))"
        using pp by (elim insertE emptyE) (simp_all add: insert_step_def cas_def split: option.split)
      then have q: "q_tail s' = q_tail s" "quiet s s'" using st by simp_all
      let ?l = "snd (insert_step var fresh s l)"
      have "(\<exists>e. pc ?l = Crashed e) \<or> ?l = start_locate s False l \<and> pc l = I_Cas0 \<or>
          (\<forall>i. held ?l i = {}) \<and> \<not> linking ?l \<or> (\<forall>i. held ?l i = found l i) \<and> stays l ?l"
        using pp by (elim insertE emptyE)
          (simp_all add: insert_step_def cas_def goto_def crash_def held_def found_def stays_def linking_def split: option.split)
      then have "l' = start_locate s False l \<and> pc l = I_Cas0 \<or>
          (\<forall>i. held l' i = {}) \<and> \<not> linking l' \<or> (\<forall>i. held l' i = found l i) \<and> stays l l'"
        using st nc by auto
      then show ?thesis
      proof (elim disjE conjE)
        assume "l' = start_locate s False l" "pc l = I_Cas0"
        then show ?thesis using q start_locate_up [of l False s] by (simp add: linking_def)
      next
        assume "\<forall>i. held l' i = {}" "\<not> linking l'"
        then show ?thesis using q takes_none [of l' s l] by (simp add: stays_def)
      next
        assume h: "\<forall>i. held l' i = found l i" and s: "stays l l'"
        have "pc l \<noteq> I_Fin" using spec [OF h, of 0] st by (auto simp: insert_step_def held_def found_def NUM_LEVELS_def)
        then have "held l i = found l i" for i using False \<open>pc l \<notin> {I_LinkI, I_CasI}\<close> p by (auto simp: held_def)
        then have "takes s l l'" using h by (intro takes_found) auto
        then show ?thesis using q s by simp
      qed
    qed
    then show ?thesis by (simp add: quiet_stepI)
  next
    case True
    have a: "pub_node s D L l" "all_located s D L l" and r: "rd s (v_new l) (v_ii l) \<noteq> None"
      using l True by (auto simp: loc_def okn_def dest!: spec [of _ "v_ii l"])
    have m: "v_new l \<in> members D L" "1 \<le> v_ii l" using a(1) by (simp_all add: pub_node_def)
    obtain n where "heap s (v_new l) = Some n" "nlevel n = length (nnext n)" "nlevel n \<le> NUM_LEVELS"
      using glob_member [OF g m(1)] by metis
    then have ii: "v_ii l < NUM_LEVELS" using r by (auto simp: rd_def split: if_splits)
    then have lc: "located s D L l (v_ii l)" using a(2) by (simp add: all_located_def)
    have ntl: "v_new l \<noteq> q_tail s" "v_preds l ! v_ii l \<noteq> q_tail s"
      using m lc glob_sentinels(3,5) [OF g] by (auto simp: located_def src_def)
    have nz: "v_succs l ! v_ii l \<noteq> 0" "v_new l \<noteq> 0"
      using lc dst_valid [OF g] glob_valid [OF g m(1)] by (auto simp: located_def)
    have h: "held l i = found l i" for i using True by (auto simp: held_def)
    show ?thesis
    proof (cases "pc l = I_LinkI")
      case True
      then have s': "s' = wr s (v_new l) (v_ii l) (v_succs l ! v_ii l)" "l' = goto I_CasI l"
        using st by (simp_all add: insert_step_def)
      have "changes s s' (v_ii l) (v_new l) (v_succs l ! v_ii l)"
        using edges_wr [OF ntl(1) nz(1) r] m(2) by (simp add: changes_def s')
      moreover have "takes s l l'" using h by (intro takes_found) (simp_all add: s' goto_def held_def found_def)
      ultimately show ?thesis using True ii by (simp add: up_step_def s' goto_def)
    next
      case False
      then have c: "pc l = I_CasI" using True by simp
      obtain w where w: "rd s (v_preds l ! v_ii l) (v_ii l) = Some w"
        using lc by (auto simp: located_def src_def okn_def)
      show ?thesis
      proof (cases "w = v_succs l ! v_ii l")
        case True
        then have s': "s' = wr s (v_preds l ! v_ii l) (v_ii l) (v_new l)" "l' = l\<lparr>v_ii := v_ii l + 1, pc := I_Loop\<rparr>"
          using c st w by (auto simp: insert_step_def cas_def)
        have "changes s s' (v_ii l) (v_preds l ! v_ii l) (v_new l)"
          using edges_wr [OF ntl(2) nz(2), of "v_ii l"] w m(2) by (simp add: changes_def s')
        moreover have "takes s l l'" using h by (intro takes_found) (simp_all add: s' held_def found_def)
        moreover have "(v_preds l ! v_ii l, v_succs l ! v_ii l) \<in> edges s (v_ii l)" using edgesI [OF ntl(2) w] True nz by simp
        ultimately show ?thesis using c ii by (simp add: up_step_def s')
      next
        case False
        then have "s' = s" "l' = start_locate s True l" using c st w by (auto simp: insert_step_def cas_def)
        then show ?thesis using start_locate_up [of l True s] c by (simp add: quiet_stepI linking_def)
      qed
    qed
  qed
qed

lemma up_deletemin:
  assumes p: "pc l \<in> {D_Enter, D_Read, D_Ins, D_Fao, D_Val, D_Hd, D_CasH, F_Test, F_Free}"
    and st: "deletemin_step var s l = (s', l')"
  shows "up_step s l s' l'"
proof -
  have "q_tail (fst (deletemin_step var s l)) = q_tail s \<and> quiet s (fst (deletemin_step var s l))"
    using p by (elim insertE emptyE)
      (simp_all add: deletemin_step_def cas_def fetch_or1_def Let_def split: option.split)
  moreover have "\<not> linking (snd (deletemin_step var s l)) \<and> (\<forall>i. held (snd (deletemin_step var s l)) i = {})"
    using p by (elim insertE emptyE)
      (simp_all add: deletemin_step_def cas_def fetch_or1_def Let_def deletemin_while_def goto_def crash_def held_def linking_def
        split: option.split)
  ultimately have "q_tail s' = q_tail s" "quiet s s'" "\<not> linking l'" "\<And>i. held l' i = {}" using st by simp_all
  then show ?thesis using takes_none [of l' s l] by (simp add: quiet_stepI stays_def)
qed

lemma up_thread:
  assumes g: "glob s D L" and l: "loc s D L l" and r: "running (pc l)"
    and f: "pc l = I_Enter \<Longrightarrow> fresh_addr s fresh"
    and st: "thread_step var fresh s l = (s', l')" and ok: "loc s' D' L' l'"
  shows "up_step s l s' l'"
proof -
  consider "pc l = Leave" | "pc l = L_Read \<or> pc l = L_Test"
    | "pc l \<in> {R_Head, R_Cur, R_Test, R_Walk, R_Step, R_Assert, R_Cas}"
    | "pc l \<in> {D_Enter, D_Read, D_Ins, D_Fao, D_Val, D_Hd, D_CasH, F_Test, F_Free}"
    | "pc l \<in> {I_Enter, I_Dup1, I_Dup2, I_Dup3, I_Link0, I_Cas0, I_Loop, I_Chk1, I_Chk2, I_LinkI, I_CasI, I_Re, I_Fin}"
    using r by (cases "pc l") (simp_all add: running_def)
  then show ?thesis
  proof cases
    case 1
    then have "s' = s" "l' = l\<lparr>p_count := p_count l - 1, pc := Returned\<rparr>" using st by (simp_all add: thread_step_def)
    then show ?thesis using takes_none [of l' s l] by (simp add: quiet_stepI stays_def linking_def held_def)
  next
    case 2
    then have "s' = s" "l' = locate_step s l" using st by (auto simp: thread_step_def)
    then show ?thesis using up_locate [OF g l 2] by simp
  next
    case 3
    then have "restructure_step s l = (s', l')" using st by (auto simp: thread_step_def)
    then show ?thesis by (rule up_restructure [OF g l 3])
  next
    case 4
    then have "deletemin_step var s l = (s', l')" using st by (auto simp: thread_step_def)
    then show ?thesis by (rule up_deletemin [OF 4])
  next
    case 5
    then have "insert_step var fresh s l = (s', l')" using st by (auto simp: thread_step_def)
    then show ?thesis using f by (intro up_insert [OF g l _ 5 _ ok])
  qed
qed


section \<open>The invariant is kept\<close>

lemma up_okD:
  assumes "up_ok s T"
  shows "1 \<le> i \<Longrightarrow> acyclic (edges s i)" "linking (T t) \<Longrightarrow> fresh_up s (T t)" "linking (T t) \<Longrightarrow> apart (T t) (T u)"
    "t \<noteq> u \<Longrightarrow> linking (T t) \<Longrightarrow> linking (T u) \<Longrightarrow> v_new (T t) \<noteq> v_new (T u)"
  using assms unfolding up_ok_def by blast+

lemma edges_places:
  assumes "glob s D L" "(p, q) \<in> edges s i" "1 \<le> i"
  shows "q = q_tail s \<or> q \<in> members D L"
  using assms dst_place by (fastforce simp: edges_def glob_def glob_up_def)

lemma edges_fun: "(p, q) \<in> edges s i \<Longrightarrow> (p, r) \<in> edges s i \<Longrightarrow> q = r"
  by (simp add: edges_def)

text \<open>The steps of one thread: what it does to the graph and to the other threads' nodes.\<close>

lemma up_acyclic:
  assumes g: "glob s D L" and l: "\<And>u. loc s D L (T u)" and u: "up_ok s T" and st: "up_step s (T t) s' l'" and i: "1 \<le> i"
  shows "acyclic (edges s' i)"
proof -
  let ?l = "T t"
  have a: "acyclic (edges s i)" by (rule up_okD(1) [OF u i])
  from st show ?thesis
    unfolding up_step_def
  proof (elim conjE disjE)
    assume "quiet s s'"
    then show ?thesis using a i by (simp add: quiet_def)
  next
    assume c: "pc ?l = I_LinkI" "changes s s' (v_ii ?l) (v_new ?l) (v_succs ?l ! v_ii ?l)" "v_ii ?l < NUM_LEVELS"
    then have k: "linking ?l" by (simp add: linking_def)
    have n: "\<forall>p. (p, v_new ?l) \<notin> edges s (v_ii ?l)" using up_okD(2) [OF u k] by (simp add: fresh_up_def)
    have "v_new ?l \<notin> held ?l (v_ii ?l)" using up_okD(3) [OF u k, of t] by (simp add: apart_def)
    then have "v_new ?l \<noteq> v_succs ?l ! v_ii ?l" using c(1,3) by (simp add: held_def found_def)
    then have "i = v_ii ?l \<Longrightarrow> acyclic (redirect (edges s i) (v_new ?l) (v_succs ?l ! v_ii ?l))"
      using redirect_acyclic [OF a, of "v_new ?l"] n by simp
    then show ?thesis using c(2) a i by (simp add: changes_def)
  next
    assume c: "pc ?l = I_CasI" "changes s s' (v_ii ?l) (v_preds ?l ! v_ii ?l) (v_new ?l)" "v_ii ?l < NUM_LEVELS"
      "(v_preds ?l ! v_ii ?l, v_succs ?l ! v_ii ?l) \<in> edges s (v_ii ?l)"
    then have k: "linking ?l" by (simp add: linking_def)
    have n: "(v_new ?l, v_succs ?l ! v_ii ?l) \<in> edges s (v_ii ?l)" using up_okD(2) [OF u k] c(1) by (simp add: fresh_up_def)
    have "v_new ?l \<notin> held ?l (v_ii ?l)" using up_okD(3) [OF u k, of t] by (simp add: apart_def)
    then have "v_preds ?l ! v_ii ?l \<noteq> v_new ?l" using c(1,3) by (auto simp: held_def found_def)
    then have "i = v_ii ?l \<Longrightarrow> acyclic (redirect (edges s i) (v_preds ?l ! v_ii ?l) (v_new ?l))"
      using c(4) n edges_fun [OF n] by (metis splice_acyclic a)
    then show ?thesis using c(2) a i by (simp add: changes_def)
  next
    assume c: "pc ?l = R_Cas" "changes s s' (v_i ?l) (q_head s) (v_cur ?l)"
    have d: "dst s D L (v_i ?l) (v_cur ?l)" using l [of t] c(1) by (simp add: loc_def)
    then have "q_head s \<noteq> v_cur ?l" using dst_place [OF d] glob_sentinels(3,4) [OF g] by auto
    moreover have "(p, q_head s) \<notin> edges s i" for p using edges_places [OF g _ i, of p "q_head s"] glob_sentinels(3,4) [OF g] by auto
    ultimately have "acyclic (redirect (edges s i) (q_head s) (v_cur ?l))"
      by (intro redirect_acyclic [OF a]) simp_all
    then show ?thesis using c(2) a i by (cases "i = v_i ?l") (simp_all add: changes_def)
  qed
qed

lemma up_fresh_other:
  assumes g: "glob s D L" and l: "\<And>u. loc s D L (T u)" and u: "up_ok s T" and st: "up_step s (T t) s' l'"
    and w: "w \<noteq> t" "linking (T w)"
  shows "fresh_up s' (T w)"
proof -
  let ?l = "T t" and ?o = "T w"
  have pn: "pub_node s D L ?o" using linking_pub [OF l w(2)] by simp
  then have m: "v_new ?o \<in> members D L" "1 \<le> v_ii ?o" by (simp_all add: pub_node_def)
  have f: "fresh_up s ?o" by (rule up_okD(2) [OF u w(2)])
  have ap: "v_new ?o \<notin> held ?l i" if "v_ii ?o \<le> i" for i using up_okD(3) [OF u w(2), of t] that by (simp add: apart_def)
  have keep: "fresh_up s' ?o" if "changes s s' j p q" "v_ii ?o \<le> j \<Longrightarrow> q \<noteq> v_new ?o" "v_ii ?o = j \<Longrightarrow> p \<noteq> v_new ?o" for j p q
    using f that m(2) by (auto simp: fresh_up_def changes_def redirect_def split: if_split_asm)
  from st show ?thesis
    unfolding up_step_def
  proof (elim conjE disjE)
    assume "quiet s s'"
    then show ?thesis using f m(2) by (simp add: quiet_def fresh_up_def)
  next
    assume c: "pc ?l = I_LinkI" "changes s s' (v_ii ?l) (v_new ?l) (v_succs ?l ! v_ii ?l)" "v_ii ?l < NUM_LEVELS"
    then have k: "linking ?l" by (simp add: linking_def)
    show ?thesis
      by (rule keep [OF c(2)])
         (use ap [of "v_ii ?l"] c(1,3) up_okD(4) [OF u w(1,2) k] in \<open>auto simp: held_def found_def\<close>)
  next
    assume c: "pc ?l = I_CasI" "changes s s' (v_ii ?l) (v_preds ?l ! v_ii ?l) (v_new ?l)" "v_ii ?l < NUM_LEVELS"
    then have k: "linking ?l" by (simp add: linking_def)
    show ?thesis
      by (rule keep [OF c(2)])
         (use ap [of "v_ii ?l"] c(1,3) up_okD(4) [OF u w(1,2) k] in \<open>auto simp: held_def found_def\<close>)
  next
    assume c: "pc ?l = R_Cas" "changes s s' (v_i ?l) (q_head s) (v_cur ?l)"
    show ?thesis
      by (rule keep [OF c(2)])
         (use ap [of "v_i ?l"] c(1) m(1) glob_sentinels(4) [OF g] in \<open>auto simp: held_def\<close>)
  qed
qed

text \<open>A thread that is linking after its step: it was before, or has just linked its node at the bottom.\<close>

lemma up_linking:
  assumes st: "up_step s l s' l'" and k: "linking l'"
  shows "v_new l' = v_new l \<and> (linking l \<and> v_ii l \<le> v_ii l' \<or> pc l = I_Cas0 \<and> v_ii l' = 1 \<and> pc l' \<noteq> I_CasI \<and> quiet s s')"
  using st k unfolding up_step_def by (auto simp: stays_def linking_def)

lemma up_fresh_own:
  assumes g: "glob s D L" and l: "\<And>u. loc s D L (T u)" and u: "up_ok s T" and st: "up_step s (T t) s' l'"
    and k: "linking l'"
  shows "fresh_up s' l'"
proof (cases "linking (T t)")
  case False
  then have c: "pc (T t) = I_Cas0" "v_new l' = v_new (T t)" "v_ii l' = 1" "pc l' \<noteq> I_CasI" "quiet s s'"
    using up_linking [OF st k] by auto
  then have "v_new (T t) \<notin> members D L \<and> v_new (T t) \<noteq> q_tail s" using l [of t] by (simp add: loc_def priv_node_def)
  then have "(p, v_new (T t)) \<notin> edges s i" if "1 \<le> i" for p i using edges_places [OF g _ that, of p "v_new (T t)"] by auto
  then show ?thesis using c by (simp add: fresh_up_def quiet_def)
next
  case True
  let ?l = "T t"
  have m: "1 \<le> v_ii ?l" using linking_pub [OF l True] by (simp add: pub_node_def)
  have f: "fresh_up s ?l" by (rule up_okD(2) [OF u True])
  have ap: "v_new ?l \<notin> held ?l (v_ii ?l)" using up_okD(3) [OF u True, of t] by (simp add: apart_def)
  from st show ?thesis
    unfolding up_step_def
  proof (elim conjE disjE)
    assume "quiet s s'" "stays ?l l'"
    then show ?thesis using f k m True by (auto simp: quiet_def fresh_up_def stays_def linking_def)
  next
    assume c: "pc ?l = I_LinkI" "changes s s' (v_ii ?l) (v_new ?l) (v_succs ?l ! v_ii ?l)" "v_ii ?l < NUM_LEVELS"
      "pc l' = I_CasI" "v_new l' = v_new ?l" "v_ii l' = v_ii ?l" "v_succs l' = v_succs ?l"
    have "v_succs ?l ! v_ii ?l \<noteq> v_new ?l" using ap c(1,3) by (auto simp: held_def found_def)
    then show ?thesis using c f m by (auto simp: fresh_up_def changes_def redirect_def split: if_split_asm)
  next
    assume c: "changes s s' (v_ii ?l) (v_preds ?l ! v_ii ?l) (v_new ?l)"
      "pc l' = I_Loop" "v_new l' = v_new ?l" "v_ii l' = Suc (v_ii ?l)"
    then show ?thesis using f m by (auto simp: fresh_up_def changes_def split: if_split_asm)
  qed (use k in simp)
qed

lemma up_apart:
  assumes g: "glob s D L" and l: "\<And>u. loc s D L (T u)" and u: "up_ok s T" and st: "up_step s (T t) s' l'"
    and k: "linking ((T(t := l')) a)"
  shows "apart ((T(t := l')) a) ((T(t := l')) b)"
proof -
  let ?a = "(T(t := l')) a"
  have *: "v_new ?a = v_new (T a) \<and> (linking (T a) \<and> v_ii (T a) \<le> v_ii ?a \<or> a = t \<and> pc (T t) = I_Cas0 \<and> 1 \<le> v_ii ?a)"
    using up_linking [OF st] k by (cases "a = t") auto
  have "v_new (T a) \<notin> held (T b) i \<and> v_new (T a) \<notin> Range (edges s i) \<and> v_new (T a) \<noteq> q_head s \<and> 1 \<le> v_ii ?a"
    if i: "v_ii ?a \<le> i" for i
    using *
  proof (elim conjE disjE)
    assume c: "linking (T a)" "v_ii (T a) \<le> v_ii ?a"
    then have "v_new (T a) \<in> members D L" "1 \<le> v_ii (T a)" using linking_pub [OF l] by (simp_all add: pub_node_def)
    then show "v_new (T a) \<notin> held (T b) i \<and> v_new (T a) \<notin> Range (edges s i) \<and> v_new (T a) \<noteq> q_head s \<and> 1 \<le> v_ii ?a"
      using up_okD(3) [OF u c(1), of b] up_okD(2) [OF u c(1)] c(2) i glob_sentinels(4) [OF g] by (auto simp: apart_def fresh_up_def)
  next
    assume c: "a = t" "pc (T t) = I_Cas0" "1 \<le> v_ii ?a"
    then have n: "v_new (T a) \<notin> members D L \<and> v_new (T a) \<noteq> q_head s \<and> v_new (T a) \<noteq> q_tail s"
      using l [of t] by (simp add: loc_def priv_node_def)
    then have "v_new (T a) \<notin> held (T b) i" using held_places [OF l, of b i] by blast
    moreover have "v_new (T a) \<notin> Range (edges s i)" using edges_places [OF g _, of _ "v_new (T a)" i] n c(3) i by auto
    ultimately show "v_new (T a) \<notin> held (T b) i \<and> v_new (T a) \<notin> Range (edges s i) \<and> v_new (T a) \<noteq> q_head s \<and> 1 \<le> v_ii ?a"
      using n c(3) by blast
  qed
  then have nh: "v_new (T a) \<notin> held (T b) i" "v_new (T a) \<notin> Range (edges s i)" "v_new (T a) \<noteq> q_head s" "1 \<le> v_ii ?a"
    if "v_ii ?a \<le> i" for i using that by blast+
  have "v_new ?a \<notin> held ((T(t := l')) b) i" if i: "v_ii ?a \<le> i" for i
  proof (cases "b = t")
    case True
    have "held l' i \<subseteq> (\<Union>j \<in> {i..}. held (T t) j) \<union> {q_head s} \<union> Range (edges s i)"
      using st nh(4) [OF i] i by (simp add: up_step_def takes_def)
    moreover have hj: "v_new (T a) \<notin> held (T t) j" if "i \<le> j" for j using nh(1) [of j] i that True by simp
    have "v_new (T a) \<notin> (\<Union>j \<in> {i..}. held (T t) j) \<union> {q_head s} \<union> Range (edges s i)"
      using hj nh(2,3) [OF i] by blast
    ultimately show ?thesis using True * by auto
  qed (use nh(1) [OF i] * in simp)
  then show ?thesis by (simp add: apart_def)
qed

lemma up_ok_step:
  assumes g: "glob s D L" and l: "\<And>u. loc s D L (T u)" and u: "up_ok s T" and st: "up_step s (T t) s' l'"
    and own: "\<And>w. w \<noteq> t \<Longrightarrow> linking l' \<Longrightarrow> linking (T w) \<Longrightarrow> v_new l' \<noteq> v_new (T w)"
  shows "up_ok s' (T(t := l'))"
  unfolding up_ok_def
proof (intro conjI allI impI)
  show "acyclic (edges s' i)" if "1 \<le> i" for i by (rule up_acyclic [OF g l u st that])
  show "fresh_up s' ((T(t := l')) a)" if "linking ((T(t := l')) a)" for a
    using that up_fresh_own [OF g l u st] up_fresh_other [OF g l u st, of a] by (cases "a = t") simp_all
  show "apart ((T(t := l')) a) ((T(t := l')) b)" if "linking ((T(t := l')) a)" for a b by (rule up_apart [OF g l u st that])
  show "v_new ((T(t := l')) a) \<noteq> v_new ((T(t := l')) b)"
    if "a \<noteq> b" "linking ((T(t := l')) a)" "linking ((T(t := l')) b)" for a b
    using that own up_okD(4) [OF u] by (auto split: if_split_asm) metis
qed

text \<open>A node has one owner also when it has just been linked: until then it was private.\<close>

lemma up_owner:
  assumes l: "\<And>u. loc s D L (T u)" and u: "up_ok s T" and st: "up_step s (T t) s' l'" and w: "w \<noteq> t" "linking l'" "linking (T w)"
  shows "v_new l' \<noteq> v_new (T w)"
  using up_linking [OF st w(2)]
proof (elim conjE disjE)
  assume "v_new l' = v_new (T t)" "linking (T t)"
  then show ?thesis using up_okD(4) [OF u w(1,3)] by metis
next
  assume "v_new l' = v_new (T t)" "pc (T t) = I_Cas0"
  then have "v_new l' \<notin> members D L" using l [of t] by (simp add: loc_def priv_node_def)
  moreover have "v_new (T w) \<in> members D L" using linking_pub [OF l w(3)] by (simp add: pub_node_def)
  ultimately show ?thesis by metis
qed

definition inv_up :: "'k::len word sys \<Rightarrow> bool" where
  "inv_up \<sigma> \<longleftrightarrow> inv_mem \<sigma> \<and> up_ok (sh \<sigma>) (th \<sigma>)"

lemma exec_inv_up:
  assumes i: "inv_up \<sigma>" and r: "running (pc (th \<sigma> t))" and f: "pc (th \<sigma> t) = I_Enter \<Longrightarrow> fresh_addr (sh \<sigma>) fresh"
  shows "inv_up (exec_thread var fresh t \<sigma>)"
proof -
  have m: "inv_mem \<sigma>" and u: "up_ok (sh \<sigma>) (th \<sigma>)" using i by (simp_all add: inv_up_def)
  then have g: "glob (sh \<sigma>) (dead \<sigma>) (live \<sigma>)" and l: "\<And>w. loc (sh \<sigma>) (dead \<sigma>) (live \<sigma>) (th \<sigma> w)"
    by (simp_all add: inv_mem_def)
  obtain s' l' where s: "thread_step var fresh (sh \<sigma>) (th \<sigma> t) = (s', l')" by fastforce
  obtain D' L' where D: "play_opt (dead \<sigma>, live \<sigma>) (lin_event (sh \<sigma>) (th \<sigma> t)) = (D', L')" by fastforce
  have "loc s' D' L' l'" using exec_step(2) [OF m r _ s D] f by blast
  then have st: "up_step (sh \<sigma>) (th \<sigma> t) s' l'" using up_thread [OF g l r _ s] f by blast
  have "up_ok s' ((th \<sigma>)(t := l'))"
    by (rule up_ok_step [OF g l u st]) (rule up_owner [OF l u st])
  moreover have "inv_mem (exec_thread var fresh t \<sigma>)" using exec_inv_mem [OF m r] f by blast
  ultimately show ?thesis by (simp add: inv_up_def exec_thread_def s D)
qed

lemma up_outside: "up_ok s T \<Longrightarrow> \<not> linking l' \<Longrightarrow> (\<And>i. held l' i = {}) \<Longrightarrow> up_ok s (T(t := l'))"
  by (auto simp: up_ok_def apart_def)

lemma rd_init:
  assumes "t \<noteq> h" "rd (pq_init t h junk vt vh offs) p i = Some q"
  shows "p = h \<and> q = t \<or> p = t"
proof (cases "p = t")
  case False
  then have "p = h" using assms by (cases "p = h") (simp_all add: pq_init_def rd_def)
  moreover have "rd (pq_init t h junk vt vh offs) h i = (if i < NUM_LEVELS then Some t else None)"
    using assms(1) by (simp add: pq_init_def rd_def)
  ultimately show ?thesis using assms(2) by (auto split: if_splits)
qed simp

theorem reachable_up: "reachable var \<sigma> \<Longrightarrow> inv_up \<sigma>"
proof (induction rule: reachable.induct)
  case (reach_init \<sigma>)
  then have "pc (th \<sigma> t) = Idle" for t by (simp add: sys_init_def)
  then have n: "\<not> linking (th \<sigma> t)" for t by (simp add: linking_def)
  obtain tl h junk vt vh offs where s: "sh \<sigma> = pq_init tl h junk vt vh offs" "tl \<noteq> h" using reach_init by (auto simp: sys_init_def)
  have "rd (sh \<sigma>) p i = Some q \<Longrightarrow> p = h \<and> q = tl \<or> p = tl" for p q i
    using rd_init [OF s(2)] by (metis s(1))
  moreover have "q_tail (sh \<sigma>) = tl" by (simp add: s(1) pq_init_def)
  ultimately have sub: "edges (sh \<sigma>) i \<subseteq> {(h, tl)}" for i by (force simp: edges_def)
  have "acyclic {(h, tl)}" using s(2) by (simp add: wf_acyclic)
  then have "acyclic (edges (sh \<sigma>) i)" for i using sub by (rule acyclic_subset)
  then show ?case using n init_inv [OF reach_init] by (simp add: inv_up_def up_ok_def)
next
  case (reach_step \<sigma> \<sigma>')
  have m: "inv_mem \<sigma>'" using reachable_inv reach_step.hyps reachable.reach_step by blast
  have u: "up_ok (sh \<sigma>) (th \<sigma>)" using reach_step.IH by (simp add: inv_up_def)
  from reach_step.hyps(2) show ?case
  proof cases
    case (thread t fresh)
    then show ?thesis using exec_inv_up [OF reach_step.IH] by simp
  next
    case (invoke_insert t k jp js v)
    then show ?thesis using m up_outside [OF u, of "call_insert k v jp js (th \<sigma> t)" t]
      by (simp add: inv_up_def call_insert_def linking_def held_def)
  next
    case (invoke_deletemin t)
    then show ?thesis using m up_outside [OF u, of "call_deletemin (th \<sigma> t)" t]
      by (simp add: inv_up_def call_deletemin_def linking_def held_def)
  next
    case (respond t)
    then show ?thesis using m up_outside [OF u, of "goto Idle (th \<sigma> t)" t]
      by (simp add: inv_up_def goto_def linking_def held_def)
  qed
qed

end
