(* ===== verification/Linden_Solo.thy ===== *)
theory Linden_Solo
  imports Linden_Acyclic
begin

text \<open>
  Obstruction freedom: from every reachable state, a thread that runs by itself comes to the end of its operation,
  whatever the other threads have left behind.
\<close>

section \<open>Walks come to an end\<close>

text \<open>What lies ahead of a node on a level.\<close>

definition left_at :: "'a shared \<Rightarrow> ptr list \<Rightarrow> 'a entry list \<Rightarrow> nat \<Rightarrow> ptr \<Rightarrow> nat" where
  "left_at s D L i x = (if i = 0 then length (order s D L) - place s D L x else card ((edges s i)\<^sup>* `` {x}))"

lemma reach_finite:
  assumes "glob s D L" "1 \<le> i"
  shows "finite ((edges s i)\<^sup>* `` {x})"
proof -
  have "(edges s i)\<^sup>* `` {x} \<subseteq> insert x (insert (q_tail s) (members D L))"
    using edges_places [OF assms(1) _ assms(2)] by (blast elim: rtranclE)
  moreover have "finite (members D L)" by (simp add: members_def)
  ultimately show ?thesis by (meson finite_insert finite_subset)
qed

lemma left_less:
  assumes g: "glob s D L" and a: "1 \<le> i \<Longrightarrow> acyclic (edges s i)" and x: "src s D L i x" and r: "rd s x i = Some w"
  shows "left_at s D L i (get_unmarked_ref w) < left_at s D L i x"
proof (cases "i = 0")
  case True
  then have "ahead s D L x (get_unmarked_ref w)" using next_ahead [OF g src_place [OF x]] r by simp
  then show ?thesis using ahead_place [OF g] True by (force simp: left_at_def)
next
  case False
  then have i: "1 \<le> i" by simp
  obtain w' where w': "rd s x i = Some w'" "w' \<noteq> 0" "\<not> is_marked_ref w'" using next_up [OF g x i] by metis
  then have w: "w \<noteq> 0" "get_unmarked_ref w = w" using r by (simp_all add: unmarked_id)
  have "x \<noteq> q_tail s" using src_place [OF x] glob_sentinels(3,5) [OF g] by auto
  then have e: "(x, w) \<in> edges s i" using r w by (intro edgesI) simp_all
  have "x \<notin> (edges s i)\<^sup>* `` {w}"
  proof
    assume "x \<in> (edges s i)\<^sup>* `` {w}"
    then have "(x, x) \<in> (edges s i)\<^sup>+" using e by (auto intro: rtrancl_into_trancl2)
    then show False using a [OF i] by (auto simp: acyclic_def)
  qed
  moreover have "(edges s i)\<^sup>* `` {w} \<subseteq> (edges s i)\<^sup>* `` {x}" using e by (auto intro: converse_rtrancl_into_rtrancl)
  ultimately have "(edges s i)\<^sup>* `` {w} \<subset> (edges s i)\<^sup>* `` {x}" by blast
  then show ?thesis using psubset_card_mono [OF reach_finite [OF g i]] False w by (simp add: left_at_def)
qed

section \<open>One thread runs alone\<close>

definition returns :: "variant \<Rightarrow> ptr \<Rightarrow> nat \<Rightarrow> 'k::len word sys \<Rightarrow> bool" where
  "returns var a t \<sigma> \<longleftrightarrow> (\<exists>n. pc (th ((exec_thread var a t ^^ n) \<sigma>) t) = Returned)"

text \<open>The state of the queue and of the thread: \<open>\<sigma>\<close> has them, and the invariants hold.\<close>

definition alone :: "nat \<Rightarrow> 'k::len word sys \<Rightarrow> 'k word shared \<Rightarrow> ptr list \<Rightarrow> 'k word entry list \<Rightarrow> 'k word thr \<Rightarrow> bool" where
  "alone t \<sigma> s D L l \<longleftrightarrow> inv_up \<sigma> \<and> sh \<sigma> = s \<and> dead \<sigma> = D \<and> live \<sigma> = L \<and> th \<sigma> t = l"

lemma aloneD:
  assumes "alone t \<sigma> s D L l"
  shows "glob s D L" "loc s D L l" "1 \<le> i \<Longrightarrow> acyclic (edges s i)"
    "linking l \<Longrightarrow> v_ii l \<le> i \<Longrightarrow> (p, v_new l) \<notin> edges s i" "linking l \<Longrightarrow> v_ii l \<le> i \<Longrightarrow> v_new l \<notin> held l i"
  using assms unfolding alone_def inv_up_def inv_mem_def up_ok_def fresh_up_def apart_def by blast+

text \<open>The next step.\<close>

lemma returns_step:
  assumes a: "alone t \<sigma> s D L l" and r: "running (pc l)" and f: "pc l = I_Enter \<Longrightarrow> fresh_addr s a"
    and st: "thread_step var a s l = (s', l')" and D: "play_opt (D, L) (lin_event s l) = (D', L')"
    and go: "\<And>\<sigma>'. alone t \<sigma>' s' D' L' l' \<Longrightarrow> returns var a t \<sigma>'"
  shows "returns var a t \<sigma>"
proof -
  have s: "sh \<sigma> = s" "dead \<sigma> = D" "live \<sigma> = L" "th \<sigma> t = l" and i: "inv_up \<sigma>" using a by (simp_all add: alone_def)
  have "inv_up (exec_thread var a t \<sigma>)" using exec_inv_up [OF i, of t a var] r f by (simp add: s)
  then have "alone t (exec_thread var a t \<sigma>) s' D' L' l'" by (simp add: alone_def exec_thread_def s st D)
  then obtain n where "pc (th ((exec_thread var a t ^^ n) (exec_thread var a t \<sigma>)) t) = Returned" using go by (auto simp: returns_def)
  then show ?thesis unfolding returns_def by (intro exI [of _ "Suc n"]) (simp only: funpow_Suc_right comp_apply)
qed

text \<open>A step that is not a linearisation point.\<close>

lemma returns_go:
  assumes a: "alone t \<sigma> s D L l" and r: "running (pc l)" "pc l \<noteq> I_Enter"
    and st: "thread_step var a s l = (s', l')" and n: "lin_event s l = None"
    and go: "\<And>\<sigma>'. alone t \<sigma>' s' D L l' \<Longrightarrow> returns var a t \<sigma>'"
  shows "returns var a t \<sigma>"
  by (rule returns_step [OF a r(1) _ st _ go]) (use n r(2) in simp_all)

lemma returns_leave: "alone t \<sigma> s D L l \<Longrightarrow> pc l = Leave \<Longrightarrow> returns var a t \<sigma>"
  by (rule returns_go, assumption)
     (auto simp: running_def thread_step_def lin_event_def alone_def returns_def intro!: exI [of _ "0::nat"])

lemma returns_returned: "alone t \<sigma> s D L l \<Longrightarrow> pc l = Returned \<Longrightarrow> returns var a t \<sigma>"
  by (auto simp: alone_def returns_def intro!: exI [of _ "0::nat"])

section \<open>deletemin\<close>

text \<open>The nodes between the old and the new first node are handed to the collector, one by one.\<close>

lemma returns_free:
  "alone t \<sigma> s D L l \<Longrightarrow> pc l = F_Test \<Longrightarrow> c \<le> b \<Longrightarrow> b < length D \<Longrightarrow> D ! c = v_cur l \<Longrightarrow> D ! b = v_newhead l \<Longrightarrow>
    returns var a t \<sigma>"
proof (induction "b - c" arbitrary: c \<sigma> s l)
  case 0
  then have "v_cur l = get_unmarked_ref (v_newhead l)" using dead_valid [OF aloneD(1) [OF 0(2)] nth_mem [OF 0(5)]] by simp
  then have st: "thread_step var a s l = (s, goto Leave l)" using 0(3) by (simp add: thread_step_def deletemin_step_def)
  show ?case
    by (rule returns_go [OF 0(2) _ _ st]) (use 0(3) in \<open>auto simp: running_def lin_event_def goto_def intro: returns_leave\<close>)
next
  case (Suc n)
  note g = aloneD(1) [OF Suc.prems(1)]
  have cb: "c < b" using Suc.hyps(2) by simp
  then have r: "rd s (v_cur l) 0 = Some (get_marked_ref (D ! Suc c))" using dead_next [OF g, of c] Suc.prems(4,5) by simp
  have va: "valid_addr (D ! Suc c)" "valid_addr (D ! b)" using dead_valid [OF g] Suc.prems(4) cb by auto
  then have v: "\<not> is_marked_ref (D ! Suc c)" "\<not> is_marked_ref (D ! b)" by (auto dest: valid_not_marked)
  have "D ! c \<noteq> D ! b" using g cb Suc.prems(4) by (auto simp: glob_def glob_nodes_def nth_eq_iff_index_eq)
  then have "v_cur l \<noteq> get_unmarked_ref (v_newhead l)" using Suc.prems(5,6) v by (metis unmarked_id)
  then have st: "thread_step var a s l = (s, l\<lparr>v_nxt := D ! Suc c, pc := F_Free\<rparr>)"
    using Suc.prems(2) r va by (simp add: thread_step_def deletemin_step_def)
  show ?case
  proof (rule returns_go [OF Suc.prems(1) _ _ st])
    fix \<sigma>' assume a': "alone t \<sigma>' s D L (l\<lparr>v_nxt := D ! Suc c, pc := F_Free\<rparr>)"
    have st': "thread_step var a s (l\<lparr>v_nxt := D ! Suc c, pc := F_Free\<rparr>) =
        (s\<lparr>garbage := garbage s @ [v_cur l]\<rparr>, l\<lparr>v_nxt := D ! Suc c, v_cur := D ! Suc c, pc := F_Test\<rparr>)"
      using r by (simp add: thread_step_def deletemin_step_def)
    show "returns var a t \<sigma>'"
    proof (rule returns_go [OF a' _ _ st'])
      fix \<sigma>'' assume a'': "alone t \<sigma>'' (s\<lparr>garbage := garbage s @ [v_cur l]\<rparr>) D L (l\<lparr>v_nxt := D ! Suc c, v_cur := D ! Suc c, pc := F_Test\<rparr>)"
      show "returns var a t \<sigma>''"
        by (rule Suc.hyps(1) [OF _ a'', of "Suc c"]) (use Suc.hyps(2) Suc.prems cb in auto)
    qed (simp_all add: running_def lin_event_def)
  qed (use Suc.prems(2) in \<open>simp_all add: running_def lin_event_def\<close>)
qed

lemma returns_F:
  assumes a: "alone t \<sigma> s D L l" and p: "pc l = F_Test \<or> pc l = F_Free"
  shows "returns var a t \<sigma>"
  using p
proof
  assume "pc l = F_Test"
  then show ?thesis using aloneD(2) [OF a] returns_free [OF a] by (auto simp: loc_def)
next
  assume p: "pc l = F_Free"
  then obtain c b where c: "c < b" "b < length D" "D ! c = v_cur l" "D ! b = v_newhead l" "v_nxt l = D ! Suc c"
    using aloneD(2) [OF a] by (auto simp: loc_def)
  then have "rd s (v_cur l) 0 = Some (get_marked_ref (D ! Suc c))" using dead_next [OF aloneD(1) [OF a], of c] by simp
  then have st: "thread_step var a s l = (s\<lparr>garbage := garbage s @ [v_cur l]\<rparr>, l\<lparr>v_cur := v_nxt l, pc := F_Test\<rparr>)"
    using p by (simp add: thread_step_def deletemin_step_def)
  show ?thesis
    by (rule returns_go [OF a _ _ st])
       (use p c in \<open>auto simp: running_def lin_event_def intro!: returns_free [where c = "Suc c" and b = b]\<close>)
qed


section \<open>restructure\<close>

definition heads_return :: "variant \<Rightarrow> ptr \<Rightarrow> nat \<Rightarrow> 'k::len word itself \<Rightarrow> nat \<Rightarrow> bool" where
  "heads_return var a t T i \<longleftrightarrow>
     (\<forall>(\<sigma> :: 'k word sys) s D L l. alone t \<sigma> s D L l \<longrightarrow> pc l = R_Head \<longrightarrow> v_i l = i \<longrightarrow> returns var a t \<sigma>)"

lemma returns_R_Cas:
  fixes \<sigma> :: "'k::len word sys"
  assumes a: "alone t \<sigma> s D L l" and p: "pc l = R_Cas" and i: "v_i l = Suc i"
    and down: "heads_return var a t TYPE('k word) i"
    and again: "rd s (q_head s) (Suc i) = Some (v_h l) \<or> heads_return var a t TYPE('k word) (Suc i)"
  shows "returns var a t \<sigma>"
proof -
  have "v_i l < NUM_LEVELS" using aloneD(2) [OF a] p by (simp add: loc_def)
  then obtain w where w: "rd s (q_head s) (Suc i) = Some w"
    using glob_sentinels(6) [OF aloneD(1) [OF a]] i by (auto simp: okn_def NUM_LEVELS_def dest!: spec [of _ "Suc i"])
  show ?thesis
  proof (cases "w = v_h l")
    case True
    then have st: "thread_step var a s l = (wr s (q_head s) (Suc i) (v_cur l), l\<lparr>v_i := i, pc := R_Head\<rparr>)"
      using p w i by (simp add: thread_step_def restructure_step_def cas_def)
    show ?thesis
      by (rule returns_go [OF a _ _ st]) (use p down in \<open>auto simp: running_def lin_event_def heads_return_def\<close>)
  next
    case False
    then have st: "thread_step var a s l = (s, goto R_Head l)"
      using p w i by (simp add: thread_step_def restructure_step_def cas_def)
    have "heads_return var a t TYPE('k word) (Suc i)" using again False w by simp
    then show ?thesis
      by (intro returns_go [OF a _ _ st]) (use p i in \<open>auto simp: running_def lin_event_def heads_return_def goto_def\<close>)
  qed
qed

lemma returns_R_Walk:
  fixes \<sigma> :: "'k::len word sys"
  assumes "alone t \<sigma> s D L l" and "pc l = R_Walk" and "v_i l = Suc i"
    and down: "heads_return var a t TYPE('k word) i"
    and "rd s (q_head s) (Suc i) = Some (v_h l) \<or> heads_return var a t TYPE('k word) (Suc i)"
  shows "returns var a t \<sigma>"
  using assms(1-3,5)
proof (induction "left_at s D L (Suc i) (v_cur l)" arbitrary: \<sigma> l rule: less_induct)
  case less
  note a = less.prems(1) and p = less.prems(2) and i = less.prems(3)
  have g: "glob s D L" and m: "marked_src s D L (Suc i) (v_pred l)" and d: "dst s D L (Suc i) (v_cur l)"
    using aloneD(1,2) [OF a] p i by (simp_all add: loc_def)
  obtain w where w: "rd s (v_cur l) 0 = Some w" "is_marked_ref w \<longrightarrow> v_cur l \<in> set D" by (rule dst_bottom [OF g d])
  show ?case
  proof (cases "is_marked_ref w")
    case True
    then have st: "thread_step var a s l = (s, l\<lparr>v_pred := v_cur l, pc := R_Step\<rparr>)"
      using p w by (simp add: thread_step_def restructure_step_def)
    have "v_cur l \<noteq> q_tail s" using w True glob_sentinels(5) [OF g] by (auto simp: members_def)
    then have x: "src s D L (Suc i) (v_cur l)" using d by (auto simp: dst_def src_def)
    then obtain v where v: "rd s (v_cur l) (Suc i) = Some v" "\<not> is_marked_ref v" using next_up [OF g] by (metis le_add1 plus_1_eq_Suc)
    have less': "left_at s D L (Suc i) v < left_at s D L (Suc i) (v_cur l)"
      using left_less [OF g aloneD(3) [OF a] x v(1)] v(2) by (simp add: unmarked_id)
    show ?thesis
    proof (rule returns_go [OF a _ _ st])
      fix \<sigma>' assume a': "alone t \<sigma>' s D L (l\<lparr>v_pred := v_cur l, pc := R_Step\<rparr>)"
      have st': "thread_step var a s (l\<lparr>v_pred := v_cur l, pc := R_Step\<rparr>) = (s, l\<lparr>v_pred := v_cur l, v_cur := v, pc := R_Walk\<rparr>)"
        using v i by (simp add: thread_step_def restructure_step_def)
      show "returns var a t \<sigma>'"
      proof (rule returns_go [OF a' _ _ st'])
        fix \<sigma>'' assume "alone t \<sigma>'' s D L (l\<lparr>v_pred := v_cur l, v_cur := v, pc := R_Walk\<rparr>)"
        then show "returns var a t \<sigma>''" using less.hyps less' i less.prems(4) by force
      qed (simp_all add: running_def lin_event_def)
    qed (use p in \<open>simp_all add: running_def lin_event_def\<close>)
  next
    case False
    then have st: "thread_step var a s l = (s, goto R_Assert l)"
      using p w by (simp add: thread_step_def restructure_step_def)
    obtain v where v: "rd s (v_pred l) 0 = Some v" "is_marked_ref v" using m by (auto simp: marked_src_def)
    show ?thesis
    proof (rule returns_go [OF a _ _ st])
      fix \<sigma>' assume a': "alone t \<sigma>' s D L (goto R_Assert l)"
      have st': "thread_step var a s (goto R_Assert l) = (s, goto R_Cas l)"
        using v by (simp add: thread_step_def restructure_step_def goto_def)
      show "returns var a t \<sigma>'"
        by (rule returns_go [OF a' _ _ st'], simp_all add: running_def lin_event_def goto_def)
           (rule returns_R_Cas [OF _ _ _ down], assumption, simp_all add: i less.prems(4))
    qed (use p in \<open>simp_all add: running_def lin_event_def\<close>)
  qed
qed


text \<open>The first three steps of a round, and the levels from the top to the bottom.\<close>

lemma returns_R_Head0: "heads_return var a t TYPE('k::len word) 0"
  unfolding heads_return_def
proof (intro allI impI)
  fix \<sigma> :: "'k word sys" and s D L l assume a: "alone t \<sigma> s D L l" and p: "pc l = R_Head" "v_i l = 0"
  then have st: "thread_step var a s l = (s, l\<lparr>v_cur := get_unmarked_ref (v_obs_head l), pc := F_Test\<rparr>)"
    by (simp add: thread_step_def restructure_step_def)
  show "returns var a t \<sigma>"
    by (rule returns_go [OF a _ _ st]) (use p in \<open>auto simp: running_def lin_event_def intro: returns_F\<close>)
qed

lemma returns_R_Test:
  fixes \<sigma> :: "'k::len word sys"
  assumes a: "alone t \<sigma> s D L l" and p: "pc l = R_Test" and i: "v_i l = Suc i"
    and down: "heads_return var a t TYPE('k word) i"
    and again: "rd s (q_head s) (Suc i) = Some (v_h l) \<or> heads_return var a t TYPE('k word) (Suc i)"
  shows "returns var a t \<sigma>"
proof -
  have g: "glob s D L" and d: "dst s D L (Suc i) (v_h l)" using aloneD(1,2) [OF a] p i by (simp_all add: loc_def)
  obtain w where w: "rd s (v_h l) 0 = Some w" by (rule dst_bottom [OF g d])
  show ?thesis
  proof (cases "is_marked_ref w")
    case True
    then have st: "thread_step var a s l = (s, goto R_Walk l)" using p w by (simp add: thread_step_def restructure_step_def)
    show ?thesis
      by (rule returns_go [OF a _ _ st], simp_all add: p running_def lin_event_def goto_def)
         (rule returns_R_Walk [OF _ _ _ down], assumption, simp_all add: i again)
  next
    case False
    then have st: "thread_step var a s l = (s, l\<lparr>v_i := i, pc := R_Head\<rparr>)"
      using p w i by (simp add: thread_step_def restructure_step_def)
    show ?thesis
      by (rule returns_go [OF a _ _ st]) (use p down in \<open>auto simp: running_def lin_event_def heads_return_def\<close>)
  qed
qed

lemma returns_R_Cur:
  fixes \<sigma> :: "'k::len word sys"
  assumes a: "alone t \<sigma> s D L l" and p: "pc l = R_Cur" and i: "v_i l = Suc i"
    and down: "heads_return var a t TYPE('k word) i"
    and again: "rd s (q_head s) (Suc i) = Some (v_h l) \<or> heads_return var a t TYPE('k word) (Suc i)"
  shows "returns var a t \<sigma>"
proof -
  have "src s D L (Suc i) (v_pred l)" using aloneD(2) [OF a] p i by (simp add: loc_def marked_src_def)
  then obtain w where w: "rd s (v_pred l) (Suc i) = Some w" by (auto simp: src_def okn_def)
  then have st: "thread_step var a s l = (s, l\<lparr>v_cur := w, pc := R_Test\<rparr>)"
    using p i by (simp add: thread_step_def restructure_step_def)
  show ?thesis
    by (rule returns_go [OF a _ _ st], simp_all add: p running_def lin_event_def)
       (rule returns_R_Test [OF _ _ _ down], assumption, simp_all add: i again)
qed

lemma heads_return: "heads_return var a t TYPE('k::len word) i"
proof (induction i)
  case 0
  show ?case by (rule returns_R_Head0)
next
  case (Suc i)
  show ?case
    unfolding heads_return_def
  proof (intro allI impI)
    fix \<sigma> :: "'k word sys" and s D L l assume a: "alone t \<sigma> s D L l" and p: "pc l = R_Head" "v_i l = Suc i"
    have "Suc i < NUM_LEVELS" using aloneD(2) [OF a] p by (simp add: loc_def)
    then obtain w where w: "rd s (q_head s) (Suc i) = Some w"
      using glob_sentinels(6) [OF aloneD(1) [OF a]] by (auto simp: okn_def NUM_LEVELS_def dest!: spec [of _ "Suc i"])
    then have st: "thread_step var a s l = (s, l\<lparr>v_h := w, pc := R_Cur\<rparr>)"
      using p by (simp add: thread_step_def restructure_step_def)
    show "returns var a t \<sigma>"
      by (rule returns_go [OF a _ _ st], simp_all add: p running_def lin_event_def)
         (rule returns_R_Cur [OF _ _ _ Suc.IH], assumption, simp_all add: p w)
  qed
qed

lemma returns_R:
  fixes \<sigma> :: "'k::len word sys"
  assumes a: "alone t \<sigma> s D L l" and p: "pc l \<in> {R_Head, R_Cur, R_Test, R_Walk, R_Step, R_Assert, R_Cas}"
  shows "returns var a t \<sigma>"
proof -
  have hr: "heads_return var a t TYPE('k word) i" for i by (rule heads_return)
  have g: "glob s D L" and m: "marked_src s D L (v_i l) (v_pred l)" using aloneD(1,2) [OF a] p by (auto simp: loc_def)
  have lv: "\<exists>i. v_i l = Suc i" if "pc l \<noteq> R_Head" using aloneD(2) [OF a] p that by (cases "v_i l") (auto simp: loc_def)
  have walk: "returns var a t \<sigma>'" if "alone t \<sigma>' s D L l'" "pc l' = R_Walk" "v_i l' = Suc i" for \<sigma>' :: "'k word sys" and l' i
    using returns_R_Walk [OF that hr] hr by blast
  consider "pc l = R_Head" | "pc l = R_Cur" | "pc l = R_Test" | "pc l = R_Walk" | "pc l = R_Step" | "pc l = R_Assert" | "pc l = R_Cas"
    using p by auto
  then show ?thesis
  proof cases
    case 1
    then show ?thesis using hr [of "v_i l"] a by (auto simp: heads_return_def)
  next
    case 2
    then show ?thesis using returns_R_Cur [OF a _ _ hr] hr lv by auto
  next
    case 3
    then show ?thesis using returns_R_Test [OF a _ _ hr] hr lv by auto
  next
    case 4
    then show ?thesis using walk [OF a] lv by auto
  next
    case 5
    have "src s D L (v_i l) (v_pred l)" using m by (simp add: marked_src_def)
    then obtain w where "rd s (v_pred l) (v_i l) = Some w" by (auto simp: src_def okn_def)
    then have st: "thread_step var a s l = (s, l\<lparr>v_cur := w, pc := R_Walk\<rparr>)"
      using 5 by (simp add: thread_step_def restructure_step_def)
    obtain i where "v_i l = Suc i" using lv 5 by auto
    then show ?thesis
      by (intro returns_go [OF a _ _ st]) (use 5 walk in \<open>auto simp: running_def lin_event_def\<close>)
  next
    case 6
    obtain w where "rd s (v_pred l) 0 = Some w" "is_marked_ref w" using m by (auto simp: marked_src_def)
    then have st: "thread_step var a s l = (s, goto R_Cas l)" using 6 by (simp add: thread_step_def restructure_step_def)
    obtain i where i: "v_i l = Suc i" using lv 6 by auto
    show ?thesis
      by (rule returns_go [OF a _ _ st], simp_all add: 6 running_def lin_event_def goto_def)
         (rule returns_R_Cas [OF _ _ _ hr], assumption, simp_all add: i hr)
  next
    case 7
    then show ?thesis using returns_R_Cas [OF a _ _ hr] hr lv by auto
  qed
qed

section \<open>deletemin\<close>

lemma returns_D_CasH:
  assumes a: "alone t \<sigma> s D L l" and p: "pc l = D_CasH"
  shows "returns var a t \<sigma>"
proof -
  obtain w where w: "rd s (q_head s) 0 = Some w" using glob_sentinels(6) [OF aloneD(1) [OF a]] by (auto simp: okn_def)
  show ?thesis
  proof (cases "w = v_obs_head l")
    case True
    then have st: "thread_step var a s l = (wr s (q_head s) 0 (get_marked_ref (v_newhead l)),
        l\<lparr>v_i := NUM_LEVELS - 1, v_pred := q_head s, pc := R_Head\<rparr>)"
      using p w by (simp add: thread_step_def deletemin_step_def cas_def)
    show ?thesis
      by (rule returns_go [OF a _ _ st]) (use p in \<open>auto simp: running_def lin_event_def intro: returns_R\<close>)
  next
    case False
    then have st: "thread_step var a s l = (s, goto Leave l)"
      using p w by (simp add: thread_step_def deletemin_step_def cas_def)
    show ?thesis
      by (rule returns_go [OF a _ _ st]) (use p in \<open>auto simp: running_def lin_event_def goto_def intro: returns_leave\<close>)
  qed
qed

lemma returns_D_Hd:
  assumes a: "alone t \<sigma> s D L l" and p: "pc l = D_Hd"
  shows "returns var a t \<sigma>"
proof -
  obtain w where w: "rd s (q_head s) 0 = Some w" using glob_sentinels(6) [OF aloneD(1) [OF a]] by (auto simp: okn_def)
  then have st: "thread_step var a s l = (s, goto (if w \<noteq> v_obs_head l then Leave else D_CasH) l)"
    using p by (simp add: thread_step_def deletemin_step_def)
  show ?thesis
    by (rule returns_go [OF a _ _ st])
       (use p in \<open>auto simp: running_def lin_event_def goto_def intro: returns_leave returns_D_CasH split: if_splits\<close>)
qed

lemma returns_D_Val:
  assumes a: "alone t \<sigma> s D L l" and p: "pc l = D_Val"
  shows "returns var a t \<sigma>"
proof -
  have "v_x l \<in> members D L" using aloneD(2) [OF a] p past_obs_member set_D_members by (fastforce simp: loc_def)
  then obtain n where n: "heap s (v_x l) = Some n" by (rule glob_member [OF aloneD(1) [OF a]])
  let ?l = "l\<lparr>v_ret := nval n, v_newhead := (if v_newhead l = 0 then v_x l else v_newhead l),
      pc := (if v_offset l \<le> max_offset s then Leave else D_Hd)\<rparr>"
  have st: "thread_step var a s l = (s, ?l)" using p n by (simp add: thread_step_def deletemin_step_def)
  show ?thesis
    by (rule returns_go [OF a _ _ st])
       (use p in \<open>auto simp: running_def lin_event_def intro: returns_leave returns_D_Hd split: if_splits\<close>)
qed

text \<open>The walk along the deleted nodes; one round of the loop, then the next node.\<close>

lemma returns_D_Fao:
  assumes a: "alone t \<sigma> s D L l" and p: "pc l = D_Fao"
    and go: "\<And>\<sigma>' l'. rd s (v_x l) 0 \<noteq> None \<Longrightarrow> is_marked_ref (the (rd s (v_x l) 0)) \<Longrightarrow> alone t \<sigma>' s D L l' \<Longrightarrow> pc l' = D_Read \<Longrightarrow>
      v_x l' = get_unmarked_ref (the (rd s (v_x l) 0)) \<Longrightarrow> returns var a t \<sigma>'"
  shows "returns var a t \<sigma>"
proof -
  have g: "glob s D L" and x: "v_x l = q_head s \<or> v_x l \<in> members D L"
    using aloneD(1,2) [OF a] p past_obs_member set_D_members by (fastforce simp: loc_def)+
  obtain w where w: "rd s (v_x l) 0 = Some w" "get_unmarked_ref w \<noteq> 0" by (rule next0 [OF g x])
  let ?l = "deletemin_while (l\<lparr>v_nxt := w, nb_collisions := nb_collisions l + (if counts_collisions var \<and> is_marked_ref w then 1 else 0)\<rparr>)"
  have st: "thread_step var a s l = (wr s (v_x l) 0 (get_marked_ref w), ?l)"
    using p w by (simp add: thread_step_def deletemin_step_def fetch_or1_def)
  obtain D' L' where D: "play_opt (D, L) (lin_event s l) = (D', L')" by fastforce
  show ?thesis
  proof (rule returns_step [OF a _ _ st D])
    fix \<sigma>' assume a': "alone t \<sigma>' (wr s (v_x l) 0 (get_marked_ref w)) D' L' ?l"
    show "returns var a t \<sigma>'"
    proof (cases "is_marked_ref w")
      case True
      then have "wr s (v_x l) 0 (get_marked_ref w) = s" using wr_same [OF w(1)] by (simp add: mark_marked)
      moreover have "D' = D" "L' = L" using D True w p by (simp_all add: lin_event_def)
      ultimately have "alone t \<sigma>' s D L ?l" using a' by simp
      then show ?thesis using go w True by (auto simp: deletemin_while_def Let_def)
    next
      case False
      then show ?thesis using returns_D_Val [OF a'] by (simp add: deletemin_while_def Let_def)
    qed
  qed (use p in \<open>simp_all add: running_def\<close>)
qed

lemma returns_D_Read:
  "alone t \<sigma> s D L l \<Longrightarrow> pc l = D_Read \<Longrightarrow> returns var a t \<sigma>"
proof (induction "left_at s D L 0 (v_x l)" arbitrary: \<sigma> l rule: less_induct)
  case less
  note a = less.prems(1) and p = less.prems(2)
  have g: "glob s D L" and x: "v_x l = q_head s \<or> v_x l \<in> members D L"
    using aloneD(1,2) [OF a] p past_obs_member set_D_members by (fastforce simp: loc_def)+
  obtain w where w: "rd s (v_x l) 0 = Some w" "get_unmarked_ref w \<noteq> 0" by (rule next0 [OF g x])
  have "src s D L 0 (v_x l)" using x bottom_defined [OF g x] by (simp add: src_def)
  then have less': "left_at s D L 0 (get_unmarked_ref w) < left_at s D L 0 (v_x l)"
    using left_less [OF g _ _ w(1)] by simp
  have next_round: "returns var a t \<sigma>'" if "alone t \<sigma>' s D L l'" "pc l' = D_Read" "v_x l' = get_unmarked_ref w" for \<sigma>' l'
    using less.hyps [of l' \<sigma>'] that less' by simp
  let ?l = "l\<lparr>v_offset := v_offset l + 1, v_nxt := w, pc := (if get_unmarked_ref w = q_tail s then Leave else D_Ins)\<rparr>"
  have st: "thread_step var a s l = (s, ?l)" using p w by (simp add: thread_step_def deletemin_step_def)
  have D: "play_opt (D, L) (lin_event s l) = (D, L)" using p w by (simp add: lin_event_def)
  show ?case
  proof (rule returns_step [OF a _ _ st D])
    fix \<sigma>' assume a': "alone t \<sigma>' s D L ?l"
    show "returns var a t \<sigma>'"
    proof (cases "get_unmarked_ref w = q_tail s")
      case True
      then show ?thesis using returns_leave [OF a'] by simp
    next
      case False
      obtain n where n: "heap s (v_x l) = Some n"
        using x glob_member [OF g] glob_sentinels(7) [OF g] by (metis option.exhaust)
      let ?l1 = "(if v_newhead l = 0 \<and> ninserting n then ?l\<lparr>v_newhead := v_x l\<rparr> else ?l)"
      let ?l2 = "if is_marked_ref w then deletemin_while ?l1 else goto D_Fao ?l1"
      have st': "thread_step var a s ?l = (s, ?l2)"
        using False n by (simp add: thread_step_def deletemin_step_def Let_def)
      show ?thesis
      proof (rule returns_go [OF a' _ _ st'])
        fix \<sigma>'' assume a'': "alone t \<sigma>'' s D L ?l2"
        show "returns var a t \<sigma>''"
        proof (cases "is_marked_ref w")
          case True
          then show ?thesis using a'' w by (intro next_round [of _ ?l2]) (simp_all add: deletemin_while_def Let_def)
        next
          case False
          show ?thesis
            by (rule returns_D_Fao [OF a'']) (use False w next_round in \<open>simp_all add: goto_def split: if_splits\<close>)
        qed
      qed (use False in \<open>simp_all add: running_def lin_event_def\<close>)
    qed
  qed (use p in \<open>simp_all add: running_def\<close>)
qed

lemma returns_deletemin:
  assumes a: "alone t \<sigma> s D L l" and p: "pc l \<in> {D_Enter, D_Read, D_Ins, D_Fao, D_Val, D_Hd, D_CasH, F_Test, F_Free}"
  shows "returns var a t \<sigma>"
proof -
  have g: "glob s D L" by (rule aloneD(1) [OF a])
  consider "pc l = D_Enter" | "pc l = D_Read" | "pc l = D_Ins" | "pc l = D_Fao" | "pc l \<in> {D_Val, D_Hd, D_CasH, F_Test, F_Free}"
    using p by auto
  then show ?thesis
  proof cases
    case 1
    obtain w where w: "rd s (q_head s) 0 = Some w" using glob_sentinels(6) [OF g] by (auto simp: okn_def)
    let ?l = "l\<lparr>p_count := p_count l + 1, v_ret := 0, v_newhead := 0, v_offset := 0, v_x := q_head s, v_obs_head := w, pc := D_Read\<rparr>"
    have st: "thread_step var a s l = (s, ?l)" using 1 w by (simp add: thread_step_def deletemin_step_def)
    show ?thesis
      by (rule returns_go [OF a _ _ st]) (use 1 in \<open>auto simp: running_def lin_event_def intro: returns_D_Read\<close>)
  next
    case 3
    then have x: "v_x l = q_head s \<or> v_x l \<in> members D L"
      and nx: "is_marked_ref (v_nxt l) \<Longrightarrow> past_obs D l (get_unmarked_ref (v_nxt l))"
      using aloneD(2) [OF a] past_obs_member set_D_members by (fastforce simp: loc_def)+
    obtain n where n: "heap s (v_x l) = Some n"
      using x glob_member [OF g] glob_sentinels(7) [OF g] by (metis option.exhaust)
    let ?l1 = "(if v_newhead l = 0 \<and> ninserting n then l\<lparr>v_newhead := v_x l\<rparr> else l)"
    let ?l2 = "if is_marked_ref (v_nxt l) then deletemin_while ?l1 else goto D_Fao ?l1"
    have st: "thread_step var a s l = (s, ?l2)" using 3 n by (simp add: thread_step_def deletemin_step_def Let_def)
    show ?thesis
    proof (rule returns_go [OF a _ _ st])
      fix \<sigma>' assume a': "alone t \<sigma>' s D L ?l2"
      show "returns var a t \<sigma>'"
      proof (cases "is_marked_ref (v_nxt l)")
        case True
        then have "get_unmarked_ref (v_nxt l) \<noteq> 0" using dead_valid [OF g past_obs_member [OF nx]] by auto
        then show ?thesis using True by (intro returns_D_Read [OF a']) (simp add: deletemin_while_def Let_def)
      next
        case False
        show ?thesis by (rule returns_D_Fao [OF a']) (use False returns_D_Read in \<open>simp_all add: goto_def\<close>)
      qed
    qed (use 3 in \<open>simp_all add: running_def lin_event_def\<close>)
  next
    case 4
    then show ?thesis using returns_D_Fao [OF a] returns_D_Read by blast
  qed (use returns_D_Read [OF a] returns_D_Val [OF a] returns_D_Hd [OF a] returns_D_CasH [OF a] returns_F [OF a] in auto)
qed

end
