(* ===== verification/Linden_Return.thy ===== *)
theory Linden_Return
  imports Linden_Solo Linden_Run
begin

text \<open>
  Obstruction freedom of \<^verbatim>\<open>insert\<close>, and of both operations together. A compare-and-swap can fail at most once for
  a thread that runs alone: what it locates afterwards is what it finds when it links its node.
\<close>

section \<open>locate\_preds\<close>

definition found_now :: "'a shared \<Rightarrow> 'a thr \<Rightarrow> nat \<Rightarrow> bool" where
  "found_now s l i \<longleftrightarrow> rd s (v_preds l ! i) i = Some (v_succs l ! i)"

lemma returns_locate:
  assumes "alone t \<sigma> s D L l" and "pc l = L_Read" and "now \<Longrightarrow> \<forall>j. v_i l < j \<and> j < NUM_LEVELS \<longrightarrow> found_now s l j"
    and go: "\<And>\<sigma>' l'. alone t \<sigma>' s D L l' \<Longrightarrow> pc l' = (if v_relocate l then I_Re else I_Dup1) \<Longrightarrow>
      (now \<Longrightarrow> \<forall>j < NUM_LEVELS. found_now s l' j) \<Longrightarrow> returns var a t \<sigma>'"
  shows "returns var a t \<sigma>"
  using assms
proof (induction "(v_i l, left_at s D L (v_i l) (v_x l))" arbitrary: \<sigma> l rule: wf_induct_rule [OF wf_lex_prod [OF wf_less_than wf_less_than]])
  case (1 l \<sigma>)
  note a = "1.prems"(1) and p = "1.prems"(2) and now = "1.prems"(3) and go = "1.prems"(4)
  have g: "glob s D L" by (rule aloneD(1) [OF a])
  have x: "src s D L (v_i l) (v_x l)" and c: "ins_ctx l" and i: "v_i l < NUM_LEVELS" using aloneD(2) [OF a] p by (simp_all add: loc_def)
  obtain w where w: "rd s (v_x l) (v_i l) = Some w" "get_unmarked_ref w \<noteq> 0" by (rule read_next [OF g x])
  let ?l = "l\<lparr>v_x_next := get_unmarked_ref w, v_d := is_marked_ref w, pc := L_Test\<rparr>"
  have st: "thread_step var a s l = (s, ?l)" using p w by (simp add: thread_step_def locate_step_def)
  have less: "left_at s D L (v_i l) (get_unmarked_ref w) < left_at s D L (v_i l) (v_x l)"
    by (rule left_less [OF g aloneD(3) [OF a] x w(1)])
  show ?case
  proof (rule returns_go [OF a _ _ st])
    fix \<sigma>' assume a': "alone t \<sigma>' s D L ?l"
    have d: "dst s D L (v_i ?l) (v_x_next ?l)" "v_i ?l = 0 \<and> v_d ?l \<longrightarrow> v_x_next ?l \<in> set D"
      using aloneD(2) [OF a'] by (simp_all add: loc_def)
    have k: "v_k ?l < tail_key" using c by (simp add: ins_ctx_def)
    show "returns var a t \<sigma>'"
      using locate_cond_defined [OF g d(1) k d(2) refl]
    proof (elim disjE conjE)
      assume lc: "locate_cond s ?l = Some True"
      let ?l1 = "?l\<lparr>v_del := (if v_i l = 0 \<and> v_d ?l then v_x_next ?l else v_del ?l), v_x := v_x_next ?l, pc := L_Read\<rparr>"
      have st': "thread_step var a s ?l = (s, ?l1)" using lc by (simp add: thread_step_def locate_step_def)
      show ?thesis
      proof (rule returns_go [OF a' _ _ st'])
        fix \<sigma>'' assume a'': "alone t \<sigma>'' s D L ?l1"
        show "returns var a t \<sigma>''"
          by (rule "1.hyps" [OF _ a'']) (use less now go in \<open>simp_all add: found_now_def\<close>)
      qed (simp_all add: running_def lin_event_def)
    next
      assume lc: "locate_cond s ?l = Some False"
      let ?l1 = "?l\<lparr>v_preds := (v_preds l)[v_i l := v_x l], v_succs := (v_succs l)[v_i l := get_unmarked_ref w]\<rparr>"
      let ?l2 = "if v_i l = 0 then goto (if v_relocate l then I_Re else I_Dup1) ?l1 else ?l1\<lparr>v_i := v_i l - 1, pc := L_Read\<rparr>"
      have st': "thread_step var a s ?l = (s, ?l2)" using lc by (simp add: thread_step_def locate_step_def Let_def)
      have len: "length (v_preds l) = NUM_LEVELS" "length (v_succs l) = NUM_LEVELS" using c by (simp_all add: ins_ctx_def)
      have un: "\<not> is_marked_ref w"
      proof (cases "v_i l = 0")
        case True
        obtain n w' where "heap s (get_unmarked_ref w) = Some n" "\<not> nkey n < v_k l" "rd s (get_unmarked_ref w) 0 = Some w'"
          "\<not> (is_marked_ref w' \<or> is_marked_ref w)"
          using lc True by (auto simp: locate_cond_def split: option.splits if_splits)
        then show ?thesis by simp
      next
        case False
        then show ?thesis using next_up [OF g x] w(1) by (metis One_nat_def Suc_leI neq0_conv option.inject)
      qed
      have here: "found_now s ?l1 j" if "now" "v_i l \<le> j" "j < NUM_LEVELS" for j
        using that now w(1) un len by (cases "j = v_i l") (simp_all add: found_now_def unmarked_id)
      show ?thesis
      proof (rule returns_go [OF a' _ _ st'])
        fix \<sigma>'' assume a'': "alone t \<sigma>'' s D L ?l2"
        show "returns var a t \<sigma>''"
        proof (cases "v_i l = 0")
          case True
          then show ?thesis
            using here by (intro go [OF a'']) (auto simp: goto_def found_now_def)
        next
          case False
          then have a3: "alone t \<sigma>'' s D L (?l1\<lparr>v_i := v_i l - 1, pc := L_Read\<rparr>)" using a'' by simp
          show ?thesis
            by (rule "1.hyps" [OF _ a3]) (use False here go in \<open>auto simp: found_now_def\<close>)
        qed
      qed (simp_all add: running_def lin_event_def)
    qed
  qed (use p in \<open>simp_all add: running_def lin_event_def\<close>)
qed

text \<open>A thread in the middle of \<^verbatim>\<open>locate_preds\<close> comes to its end; one that starts finds what is there now.\<close>

lemma returns_locate_mid:
  assumes a: "alone t \<sigma> s D L l" and p: "pc l = L_Read \<or> pc l = L_Test"
    and go: "\<And>\<sigma>' l'. alone t \<sigma>' s D L l' \<Longrightarrow> pc l' = (if v_relocate l then I_Re else I_Dup1) \<Longrightarrow> returns var a t \<sigma>'"
  shows "returns var a t \<sigma>"
  using p
proof
  assume "pc l = L_Read"
  then show ?thesis by (rule returns_locate [OF a, where now = False]) (use go in auto)
next
  assume p: "pc l = L_Test"
  have d: "dst s D L (v_i l) (v_x_next l)" "v_i l = 0 \<and> v_d l \<longrightarrow> v_x_next l \<in> set D" and k: "v_k l < tail_key"
    using aloneD(2) [OF a] p by (simp_all add: loc_def ins_ctx_def)
  have st: "thread_step var a s l = (s, locate_step s l)" using p by (simp add: thread_step_def)
  show ?thesis
  proof (rule returns_go [OF a _ _ st])
    fix \<sigma>' assume a': "alone t \<sigma>' s D L (locate_step s l)"
    have "pc (locate_step s l) = L_Read \<and> v_relocate (locate_step s l) = v_relocate l \<or> pc (locate_step s l) = (if v_relocate l then I_Re else I_Dup1)"
      using locate_cond_defined [OF aloneD(1) [OF a] d(1) k d(2) refl] p
      by (cases "v_i l = 0") (auto simp: locate_step_def goto_def Let_def)
    then show "returns var a t \<sigma>'"
      using returns_locate [OF a', where now = False] go [OF a'] go by fastforce
  qed (use p in \<open>simp_all add: running_def lin_event_def\<close>)
qed

lemma returns_locate_start:
  assumes a: "alone t \<sigma> s D L (start_locate s again l)"
    and go: "\<And>\<sigma>' l'. alone t \<sigma>' s D L l' \<Longrightarrow> pc l' = (if again then I_Re else I_Dup1) \<Longrightarrow>
      \<forall>j < NUM_LEVELS. found_now s l' j \<Longrightarrow> returns var a t \<sigma>'"
  shows "returns var a t \<sigma>"
  by (rule returns_locate [OF a, where now = True]) (use go in \<open>auto simp: start_locate_def\<close>)


section \<open>The higher levels of insert\<close>

lemma returns_I_Fin:
  assumes a: "alone t \<sigma> s D L l" and p: "pc l = I_Fin"
  shows "returns var a t \<sigma>"
proof -
  have st: "thread_step var a s l = (set_inserting s (v_new l) False, l\<lparr>v_ok := True, pc := Leave\<rparr>)"
    using p by (simp add: thread_step_def insert_step_def)
  show ?thesis
    by (rule returns_go [OF a _ _ st]) (use p in \<open>auto simp: running_def lin_event_def intro: returns_leave\<close>)
qed

text \<open>
  The loop over the levels, when the pointers that were found are those in memory, or when a thread that starts
  \<^verbatim>\<open>locate_preds\<close> again returns (\<open>again\<close>).
\<close>

definition ready :: "bool \<Rightarrow> 'a shared \<Rightarrow> 'a thr \<Rightarrow> bool" where
  "ready again s l \<longleftrightarrow> again \<or> (\<forall>j. v_ii l \<le> j \<and> j < NUM_LEVELS \<longrightarrow> found_now s l j)"

definition relocates :: "variant \<Rightarrow> ptr \<Rightarrow> nat \<Rightarrow> 'k::len word itself \<Rightarrow> bool \<Rightarrow> bool" where
  "relocates var a t T b \<longleftrightarrow>
     (\<forall>(\<sigma> :: 'k word sys) s D L l. alone t \<sigma> s D L (start_locate s b l) \<longrightarrow> returns var a t \<sigma>)"

lemma returns_I_CasI:
  fixes \<sigma> :: "'k::len word sys"
  assumes a: "alone t \<sigma> s D L l" and p: "pc l = I_CasI" and r: "ready again s l"
    and re: "again \<Longrightarrow> relocates var a t TYPE('k word) True"
    and go: "\<And>\<sigma>' s' l'. alone t \<sigma>' s' D L l' \<Longrightarrow> pc l' = I_Loop \<Longrightarrow> v_ii l' = Suc (v_ii l) \<Longrightarrow> v_ii l < NUM_LEVELS \<Longrightarrow>
      ready again s' l' \<Longrightarrow> returns var a t \<sigma>'"
  shows "returns var a t \<sigma>"
proof -
  have g: "glob s D L" by (rule aloneD(1) [OF a])
  have m: "v_new l \<in> members D L" and al: "all_located s D L l" and ok: "okn s (v_ii l) (v_new l)"
    using aloneD(2) [OF a] p by (simp_all add: loc_def pub_node_def)
  obtain n where "heap s (v_new l) = Some n" "nlevel n = length (nnext n)" "nlevel n \<le> NUM_LEVELS" using glob_member [OF g m] by metis
  then have ii: "v_ii l < NUM_LEVELS" using ok by (auto simp: okn_def rd_def dest!: spec [of _ "v_ii l"] split: if_splits)
  then have "src s D L (v_ii l) (v_preds l ! v_ii l)" using al by (simp add: all_located_def located_def)
  then obtain w where w: "rd s (v_preds l ! v_ii l) (v_ii l) = Some w" by (auto simp: src_def okn_def)
  show ?thesis
  proof (cases "w = v_succs l ! v_ii l")
    case True
    let ?s = "wr s (v_preds l ! v_ii l) (v_ii l) (v_new l)" and ?l = "l\<lparr>v_ii := v_ii l + 1, pc := I_Loop\<rparr>"
    have st: "thread_step var a s l = (?s, ?l)" using p w True by (simp add: thread_step_def insert_step_def cas_def)
    show ?thesis
    proof (rule returns_go [OF a _ _ st])
      fix \<sigma>' assume a': "alone t \<sigma>' ?s D L ?l"
      show "returns var a t \<sigma>'"
        by (rule go [OF a']) (use ii r in \<open>auto simp: ready_def found_now_def rd_wr\<close>)
    qed (use p in \<open>simp_all add: running_def lin_event_def\<close>)
  next
    case False
    then have "again" using r ii w by (auto simp: ready_def found_now_def)
    have st: "thread_step var a s l = (s, start_locate s True l)" using p w False by (simp add: thread_step_def insert_step_def cas_def)
    have "relocates var a t TYPE('k word) True" by (rule re [OF \<open>again\<close>])
    then have go': "alone t \<sigma>' s D L (start_locate s True l) \<Longrightarrow> returns var a t \<sigma>'" for \<sigma>' :: "'k word sys"
      unfolding relocates_def by blast
    show ?thesis
    proof (rule returns_go [OF a _ _ st])
      fix \<sigma>' assume "alone t \<sigma>' s D L (start_locate s True l)"
      then show "returns var a t \<sigma>'" by (rule go')
    qed (use p in \<open>simp_all add: running_def lin_event_def\<close>)
  qed
qed

lemma returns_I_LinkI:
  fixes \<sigma> :: "'k::len word sys"
  assumes a: "alone t \<sigma> s D L l" and p: "pc l = I_LinkI" and r: "ready again s l"
    and re: "again \<Longrightarrow> relocates var a t TYPE('k word) True"
    and go: "\<And>\<sigma>' s' l'. alone t \<sigma>' s' D L l' \<Longrightarrow> pc l' = I_Loop \<Longrightarrow> v_ii l' = Suc (v_ii l) \<Longrightarrow> v_ii l < NUM_LEVELS \<Longrightarrow>
      ready again s' l' \<Longrightarrow> returns var a t \<sigma>'"
  shows "returns var a t \<sigma>"
proof -
  let ?s = "wr s (v_new l) (v_ii l) (v_succs l ! v_ii l)"
  have st: "thread_step var a s l = (?s, goto I_CasI l)" using p by (simp add: thread_step_def insert_step_def)
  have k: "linking l" using p by (simp add: linking_def)
  have np: "v_preds l ! j \<noteq> v_new l" if "v_ii l \<le> j" "j < NUM_LEVELS" for j
    using aloneD(5) [OF a k that(1)] that p by (auto simp: held_def found_def)
  show ?thesis
  proof (rule returns_go [OF a _ _ st])
    fix \<sigma>' assume a': "alone t \<sigma>' ?s D L (goto I_CasI l)"
    show "returns var a t \<sigma>'"
      by (rule returns_I_CasI [OF a' _ _ re]) (use r np go in \<open>auto simp: ready_def found_now_def goto_def rd_wr\<close>)
  qed (use p in \<open>simp_all add: running_def lin_event_def\<close>)
qed

lemma returns_I_Chk2:
  fixes \<sigma> :: "'k::len word sys"
  assumes a: "alone t \<sigma> s D L l" and p: "pc l = I_Chk2" and r: "ready again s l"
    and re: "again \<Longrightarrow> relocates var a t TYPE('k word) True"
    and go: "\<And>\<sigma>' s' l'. alone t \<sigma>' s' D L l' \<Longrightarrow> pc l' = I_Loop \<Longrightarrow> v_ii l' = Suc (v_ii l) \<Longrightarrow> v_ii l < NUM_LEVELS \<Longrightarrow>
      ready again s' l' \<Longrightarrow> returns var a t \<sigma>'"
  shows "returns var a t \<sigma>"
proof -
  have g: "glob s D L" by (rule aloneD(1) [OF a])
  have m: "v_new l \<in> members D L" and al: "all_located s D L l" and ok: "rd s (v_new l) (v_ii l) \<noteq> None"
    using aloneD(2) [OF a] p by (simp_all add: loc_def pub_node_def)
  obtain n where "heap s (v_new l) = Some n" "nlevel n = length (nnext n)" "nlevel n \<le> NUM_LEVELS" using glob_member [OF g m] by metis
  then have "v_ii l < NUM_LEVELS" using ok by (auto simp: rd_def split: if_splits)
  then have "dst s D L (v_ii l) (v_succs l ! v_ii l)" using al by (simp add: all_located_def located_def)
  then obtain w where w: "rd s (v_succs l ! v_ii l) 0 = Some w" by (rule dst_bottom [OF g])
  let ?q = "if is_marked_ref w \<or> v_del l = v_succs l ! v_ii l then I_Fin else I_LinkI"
  have st: "thread_step var a s l = (s, goto ?q l)" using p w by (simp add: thread_step_def insert_step_def)
  show ?thesis
  proof (rule returns_go [OF a _ _ st])
    fix \<sigma>' assume a': "alone t \<sigma>' s D L (goto ?q l)"
    show "returns var a t \<sigma>'"
    proof (cases "?q = I_Fin")
      case True
      then show ?thesis using returns_I_Fin [OF a'] by (simp add: goto_def)
    next
      case False
      then have q: "?q = I_LinkI" by (simp split: if_splits)
      show ?thesis
        by (rule returns_I_LinkI [OF a' _ _ re]) (use q r go in \<open>auto simp: ready_def found_now_def goto_def\<close>)
    qed
  qed (use p in \<open>simp_all add: running_def lin_event_def\<close>)
qed

lemma returns_I_Chk1:
  fixes \<sigma> :: "'k::len word sys"
  assumes a: "alone t \<sigma> s D L l" and p: "pc l = I_Chk1" and r: "ready again s l"
    and re: "again \<Longrightarrow> relocates var a t TYPE('k word) True"
    and go: "\<And>\<sigma>' s' l'. alone t \<sigma>' s' D L l' \<Longrightarrow> pc l' = I_Loop \<Longrightarrow> v_ii l' = Suc (v_ii l) \<Longrightarrow> v_ii l < NUM_LEVELS \<Longrightarrow>
      ready again s' l' \<Longrightarrow> returns var a t \<sigma>'"
  shows "returns var a t \<sigma>"
proof -
  have m: "v_new l \<in> members D L" using aloneD(2) [OF a] p by (simp add: loc_def pub_node_def)
  then obtain w where w: "rd s (v_new l) 0 = Some w"
    using bottom_defined [OF aloneD(1) [OF a], of "v_new l"] by (auto simp: okn_def)
  let ?q = "if is_marked_ref w then I_Fin else I_Chk2"
  have st: "thread_step var a s l = (s, goto ?q l)" using p w by (simp add: thread_step_def insert_step_def)
  show ?thesis
  proof (rule returns_go [OF a _ _ st])
    fix \<sigma>' assume a': "alone t \<sigma>' s D L (goto ?q l)"
    show "returns var a t \<sigma>'"
    proof (cases "is_marked_ref w")
      case True
      then show ?thesis using returns_I_Fin [OF a'] by (simp add: goto_def)
    next
      case False
      show ?thesis
        by (rule returns_I_Chk2 [OF a' _ _ re]) (use False r go in \<open>auto simp: ready_def found_now_def goto_def\<close>)
    qed
  qed (use p in \<open>simp_all add: running_def lin_event_def\<close>)
qed

lemma returns_I_Loop:
  fixes \<sigma> :: "'k::len word sys"
  assumes "alone t \<sigma> s D L l" and "pc l = I_Loop" and "ready again s l"
    and re: "again \<Longrightarrow> relocates var a t TYPE('k word) True"
  shows "returns var a t \<sigma>"
  using assms(1-3)
proof (induction "NUM_LEVELS - v_ii l" arbitrary: \<sigma> s l rule: less_induct)
  case less
  note a = less.prems(1) and p = less.prems(2) and r = less.prems(3)
  have "v_new l \<in> members D L" using aloneD(2) [OF a] p by (simp add: loc_def pub_node_def)
  then obtain n where n: "heap s (v_new l) = Some n" by (rule glob_member [OF aloneD(1) [OF a]])
  let ?q = "if v_ii l < nlevel n then I_Chk1 else I_Fin"
  have st: "thread_step var a s l = (s, goto ?q l)" using p n by (simp add: thread_step_def insert_step_def)
  show ?case
  proof (rule returns_go [OF a _ _ st])
    fix \<sigma>' assume a': "alone t \<sigma>' s D L (goto ?q l)"
    show "returns var a t \<sigma>'"
    proof (cases "v_ii l < nlevel n")
      case False
      then show ?thesis using returns_I_Fin [OF a'] by (simp add: goto_def)
    next
      case True
      show ?thesis
      proof (rule returns_I_Chk1 [OF a' _ _ re])
        fix \<sigma>'' s'' l'' assume "alone t \<sigma>'' s'' D L l''" "pc l'' = I_Loop" "v_ii l'' = Suc (v_ii (goto ?q l))"
          "v_ii (goto ?q l) < NUM_LEVELS" "ready again s'' l''"
        then show "returns var a t \<sigma>''" by (intro less.hyps [of l'' \<sigma>'' s'']) (simp_all add: goto_def)
      qed (use True r in \<open>auto simp: ready_def found_now_def goto_def\<close>)
    qed
  qed (use p in \<open>simp_all add: running_def lin_event_def\<close>)
qed

lemma returns_I_Re:
  fixes \<sigma> :: "'k::len word sys"
  assumes a: "alone t \<sigma> s D L l" and p: "pc l = I_Re" and r: "ready again s l"
    and re: "again \<Longrightarrow> relocates var a t TYPE('k word) True"
  shows "returns var a t \<sigma>"
proof -
  let ?q = "if v_succs l ! 0 \<noteq> v_new l then I_Fin else I_Loop"
  have st: "thread_step var a s l = (s, goto ?q l)" using p by (simp add: thread_step_def insert_step_def)
  show ?thesis
  proof (rule returns_go [OF a _ _ st])
    fix \<sigma>' assume a': "alone t \<sigma>' s D L (goto ?q l)"
    show "returns var a t \<sigma>'"
    proof (cases "v_succs l ! 0 \<noteq> v_new l")
      case True
      then show ?thesis using returns_I_Fin [OF a'] by (simp add: goto_def)
    next
      case False
      show ?thesis
        by (rule returns_I_Loop [OF a' _ _ re]) (use False r in \<open>auto simp: ready_def found_now_def goto_def\<close>)
    qed
  qed (use p in \<open>simp_all add: running_def lin_event_def\<close>)
qed

lemma relocates_again: "relocates var a t TYPE('k::len word) True"
  unfolding relocates_def
proof (intro allI impI)
  fix \<sigma> :: "'k word sys" and s D L l assume a: "alone t \<sigma> s D L (start_locate s True l)"
  show "returns var a t \<sigma>"
    by (rule returns_locate_start [OF a]) (rule returns_I_Re [where again = False], auto simp: ready_def)
qed

lemma returns_upper:
  fixes \<sigma> :: "'k::len word sys"
  assumes a: "alone t \<sigma> s D L l" and p: "pc l \<in> {I_Loop, I_Chk1, I_Chk2, I_LinkI, I_CasI, I_Re, I_Fin}"
  shows "returns var a t \<sigma>"
proof -
  have r: "ready True s l" for s :: "'k word shared" and l by (simp add: ready_def)
  note re = relocates_again [where 'k = 'k, of var a t]
  have go: "returns var a t \<sigma>'" if "alone t \<sigma>' s' D L l'" "pc l' = I_Loop" for \<sigma>' :: "'k word sys" and s' l'
    by (rule returns_I_Loop [OF that r re])
  from p consider "pc l = I_Loop" | "pc l = I_Chk1" | "pc l = I_Chk2" | "pc l = I_LinkI" | "pc l = I_CasI" | "pc l = I_Re" | "pc l = I_Fin"
    by auto
  then show ?thesis
  proof cases
    case 1
    then show ?thesis by (rule go [OF a])
  next
    case 2
    then show ?thesis by (rule returns_I_Chk1 [OF a _ r re]) (rule go)
  next
    case 3
    then show ?thesis by (rule returns_I_Chk2 [OF a _ r re]) (rule go)
  next
    case 4
    then show ?thesis by (rule returns_I_LinkI [OF a _ r re]) (rule go)
  next
    case 5
    then show ?thesis by (rule returns_I_CasI [OF a _ r re]) (rule go)
  next
    case 6
    then show ?thesis by (rule returns_I_Re [OF a _ r re])
  next
    case 7
    then show ?thesis by (rule returns_I_Fin [OF a])
  qed
qed

section \<open>The bottom level of insert\<close>

definition sure :: "bool \<Rightarrow> 'a shared \<Rightarrow> 'a thr \<Rightarrow> bool" where
  "sure again s l \<longleftrightarrow> again \<or> found_now s l 0"

lemma priv_pred:
  assumes "priv_node s D L l" "all_located s D L l"
  obtains w where "rd s (v_preds l ! 0) 0 = Some w" "v_preds l ! 0 \<noteq> v_new l"
proof -
  have s: "src s D L 0 (v_preds l ! 0)" using assms(2) by (simp add: all_located_def located_def NUM_LEVELS_def)
  then have "v_preds l ! 0 \<noteq> v_new l" using src_place [OF s] assms(1) by (auto simp: priv_node_def)
  then show thesis using s that by (auto simp: src_def okn_def)
qed

lemma returns_I_Cas0:
  fixes \<sigma> :: "'k::len word sys"
  assumes a: "alone t \<sigma> s D L l" and p: "pc l = I_Cas0" and r: "sure again s l"
    and re: "again \<Longrightarrow> relocates var a t TYPE('k word) False"
  shows "returns var a t \<sigma>"
proof -
  obtain w where w: "rd s (v_preds l ! 0) 0 = Some w"
    using aloneD(2) [OF a] p by (auto simp: loc_def elim: priv_pred)
  obtain D' L' where D: "play_opt (D, L) (lin_event s l) = (D', L')" by fastforce
  show ?thesis
  proof (cases "w = v_succs l ! 0")
    case True
    then have st: "thread_step var a s l = (wr s (v_preds l ! 0) 0 (v_new l), l\<lparr>v_ii := 1, pc := I_Loop\<rparr>)"
      using p w by (simp add: thread_step_def insert_step_def cas_def)
    show ?thesis
      by (rule returns_step [OF a _ _ st D]) (use p in \<open>auto simp: running_def intro: returns_upper\<close>)
  next
    case False
    then have "again" using r w by (simp add: sure_def found_now_def)
    then have go: "alone t \<sigma>' s D L (start_locate s False l) \<Longrightarrow> returns var a t \<sigma>'" for \<sigma>' :: "'k word sys"
      using re unfolding relocates_def by blast
    have st: "thread_step var a s l = (s, start_locate s False l)"
      using p w False by (simp add: thread_step_def insert_step_def cas_def)
    show ?thesis
    proof (rule returns_go [OF a _ _ st])
      fix \<sigma>' assume "alone t \<sigma>' s D L (start_locate s False l)"
      then show "returns var a t \<sigma>'" by (rule go)
    qed (use p w False in \<open>simp_all add: running_def lin_event_def\<close>)
  qed
qed

lemma returns_I_Link0:
  fixes \<sigma> :: "'k::len word sys"
  assumes a: "alone t \<sigma> s D L l" and p: "pc l = I_Link0" and r: "sure again s l"
    and re: "again \<Longrightarrow> relocates var a t TYPE('k word) False"
  shows "returns var a t \<sigma>"
proof -
  let ?s = "wr s (v_new l) 0 (v_succs l ! 0)"
  have n: "v_preds l ! 0 \<noteq> v_new l"
    using aloneD(2) [OF a] p by (auto simp: loc_def elim: priv_pred)
  have st: "thread_step var a s l = (?s, goto I_Cas0 l)" using p by (simp add: thread_step_def insert_step_def)
  show ?thesis
  proof (rule returns_go [OF a _ _ st])
    fix \<sigma>' assume a': "alone t \<sigma>' ?s D L (goto I_Cas0 l)"
    show "returns var a t \<sigma>'"
      by (rule returns_I_Cas0 [OF a' _ _ re]) (use r n in \<open>auto simp: sure_def found_now_def goto_def rd_wr\<close>)
  qed (use p in \<open>simp_all add: running_def lin_event_def\<close>)
qed

lemma returns_I_Dup3:
  fixes \<sigma> :: "'k::len word sys"
  assumes a: "alone t \<sigma> s D L l" and p: "pc l = I_Dup3" and r: "sure again s l"
    and re: "again \<Longrightarrow> relocates var a t TYPE('k word) False"
  shows "returns var a t \<sigma>"
proof -
  obtain w where w: "rd s (v_preds l ! 0) 0 = Some w"
    using aloneD(2) [OF a] p by (auto simp: loc_def elim: priv_pred)
  obtain D' L' where D: "play_opt (D, L) (lin_event s l) = (D', L')" by fastforce
  show ?thesis
  proof (cases "w = v_succs l ! 0")
    case True
    let ?s = "(set_inserting s (v_new l) False)\<lparr>garbage := garbage s @ [v_new l]\<rparr>"
      and ?l = "l\<lparr>v_ok := False, pc := (if dup_leaves var then Leave else Returned)\<rparr>"
    have st: "thread_step var a s l = (?s, ?l)"
      using p w True by (simp add: thread_step_def insert_step_def)
    show ?thesis
      by (rule returns_step [OF a _ _ st D])
         (use p in \<open>auto simp: running_def intro: returns_leave returns_returned split: if_splits\<close>)
  next
    case False
    then have st: "thread_step var a s l = (s, goto I_Link0 l)"
      using p w by (simp add: thread_step_def insert_step_def)
    show ?thesis
    proof (rule returns_go [OF a _ _ st])
      fix \<sigma>' assume a': "alone t \<sigma>' s D L (goto I_Link0 l)"
      show "returns var a t \<sigma>'"
        by (rule returns_I_Link0 [OF a' _ _ re]) (use r in \<open>auto simp: sure_def found_now_def goto_def\<close>)
    qed (use p w False in \<open>simp_all add: running_def lin_event_def\<close>)
  qed
qed

lemma returns_I_Dup2:
  fixes \<sigma> :: "'k::len word sys"
  assumes a: "alone t \<sigma> s D L l" and p: "pc l = I_Dup2" and r: "sure again s l"
    and re: "again \<Longrightarrow> relocates var a t TYPE('k word) False"
  shows "returns var a t \<sigma>"
proof -
  obtain w where w: "rd s (v_preds l ! 0) 0 = Some w"
    using aloneD(2) [OF a] p by (auto simp: loc_def elim: priv_pred)
  let ?q = "if is_marked_ref w then I_Link0 else I_Dup3"
  have st: "thread_step var a s l = (s, goto ?q l)" using p w by (simp add: thread_step_def insert_step_def)
  have r': "sure again s (goto ?q l)" using r by (simp add: sure_def found_now_def goto_def)
  show ?thesis
  proof (rule returns_go [OF a _ _ st])
    fix \<sigma>' assume a': "alone t \<sigma>' s D L (goto ?q l)"
    show "returns var a t \<sigma>'"
    proof (cases "is_marked_ref w")
      case True
      show ?thesis by (rule returns_I_Link0 [OF a' _ r' re]) (use True in \<open>simp_all add: goto_def\<close>)
    next
      case False
      show ?thesis by (rule returns_I_Dup3 [OF a' _ r' re]) (use False in \<open>simp_all add: goto_def\<close>)
    qed
  qed (use p in \<open>simp_all add: running_def lin_event_def\<close>)
qed

lemma returns_I_Dup1:
  fixes \<sigma> :: "'k::len word sys"
  assumes a: "alone t \<sigma> s D L l" and p: "pc l = I_Dup1" and r: "sure again s l"
    and re: "again \<Longrightarrow> relocates var a t TYPE('k word) False"
  shows "returns var a t \<sigma>"
proof -
  have "dst s D L 0 (v_succs l ! 0)"
    using aloneD(2) [OF a] p by (simp add: loc_def all_located_def located_def NUM_LEVELS_def)
  then obtain w where "rd s (v_succs l ! 0) 0 = Some w" by (rule dst_bottom [OF aloneD(1) [OF a]])
  then obtain n where n: "heap s (v_succs l ! 0) = Some n" by (auto simp: rd_Some_iff)
  let ?q = "if nkey n = v_k l then I_Dup2 else I_Link0"
  have st: "thread_step var a s l = (s, goto ?q l)" using p n by (simp add: thread_step_def insert_step_def)
  have r': "sure again s (goto ?q l)" using r by (simp add: sure_def found_now_def goto_def)
  show ?thesis
  proof (rule returns_go [OF a _ _ st])
    fix \<sigma>' assume a': "alone t \<sigma>' s D L (goto ?q l)"
    show "returns var a t \<sigma>'"
    proof (cases "nkey n = v_k l")
      case True
      show ?thesis by (rule returns_I_Dup2 [OF a' _ r' re]) (use True in \<open>simp_all add: goto_def\<close>)
    next
      case False
      show ?thesis by (rule returns_I_Link0 [OF a' _ r' re]) (use False in \<open>simp_all add: goto_def\<close>)
    qed
  qed (use p in \<open>simp_all add: running_def lin_event_def\<close>)
qed

lemma relocates_first: "relocates var a t TYPE('k::len word) False"
  unfolding relocates_def
proof (intro allI impI)
  fix \<sigma> :: "'k word sys" and s D L l assume a: "alone t \<sigma> s D L (start_locate s False l)"
  show "returns var a t \<sigma>"
    by (rule returns_locate_start [OF a])
       (rule returns_I_Dup1 [where again = False], auto simp: sure_def NUM_LEVELS_def)
qed

lemma returns_lower:
  fixes \<sigma> :: "'k::len word sys"
  assumes a: "alone t \<sigma> s D L l" and p: "pc l \<in> {I_Dup1, I_Dup2, I_Dup3, I_Link0, I_Cas0}"
  shows "returns var a t \<sigma>"
proof -
  have r: "sure True s l" by (simp add: sure_def)
  note re = relocates_first [where 'k = 'k, of var a t]
  from p consider "pc l = I_Dup1" | "pc l = I_Dup2" | "pc l = I_Dup3" | "pc l = I_Link0" | "pc l = I_Cas0" by auto
  then show ?thesis
  proof cases
    case 1
    then show ?thesis by (rule returns_I_Dup1 [OF a _ r re])
  next
    case 2
    then show ?thesis by (rule returns_I_Dup2 [OF a _ r re])
  next
    case 3
    then show ?thesis by (rule returns_I_Dup3 [OF a _ r re])
  next
    case 4
    then show ?thesis by (rule returns_I_Link0 [OF a _ r re])
  next
    case 5
    then show ?thesis by (rule returns_I_Cas0 [OF a _ r re])
  qed
qed

lemma returns_I_Enter:
  fixes \<sigma> :: "'k::len word sys"
  assumes a: "alone t \<sigma> s D L l" and p: "pc l = I_Enter" and f: "fresh_addr s a"
  shows "returns var a t \<sigma>"
proof -
  let ?s = "s\<lparr>heap := (heap s)(a \<mapsto> alloc_node (p_rand l) (v_k l) (v_v l))\<rparr>"
    and ?l = "start_locate s False (l\<lparr>p_count := p_count l + 1, p_rand := next_rand (p_rand l), v_new := a\<rparr>)"
  have "insert_assert (v_k l)" using aloneD(2) [OF a] p by (simp add: loc_def)
  then have st: "thread_step var a s l = (?s, ?l)" using p by (simp add: thread_step_def insert_step_def)
  have D: "play_opt (D, L) (lin_event s l) = (D, L)" using p by (simp add: lin_event_def)
  have eq: "?l = start_locate ?s False (l\<lparr>p_count := p_count l + 1, p_rand := next_rand (p_rand l), v_new := a\<rparr>)"
    by (simp add: start_locate_def)
  show ?thesis
  proof (rule returns_step [OF a _ _ st D])
    fix \<sigma>' assume "alone t \<sigma>' ?s D L ?l"
    then show "returns var a t \<sigma>'" unfolding eq using relocates_first unfolding relocates_def by blast
  qed (use p f in \<open>simp_all add: running_def\<close>)
qed

section \<open>Both operations\<close>

lemma returns_alone:
  fixes \<sigma> :: "'k::len word sys"
  assumes a: "alone t \<sigma> s D L l" and r: "running (pc l)" and f: "pc l = I_Enter \<Longrightarrow> fresh_addr s a"
  shows "returns var a t \<sigma>"
proof -
  consider "pc l = I_Enter" | "pc l = Leave" | "pc l = L_Read \<or> pc l = L_Test" | "pc l \<in> {I_Dup1, I_Dup2, I_Dup3, I_Link0, I_Cas0}"
    | "pc l \<in> {I_Loop, I_Chk1, I_Chk2, I_LinkI, I_CasI, I_Re, I_Fin}"
    | "pc l \<in> {R_Head, R_Cur, R_Test, R_Walk, R_Step, R_Assert, R_Cas}"
    | "pc l \<in> {D_Enter, D_Read, D_Ins, D_Fao, D_Val, D_Hd, D_CasH, F_Test, F_Free}"
    using r by (cases "pc l") (simp_all add: running_def)
  then show ?thesis
  proof cases
    case 1
    then show ?thesis using returns_I_Enter [OF a] f by blast
  next
    case 2
    then show ?thesis by (rule returns_leave [OF a])
  next
    case 3
    then show ?thesis
    proof (rule returns_locate_mid [OF a])
      fix \<sigma>' l' assume a': "alone t \<sigma>' s D L l'" and p: "pc l' = (if v_relocate l then I_Re else I_Dup1)"
      show "returns var a t \<sigma>'"
        using p returns_upper [OF a'] returns_lower [OF a'] by (cases "v_relocate l") simp_all
    qed
  next
    case 4
    then show ?thesis by (rule returns_lower [OF a])
  next
    case 5
    then show ?thesis by (rule returns_upper [OF a])
  next
    case 6
    then show ?thesis by (rule returns_R [OF a])
  next
    case 7
    then show ?thesis by (rule returns_deletemin [OF a])
  qed
qed

text \<open>
  C3. Obstruction freedom. In every reachable state of the queue, whatever the other threads have left behind and
  wherever they have stopped, a thread that is inside \<^verbatim>\<open>insert\<close> or \<^verbatim>\<open>deletemin\<close> and runs alone comes to
  the end of its call after finitely many steps: no search, no retry and no walk of \<^verbatim>\<open>locate_preds\<close>,
  \<^verbatim>\<open>insert\<close>, \<^verbatim>\<open>deletemin\<close> or \<^verbatim>\<open>restructure\<close> goes on for ever. \<open>a\<close> is the block that
  \<^verbatim>\<open>gc_alloc\<close> returns, if the thread is about to call it.
\<close>

theorem pq_obstruction_free:
  fixes \<sigma> :: "'k::len word sys"
  assumes "reachable var \<sigma>" and "running (pc (th \<sigma> t))" and "pc (th \<sigma> t) = I_Enter \<Longrightarrow> fresh_addr (sh \<sigma>) a"
  shows "\<exists>n. pc (th ((exec_thread var a t ^^ n) \<sigma>) t) = Returned"
proof -
  have "alone t \<sigma> (sh \<sigma>) (dead \<sigma>) (live \<sigma>) (th \<sigma> t)" using reachable_up [OF assms(1)] by (simp add: alone_def)
  then have "returns var a t \<sigma>" using assms(2,3) by (rule returns_alone)
  then show ?thesis by (simp add: returns_def)
qed

theorem pq_obstruction_free_witness:
  "\<exists>n. pc (th ((exec_thread prioq_variant 48 0 ^^ n)
     ((sys0 10 :: 32 word sys)\<lparr>th := (th (sys0 10))(0 := call_insert 5 7 (replicate 32 0) (replicate 32 0) (th (sys0 10) 0)),
        hist := [Call 0 (Op_Insert 5 7)]\<rparr>)) 0) = Returned"
  (is "\<exists>n. pc (th ((_ ^^ n) ?s) 0) = _")
proof -
  have st: "sys_step prioq_variant (sys0 10 :: 32 word sys) ?s"
    using invoke_insert [of "sys0 10 :: 32 word sys" 0 5 "replicate 32 0" "replicate 32 0" prioq_variant 7]
    by (simp add: sys0_def thr0_def valid_key_def NUM_LEVELS_def insert_assert_def tail_key_def SENTINEL_KEYMIN_def SENTINEL_KEYMAX_def)
  have r: "reachable prioq_variant ?s" by (rule reach_step [OF sys0_reachable st])
  show ?thesis
    by (rule pq_obstruction_free [OF r])
       (simp_all add: call_insert_def running_def fresh_addr_def valid_addr_def sys0_def pq_init_def is_marked_ref_def)
qed

text \<open>
  C7. The pointers of every level above the bottom form no cycle, in every reachable state: a walk along a level ends.
\<close>

theorem pq_levels_acyclic:
  assumes "reachable var \<sigma>" and "1 \<le> i"
  shows "acyclic (edges (sh \<sigma>) i)"
  using reachable_up [OF assms(1)] assms(2) by (simp add: inv_up_def up_ok_def)

theorem pq_levels_acyclic_witness: "acyclic (edges (sh demo) 3) \<and> acyclic (edges (sh demo) 31)"
  using pq_levels_acyclic [OF demo_reachable, of 3] pq_levels_acyclic [OF demo_reachable, of 31] by simp

end
