(* ===== verification/GC_Mem.thy ===== *)
theory GC_Mem
  imports Prelude "HOL-Library.Monad_Syntax"
begin

text \<open>
  Fraser's epoch-based collector (\<^verbatim>\<open>gc/gc.c\<close>, \<^verbatim>\<open>gc/ptst.c\<close>): chunks of block
  pointers in circular lists, the global state, the state of a thread, and every operation,
  function by function, as run by one thread without interference (the compare-and-swap loops
  keep their retry branches; \<open>GC_Epoch\<close> interleaves threads). A result \<open>None\<close> is a fault: a bad
  access, an index out of range, a failed assertion or \<^verbatim>\<open>exit(1)\<close> when memory is exhausted.
\<close>

section \<open>Data\<close>

definition MAX_SIZES :: nat where "MAX_SIZES = 32"
definition MAX_HOOKS :: nat where "MAX_HOOKS = 4"
definition ALLOC_CHUNKS_PER_LIST :: nat where "ALLOC_CHUNKS_PER_LIST = 10"
definition ENTRIES_PER_RECLAIM_ATTEMPT :: nat where "ENTRIES_PER_RECLAIM_ATTEMPT = 100"
definition NR_EPOCHS :: nat where "NR_EPOCHS = 3"
definition BLKS_PER_CHUNK :: nat where "BLKS_PER_CHUNK = 100"
definition CHUNKS_PER_ALLOC :: nat where "CHUNKS_PER_ALLOC = 1000"

text \<open>
  Chunk addresses count in units of a chunk, so that \<^verbatim>\<open>p + 1\<close> is the successor; 0 is NULL.
  Block addresses count bytes.
\<close>

record chunk =
  c_next :: nat
  c_i :: nat
  c_blk :: "nat list"

record gc_st =
  epoch :: nat
  entries_since_reclaim :: nat
  garbage_head :: "nat list list"
  garbage_tail :: "nat list list"
  chunk_cache :: nat
  local_alloc :: "nat list"
  alloc_chunks :: "nat list"
  hook_list :: "nat list list"

record ptst_st =
  ptst_id :: nat
  ptst_count :: nat
  ptst_gc :: gc_st
  ptst_rand :: u32

text \<open>
  The global state: memory of chunks, the fields of \<^verbatim>\<open>gc_global\<close>, the list of thread states
  (\<open>ptst_list\<close>, by id), and what the environment provides: the results of the coming calls of
  \<^verbatim>\<open>ALIGNED_ALLOC\<close> for chunks (with the contents found there) and for blocks, and the log of
  the calls of hook functions.
\<close>

record gc_state =
  chunks :: "nat \<Rightarrow> chunk option"
  current :: nat
  inreclaim :: nat
  nr_sizes :: nat
  blk_sizes :: "nat list"
  nr_hooks :: nat
  hook_fns :: "nat list"
  free_chunks :: nat
  global_alloc :: "nat list"
  alloc_size :: "nat list"
  ptsts :: "nat \<Rightarrow> ptst_st option"
  ptst_list :: "nat list"
  next_id :: nat
  chunk_supply :: "(nat \<times> (nat \<Rightarrow> chunk)) list"
  block_supply :: "nat list"
  hook_log :: "(nat \<times> nat \<times> nat) list"

section \<open>Accesses\<close>

definition nth_opt :: "'a list \<Rightarrow> nat \<Rightarrow> 'a option" where
  "nth_opt xs i = (if i < length xs then Some (xs ! i) else None)"

definition put_next :: "nat \<Rightarrow> nat \<Rightarrow> gc_state \<Rightarrow> gc_state option" where
  "put_next p q s = do {
     c \<leftarrow> chunks s p;
     Some (s\<lparr>chunks := (chunks s)(p \<mapsto> c\<lparr>c_next := q\<rparr>)\<rparr>) }"

definition put_i :: "nat \<Rightarrow> nat \<Rightarrow> gc_state \<Rightarrow> gc_state option" where
  "put_i p i s = do {
     c \<leftarrow> chunks s p;
     Some (s\<lparr>chunks := (chunks s)(p \<mapsto> c\<lparr>c_i := i\<rparr>)\<rparr>) }"

text \<open>\<^verbatim>\<open>ch->blk[ch->i++] = b\<close>\<close>

definition push_blk :: "nat \<Rightarrow> nat \<Rightarrow> gc_state \<Rightarrow> gc_state option" where
  "push_blk p b s = do {
     c \<leftarrow> chunks s p;
     if c_i c < length (c_blk c)
     then Some (s\<lparr>chunks := (chunks s)(p \<mapsto> c\<lparr>c_i := c_i c + 1, c_blk := (c_blk c)[c_i c := b]\<rparr>)\<rparr>)
     else None }"

text \<open>\<^verbatim>\<open>CASPO(&p->next, old, new)\<close> returns the value found.\<close>

definition cas_next :: "nat \<Rightarrow> nat \<Rightarrow> nat \<Rightarrow> gc_state \<Rightarrow> (nat \<times> gc_state) option" where
  "cas_next p old new s = do {
     c \<leftarrow> chunks s p;
     if c_next c = old then do { s' \<leftarrow> put_next p new s; Some (old, s') }
     else Some (c_next c, s) }"

section \<open>Chains of chunks\<close>

text \<open>
  \<^verbatim>\<open>alloc_more_chunks\<close>: a fresh array of chunks, linked into a ring. \<open>link_more\<close> is the loop,
  with \<open>j\<close> iterations left.
\<close>

fun link_more :: "nat \<Rightarrow> nat \<Rightarrow> gc_state \<Rightarrow> (nat \<times> gc_state) option" where
  "link_more 0 p s = Some (p, s)"
| "link_more (Suc j) p s = do { s' \<leftarrow> put_next p (p + 1) s; link_more j (p + 1) s' }"

definition alloc_more_chunks :: "gc_state \<Rightarrow> (nat \<times> gc_state) option" where
  "alloc_more_chunks s = (case chunk_supply s of
      [] \<Rightarrow> None
    | (h, junk) # rest \<Rightarrow> do {
        (p, s') \<leftarrow> link_more (CHUNKS_PER_ALLOC - 1) h
          (s\<lparr>chunk_supply := rest,
             chunks := (\<lambda>p. if h \<le> p \<and> p < h + CHUNKS_PER_ALLOC then Some (junk (p - h)) else chunks s p)\<rparr>);
        s'' \<leftarrow> put_next p h s';
        Some (h, s'') })"

fun add_chunks_loop :: "nat \<Rightarrow> nat \<Rightarrow> nat \<Rightarrow> nat \<Rightarrow> nat \<Rightarrow> gc_state \<Rightarrow> gc_state option" where
  "add_chunks_loop 0 ch head ch_next new_h_next s = None"
| "add_chunks_loop (Suc fuel) ch head ch_next new_h_next s = do {
     s1 \<leftarrow> put_next ch new_h_next s;
     (found, s2) \<leftarrow> cas_next head new_h_next ch_next s1;
     if found = new_h_next then Some s2 else add_chunks_loop fuel ch head ch_next found s2 }"

definition add_chunks_to_list :: "nat \<Rightarrow> nat \<Rightarrow> gc_state \<Rightarrow> gc_state option" where
  "add_chunks_to_list ch head s = do {
     c \<leftarrow> chunks s ch;
     h \<leftarrow> chunks s head;
     add_chunks_loop 2 ch head (c_next c) (c_next h) s }"

text \<open>
  The \<^verbatim>\<open>for\<close> loop of \<^verbatim>\<open>get_empty_chunks\<close>: the \<open>n\<close>-th chunk after \<open>rt\<close>, or \<open>Some None\<close> if
  the walk comes back to the head.
\<close>

fun empty_walk :: "nat \<Rightarrow> nat \<Rightarrow> nat \<Rightarrow> gc_state \<Rightarrow> nat option option" where
  "empty_walk 0 head rt s = Some (Some rt)"
| "empty_walk (Suc n) head rt s = do {
     c \<leftarrow> chunks s rt;
     if c_next c = head then Some None else empty_walk n head (c_next c) s }"

fun get_empty_loop :: "nat \<Rightarrow> nat \<Rightarrow> nat \<Rightarrow> nat \<Rightarrow> gc_state \<Rightarrow> (nat \<times> gc_state) option" where
  "get_empty_loop 0 n head rh s = None"
| "get_empty_loop (Suc fuel) n head rh s = do {
     r \<leftarrow> empty_walk n head head s;
     (case r of
        None \<Rightarrow> do {
          (more, s1) \<leftarrow> alloc_more_chunks s;
          s2 \<leftarrow> add_chunks_to_list more head s1;
          h \<leftarrow> chunks s2 (free_chunks s2);
          get_empty_loop fuel n (free_chunks s2) (c_next h) s2 }
      | Some rt \<Rightarrow> do {
          t \<leftarrow> chunks s rt;
          (found, s1) \<leftarrow> cas_next head rh (c_next t) s;
          if found = rh then do { s2 \<leftarrow> put_next rt rh s1; Some (rh, s2) }
          else get_empty_loop fuel n head found s1 }) }"

text \<open>Every retry uses up one allocation of the supply, which bounds the loop.\<close>

definition get_empty_chunks :: "nat \<Rightarrow> gc_state \<Rightarrow> (nat \<times> gc_state) option" where
  "get_empty_chunks n s = do {
     h \<leftarrow> chunks s (free_chunks s);
     get_empty_loop (Suc (length (chunk_supply s))) n (free_chunks s) (c_next h) s }"

fun fill_loop :: "nat \<Rightarrow> nat \<Rightarrow> nat \<Rightarrow> nat \<Rightarrow> nat \<Rightarrow> gc_state \<Rightarrow> gc_state option" where
  "fill_loop 0 p h node sz s = None"
| "fill_loop (Suc fuel) p h node sz s = do {
     c \<leftarrow> chunks s p;
     let s' = s\<lparr>chunks := (chunks s)(p \<mapsto> c\<lparr>c_i := BLKS_PER_CHUNK,
                  c_blk := map (\<lambda>i. node + i * sz) [0..<BLKS_PER_CHUNK]\<rparr>)\<rparr>;
     (if c_next c = h then Some s'
      else fill_loop fuel (c_next c) h (node + BLKS_PER_CHUNK * sz) sz s') }"

definition get_filled_chunks :: "nat \<Rightarrow> nat \<Rightarrow> gc_state \<Rightarrow> (nat \<times> gc_state) option" where
  "get_filled_chunks n sz s = (case block_supply s of
      [] \<Rightarrow> None
    | node # rest \<Rightarrow> do {
        (h, s1) \<leftarrow> get_empty_chunks n (s\<lparr>block_supply := rest\<rparr>);
        s2 \<leftarrow> fill_loop n h h node sz s1;
        Some (h, s2) })"

fun get_alloc_loop :: "nat \<Rightarrow> nat \<Rightarrow> nat \<Rightarrow> nat \<Rightarrow> gc_state \<Rightarrow> (nat \<times> gc_state) option" where
  "get_alloc_loop 0 i alloc p s = None"
| "get_alloc_loop (Suc fuel) i alloc p s =
     (if p = alloc then do {
        sz \<leftarrow> nth_opt (alloc_size s) i;
        bs \<leftarrow> nth_opt (blk_sizes s) i;
        (nh, s1) \<leftarrow> get_filled_chunks sz bs s;
        let s2 = s1\<lparr>alloc_size := (alloc_size s1)[i := alloc_size s1 ! i + sz div 8]\<rparr>;
        s3 \<leftarrow> add_chunks_to_list nh alloc s2;
        a \<leftarrow> chunks s3 alloc;
        get_alloc_loop fuel i alloc (c_next a) s3 }
      else do {
        c \<leftarrow> chunks s p;
        (found, s1) \<leftarrow> cas_next alloc p (c_next c) s;
        if found = p then Some (p, s1) else get_alloc_loop fuel i alloc found s1 })"

definition get_alloc_chunk :: "nat \<Rightarrow> gc_state \<Rightarrow> (nat \<times> gc_state) option" where
  "get_alloc_chunk i s = do {
     alloc \<leftarrow> nth_opt (global_alloc s) i;
     a \<leftarrow> chunks s alloc;
     (p, s1) \<leftarrow> get_alloc_loop 2 i alloc (c_next a) s;
     s2 \<leftarrow> put_next p p s1;
     c \<leftarrow> chunks s2 p;
     if c_i c = BLKS_PER_CHUNK then Some (p, s2) else None }"

section \<open>Operations of a thread\<close>

definition set_gc :: "nat \<Rightarrow> gc_st \<Rightarrow> gc_state \<Rightarrow> gc_state" where
  "set_gc t gc s = s\<lparr>ptsts := (ptsts s)(t := map_option (\<lambda>p. p\<lparr>ptst_gc := gc\<rparr>) (ptsts s t))\<rparr>"

definition set_count :: "nat \<Rightarrow> nat \<Rightarrow> gc_state \<Rightarrow> gc_state" where
  "set_count t n s = s\<lparr>ptsts := (ptsts s)(t := map_option (\<lambda>p. p\<lparr>ptst_count := n\<rparr>) (ptsts s t))\<rparr>"

definition chunk_from_cache :: "gc_st \<Rightarrow> gc_state \<Rightarrow> (nat \<times> gc_st \<times> gc_state) option" where
  "chunk_from_cache gc s = do {
     let ch = chunk_cache gc;
     c \<leftarrow> chunks s ch;
     let p = c_next c;
     (gc', s1) \<leftarrow> (if ch = p then do {
         (x, s') \<leftarrow> get_empty_chunks 100 s;
         Some (gc\<lparr>chunk_cache := x\<rparr>, s') }
       else do {
         pc \<leftarrow> chunks s p;
         s' \<leftarrow> put_next ch (c_next pc) s;
         s'' \<leftarrow> put_next p p s';
         Some (gc, s'') });
     s2 \<leftarrow> put_i p 0 s1;
     Some (p, gc', s2) }"

definition gc_alloc :: "nat \<Rightarrow> nat \<Rightarrow> gc_state \<Rightarrow> (nat \<times> gc_state) option" where
  "gc_alloc t i s = do {
     pt \<leftarrow> ptsts s t;
     let gc = ptst_gc pt;
     ch \<leftarrow> nth_opt (local_alloc gc) i;
     c \<leftarrow> chunks s ch;
     (ch', s') \<leftarrow> (if c_i c = 0 then do {
         n \<leftarrow> nth_opt (alloc_chunks gc) i;
         (if n = 100 then do {
            s1 \<leftarrow> add_chunks_to_list ch (free_chunks s) s;
            (new, s2) \<leftarrow> get_alloc_chunk i s1;
            Some (new, set_gc t (gc\<lparr>alloc_chunks := (alloc_chunks gc)[i := 0],
                                   local_alloc := (local_alloc gc)[i := new]\<rparr>) s2) }
          else do {
            (new, s1) \<leftarrow> get_alloc_chunk i s;
            oc \<leftarrow> chunks s1 ch;
            s2 \<leftarrow> put_next new (c_next oc) s1;
            s3 \<leftarrow> put_next ch new s2;
            Some (new, set_gc t (gc\<lparr>alloc_chunks := (alloc_chunks gc)[i := n + 1],
                                   local_alloc := (local_alloc gc)[i := new]\<rparr>) s3) }) }
       else Some (ch, s));
     c' \<leftarrow> chunks s' ch';
     if c_i c' = 0 then None
     else do {
       b \<leftarrow> nth_opt (c_blk c') (c_i c' - 1);
       s'' \<leftarrow> put_i ch' (c_i c' - 1) s';
       Some (b, s'') } }"

definition nth2 :: "nat list list \<Rightarrow> nat \<Rightarrow> nat \<Rightarrow> nat option" where
  "nth2 xss e i = do { xs \<leftarrow> nth_opt xss e; nth_opt xs i }"

definition upd2 :: "nat list list \<Rightarrow> nat \<Rightarrow> nat \<Rightarrow> nat \<Rightarrow> nat list list" where
  "upd2 xss e i x = xss[e := (xss ! e)[i := x]]"

definition gc_free :: "nat \<Rightarrow> nat \<Rightarrow> nat \<Rightarrow> gc_state \<Rightarrow> gc_state option" where
  "gc_free t p i s = do {
     pt \<leftarrow> ptsts s t;
     let gc = ptst_gc pt;
     let e = epoch gc;
     ch \<leftarrow> nth2 (garbage_head gc) e i;
     (if ch = 0 then do {
        (new, gc1, s1) \<leftarrow> chunk_from_cache gc s;
        push_blk new p (set_gc t (gc1\<lparr>garbage_head := upd2 (garbage_head gc1) e i new,
                                     garbage_tail := upd2 (garbage_tail gc1) e i new\<rparr>) s1) }
      else do {
        c \<leftarrow> chunks s ch;
        (if c_i c = BLKS_PER_CHUNK then do {
           prev \<leftarrow> nth2 (garbage_tail gc) e i;
           (new, gc1, s1) \<leftarrow> chunk_from_cache gc s;
           s2 \<leftarrow> put_next new ch s1;
           s3 \<leftarrow> put_next prev new s2;
           push_blk new p (set_gc t (gc1\<lparr>garbage_head := upd2 (garbage_head gc1) e i new\<rparr>) s3) }
         else push_blk ch p s) }) }"

definition gc_add_ptr_to_hook_list :: "nat \<Rightarrow> nat \<Rightarrow> nat \<Rightarrow> gc_state \<Rightarrow> gc_state option" where
  "gc_add_ptr_to_hook_list t p i s = do {
     pt \<leftarrow> ptsts s t;
     let gc = ptst_gc pt;
     let e = epoch gc;
     och \<leftarrow> nth2 (hook_list gc) e i;
     (if och = 0 then do {
        (new, gc1, s1) \<leftarrow> chunk_from_cache gc s;
        push_blk new p (set_gc t (gc1\<lparr>hook_list := upd2 (hook_list gc1) e i new\<rparr>) s1) }
      else do {
        oc \<leftarrow> chunks s och;
        let ch = c_next oc;
        c \<leftarrow> chunks s ch;
        (if c_i c = BLKS_PER_CHUNK then do {
           (new, gc1, s1) \<leftarrow> chunk_from_cache gc s;
           oc1 \<leftarrow> chunks s1 och;
           s2 \<leftarrow> put_next new (c_next oc1) s1;
           s3 \<leftarrow> put_next och new s2;
           push_blk new p (set_gc t gc1 s3) }
         else push_blk ch p s) }) }"

definition gc_unsafe_free :: "nat \<Rightarrow> nat \<Rightarrow> nat \<Rightarrow> gc_state \<Rightarrow> gc_state option" where
  "gc_unsafe_free t p i s = do {
     pt \<leftarrow> ptsts s t;
     ch \<leftarrow> nth_opt (local_alloc (ptst_gc pt)) i;
     c \<leftarrow> chunks s ch;
     if c_i c < BLKS_PER_CHUNK then push_blk ch p s else gc_free t p i s }"

end
