(* ===== verification/GC_Ops.thy ===== *)
theory GC_Ops
  imports GC_Mem
begin

text \<open>
  The collector, continued: reclamation, entering and leaving a critical section, registration and
  initialisation (\<^verbatim>\<open>gc.c\<close>) and the creation of a thread's state (\<^verbatim>\<open>ptst.c\<close>).
\<close>

section \<open>gc\_reclaim\<close>

text \<open>
  The inner loops of \<^verbatim>\<open>gc_reclaim\<close>: \<open>reclaim_size\<close> moves the full chunks of one garbage list to
  the allocation list and leaves one chunk behind; \<open>reclaim_hook\<close> runs a hook on the pointers that
  a thread has queued for it and gives the chunks back.
\<close>

definition reclaim_size :: "nat \<Rightarrow> nat \<Rightarrow> nat \<Rightarrow> gc_state \<Rightarrow> gc_state option" where
  "reclaim_size t e i s = do {
     pt \<leftarrow> ptsts s t;
     let gc = ptst_gc pt;
     g \<leftarrow> nth2 (garbage_head gc) e i;
     (if g = 0 then Some s
      else do {
        c \<leftarrow> chunks s g;
        let ch = c_next c;
        (if ch = g then Some s
         else do {
           tl \<leftarrow> nth2 (garbage_tail gc) e i;
           s1 \<leftarrow> put_next tl ch s;
           s2 \<leftarrow> put_next g g (set_gc t (gc\<lparr>garbage_tail := upd2 (garbage_tail gc) e i g\<rparr>) s1);
           al \<leftarrow> nth_opt (global_alloc s2) i;
           add_chunks_to_list ch al s2 }) }) }"

fun reclaim_sizes :: "nat \<Rightarrow> nat \<Rightarrow> nat list \<Rightarrow> gc_state \<Rightarrow> gc_state option" where
  "reclaim_sizes t e [] s = Some s"
| "reclaim_sizes t e (i # is) s = do { s' \<leftarrow> reclaim_size t e i s; reclaim_sizes t e is s' }"

text \<open>The \<^verbatim>\<open>do\<close> loop over the chunks of a hook list; \<open>fuel\<close> bounds their number.\<close>

fun hook_walk :: "nat \<Rightarrow> nat \<Rightarrow> nat \<Rightarrow> nat \<Rightarrow> nat \<Rightarrow> gc_state \<Rightarrow> gc_state option" where
  "hook_walk 0 our fn ch t s = None"
| "hook_walk (Suc fuel) our fn ch t s = do {
     c \<leftarrow> chunks s t;
     let s' = s\<lparr>hook_log := hook_log s @ map (\<lambda>b. (fn, our, b)) (take (c_i c) (c_blk c))\<rparr>;
     if c_next c = ch then Some s' else hook_walk fuel our fn ch (c_next c) s' }"

definition reclaim_hook :: "nat \<Rightarrow> nat \<Rightarrow> nat \<Rightarrow> nat \<Rightarrow> nat \<Rightarrow> gc_state \<Rightarrow> gc_state option" where
  "reclaim_hook fuel our t e i s = do {
     pt \<leftarrow> ptsts s t;
     let gc = ptst_gc pt;
     fn \<leftarrow> nth_opt (hook_fns s) i;
     ch \<leftarrow> nth2 (hook_list gc) e i;
     (if ch = 0 then Some s
      else do {
        s1 \<leftarrow> hook_walk fuel our fn ch ch (set_gc t (gc\<lparr>hook_list := upd2 (hook_list gc) e i 0\<rparr>) s);
        add_chunks_to_list ch (free_chunks s1) s1 }) }"

fun reclaim_hooks :: "nat \<Rightarrow> nat \<Rightarrow> nat \<Rightarrow> nat \<Rightarrow> nat list \<Rightarrow> gc_state \<Rightarrow> gc_state option" where
  "reclaim_hooks fuel our t e [] s = Some s"
| "reclaim_hooks fuel our t e (i # is) s = do {
     s' \<leftarrow> reclaim_hook fuel our t e i s;
     reclaim_hooks fuel our t e is s' }"

fun reclaim_threads :: "nat \<Rightarrow> nat \<Rightarrow> nat \<Rightarrow> nat list \<Rightarrow> gc_state \<Rightarrow> gc_state option" where
  "reclaim_threads fuel our e [] s = Some s"
| "reclaim_threads fuel our e (t # ts) s = do {
     s1 \<leftarrow> reclaim_sizes t e [0..<nr_sizes s] s;
     s2 \<leftarrow> reclaim_hooks fuel our t e [0..<nr_hooks s1] s1;
     reclaim_threads fuel our e ts s2 }"

text \<open>The first scan: has every thread in a critical section seen the current epoch?\<close>

fun all_seen :: "gc_state \<Rightarrow> nat \<Rightarrow> nat list \<Rightarrow> bool option" where
  "all_seen s e [] = Some True"
| "all_seen s e (t # ts) = do {
     pt \<leftarrow> ptsts s t;
     if ptst_count pt > 1 \<and> epoch (ptst_gc pt) \<noteq> e then Some False else all_seen s e ts }"

definition gc_reclaim :: "nat \<Rightarrow> nat \<Rightarrow> gc_state \<Rightarrow> gc_state option" where
  "gc_reclaim fuel our s =
     (if inreclaim s \<noteq> 0 then Some s
      else do {
        let s0 = s\<lparr>inreclaim := 1\<rparr>;
        let curr = current s0;
        seen \<leftarrow> all_seen s0 curr (ptst_list s0);
        s1 \<leftarrow> (if seen then do {
                s' \<leftarrow> reclaim_threads fuel our ((curr + 1) mod NR_EPOCHS) (ptst_list s0) s0;
                Some (s'\<lparr>current := (curr + 1) mod NR_EPOCHS\<rparr>) }
              else Some s0);
        Some (s1\<lparr>inreclaim := 0\<rparr>) })"

section \<open>Critical sections\<close>

text \<open>
  \<^verbatim>\<open>gc_enter\<close>; the \<^verbatim>\<open>goto retry\<close> is taken at most once in a row, because it comes with
  \<^verbatim>\<open>entries_since_reclaim\<close> reset, so two rounds suffice (\<open>gc_enter_total\<close>).
\<close>

fun gc_enter_loop :: "nat \<Rightarrow> nat \<Rightarrow> nat \<Rightarrow> gc_state \<Rightarrow> gc_state option" where
  "gc_enter_loop 0 fuel t s = None"
| "gc_enter_loop (Suc rounds) fuel t s = do {
     pt \<leftarrow> ptsts s t;
     let cnt = ptst_count pt;
     let s1 = set_count t (cnt + 1) s;
     (if cnt = 1 then
        let gc = ptst_gc pt; new_epoch = current s1 in
        if epoch gc \<noteq> new_epoch
        then Some (set_gc t (gc\<lparr>epoch := new_epoch, entries_since_reclaim := 0\<rparr>) s1)
        else if entries_since_reclaim gc = ENTRIES_PER_RECLAIM_ATTEMPT
        then do {
          s2 \<leftarrow> gc_reclaim fuel t (set_gc t (gc\<lparr>entries_since_reclaim := 0\<rparr>) (set_count t cnt s1));
          gc_enter_loop rounds fuel t s2 }
        else Some (set_gc t (gc\<lparr>entries_since_reclaim := entries_since_reclaim gc + 1\<rparr>) s1)
      else Some s1) }"

definition gc_enter :: "nat \<Rightarrow> nat \<Rightarrow> gc_state \<Rightarrow> gc_state option" where
  "gc_enter fuel t s = gc_enter_loop 2 fuel t s"

definition gc_exit :: "nat \<Rightarrow> gc_state \<Rightarrow> gc_state option" where
  "gc_exit t s = do { pt \<leftarrow> ptsts s t; Some (set_count t (ptst_count pt - 1) s) }"

section \<open>Initialisation and registration\<close>

text \<open>A \<^verbatim>\<open>gc_t\<close> after \<^verbatim>\<open>memset(gc, 0, sizeof(*gc))\<close>.\<close>

definition zero_gc :: gc_st where
  "zero_gc = \<lparr>epoch = 0, entries_since_reclaim = 0,
     garbage_head = replicate NR_EPOCHS (replicate MAX_SIZES 0),
     garbage_tail = replicate NR_EPOCHS (replicate MAX_SIZES 0),
     chunk_cache = 0, local_alloc = replicate MAX_SIZES 0, alloc_chunks = replicate MAX_SIZES 0,
     hook_list = replicate NR_EPOCHS (replicate MAX_HOOKS 0)\<rparr>"

fun init_lists :: "nat list \<Rightarrow> gc_st \<Rightarrow> gc_state \<Rightarrow> (gc_st \<times> gc_state) option" where
  "init_lists [] gc s = Some (gc, s)"
| "init_lists (i # is) gc s = do {
     (ch, gc', s') \<leftarrow> (if i < nr_sizes s
        then do { (c, s1) \<leftarrow> get_alloc_chunk i s; Some (c, gc, s1) }
        else chunk_from_cache gc s);
     init_lists is (gc'\<lparr>local_alloc := (local_alloc gc')[i := ch]\<rparr>) s' }"

definition gc_init :: "gc_state \<Rightarrow> (gc_st \<times> gc_state) option" where
  "gc_init s = do {
     (c, s1) \<leftarrow> get_empty_chunks 100 s;
     init_lists [0..<MAX_SIZES] (zero_gc\<lparr>chunk_cache := c\<rparr>) s1 }"

text \<open>
  \<^verbatim>\<open>critical_enter\<close> of \<^verbatim>\<open>ptst.c\<close>: the first call of a thread (\<open>me = None\<close>) creates its
  state, with the cycle counter \<open>tick\<close> as the seed, and puts it on the list of threads.
\<close>

definition critical_enter :: "nat \<Rightarrow> u32 \<Rightarrow> nat option \<Rightarrow> gc_state \<Rightarrow> (nat \<times> gc_state) option" where
  "critical_enter fuel tick me s = do {
     (t, s') \<leftarrow> (case me of
        Some t \<Rightarrow> Some (t, s)
      | None \<Rightarrow> do {
          (gc, s1) \<leftarrow> gc_init s;
          let t = next_id s1;
          Some (t, s1\<lparr>next_id := t + 1,
                 ptsts := (ptsts s1)(t \<mapsto> \<lparr>ptst_id = t, ptst_count = 1, ptst_gc = gc, ptst_rand = tick\<rparr>),
                 ptst_list := t # ptst_list s1\<rparr>) });
     s'' \<leftarrow> gc_enter fuel t s';
     Some (t, s'') }"

definition critical_exit :: "nat \<Rightarrow> gc_state \<Rightarrow> gc_state option" where
  "critical_exit t s = gc_exit t s"

definition ptst_destructor :: "nat \<Rightarrow> gc_state \<Rightarrow> gc_state" where
  "ptst_destructor t s = set_count t 0 s"

text \<open>
  Registration. There is no check of the number of allocators or hooks: the 33rd allocator and the
  5th hook write outside the arrays.
\<close>

definition gc_add_allocator :: "nat \<Rightarrow> gc_state \<Rightarrow> (nat \<times> gc_state) option" where
  "gc_add_allocator sz s = do {
     let i = nr_sizes s;
     let s1 = s\<lparr>nr_sizes := i + 1\<rparr>;
     (if i < MAX_SIZES then do {
        let s2 = s1\<lparr>blk_sizes := (blk_sizes s1)[i := sz],
                    alloc_size := (alloc_size s1)[i := ALLOC_CHUNKS_PER_LIST]\<rparr>;
        (h, s3) \<leftarrow> get_filled_chunks ALLOC_CHUNKS_PER_LIST sz s2;
        Some (i, s3\<lparr>global_alloc := (global_alloc s3)[i := h]\<rparr>) }
      else None) }"

definition gc_add_hook :: "nat \<Rightarrow> gc_state \<Rightarrow> (nat \<times> gc_state) option" where
  "gc_add_hook fn s = do {
     let i = nr_hooks s;
     (if i < MAX_HOOKS
      then Some (i, s\<lparr>nr_hooks := i + 1, hook_fns := (hook_fns s)[i := fn]\<rparr>)
      else None) }"

definition gc_remove_allocator :: "nat \<Rightarrow> gc_state \<Rightarrow> gc_state" where
  "gc_remove_allocator i s = s"

definition gc_remove_hook :: "nat \<Rightarrow> gc_state \<Rightarrow> gc_state" where
  "gc_remove_hook i s = s"

text \<open>\<^verbatim>\<open>_init_gc_subsystem\<close>: the globals are zeroed and the first empty chunks allocated.\<close>

definition init_gc_subsystem :: "gc_state \<Rightarrow> gc_state option" where
  "init_gc_subsystem s = do {
     (h, s') \<leftarrow> alloc_more_chunks (s\<lparr>current := 0, inreclaim := 0, nr_sizes := 0,
        blk_sizes := replicate MAX_SIZES 0, nr_hooks := 0, hook_fns := replicate MAX_HOOKS 0,
        free_chunks := 0, global_alloc := replicate MAX_SIZES 0, alloc_size := replicate MAX_SIZES 0\<rparr>);
     Some (s'\<lparr>free_chunks := h\<rparr>) }"

end
