(* ===== verification/GC_Ring.thy ===== *)
theory GC_Ring
  imports GC_Ops
begin

text \<open>
  Circular lists of chunks: what the list operations of the collector do to them, and that they
  leave the contents of the chunks and all other lists alone.
\<close>

section \<open>Rings\<close>

definition next_of :: "gc_state \<Rightarrow> nat \<Rightarrow> nat option" where
  "next_of s p = map_option c_next (chunks s p)"

fun chain :: "gc_state \<Rightarrow> nat list \<Rightarrow> bool" where
  "chain s (p # q # ps) \<longleftrightarrow> next_of s p = Some q \<and> chain s (q # ps)"
| "chain s _ \<longleftrightarrow> True"

definition ring :: "gc_state \<Rightarrow> nat list \<Rightarrow> bool" where
  "ring s xs \<longleftrightarrow> xs \<noteq> [] \<and> distinct xs \<and> chain s (xs @ [hd xs])"

text \<open>
  \<open>relinked A s s'\<close>: only the \<open>next\<close> fields of the chunks in \<open>A\<close> have changed.
\<close>

definition relinked :: "nat set \<Rightarrow> gc_state \<Rightarrow> gc_state \<Rightarrow> bool" where
  "relinked A s s' \<longleftrightarrow> (\<exists>h. s' = s\<lparr>chunks := h\<rparr> \<and> (\<forall>p. p \<notin> A \<longrightarrow> h p = chunks s p) \<and>
     (\<forall>p. map_option c_i (h p) = map_option c_i (chunks s p)) \<and>
     (\<forall>p. map_option c_blk (h p) = map_option c_blk (chunks s p)))"

lemma relinked_refl [simp]: "relinked A s s"
  unfolding relinked_def by (rule exI [of _ "chunks s"]) simp

lemma relinked_trans:
  assumes "relinked A s s'" "relinked B s' s''"
  shows "relinked (A \<union> B) s s''"
proof -
  obtain h where h: "s' = s\<lparr>chunks := h\<rparr>" "\<And>p. p \<notin> A \<Longrightarrow> h p = chunks s p"
      "\<And>p. map_option c_i (h p) = map_option c_i (chunks s p)"
      "\<And>p. map_option c_blk (h p) = map_option c_blk (chunks s p)"
    using assms(1) unfolding relinked_def by blast
  obtain k where k: "s'' = s'\<lparr>chunks := k\<rparr>" "\<And>p. p \<notin> B \<Longrightarrow> k p = chunks s' p"
      "\<And>p. map_option c_i (k p) = map_option c_i (chunks s' p)"
      "\<And>p. map_option c_blk (k p) = map_option c_blk (chunks s' p)"
    using assms(2) unfolding relinked_def by blast
  show ?thesis
    unfolding relinked_def using h k by (intro exI [of _ k]) simp
qed

lemma relinked_mono: "relinked A s s' \<Longrightarrow> A \<subseteq> B \<Longrightarrow> relinked B s s'"
  by (auto simp: relinked_def)

lemma relinked_chunks: "relinked A s s' \<Longrightarrow> p \<notin> A \<Longrightarrow> chunks s' p = chunks s p"
  by (auto simp: relinked_def)

lemma relinked_next: "relinked A s s' \<Longrightarrow> p \<notin> A \<Longrightarrow> next_of s' p = next_of s p"
  by (auto simp: relinked_def next_of_def)

lemma chain_cong:
  "(\<And>x. x \<in> set (butlast xs) \<Longrightarrow> next_of s' x = next_of s x) \<Longrightarrow> chain s' xs = chain s xs"
proof (induction xs rule: induct_list012)
  case (3 x y zs)
  from "3.prems" have "next_of s' x = next_of s x"
    "\<And>u. u \<in> set (butlast (y # zs)) \<Longrightarrow> next_of s' u = next_of s u" by auto
  with "3.IH"(2) show ?case by simp
qed simp_all

lemma chain_append:
  "chain s (as @ p # bs) \<longleftrightarrow> chain s (as @ [p]) \<and> chain s (p # bs)"
proof (induction as)
  case (Cons a as)
  then show ?case by (cases as) auto
qed simp

lemma chain_nth: "chain s xs \<Longrightarrow> Suc i < length xs \<Longrightarrow> next_of s (xs ! i) = Some (xs ! Suc i)"
proof (induction xs arbitrary: i rule: induct_list012)
  case (3 x y zs)
  then show ?case by (cases i) auto
qed simp_all

lemma ring_cong: "(\<And>x. x \<in> set xs \<Longrightarrow> next_of s' x = next_of s x) \<Longrightarrow> ring s' xs = ring s xs"
proof -
  assume a: "\<And>x. x \<in> set xs \<Longrightarrow> next_of s' x = next_of s x"
  have "chain s' (xs @ [hd xs]) = chain s (xs @ [hd xs])"
    by (rule chain_cong) (simp add: a)
  then show ?thesis by (simp add: ring_def)
qed

lemma ring_frame: "relinked A s s' \<Longrightarrow> set xs \<inter> A = {} \<Longrightarrow> ring s xs \<Longrightarrow> ring s' xs"
  using ring_cong [of xs s' s] relinked_next by blast

lemma ring_next: "ring s (p # xs) \<Longrightarrow> next_of s p = Some (hd (xs @ [p]))"
  by (cases xs) (auto simp: ring_def)

lemma ring_nth_next:
  "ring s xs \<Longrightarrow> i < length xs \<Longrightarrow> next_of s (xs ! i) = Some (if Suc i < length xs then xs ! Suc i else hd xs)"
  using chain_nth [of s "xs @ [hd xs]" i] by (auto simp: ring_def nth_append)

lemma ring_chunk: "ring s xs \<Longrightarrow> p \<in> set xs \<Longrightarrow> \<exists>c. chunks s p = Some c"
  using ring_nth_next by (fastforce simp: in_set_conv_nth next_of_def)

lemma ring_single: "ring s [p] \<longleftrightarrow> next_of s p = Some p"
  by (simp add: ring_def)

lemma next_of_Some: "next_of s p = Some q \<longleftrightarrow> (\<exists>c. chunks s p = Some c \<and> c_next c = q)"
  by (auto simp: next_of_def)

section \<open>Single writes\<close>

lemma relinked_upd:
  assumes "chunks s p = Some c"
  shows "relinked {p} s (s\<lparr>chunks := (chunks s)(p \<mapsto> c\<lparr>c_next := q\<rparr>)\<rparr>)"
  unfolding relinked_def using assms by (intro exI [of _ "(chunks s)(p \<mapsto> c\<lparr>c_next := q\<rparr>)"]) simp

lemma put_next_spec:
  assumes "chunks s p = Some c"
  shows "\<exists>s'. put_next p q s = Some s' \<and> relinked {p} s s' \<and> next_of s' p = Some q"
  using assms relinked_upd by (simp add: put_next_def next_of_def)

lemma cas_next_spec:
  assumes "next_of s p = Some old"
  shows "\<exists>s'. cas_next p old new s = Some (old, s') \<and> relinked {p} s s' \<and> next_of s' p = Some new"
  using assms relinked_upd by (auto simp: cas_next_def put_next_def next_of_def)

section \<open>add\_chunks\_to\_list\<close>

lemma add_chunks_spec:
  assumes h: "ring s (head # hs)" and c: "ring s (ch # cs)"
    and d: "set (head # hs) \<inter> set (ch # cs) = {}"
  shows "\<exists>s'. add_chunks_to_list ch head s = Some s' \<and> ring s' (head # cs @ ch # hs) \<and>
    relinked {head, ch} s s'"
proof -
  let ?a = "hd (cs @ [ch])" and ?b = "hd (hs @ [head])"
  have na: "next_of s ch = Some ?a" and nb: "next_of s head = Some ?b"
    using ring_next [OF c] ring_next [OF h] by simp_all
  have ne: "head \<noteq> ch" using d by auto
  obtain c0 where c0: "chunks s ch = Some c0" "c_next c0 = ?a" using na by (auto simp: next_of_Some)
  obtain h0 where h0: "chunks s head = Some h0" "c_next h0 = ?b" using nb by (auto simp: next_of_Some)
  obtain s1 where s1: "put_next ch ?b s = Some s1" "relinked {ch} s s1" "next_of s1 ch = Some ?b"
    using put_next_spec [OF c0(1)] by blast
  have "next_of s1 head = Some ?b" using relinked_next [OF s1(2)] ne nb by simp
  then obtain s2 where s2: "cas_next head ?b ?a s1 = Some (?b, s2)" "relinked {head} s1 s2"
      "next_of s2 head = Some ?a"
    using cas_next_spec by blast
  have e: "add_chunks_to_list ch head s = Some s2"
    using c0 h0 s1(1) s2(1) by (simp add: add_chunks_to_list_def eval_nat_numeral)
  have r: "relinked {head, ch} s s2"
    using relinked_trans [OF s1(2) s2(2)] by (simp add: insert_commute)
  have nch: "next_of s2 ch = Some ?b" using relinked_next [OF s2(2), of ch] ne s1(3) by simp
  have old: "\<And>x. x \<noteq> head \<Longrightarrow> x \<noteq> ch \<Longrightarrow> next_of s2 x = next_of s x"
    using relinked_next [OF r] by simp
  have "chain s2 (head # cs @ [ch])"
  proof (cases cs)
    case Nil
    then show ?thesis using s2(3) by simp
  next
    case (Cons x xs)
    have "chain s (cs @ [ch])" using c Cons by (simp add: ring_def)
    moreover have "chain s2 (cs @ [ch]) = chain s (cs @ [ch])"
      using c d by (intro chain_cong old) (auto simp: ring_def)
    ultimately show ?thesis using s2(3) Cons by simp
  qed
  moreover have "chain s2 (ch # hs @ [head])"
  proof (cases hs)
    case Nil
    then show ?thesis using nch by simp
  next
    case (Cons x xs)
    have "chain s (hs @ [head])" using h Cons by (simp add: ring_def)
    moreover have "chain s2 (hs @ [head]) = chain s (hs @ [head])"
      using h d by (intro chain_cong old) (auto simp: ring_def)
    ultimately show ?thesis using nch Cons by simp
  qed
  ultimately have "chain s2 (head # cs @ ch # hs @ [head])"
    using chain_append [of s2 "head # cs" ch "hs @ [head]"] by simp
  moreover have "distinct (head # cs @ ch # hs)" using h c d by (auto simp: ring_def)
  ultimately have "ring s2 (head # cs @ ch # hs)" by (simp add: ring_def)
  with e r show ?thesis by blast
qed

section \<open>get\_empty\_chunks\<close>

lemma empty_walk_spec:
  assumes r: "ring s (head # xs)" and "i \<le> length xs"
  shows "empty_walk n head ((head # xs) ! i) s =
    Some (if i + n \<le> length xs then Some ((head # xs) ! (i + n)) else None)"
  using assms(2)
proof (induction n arbitrary: i)
  case (Suc n)
  have nx: "next_of s ((head # xs) ! i) = Some (if Suc i < length (head # xs) then (head # xs) ! Suc i else head)"
    using ring_nth_next [OF r, of i] Suc.prems by simp
  have "i < length xs \<Longrightarrow> (head # xs) ! Suc i \<noteq> head"
    using r by (auto simp: ring_def)
  then show ?case
    using nx Suc.IH [of "Suc i"] Suc.prems by (auto simp: next_of_def)
qed simp

lemma ring_split:
  assumes r: "ring s (head # as @ x # bs)"
    and h: "next_of s' head = Some (hd (bs @ [head]))" and l: "next_of s' x = Some (hd (as @ [x]))"
    and f: "relinked {head, x} s s'"
  shows "ring s' (as @ [x]) \<and> ring s' (head # bs)"
proof
  have d: "distinct (head # as @ x # bs)" and c: "chain s (head # as @ x # bs @ [head])"
    using r by (simp_all add: ring_def)
  have c1: "chain s (as @ [x])" "chain s (x # bs @ [head])"
    using c chain_append [of s "head # as" x "bs @ [head]"] by (cases as; simp)+
  have c2: "chain s (bs @ [head])" using c1(2) by (cases bs) auto
  have old: "\<And>y. y \<noteq> head \<Longrightarrow> y \<noteq> x \<Longrightarrow> next_of s' y = next_of s y"
    using relinked_next [OF f] by simp
  have "chain s' (as @ [x]) = chain s (as @ [x])"
    using d by (intro chain_cong old) (auto simp: butlast_append)
  then have "chain s' (as @ [x, hd (as @ [x])])"
    using c1(1) l chain_append [of s' as x "[hd (as @ [x])]"] by simp
  then show "ring s' (as @ [x])" using d by (simp add: ring_def)
  have "chain s' (bs @ [head]) = chain s (bs @ [head])"
    using d by (intro chain_cong old) auto
  then have "chain s' (head # bs @ [head])" using h c2 by (cases bs) auto
  then show "ring s' (head # bs)" using d by (simp add: ring_def)
qed

lemma get_empty_here:
  assumes r: "ring s (free_chunks s # xs)" and n: "1 \<le> n" "n \<le> length xs"
  shows "\<exists>s'. get_empty_loop (Suc fuel) n (free_chunks s) (hd (xs @ [free_chunks s])) s = Some (hd xs, s') \<and>
    ring s' (take n xs) \<and> ring s' (free_chunks s # drop n xs) \<and>
    relinked {free_chunks s, xs ! (n - 1)} s s'"
proof -
  let ?h = "free_chunks s" and ?t = "xs ! (n - 1)"
  have w: "empty_walk n ?h ?h s = Some (Some ?t)"
    using empty_walk_spec [OF r, of 0 n] n by (simp add: nth_Cons')
  have hx: "hd (xs @ [?h]) = hd xs" using n by (cases xs) auto
  have nh: "next_of s ?h = Some (hd xs)" using ring_next [OF r] hx by simp
  let ?b = "hd (drop n xs @ [?h])"
  have "next_of s ?t = Some (if Suc n < length (?h # xs) then (?h # xs) ! Suc n else ?h)"
    using ring_nth_next [OF r, of n] n by (simp add: nth_Cons')
  then have nt: "next_of s ?t = Some ?b" using n by (auto simp: hd_append hd_drop_conv_nth)
  then obtain t where t: "chunks s ?t = Some t" "c_next t = ?b" by (auto simp: next_of_Some)
  obtain s1 where s1: "cas_next ?h (hd xs) ?b s = Some (hd xs, s1)" "relinked {?h} s s1"
      "next_of s1 ?h = Some ?b"
    using cas_next_spec [OF nh] by blast
  have "?t \<in> set xs" using n by simp
  then have ne: "?t \<noteq> ?h" using r by (auto simp: ring_def)
  then have "chunks s1 ?t = Some t" using relinked_chunks [OF s1(2)] t by simp
  then obtain s2 where s2: "put_next ?t (hd xs) s1 = Some s2" "relinked {?t} s1 s2"
      "next_of s2 ?t = Some (hd xs)"
    using put_next_spec by blast
  have f: "relinked {?h, ?t} s s2" using relinked_trans [OF s1(2) s2(2)] by (simp add: insert_commute)
  obtain m where m: "n = Suc m" "m < length xs" using n by (cases n) auto
  have tk: "take n xs = take m xs @ [?t]" using m by (simp add: take_Suc_conv_app_nth)
  have hd: "hd (take m xs @ [?t]) = hd xs" using m n by (cases xs; cases m) auto
  have "ring s2 (take m xs @ [?t]) \<and> ring s2 (?h # drop n xs)"
  proof (rule ring_split)
    have "take m xs @ ?t # drop n xs = xs" using append_take_drop_id [of n xs] tk by simp
    then show "ring s (?h # take m xs @ ?t # drop n xs)" using r by simp
    show "next_of s2 ?h = Some ?b" using relinked_next [OF s2(2), of ?h] ne s1(3) by simp
    show "next_of s2 ?t = Some (hd (take m xs @ [?t]))" using hd s2(3) by simp
  qed (rule f)
  then have "ring s2 (take n xs) \<and> ring s2 (?h # drop n xs)" by (simp only: tk)
  moreover have "get_empty_loop (Suc fuel) n ?h (hd (xs @ [?h])) s = Some (hd xs, s2)"
    using w t s1 s2 hx by simp
  ultimately show ?thesis using f by blast
qed


text \<open>
  \<open>grown A s s'\<close>: as \<open>relinked\<close>, but new chunks may have come from the supply; what was there
  before is still there.
\<close>

definition grown :: "nat set \<Rightarrow> gc_state \<Rightarrow> gc_state \<Rightarrow> bool" where
  "grown A s s' \<longleftrightarrow> (\<exists>h sup. s' = s\<lparr>chunks := h, chunk_supply := sup\<rparr> \<and>
     (\<forall>p. p \<in> dom (chunks s) \<longrightarrow> p \<notin> A \<longrightarrow> h p = chunks s p) \<and>
     (\<forall>p \<in> dom (chunks s). map_option c_i (h p) = map_option c_i (chunks s p) \<and>
        map_option c_blk (h p) = map_option c_blk (chunks s p)))"

lemma relinked_grown: "relinked A s s' \<Longrightarrow> grown A s s'"
  unfolding relinked_def grown_def
  by (elim exE conjE) (rule exI, rule exI [of _ "chunk_supply s"], auto)

lemma grown_dom: 
  assumes "grown A s s'"
  shows "dom (chunks s) \<subseteq> dom (chunks s')"
proof
  fix p assume p: "p \<in> dom (chunks s)"
  obtain h sup where "s' = s\<lparr>chunks := h, chunk_supply := sup\<rparr>"
      "\<forall>p \<in> dom (chunks s). map_option c_i (h p) = map_option c_i (chunks s p)"
    using assms unfolding grown_def by blast
  then have "\<forall>p \<in> dom (chunks s). map_option c_i (chunks s' p) = map_option c_i (chunks s p)"
    by simp
  with p have "map_option c_i (chunks s' p) = map_option c_i (chunks s p)" by blast
  with p show "p \<in> dom (chunks s')" by (metis domIff option.map_disc_iff)
qed

lemma relinked_dom:
  assumes "relinked A s s'"
  shows "dom (chunks s') = dom (chunks s)"
proof -
  obtain h where "s' = s\<lparr>chunks := h\<rparr>" "\<forall>p. map_option c_i (h p) = map_option c_i (chunks s p)"
    using assms unfolding relinked_def by blast
  then have "\<forall>p. map_option c_i (chunks s' p) = map_option c_i (chunks s p)" by simp
  then show ?thesis unfolding dom_def by (metis option.map_disc_iff)
qed

lemma grown_refl [simp]: "grown A s s"
  by (rule relinked_grown) simp

lemma grown_trans:
  assumes "grown A s s'" "grown B s' s''"
  shows "grown (A \<union> B) s s''"
proof -
  have d: "dom (chunks s) \<subseteq> dom (chunks s')" by (rule grown_dom [OF assms(1)])
  obtain h u where h: "s' = s\<lparr>chunks := h, chunk_supply := u\<rparr>"
      "\<And>p. p \<in> dom (chunks s) \<Longrightarrow> p \<notin> A \<Longrightarrow> h p = chunks s p"
      "\<And>p. p \<in> dom (chunks s) \<Longrightarrow> map_option c_i (h p) = map_option c_i (chunks s p) \<and>
        map_option c_blk (h p) = map_option c_blk (chunks s p)"
    using assms(1) unfolding grown_def by blast
  obtain k v where k: "s'' = s'\<lparr>chunks := k, chunk_supply := v\<rparr>"
      "\<And>p. p \<in> dom (chunks s') \<Longrightarrow> p \<notin> B \<Longrightarrow> k p = chunks s' p"
      "\<And>p. p \<in> dom (chunks s') \<Longrightarrow> map_option c_i (k p) = map_option c_i (chunks s' p) \<and>
        map_option c_blk (k p) = map_option c_blk (chunks s' p)"
    using assms(2) unfolding grown_def by blast
  show ?thesis
    unfolding grown_def
  proof (intro exI [of _ k] exI [of _ v] conjI allI impI ballI)
    show "s'' = s\<lparr>chunks := k, chunk_supply := v\<rparr>" using h(1) k(1) by simp
    have c: "chunks s' = h" using h(1) by simp
    fix p assume p: "p \<in> dom (chunks s)"
    then have p': "p \<in> dom (chunks s')" using d by blast
    show "map_option c_i (k p) = map_option c_i (chunks s p)"
      "map_option c_blk (k p) = map_option c_blk (chunks s p)"
      using h(3) [OF p] k(3) [OF p'] c by auto
    assume "p \<notin> A \<union> B"
    then show "k p = chunks s p" using h(2) [OF p] k(2) [OF p'] c by simp
  qed
qed

lemma grown_mono: "grown A s s' \<Longrightarrow> A \<subseteq> B \<Longrightarrow> grown B s s'"
  unfolding grown_def by blast

lemma grown_next: "grown A s s' \<Longrightarrow> p \<in> dom (chunks s) \<Longrightarrow> p \<notin> A \<Longrightarrow> next_of s' p = next_of s p"
  unfolding grown_def next_of_def by auto

lemma ring_dom: "ring s xs \<Longrightarrow> set xs \<subseteq> dom (chunks s)"
  using ring_chunk by fast

lemma ring_grown: "grown A s s' \<Longrightarrow> set xs \<inter> A = {} \<Longrightarrow> ring s xs \<Longrightarrow> ring s' xs"
  using ring_cong [of xs s' s] grown_next ring_dom by (metis disjoint_iff subsetD)

lemma grown_fields:
  assumes "grown A s s'"
  shows "free_chunks s' = free_chunks s" "global_alloc s' = global_alloc s" "alloc_size s' = alloc_size s"
    "blk_sizes s' = blk_sizes s" "nr_sizes s' = nr_sizes s" "ptsts s' = ptsts s" "ptst_list s' = ptst_list s"
    "block_supply s' = block_supply s" "current s' = current s" "inreclaim s' = inreclaim s"
  using assms by (auto simp: grown_def)

section \<open>Fresh chunks\<close>

text \<open>
  The supply is sound: the arrays that \<^verbatim>\<open>ALIGNED_ALLOC\<close> will return are disjoint from each
  other and from the memory in use, and none is NULL.
\<close>

definition more_chunks :: "nat \<Rightarrow> nat set" where
  "more_chunks h = {h..<h + CHUNKS_PER_ALLOC}"

fun sound_supply :: "nat set \<Rightarrow> (nat \<times> (nat \<Rightarrow> chunk)) list \<Rightarrow> bool" where
  "sound_supply used [] \<longleftrightarrow> True"
| "sound_supply used ((h, junk) # rest) \<longleftrightarrow>
     h \<noteq> 0 \<and> more_chunks h \<inter> used = {} \<and> sound_supply (more_chunks h \<union> used) rest"

lemma link_more_spec:
  assumes "{p..p + j} \<subseteq> dom (chunks s)"
  shows "\<exists>s'. link_more j p s = Some (p + j, s') \<and> relinked {p..<p + j} s s' \<and> chain s' [p..<p + j + 1]"
  using assms
proof (induction j arbitrary: p s)
  case (Suc j)
  have "p \<in> dom (chunks s)" using Suc.prems by (metis atLeastAtMost_iff le_add1 order_refl subsetD)
  then obtain s1 where s1: "put_next p (p + 1) s = Some s1" "relinked {p} s s1" "next_of s1 p = Some (p + 1)"
    using put_next_spec by blast
  have "{p + 1..p + 1 + j} \<subseteq> dom (chunks s1)"
    using Suc.prems relinked_dom [OF s1(2)] by (auto simp: subset_iff)
  from Suc.IH [OF this] obtain s' where s': "link_more j (p + 1) s1 = Some (p + 1 + j, s')"
      "relinked {p + 1..<p + 1 + j} s1 s'" "chain s' [p + 1..<p + 1 + j + 1]"
    by blast
  have "relinked {p..<p + Suc j} s s'"
    by (rule relinked_mono [OF relinked_trans [OF s1(2) s'(2)]]) auto
  moreover have "next_of s' p = Some (p + 1)" using relinked_next [OF s'(2), of p] s1(3) by simp
  then have "chain s' (p # [p + 1..<p + 1 + j + 1])" using s'(3) by (simp add: upt_rec)
  then have "chain s' [p..<p + Suc j + 1]" by (simp add: upt_rec)
  ultimately show ?case using s1(1) s'(1) by simp
qed simp

lemma alloc_more_spec:
  assumes sup: "chunk_supply s = (h, junk) # rest" and f: "more_chunks h \<inter> dom (chunks s) = {}"
  shows "\<exists>s'. alloc_more_chunks s = Some (h, s') \<and> ring s' [h..<h + CHUNKS_PER_ALLOC] \<and>
    grown {} s s' \<and> chunk_supply s' = rest \<and> dom (chunks s') = more_chunks h \<union> dom (chunks s)"
proof -
  define n where "n = CHUNKS_PER_ALLOC - 1"
  have n: "CHUNKS_PER_ALLOC = Suc n" by (simp add: n_def CHUNKS_PER_ALLOC_def)
  let ?s0 = "s\<lparr>chunk_supply := rest,
     chunks := (\<lambda>p. if h \<le> p \<and> p < h + CHUNKS_PER_ALLOC then Some (junk (p - h)) else chunks s p)\<rparr>"
  have d0: "dom (chunks ?s0) = more_chunks h \<union> dom (chunks s)"
    by (auto simp: more_chunks_def split: if_splits)
  have "{h..h + n} \<subseteq> dom (chunks ?s0)" unfolding d0 by (auto simp: more_chunks_def n)
  from link_more_spec [OF this] obtain s1 where s1: "link_more n h ?s0 = Some (h + n, s1)"
      "relinked {h..<h + n} ?s0 s1" "chain s1 [h..<h + n + 1]"
    by blast
  have "h + n \<in> dom (chunks s1)"
    unfolding relinked_dom [OF s1(2)] d0 by (simp add: more_chunks_def n)
  then obtain s2 where s2: "put_next (h + n) h s1 = Some s2" "relinked {h + n} s1 s2"
      "next_of s2 (h + n) = Some h"
    using put_next_spec by blast
  have r: "relinked (more_chunks h) ?s0 s2"
    by (rule relinked_mono [OF relinked_trans [OF s1(2) s2(2)]]) (auto simp: more_chunks_def n)
  have a: "alloc_more_chunks s = Some (h, s2)"
    using s1(1) s2(1) by (simp add: alloc_more_chunks_def sup n)
  have "chain s2 [h..<h + n + 1] = chain s1 [h..<h + n + 1]"
    by (rule chain_cong) (auto intro: relinked_next [OF s2(2)])
  then have "chain s2 ([h..<h + n] @ [h + n, h])"
    using s1(3) s2(3) chain_append [of s2 "[h..<h + n]" "h + n" "[h]"] by simp
  moreover have "hd ([h..<h + n] @ [h + n]) = h" by (cases n) (simp_all add: upt_rec)
  ultimately have ring: "ring s2 [h..<h + CHUNKS_PER_ALLOC]"
    by (simp add: ring_def n)
  have "grown {} s s2"
  proof -
    obtain k where k: "s2 = ?s0\<lparr>chunks := k\<rparr>" "\<forall>p. p \<notin> more_chunks h \<longrightarrow> k p = chunks ?s0 p"
      using r unfolding relinked_def by blast
    have "k p = chunks s p" if "p \<in> dom (chunks s)" for p
    proof -
      have "p \<notin> more_chunks h" using that f by blast
      then show ?thesis using k(2) by (auto simp: more_chunks_def)
    qed
    then show ?thesis
      unfolding grown_def using k(1) by (intro exI [of _ k] exI [of _ rest]) simp
  qed
  moreover have "chunk_supply s2 = rest" using r by (auto simp: relinked_def)
  moreover have "dom (chunks s2) = more_chunks h \<union> dom (chunks s)"
    using relinked_dom [OF r] d0 by simp
  ultimately show ?thesis using a ring by blast
qed

text \<open>
  \<^verbatim>\<open>get_empty_chunks\<close>: with a sound supply that is large enough it returns a ring of exactly \<open>n\<close>
  chunks, taken from the front of the free list or from fresh memory, leaves a ring with the head
  of the free list, and touches nothing else.
\<close>

definition splits_off :: "nat \<Rightarrow> nat list \<Rightarrow> gc_state \<Rightarrow> nat \<Rightarrow> gc_state \<Rightarrow> bool" where
  "splits_off n xs s p s' \<longleftrightarrow> (\<exists>ps rest. length (p # ps) = n \<and> ring s' (p # ps) \<and>
     ring s' (free_chunks s # rest) \<and> set (p # ps) \<inter> set (free_chunks s # rest) = {} \<and>
     set (p # ps) \<union> set rest \<subseteq> set xs \<union> (dom (chunks s') - dom (chunks s)) \<and>
     grown (set (free_chunks s # xs)) s s' \<and> sound_supply (dom (chunks s')) (chunk_supply s'))"

lemma grown_restrict: "grown A s s' \<Longrightarrow> A \<inter> dom (chunks s) \<subseteq> B \<Longrightarrow> grown B s s'"
  unfolding grown_def by blast

lemma splits_off_here:
  assumes r: "ring s (free_chunks s # xs)" and n: "1 \<le> n" "n \<le> length xs"
    and ss: "sound_supply (dom (chunks s)) (chunk_supply s)"
  shows "\<exists>p s'. get_empty_loop (Suc fuel) n (free_chunks s) (hd (xs @ [free_chunks s])) s = Some (p, s') \<and>
    splits_off n xs s p s'"
proof -
  from get_empty_here [OF r n] obtain s' where
    s': "get_empty_loop (Suc fuel) n (free_chunks s) (hd (xs @ [free_chunks s])) s = Some (hd xs, s')"
      "ring s' (take n xs)" "ring s' (free_chunks s # drop n xs)"
      "relinked {free_chunks s, xs ! (n - 1)} s s'"
    by blast
  obtain m where m: "n = Suc m" using n by (cases n) auto
  have tk: "take n xs = hd xs # tl (take n xs)" using n m by (cases xs) auto
  have d: "distinct (free_chunks s # take n xs @ drop n xs)" using r by (simp add: ring_def)
  have "xs ! (n - 1) \<in> set xs" using n by simp
  then have "grown (set (free_chunks s # xs)) s s'"
    by (intro grown_mono [OF relinked_grown [OF s'(4)]]) auto
  moreover have "chunk_supply s' = chunk_supply s" using s'(4) by (auto simp: relinked_def)
  moreover have "length (hd xs # tl (take n xs)) = n" using tk n by (metis length_take min.absorb2)
  moreover have "set (hd xs # tl (take n xs)) \<inter> set (free_chunks s # drop n xs) = {}"
    using d unfolding tk [symmetric] by (metis distinct_append append_Cons distinct.simps(2) disjoint_iff in_set_takeD list.set_intros(1) set_ConsD Un_iff set_append)
  moreover have "set (hd xs # tl (take n xs)) \<union> set (drop n xs) \<subseteq> set xs"
    by (subst tk [symmetric]) (auto dest: in_set_takeD in_set_dropD)
  ultimately have "splits_off n xs s (hd xs) s'"
    unfolding splits_off_def using s'(2,3) tk ss relinked_dom [OF s'(4)]
    by (intro exI [of _ "tl (take n xs)"] exI [of _ "drop n xs"]) auto
  with s'(1) show ?thesis by blast
qed

lemma refill:
  assumes r: "ring s (free_chunks s # xs)" and sup: "chunk_supply s = (h, junk) # rest"
    and ss: "sound_supply (dom (chunks s)) (chunk_supply s)"
  shows "\<exists>s1 s2. alloc_more_chunks s = Some (h, s1) \<and> add_chunks_to_list h (free_chunks s) s1 = Some s2 \<and>
    ring s2 (free_chunks s # [h + 1..<h + CHUNKS_PER_ALLOC] @ h # xs) \<and> grown {free_chunks s} s s2 \<and>
    chunk_supply s2 = rest \<and> dom (chunks s2) = more_chunks h \<union> dom (chunks s) \<and>
    sound_supply (dom (chunks s2)) rest"
proof -
  have f: "more_chunks h \<inter> dom (chunks s) = {}" "sound_supply (more_chunks h \<union> dom (chunks s)) rest"
    using ss sup by simp_all
  from alloc_more_spec [OF sup f(1)] obtain s1 where s1: "alloc_more_chunks s = Some (h, s1)"
      "ring s1 [h..<h + CHUNKS_PER_ALLOC]" "grown {} s s1" "chunk_supply s1 = rest"
      "dom (chunks s1) = more_chunks h \<union> dom (chunks s)"
    by blast
  have hr: "[h..<h + CHUNKS_PER_ALLOC] = h # [h + 1..<h + CHUNKS_PER_ALLOC]"
    using upt_conv_Cons [of h "h + CHUNKS_PER_ALLOC"] by (simp add: CHUNKS_PER_ALLOC_def del: upt_Suc)
  have r1: "ring s1 (free_chunks s # xs)" using ring_grown [OF s1(3) _ r] by simp
  have dj: "set (free_chunks s # xs) \<inter> set (h # [h + 1..<h + CHUNKS_PER_ALLOC]) = {}"
    using ring_dom [OF r] f(1) unfolding hr [symmetric] by (auto simp: more_chunks_def)
  from add_chunks_spec [OF r1 s1(2) [unfolded hr] dj] obtain s2 where
    s2: "add_chunks_to_list h (free_chunks s) s1 = Some s2"
      "ring s2 (free_chunks s # [h + 1..<h + CHUNKS_PER_ALLOC] @ h # xs)"
      "relinked {free_chunks s, h} s1 s2"
    by blast
  have "grown ({} \<union> {free_chunks s, h}) s s2" by (rule grown_trans [OF s1(3) relinked_grown [OF s2(3)]])
  then have "grown {free_chunks s} s s2"
  proof (rule grown_restrict)
    have "h \<in> more_chunks h" by (simp add: more_chunks_def CHUNKS_PER_ALLOC_def)
    then have "h \<notin> dom (chunks s)" using f(1) by blast
    then show "({} \<union> {free_chunks s, h}) \<inter> dom (chunks s) \<subseteq> {free_chunks s}" by blast
  qed
  moreover have "chunk_supply s2 = rest" using s2(3) s1(4) by (auto simp: relinked_def)
  ultimately show ?thesis using s1 s2 f(2) relinked_dom [OF s2(3)] by auto
qed

lemma get_empty_loop_spec:
  assumes "ring s (free_chunks s # xs)" and "1 \<le> n"
    and "sound_supply (dom (chunks s)) (chunk_supply s)"
    and "n \<le> length xs + CHUNKS_PER_ALLOC * length (chunk_supply s)"
    and "length (chunk_supply s) < fuel"
  shows "\<exists>p s'. get_empty_loop fuel n (free_chunks s) (hd (xs @ [free_chunks s])) s = Some (p, s') \<and>
    splits_off n xs s p s'"
  using assms
proof (induction "length (chunk_supply s)" arbitrary: s xs fuel)
  case 0
  then obtain fuel' where fuel: "fuel = Suc fuel'" by (cases fuel) auto
  have "n \<le> length xs" using 0 by simp
  then show ?case using splits_off_here [OF "0.prems"(1,2) _ "0.prems"(3)] fuel by blast
next
  case (Suc m)
  obtain fuel' where fuel: "fuel = Suc fuel'" using Suc.prems by (cases fuel) auto
  show ?case
  proof (cases "n \<le> length xs")
    case True
    then show ?thesis using splits_off_here [OF Suc.prems(1,2) True Suc.prems(3)] fuel by blast
  next
    case False
    let ?f = "free_chunks s"
    obtain h junk rest where sup: "chunk_supply s = (h, junk) # rest"
      using Suc.hyps(2) by (cases "chunk_supply s") auto
    let ?xs = "[h + 1..<h + CHUNKS_PER_ALLOC] @ h # xs"
    from refill [OF Suc.prems(1) sup Suc.prems(3)] obtain s1 s2 where
      s1: "alloc_more_chunks s = Some (h, s1)" and
      s2: "add_chunks_to_list h ?f s1 = Some s2" "ring s2 (?f # ?xs)" "grown {?f} s s2"
        "chunk_supply s2 = rest" "dom (chunks s2) = more_chunks h \<union> dom (chunks s)"
        "sound_supply (dom (chunks s2)) rest"
      by blast
    have ff: "free_chunks s2 = ?f" by (rule grown_fields(1) [OF s2(3)])
    have len: "length ?xs = CHUNKS_PER_ALLOC + length xs" by (simp add: CHUNKS_PER_ALLOC_def)
    have "\<exists>p s'. get_empty_loop fuel' n (free_chunks s2) (hd (?xs @ [free_chunks s2])) s2 = Some (p, s') \<and>
        splits_off n ?xs s2 p s'"
    proof (rule Suc.hyps(1))
      show "m = length (chunk_supply s2)" using Suc.hyps(2) sup s2(4) by simp
      show "ring s2 (free_chunks s2 # ?xs)" using s2(2) ff by simp
      show "sound_supply (dom (chunks s2)) (chunk_supply s2)" using s2(4,6) by simp
      show "n \<le> length ?xs + CHUNKS_PER_ALLOC * length (chunk_supply s2)"
        using Suc.prems(4) sup s2(4) len by simp
      show "length (chunk_supply s2) < fuel'" using Suc.prems(5) sup s2(4) fuel by simp
    qed (rule Suc.prems(2))
    then obtain p s' where p: "get_empty_loop fuel' n ?f (hd (?xs @ [?f])) s2 = Some (p, s')"
        "splits_off n ?xs s2 p s'"
      using ff by auto
    have "next_of s2 ?f = Some (hd (?xs @ [?f]))" using ring_next [OF s2(2)] .
    then obtain c where c: "chunks s2 ?f = Some c" "c_next c = hd (?xs @ [?f])"
      by (auto simp: next_of_Some)
    have w: "empty_walk n ?f ?f s = Some None"
      using empty_walk_spec [OF Suc.prems(1), of 0 n] False by simp
    have "get_empty_loop fuel n ?f (hd (xs @ [?f])) s = Some (p, s')"
      using w s1 s2(1) c p(1) ff by (simp add: fuel)
    moreover have "splits_off n xs s p s'"
    proof -
      obtain ps tl where t: "length (p # ps) = n" "ring s' (p # ps)" "ring s' (?f # tl)"
          "set (p # ps) \<inter> set (?f # tl) = {}"
          "set (p # ps) \<union> set tl \<subseteq> set ?xs \<union> (dom (chunks s') - dom (chunks s2))"
          "grown (set (?f # ?xs)) s2 s'" "sound_supply (dom (chunks s')) (chunk_supply s')"
        using p(2) ff unfolding splits_off_def by auto
      have mc: "set ?xs \<subseteq> more_chunks h \<union> set xs" "more_chunks h \<inter> dom (chunks s) = {}"
        using Suc.prems(3) sup by (auto simp: more_chunks_def CHUNKS_PER_ALLOC_def)
      have "grown ({?f} \<union> set (?f # ?xs)) s s'" by (rule grown_trans [OF s2(3) t(6)])
      then have "grown (set (?f # xs)) s s'"
        by (rule grown_restrict) (use mc in auto)
      moreover have "more_chunks h \<subseteq> dom (chunks s')" using grown_dom [OF t(6)] s2(5) by blast
      then have "set (p # ps) \<union> set tl \<subseteq> set xs \<union> (dom (chunks s') - dom (chunks s))"
        using t(5) mc s2(5) by blast
      ultimately show ?thesis unfolding splits_off_def using t by blast
    qed
    ultimately show ?thesis by blast
  qed
qed

lemma get_empty_spec:
  assumes "ring s (free_chunks s # xs)" and "1 \<le> n"
    and "sound_supply (dom (chunks s)) (chunk_supply s)"
    and "n \<le> length xs + CHUNKS_PER_ALLOC * length (chunk_supply s)"
  shows "\<exists>p s'. get_empty_chunks n s = Some (p, s') \<and> splits_off n xs s p s'"
proof -
  obtain c where "chunks s (free_chunks s) = Some c" "c_next c = hd (xs @ [free_chunks s])"
    using ring_next [OF assms(1)] by (auto simp: next_of_Some)
  then show ?thesis
    using get_empty_loop_spec [OF assms lessI]
    by (simp add: get_empty_chunks_def del: get_empty_loop.simps)
qed

end
