(* ===== verification/GC_Lists.thy ===== *)
theory GC_Lists
  imports GC_Ring "HOL-Library.Multiset"
begin

text \<open>
  The allocation and garbage lists: filling fresh chunks with blocks, taking a full chunk from the
  global list, and what allocation, freeing and reclamation do to the lists and their blocks.
\<close>

section \<open>Blocks of a chunk, and updates within a set of chunks\<close>

definition blocks_of :: "gc_state \<Rightarrow> nat \<Rightarrow> nat list" where
  "blocks_of s p = (case chunks s p of None \<Rightarrow> [] | Some c \<Rightarrow> take (c_i c) (c_blk c))"

definition full :: "gc_state \<Rightarrow> nat \<Rightarrow> bool" where
  "full s p \<longleftrightarrow> (\<exists>c. chunks s p = Some c \<and> c_i c = BLKS_PER_CHUNK \<and> length (c_blk c) = BLKS_PER_CHUNK)"

definition within :: "nat set \<Rightarrow> gc_state \<Rightarrow> gc_state \<Rightarrow> bool" where
  "within A s s' \<longleftrightarrow> dom (chunks s) \<subseteq> dom (chunks s') \<and>
     (\<forall>p \<in> dom (chunks s) - A. chunks s' p = chunks s p)"

lemma within_trans: "within A s s' \<Longrightarrow> within B s' s'' \<Longrightarrow> within (A \<union> B) s s''"
  unfolding within_def by (metis DiffD1 DiffD2 DiffI UnCI subset_eq)

lemma within_restrict: "within A s s' \<Longrightarrow> A \<inter> dom (chunks s) \<subseteq> B \<Longrightarrow> within B s s'"
  unfolding within_def by blast

lemma grown_within: "grown A s s' \<Longrightarrow> within A s s'"
  unfolding within_def using grown_dom [of A s s'] by (auto simp: grown_def)

lemma relinked_within: "relinked A s s' \<Longrightarrow> within A s s'"
  by (rule grown_within [OF relinked_grown])

lemma within_ring: "within A s s' \<Longrightarrow> ring s xs \<Longrightarrow> set xs \<inter> A = {} \<Longrightarrow> ring s' xs"
  using ring_cong [of xs s' s] ring_dom [of s xs] unfolding within_def next_of_def
  by (metis (no_types, lifting) DiffI disjoint_iff subsetD)

lemma relinked_contents:
  assumes "relinked A s s'" "chunks s p = Some c"
  shows "\<exists>c'. chunks s' p = Some c' \<and> c_i c' = c_i c \<and> c_blk c' = c_blk c"
proof -
  obtain h where h: "s' = s\<lparr>chunks := h\<rparr>" "map_option c_i (h p) = map_option c_i (chunks s p)"
      "map_option c_blk (h p) = map_option c_blk (chunks s p)"
    using assms(1) unfolding relinked_def by blast
  then show ?thesis using assms(2) by (cases "h p") auto
qed

lemma relinked_blocks:
  assumes "relinked A s s'"
  shows "blocks_of s' p = blocks_of s p" "full s' p = full s p"
proof -
  obtain h where h: "s' = s\<lparr>chunks := h\<rparr>" "map_option c_i (h p) = map_option c_i (chunks s p)"
      "map_option c_blk (h p) = map_option c_blk (chunks s p)"
    using assms unfolding relinked_def by blast
  show "blocks_of s' p = blocks_of s p" "full s' p = full s p"
    using h by (cases "h p"; cases "chunks s p"; auto simp: blocks_of_def full_def)+
qed

lemma grown_blocks:
  assumes "grown A s s'" "p \<in> dom (chunks s)"
  shows "blocks_of s' p = blocks_of s p" "full s' p = full s p"
proof -
  obtain h u where h: "s' = s\<lparr>chunks := h, chunk_supply := u\<rparr>" "map_option c_i (h p) = map_option c_i (chunks s p)"
      "map_option c_blk (h p) = map_option c_blk (chunks s p)"
    using assms unfolding grown_def by blast
  show "blocks_of s' p = blocks_of s p" "full s' p = full s p"
    using h by (cases "h p"; cases "chunks s p"; auto simp: blocks_of_def full_def)+
qed

section \<open>get\_filled\_chunks\<close>

text \<open>The blocks of the \<open>k\<close>-th chunk of an array that starts at \<open>node\<close>.\<close>

definition block_row :: "nat \<Rightarrow> nat \<Rightarrow> nat \<Rightarrow> nat list" where
  "block_row node sz k = map (\<lambda>i. node + (k * BLKS_PER_CHUNK + i) * sz) [0..<BLKS_PER_CHUNK]"

lemma length_block_row [simp]: "length (block_row node sz k) = BLKS_PER_CHUNK"
  by (simp add: block_row_def)

lemma fill_loop_spec:
  assumes "ring s xs" and "k < length xs"
  shows "\<exists>s'. fill_loop (length xs - k) (xs ! k) (hd xs) (node + k * BLKS_PER_CHUNK * sz) sz s = Some s' \<and>
    (\<forall>j<length xs. k \<le> j \<longrightarrow> full s' (xs ! j) \<and> blocks_of s' (xs ! j) = block_row node sz j) \<and>
    (\<exists>h. s' = s\<lparr>chunks := h\<rparr>) \<and> (\<forall>p. next_of s' p = next_of s p) \<and>
    (\<forall>p. p \<notin> set (drop k xs) \<longrightarrow> chunks s' p = chunks s p)"
  using assms
proof (induction "length xs - k" arbitrary: k s)
  case (Suc m)
  let ?p = "xs ! k"
  obtain c where c: "chunks s ?p = Some c" "c_next c = (if Suc k < length xs then xs ! Suc k else hd xs)"
    using ring_nth_next [OF Suc.prems] by (auto simp: next_of_Some)
  have fuel: "length xs - k = Suc (length xs - Suc k)" using Suc.prems by simp
  let ?row = "map (\<lambda>i. node + k * BLKS_PER_CHUNK * sz + i * sz) [0..<BLKS_PER_CHUNK]"
  let ?s = "s\<lparr>chunks := (chunks s)(?p \<mapsto> c\<lparr>c_i := BLKS_PER_CHUNK, c_blk := ?row\<rparr>)\<rparr>"
  have row: "?row = block_row node sz k"
    by (simp add: block_row_def algebra_simps)
  have here: "full ?s ?p" "blocks_of ?s ?p = block_row node sz k"
    using row by (simp_all add: full_def blocks_of_def)
  have nx: "next_of ?s p = next_of s p" for p using c by (simp add: next_of_def)
  have d: "distinct xs" using Suc.prems by (simp add: ring_def)
  show ?case
  proof (cases "Suc k < length xs")
    case False
    then have "k = length xs - 1" using Suc.prems by simp
    then have "drop k xs = [?p]" using Suc.prems by (simp add: Cons_nth_drop_Suc [symmetric])
    have "j = k" if "j < length xs" "k \<le> j" for j using that \<open>k = length xs - 1\<close> by simp
    then have "\<forall>j<length xs. k \<le> j \<longrightarrow> full ?s (xs ! j) \<and> blocks_of ?s (xs ! j) = block_row node sz j"
      using here by blast
    moreover have "fill_loop (length xs - k) ?p (hd xs) (node + k * BLKS_PER_CHUNK * sz) sz s = Some ?s"
      using False c by (simp add: fuel Let_def)
    moreover have "\<forall>p. p \<notin> set (drop k xs) \<longrightarrow> chunks ?s p = chunks s p"
      using \<open>drop k xs = [?p]\<close> by simp
    ultimately show ?thesis using nx by blast
  next
    case True
    then have "xs ! Suc k \<noteq> hd xs" using d by (cases xs) auto
    have r: "ring ?s xs" using Suc.prems ring_cong [of xs ?s s] nx by simp
    have "m = length xs - Suc k" using Suc.hyps(2) by simp
    from Suc.hyps(1) [OF this r True] obtain s' where
      s': "fill_loop (length xs - Suc k) (xs ! Suc k) (hd xs) (node + Suc k * BLKS_PER_CHUNK * sz) sz ?s = Some s'"
        "\<forall>j<length xs. Suc k \<le> j \<longrightarrow> full s' (xs ! j) \<and> blocks_of s' (xs ! j) = block_row node sz j"
        "\<exists>h. s' = ?s\<lparr>chunks := h\<rparr>" "\<forall>p. next_of s' p = next_of ?s p"
        "\<forall>p. p \<notin> set (drop (Suc k) xs) \<longrightarrow> chunks s' p = chunks ?s p"
      by blast
    have "?p \<notin> set (drop (Suc k) xs)"
      using d Suc.prems(2) by (metis Cons_nth_drop_Suc distinct.simps(2) distinct_drop)
    then have "chunks s' ?p = chunks ?s ?p" using s'(5) by blast
    then have "full s' ?p" "blocks_of s' ?p = block_row node sz k"
      using here by (simp_all add: full_def blocks_of_def)
    then have "\<forall>j<length xs. k \<le> j \<longrightarrow> full s' (xs ! j) \<and> blocks_of s' (xs ! j) = block_row node sz j"
      using s'(2) by (metis Suc_leI le_neq_implies_less)
    moreover have "node + Suc k * BLKS_PER_CHUNK * sz = node + k * BLKS_PER_CHUNK * sz + BLKS_PER_CHUNK * sz"
      by (simp add: algebra_simps)
    with s'(1) have "fill_loop (length xs - Suc k) (xs ! Suc k) (hd xs)
        (node + k * BLKS_PER_CHUNK * sz + BLKS_PER_CHUNK * sz) sz ?s = Some s'" by (simp only:)
    then have "fill_loop (length xs - k) ?p (hd xs) (node + k * BLKS_PER_CHUNK * sz) sz s = Some s'"
      using c True \<open>xs ! Suc k \<noteq> hd xs\<close> by (simp add: fuel Let_def)
    moreover have "\<exists>h. s' = s\<lparr>chunks := h\<rparr>" using s'(3) by auto
    moreover have "\<forall>p. next_of s' p = next_of s p" using s'(4) nx by simp
    moreover have "\<forall>p. p \<notin> set (drop k xs) \<longrightarrow> chunks s' p = chunks s p"
      using s'(5) Suc.prems(2) by (auto simp: Cons_nth_drop_Suc [symmetric])
    ultimately show ?thesis by blast
  qed
qed simp


declare fill_loop.simps [simp del]

lemma mset_concat_map: "mset (concat (map f xs)) = (\<Sum>x\<in>#mset xs. mset (f x))"
  by (induction xs) auto

lemma map_by_index: "(\<And>j. j < length zs \<Longrightarrow> f (zs ! j) = g j) \<Longrightarrow> map f zs = map g [0..<length zs]"
  by (intro nth_equalityI) auto

lemma concat_rows: "concat (map (block_row node sz) [0..<n]) = map (\<lambda>j. node + j * sz) [0..<n * BLKS_PER_CHUNK]"
proof (induction n)
  case (Suc n)
  have "[0..<Suc n * BLKS_PER_CHUNK] = [0..<n * BLKS_PER_CHUNK] @ map (\<lambda>i. n * BLKS_PER_CHUNK + i) [0..<BLKS_PER_CHUNK]"
    using upt_add_eq_append [of 0 "n * BLKS_PER_CHUNK" BLKS_PER_CHUNK]
    by (simp add: map_add_upt add.commute)
  then show ?case using Suc by (simp add: block_row_def)
qed simp

text \<open>
  What \<^verbatim>\<open>get_filled_chunks\<close> returns: a ring of \<open>n\<close> full chunks that together hold the \<open>n * 100\<close>
  consecutive blocks of the new array; the head of the free list keeps a ring.
\<close>

definition filled :: "nat \<Rightarrow> nat \<Rightarrow> nat \<Rightarrow> nat list \<Rightarrow> gc_state \<Rightarrow> nat \<Rightarrow> gc_state \<Rightarrow> bool" where
  "filled n node sz xs s p s' \<longleftrightarrow> (\<exists>ps rest. length (p # ps) = n \<and> ring s' (p # ps) \<and>
     ring s' (free_chunks s # rest) \<and> set (p # ps) \<inter> set (free_chunks s # rest) = {} \<and>
     (\<forall>q \<in> set (p # ps). full s' q) \<and>
     concat (map (blocks_of s') (p # ps)) = map (\<lambda>j. node + j * sz) [0..<n * BLKS_PER_CHUNK] \<and>
     set (p # ps) \<union> set rest \<subseteq> set xs \<union> (dom (chunks s') - dom (chunks s)) \<and>
     within (set (free_chunks s # xs)) s s' \<and> sound_supply (dom (chunks s')) (chunk_supply s') \<and>
     (\<exists>h u b. s' = s\<lparr>chunks := h, chunk_supply := u, block_supply := b\<rparr>))"

lemma get_filled_spec:
  assumes r: "ring s (free_chunks s # xs)" and n: "1 \<le> n"
    and ss: "sound_supply (dom (chunks s)) (chunk_supply s)"
    and sup: "n \<le> length xs + CHUNKS_PER_ALLOC * length (chunk_supply s)"
    and b: "block_supply s = node # brest"
  shows "\<exists>p s'. get_filled_chunks n sz s = Some (p, s') \<and> filled n node sz xs s p s'"
proof -
  let ?s0 = "s\<lparr>block_supply := brest\<rparr>" and ?f = "free_chunks s"
  have "ring ?s0 (free_chunks ?s0 # xs)"
    using r ring_cong [of "?f # xs" ?s0 s] by (simp add: next_of_def)
  from get_empty_spec [OF this n] ss sup obtain p s1 where s1: "get_empty_chunks n ?s0 = Some (p, s1)"
      "splits_off n xs ?s0 p s1"
    by auto
  obtain ps rest where t: "length (p # ps) = n" "ring s1 (p # ps)" "ring s1 (?f # rest)"
      "set (p # ps) \<inter> set (?f # rest) = {}"
      "set (p # ps) \<union> set rest \<subseteq> set xs \<union> (dom (chunks s1) - dom (chunks s))"
      "grown (set (?f # xs)) ?s0 s1" "sound_supply (dom (chunks s1)) (chunk_supply s1)"
    using s1(2) unfolding splits_off_def by auto
  have "0 < length (p # ps)" by simp
  from fill_loop_spec [OF t(2) this, of node sz] have
    "\<exists>s2. fill_loop n p p node sz s1 = Some s2 \<and>
      (\<forall>j<n. full s2 ((p # ps) ! j) \<and> blocks_of s2 ((p # ps) ! j) = block_row node sz j) \<and>
      (\<exists>h. s2 = s1\<lparr>chunks := h\<rparr>) \<and> (\<forall>q. next_of s2 q = next_of s1 q) \<and>
      (\<forall>q. q \<notin> set (p # ps) \<longrightarrow> chunks s2 q = chunks s1 q)"
    using t(1) by simp
  then obtain s2 where
    s2: "fill_loop n p p node sz s1 = Some s2"
      "\<forall>j<n. full s2 ((p # ps) ! j) \<and> blocks_of s2 ((p # ps) ! j) = block_row node sz j"
      "\<exists>h. s2 = s1\<lparr>chunks := h\<rparr>" "\<forall>q. next_of s2 q = next_of s1 q"
      "\<forall>q. q \<notin> set (p # ps) \<longrightarrow> chunks s2 q = chunks s1 q"
    by blast
  have dom: "dom (chunks s2) = dom (chunks s1)"
    using s2(4) unfolding next_of_def dom_def by (metis option.map_disc_iff)
  have "map (blocks_of s2) (p # ps) = map (block_row node sz) [0..<n]"
    using map_by_index [of "p # ps" "blocks_of s2" "block_row node sz"] s2(2) t(1) by metis
  then have "concat (map (blocks_of s2) (p # ps)) = map (\<lambda>j. node + j * sz) [0..<n * BLKS_PER_CHUNK]"
    by (simp only: concat_rows)
  moreover have "\<forall>q \<in> set (p # ps). full s2 q"
    using s2(2) t(1) by (metis in_set_conv_nth)
  moreover have "ring s2 (p # ps)" "ring s2 (?f # rest)"
    using t(2,3) ring_cong s2(4) by metis+
  moreover have "within (set (?f # xs)) s s2"
  proof -
    have w0: "within (set (?f # xs)) s s1" using grown_within [OF t(6)] by (simp add: within_def)
    have "within (set (p # ps)) s1 s2" using s2(5) dom by (simp add: within_def)
    from within_trans [OF w0 this] show ?thesis
      by (rule within_restrict) (use t(5) in auto)
  qed
  moreover have "\<exists>h u b. s2 = s\<lparr>chunks := h, chunk_supply := u, block_supply := b\<rparr>"
  proof -
    obtain h where h: "s2 = s1\<lparr>chunks := h\<rparr>" using s2(3) by blast
    obtain k u where "s1 = ?s0\<lparr>chunks := k, chunk_supply := u\<rparr>" using t(6) unfolding grown_def by blast
    then have "s2 = s\<lparr>chunks := h, chunk_supply := u, block_supply := brest\<rparr>" using h by simp
    then show ?thesis by blast
  qed
  moreover have "chunk_supply s2 = chunk_supply s1" using s2(3) by auto
  ultimately have "filled n node sz xs s p s2"
    unfolding filled_def using t(1,4,5,7) dom by (intro exI [of _ ps] exI [of _ rest]) auto
  moreover have "get_filled_chunks n sz s = Some (p, s2)"
    using s1(1) s2(1) b by (simp add: get_filled_chunks_def)
  ultimately show ?thesis by blast
qed

section \<open>get\_alloc\_chunk\<close>

lemma within_full: "within A s s' \<Longrightarrow> p \<in> dom (chunks s) \<Longrightarrow> p \<notin> A \<Longrightarrow>
    full s' p = full s p \<and> blocks_of s' p = blocks_of s p"
  by (auto simp: within_def full_def blocks_of_def)

text \<open>Taking the first chunk off a list that is not empty.\<close>

lemma take_chunk:
  assumes r: "ring s (a # p # as)" and f: "full s p" and fuel: "0 < fuel"
  shows "\<exists>s1 s2. get_alloc_loop fuel i a p s = Some (p, s1) \<and> put_next p p s1 = Some s2 \<and>
    ring s2 [p] \<and> ring s2 (a # as) \<and> relinked {a, p} s s2"
proof -
  obtain fuel' where fl: "fuel = Suc fuel'" using fuel by (cases fuel) auto
  have ap: "a \<noteq> p" using r by (auto simp: ring_def)
  have na: "next_of s a = Some p" using ring_next [OF r] by simp
  have np: "next_of s p = Some (hd (as @ [a]))"
    using ring_nth_next [OF r, of 1] by (cases as) auto
  then obtain c where c: "chunks s p = Some c" "c_next c = hd (as @ [a])" by (auto simp: next_of_Some)
  obtain s1 where s1: "cas_next a p (hd (as @ [a])) s = Some (p, s1)" "relinked {a} s s1"
      "next_of s1 a = Some (hd (as @ [a]))"
    using cas_next_spec [OF na] by blast
  have "chunks s1 p = Some c" using relinked_chunks [OF s1(2)] c ap by simp
  then obtain s2 where s2: "put_next p p s1 = Some s2" "relinked {p} s1 s2" "next_of s2 p = Some p"
    using put_next_spec by blast
  have rl: "relinked {a, p} s s2" using relinked_trans [OF s1(2) s2(2)] by (simp add: insert_commute)
  have "ring s2 ([] @ [p]) \<and> ring s2 (a # as)"
  proof (rule ring_split)
    show "ring s (a # [] @ p # as)" using r by simp
    show "next_of s2 a = Some (hd (as @ [a]))" using relinked_next [OF s2(2), of a] ap s1(3) by simp
  qed (use s2(3) rl in simp_all)
  then show ?thesis using s1(1) s2(1) c rl ap by (simp add: fl)
qed

text \<open>
  What \<^verbatim>\<open>get_alloc_chunk\<close> returns: a full chunk in a ring of its own, the rest of the list in a
  ring with its head.
\<close>

lemma get_alloc_here:
  assumes a: "nth_opt (global_alloc s) i = Some a" and r: "ring s (a # p # as)" and f: "full s p"
  shows "\<exists>s'. get_alloc_chunk i s = Some (p, s') \<and> ring s' [p] \<and> ring s' (a # as) \<and>
    full s' p \<and> relinked {a, p} s s'"
proof -
  obtain s1 s2 where s: "get_alloc_loop 2 i a p s = Some (p, s1)" "put_next p p s1 = Some s2"
      "ring s2 [p]" "ring s2 (a # as)" "relinked {a, p} s s2"
    using take_chunk [OF r f, of 2 i] by auto
  have f2: "full s2 p" using f relinked_blocks(2) [OF s(5)] by simp
  then obtain c where c: "chunks s2 p = Some c" "c_i c = BLKS_PER_CHUNK" by (auto simp: full_def)
  obtain ac where ac: "chunks s a = Some ac" "c_next ac = p"
    using ring_next [OF r] by (auto simp: next_of_Some)
  have "get_alloc_chunk i s = Some (p, s2)"
    using a ac s(1,2) c by (simp add: get_alloc_chunk_def)
  then show ?thesis using s f2 by blast
qed

lemma get_alloc_refill:
  assumes a: "nth_opt (global_alloc s) i = Some a" and r: "ring s [a]"
    and fr: "ring s (free_chunks s # xs)" and d: "a \<noteq> free_chunks s" "a \<notin> set xs"
    and n: "nth_opt (alloc_size s) i = Some n" "1 \<le> n" and sz: "nth_opt (blk_sizes s) i = Some sz"
    and ss: "sound_supply (dom (chunks s)) (chunk_supply s)"
    and sup: "n \<le> length xs + CHUNKS_PER_ALLOC * length (chunk_supply s)"
    and b: "block_supply s = node # brest"
  shows "\<exists>p s' as. get_alloc_chunk i s = Some (p, s') \<and> ring s' [p] \<and> ring s' (a # as) \<and>
    full s' p \<and> (\<forall>q \<in> set as. full s' q) \<and> length (p # as) = n \<and>
    mset (concat (map (blocks_of s') (p # as))) = mset (map (\<lambda>j. node + j * sz) [0..<n * BLKS_PER_CHUNK]) \<and>
    within (insert a (set (free_chunks s # xs))) s s' \<and>
    alloc_size s' = (alloc_size s)[i := n + n div 8]"
proof -
  obtain nh s1 where s1: "get_filled_chunks n sz s = Some (nh, s1)" "filled n node sz xs s nh s1"
    using get_filled_spec [OF fr n(2) ss sup b] by blast
  obtain ps rest where t: "length (nh # ps) = n" "ring s1 (nh # ps)"
      "\<forall>q \<in> set (nh # ps). full s1 q"
      "concat (map (blocks_of s1) (nh # ps)) = map (\<lambda>j. node + j * sz) [0..<n * BLKS_PER_CHUNK]"
      "set (nh # ps) \<union> set rest \<subseteq> set xs \<union> (dom (chunks s1) - dom (chunks s))"
      "within (set (free_chunks s # xs)) s s1"
      "\<exists>h u b. s1 = s\<lparr>chunks := h, chunk_supply := u, block_supply := b\<rparr>"
    using s1(2) unfolding filled_def by blast
  have as1: "alloc_size s1 = alloc_size s" "length (alloc_size s) > i" "alloc_size s ! i = n"
    using t(7) n(1) by (auto simp: nth_opt_def split: if_splits)
  let ?s2 = "s1\<lparr>alloc_size := (alloc_size s)[i := n + n div 8]\<rparr>"
  have c2: "chunks ?s2 = chunks s1" by simp
  have r2: "\<And>ys. ring ?s2 ys = ring s1 ys" by (rule ring_cong) (simp add: next_of_def)
  have ra: "ring ?s2 (a # [])" unfolding r2 by (rule within_ring [OF t(6) r]) (use d in auto)
  have "a \<in> dom (chunks s)" using ring_dom [OF r] by simp
  then have dj: "set (a # []) \<inter> set (nh # ps) = {}" using t(5) d by auto
  from add_chunks_spec [OF ra _ dj] t(2) obtain s3 where
    s3: "add_chunks_to_list nh a ?s2 = Some s3" "ring s3 (a # ps @ [nh])" "relinked {a, nh} ?s2 s3"
    using r2 by auto
  obtain p as where pa: "ps @ [nh] = p # as" by (cases "ps @ [nh]") auto
  have set_eq: "set (p # as) = set (nh # ps)" "length (p # as) = n" "mset (p # as) = mset (nh # ps)"
    unfolding pa [symmetric] using t(1) by auto
  have fb: "full s3 q = full s1 q" "blocks_of s3 q = blocks_of s1 q" for q
    using relinked_blocks [OF s3(3)] by (simp_all add: full_def blocks_of_def)
  have full3: "\<forall>q \<in> set (p # as). full s3 q" using t(3) fb set_eq(1) by metis
  then have "full s3 p" by simp
  from take_chunk [OF s3(2) [unfolded pa] this, of 1 i] obtain s4 s5 where
    s4: "get_alloc_loop 1 i a p s3 = Some (p, s4)" "put_next p p s4 = Some s5" "ring s5 [p]"
      "ring s5 (a # as)" "relinked {a, p} s3 s5"
    by auto
  have full5: "\<forall>q \<in> set (p # as). full s5 q" using full3 relinked_blocks(2) [OF s4(5)] by simp
  then obtain c where c: "chunks s5 p = Some c" "c_i c = BLKS_PER_CHUNK" by (auto simp: full_def)
  obtain ac where ac: "chunks s a = Some ac" "c_next ac = a"
    using r by (auto simp: ring_single next_of_Some)
  obtain ac3 where ac3: "chunks s3 a = Some ac3" "c_next ac3 = p"
    using ring_next [OF s3(2) [unfolded pa]] by (auto simp: next_of_Some)
  have "get_alloc_loop (Suc 1) i a a s = get_alloc_loop 1 i a p s3"
    using n(1) sz s1(1) as1 s3(1) ac3
    by (subst get_alloc_loop.simps(2)) (simp add: Let_def del: get_alloc_loop.simps)
  then have "get_alloc_loop 2 i a a s = get_alloc_loop 1 i a p s3"
    by (simp only: numeral_2_eq_2 One_nat_def)
  then have e: "get_alloc_chunk i s = Some (p, s5)"
    using a ac s4(1,2) c by (simp add: get_alloc_chunk_def)
  have bl: "map (blocks_of s5) (p # as) = map (blocks_of s1) (p # as)"
    using relinked_blocks(1) [OF s4(5)] fb(2) by simp
  have "mset (concat (map (blocks_of s1) (p # as))) = mset (concat (map (blocks_of s1) (nh # ps)))"
    by (simp only: mset_concat_map set_eq(3))
  then have "mset (concat (map (blocks_of s5) (p # as))) = mset (map (\<lambda>j. node + j * sz) [0..<n * BLKS_PER_CHUNK])"
    unfolding bl t(4) .
  moreover have "within (insert a (set (free_chunks s # xs))) s s5"
  proof -
    have w: "within {a, nh} s1 s3" using relinked_within [OF s3(3)] by (simp add: within_def)
    have "p \<in> set (nh # ps)" using set_eq(1) by auto
    then show ?thesis
      using within_trans [OF within_trans [OF t(6) w] relinked_within [OF s4(5)]] t(5)
      by (rule_tac within_restrict) auto
  qed
  moreover have "alloc_size s5 = (alloc_size s)[i := n + n div 8]"
    using s3(3) s4(5) by (auto simp: relinked_def)
  ultimately show ?thesis using e s4(3,4) full5 set_eq(2) by auto
qed


section \<open>Operations of a thread on its own lists\<close>

text \<open>Taking a block from the current chunk, and putting one back with \<^verbatim>\<open>gc_unsafe_free\<close>.\<close>

definition local_chunk :: "gc_state \<Rightarrow> nat \<Rightarrow> nat \<Rightarrow> nat \<Rightarrow> bool" where
  "local_chunk s t i ch \<longleftrightarrow> (\<exists>pt. ptsts s t = Some pt \<and> nth_opt (local_alloc (ptst_gc pt)) i = Some ch)"

lemma gc_alloc_local:
  assumes l: "local_chunk s t i ch" and c: "chunks s ch = Some c" "length (c_blk c) = BLKS_PER_CHUNK"
    and n: "0 < c_i c" "c_i c \<le> BLKS_PER_CHUNK"
  shows "\<exists>s'. gc_alloc t i s = Some (last (blocks_of s ch), s') \<and>
    blocks_of s' ch = butlast (blocks_of s ch) \<and> s' = s\<lparr>chunks := (chunks s)(ch \<mapsto> c\<lparr>c_i := c_i c - 1\<rparr>)\<rparr>"
proof -
  obtain k where k: "c_i c = Suc k" "k < length (c_blk c)" using n c by (cases "c_i c") auto
  have b: "blocks_of s ch = take k (c_blk c) @ [c_blk c ! k]"
    using c k by (simp add: blocks_of_def take_Suc_conv_app_nth)
  show ?thesis
    using l c k unfolding b
    by (auto simp: gc_alloc_def local_chunk_def nth_opt_def put_i_def blocks_of_def Let_def)
qed

lemma gc_unsafe_free_local:
  assumes l: "local_chunk s t i ch" and c: "chunks s ch = Some c" "length (c_blk c) = BLKS_PER_CHUNK"
    and n: "c_i c < BLKS_PER_CHUNK"
  shows "\<exists>s'. gc_unsafe_free t b i s = Some s' \<and> blocks_of s' ch = blocks_of s ch @ [b] \<and>
    s' = s\<lparr>chunks := (chunks s)(ch \<mapsto> c\<lparr>c_i := c_i c + 1, c_blk := (c_blk c)[c_i c := b]\<rparr>)\<rparr>"
  using assms
  by (auto simp: gc_unsafe_free_def local_chunk_def push_blk_def blocks_of_def take_Suc_conv_app_nth Let_def)

text \<open>Linking a single chunk into a ring, after the member \<open>x\<close>.\<close>

lemma ring_insert:
  assumes r: "ring s (x # xs)" and y: "y \<notin> set (x # xs)"
    and n: "next_of s' x = Some y" "next_of s' y = Some (hd (xs @ [x]))"
    and o: "\<And>q. q \<in> set xs \<Longrightarrow> next_of s' q = next_of s q"
  shows "ring s' (x # y # xs)"
proof -
  have "chain s (xs @ [x])" using r by (cases xs) (auto simp: ring_def)
  moreover have "chain s' (xs @ [x]) = chain s (xs @ [x])" by (rule chain_cong) (simp add: o)
  ultimately have "chain s' (y # xs @ [x])" using n(2) by (cases xs) auto
  then show ?thesis using n(1) r y by (simp add: ring_def)
qed

lemma ring_rotate:
  assumes "ring s (xs @ ys)"
  shows "ring s (ys @ xs)"
proof (cases "xs = [] \<or> ys = []")
  case False
  then obtain x xs' y ys' where e: "xs = x # xs'" "ys = y # ys'" by (metis list.exhaust)
  have "chain s (x # xs' @ y # ys' @ [x])" "distinct (xs @ ys)" using assms e by (simp_all add: ring_def)
  then have "chain s (x # xs' @ [y])" "chain s (y # ys' @ [x])"
    using chain_append [of s "x # xs'" y "ys' @ [x]"] by simp_all
  then have "chain s (y # ys' @ x # xs' @ [y])"
    using chain_append [of s "y # ys'" x "xs' @ [y]"] by simp
  then show ?thesis using \<open>distinct (xs @ ys)\<close> e by (auto simp: ring_def)
qed (use assms in auto)

lemma set_gc_fields [simp]:
  "chunks (set_gc t gc s) = chunks s" "global_alloc (set_gc t gc s) = global_alloc s"
  "free_chunks (set_gc t gc s) = free_chunks s" "current (set_gc t gc s) = current s"
  "inreclaim (set_gc t gc s) = inreclaim s" "nr_sizes (set_gc t gc s) = nr_sizes s"
  "ptst_list (set_gc t gc s) = ptst_list s"
  by (simp_all add: set_gc_def)

lemma set_gc_ptst: "ptsts (set_gc t gc s) u =
    (if u = t then map_option (\<lambda>p. p\<lparr>ptst_gc := gc\<rparr>) (ptsts s t) else ptsts s u)"
  by (simp add: set_gc_def)

lemma next_of_chunks: "chunks s' = chunks s \<Longrightarrow> next_of s' = next_of s"
  by (simp add: next_of_def fun_eq_iff)

lemma ring_chunks:
  assumes "chunks s' = chunks s"
  shows "ring s' xs = ring s xs"
  by (rule ring_cong) (simp only: next_of_chunks [OF assms])

lemma blocks_of_chunks: "chunks s' = chunks s \<Longrightarrow> blocks_of s' p = blocks_of s p"
  by (simp add: blocks_of_def)

text \<open>When the current chunk is used up, a full one comes from the global list.\<close>

lemma gc_alloc_refill:
  assumes pt: "ptsts s t = Some pt" "nth_opt (local_alloc (ptst_gc pt)) i = Some ch"
      "nth_opt (alloc_chunks (ptst_gc pt)) i = Some n"
    and n: "n \<noteq> 100" and ch: "ring s (ch # cs)" "chunks s ch = Some c" "c_i c = 0"
    and a: "nth_opt (global_alloc s) i = Some a" "ring s (a # p # as)" "full s p"
    and d: "set (ch # cs) \<inter> set (a # p # as) = {}"
  shows "\<exists>s'. gc_alloc t i s = Some (last (blocks_of s p), s') \<and> ring s' (ch # p # cs) \<and> ring s' (a # as) \<and>
    blocks_of s' p = butlast (blocks_of s p) \<and> local_chunk s' t i p"
proof -
  from get_alloc_here [OF a] obtain s1 where s1: "get_alloc_chunk i s = Some (p, s1)" "ring s1 [p]"
      "ring s1 (a # as)" "full s1 p" "relinked {a, p} s s1"
    by blast
  have chd: "ch \<noteq> a" "ch \<noteq> p" "p \<notin> set cs" "a \<notin> set cs" "a \<noteq> p" "p \<notin> set as" "ch \<notin> set as"
    using d a(2) by (auto simp: ring_def)
  have c1: "chunks s1 ch = Some c" using relinked_chunks [OF s1(5)] ch(2) chd by simp
  have cn: "c_next c = hd (cs @ [ch])" using ring_next [OF ch(1)] ch(2) by (simp add: next_of_def)
  obtain pc where "chunks s1 p = Some pc" using s1(4) by (auto simp: full_def)
  then obtain s2 where s2: "put_next p (c_next c) s1 = Some s2" "relinked {p} s1 s2"
      "next_of s2 p = Some (c_next c)"
    using put_next_spec by blast
  have "chunks s2 ch = Some c" using relinked_chunks [OF s2(2)] c1 chd by simp
  then obtain s3 where s3: "put_next ch p s2 = Some s3" "relinked {ch} s2 s3" "next_of s3 ch = Some p"
    using put_next_spec by blast
  let ?gc = "(ptst_gc pt)\<lparr>alloc_chunks := (alloc_chunks (ptst_gc pt))[i := n + 1],
      local_alloc := (local_alloc (ptst_gc pt))[i := p]\<rparr>"
  let ?s4 = "set_gc t ?gc s3"
  have r3: "relinked {p, ch} s1 s3" using relinked_trans [OF s2(2) s3(2)] by (simp add: insert_commute)
  have full3: "full ?s4 p" using s1(4) relinked_blocks(2) [OF r3] by (simp add: full_def)
  have bl: "blocks_of ?s4 p = blocks_of s p"
    using relinked_blocks(1) [OF r3] relinked_blocks(1) [OF s1(5)] by (simp add: blocks_of_def)
  obtain c4 where c4: "chunks ?s4 p = Some c4" "c_i c4 = BLKS_PER_CHUNK" "length (c_blk c4) = BLKS_PER_CHUNK"
    using full3 by (auto simp: full_def)
  let ?s5 = "?s4\<lparr>chunks := (chunks ?s4)(p \<mapsto> c4\<lparr>c_i := c_i c4 - 1\<rparr>)\<rparr>"
  define k where "k = BLKS_PER_CHUNK - 1"
  then have k: "BLKS_PER_CHUNK = Suc k" by (simp add: BLKS_PER_CHUNK_def)
  have "c_blk c4 = take k (c_blk c4) @ [c_blk c4 ! k]"
    using c4 take_Suc_conv_app_nth [of k "c_blk c4"] by (simp add: k)
  then have b4: "blocks_of ?s4 p = take k (c_blk c4) @ [c_blk c4 ! k]"
    using c4 by (simp add: blocks_of_def)
  have "gc_alloc t i s = Some (c_blk c4 ! k, ?s5)"
    using pt n ch(2,3) s1(1) c1 s2(1) s3(1) c4
    by (simp add: gc_alloc_def Let_def nth_opt_def put_i_def k)
  moreover have "last (blocks_of s p) = c_blk c4 ! k" using b4 bl by (metis last_snoc)
  ultimately have e: "gc_alloc t i s = Some (last (blocks_of s p), ?s5)" by (simp only:)
  have nx: "next_of ?s5 = next_of s3" using c4 by (simp add: next_of_def fun_eq_iff)
  have "ring s3 (ch # p # cs)"
  proof (rule ring_insert [OF ch(1)])
    show "next_of s3 p = Some (hd (cs @ [ch]))" using relinked_next [OF s3(2), of p] chd s2(3) cn by simp
    show "next_of s3 q = next_of s q" if "q \<in> set cs" for q
    proof -
      have "q \<noteq> ch" "q \<noteq> p" "q \<noteq> a" using that chd ch(1) by (auto simp: ring_def)
      then show ?thesis using relinked_next [OF r3, of q] relinked_next [OF s1(5), of q] by simp
    qed
  qed (use s3(3) chd in auto)
  then have "ring ?s5 (ch # p # cs)" using nx ring_cong by metis
  moreover have "ring s3 (a # as)" using ring_frame [OF r3 _ s1(3)] chd by auto
  then have "ring ?s5 (a # as)" using nx ring_cong by metis
  moreover have "blocks_of ?s5 p = take k (c_blk c4)" using c4 by (simp add: blocks_of_def k)
  then have "blocks_of ?s5 p = butlast (blocks_of s p)" using b4 bl by (metis butlast_snoc)
  moreover have "ptsts s3 = ptsts s" using r3 s1(5) by (auto simp: relinked_def)
  then have "local_chunk ?s5 t i p"
    using pt by (auto simp: local_chunk_def set_gc_ptst nth_opt_def split: if_splits)
  ultimately show ?thesis using e by blast
qed

section \<open>Garbage lists\<close>

text \<open>
  The garbage list of a thread for an epoch and a size: a ring from the newest chunk to the oldest,
  of which the thread keeps the newest and the oldest.
\<close>

definition garbage_list :: "gc_state \<Rightarrow> nat \<Rightarrow> nat \<Rightarrow> nat \<Rightarrow> nat list \<Rightarrow> bool" where
  "garbage_list s t e i xs \<longleftrightarrow> (\<exists>pt. ptsts s t = Some pt \<and>
     nth2 (garbage_head (ptst_gc pt)) e i = Some (if xs = [] then 0 else hd xs) \<and>
     (\<exists>tl. nth2 (garbage_tail (ptst_gc pt)) e i = Some tl \<and> (xs \<noteq> [] \<longrightarrow> tl = last xs \<and> ring s xs))) \<and>
     0 \<notin> set xs \<and> (\<forall>q \<in> set xs. \<exists>c. chunks s q = Some c \<and> length (c_blk c) = BLKS_PER_CHUNK \<and> c_i c \<le> BLKS_PER_CHUNK)"

definition garbage_blocks :: "gc_state \<Rightarrow> nat list \<Rightarrow> nat multiset" where
  "garbage_blocks s xs = mset (concat (map (blocks_of s) xs))"

text \<open>A chunk from the cache that still has one to spare.\<close>

lemma chunk_from_cache_spec:
  assumes r: "ring s (chunk_cache gc # p # cs)" and c: "chunks s p = Some c"
  shows "\<exists>s'. chunk_from_cache gc s = Some (p, gc, s') \<and> ring s' [p] \<and> ring s' (chunk_cache gc # cs) \<and>
    (\<exists>c'. chunks s' p = Some c' \<and> c_i c' = 0 \<and> c_blk c' = c_blk c) \<and> blocks_of s' p = [] \<and>
    within {chunk_cache gc, p} s s' \<and> ptsts s' = ptsts s \<and> blocks_of s' (chunk_cache gc) = blocks_of s (chunk_cache gc)"
proof -
  let ?h = "chunk_cache gc"
  have hp: "?h \<noteq> p" using r by (auto simp: ring_def)
  obtain hc where hc: "chunks s ?h = Some hc" "c_next hc = p"
    using ring_next [OF r] by (auto simp: next_of_Some)
  have cn: "c_next c = hd (cs @ [?h])"
    using ring_nth_next [OF r, of 1] c by (cases cs) (auto simp: next_of_def)
  obtain s1 where s1: "put_next ?h (c_next c) s = Some s1" "relinked {?h} s s1" "next_of s1 ?h = Some (c_next c)"
    using put_next_spec [OF hc(1)] by blast
  have c1: "chunks s1 p = Some c" using relinked_chunks [OF s1(2)] c hp by simp
  then obtain s2 where s2: "put_next p p s1 = Some s2" "relinked {p} s1 s2" "next_of s2 p = Some p"
    using put_next_spec by blast
  have s2e: "s2 = s1\<lparr>chunks := (chunks s1)(p \<mapsto> c\<lparr>c_next := p\<rparr>)\<rparr>"
    using s2(1) c1 by (simp add: put_next_def)
  let ?s3 = "s2\<lparr>chunks := (chunks s2)(p \<mapsto> c\<lparr>c_next := p, c_i := 0\<rparr>)\<rparr>"
  have p3: "put_i p 0 s2 = Some ?s3" using s2e by (simp add: put_i_def)
  have e: "chunk_from_cache gc s = Some (p, gc, ?s3)"
    using hc c hp s1(1) s2(1) p3 by (simp add: chunk_from_cache_def Let_def)
  have nx: "next_of ?s3 = next_of s2" using s2e by (simp add: next_of_def fun_eq_iff)
  have rl: "relinked {?h, p} s s2" using relinked_trans [OF s1(2) s2(2)] by (simp add: insert_commute)
  have "ring s2 ([] @ [p]) \<and> ring s2 (?h # cs)"
  proof (rule ring_split)
    show "ring s (?h # [] @ p # cs)" using r by simp
    show "next_of s2 ?h = Some (hd (cs @ [?h]))" using relinked_next [OF s2(2), of ?h] hp s1(3) cn by simp
  qed (use s2(3) rl in simp_all)
  then have "ring ?s3 [p]" "ring ?s3 (?h # cs)" using nx ring_cong by (metis append_Nil)+
  moreover have "within {?h, p} s ?s3" using relinked_within [OF rl] by (auto simp: within_def)
  moreover have "ptsts ?s3 = ptsts s" using rl by (auto simp: relinked_def)
  moreover have "blocks_of ?s3 ?h = blocks_of s ?h"
    using relinked_blocks(1) [OF rl, of ?h] hp by (simp add: blocks_of_def)
  ultimately show ?thesis using e by (auto simp: blocks_of_def)
qed


text \<open>
  In general: the last chunk of a cache comes with a fresh cache of 100 chunks.
\<close>

definition cache_ok :: "gc_st \<Rightarrow> gc_state \<Rightarrow> nat list \<Rightarrow> nat list \<Rightarrow> bool" where
  "cache_ok gc s cs fs \<longleftrightarrow> ring s (chunk_cache gc # cs) \<and> ring s (free_chunks s # fs) \<and>
     set (chunk_cache gc # cs) \<inter> set (free_chunks s # fs) = {} \<and>
     sound_supply (dom (chunks s)) (chunk_supply s) \<and> 100 \<le> length fs + CHUNKS_PER_ALLOC * length (chunk_supply s) \<and>
     (\<forall>q \<in> set (chunk_cache gc # cs). q \<noteq> 0 \<and> (\<exists>c. chunks s q = Some c \<and> length (c_blk c) = BLKS_PER_CHUNK))"

definition from_cache :: "gc_st \<Rightarrow> gc_state \<Rightarrow> nat list \<Rightarrow> nat list \<Rightarrow> nat \<Rightarrow> gc_st \<Rightarrow> gc_state \<Rightarrow> bool" where
  "from_cache gc s cs fs p gc' s' \<longleftrightarrow> p \<in> set (chunk_cache gc # cs) \<and> ring s' [p] \<and>
     (\<exists>c. chunks s' p = Some c \<and> c_i c = 0 \<and> length (c_blk c) = BLKS_PER_CHUNK) \<and>
     (\<exists>cs'. ring s' (chunk_cache gc' # cs') \<and> p \<notin> set (chunk_cache gc' # cs')) \<and>
     gc' = gc\<lparr>chunk_cache := chunk_cache gc'\<rparr> \<and> ptsts s' = ptsts s \<and>
     within (set (chunk_cache gc # cs) \<union> set (free_chunks s # fs)) s s'"

lemma from_cache_spec:
  assumes "cache_ok gc s cs fs"
  shows "\<exists>p gc' s'. chunk_from_cache gc s = Some (p, gc', s') \<and> from_cache gc s cs fs p gc' s'"
proof (cases cs)
  case (Cons p cs')
  have r: "ring s (chunk_cache gc # p # cs')" using assms Cons by (simp add: cache_ok_def)
  obtain c where c: "chunks s p = Some c" "length (c_blk c) = BLKS_PER_CHUNK"
    using assms Cons by (auto simp: cache_ok_def)
  from chunk_from_cache_spec [OF r c(1)] obtain s' where
    "chunk_from_cache gc s = Some (p, gc, s')" "ring s' [p]" "ring s' (chunk_cache gc # cs')"
    "\<exists>c'. chunks s' p = Some c' \<and> c_i c' = 0 \<and> c_blk c' = c_blk c"
    "within {chunk_cache gc, p} s s'" "ptsts s' = ptsts s"
    by blast
  moreover have "p \<notin> set (chunk_cache gc # cs')" using r by (auto simp: ring_def)
  moreover have "within (set (chunk_cache gc # cs) \<union> set (free_chunks s # fs)) s s'"
    by (rule within_restrict [OF calculation(5)]) (auto simp: Cons)
  ultimately show ?thesis using c(2) Cons
    by (intro exI [of _ p] exI [of _ gc] exI [of _ s']) (auto simp: from_cache_def)
next
  case Nil
  let ?h = "chunk_cache gc" and ?f = "free_chunks s"
  have r: "ring s [?h]" and rf: "ring s (?f # fs)" and d: "?h \<notin> set (?f # fs)"
    using assms Nil by (simp_all add: cache_ok_def)
  obtain c where c: "chunks s ?h = Some c" "c_next c = ?h" "length (c_blk c) = BLKS_PER_CHUNK"
    using assms r Nil by (auto simp: cache_ok_def ring_single next_of_Some)
  from get_empty_spec [OF rf, of 100] assms obtain x s1 where
    s1: "get_empty_chunks 100 s = Some (x, s1)" "splits_off 100 fs s x s1"
    by (auto simp: cache_ok_def)
  from s1(2) obtain ps where ps: "ring s1 (x # ps)" "set (x # ps) \<subseteq> set fs \<union> (dom (chunks s1) - dom (chunks s))"
      "grown (set (?f # fs)) s s1"
    unfolding splits_off_def by auto
  have hd: "?h \<in> dom (chunks s)" using c by auto
  have c1: "chunks s1 ?h = Some c" using grown_within [OF ps(3)] hd d c(1) by (auto simp: within_def)
  let ?s2 = "s1\<lparr>chunks := (chunks s1)(?h \<mapsto> c\<lparr>c_i := 0\<rparr>)\<rparr>"
  have nx: "next_of ?s2 = next_of s1" using c1 by (simp add: next_of_def fun_eq_iff)
  have e: "chunk_from_cache gc s = Some (?h, gc\<lparr>chunk_cache := x\<rparr>, ?s2)"
    using c s1(1) c1 by (simp add: chunk_from_cache_def put_i_def Let_def)
  have "?h \<notin> set (x # ps)" using ps(2) d hd by auto
  moreover have "ring ?s2 [?h]" using c c1 by (simp add: ring_single next_of_def)
  moreover have "ring ?s2 (x # ps)" using ps(1) nx ring_cong by metis
  moreover have "ptsts ?s2 = ptsts s" using ps(3) by (auto simp: grown_def)
  moreover have "within (set (?h # cs) \<union> set (?f # fs)) s ?s2"
    using grown_within [OF ps(3)] by (auto simp: within_def)
  ultimately have "from_cache gc s cs fs ?h (gc\<lparr>chunk_cache := x\<rparr>) ?s2"
    using c(3) by (auto simp: from_cache_def)
  then show ?thesis using e by blast
qed

lemma push_blk_spec:
  assumes "chunks s p = Some c" "c_i c < length (c_blk c)"
  shows "\<exists>s'. push_blk p b s = Some s' \<and> next_of s' = next_of s \<and> ptsts s' = ptsts s \<and>
    (\<exists>c'. chunks s' p = Some c' \<and> length (c_blk c') = length (c_blk c) \<and> c_i c' = c_i c + 1) \<and>
    blocks_of s' p = blocks_of s p @ [b] \<and> (\<forall>q. q \<noteq> p \<longrightarrow> chunks s' q = chunks s q)"
  using assms
  by (auto simp: push_blk_def next_of_def fun_eq_iff blocks_of_def take_Suc_conv_app_nth)

lemma nth2_upd2: "nth2 xss e i = Some y \<Longrightarrow> nth2 (upd2 xss e i x) e i = Some x"
  by (auto simp: nth2_def upd2_def nth_opt_def split: if_splits)

lemma blocks_of_same: "chunks s' q = chunks s q \<Longrightarrow> blocks_of s' q = blocks_of s q"
  by (simp add: blocks_of_def)

text \<open>
  \<^verbatim>\<open>gc_free\<close>, in all three of its cases: the block is added to the garbage of the epoch of the
  thread, and the list gets at most one more chunk, which comes from the cache.
\<close>

definition freed :: "gc_state \<Rightarrow> nat \<Rightarrow> nat \<Rightarrow> nat \<Rightarrow> nat \<Rightarrow> nat list \<Rightarrow> nat set \<Rightarrow> gc_state \<Rightarrow> bool" where
  "freed s t e i b xs C s' \<longleftrightarrow> (\<exists>xs'. garbage_list s' t e i xs' \<and>
     garbage_blocks s' xs' = add_mset b (garbage_blocks s xs) \<and> (xs' = xs \<or> (\<exists>p \<in> C. xs' = p # xs)))"

lemma gc_free_push:
  assumes g: "garbage_list s t e i (ch # xs)" and pt: "ptsts s t = Some pt" "e = epoch (ptst_gc pt)"
    and c: "chunks s ch = Some c" "c_i c \<noteq> BLKS_PER_CHUNK"
  shows "\<exists>s'. gc_free t b i s = Some s' \<and> freed s t e i b (ch # xs) C s'"
proof -
  have len: "length (c_blk c) = BLKS_PER_CHUNK" "c_i c < BLKS_PER_CHUNK" "ch \<noteq> 0"
    using g c by (auto simp: garbage_list_def)
  from push_blk_spec [OF c(1), of b] len obtain s' where
    s': "push_blk ch b s = Some s'" "next_of s' = next_of s" "ptsts s' = ptsts s"
      "\<exists>c'. chunks s' ch = Some c' \<and> length (c_blk c') = BLKS_PER_CHUNK \<and> c_i c' = c_i c + 1"
      "blocks_of s' ch = blocks_of s ch @ [b]" "\<forall>q. q \<noteq> ch \<longrightarrow> chunks s' q = chunks s q"
    by auto
  have e: "gc_free t b i s = Some s'"
    using g pt c len s'(1) by (auto simp: gc_free_def garbage_list_def Let_def)
  have r: "ring s' (ch # xs)" using g s'(2) ring_cong by (metis garbage_list_def list.distinct(1))
  have d: "ch \<notin> set xs" using r by (simp add: ring_def)
  then have m: "map (blocks_of s') xs = map (blocks_of s) xs"
    using s'(6) blocks_of_same by (metis map_eq_conv)
  have "garbage_blocks s' (ch # xs) = add_mset b (garbage_blocks s (ch # xs))"
    unfolding garbage_blocks_def list.map m s'(5) by simp
  moreover have "garbage_list s' t e i (ch # xs)"
    using g r s'(3,4,6) d len by (auto simp: garbage_list_def) (metis+)?
  ultimately show ?thesis using e by (auto simp: freed_def)
qed

text \<open>A fresh chunk that takes the block, before it is linked with the rest of the list.\<close>

lemma gc_free_empty:
  assumes g: "garbage_list s t e i []" and pt: "ptsts s t = Some pt" "e = epoch (ptst_gc pt)"
    and k: "cache_ok (ptst_gc pt) s cs fs"
  shows "\<exists>s'. gc_free t b i s = Some s' \<and> freed s t e i b [] (set (chunk_cache (ptst_gc pt) # cs)) s'"
proof -
  from from_cache_spec [OF k] obtain p gc' s1 where
    f: "chunk_from_cache (ptst_gc pt) s = Some (p, gc', s1)" "from_cache (ptst_gc pt) s cs fs p gc' s1"
    by blast
  obtain c where c: "chunks s1 p = Some c" "c_i c = 0" "length (c_blk c) = BLKS_PER_CHUNK"
    and r1: "ring s1 [p]" and gc': "gc' = (ptst_gc pt)\<lparr>chunk_cache := chunk_cache gc'\<rparr>"
    and p: "p \<in> set (chunk_cache (ptst_gc pt) # cs)" "ptsts s1 = ptsts s"
    using f(2) unfolding from_cache_def by blast
  let ?gc = "gc'\<lparr>garbage_head := upd2 (garbage_head gc') e i p, garbage_tail := upd2 (garbage_tail gc') e i p\<rparr>"
  let ?s2 = "set_gc t ?gc s1"
  have "chunks ?s2 p = Some c" "c_i c < length (c_blk c)" using c by (simp_all add: BLKS_PER_CHUNK_def)
  from push_blk_spec [OF this, of b] obtain s3 where
    s3: "push_blk p b ?s2 = Some s3" "next_of s3 = next_of s1" "ptsts s3 = ptsts ?s2"
      "\<exists>c'. chunks s3 p = Some c' \<and> length (c_blk c') = BLKS_PER_CHUNK \<and> c_i c' = 1"
      "blocks_of s3 p = blocks_of s1 p @ [b]"
    using c next_of_chunks [of ?s2 s1] blocks_of_chunks [of ?s2 s1 p] by auto
  have p0: "p \<noteq> 0" using p(1) k by (auto simp: cache_ok_def)
  have hd: "nth2 (garbage_head (ptst_gc pt)) e i = Some 0"
    using g pt by (auto simp: garbage_list_def)
  obtain tl where tl: "nth2 (garbage_tail (ptst_gc pt)) e i = Some tl"
    using g pt by (auto simp: garbage_list_def)
  have e: "gc_free t b i s = Some s3"
    using pt hd f(1) s3(1) by (simp add: gc_free_def Let_def)
  have fld: "garbage_head gc' = garbage_head (ptst_gc pt)" "garbage_tail gc' = garbage_tail (ptst_gc pt)"
    by (subst gc', simp)+
  have "ptsts s3 t = Some (pt\<lparr>ptst_gc := ?gc\<rparr>)" using s3(3) p(2) pt by (simp add: set_gc_ptst)
  moreover have "nth2 (garbage_head ?gc) e i = Some p" "nth2 (garbage_tail ?gc) e i = Some p"
    using nth2_upd2 [OF hd] nth2_upd2 [OF tl] fld by simp_all
  moreover have "ring s3 [p]" using r1 s3(2) ring_cong by metis
  ultimately have "garbage_list s3 t e i [p]"
    using s3(4) p0 by (auto simp: garbage_list_def BLKS_PER_CHUNK_def)
  moreover have "blocks_of s1 p = []" using c by (simp add: blocks_of_def)
  then have "garbage_blocks s3 [p] = add_mset b (garbage_blocks s [])"
    using s3(5) by (simp add: garbage_blocks_def)
  ultimately show ?thesis using e p(1) by (auto simp: freed_def)
qed

lemma ring_front:
  assumes "ring s xs" "xs \<noteq> []" "y \<notin> set xs"
    and "next_of s' (last xs) = Some y" "next_of s' y = Some (hd xs)"
    and "\<And>q. q \<in> set xs \<Longrightarrow> q \<noteq> last xs \<Longrightarrow> next_of s' q = next_of s q"
  shows "ring s' (y # xs)"
proof -
  have x: "xs = butlast xs @ [last xs]" using assms(2) by simp
  then have r: "ring s (last xs # butlast xs)"
    using assms(1) ring_rotate [of s "butlast xs" "[last xs]"] by simp
  have m: "set (last xs # butlast xs) = set xs" using arg_cong [OF x, of set] by simp
  have h: "hd (butlast xs @ [last xs]) = hd xs" using assms(2) by simp
  have l: "last xs \<notin> set (butlast xs)" using r by (simp add: ring_def)
  have "ring s' (last xs # y # butlast xs)"
  proof (rule ring_insert [OF r])
    show "next_of s' q = next_of s q" if "q \<in> set (butlast xs)" for q
      using assms(6) [of q] that l by (metis in_set_butlastD)
  qed (use assms m h in auto)
  then have "ring s' ((y # butlast xs) @ [last xs])" using ring_rotate [of s' "[last xs]" "y # butlast xs"] by simp
  then show ?thesis using x by simp
qed

lemma gc_free_full:
  assumes g: "garbage_list s t e i xs" and ne: "xs \<noteq> []" and pt: "ptsts s t = Some pt" "e = epoch (ptst_gc pt)"
    and c: "chunks s (hd xs) = Some c" "c_i c = BLKS_PER_CHUNK"
    and k: "cache_ok (ptst_gc pt) s cs fs"
    and d: "set xs \<inter> (set (chunk_cache (ptst_gc pt) # cs) \<union> set (free_chunks s # fs)) = {}"
  shows "\<exists>s'. gc_free t b i s = Some s' \<and> freed s t e i b xs (set (chunk_cache (ptst_gc pt) # cs)) s'"
proof -
  from from_cache_spec [OF k] obtain p gc' s1 where
    f: "chunk_from_cache (ptst_gc pt) s = Some (p, gc', s1)" "from_cache (ptst_gc pt) s cs fs p gc' s1"
    by blast
  obtain pc where pc: "chunks s1 p = Some pc" "c_i pc = 0" "length (c_blk pc) = BLKS_PER_CHUNK"
    and gc': "gc' = (ptst_gc pt)\<lparr>chunk_cache := chunk_cache gc'\<rparr>"
    and p: "p \<in> set (chunk_cache (ptst_gc pt) # cs)" "ptsts s1 = ptsts s"
    and w: "within (set (chunk_cache (ptst_gc pt) # cs) \<union> set (free_chunks s # fs)) s s1"
    using f(2) unfolding from_cache_def by blast
  have px: "p \<notin> set xs" "p \<noteq> 0" using p(1) d k by (auto simp: cache_ok_def)
  have r: "ring s xs" and hd: "nth2 (garbage_head (ptst_gc pt)) e i = Some (hd xs)"
    and tl: "nth2 (garbage_tail (ptst_gc pt)) e i = Some (last xs)"
    and lens: "\<forall>q \<in> set xs. \<exists>c. chunks s q = Some c \<and> length (c_blk c) = BLKS_PER_CHUNK \<and> c_i c \<le> BLKS_PER_CHUNK"
    and n0: "0 \<notin> set xs"
    using g pt ne by (auto simp: garbage_list_def)
  have hd0: "hd xs \<noteq> 0" using hd_in_set [OF ne] n0 by metis
  have same1: "chunks s1 q = chunks s q" if "q \<in> set xs" for q
    using w ring_dom [OF r] that d unfolding within_def by blast
  obtain s2 where s2: "put_next p (hd xs) s1 = Some s2" "relinked {p} s1 s2" "next_of s2 p = Some (hd xs)"
    using put_next_spec [OF pc(1)] by blast
  have lx: "last xs \<in> set xs" using ne by simp
  then have "chunks s2 (last xs) = chunks s (last xs)"
    using relinked_chunks [OF s2(2)] px same1 by (metis singletonD)
  then obtain lc where "chunks s2 (last xs) = Some lc" using lens lx by auto
  then obtain s3 where s3: "put_next (last xs) p s2 = Some s3" "relinked {last xs} s2 s3"
      "next_of s3 (last xs) = Some p"
    using put_next_spec by blast
  have rl: "relinked {p, last xs} s1 s3"
    using relinked_trans [OF s2(2) s3(2)] by (simp add: insert_commute)
  let ?gc = "gc'\<lparr>garbage_head := upd2 (garbage_head gc') e i p\<rparr>"
  let ?s4 = "set_gc t ?gc s3"
  have np: "next_of s3 p = Some (hd xs)" using relinked_next [OF s3(2), of p] s2(3) px lx by auto
  have r3: "ring s3 (p # xs)"
  proof (rule ring_front [OF r ne px(1) s3(3) np])
    show "next_of s3 q = next_of s q" if "q \<in> set xs" "q \<noteq> last xs" for q
      using relinked_next [OF rl, of q] same1 [OF that(1)] that px by (auto simp: next_of_def)
  qed
  obtain c3 where c3: "chunks s3 p = Some c3" "c_i c3 = 0" "length (c_blk c3) = BLKS_PER_CHUNK"
    using relinked_contents [OF rl pc(1)] pc by auto
  have "chunks ?s4 p = Some c3" "c_i c3 < length (c_blk c3)" using c3 by (simp_all add: BLKS_PER_CHUNK_def)
  from push_blk_spec [OF this, of b] obtain s5 where
    s5: "push_blk p b ?s4 = Some s5" "next_of s5 = next_of s3" "ptsts s5 = ptsts ?s4"
      "\<exists>c'. chunks s5 p = Some c' \<and> length (c_blk c') = BLKS_PER_CHUNK \<and> c_i c' = 1"
      "blocks_of s5 p = blocks_of s3 p @ [b]" "\<forall>q. q \<noteq> p \<longrightarrow> chunks s5 q = chunks s3 q"
    using c3 next_of_chunks [of ?s4 s3] blocks_of_chunks [of ?s4 s3 p] by auto
  have e: "gc_free t b i s = Some s5"
    using pt hd hd0 tl c f(1) s2(1) s3(1) s5(1) by (simp add: gc_free_def Let_def)
  have fld: "garbage_head gc' = garbage_head (ptst_gc pt)" "garbage_tail gc' = garbage_tail (ptst_gc pt)"
    by (subst gc', simp)+
  have "ptsts s5 t = Some (pt\<lparr>ptst_gc := ?gc\<rparr>)"
    using s5(3) p(2) pt rl by (auto simp: set_gc_ptst relinked_def)
  moreover have "nth2 (garbage_head ?gc) e i = Some p" "nth2 (garbage_tail ?gc) e i = Some (last (p # xs))"
    using nth2_upd2 [OF hd] tl fld ne by simp_all
  moreover have "ring s5 (p # xs)" using r3 s5(2) ring_cong by metis
  moreover have bl3: "blocks_of s3 q = blocks_of s q" if "q \<in> set xs" for q
    using relinked_blocks(1) [OF rl] blocks_of_same [OF same1 [OF that]] by simp
  moreover have "\<exists>c. chunks s5 q = Some c \<and> length (c_blk c) = BLKS_PER_CHUNK \<and> c_i c \<le> BLKS_PER_CHUNK"
    if q: "q \<in> set xs" for q
  proof -
    obtain qc where qc: "chunks s1 q = Some qc" "length (c_blk qc) = BLKS_PER_CHUNK" "c_i qc \<le> BLKS_PER_CHUNK"
      using lens q same1 by auto
    then have "\<exists>c. chunks s3 q = Some c \<and> c_blk c = c_blk qc \<and> c_i c = c_i qc"
      using relinked_contents [OF rl] by blast
    then show ?thesis using qc s5(6) px q by auto
  qed
  ultimately have gl: "garbage_list s5 t e i (p # xs)"
    using s5(4) px n0 by (auto simp: garbage_list_def BLKS_PER_CHUNK_def)
  have "blocks_of s3 p = []" using c3 by (simp add: blocks_of_def)
  have m: "map (blocks_of s5) xs = map (blocks_of s) xs"
    using s5(6) bl3 blocks_of_same px(1) by (metis (no_types, lifting) map_eq_conv)
  have "garbage_blocks s5 (p # xs) = add_mset b (garbage_blocks s xs)"
    unfolding garbage_blocks_def list.map s5(5) m \<open>blocks_of s3 p = []\<close> by simp
  with gl e p(1) show ?thesis by (auto simp: freed_def)
qed

lemma gc_free_spec:
  assumes g: "garbage_list s t e i xs" and pt: "ptsts s t = Some pt" "e = epoch (ptst_gc pt)"
    and k: "cache_ok (ptst_gc pt) s cs fs"
    and d: "set xs \<inter> (set (chunk_cache (ptst_gc pt) # cs) \<union> set (free_chunks s # fs)) = {}"
  shows "\<exists>s'. gc_free t b i s = Some s' \<and> freed s t e i b xs (set (chunk_cache (ptst_gc pt) # cs)) s'"
proof (cases xs)
  case Nil
  then show ?thesis using gc_free_empty [of s t e i] g pt k by blast
next
  case (Cons ch ys)
  then obtain c where "chunks s ch = Some c" using g by (auto simp: garbage_list_def)
  then show ?thesis
    using gc_free_push [of s t e i ch ys] gc_free_full [of s t e i xs pt c] g pt k d Cons
    by (cases "c_i c = BLKS_PER_CHUNK") auto
qed

section \<open>Reclaiming a garbage list\<close>

text \<open>
  \<open>reclaim_size\<close> keeps the newest chunk of the list and inserts all the others, oldest last, at the
  front of the global allocation list.
\<close>

lemma full_of_chunks: "chunks s' = chunks s \<Longrightarrow> full s' p = full s p"
  by (simp add: full_def)

lemma reclaim_size_spec:
  assumes g: "garbage_list s t e i (x # y # ys)"
    and a: "nth_opt (global_alloc s) i = Some al" "ring s (al # as)"
    and d: "set (x # y # ys) \<inter> set (al # as) = {}"
  shows "\<exists>s'. reclaim_size t e i s = Some s' \<and> garbage_list s' t e i [x] \<and>
    ring s' (al # ys @ y # as) \<and> (\<forall>q. blocks_of s' q = blocks_of s q \<and> full s' q = full s q)"
proof -
  obtain bl l where yl: "y # ys = bl @ [l]" by (metis rev_exhaust list.distinct(1))
  then have ll: "last (y # ys) = l" by (metis last_snoc)
  obtain pt where pt: "ptsts s t = Some pt" and hd: "nth2 (garbage_head (ptst_gc pt)) e i = Some x"
    and tl: "nth2 (garbage_tail (ptst_gc pt)) e i = Some l" and r: "ring s (x # y # ys)"
    and x0: "x \<noteq> 0"
    and lens: "\<forall>q \<in> set (x # y # ys). \<exists>c. chunks s q = Some c \<and> length (c_blk c) = BLKS_PER_CHUNK \<and> c_i c \<le> BLKS_PER_CHUNK"
    using g ll by (auto simp: garbage_list_def)
  obtain xc where xc: "chunks s x = Some xc" "c_next xc = y" using ring_next [OF r] by (auto simp: next_of_Some)
  have xy: "x \<notin> set (y # ys)" using r by (simp add: ring_def)
  have l: "l \<in> set (y # ys)" unfolding yl by simp
  then have lx: "l \<noteq> x" using xy by metis
  obtain lc where "chunks s l = Some lc" using lens l by (meson list.set_intros(2))
  then obtain s1 where s1: "put_next l y s = Some s1" "relinked {l} s s1" "next_of s1 l = Some y"
    using put_next_spec by blast
  let ?gc = "(ptst_gc pt)\<lparr>garbage_tail := upd2 (garbage_tail (ptst_gc pt)) e i x\<rparr>"
  let ?s = "set_gc t ?gc s1"
  have "chunks ?s x = Some xc" using relinked_chunks [OF s1(2), of x] lx xc by simp
  then obtain s2 where s2: "put_next x x ?s = Some s2" "relinked {x} ?s s2" "next_of s2 x = Some x"
    using put_next_spec by blast
  have n1: "next_of ?s q = next_of s1 q" for q using next_of_chunks [of ?s s1] by simp
  have yx: "y # ys @ [z] = bl @ l # [z]" for z
    using arg_cong [OF yl, of "\<lambda>u. u @ [z]"] by simp
  have "chain s (y # ys @ [x])" using r by (simp add: ring_def)
  then have "chain s (bl @ [l])"
    unfolding yx using chain_append [of s "bl" l "[x]"] by blast
  moreover have "chain s2 (bl @ [l]) = chain s (bl @ [l])"
  proof (rule chain_cong)
    fix q assume "q \<in> set (butlast (bl @ [l]))"
    then have q: "q \<in> set bl" by (simp only: butlast_snoc)
    have "distinct (bl @ [l])" unfolding yl [symmetric] using r by (simp add: ring_def)
    then have "q \<noteq> l" using q by auto
    moreover have "q \<noteq> x" using q xy unfolding yl by auto
    ultimately show "next_of s2 q = next_of s q"
      using relinked_next [OF s2(2)] relinked_next [OF s1(2)] n1 by simp
  qed
  moreover have "next_of s2 l = Some y" using relinked_next [OF s2(2), of l] lx n1 s1(3) by simp
  ultimately have "chain s2 (bl @ l # [y])"
    using chain_append [of s2 "bl" l "[y]"] by simp
  then have "chain s2 (y # ys @ [y])" unfolding yx .
  then have ry: "ring s2 (y # ys)" using r by (simp add: ring_def)
  have "l \<in> set (x # y # ys)" using l by simp
  then have "set (al # as) \<inter> {l} = {}" using d by (metis disjoint_insert(1) disjoint_iff inf_bot_right inf_commute)
  then have "ring s1 (al # as)" by (rule ring_frame [OF s1(2) _ a(2)])
  then have "ring ?s (al # as)" using ring_chunks [of ?s s1] by simp
  then have ra: "ring s2 (al # as)" by (rule ring_frame [OF s2(2), rotated]) (use d in auto)
  have "set (al # as) \<inter> set (y # ys) = {}" using d by auto
  from add_chunks_spec [OF ra ry this] obtain s3 where
    s3: "add_chunks_to_list y al s2 = Some s3" "ring s3 (al # ys @ y # as)" "relinked {al, y} s2 s3"
    by blast
  have ga: "global_alloc s2 = global_alloc s"
    using s1(2) s2(2) by (auto simp: relinked_def)
  have e: "reclaim_size t e i s = Some s3"
    using pt hd x0 xc xy tl s1(1) s2(1) s3(1) ga a(1) by (simp add: reclaim_size_def Let_def)
  have bl: "blocks_of s3 q = blocks_of s q \<and> full s3 q = full s q" for q
    using relinked_blocks [OF s3(3), of q] relinked_blocks [OF s2(2), of q] relinked_blocks [OF s1(2), of q]
      blocks_of_chunks [of ?s s1 q] full_of_chunks [of ?s s1 q] by simp
  have p3: "ptsts s3 t = Some (pt\<lparr>ptst_gc := ?gc\<rparr>)"
    using s1(2) s2(2) s3(3) pt by (auto simp: relinked_def set_gc_ptst)
  have "ring s3 [x]" unfolding ring_single using relinked_next [OF s3(3), of x] d xy s2(3) by auto
  moreover have "chunks s3 x = Some (xc\<lparr>c_next := x\<rparr>)"
  proof -
    have "chunks s2 x = Some (xc\<lparr>c_next := x\<rparr>)"
      using s2(1) \<open>chunks ?s x = Some xc\<close> by (auto simp: put_next_def)
    then show ?thesis using relinked_chunks [OF s3(3), of x] d xy by auto
  qed
  moreover have "nth2 (garbage_head ?gc) e i = Some x" "nth2 (garbage_tail ?gc) e i = Some x"
    using hd nth2_upd2 [OF tl] by simp_all
  ultimately have "garbage_list s3 t e i [x]"
    using p3 x0 lens xc by (auto simp: garbage_list_def)
  then show ?thesis using e s3(2) bl by blast
qed

end
