(* ===== verification/GC_Props.thy ===== *)
theory GC_Props
  imports GC_Lists
begin

text \<open>
  Properties of the collector as one thread runs it: chunk lists, allocation and freeing,
  reclamation and the entry to a critical section.
\<close>

section \<open>A small state for the witnesses\<close>

text \<open>
  Chunks 1 to 3 are free, 4 heads the allocation list with the full chunk 5, 6 is the exhausted and
  7 a half full allocation chunk of the threads 0 and 1, 8 and 9 are a cache, 10 to 12 garbage.
\<close>

definition small_chunk :: "nat \<Rightarrow> nat \<Rightarrow> nat \<Rightarrow> nat \<times> chunk" where
  "small_chunk p n i = (p, \<lparr>c_next = n, c_i = i, c_blk = map (\<lambda>j. p * 1000 + j) [0..<BLKS_PER_CHUNK]\<rparr>)"

definition small_gc :: "nat \<Rightarrow> gc_st" where
  "small_gc a = zero_gc\<lparr>chunk_cache := 8, local_alloc := [a], alloc_chunks := [0],
     garbage_head := [[10], [0], [0]], garbage_tail := [[12], [0], [0]]\<rparr>"

definition small_state :: gc_state where
  "small_state = \<lparr>chunks = map_of [small_chunk 1 2 0, small_chunk 2 3 0, small_chunk 3 1 0,
       small_chunk 4 5 100, small_chunk 5 4 100, small_chunk 6 6 0, small_chunk 7 7 60,
       small_chunk 8 9 0, small_chunk 9 8 0, small_chunk 10 11 100, small_chunk 11 12 100, small_chunk 12 10 100],
     current = 0, inreclaim = 0, nr_sizes = 1, blk_sizes = [8], nr_hooks = 0, hook_fns = [],
     free_chunks = 1, global_alloc = [4], alloc_size = [2],
     ptsts = [0 \<mapsto> \<lparr>ptst_id = 0, ptst_count = 1, ptst_gc = small_gc 6, ptst_rand = 1\<rparr>,
              1 \<mapsto> \<lparr>ptst_id = 1, ptst_count = 2, ptst_gc = (small_gc 7)\<lparr>epoch := 2\<rparr>, ptst_rand = 1\<rparr>],
     ptst_list = [1, 0], next_id = 2, chunk_supply = [(1000, \<lambda>_. \<lparr>c_next = 0, c_i = 0, c_blk = replicate 100 0\<rparr>)],
     block_supply = [50000], hook_log = []\<rparr>"

lemma small_next: "next_of small_state = map_of [(1, 2), (2, 3), (3, 1), (4, 5), (5, 4), (6, 6), (7, 7),
    (8, 9), (9, 8), (10, 11), (11, 12), (12, 10)]"
  by (simp add: next_of_def small_state_def small_chunk_def fun_eq_iff)

lemma small_rings: "ring small_state [1, 2, 3]" "ring small_state [4, 5]" "ring small_state [6]"
    "ring small_state [7]" "ring small_state [8, 9]" "ring small_state [10, 11, 12]"
  by (simp_all add: ring_def small_next)

lemma small_dom: "dom (chunks small_state) \<subseteq> {0..<1000}"
  by (auto simp: small_state_def small_chunk_def split: if_splits)

lemma small_supply: "sound_supply (dom (chunks small_state)) (chunk_supply small_state)"
proof -
  have "chunk_supply small_state = [(1000, \<lambda>_. \<lparr>c_next = 0, c_i = 0, c_blk = replicate 100 0\<rparr>)]"
    by (simp add: small_state_def)
  moreover have "more_chunks 1000 \<inter> dom (chunks small_state) = {}"
    using small_dom by (fastforce simp: more_chunks_def)
  ultimately show ?thesis by simp
qed

lemma small_fields [simp]: "free_chunks small_state = 1" "global_alloc small_state = [4]"
    "chunk_supply small_state \<noteq> []" "block_supply small_state = [50000]" "current small_state = 0"
    "inreclaim small_state = 0" "alloc_size small_state = [2]" "blk_sizes small_state = [8]"
    "length (chunk_supply small_state) = 1" "ptst_list small_state = [1, 0]"
  by (simp_all add: small_state_def)

section \<open>Chunk lists\<close>

text \<open>
  \<^verbatim>\<open>get_empty_chunks\<close> returns a ring of exactly \<open>n\<close> chunks, disjoint from the ring that the
  free list still is, all of them taken from the free list or from fresh memory, and changes nothing
  but links.
\<close>

theorem gc_get_empty:
  assumes "ring s (free_chunks s # xs)" and "1 \<le> n"
    and "sound_supply (dom (chunks s)) (chunk_supply s)"
    and "n \<le> length xs + CHUNKS_PER_ALLOC * length (chunk_supply s)"
  shows "\<exists>p s' ps rest. get_empty_chunks n s = Some (p, s') \<and> length (p # ps) = n \<and> ring s' (p # ps) \<and>
     ring s' (free_chunks s # rest) \<and> set (p # ps) \<inter> set (free_chunks s # rest) = {} \<and>
     set (p # ps) \<union> set rest \<subseteq> set xs \<union> (dom (chunks s') - dom (chunks s)) \<and>
     (\<forall>q \<in> dom (chunks s). blocks_of s' q = blocks_of s q) \<and>
     (\<forall>q \<in> dom (chunks s) - set (free_chunks s # xs). chunks s' q = chunks s q)"
proof -
  from get_empty_spec [OF assms] obtain p s' where
    e: "get_empty_chunks n s = Some (p, s')" "splits_off n xs s p s'" by blast
  then obtain ps rest where t: "length (p # ps) = n" "ring s' (p # ps)" "ring s' (free_chunks s # rest)"
      "set (p # ps) \<inter> set (free_chunks s # rest) = {}"
      "set (p # ps) \<union> set rest \<subseteq> set xs \<union> (dom (chunks s') - dom (chunks s))"
      "grown (set (free_chunks s # xs)) s s'"
    unfolding splits_off_def by blast
  then show ?thesis
    using e(1) grown_blocks(1) [OF t(6)] grown_within [OF t(6)] unfolding within_def by blast
qed

theorem gc_get_empty_witness: "\<exists>p s' ps. get_empty_chunks 5 small_state = Some (p, s') \<and> length (p # ps) = 5"
  using gc_get_empty [of small_state "[2, 3]" 5] small_rings small_supply
  by (auto simp: CHUNKS_PER_ALLOC_def)

text \<open>
  C27. When the global list of a size is used up, \<^verbatim>\<open>get_alloc_chunk\<close> takes a new array and carves
  it into blocks: the chunk it returns and those that it adds to the list are full and hold the
  consecutive blocks of the array, each exactly once; the size of the next array grows by an eighth.
\<close>

theorem gc_refill_blocks:
  assumes "nth_opt (global_alloc s) i = Some a" and "ring s [a]"
    and "ring s (free_chunks s # xs)" and "a \<noteq> free_chunks s" "a \<notin> set xs"
    and "nth_opt (alloc_size s) i = Some n" and "1 \<le> n" and "nth_opt (blk_sizes s) i = Some sz"
    and "sound_supply (dom (chunks s)) (chunk_supply s)"
    and "n \<le> length xs + CHUNKS_PER_ALLOC * length (chunk_supply s)"
    and "block_supply s = node # brest"
  shows "\<exists>p s' as. get_alloc_chunk i s = Some (p, s') \<and> ring s' [p] \<and> ring s' (a # as) \<and>
    length (p # as) = n \<and> (\<forall>q \<in> set (p # as). full s' q) \<and>
    mset (concat (map (blocks_of s') (p # as))) = mset (map (\<lambda>j. node + j * sz) [0..<n * BLKS_PER_CHUNK]) \<and>
    alloc_size s' = (alloc_size s)[i := n + n div 8]"
proof -
  from get_alloc_refill [OF assms] obtain p s' as where
    "get_alloc_chunk i s = Some (p, s')" "ring s' [p]" "ring s' (a # as)"
    "full s' p" "\<forall>q \<in> set as. full s' q" "length (p # as) = n"
    "mset (concat (map (blocks_of s') (p # as))) = mset (map (\<lambda>j. node + j * sz) [0..<n * BLKS_PER_CHUNK])"
    "alloc_size s' = (alloc_size s)[i := n + n div 8]"
    by blast
  then show ?thesis by (metis set_ConsD)
qed

definition dry_state :: gc_state where
  "dry_state = small_state\<lparr>global_alloc := [6]\<rparr>"

lemma dry_rings: "ring dry_state xs = ring small_state xs"
  by (rule ring_chunks) (simp add: dry_state_def)

theorem gc_refill_blocks_witness:
  "\<exists>p s' as. get_alloc_chunk 0 dry_state = Some (p, s') \<and> ring s' [p] \<and> ring s' (6 # as) \<and> length (p # as) = 2 \<and>
    mset (concat (map (blocks_of s') (p # as))) = mset (map (\<lambda>j. 50000 + j * 8) [0..<2 * BLKS_PER_CHUNK])"
proof -
  have "free_chunks dry_state = 1" "nth_opt (global_alloc dry_state) 0 = Some 6"
    "nth_opt (alloc_size dry_state) 0 = Some 2" "nth_opt (blk_sizes dry_state) 0 = Some 8"
    "chunk_supply dry_state = chunk_supply small_state" "chunks dry_state = chunks small_state"
    "block_supply dry_state = 50000 # []"
    by (simp_all add: dry_state_def nth_opt_def)
  then show ?thesis
    using gc_refill_blocks [of dry_state 0 6 "[2, 3]" 2 8 50000 "[]"] small_rings small_supply dry_rings
    by (simp add: nth_opt_def) blast
qed

text \<open>
  Allocation takes the newest block of the current chunk of the thread, and \<^verbatim>\<open>gc_unsafe_free\<close>
  undoes it: the chunk holds the same blocks as before and the next allocation returns the same one.
\<close>

theorem gc_alloc_unsafe_free:
  assumes "local_chunk s t i ch" and "chunks s ch = Some c" "length (c_blk c) = BLKS_PER_CHUNK"
    and "0 < c_i c" "c_i c \<le> BLKS_PER_CHUNK"
  shows "\<exists>b s1 s2 s3. gc_alloc t i s = Some (b, s1) \<and> blocks_of s ch = blocks_of s1 ch @ [b] \<and>
    gc_unsafe_free t b i s1 = Some s2 \<and> blocks_of s2 ch = blocks_of s ch \<and>
    gc_alloc t i s2 = Some (b, s3) \<and> blocks_of s3 ch = blocks_of s1 ch"
proof -
  let ?b = "last (blocks_of s ch)" and ?c1 = "c\<lparr>c_i := c_i c - 1\<rparr>"
  let ?s1 = "s\<lparr>chunks := (chunks s)(ch \<mapsto> ?c1)\<rparr>"
  let ?c2 = "?c1\<lparr>c_i := c_i ?c1 + 1, c_blk := (c_blk ?c1)[c_i ?c1 := ?b]\<rparr>"
  let ?s2 = "?s1\<lparr>chunks := (chunks ?s1)(ch \<mapsto> ?c2)\<rparr>"
  have ne: "blocks_of s ch \<noteq> []" using assms by (auto simp: blocks_of_def BLKS_PER_CHUNK_def)
  have a1: "gc_alloc t i s = Some (?b, ?s1)" "blocks_of ?s1 ch = butlast (blocks_of s ch)"
    using gc_alloc_local [OF assms] by auto
  have l1: "local_chunk ?s1 t i ch" and l2: "local_chunk ?s2 t i ch"
    using assms(1) by (simp_all add: local_chunk_def)
  have f: "gc_unsafe_free t ?b i ?s1 = Some ?s2" "blocks_of ?s2 ch = blocks_of ?s1 ch @ [?b]"
    using gc_unsafe_free_local [OF l1, of ?c1 ?b] assms by auto
  have b2: "blocks_of ?s2 ch = blocks_of s ch" using f(2) a1(2) ne by simp
  obtain s3 where "gc_alloc t i ?s2 = Some (last (blocks_of ?s2 ch), s3)" "blocks_of s3 ch = butlast (blocks_of ?s2 ch)"
    using gc_alloc_local [OF l2, of ?c2] assms by auto
  then show ?thesis using a1 f b2 ne by (metis append_butlast_last_id)
qed

theorem gc_alloc_unsafe_free_witness:
  "\<exists>b s1 s2. gc_alloc 1 0 small_state = Some (b, s1) \<and> gc_unsafe_free 1 b 0 s1 = Some s2 \<and>
    blocks_of s2 7 = blocks_of small_state 7"
proof -
  have "local_chunk small_state 1 0 7"
    by (simp add: local_chunk_def small_state_def small_gc_def nth_opt_def)
  moreover have "chunks small_state 7 = Some (snd (small_chunk 7 7 60))"
    by (simp add: small_state_def small_chunk_def)
  ultimately show ?thesis
    using gc_alloc_unsafe_free [of small_state 1 0 7 "snd (small_chunk 7 7 60)"]
    by (auto simp: small_chunk_def BLKS_PER_CHUNK_def)
qed

text \<open>
  When its current chunk is used up, a thread gets a full one from the global list and the last
  block of that one; the old chunk stays in the thread's ring, the global list loses the new one.
\<close>

theorem gc_alloc_next_chunk:
  assumes "ptsts s t = Some pt" "nth_opt (local_alloc (ptst_gc pt)) i = Some ch"
      "nth_opt (alloc_chunks (ptst_gc pt)) i = Some n"
    and "n \<noteq> 100" and "ring s (ch # cs)" "chunks s ch = Some c" "c_i c = 0"
    and "nth_opt (global_alloc s) i = Some a" "ring s (a # p # as)" "full s p"
    and "set (ch # cs) \<inter> set (a # p # as) = {}"
  shows "\<exists>s'. gc_alloc t i s = Some (last (blocks_of s p), s') \<and> ring s' (ch # p # cs) \<and> ring s' (a # as) \<and>
    blocks_of s' p = butlast (blocks_of s p) \<and> local_chunk s' t i p"
  by (rule gc_alloc_refill [OF assms])

theorem gc_alloc_next_chunk_witness:
  "\<exists>s'. gc_alloc 0 0 small_state = Some (last (blocks_of small_state 5), s') \<and> ring s' [6, 5] \<and> ring s' [4]"
proof -
  have "full small_state 5" by (simp add: full_def small_state_def small_chunk_def BLKS_PER_CHUNK_def)
  moreover have "ptsts small_state 0 = Some \<lparr>ptst_id = 0, ptst_count = 1, ptst_gc = small_gc 6, ptst_rand = 1\<rparr>"
    "chunks small_state 6 = Some (snd (small_chunk 6 6 0))"
    by (simp_all add: small_state_def small_chunk_def)
  ultimately show ?thesis
    using gc_alloc_next_chunk [of small_state 0 "\<lparr>ptst_id = 0, ptst_count = 1, ptst_gc = small_gc 6, ptst_rand = 1\<rparr>"
        0 6 0 "[]" "snd (small_chunk 6 6 0)" 4 5 "[]"] small_rings
    by (auto simp: small_gc_def nth_opt_def small_chunk_def)
qed

section \<open>Freeing and reclaiming\<close>

text \<open>
  \<^verbatim>\<open>gc_free\<close> adds the block, and only it, to the garbage of the thread's epoch, whether the
  list is empty, its newest chunk is full or has room; it takes at most one chunk from the cache.
\<close>

theorem gc_free_adds:
  assumes "garbage_list s t e i xs" and "ptsts s t = Some pt" "e = epoch (ptst_gc pt)"
    and "cache_ok (ptst_gc pt) s cs fs"
    and "set xs \<inter> (set (chunk_cache (ptst_gc pt) # cs) \<union> set (free_chunks s # fs)) = {}"
  shows "\<exists>s' xs'. gc_free t b i s = Some s' \<and> garbage_list s' t e i xs' \<and>
    garbage_blocks s' xs' = add_mset b (garbage_blocks s xs) \<and>
    (xs' = xs \<or> (\<exists>p \<in> set (chunk_cache (ptst_gc pt) # cs). xs' = p # xs))"
  using gc_free_spec [OF assms, of b] unfolding freed_def by blast

lemma small_ptst: "ptsts small_state 0 = Some \<lparr>ptst_id = 0, ptst_count = 1, ptst_gc = small_gc 6, ptst_rand = 1\<rparr>"
  by (simp add: small_state_def)

lemma small_garbage: "garbage_list small_state 0 0 0 [10, 11, 12]"
  using small_ptst small_rings(6)
  by (simp add: garbage_list_def small_gc_def nth2_def nth_opt_def)
     (simp add: small_state_def small_chunk_def BLKS_PER_CHUNK_def)

lemma small_cache: "cache_ok (small_gc a) small_state [9] [2, 3]"
  using small_rings small_supply
  by (simp add: cache_ok_def small_gc_def CHUNKS_PER_ALLOC_def)
     (simp add: small_state_def small_chunk_def)

theorem gc_free_adds_witness:
  "\<exists>s' xs'. gc_free 0 77 0 small_state = Some s' \<and>
    garbage_blocks s' xs' = add_mset 77 (garbage_blocks small_state [10, 11, 12])"
  using gc_free_adds [OF small_garbage small_ptst _ _, of "[9]" "[2, 3]" 77] small_cache
  by (auto simp: small_gc_def zero_gc_def)

text \<open>
  Reclaiming a garbage list leaves its newest chunk to the thread and moves all the older ones,
  with their blocks, to the front of the global allocation list of the size.
\<close>

theorem gc_reclaim_moves:
  assumes "garbage_list s t e i (x # y # ys)"
    and "nth_opt (global_alloc s) i = Some al" "ring s (al # as)"
    and "set (x # y # ys) \<inter> set (al # as) = {}"
  shows "\<exists>s'. reclaim_size t e i s = Some s' \<and> garbage_list s' t e i [x] \<and>
    ring s' (al # ys @ y # as) \<and> (\<forall>q. blocks_of s' q = blocks_of s q \<and> full s' q = full s q)"
  by (rule reclaim_size_spec [OF assms])

theorem gc_reclaim_moves_witness:
  "\<exists>s'. reclaim_size 0 0 0 small_state = Some s' \<and> garbage_list s' 0 0 0 [10] \<and> ring s' [4, 12, 11, 5]"
  using gc_reclaim_moves [OF small_garbage, of 4 "[5]"] small_rings(2) by (auto simp: nth_opt_def)

lemma all_seen_blocked:
  assumes "\<forall>u \<in> set ts. ptsts s u \<noteq> None" "t \<in> set ts"
    and "ptsts s t = Some pt" "1 < ptst_count pt" "epoch (ptst_gc pt) \<noteq> e"
  shows "all_seen s e ts = Some False"
  using assms by (induction ts) auto

text \<open>
  One thread inside a critical section with an older epoch is enough to stop reclamation: no
  garbage moves and the epoch does not advance, for as long as the thread stays there. With C8 of
  \<open>Linden_Props\<close>, an idle thread whose insertion was refused has this effect for good.
\<close>

theorem gc_reclaim_blocked:
  assumes "\<forall>u \<in> set (ptst_list s). ptsts s u \<noteq> None" and "t \<in> set (ptst_list s)"
    and "ptsts s t = Some pt" and "1 < ptst_count pt" and "epoch (ptst_gc pt) \<noteq> current s"
  shows "gc_reclaim fuel our s = Some s"
  using all_seen_blocked [of "ptst_list s" "s\<lparr>inreclaim := 1\<rparr>" t pt "current s"] assms
  by (simp add: gc_reclaim_def Let_def)

theorem gc_reclaim_blocked_witness: "gc_reclaim 10 0 small_state = Some small_state"
  using gc_reclaim_blocked [of small_state 1 "\<lparr>ptst_id = 1, ptst_count = 2, ptst_gc = (small_gc 7)\<lparr>epoch := 2\<rparr>, ptst_rand = 1\<rparr>"]
  by (simp add: small_state_def)

section \<open>Entering a critical section\<close>

definition entry_view :: "ptst_st \<Rightarrow> nat \<times> nat \<times> nat" where
  "entry_view p = (ptst_count p, epoch (ptst_gc p), entries_since_reclaim (ptst_gc p))"

text \<open>Reclamation keeps the counts, epochs and entries of all threads.\<close>

definition keeps :: "gc_state \<Rightarrow> gc_state \<Rightarrow> bool" where
  "keeps s s' \<longleftrightarrow> (\<forall>u. map_option entry_view (ptsts s' u) = map_option entry_view (ptsts s u))"


lemma keeps_ptsts: "ptsts s' = ptsts s \<Longrightarrow> keeps s s'"
  by (simp add: keeps_def)
















section \<open>Registration\<close>



end
