(* ===== verification/GC_Epoch.thy ===== *)
theory GC_Epoch
  imports Main
begin

text \<open>
  The epoch protocol of \<^verbatim>\<open>gc_enter\<close>, \<^verbatim>\<open>gc_exit\<close>, \<^verbatim>\<open>gc_free\<close> and \<^verbatim>\<open>gc_reclaim\<close> under any
  interleaving: one access to shared state per step. The blocks are abstracted to what the protocol
  is about: whether a block is live, retired (by which thread, into the list of which epoch) or
  handed back for allocation, and which blocks a thread inside a critical section may still use.
\<close>

section \<open>State\<close>

text \<open>
  Where a thread stands: \<open>Idle\<close> outside, \<open>Reading\<close> before \<^verbatim>\<open>new_epoch = gc_global.current\<close>,
  \<open>Writing e\<close> before \<^verbatim>\<open>gc->epoch = new_epoch\<close>, \<open>Crit\<close> inside; the others are the positions of
  \<^verbatim>\<open>gc_reclaim\<close>, with \<open>curr_epoch\<close>, the list that starts at \<open>first_ptst\<close> and the rest of it that
  the current loop still has to visit.
\<close>

datatype epc =
    Idle | Reading | Writing nat | Crit
  | Testing | Locking | Listing | Loading "nat list"
  | Counting nat "nat list" "nat list" | Comparing nat "nat list" "nat list"
  | Freeing nat "nat list" | Unlocking

datatype block = Unused | Live | Retired nat nat | Recycled

record ep_thread =
  e_pc :: epc
  e_count :: nat
  e_epoch :: nat
  e_entries :: nat
  e_refs :: "nat set"

text \<open>
  The ghost fields \<open>e_gen\<close> and \<open>g_gen\<close> count epochs without the wrap-around at 3, \<open>g_when\<close> is the
  count at which a block was retired.
\<close>

record ep_state =
  g_current :: nat
  g_inreclaim :: bool
  g_list :: "nat list"
  g_threads :: "nat \<Rightarrow> ep_thread"
  g_blocks :: "nat \<Rightarrow> block"
  g_gen :: nat
  g_tgen :: "nat \<Rightarrow> nat"
  g_when :: "nat \<Rightarrow> nat"

section \<open>Steps\<close>

text \<open>
  \<open>Go\<close> is the next step of the function a thread is in. Inside a critical section the client
  chooses: a nested entry, an exit, a new block, the use of a live block, retiring a block.
  \<open>Sweep xs\<close> is the pass of \<^verbatim>\<open>gc_reclaim\<close> over one thread; \<open>xs\<close> are the blocks in the chunks it
  moves (all but the newest chunk of the list).
\<close>

datatype command = Go | Nest | Leave | Alloc nat | Use nat | Retire nat | Sweep "nat list"

definition upd_thread :: "nat \<Rightarrow> (ep_thread \<Rightarrow> ep_thread) \<Rightarrow> ep_state \<Rightarrow> ep_state" where
  "upd_thread t f s = s\<lparr>g_threads := (g_threads s)(t := f (g_threads s t))\<rparr>"

definition goto_pc :: "nat \<Rightarrow> epc \<Rightarrow> ep_state \<Rightarrow> ep_state" where
  "goto_pc t p = upd_thread t (\<lambda>l. l\<lparr>e_pc := p\<rparr>)"

definition set_epoch :: "nat \<Rightarrow> nat \<Rightarrow> nat \<Rightarrow> ep_state \<Rightarrow> ep_state" where
  "set_epoch t e g s = (upd_thread t (\<lambda>l. l\<lparr>e_epoch := e, e_entries := 0, e_pc := Crit\<rparr>) s)
     \<lparr>g_tgen := (g_tgen s)(t := g)\<rparr>"

text \<open>
  \<open>gc_enter\<close> up to the start of a reclamation; the flag \<open>atomic\<close> distinguishes the code (\<open>False\<close>),
  which reads \<open>current\<close> and writes \<open>epoch\<close> in two steps, from the protocol in which no thread
  comes between (\<open>True\<close>).
\<close>

definition enter_step :: "bool \<Rightarrow> nat \<Rightarrow> ep_state \<Rightarrow> ep_state" where
  "enter_step atomic t s = (let l = g_threads s t in
     case e_pc l of
       Idle \<Rightarrow>
         if t \<notin> set (g_list s) then s\<lparr>g_list := t # g_list s\<rparr>
         else upd_thread t (\<lambda>l. l\<lparr>e_count := e_count l + 1, e_pc := Reading\<rparr>) s
     | Reading \<Rightarrow>
         if e_epoch l \<noteq> g_current s
         then if atomic then set_epoch t (g_current s) (g_gen s) s
              else (goto_pc t (Writing (g_current s)) s)\<lparr>g_tgen := (g_tgen s)(t := g_gen s)\<rparr>
         else if e_entries l = 100
         then upd_thread t (\<lambda>l. l\<lparr>e_entries := 0, e_count := e_count l - 1, e_pc := Testing\<rparr>) s
         else (upd_thread t (\<lambda>l. l\<lparr>e_entries := e_entries l + 1, e_pc := Crit\<rparr>) s)
              \<lparr>g_tgen := (g_tgen s)(t := g_gen s)\<rparr>
     | Writing e \<Rightarrow> set_epoch t e (g_tgen s t) s
     | _ \<Rightarrow> s)"

text \<open>\<open>gc_reclaim\<close>; \<open>xs\<close> is used by the sweep only.\<close>

definition reclaim_step :: "nat \<Rightarrow> nat list \<Rightarrow> ep_state \<Rightarrow> ep_state option" where
  "reclaim_step t xs s = (case e_pc (g_threads s t) of
       Testing \<Rightarrow> Some (goto_pc t (if g_inreclaim s then Idle else Locking) s)
     | Locking \<Rightarrow>
         if g_inreclaim s then Some (goto_pc t Idle s)
         else Some ((goto_pc t Listing s)\<lparr>g_inreclaim := True\<rparr>)
     | Listing \<Rightarrow> Some (goto_pc t (Loading (g_list s)) s)
     | Loading us \<Rightarrow> Some (goto_pc t (Counting (g_current s) us us) s)
     | Counting c us [] \<Rightarrow> Some (goto_pc t (Freeing c us) s)
     | Counting c us (u # r) \<Rightarrow>
         Some (goto_pc t (if e_count (g_threads s u) > 1 then Comparing c us (u # r) else Counting c us r) s)
     | Comparing c us [] \<Rightarrow> None
     | Comparing c us (u # r) \<Rightarrow>
         Some (goto_pc t (if e_epoch (g_threads s u) \<noteq> c then Unlocking else Counting c us r) s)
     | Freeing c (u # r) \<Rightarrow>
         if list_all (\<lambda>x. g_blocks s x = Retired u ((c + 1) mod 3)) xs
         then Some ((goto_pc t (Freeing c r) s)
           \<lparr>g_blocks := (\<lambda>x. if x \<in> set xs then Recycled else g_blocks s x)\<rparr>)
         else None
     | Freeing c [] \<Rightarrow>
         Some ((goto_pc t Unlocking s)\<lparr>g_current := (c + 1) mod 3, g_gen := g_gen s + 1\<rparr>)
     | Unlocking \<Rightarrow> Some ((goto_pc t Idle s)\<lparr>g_inreclaim := False\<rparr>)
     | _ \<Rightarrow> None)"

definition client_step :: "nat \<Rightarrow> command \<Rightarrow> ep_state \<Rightarrow> ep_state option" where
  "client_step t cmd s = (let l = g_threads s t in
     case cmd of
       Nest \<Rightarrow> Some (upd_thread t (\<lambda>l. l\<lparr>e_count := e_count l + 1\<rparr>) s)
     | Leave \<Rightarrow> Some (upd_thread t (\<lambda>l. if e_count l = 2 then l\<lparr>e_count := 1, e_pc := Idle, e_refs := {}\<rparr>
                                       else l\<lparr>e_count := e_count l - 1\<rparr>) s)
     | Alloc x \<Rightarrow> if g_blocks s x = Unused \<or> g_blocks s x = Recycled
         then Some ((upd_thread t (\<lambda>l. l\<lparr>e_refs := insert x (e_refs l)\<rparr>) s)
           \<lparr>g_blocks := (g_blocks s)(x := Live)\<rparr>) else None
     | Use x \<Rightarrow> if g_blocks s x = Live
         then Some (upd_thread t (\<lambda>l. l\<lparr>e_refs := insert x (e_refs l)\<rparr>) s) else None
     | Retire x \<Rightarrow> if g_blocks s x = Live
         then Some (s\<lparr>g_blocks := (g_blocks s)(x := Retired t (e_epoch l)), g_when := (g_when s)(x := g_tgen s t)\<rparr>)
         else None
     | _ \<Rightarrow> None)"

definition ep_step :: "bool \<Rightarrow> nat \<Rightarrow> command \<Rightarrow> ep_state \<Rightarrow> ep_state option" where
  "ep_step atomic t cmd s = (case e_pc (g_threads s t) of
       Crit \<Rightarrow> client_step t cmd s
     | Idle \<Rightarrow> (if cmd = Go then Some (enter_step atomic t s) else None)
     | Reading \<Rightarrow> (if cmd = Go then Some (enter_step atomic t s) else None)
     | Writing e \<Rightarrow> (if cmd = Go then Some (enter_step atomic t s) else None)
     | _ \<Rightarrow> (case cmd of Go \<Rightarrow> reclaim_step t [] s | Sweep xs \<Rightarrow> reclaim_step t xs s | _ \<Rightarrow> None))"

definition ep_thread0 :: ep_thread where
  "ep_thread0 = \<lparr>e_pc = Idle, e_count = 1, e_epoch = 0, e_entries = 0, e_refs = {}\<rparr>"

definition ep_init :: ep_state where
  "ep_init = \<lparr>g_current = 0, g_inreclaim = False, g_list = [], g_threads = (\<lambda>_. ep_thread0),
     g_blocks = (\<lambda>_. Unused), g_gen = 0, g_tgen = (\<lambda>_. 0), g_when = (\<lambda>_. 0)\<rparr>"

inductive ep_reach :: "bool \<Rightarrow> ep_state \<Rightarrow> bool" for atomic where
  ep_reach_init: "ep_reach atomic ep_init"
| ep_reach_step: "ep_reach atomic s \<Longrightarrow> ep_step atomic t cmd s = Some s' \<Longrightarrow> ep_reach atomic s'"


section \<open>The invariant\<close>

fun holds :: "epc \<Rightarrow> bool" where
  "holds Listing \<longleftrightarrow> True" | "holds (Loading us) \<longleftrightarrow> True" | "holds (Counting c us r) \<longleftrightarrow> True"
| "holds (Comparing c us r) \<longleftrightarrow> True" | "holds (Freeing c r) \<longleftrightarrow> True" | "holds Unlocking \<longleftrightarrow> True"
| "holds _ \<longleftrightarrow> False"

text \<open>The epoch a reclaimer works with and the threads it has still to look at.\<close>

fun scan_epoch :: "epc \<Rightarrow> nat option" where
  "scan_epoch (Counting c us r) = Some c" | "scan_epoch (Comparing c us r) = Some c"
| "scan_epoch (Freeing c r) = Some c" | "scan_epoch _ = None"

fun to_see :: "epc \<Rightarrow> nat set option" where
  "to_see (Loading us) = Some (set us)" | "to_see (Counting c us r) = Some (set r)"
| "to_see (Comparing c us r) = Some (set r)" | "to_see (Freeing c r) = Some {}" | "to_see _ = None"

text \<open>
  One reclaimer at a time; a thread in a critical section is at most one epoch behind, and not behind
  at all once the reclaimer has passed it; blocks are retired at the epoch of their list, and a
  thread that still uses a retired block entered at most one epoch after it was retired.
\<close>

definition mutex_inv :: "ep_state \<Rightarrow> bool" where
  "mutex_inv s \<longleftrightarrow> (\<forall>t. holds (e_pc (g_threads s t)) \<longrightarrow> g_inreclaim s) \<and>
     (\<forall>t u. holds (e_pc (g_threads s t)) \<longrightarrow> holds (e_pc (g_threads s u)) \<longrightarrow> t = u)"

definition epoch_inv :: "ep_state \<Rightarrow> bool" where
  "epoch_inv s \<longleftrightarrow> g_current s = g_gen s mod 3 \<and>
     (\<forall>t c. scan_epoch (e_pc (g_threads s t)) = Some c \<longrightarrow> c = g_current s)"

definition count_inv :: "ep_state \<Rightarrow> bool" where
  "count_inv s \<longleftrightarrow> (\<forall>t. e_pc (g_threads s t) = Crit \<longrightarrow> 2 \<le> e_count (g_threads s t)) \<and>
     (\<forall>t. e_pc (g_threads s t) \<noteq> Idle \<longrightarrow> t \<in> set (g_list s)) \<and>
     (\<forall>t. e_pc (g_threads s t) = Reading \<longrightarrow> e_count (g_threads s t) = 2) \<and>
     (\<forall>t. e_pc (g_threads s t) \<noteq> Crit \<longrightarrow> e_pc (g_threads s t) \<noteq> Reading \<longrightarrow> e_count (g_threads s t) = 1)"

definition lag_inv :: "ep_state \<Rightarrow> bool" where
  "lag_inv s \<longleftrightarrow> (\<forall>t. e_pc (g_threads s t) = Crit \<longrightarrow>
     e_epoch (g_threads s t) = g_tgen s t mod 3 \<and> g_tgen s t \<le> g_gen s \<and> g_gen s \<le> g_tgen s t + 1)"

definition seen_inv :: "ep_state \<Rightarrow> bool" where
  "seen_inv s \<longleftrightarrow> (\<forall>r us t. to_see (e_pc (g_threads s r)) = Some us \<longrightarrow>
     e_pc (g_threads s t) = Crit \<longrightarrow> t \<notin> us \<longrightarrow> g_tgen s t = g_gen s)"

definition block_inv :: "ep_state \<Rightarrow> bool" where
  "block_inv s \<longleftrightarrow> (\<forall>x u e. g_blocks s x = Retired u e \<longrightarrow> e = g_when s x mod 3 \<and> g_when s x \<le> g_gen s) \<and>
     (\<forall>t x. x \<in> e_refs (g_threads s t) \<longrightarrow>
        e_pc (g_threads s t) = Crit \<and> g_blocks s x \<noteq> Unused \<and> g_blocks s x \<noteq> Recycled) \<and>
     (\<forall>t x u e. x \<in> e_refs (g_threads s t) \<longrightarrow> g_blocks s x = Retired u e \<longrightarrow> g_tgen s t \<le> g_when s x + 1)"

definition ep_inv :: "ep_state \<Rightarrow> bool" where
  "ep_inv s \<longleftrightarrow> mutex_inv s \<and> epoch_inv s \<and> count_inv s \<and> lag_inv s \<and> seen_inv s \<and> block_inv s \<and>
     (\<forall>t e. e_pc (g_threads s t) \<noteq> Writing e)"

lemmas ep_inv_defs = mutex_inv_def epoch_inv_def count_inv_def lag_inv_def seen_inv_def block_inv_def
lemmas ep_upd_defs = upd_thread_def goto_pc_def set_epoch_def

lemma ep_inv_init: "ep_inv ep_init"
  by (simp add: ep_inv_def ep_inv_defs ep_init_def ep_thread0_def)

lemma enter_inv:
  assumes "ep_inv s" and "e_pc (g_threads s t) \<in> {Idle, Reading}"
  shows "ep_inv (enter_step True t s)"
proof -
  note [split] = if_splits
  have i: "mutex_inv s" "epoch_inv s" "count_inv s" "lag_inv s" "seen_inv s" "block_inv s"
      "\<forall>t e. e_pc (g_threads s t) \<noteq> Writing e"
    using assms(1) by (simp_all add: ep_inv_def)
  show ?thesis
  proof (cases "e_pc (g_threads s t) = Idle")
    case True
    then have "mutex_inv (enter_step True t s)" "epoch_inv (enter_step True t s)"
      "count_inv (enter_step True t s)" "lag_inv (enter_step True t s)" "seen_inv (enter_step True t s)"
      "block_inv (enter_step True t s)" "\<forall>u e. e_pc (g_threads (enter_step True t s) u) \<noteq> Writing e"
      using i by (fastforce simp: enter_step_def Let_def ep_upd_defs ep_inv_defs)+
    then show ?thesis by (simp add: ep_inv_def)
  next
    case False
    then have "mutex_inv (enter_step True t s)" "epoch_inv (enter_step True t s)"
      "count_inv (enter_step True t s)" "lag_inv (enter_step True t s)" "seen_inv (enter_step True t s)"
      "block_inv (enter_step True t s)" "\<forall>u e. e_pc (g_threads (enter_step True t s) u) \<noteq> Writing e"
      using i assms(2) by (fastforce simp: enter_step_def Let_def ep_upd_defs ep_inv_defs)+
    then show ?thesis by (simp add: ep_inv_def)
  qed
qed

lemma client_inv:
  assumes "ep_inv s" and "e_pc (g_threads s t) = Crit" and "client_step t cmd s = Some s'"
  shows "ep_inv s'"
proof -
  have i: "mutex_inv s" "epoch_inv s" "count_inv s" "lag_inv s" "seen_inv s" "block_inv s"
      "\<forall>t e. e_pc (g_threads s t) \<noteq> Writing e"
    using assms(1) by (simp_all add: ep_inv_def)
  have pc: "e_pc (g_threads s' u) = (if u = t \<and> cmd = Leave \<and> e_count (g_threads s t) = 2 then Idle
      else e_pc (g_threads s u))" for u
    using assms(2,3) by (cases cmd) (auto simp: client_step_def Let_def upd_thread_def split: if_splits)
  have same: "g_current s' = g_current s" "g_gen s' = g_gen s" "g_inreclaim s' = g_inreclaim s"
      "g_list s' = g_list s" "g_tgen s' = g_tgen s" "\<And>u. e_epoch (g_threads s' u) = e_epoch (g_threads s u)"
    using assms(3) by (auto simp: client_step_def Let_def upd_thread_def split: command.splits if_splits)
  have "mutex_inv s'" "epoch_inv s'" "lag_inv s'" "seen_inv s'" "\<forall>t e. e_pc (g_threads s' t) \<noteq> Writing e"
    using i assms(2) by (auto simp: ep_inv_defs pc same split: if_splits)
  moreover have "2 \<le> e_count (g_threads s t)" using i(3) assms(2) by (simp add: count_inv_def)
  then have "count_inv s'"
    using i(3) assms(2,3) by (fastforce simp: client_step_def Let_def upd_thread_def count_inv_def split: command.splits if_splits)
  moreover have "block_inv s'"
  proof (cases cmd)
    case (Retire x)
    have "g_tgen s u \<le> g_tgen s t + 1" if "e_pc (g_threads s u) = Crit" for u
    proof -
      have "g_tgen s u \<le> g_gen s" "g_gen s \<le> g_tgen s t + 1"
        using i(4) that assms(2) by (auto simp: lag_inv_def)
      then show ?thesis by simp
    qed
    moreover have "e_epoch (g_threads s t) = g_tgen s t mod 3" "g_tgen s t \<le> g_gen s"
      using i(4) assms(2) by (auto simp: lag_inv_def)
    ultimately show ?thesis
      using i(6) assms(3) Retire
      by (auto simp: client_step_def Let_def upd_thread_def block_inv_def split: if_splits)
  qed (use i(6) assms(2,3) in \<open>fastforce simp: client_step_def Let_def upd_thread_def block_inv_def split: if_splits\<close>)+
  ultimately show ?thesis by (simp add: ep_inv_def)
qed

text \<open>No block that a sweep recycles is in use.\<close>

lemma sweep_unused:
  assumes "ep_inv s" and "e_pc (g_threads s r) = Freeing c us" and "g_blocks s x = Retired u ((c + 1) mod 3)"
  shows "x \<notin> e_refs (g_threads s t)"
proof
  assume x: "x \<in> e_refs (g_threads s t)"
  have b: "block_inv s" using assms(1) by (simp add: ep_inv_def)
  then have t: "e_pc (g_threads s t) = Crit" "g_tgen s t \<le> g_when s x + 1"
    using x assms(3) unfolding block_inv_def by blast+
  have "scan_epoch (e_pc (g_threads s r)) = Some c" "to_see (e_pc (g_threads s r)) = Some {}"
    using assms(2) by simp_all
  then have "c = g_gen s mod 3" "g_tgen s t = g_gen s"
    using assms(1) t(1) unfolding ep_inv_def epoch_inv_def seen_inv_def by fastforce+
  moreover have "(c + 1) mod 3 = g_when s x mod 3" "g_when s x \<le> g_gen s"
    using b assms(3) by (auto simp: block_inv_def)
  ultimately show False using t(2) by presburger
qed

text \<open>A step of a reclaimer that changes its position and perhaps the lock.\<close>

lemma move_inv:
  assumes "ep_inv s" and "s' = (goto_pc t p s)\<lparr>g_inreclaim := b\<rparr>"
    and q: "e_pc (g_threads s t) \<notin> {Crit, Idle, Reading}" and p: "p \<noteq> Crit" "p \<noteq> Reading" "\<forall>e. p \<noteq> Writing e"
    and l: "holds p \<Longrightarrow> b" "\<not> b \<Longrightarrow> holds (e_pc (g_threads s t)) \<or> \<not> g_inreclaim s"
      "holds p \<Longrightarrow> \<not> holds (e_pc (g_threads s t)) \<Longrightarrow> \<not> g_inreclaim s"
    and c: "\<And>c. scan_epoch p = Some c \<Longrightarrow> c = g_current s"
    and v: "\<And>us u. to_see p = Some us \<Longrightarrow> e_pc (g_threads s u) = Crit \<Longrightarrow> u \<notin> us \<Longrightarrow> g_tgen s u = g_gen s"
  shows "ep_inv s'"
proof -
  have i: "mutex_inv s" "epoch_inv s" "count_inv s" "lag_inv s" "seen_inv s" "block_inv s"
      "\<forall>t e. e_pc (g_threads s t) \<noteq> Writing e"
    using assms(1) by (simp_all add: ep_inv_def)
  have pc: "e_pc (g_threads s' u) = (if u = t then p else e_pc (g_threads s u))" for u
    using assms(2) by (simp add: goto_pc_def upd_thread_def)
  have same: "g_current s' = g_current s" "g_gen s' = g_gen s" "g_inreclaim s' = b" "g_list s' = g_list s"
      "g_tgen s' = g_tgen s" "g_blocks s' = g_blocks s" "g_when s' = g_when s"
      "\<And>u. e_count (g_threads s' u) = e_count (g_threads s u)"
      "\<And>u. e_refs (g_threads s' u) = e_refs (g_threads s u)"
      "\<And>u. e_epoch (g_threads s' u) = e_epoch (g_threads s u)"
    using assms(2) by (simp_all add: goto_pc_def upd_thread_def)
  have "mutex_inv s'"
    using i(1) l by (auto simp: mutex_inv_def pc same split: if_splits)
  moreover have "epoch_inv s'" using i(2) c by (auto simp: epoch_inv_def pc same)
  moreover have "count_inv s'" using i(3) q p by (auto simp: count_inv_def pc same)
  moreover have "lag_inv s'" using i(4) p by (auto simp: lag_inv_def pc same)
  moreover have "seen_inv s'" using i(5) p v by (auto simp: seen_inv_def pc same split: if_splits)
  moreover have "block_inv s'" using i(6) q unfolding block_inv_def pc same by (auto split: if_splits)
  ultimately show ?thesis using i(7) p by (simp add: ep_inv_def pc)
qed

lemma sweep_inv:
  assumes "ep_inv s" and "e_pc (g_threads s t) = Freeing c (u # r)"
    and "\<forall>x \<in> set xs. g_blocks s x = Retired u ((c + 1) mod 3)"
    and "s' = (goto_pc t (Freeing c r) s)\<lparr>g_blocks := (\<lambda>x. if x \<in> set xs then Recycled else g_blocks s x)\<rparr>"
  shows "ep_inv s'"
proof -
  let ?s = "(goto_pc t (Freeing c r) s)\<lparr>g_inreclaim := g_inreclaim s\<rparr>"
  have i: "mutex_inv s" "epoch_inv s" "seen_inv s" using assms(1) by (simp_all add: ep_inv_def)
  have sc: "scan_epoch (e_pc (g_threads s t)) = Some c" "to_see (e_pc (g_threads s t)) = Some {}"
    using assms(2) by simp_all
  have "holds (e_pc (g_threads s t))" using assms(2) by simp
  then have h: "g_inreclaim s" using i(1) unfolding mutex_inv_def by blast
  have m: "ep_inv ?s"
  proof (rule move_inv [OF assms(1) refl])
    show "g_tgen s v = g_gen s" if "e_pc (g_threads s v) = Crit" for us v
      using i(3) sc(2) that unfolding seen_inv_def by blast
    show "e = g_current s" if "scan_epoch (Freeing c r) = Some e" for e
      using that i(2) sc(1) unfolding epoch_inv_def by auto
  qed (use h assms(2) in auto)
  have s': "s' = ?s\<lparr>g_blocks := (\<lambda>x. if x \<in> set xs then Recycled else g_blocks s x)\<rparr>"
    by (simp add: assms(4) goto_pc_def upd_thread_def)
  have "x \<notin> e_refs (g_threads s v)" if "x \<in> set xs" for x v
    using sweep_unused [OF assms(1,2)] assms(3) that by blast
  then have "x \<notin> e_refs (g_threads ?s v)" if "x \<in> set xs" for x v
    using that by (simp add: goto_pc_def upd_thread_def)
  moreover have "g_blocks ?s = g_blocks s" by (simp add: goto_pc_def upd_thread_def)
  ultimately have "block_inv s'"
    using m s' unfolding ep_inv_def block_inv_def by (auto split: if_splits)
  moreover have "mutex_inv s' = mutex_inv ?s" "epoch_inv s' = epoch_inv ?s" "count_inv s' = count_inv ?s"
      "lag_inv s' = lag_inv ?s" "seen_inv s' = seen_inv ?s" "g_threads s' = g_threads ?s"
    unfolding mutex_inv_def epoch_inv_def count_inv_def lag_inv_def seen_inv_def by (simp_all add: s')
  ultimately show ?thesis
    using m unfolding ep_inv_def by metis
qed

lemma advance_inv:
  assumes "ep_inv s" and "e_pc (g_threads s t) = Freeing c []"
    and "s' = (goto_pc t Unlocking s)\<lparr>g_current := (c + 1) mod 3, g_gen := g_gen s + 1\<rparr>"
  shows "ep_inv s'"
proof -
  let ?s = "(goto_pc t Unlocking s)\<lparr>g_inreclaim := g_inreclaim s\<rparr>"
  have i: "mutex_inv s" "epoch_inv s" "lag_inv s" "seen_inv s" using assms(1) by (simp_all add: ep_inv_def)
  have hold: "holds (e_pc (g_threads s t))" using assms(2) by simp
  then have h: "g_inreclaim s" using i(1) unfolding mutex_inv_def by blast
  have m: "ep_inv ?s"
    by (rule move_inv [OF assms(1) refl]) (use h assms(2) in auto)
  have s': "s' = ?s\<lparr>g_current := (c + 1) mod 3, g_gen := g_gen s + 1\<rparr>"
    by (simp add: assms(3) goto_pc_def upd_thread_def)
  have pc: "e_pc (g_threads s' u) = (if u = t then Unlocking else e_pc (g_threads s u))" for u
    using s' by (simp add: goto_pc_def upd_thread_def)
  have "scan_epoch (e_pc (g_threads s t)) = Some c" "to_see (e_pc (g_threads s t)) = Some {}"
    using assms(2) by simp_all
  then have c: "c = g_gen s mod 3" and all: "\<forall>u. e_pc (g_threads s u) = Crit \<longrightarrow> g_tgen s u = g_gen s"
    using i(2,4) unfolding epoch_inv_def seen_inv_def by auto
  have alone: "\<not> holds (e_pc (g_threads s u))" if "u \<noteq> t" for u
    using hold i(1) that unfolding mutex_inv_def by blast
  have none: "scan_epoch (e_pc (g_threads s' u)) = None \<and> to_see (e_pc (g_threads s' u)) = None" for u
    using alone [of u] by (cases "e_pc (g_threads s u)") (auto simp: pc)
  have "lag_inv s'"
    using i(3) all by (auto simp: lag_inv_def s' goto_pc_def upd_thread_def)
  moreover have "epoch_inv s'" using c none by (simp add: epoch_inv_def s' mod_Suc_eq)
  moreover have "seen_inv s'" using none by (simp add: seen_inv_def)
  moreover have eq: "g_blocks s' = g_blocks ?s" "g_when s' = g_when ?s" "g_tgen s' = g_tgen ?s"
      "g_threads s' = g_threads ?s" "g_gen s' = g_gen ?s + 1"
    using s' by (simp_all add: goto_pc_def upd_thread_def)
  have "block_inv ?s" using m by (simp add: ep_inv_def)
  then have "block_inv s'" unfolding block_inv_def eq by (simp add: le_SucI)
  ultimately show ?thesis
    using m s' by (simp add: ep_inv_def mutex_inv_def count_inv_def)
qed

lemma move_same_lock:
  assumes "ep_inv s" and "s' = goto_pc t p s"
    and "e_pc (g_threads s t) \<notin> {Crit, Idle, Reading}" and "p \<noteq> Crit" "p \<noteq> Reading" "\<forall>e. p \<noteq> Writing e"
    and "holds p \<Longrightarrow> holds (e_pc (g_threads s t))" and "holds (e_pc (g_threads s t)) \<or> \<not> g_inreclaim s \<or> p = Idle"
    and "\<And>c. scan_epoch p = Some c \<Longrightarrow> c = g_current s"
    and "\<And>us u. to_see p = Some us \<Longrightarrow> e_pc (g_threads s u) = Crit \<Longrightarrow> u \<notin> us \<Longrightarrow> g_tgen s u = g_gen s"
  shows "ep_inv s'"
proof (rule move_inv [OF assms(1) _ assms(3-6)])
  show "s' = (goto_pc t p s)\<lparr>g_inreclaim := g_inreclaim s\<rparr>"
    by (simp add: assms(2) goto_pc_def upd_thread_def)
  have "mutex_inv s" using assms(1) by (simp add: ep_inv_def)
  then show "holds p \<Longrightarrow> g_inreclaim s" using assms(7) unfolding mutex_inv_def by blast
qed (use assms(7-10) in auto)

lemma mod3_close: "(a::nat) mod 3 = b mod 3 \<Longrightarrow> a \<le> b \<Longrightarrow> b \<le> a + 1 \<Longrightarrow> a = b"
  by (cases "a = b") (auto simp: le_Suc_eq mod_Suc split: if_splits)

lemma reclaim_inv:
  assumes "ep_inv s" and "reclaim_step t xs s = Some s'"
  shows "ep_inv s'"
proof -
  have i: "mutex_inv s" "epoch_inv s" "count_inv s" "lag_inv s" "seen_inv s"
    using assms(1) by (simp_all add: ep_inv_def)
  have seen: "\<And>us u. to_see (e_pc (g_threads s t)) = Some us \<Longrightarrow> e_pc (g_threads s u) = Crit \<Longrightarrow>
      u \<notin> us \<Longrightarrow> g_tgen s u = g_gen s"
    using i(5) by (simp add: seen_inv_def)
  have cur: "\<And>c. scan_epoch (e_pc (g_threads s t)) = Some c \<Longrightarrow> c = g_current s"
    using i(2) unfolding epoch_inv_def by blast
  show ?thesis
  proof (cases "e_pc (g_threads s t)")
    case Testing
    then have s': "s' = goto_pc t (if g_inreclaim s then Idle else Locking) s"
      using assms(2) by (simp add: reclaim_step_def)
    show ?thesis by (rule move_same_lock [OF assms(1) s']) (use Testing in \<open>auto split: if_splits\<close>)
  next
    case Locking
    show ?thesis
    proof (cases "g_inreclaim s")
      case True
      then have s': "s' = goto_pc t Idle s" using Locking assms(2) by (simp add: reclaim_step_def)
      show ?thesis by (rule move_same_lock [OF assms(1) s']) (use Locking in auto)
    next
      case False
      then have s': "s' = (goto_pc t Listing s)\<lparr>g_inreclaim := True\<rparr>"
        using Locking assms(2) by (simp add: reclaim_step_def)
      show ?thesis by (rule move_inv [OF assms(1) s']) (use Locking False in auto)
    qed
  next
    case Listing
    then have s': "s' = goto_pc t (Loading (g_list s)) s" using assms(2) by (simp add: reclaim_step_def)
    show ?thesis by (rule move_same_lock [OF assms(1) s']) (use Listing i(3) in \<open>auto simp: count_inv_def\<close>)
  next
    case (Loading us)
    then have s': "s' = goto_pc t (Counting (g_current s) us us) s" using assms(2) by (simp add: reclaim_step_def)
    show ?thesis by (rule move_same_lock [OF assms(1) s']) (use Loading seen in auto)
  next
    case (Counting c us r)
    have c: "c = g_current s" using cur Counting by simp
    show ?thesis
    proof (cases r)
      case Nil
      then have s': "s' = goto_pc t (Freeing c us) s" using Counting assms(2) by (simp add: reclaim_step_def)
      show ?thesis by (rule move_same_lock [OF assms(1) s']) (use Counting Nil seen c in auto)
    next
      case (Cons u r')
      have u: "e_pc (g_threads s u) = Crit \<Longrightarrow> 1 < e_count (g_threads s u)"
        using i(3) by (fastforce simp: count_inv_def)
      have s': "s' = goto_pc t (if e_count (g_threads s u) > 1 then Comparing c us r else Counting c us r') s"
        using Cons Counting assms(2) by (auto simp: reclaim_step_def)
      show ?thesis by (rule move_same_lock [OF assms(1) s']) (use Counting Cons seen c u in \<open>auto split: if_splits\<close>)
    qed
  next
    case (Comparing c us r)
    have c: "c = g_current s" using cur Comparing by simp
    obtain u r' where r: "r = u # r'" using assms(2) Comparing by (cases r) (auto simp: reclaim_step_def)
    have u: "g_tgen s u = g_gen s" if "e_pc (g_threads s u) = Crit" "e_epoch (g_threads s u) = c"
    proof -
      have "g_tgen s u mod 3 = g_gen s mod 3" "g_tgen s u \<le> g_gen s" "g_gen s \<le> g_tgen s u + 1"
        using i(2,4) that c by (auto simp: epoch_inv_def lag_inv_def)
      then show ?thesis by (rule mod3_close)
    qed
    have s': "s' = goto_pc t (if e_epoch (g_threads s u) \<noteq> c then Unlocking else Counting c us r') s"
      using r Comparing assms(2) by (auto simp: reclaim_step_def)
    show ?thesis by (rule move_same_lock [OF assms(1) s']) (use Comparing r seen c u in \<open>auto split: if_splits\<close>)
  next
    case (Freeing c r)
    show ?thesis
    proof (cases r)
      case Nil
      then show ?thesis using Freeing assms(2) advance_inv [OF assms(1), of t c s']
        by (auto simp: reclaim_step_def)
    next
      case (Cons u r')
      then have s': "s' = (goto_pc t (Freeing c r') s)\<lparr>g_blocks := (\<lambda>x. if x \<in> set xs then Recycled else g_blocks s x)\<rparr>"
        "\<forall>x \<in> set xs. g_blocks s x = Retired u ((c + 1) mod 3)"
        using Freeing assms(2) by (auto simp: reclaim_step_def list_all_iff split: if_splits)
      then show ?thesis using Freeing Cons sweep_inv [OF assms(1), of t c u r' xs s'] by simp
    qed
  next
    case Unlocking
    then have s': "s' = (goto_pc t Idle s)\<lparr>g_inreclaim := False\<rparr>" using assms(2) by (simp add: reclaim_step_def)
    show ?thesis by (rule move_inv [OF assms(1) s']) (use Unlocking in auto)
  qed (use assms(2) in \<open>simp_all add: reclaim_step_def\<close>)
qed

theorem ep_reach_inv:
  assumes "ep_reach True s"
  shows "ep_inv s"
  using assms
proof (induction rule: ep_reach.induct)
  case (ep_reach_step s t cmd s')
  have w: "e_pc (g_threads s t) \<noteq> Writing e" for e using ep_reach_step.IH by (simp add: ep_inv_def)
  show ?case
    using ep_reach_step w client_inv [of s t cmd s'] reclaim_inv [of s t] enter_inv [of s t]
    by (auto simp: ep_step_def split: epc.splits command.splits if_splits)
qed (rule ep_inv_init)

section \<open>A lone thread going in and out\<close>

text \<open>\<open>ep_exec\<close> runs a script of commands, each by a given thread.\<close>

fun ep_exec :: "bool \<Rightarrow> (nat \<times> command) list \<Rightarrow> ep_state \<Rightarrow> ep_state option" where
  "ep_exec atomic [] s = Some s"
| "ep_exec atomic ((t, cmd) # cs) s = (case ep_step atomic t cmd s of
     None \<Rightarrow> None | Some s' \<Rightarrow> ep_exec atomic cs s')"

lemma ep_exec_append: "ep_exec a (cs @ ds) s = (case ep_exec a cs s of None \<Rightarrow> None | Some s' \<Rightarrow> ep_exec a ds s')"
  by (induction a cs s rule: ep_exec.induct) (auto split: option.splits)

lemma ep_exec_reach: "ep_reach a s \<Longrightarrow> ep_exec a cs s = Some s' \<Longrightarrow> ep_reach a s'"
  by (induction a cs s rule: ep_exec.induct) (auto split: option.splits intro: ep_reach_step)

lemma ep_reach_refs: "ep_reach a s \<Longrightarrow> x \<in> e_refs (g_threads s t) \<Longrightarrow> e_pc (g_threads s t) = Crit"
proof (induction arbitrary: t rule: ep_reach.induct)
  case (ep_reach_step s u cmd s')
  then show ?case
    by (auto simp: ep_step_def enter_step_def reclaim_step_def client_step_def Let_def ep_upd_defs
        split: epc.splits command.splits if_splits list.splits)
qed (simp add: ep_init_def ep_thread0_def)

end
