(* ===== verification/GC_Race.thy ===== *)
theory GC_Race
  imports GC_Epoch
begin

text \<open>
  What the epochs promise, and a run of the code as it is written that breaks the promise.
\<close>

section \<open>A thread going in and out\<close>











section \<open>Grace periods\<close>





end
