(* ===== verification/Bitop.thy ===== *)
theory Bitop
  imports Prelude
begin

text \<open>
  The portable bit algorithms of libcds (\<^verbatim>\<open>cds/details/bitop_generic.h\<close>, \<^verbatim>\<open>cds/bitop.h\<close>) and the
  integer logarithms built on them (\<^verbatim>\<open>cds/int_algo.h\<close>), at their widths.
\<close>

section \<open>Definitions\<close>

definition isPow2_32 :: "u32 \<Rightarrow> bool" where
  "isPow2_32 x \<longleftrightarrow> x AND (x - 1) = 0 \<and> x \<noteq> 0"

definition isPow2_64 :: "u64 \<Rightarrow> bool" where
  "isPow2_64 x \<longleftrightarrow> x AND (x - 1) = 0 \<and> x \<noteq> 0"

definition msb32 :: "u32 \<Rightarrow> nat" where
  "msb32 x =
     (if x = 0 then 0
      else let (x, r) = (x, 32);
        (x, r) = (if x AND 0xffff0000 = 0 then (push_bit 16 x, r - 16) else (x, r));
        (x, r) = (if x AND 0xff000000 = 0 then (push_bit 8 x, r - 8) else (x, r));
        (x, r) = (if x AND 0xf0000000 = 0 then (push_bit 4 x, r - 4) else (x, r));
        (x, r) = (if x AND 0xc0000000 = 0 then (push_bit 2 x, r - 2) else (x, r));
        (x, r) = (if x AND 0x80000000 = 0 then (push_bit 1 x, r - 1) else (x, r))
      in r)"

definition msb32nz :: "u32 \<Rightarrow> int" where
  "msb32nz x = int (msb32 x) - 1"

definition msb64 :: "u64 \<Rightarrow> nat" where
  "msb64 x = (let h = ucast (drop_bit 32 x) :: u32 in if h \<noteq> 0 then msb32 h + 32 else msb32 (ucast x))"

definition msb64nz :: "u64 \<Rightarrow> int" where
  "msb64nz x = int (msb64 x) - 1"

definition lsb32 :: "u32 \<Rightarrow> nat" where
  "lsb32 x =
     (if x = 0 then 0
      else let (x, r) = (x, 1);
        (x, r) = (if x AND 0xffff = 0 then (drop_bit 16 x, r + 16) else (x, r));
        (x, r) = (if x AND 0xff = 0 then (drop_bit 8 x, r + 8) else (x, r));
        (x, r) = (if x AND 0xf = 0 then (drop_bit 4 x, r + 4) else (x, r));
        (x, r) = (if x AND 3 = 0 then (drop_bit 2 x, r + 2) else (x, r));
        (x, r) = (if x AND 1 = 0 then (drop_bit 1 x, r + 1) else (x, r))
      in r)"

definition lsb32nz :: "u32 \<Rightarrow> int" where
  "lsb32nz x = int (lsb32 x) - 1"

definition lsb64 :: "u64 \<Rightarrow> nat" where
  "lsb64 x = (if x = 0 then 0 else if x AND 0xffffffff \<noteq> 0 then lsb32 (ucast x)
     else lsb32 (ucast (drop_bit 32 x)) + 32)"

definition lsb64nz :: "u64 \<Rightarrow> int" where
  "lsb64nz x = int (lsb64 x) - 1"

definition rbo32 :: "u32 \<Rightarrow> u32" where
  "rbo32 x =
     (let x = (drop_bit 1 x AND 0x55555555) OR push_bit 1 (x AND 0x55555555);
          x = (drop_bit 2 x AND 0x33333333) OR push_bit 2 (x AND 0x33333333);
          x = (drop_bit 4 x AND 0x0F0F0F0F) OR push_bit 4 (x AND 0x0F0F0F0F);
          x = (drop_bit 8 x AND 0x00FF00FF) OR push_bit 8 (x AND 0x00FF00FF)
      in drop_bit 16 x OR push_bit 16 x)"

definition rbo64 :: "u64 \<Rightarrow> u64" where
  "rbo64 x = push_bit 32 (ucast (rbo32 (ucast x))) OR ucast (rbo32 (ucast (drop_bit 32 x)))"

definition sbc32 :: "u32 \<Rightarrow> u32" where
  "sbc32 x =
     (let x = x - (drop_bit 1 x AND 0x55555555);
          x = (x AND 0x33333333) + (drop_bit 2 x AND 0x33333333)
      in drop_bit 24 (((x + drop_bit 4 x) AND 0xF0F0F0F) * 0x1010101))"

definition sbc64 :: "u64 \<Rightarrow> u32" where
  "sbc64 x = sbc32 (ucast (drop_bit 32 x)) + sbc32 (ucast x)"

definition zbc32 :: "u32 \<Rightarrow> u32" where
  "zbc32 x = 32 - sbc32 x"

definition zbc64 :: "u64 \<Rightarrow> u32" where
  "zbc64 x = 64 - sbc64 x"

text \<open>\<^verbatim>\<open>complement\<close> negates a bit and returns whether it was set.\<close>

definition complement32 :: "u32 \<Rightarrow> nat \<Rightarrow> bool \<times> u32" where
  "complement32 x n = (x AND push_bit n 1 \<noteq> 0, x XOR push_bit n 1)"

definition complement64 :: "u64 \<Rightarrow> nat \<Rightarrow> bool \<times> u64" where
  "complement64 x n = (x AND push_bit n 1 \<noteq> 0, x XOR push_bit n 1)"

text \<open>\<open>r1\<close> and \<open>r2\<close> are what the two calls of \<^verbatim>\<open>rand\<close> return; they are made for 0 only.\<close>

definition RandXorShift32 :: "u32 \<Rightarrow> u32 \<Rightarrow> u32 \<Rightarrow> u32" where
  "RandXorShift32 r1 r2 x =
     (let x = (if x = 0 then push_bit 16 (r1 + 1) + r2 + 1 else x);
          x = x XOR push_bit 13 x; x = x XOR drop_bit 15 x
      in x XOR push_bit 5 x)"

definition RandXorShift64 :: "u64 \<Rightarrow> u64" where
  "RandXorShift64 x =
     (let x = (if x = 0 then 88172645463325252 else x);
          x = x XOR push_bit 13 x; x = x XOR drop_bit 7 x
      in x XOR push_bit 17 x)"

text \<open>
  The logarithms, for a 64-bit \<^verbatim>\<open>size_t\<close>. The shift \<^verbatim>\<open>1 << i\<close> in \<^verbatim>\<open>log2ceil\<close> is one of \<^verbatim>\<open>int\<close>: \<open>None\<close>
  when the count is not below 32, and at 31 the sign bit (as gcc defines it), which is
  extended when the result becomes a \<^verbatim>\<open>size_t\<close>.
\<close>

definition int_shl_1 :: "nat \<Rightarrow> u64 option" where
  "int_shl_1 i = (if i < 32 then Some (scast (push_bit i 1 :: u32)) else None)"

definition log2floor :: "u64 \<Rightarrow> nat" where
  "log2floor n = (if n \<noteq> 0 then nat (msb64nz n) else 0)"

definition log2ceil :: "u64 \<Rightarrow> nat option" where
  "log2ceil n = (let i = log2floor n in map_option (\<lambda>p. if p < n then i + 1 else i) (int_shl_1 i))"

definition floor2 :: "u64 \<Rightarrow> u64" where
  "floor2 n = push_bit (log2floor n) 1"

definition ceil2 :: "u64 \<Rightarrow> u64 option" where
  "ceil2 n = map_option (\<lambda>i. push_bit i 1) (log2ceil n)"

definition is_power2 :: "u64 \<Rightarrow> bool" where
  "is_power2 n \<longleftrightarrow> n AND (n - 1) = 0 \<and> n \<noteq> 0"

definition log2 :: "u64 \<Rightarrow> nat" where
  "log2 n = (if is_power2 n then log2floor n else 0)"

section \<open>The most significant bit\<close>

lemma bit_unat: "bit (unat (x :: 'a :: len word)) i = bit x i"
  using bit_imp_le_length [of x i] by (auto simp: bit_simps)

lemma unat_push:
  fixes x :: "'a :: len word"
  assumes "unat x * 2 ^ k < 2 ^ LENGTH('a)"
  shows "unat (push_bit k x) = unat x * 2 ^ k"
proof -
  have "unat (push_bit k x) = take_bit LENGTH('a) (push_bit k (unat x))" by (rule unsigned_push_bit_eq)
  also have "push_bit k (unat x) = unat x * 2 ^ k" by (rule push_bit_eq_mult)
  finally show ?thesis using assms by (simp only: take_bit_nat_eq_self)
qed

lemma high_clear:
  fixes x :: u32
  assumes "m = push_bit n (mask k)" "n + k = 32"
  shows "x AND m = 0 \<longleftrightarrow> unat x < 2 ^ n"
proof -
  have "x AND m = 0 \<longleftrightarrow> drop_bit n x = 0"
  proof
    assume a: "x AND m = 0"
    show "drop_bit n x = 0"
    proof (rule bit_word_eqI)
      fix i assume "i < LENGTH(32)"
      have "\<not> bit (x AND m) (n + i)" unfolding a by simp
      then show "bit (drop_bit n x) i = bit 0 i"
        using assms bit_imp_le_length [of x "n + i"] by (auto simp: bit_simps)
    qed
  next
    assume a: "drop_bit n x = 0"
    show "x AND m = 0"
    proof (rule bit_word_eqI)
      fix i assume "i < LENGTH(32)"
      have "\<not> bit (drop_bit n x) (i - n)" unfolding a by simp
      then show "bit (x AND m) i = bit 0 i" by (auto simp: assms(1) bit_simps)
    qed
  qed
  also have "\<dots> \<longleftrightarrow> unat (drop_bit n x) = 0" by (simp add: word_unat_eq_iff)
  also have "unat (drop_bit n x) = drop_bit n (unat x)" by (rule unat_drop_bit_eq)
  also have "drop_bit n (unat x) = unat x div 2 ^ n" by (rule drop_bit_eq_div)
  also have "(unat x div 2 ^ n = 0) = (unat x < 2 ^ n)" by (simp add: div_eq_0_iff)
  finally show ?thesis .
qed

text \<open>A step that looks at the upper \<open>k\<close> bits: \<open>x\<close> is \<open>X\<close> shifted by \<open>32 - r\<close>.\<close>

definition msb_state :: "u32 \<Rightarrow> nat \<Rightarrow> u32 \<times> nat \<Rightarrow> bool" where
  "msb_state X k xr \<longleftrightarrow> k \<le> snd xr \<and> snd xr \<le> 32 \<and> unat (fst xr) = unat X * 2 ^ (32 - snd xr) \<and>
     2 ^ (32 - k) \<le> unat (fst xr)"

lemma msb_step:
  assumes "msb_state X (k + k) (x, r)" "k + k \<le> 32" "m = push_bit (32 - k) (mask k)"
  shows "msb_state X k (if x AND m = 0 then (push_bit k x, r - k) else (x, r))"
proof (cases "x AND m = 0")
  case True
  then have lt: "unat x < 2 ^ (32 - k)" using high_clear [OF assms(3)] assms(2) by simp
  then have "unat x * 2 ^ k < 2 ^ (32 - k) * 2 ^ k" by simp
  also have "\<dots> = 2 ^ 32" using assms(2) by (simp flip: power_add)
  finally have u: "unat (push_bit k x) = unat x * 2 ^ k" by (intro unat_push) simp
  have g: "2 ^ (32 - (k + k)) \<le> unat x" "k + k \<le> r" "r \<le> 32" "unat x = unat X * 2 ^ (32 - r)"
    using assms(1) by (simp_all add: msb_state_def)
  have "2 ^ (32 - (k + k)) * 2 ^ k \<le> unat x * 2 ^ k" using g(1) by simp
  moreover have "32 - (k + k) + k = 32 - k" using assms(2) by simp
  ultimately have "2 ^ (32 - k) \<le> unat x * 2 ^ k" by (simp flip: power_add)
  moreover have "32 - r + k = 32 - (r - k)" using g(2,3) by simp
  then have "2 ^ (32 - (r - k)) = 2 ^ (32 - r) * (2::nat) ^ k" by (simp flip: power_add)
  moreover have "k \<le> r - k" "r - k \<le> 32" using g(2,3) by linarith+
  ultimately show ?thesis using True g u by (simp add: msb_state_def)
next
  case False
  then have "2 ^ (32 - k) \<le> unat x" using high_clear [OF assms(3)] assms(2) by simp
  then show ?thesis using False assms(1) by (simp add: msb_state_def)
qed

lemma msb32_spec: "x = 0 \<and> msb32 x = 0 \<or> x \<noteq> 0 \<and> 0 < msb32 x \<and> msb32 x \<le> 32 \<and>
  2 ^ (msb32 x - 1) \<le> unat x \<and> unat x < 2 ^ msb32 x"
proof (cases "x = 0")
  case False
  have "msb_state x 32 (x, 32)" using False by (simp add: msb_state_def Suc_le_eq unat_gt_0)
  then have s1: "msb_state x 16 (if x AND 0xffff0000 = 0 then (push_bit 16 x, 32 - 16) else (x, 32))"
      (is "msb_state _ _ ?a")
    by (intro msb_step) (simp_all add: mask_eq_exp_minus_1)
  obtain x1 r1 where a: "?a = (x1, r1)" by (cases ?a) blast
  have s2: "msb_state x 8 (if x1 AND 0xff000000 = 0 then (push_bit 8 x1, r1 - 8) else (x1, r1))" (is "msb_state _ _ ?b")
    using s1 unfolding a by (intro msb_step) (simp_all add: mask_eq_exp_minus_1)
  obtain x2 r2 where b: "?b = (x2, r2)" by (cases ?b) blast
  have s3: "msb_state x 4 (if x2 AND 0xf0000000 = 0 then (push_bit 4 x2, r2 - 4) else (x2, r2))" (is "msb_state _ _ ?c")
    using s2 unfolding b by (intro msb_step) (simp_all add: mask_eq_exp_minus_1)
  obtain x3 r3 where c: "?c = (x3, r3)" by (cases ?c) blast
  have s4: "msb_state x 2 (if x3 AND 0xc0000000 = 0 then (push_bit 2 x3, r3 - 2) else (x3, r3))" (is "msb_state _ _ ?d")
    using s3 unfolding c by (intro msb_step) (simp_all add: mask_eq_exp_minus_1)
  obtain x4 r4 where d: "?d = (x4, r4)" by (cases ?d) blast
  have s5: "msb_state x 1 (if x4 AND 0x80000000 = 0 then (push_bit 1 x4, r4 - 1) else (x4, r4))" (is "msb_state _ _ ?e")
    using msb_step [of x 1 x4 r4 "0x80000000"] s4 unfolding d one_add_one by (simp add: mask_eq_exp_minus_1)
  obtain x5 r5 where e: "?e = (x5, r5)" by (cases ?e) blast
  have m: "msb32 x = r5" unfolding msb32_def Let_def prod.case a b c d e using False by simp
  have "unat x5 < 2 ^ LENGTH(32)" by (rule unsigned_less)
  then have f: "1 \<le> r5" "r5 \<le> 32" "unat x5 = unat x * 2 ^ (32 - r5)" "2 ^ 31 \<le> unat x5" "unat x5 < 2 ^ 32"
    using s5 unfolding e msb_state_def by simp_all
  have "(2::nat) ^ 31 = 2 ^ (r5 - 1) * 2 ^ (32 - r5)" "(2::nat) ^ 32 = 2 ^ r5 * 2 ^ (32 - r5)"
    using f(1,2) by (simp_all flip: power_add)
  then have "2 ^ (r5 - 1) * 2 ^ (32 - r5) \<le> unat x * 2 ^ (32 - r5)" "unat x * 2 ^ (32 - r5) < 2 ^ r5 * 2 ^ (32 - r5)"
    using f(3-5) by simp_all
  then have "2 ^ (r5 - 1) \<le> unat x" "unat x < 2 ^ r5" by simp_all
  then show ?thesis using m f False by simp
qed (simp add: msb32_def)

lemma msb64_spec: "x = 0 \<and> msb64 x = 0 \<or> x \<noteq> 0 \<and> 0 < msb64 x \<and> msb64 x \<le> 64 \<and>
  2 ^ (msb64 x - 1) \<le> unat x \<and> unat x < 2 ^ msb64 x"
proof -
  let ?h = "ucast (drop_bit 32 x) :: u32" and ?l = "ucast x :: u32"
  have "unat x < 2 ^ LENGTH(64)" by (rule unsigned_less)
  then have "unat x div 2 ^ 32 < 2 ^ 32" by (simp add: div_less_iff_less_mult)
  then have "take_bit 32 (unat x div 2 ^ 32) = unat x div 2 ^ 32" by (rule take_bit_nat_eq_self)
  then have h: "unat ?h = unat x div 2 ^ 32"
    by (simp add: unsigned_ucast_eq unat_drop_bit_eq) (simp add: drop_bit_eq_div)
  have l: "unat ?l = unat x mod 2 ^ 32" by (simp add: unsigned_ucast_eq take_bit_eq_mod)
  have sp: "unat x = 2 ^ 32 * (unat x div 2 ^ 32) + unat x mod 2 ^ 32" by simp
  show ?thesis
  proof (cases "?h = 0")
    case True
    then have "unat x div 2 ^ 32 = 0" using h by simp
    then have e: "unat ?l = unat x" using l sp by simp
    then have "?l = 0 \<longleftrightarrow> x = 0" by (simp add: word_unat_eq_iff)
    then show ?thesis using True e msb32_spec [of ?l] by (auto simp: msb64_def)
  next
    case False
    let ?m = "msb32 ?h"
    have m: "0 < ?m" "?m \<le> 32" "2 ^ (?m - 1) \<le> unat x div 2 ^ 32" "unat x div 2 ^ 32 < 2 ^ ?m"
      using msb32_spec [of ?h] False h by auto
    have "2 ^ (?m - 1) * 2 ^ 32 \<le> unat x" using m(3) by (simp add: less_eq_div_iff_mult_less_eq)
    moreover have "unat x < 2 ^ ?m * 2 ^ 32" using m(4) by (simp add: div_less_iff_less_mult)
    moreover have "x \<noteq> 0" using False by auto
    moreover obtain k where "?m = Suc k" using m(1) gr0_implies_Suc by blast
    ultimately show ?thesis using False m(2) by (simp add: msb64_def power_add)
  qed
qed

text \<open>
  \<^verbatim>\<open>msb32\<close> and \<^verbatim>\<open>msb64\<close> give the number of the most significant bit, counted from 1, and 0 for 0.
\<close>

theorem msb_exact:
  "(msb32 x = 0 \<longleftrightarrow> x = 0) \<and> (x \<noteq> 0 \<longrightarrow> 2 ^ (msb32 x - 1) \<le> unat x \<and> unat x < 2 ^ msb32 x) \<and>
   (msb64 y = 0 \<longleftrightarrow> y = 0) \<and> (y \<noteq> 0 \<longrightarrow> 2 ^ (msb64 y - 1) \<le> unat y \<and> unat y < 2 ^ msb64 y)"
  using msb32_spec [of x] msb64_spec [of y] by auto

theorem msb_exact_witness: "msb32 0 = 0 \<and> 2 ^ (msb32 40 - 1) \<le> unat (40 :: u32) \<and> 2 ^ (msb64 (2 ^ 40) - 1) \<le> unat (2 ^ 40 :: u64)"
  using msb_exact [of 0 "2 ^ 40"] msb_exact [of 40 "2 ^ 40"] by simp

section \<open>The least significant bit\<close>

lemma low_clear: "(x :: 'a :: len word) AND mask k = 0 \<longleftrightarrow> unat x mod 2 ^ k = 0"
proof -
  have "x AND mask k = take_bit k x" by (rule take_bit_eq_mask [symmetric])
  moreover have "unat (take_bit k x) = take_bit k (unat x)" by (rule unsigned_take_bit_eq)
  moreover have "take_bit k (unat x) = unat x mod 2 ^ k" by (rule take_bit_eq_mod)
  ultimately show ?thesis by (simp add: word_unat_eq_iff)
qed

definition lsb_state :: "u32 \<Rightarrow> nat \<Rightarrow> u32 \<times> nat \<Rightarrow> bool" where
  "lsb_state X k xr \<longleftrightarrow> 0 < snd xr \<and> snd xr + k \<le> 33 \<and> unat X = unat (fst xr) * 2 ^ (snd xr - 1) \<and>
     unat (fst xr) mod 2 ^ k \<noteq> 0"

lemma lsb_step:
  assumes "lsb_state X (k + k) (x, r)" "m = mask k"
  shows "lsb_state X k (if x AND m = 0 then (drop_bit k x, r + k) else (x, r))"
proof (cases "x AND m = 0")
  case True
  then have z: "unat x mod 2 ^ k = 0" using low_clear assms(2) by blast
  have "unat (drop_bit k x) = drop_bit k (unat x)" by (rule unat_drop_bit_eq)
  then have d: "unat (drop_bit k x) = unat x div 2 ^ k" by (simp only: drop_bit_eq_div)
  have g: "0 < r" "r + (k + k) \<le> 33" "unat X = unat x * 2 ^ (r - 1)" "unat x mod 2 ^ (k + k) \<noteq> 0"
    using assms(1) unfolding lsb_state_def by simp_all
  have e: "unat x = 2 ^ k * (unat x div 2 ^ k)" using z by (metis add.right_neutral mult_div_mod_eq)
  have "unat x mod (2 ^ k * 2 ^ k) = 2 ^ k * (unat x div 2 ^ k mod 2 ^ k) + unat x mod 2 ^ k"
    by (simp add: mod_mult2_eq)
  then have "unat x div 2 ^ k mod 2 ^ k \<noteq> 0" using g(4) z by (auto simp: power_add)
  moreover have "unat X = (unat x div 2 ^ k) * 2 ^ (r + k - 1)"
  proof -
    have "r + k - 1 = k + (r - 1)" using g(1) by simp
    then have "(unat x div 2 ^ k) * 2 ^ (r + k - 1) = (2 ^ k * (unat x div 2 ^ k)) * 2 ^ (r - 1)"
      by (simp add: power_add)
    then show ?thesis using g(3) e by simp
  qed
  ultimately show ?thesis using True g(1,2) d by (simp add: lsb_state_def)
next
  case False
  then have "unat x mod 2 ^ k \<noteq> 0" using low_clear assms(2) by blast
  then show ?thesis using False assms(1) by (simp add: lsb_state_def)
qed

lemma lsb32_spec: "x \<noteq> 0 \<Longrightarrow> 0 < lsb32 x \<and> lsb32 x \<le> 32 \<and> (\<exists>q. odd q \<and> unat x = q * 2 ^ (lsb32 x - 1))"
proof -
  assume nz: "x \<noteq> 0"
  have "unat x < 2 ^ LENGTH(32)" by (rule unsigned_less)
  then have "lsb_state x 32 (x, 1)" using nz by (simp add: lsb_state_def unat_eq_0)
  then have s1: "lsb_state x 16 (if x AND 0xffff = 0 then (drop_bit 16 x, 1 + 16) else (x, 1))" (is "lsb_state _ _ ?a")
    by (intro lsb_step) (simp_all add: mask_eq_exp_minus_1)
  obtain x1 r1 where a: "?a = (x1, r1)" by (cases ?a) blast
  have s2: "lsb_state x 8 (if x1 AND 0xff = 0 then (drop_bit 8 x1, r1 + 8) else (x1, r1))" (is "lsb_state _ _ ?b")
    using s1 unfolding a by (intro lsb_step) (simp_all add: mask_eq_exp_minus_1)
  obtain x2 r2 where b: "?b = (x2, r2)" by (cases ?b) blast
  have s3: "lsb_state x 4 (if x2 AND 0xf = 0 then (drop_bit 4 x2, r2 + 4) else (x2, r2))" (is "lsb_state _ _ ?c")
    using s2 unfolding b by (intro lsb_step) (simp_all add: mask_eq_exp_minus_1)
  obtain x3 r3 where c: "?c = (x3, r3)" by (cases ?c) blast
  have s4: "lsb_state x 2 (if x3 AND 3 = 0 then (drop_bit 2 x3, r3 + 2) else (x3, r3))" (is "lsb_state _ _ ?d")
    using s3 unfolding c by (intro lsb_step) (simp_all add: mask_eq_exp_minus_1)
  obtain x4 r4 where d: "?d = (x4, r4)" by (cases ?d) blast
  have s5: "lsb_state x 1 (if x4 AND 1 = 0 then (drop_bit 1 x4, r4 + 1) else (x4, r4))" (is "lsb_state _ _ ?e")
    using lsb_step [of x 1 x4 r4 1] s4 unfolding d one_add_one by (simp add: mask_eq_exp_minus_1)
  obtain x5 r5 where e: "?e = (x5, r5)" by (cases ?e) blast
  have m: "lsb32 x = r5" unfolding lsb32_def Let_def prod.case a b c d e using nz by simp
  have "0 < r5" "r5 \<le> 32" "unat x = unat x5 * 2 ^ (r5 - 1)" "unat x5 mod 2 \<noteq> 0"
    using s5 unfolding e lsb_state_def by simp_all
  moreover have "odd (unat x5)" using calculation(4) by presburger
  ultimately show ?thesis using m by blast
qed

lemma lsb64_spec: "x \<noteq> 0 \<Longrightarrow> 0 < lsb64 x \<and> lsb64 x \<le> 64 \<and> (\<exists>q. odd q \<and> unat x = q * 2 ^ (lsb64 x - 1))"
proof -
  assume nz: "x \<noteq> 0"
  let ?h = "ucast (drop_bit 32 x) :: u32" and ?l = "ucast x :: u32"
  have "unat x < 2 ^ LENGTH(64)" by (rule unsigned_less)
  then have "unat x div 2 ^ 32 < 2 ^ 32" by (simp add: div_less_iff_less_mult)
  then have "take_bit 32 (unat x div 2 ^ 32) = unat x div 2 ^ 32" by (rule take_bit_nat_eq_self)
  then have h: "unat ?h = unat x div 2 ^ 32"
    by (simp add: unsigned_ucast_eq unat_drop_bit_eq) (simp add: drop_bit_eq_div)
  have l: "unat ?l = unat x mod 2 ^ 32" by (simp add: unsigned_ucast_eq take_bit_eq_mod)
  have sp: "unat x = 2 ^ 32 * unat ?h + unat ?l" unfolding h l by simp
  have m: "x AND 0xffffffff = 0 \<longleftrightarrow> unat ?l = 0"
    using low_clear [of x 32] unfolding l by (simp add: mask_eq_exp_minus_1)
  show ?thesis
  proof (cases "unat ?l = 0")
    case True
    then have "?h \<noteq> 0" using sp nz by (auto simp: word_unat_eq_iff)
    then obtain q where q: "0 < lsb32 ?h" "lsb32 ?h \<le> 32" "odd q" "unat ?h = q * 2 ^ (lsb32 ?h - 1)"
      using lsb32_spec [of ?h] by blast
    have e: "lsb64 x = lsb32 ?h + 32" using nz m True by (simp add: lsb64_def)
    obtain k where "lsb32 ?h = Suc k" using q(1) gr0_implies_Suc by blast
    then have "unat x = q * 2 ^ (lsb64 x - 1)" using sp True q(4) unfolding e by (simp add: power_add)
    then show ?thesis using q(1-3) e by auto
  next
    case False
    then have "?l \<noteq> 0" by auto
    then obtain q where q: "0 < lsb32 ?l" "lsb32 ?l \<le> 32" "odd q" "unat ?l = q * 2 ^ (lsb32 ?l - 1)"
      using lsb32_spec [of ?l] by blast
    have e: "lsb64 x = lsb32 ?l" using nz m False by (simp add: lsb64_def)
    have "(2::nat) ^ 32 = 2 * 2 ^ (32 - lsb32 ?l) * 2 ^ (lsb32 ?l - 1)"
      using q(1,2) by (simp flip: power_add power_Suc)
    then have "unat x = (2 * (2 ^ (32 - lsb32 ?l) * unat ?h) + q) * 2 ^ (lsb32 ?l - 1)"
      using sp q(4) by (simp add: algebra_simps)
    moreover have "odd (2 * (2 ^ (32 - lsb32 ?l) * unat ?h) + q)" using q(3) by simp
    ultimately show ?thesis using q(1,2) e by auto
  qed
qed

text \<open>
  For a word that is not 0, \<^verbatim>\<open>lsb32\<close> and \<^verbatim>\<open>lsb64\<close> give the number of the least significant bit,
  counted from 1: the word is an odd multiple of that power of two.
\<close>

theorem lsb_exact:
  "(x \<noteq> 0 \<longrightarrow> 0 < lsb32 x \<and> (\<exists>q. odd q \<and> unat x = q * 2 ^ (lsb32 x - 1))) \<and>
   (y \<noteq> 0 \<longrightarrow> 0 < lsb64 y \<and> (\<exists>q. odd q \<and> unat y = q * 2 ^ (lsb64 y - 1)))"
  using lsb32_spec [of x] lsb64_spec [of y] by blast

theorem lsb_exact_witness: "\<exists>q. odd q \<and> unat (40 :: u32) = q * 2 ^ (lsb32 40 - 1)"
  using lsb_exact [of 40 1] by simp

section \<open>Reversal\<close>

text \<open>Each step exchanges neighbouring groups of \<open>k\<close> bits.\<close>

definition swap_pos :: "nat \<Rightarrow> nat \<Rightarrow> nat" where
  "swap_pos k i = (if even (i div k) then i + k else i - k)"

lemma swap_step:
  fixes x :: u32
  assumes "i < 32" "0 < k" "\<forall>j < 32. bit (M :: u32) j = even (j div k)" "\<forall>j < 32. swap_pos k j < 32"
  shows "bit ((drop_bit k x AND M) OR push_bit k (x AND M)) i = bit x (swap_pos k i)"
proof (cases "even (i div k)")
  case True
  have "\<not> (k \<le> i \<and> bit M (i - k))"
  proof
    assume a: "k \<le> i \<and> bit M (i - k)"
    then have "even ((i - k) div k)" using assms(1,3) by auto
    moreover have "i div k = Suc ((i - k) div k)" using a assms(2) by (simp add: le_div_geq)
    ultimately show False using True by simp
  qed
  moreover have "bit M i" using True assms(1,3) by simp
  ultimately show ?thesis using True by (simp add: bit_simps swap_pos_def add.commute [of k i]) blast
next
  case False
  have k: "k \<le> i"
  proof (rule ccontr)
    assume "\<not> k \<le> i"
    then show False using False by simp
  qed
  then have "i div k = Suc ((i - k) div k)" using assms(2) by (simp add: le_div_geq)
  then have "bit M (i - k)" using False assms(1,3) by auto
  moreover have "\<not> bit M i" using False assms(1,3) by simp
  ultimately show ?thesis using False assms(1) k by (simp add: bit_simps swap_pos_def)
qed

lemma below_32: "(\<forall>j < 32. P j) \<longleftrightarrow> list_all P [0..<32]"
  by (auto simp: list_all_iff)

lemma swap_masks:
  "\<forall>j < 32. bit (0x55555555 :: u32) j = even (j div 1)" "\<forall>j < 32. bit (0x33333333 :: u32) j = even (j div 2)"
  "\<forall>j < 32. bit (0x0F0F0F0F :: u32) j = even (j div 4)" "\<forall>j < 32. bit (0x00FF00FF :: u32) j = even (j div 8)"
  "\<forall>j < 32. swap_pos 1 j < 32" "\<forall>j < 32. swap_pos 2 j < 32" "\<forall>j < 32. swap_pos 4 j < 32"
  "\<forall>j < 32. swap_pos 8 j < 32" "\<forall>j < 32. swap_pos 16 j < 32"
  "\<forall>j < 32. swap_pos 1 (swap_pos 2 (swap_pos 4 (swap_pos 8 (swap_pos 16 j)))) = 31 - j"
  unfolding below_32 by (simp_all add: upt_rec swap_pos_def)

lemma rbo32_bit:
  assumes "i < 32"
  shows "bit (rbo32 x) i = bit x (31 - i)"
proof -
  define a where "a = (drop_bit 1 x AND 0x55555555) OR push_bit 1 (x AND 0x55555555)"
  define b where "b = (drop_bit 2 a AND 0x33333333) OR push_bit 2 (a AND 0x33333333)"
  define c where "c = (drop_bit 4 b AND 0x0F0F0F0F) OR push_bit 4 (b AND 0x0F0F0F0F)"
  define d where "d = (drop_bit 8 c AND 0x00FF00FF) OR push_bit 8 (c AND 0x00FF00FF)"
  let ?p = "swap_pos 16 i"
  have r: "rbo32 x = drop_bit 16 d OR push_bit 16 d"
    unfolding rbo32_def Let_def a_def b_def c_def d_def ..
  have p: "?p < 32" "swap_pos 8 ?p < 32" "swap_pos 4 (swap_pos 8 ?p) < 32" "swap_pos 2 (swap_pos 4 (swap_pos 8 ?p)) < 32"
    using assms swap_masks(6-9) by blast+
  have "bit (rbo32 x) i = bit d ?p"
  proof (cases "i < 16")
    case True
    then show ?thesis unfolding r by (simp add: bit_simps swap_pos_def add.commute [of 16 i])
  next
    case False
    then have "i div 16 = 1" using assms by presburger
    moreover have "\<not> bit d (16 + i)" using bit_imp_le_length [of d "16 + i"] False by auto
    ultimately show ?thesis using False assms unfolding r by (simp add: bit_simps swap_pos_def)
  qed
  also have "\<dots> = bit c (swap_pos 8 ?p)"
    unfolding d_def by (rule swap_step [OF p(1) _ swap_masks(4,8)]) simp
  also have "\<dots> = bit b (swap_pos 4 (swap_pos 8 ?p))"
    unfolding c_def by (rule swap_step [OF p(2) _ swap_masks(3,7)]) simp
  also have "\<dots> = bit a (swap_pos 2 (swap_pos 4 (swap_pos 8 ?p)))"
    unfolding b_def by (rule swap_step [OF p(3) _ swap_masks(2,6)]) simp
  also have "\<dots> = bit x (swap_pos 1 (swap_pos 2 (swap_pos 4 (swap_pos 8 ?p))))"
    unfolding a_def by (rule swap_step [OF p(4) _ swap_masks(1,5)]) simp
  also have "\<dots> = bit x (31 - i)" using swap_masks(10) assms by simp
  finally show ?thesis .
qed

lemma rbo64_bit:
  assumes "i < 64"
  shows "bit (rbo64 x) i = bit x (63 - i)"
proof (cases "i < 32")
  case True
  then have "bit (rbo64 x) i = bit (rbo32 (ucast (drop_bit 32 x))) i" by (simp add: rbo64_def bit_simps)
  also have "\<dots> = bit x (63 - i)" using True less_imp_diff_less [of 31 32 i] by (simp add: rbo32_bit bit_simps)
  finally show ?thesis .
next
  case False
  then have l: "i - 32 < 32" using assms by simp
  have "bit (rbo64 x) i = bit (rbo32 (ucast x)) (i - 32)"
    using False assms bit_imp_le_length [of "rbo32 (ucast (drop_bit 32 x))" i] by (auto simp: rbo64_def bit_simps)
  also have "\<dots> = bit x (63 - i)"
  proof -
    have "63 - i < 32" using False by simp
    then show ?thesis using l False by (simp add: rbo32_bit bit_simps)
  qed
  finally show ?thesis .
qed

text \<open>The bit reversals put bit \<open>i\<close> where bit \<open>31 - i\<close> (or \<open>63 - i\<close>) was, so they are their own inverse.\<close>

theorem rbo_involution:
  "rbo32 (rbo32 x) = x \<and> rbo64 (rbo64 y) = y \<and> (i < 32 \<longrightarrow> bit (rbo32 x) i = bit x (31 - i)) \<and>
   (j < 64 \<longrightarrow> bit (rbo64 y) j = bit y (63 - j))"
proof -
  have "rbo32 (rbo32 x) = x" by (rule bit_word_eqI) (simp add: rbo32_bit)
  moreover have "rbo64 (rbo64 y) = y" by (rule bit_word_eqI) (simp add: rbo64_bit)
  ultimately show ?thesis using rbo32_bit rbo64_bit by blast
qed

theorem rbo_involution_witness: "rbo32 1 = 0x80000000 \<and> rbo32 0x80000000 = 1"
proof -
  have "rbo32 1 = 0x80000000" by code_simp
  then show ?thesis using rbo_involution [of 1 1 0 0] by simp
qed

end
