(* ===== verification/MSQueue.thy ===== *)
theory MSQueue
  imports Bitop "HOL-Library.Monad_Syntax"
begin

text \<open>
  The array heap of Hunt, Michael, Parthasarathy and Scott in libcds
  (\<^verbatim>\<open>cds/container/mspriority_queue.h\<close>, \<^verbatim>\<open>cds/intrusive/mspriority_queue.h\<close>), its bit-reversed counter
  (\<^verbatim>\<open>cds/details/bit_reverse_counter.h\<close>) and its buffer (\<^verbatim>\<open>cds/opt/buffer.h\<close>), as one thread runs them.
  \<open>None\<close> means that the code does not return: a failed assertion, an index outside the buffer, a
  lock that is taken twice, or more iterations than the fuel allows.
\<close>

section \<open>The bit-reversed counter\<close>

record bit_reverse_counter =
  m_nCounter :: u64
  m_nReversed :: u64
  m_nHighBit :: int

definition bit_reverse_counter :: bit_reverse_counter where
  "bit_reverse_counter = \<lparr>m_nCounter = 0, m_nReversed = 0, m_nHighBit = - 1\<rparr>"

text \<open>The loops over \<open>nBit\<close>, from \<open>n - 1\<close> down to 0. The flag says whether the loop was left by \<^verbatim>\<open>break\<close>.\<close>

fun inc_bits :: "nat \<Rightarrow> u64 \<Rightarrow> bool \<times> u64" where
  "inc_bits 0 r = (False, r)"
| "inc_bits (Suc n) r = (let (b, r) = complement64 r n in if \<not> b then (True, r) else inc_bits n r)"

fun dec_bits :: "nat \<Rightarrow> u64 \<Rightarrow> bool \<times> u64" where
  "dec_bits 0 r = (False, r)"
| "dec_bits (Suc n) r = (let (b, r) = complement64 r n in if b then (True, r) else dec_bits n r)"

definition brc_inc :: "bit_reverse_counter \<Rightarrow> u64 \<times> bit_reverse_counter" where
  "brc_inc c =
     (let n = m_nCounter c + 1; (stop, r) = inc_bits (nat (m_nHighBit c)) (m_nReversed c);
          c = (if stop then c\<lparr>m_nCounter := n, m_nReversed := r\<rparr>
               else \<lparr>m_nCounter = n, m_nReversed = n, m_nHighBit = m_nHighBit c + 1\<rparr>)
      in (m_nReversed c, c))"

definition brc_dec :: "bit_reverse_counter \<Rightarrow> u64 \<times> bit_reverse_counter" where
  "brc_dec c =
     (let n = m_nCounter c - 1; (stop, r) = dec_bits (nat (m_nHighBit c)) (m_nReversed c);
          c = (if stop then c\<lparr>m_nCounter := n, m_nReversed := r\<rparr>
               else \<lparr>m_nCounter = n, m_nReversed = n, m_nHighBit = m_nHighBit c - 1\<rparr>)
      in (m_nReversed c, c))"

section \<open>The heap array\<close>

text \<open>A tag is \<open>AvailableTag\<close>, \<open>EmptyTag\<close> or the id of the thread that is inserting the item.\<close>

type_synonym tag_type = u64

definition AvailableTag :: tag_type where
  "AvailableTag = - 1"

definition EmptyTag :: tag_type where
  "EmptyTag = 0"

record 'a ms_node =
  m_Value :: 'a
  m_nTag :: tag_type
  m_nodeLock :: bool

record 'a msq =
  m_ItemCounter :: bit_reverse_counter
  m_sizeLock :: bool
  m_Heap :: "'a ms_node list"

text \<open>The accesses to node \<open>i\<close> of the buffer; \<^verbatim>\<open>operator[]\<close> asserts that the index is in range.\<close>

definition lock_node :: "nat \<Rightarrow> 'a msq \<Rightarrow> 'a msq option" where
  "lock_node i q =
     (if i < length (m_Heap q) \<and> \<not> m_nodeLock (m_Heap q ! i)
      then Some (q\<lparr>m_Heap := (m_Heap q)[i := (m_Heap q ! i)\<lparr>m_nodeLock := True\<rparr>]\<rparr>) else None)"

definition unlock_node :: "nat \<Rightarrow> 'a msq \<Rightarrow> 'a msq" where
  "unlock_node i q = q\<lparr>m_Heap := (m_Heap q)[i := (m_Heap q ! i)\<lparr>m_nodeLock := False\<rparr>]\<rparr>"

definition set_tag :: "nat \<Rightarrow> tag_type \<Rightarrow> 'a msq \<Rightarrow> 'a msq" where
  "set_tag i t q = q\<lparr>m_Heap := (m_Heap q)[i := (m_Heap q ! i)\<lparr>m_nTag := t\<rparr>]\<rparr>"

definition set_value :: "nat \<Rightarrow> 'a \<Rightarrow> 'a msq \<Rightarrow> 'a msq" where
  "set_value i v q = q\<lparr>m_Heap := (m_Heap q)[i := (m_Heap q ! i)\<lparr>m_Value := v\<rparr>]\<rparr>"

definition tag_of :: "'a msq \<Rightarrow> nat \<Rightarrow> tag_type" where
  "tag_of q i = m_nTag (m_Heap q ! i)"

definition value_of :: "'a msq \<Rightarrow> nat \<Rightarrow> 'a" where
  "value_of q i = m_Value (m_Heap q ! i)"

definition swap_nodes :: "nat \<Rightarrow> nat \<Rightarrow> 'a msq \<Rightarrow> 'a msq" where
  "swap_nodes i j q =
     (let ti = tag_of q i; tj = tag_of q j; vi = value_of q i; vj = value_of q j
      in set_value j vi (set_value i vj (set_tag j ti (set_tag i tj q))))"

definition lock_size :: "'a msq \<Rightarrow> 'a msq option" where
  "lock_size q = (if m_sizeLock q then None else Some (q\<lparr>m_sizeLock := True\<rparr>))"

definition unlock_size :: "'a msq \<Rightarrow> 'a msq" where
  "unlock_size q = q\<lparr>m_sizeLock := False\<rparr>"

text \<open>\<^verbatim>\<open>dynamic_buffer(nCapacity)\<close>; \<open>junk\<close> is what the fresh memory of the values holds.\<close>

definition dynamic_buffer :: "(nat \<Rightarrow> 'a) \<Rightarrow> u64 \<Rightarrow> 'a ms_node list option" where
  "dynamic_buffer junk n = do {
     c \<leftarrow> ceil2 n;
     if c \<ge> 2 \<and> c AND (c - 1) = 0
     then Some (map (\<lambda>i. \<lparr>m_Value = junk i, m_nTag = EmptyTag, m_nodeLock = False\<rparr>) [0..<unat c]) else None }"

definition MSPriorityQueue :: "(nat \<Rightarrow> 'a) \<Rightarrow> u64 \<Rightarrow> 'a msq option" where
  "MSPriorityQueue junk n = do {
     b \<leftarrow> dynamic_buffer junk n;
     Some \<lparr>m_ItemCounter = bit_reverse_counter, m_sizeLock = False, m_Heap = b\<rparr> }"

definition ms_capacity :: "'a msq \<Rightarrow> u64" where
  "ms_capacity q = of_nat (length (m_Heap q)) - 1"

definition ms_size :: "'a msq \<Rightarrow> (u64 \<times> 'a msq) option" where
  "ms_size q = do { q \<leftarrow> lock_size q; n \<leftarrow> Some (m_nCounter (m_ItemCounter q)); Some (n, unlock_size q) }"

definition ms_empty :: "'a msq \<Rightarrow> (bool \<times> 'a msq) option" where
  "ms_empty q = do { (n, q) \<leftarrow> ms_size q; Some (n = 0, q) }"

definition ms_full :: "'a msq \<Rightarrow> (bool \<times> 'a msq) option" where
  "ms_full q = do { (n, q) \<leftarrow> ms_size q; Some (n = ms_capacity q, q) }"

section \<open>Insertion\<close>

text \<open>\<open>cmp\<close> is the comparison functor: the first argument has the higher priority if it is positive.\<close>

fun push_loop :: "('a \<Rightarrow> 'a \<Rightarrow> int) \<Rightarrow> nat \<Rightarrow> nat \<Rightarrow> tag_type \<Rightarrow> 'a msq \<Rightarrow> (nat \<times> 'a msq) option" where
  "push_loop cmp 0 i curId q = None"
| "push_loop cmp (Suc f) i curId q =
     (if i > 1 then do {
        nParent \<leftarrow> Some (i div 2);
        q \<leftarrow> lock_node nParent q;
        q \<leftarrow> lock_node i q;
        (i', q') \<leftarrow> Some (
          if tag_of q nParent = AvailableTag \<and> tag_of q i = curId then
            if cmp (value_of q i) (value_of q nParent) > 0 then (nParent, swap_nodes i nParent q)
            else (0, set_tag i AvailableTag q)
          else if tag_of q nParent = EmptyTag then (0, q)
          else if tag_of q i \<noteq> curId then (nParent, q)
          else (i, q));
        push_loop cmp f i' curId (unlock_node nParent (unlock_node i q')) }
      else Some (i, q))"

definition heapify_after_push :: "('a \<Rightarrow> 'a \<Rightarrow> int) \<Rightarrow> nat \<Rightarrow> nat \<Rightarrow> tag_type \<Rightarrow> 'a msq \<Rightarrow> 'a msq option" where
  "heapify_after_push cmp f i curId q = do {
     (i, q) \<leftarrow> push_loop cmp f i curId q;
     if i = 1 then do {
       q \<leftarrow> lock_node i q;
       q \<leftarrow> Some (if tag_of q i = curId then set_tag i AvailableTag q else q);
       Some (unlock_node i q) }
     else Some q }"

definition ms_push :: "('a \<Rightarrow> 'a \<Rightarrow> int) \<Rightarrow> nat \<Rightarrow> tag_type \<Rightarrow> 'a \<Rightarrow> 'a msq \<Rightarrow> (bool \<times> 'a msq) option" where
  "ms_push cmp f curId val q = do {
     q \<leftarrow> lock_size q;
     if m_nCounter (m_ItemCounter q) \<ge> ms_capacity q then Some (False, unlock_size q)
     else do {
       (i, c) \<leftarrow> Some (brc_inc (m_ItemCounter q));
       q \<leftarrow> Some (q\<lparr>m_ItemCounter := c\<rparr>);
       if \<not> i < of_nat (length (m_Heap q)) then None
       else do {
         q \<leftarrow> lock_node (unat i) q;
         q \<leftarrow> Some (set_tag (unat i) curId (set_value (unat i) val (unlock_size q)));
         q \<leftarrow> heapify_after_push cmp f (unat i) curId (unlock_node (unat i) q);
         Some (True, q) } } }"

text \<open>\<^verbatim>\<open>emplace\<close> builds the item in place from its arguments, here \<open>args\<close> by the constructor \<open>mk\<close>.\<close>

definition ms_emplace :: "('a \<Rightarrow> 'a \<Rightarrow> int) \<Rightarrow> nat \<Rightarrow> tag_type \<Rightarrow> ('b \<Rightarrow> 'a) \<Rightarrow> 'b \<Rightarrow> 'a msq \<Rightarrow> (bool \<times> 'a msq) option" where
  "ms_emplace cmp f curId mk args q = do {
     q \<leftarrow> lock_size q;
     if m_nCounter (m_ItemCounter q) \<ge> ms_capacity q then Some (False, unlock_size q)
     else do {
       (i, c) \<leftarrow> Some (brc_inc (m_ItemCounter q));
       q \<leftarrow> Some (q\<lparr>m_ItemCounter := c\<rparr>);
       if \<not> i < of_nat (length (m_Heap q)) then None
       else do {
         q \<leftarrow> lock_node (unat i) q;
         q \<leftarrow> Some (set_tag (unat i) curId (set_value (unat i) (mk args) (unlock_size q)));
         q \<leftarrow> heapify_after_push cmp f (unat i) curId (unlock_node (unat i) q);
         Some (True, q) } } }"

section \<open>Removal\<close>

text \<open>\<^verbatim>\<open>pParent\<close> always is the address of \<^verbatim>\<open>m_Heap[nParent]\<close>, which is locked.\<close>

fun heapify_after_pop :: "('a \<Rightarrow> 'a \<Rightarrow> int) \<Rightarrow> nat \<Rightarrow> nat \<Rightarrow> 'a msq \<Rightarrow> 'a msq option" where
  "heapify_after_pop cmp 0 nParent q = None"
| "heapify_after_pop cmp (Suc f) nParent q =
     (if nParent < length (m_Heap q) div 2 then do {
        nLeft \<leftarrow> Some (nParent * 2);
        nRight \<leftarrow> Some (nLeft + 1);
        q \<leftarrow> lock_node nLeft q;
        q \<leftarrow> lock_node nRight q;
        if tag_of q nLeft = EmptyTag then Some (unlock_node nParent (unlock_node nLeft (unlock_node nRight q)))
        else do {
          (nChild, q) \<leftarrow> Some (
            if tag_of q nRight = EmptyTag \<or> cmp (value_of q nLeft) (value_of q nRight) > 0
            then (nLeft, unlock_node nRight q) else (nRight, unlock_node nLeft q));
          if cmp (value_of q nChild) (value_of q nParent) > 0
          then heapify_after_pop cmp f nChild (unlock_node nParent (swap_nodes nParent nChild q))
          else Some (unlock_node nParent (unlock_node nChild q)) } }
      else Some (unlock_node nParent q))"

definition pop_with :: "('a \<Rightarrow> 'a \<Rightarrow> int) \<Rightarrow> nat \<Rightarrow> 'a msq \<Rightarrow> ('a option \<times> 'a msq) option" where
  "pop_with cmp f q = do {
     q \<leftarrow> lock_size q;
     if m_nCounter (m_ItemCounter q) = 0 then Some (None, unlock_size q)
     else do {
       nBottom \<leftarrow> Some (m_nReversed (m_ItemCounter q));
       if \<not> nBottom \<le> ms_capacity q then None
       else do {
         q \<leftarrow> Some (q\<lparr>m_ItemCounter := snd (brc_dec (m_ItemCounter q))\<rparr>);
         q \<leftarrow> lock_node (unat nBottom) q;
         q \<leftarrow> Some (set_tag (unat nBottom) EmptyTag (unlock_size q));
         if nBottom = 1 then Some (Some (value_of q (unat nBottom)), unlock_node (unat nBottom) q)
         else do {
           q \<leftarrow> lock_node 1 q;
           dest \<leftarrow> Some (value_of q 1);
           if tag_of q 1 = EmptyTag then Some (Some dest, unlock_node 1 (unlock_node (unat nBottom) q))
           else do {
             q \<leftarrow> Some (unlock_node (unat nBottom) (set_value 1 (value_of q (unat nBottom)) q));
             q \<leftarrow> heapify_after_pop cmp f 1 (set_tag 1 AvailableTag q);
             Some (Some dest, q) } } } } }"

definition ms_pop :: "('a \<Rightarrow> 'a \<Rightarrow> int) \<Rightarrow> nat \<Rightarrow> 'a msq \<Rightarrow> ('a option \<times> 'a msq) option" where
  "ms_pop cmp f q = pop_with cmp f q"

text \<open>\<^verbatim>\<open>clear_with\<close> hands every item to the functor; the result lists them in that order.\<close>

fun clear_with :: "('a \<Rightarrow> 'a \<Rightarrow> int) \<Rightarrow> nat \<Rightarrow> 'a msq \<Rightarrow> ('a list \<times> 'a msq) option" where
  "clear_with cmp 0 q = None"
| "clear_with cmp (Suc f) q = do {
     (e, q) \<leftarrow> ms_empty q;
     if e then Some ([], q)
     else do {
       (v, q) \<leftarrow> pop_with cmp (Suc f) q;
       (vs, q) \<leftarrow> clear_with cmp f q;
       Some (case v of None \<Rightarrow> vs | Some v \<Rightarrow> v # vs, q) } }"

definition ms_clear :: "('a \<Rightarrow> 'a \<Rightarrow> int) \<Rightarrow> nat \<Rightarrow> 'a msq \<Rightarrow> 'a msq option" where
  "ms_clear cmp f q = do { (vs, q) \<leftarrow> clear_with cmp f q; Some q }"

section \<open>The intrusive queue\<close>

text \<open>The queue of pointers; \<open>obj\<close> is the object that a pointer refers to.\<close>

definition compare_wrapper :: "('a \<Rightarrow> 'a \<Rightarrow> int) \<Rightarrow> (ptr \<Rightarrow> 'a) \<Rightarrow> ptr \<Rightarrow> ptr \<Rightarrow> int" where
  "compare_wrapper cmp obj p1 p2 = cmp (obj p1) (obj p2)"

definition intr_push :: "('a \<Rightarrow> 'a \<Rightarrow> int) \<Rightarrow> (ptr \<Rightarrow> 'a) \<Rightarrow> nat \<Rightarrow> tag_type \<Rightarrow> ptr \<Rightarrow> ptr msq \<Rightarrow> (bool \<times> ptr msq) option" where
  "intr_push cmp obj f curId val q = ms_push (compare_wrapper cmp obj) f curId val q"

text \<open>NULL when there is no item.\<close>

definition intr_pop :: "('a \<Rightarrow> 'a \<Rightarrow> int) \<Rightarrow> (ptr \<Rightarrow> 'a) \<Rightarrow> nat \<Rightarrow> ptr msq \<Rightarrow> (ptr \<times> ptr msq) option" where
  "intr_pop cmp obj f q = do {
     (p, q) \<leftarrow> ms_pop (compare_wrapper cmp obj) f q;
     Some (case p of Some p \<Rightarrow> p | None \<Rightarrow> 0, q) }"

definition intr_clear_with :: "('a \<Rightarrow> 'a \<Rightarrow> int) \<Rightarrow> (ptr \<Rightarrow> 'a) \<Rightarrow> nat \<Rightarrow> ptr msq \<Rightarrow> (ptr list \<times> ptr msq) option" where
  "intr_clear_with cmp obj f q = clear_with (compare_wrapper cmp obj) f q"

section \<open>The heap of the benchmark\<close>

text \<open>
  \<^verbatim>\<open>Heap\<close> of \<^verbatim>\<open>src/heap.cpp\<close>: 32-bit values with \<^verbatim>\<open>std::greater\<close> as \<^verbatim>\<open>less\<close>, so that the smallest value has
  the highest priority.
\<close>

definition make_comparator_from_less :: "('a \<Rightarrow> 'a \<Rightarrow> bool) \<Rightarrow> 'a \<Rightarrow> 'a \<Rightarrow> int" where
  "make_comparator_from_less lt t q = (if lt t q then - 1 else if lt q t then 1 else 0)"

definition heap_cmp :: "u32 \<Rightarrow> u32 \<Rightarrow> int" where
  "heap_cmp = make_comparator_from_less (\<lambda>a b. a > b)"

definition Heap :: "(nat \<Rightarrow> u32) \<Rightarrow> u64 \<Rightarrow> u32 msq option" where
  "Heap junk capacity = MSPriorityQueue junk capacity"

definition heap_insert :: "nat \<Rightarrow> tag_type \<Rightarrow> u32 \<Rightarrow> u32 msq \<Rightarrow> u32 msq option" where
  "heap_insert f curId v q = do { (b, q) \<leftarrow> ms_push heap_cmp f curId v q; Some q }"

text \<open>The result: what is returned, and the value written to \<^verbatim>\<open>v\<close>, if any.\<close>

definition heap_delete_min :: "nat \<Rightarrow> u32 msq \<Rightarrow> (bool \<times> u32 option \<times> u32 msq) option" where
  "heap_delete_min f q = do { (v, q) \<leftarrow> ms_pop heap_cmp f q; Some (v \<noteq> None, v, q) }"

end
