(* ===== verification/MSQ_Counter.thy ===== *)
theory MSQ_Counter
  imports MSQueue
begin

text \<open>The bit-reversed counter: which slots of the heap it has handed out.\<close>

section \<open>Reversal of the lower bits\<close>

text \<open>\<open>brev h m\<close> is \<open>m\<close>, a number of \<open>h\<close> bits, read backwards.\<close>

fun brev :: "nat \<Rightarrow> nat \<Rightarrow> nat" where
  "brev 0 m = 0"
| "brev (Suc k) m = 2 ^ k * (m mod 2) + brev k (m div 2)"

lemma brev_less: "brev k m < 2 ^ k"
proof (induction k arbitrary: m)
  case (Suc k)
  have "m mod 2 = 0 \<or> m mod 2 = 1" by presburger
  then show ?case using Suc.IH [of "m div 2"] by auto
qed simp

lemma brev_0 [simp]: "brev k 0 = 0"
  by (induction k) simp_all

text \<open>The highest bit of \<open>m\<close> becomes the lowest.\<close>

lemma brev_top: "m < 2 ^ k \<Longrightarrow> t < 2 \<Longrightarrow> brev (Suc k) (2 ^ k * t + m) = 2 * brev k m + t"
proof (induction k arbitrary: m)
  case 0
  then show ?case by simp
next
  case (Suc k)
  let ?m = "2 ^ Suc k * t + m"
  have m2: "?m mod 2 = m mod 2" "?m div 2 = 2 ^ k * t + m div 2" by (simp_all add: mult.assoc)
  have "m div 2 < 2 ^ k" using Suc.prems(1) by auto
  then have "brev (Suc k) (2 ^ k * t + m div 2) = 2 * brev k (m div 2) + t" using Suc.prems(2) by (rule Suc.IH)
  moreover have "brev (Suc (Suc k)) ?m = 2 ^ Suc k * (m mod 2) + brev (Suc k) (2 ^ k * t + m div 2)"
    unfolding brev.simps(2) [of "Suc k"] m2 ..
  ultimately show ?case by simp
qed

lemma brev_inj: "a < 2 ^ k \<Longrightarrow> b < 2 ^ k \<Longrightarrow> brev k a = brev k b \<Longrightarrow> a = b"
proof (induction k arbitrary: a b)
  case 0
  then show ?case by simp
next
  case (Suc k)
  have l: "brev k (a div 2) < 2 ^ k" "brev k (b div 2) < 2 ^ k" by (rule brev_less)+
  have "a mod 2 = 0 \<or> a mod 2 = 1" "b mod 2 = 0 \<or> b mod 2 = 1" by presburger+
  then have "a mod 2 = b mod 2" "brev k (a div 2) = brev k (b div 2)" using Suc.prems(3) l by auto
  moreover have "a div 2 < 2 ^ k" "b div 2 < 2 ^ k" using Suc.prems(1,2) by auto
  ultimately have "a div 2 = b div 2" "a mod 2 = b mod 2" using Suc.IH by blast+
  then show ?case by (metis mult_div_mod_eq)
qed

lemma brev_onto: "brev k ` {..<2 ^ k} = {..<2 ^ k}"
proof (rule endo_inj_surj)
  show "brev k ` {..<2 ^ k} \<subseteq> {..<2 ^ k}" using brev_less by auto
  show "inj_on (brev k) {..<2 ^ k}" using brev_inj by (auto intro: inj_onI)
qed simp

section \<open>The slots in use\<close>

text \<open>
  With \<open>2 ^ h + m\<close> items, where \<open>m < 2 ^ h\<close>, the slots in use are all those of the levels below \<open>h\<close> and
  the first \<open>m + 1\<close> of level \<open>h\<close> in bit-reversed order.
\<close>

definition slots :: "nat \<Rightarrow> nat \<Rightarrow> nat set" where
  "slots h m = {1..<2 ^ h} \<union> (\<lambda>j. 2 ^ h + brev h j) ` {..m}"

lemma slots_first: "slots 0 0 = {1}"
  by (auto simp: slots_def)

lemma slots_finite [simp]: "finite (slots h m)"
  by (simp add: slots_def)

lemma slots_pos: "i \<in> slots h m \<Longrightarrow> 0 < i"
  by (auto simp: slots_def)

lemma slots_less: "i \<in> slots h m \<Longrightarrow> i < 2 ^ Suc h"
  using brev_less [of h] by (auto simp: slots_def)

lemma slots_next: "Suc m < 2 ^ h \<Longrightarrow> slots h (Suc m) = insert (2 ^ h + brev h (Suc m)) (slots h m) \<and>
    2 ^ h + brev h (Suc m) \<notin> slots h m"
proof -
  assume m: "Suc m < 2 ^ h"
  have "brev h j \<noteq> brev h (Suc m)" if "j \<le> m" for j using brev_inj [of j h "Suc m"] m that by auto
  then show ?thesis by (fastforce simp: slots_def atMost_Suc)
qed

lemma slots_full: "slots h (2 ^ h - 1) = {1..<2 ^ Suc h}"
proof -
  have "{..2 ^ h - 1} = {..<2 ^ h :: nat}" by (auto simp: less_Suc_eq_le [symmetric])
  then have "(\<lambda>j. 2 ^ h + brev h j) ` {..2 ^ h - 1} = (\<lambda>j. 2 ^ h + j) ` (brev h ` {..<2 ^ h})" by (simp add: image_image)
  also have "\<dots> = {2 ^ h..<2 ^ h + 2 ^ h}" unfolding brev_onto
  proof (intro equalityI subsetI)
    fix x :: nat assume "x \<in> {2 ^ h..<2 ^ h + 2 ^ h}"
    then have "x = 2 ^ h + (x - 2 ^ h)" "x - 2 ^ h \<in> {..<2 ^ h}" by auto
    then show "x \<in> (\<lambda>j. 2 ^ h + j) ` {..<2 ^ h}" by (rule image_eqI)
  qed auto
  finally show ?thesis unfolding slots_def by auto
qed

lemma slots_up: "slots (Suc h) 0 = insert (2 ^ Suc h) (slots h (2 ^ h - 1)) \<and> 2 ^ Suc h \<notin> slots h (2 ^ h - 1)"
  unfolding slots_full by (auto simp: slots_def)

text \<open>The parent of a slot in use is in use, and a right child only if the left one is.\<close>

lemma slots_parent: "i \<in> slots h m \<Longrightarrow> 1 < i \<Longrightarrow> i div 2 \<in> slots h m"
proof -
  assume i: "i \<in> slots h m" "1 < i"
  then have "i < 2 ^ Suc h" using slots_less by blast
  then have "i div 2 < 2 ^ h" by auto
  moreover have "0 < i div 2" using i(2) by simp
  ultimately show ?thesis by (auto simp: slots_def)
qed

lemma slots_left: "m < 2 ^ h \<Longrightarrow> 2 * p + 1 \<in> slots h m \<Longrightarrow> 0 < p \<Longrightarrow> 2 * p \<in> slots h m"
proof -
  assume m: "m < 2 ^ h" and r: "2 * p + 1 \<in> slots h m" and p: "0 < p"
  show ?thesis
  proof (cases "2 * p + 1 < 2 ^ h")
    case True
    then show ?thesis using p by (auto simp: slots_def)
  next
    case False
    then obtain j where j: "j \<le> m" "2 * p + 1 = 2 ^ h + brev h j" using r by (auto simp: slots_def)
    obtain k where k: "h = Suc k" using j p by (cases h) auto
    define t where "t = j div 2 ^ k"
    have "j < 2 ^ k * 2" using j(1) m k by simp
    then have t2: "t < 2" by (simp add: t_def div_less_iff_less_mult mult.commute)
    have js: "j = 2 ^ k * t + j mod 2 ^ k" by (simp add: t_def)
    have "brev h j = 2 * brev k (j mod 2 ^ k) + t"
      unfolding k by (subst js) (rule brev_top [OF _ t2], simp)
    then have "t = 1" and e: "2 * p = 2 ^ h + 2 * brev k (j mod 2 ^ k)" 
    proof -
      define X where "X = 2 ^ k + brev k (j mod 2 ^ k)"
      have e: "2 * p + 1 = 2 * X + t" unfolding X_def using j(2) k \<open>brev h j = _\<close> by simp
      show "t = 1" using e t2 by presburger
      then show "2 * p = 2 ^ h + 2 * brev k (j mod 2 ^ k)" using e k by (simp add: X_def)
    qed
    moreover have "brev h (j mod 2 ^ k) = 2 * brev k (j mod 2 ^ k)"
      unfolding k using brev_top [of "j mod 2 ^ k" k 0] by simp
    ultimately have "2 * p = 2 ^ h + brev h (j mod 2 ^ k)" by simp
    moreover have "j mod 2 ^ k \<in> {..m}" using le_trans [OF mod_less_eq_dividend j(1)] by simp
    ultimately have "2 * p \<in> (\<lambda>j. 2 ^ h + brev h j) ` {..m}" by (rule image_eqI)
    then show ?thesis unfolding slots_def by blast
  qed
qed

section \<open>The loops of the counter\<close>

lemma unat_complement:
  assumes "n < 64"
  shows "fst (complement64 r n) = bit r n"
    "unat (snd (complement64 r n)) = (if bit r n then unat r - 2 ^ n else unat r + 2 ^ n)"
    "bit r n \<Longrightarrow> 2 ^ n \<le> unat r"
proof -
  have "r AND push_bit n 1 = of_bool (bit r n) * push_bit n 1"
    by (rule bit_word_eqI) (use assms in \<open>auto simp: bit_simps\<close>)
  moreover have p0: "push_bit n (1 :: u64) \<noteq> 0" using assms by (auto simp: bit_eq_iff bit_simps)
  ultimately show "fst (complement64 r n) = bit r n" by (simp add: complement64_def)
  have pw: "unat (2 ^ n :: u64) = 2 ^ n"
  proof -
    have "(2::nat) ^ n < 2 ^ 64" using assms by (intro power_strict_increasing) simp_all
    then show ?thesis using unat_push [of "1 :: u64" n] by simp
  qed
  show g: "2 ^ n \<le> unat r" if "bit r n"
  proof (rule ccontr)
    assume "\<not> 2 ^ n \<le> unat r"
    then have "\<not> bit (unat r) n" by (simp add: bit_iff_odd)
    then show False using that by (simp add: bit_unat)
  qed
  have x: "snd (complement64 r n) = (if bit r n then r - 2 ^ n else r + 2 ^ n)"
    unfolding complement64_def snd_conv flip_bit_eq_xor [symmetric] flip_bit_eq_if
    by (simp add: set_bit_eq unset_bit_eq)
  show "unat (snd (complement64 r n)) = (if bit r n then unat r - 2 ^ n else unat r + 2 ^ n)"
  proof (cases "bit r n")
    case True
    then show ?thesis using x g pw by (simp add: unat_sub word_le_nat_alt)
  next
    case False
    have "unat (r XOR 2 ^ n) = (unat r XOR 2 ^ n)" by (simp add: unsigned_xor_eq pw)
    also have "\<dots> = flip_bit n (unat r)" by (simp add: flip_bit_eq_xor push_bit_eq_mult)
    also have "\<dots> = unat r + 2 ^ n" using False by (simp add: flip_bit_eq_if set_bit_eq bit_unat)
    finally show ?thesis using False by (simp add: complement64_def push_bit_eq_mult)
  qed
qed

lemma bit_of_rev:
  assumes "unat r = 2 ^ Suc n * c + brev (Suc n) m"
  shows "bit r n \<longleftrightarrow> odd m"
proof -
  have "unat r = 2 ^ n * (2 * c + m mod 2) + brev n (m div 2)" using assms by (simp add: algebra_simps)
  then have "unat r div 2 ^ n = 2 * c + m mod 2" using brev_less [of n "m div 2"] by simp
  then have "bit (unat r) n \<longleftrightarrow> odd (2 * c + m mod 2)" by (simp add: bit_iff_odd)
  then show ?thesis by (simp add: bit_unat)
qed

lemma inc_bits_spec:
  assumes "n \<le> 64" "m < 2 ^ n" "unat r = 2 ^ n * c + brev n m"
  shows "fst (inc_bits n r) = (Suc m < 2 ^ n) \<and>
    (Suc m < 2 ^ n \<longrightarrow> unat (snd (inc_bits n r)) = 2 ^ n * c + brev n (Suc m))"
  using assms
proof (induction n arbitrary: m r c)
  case 0
  then show ?case by simp
next
  case (Suc n)
  obtain b r' where r': "complement64 r n = (b, r')" by (cases "complement64 r n")
  have n: "n < 64" using Suc.prems(1) by simp
  have b: "b \<longleftrightarrow> odd m" using unat_complement(1) [OF n, of r] r' bit_of_rev [OF Suc.prems(3)] by simp
  have u: "unat r' = (if odd m then unat r - 2 ^ n else unat r + 2 ^ n)"
    using unat_complement(2) [OF n, of r] r' bit_of_rev [OF Suc.prems(3)] by simp
  show ?case
  proof (cases "odd m")
    case False
    then have "Suc m < 2 ^ Suc n" using Suc.prems(2) by (auto simp: less_Suc_eq elim!: evenE)
    moreover have "brev (Suc n) (Suc m) = 2 ^ n + brev (Suc n) m" using False by (simp add: mod_2_eq_odd)
    ultimately show ?thesis using r' b u False Suc.prems(3) by simp
  next
    case True
    have "unat r' = 2 ^ n * (2 * c) + brev n (m div 2)"
      using u True Suc.prems(3) by (simp add: mod_2_eq_odd)
    moreover have "m div 2 < 2 ^ n" using Suc.prems(2) by auto
    ultimately have ih: "fst (inc_bits n r') = (Suc (m div 2) < 2 ^ n) \<and>
      (Suc (m div 2) < 2 ^ n \<longrightarrow> unat (snd (inc_bits n r')) = 2 ^ n * (2 * c) + brev n (Suc (m div 2)))"
      using Suc.IH n by simp
    have "Suc m div 2 = Suc (m div 2)" "Suc m mod 2 = 0" using True by presburger+
    moreover from this have "Suc m < 2 ^ Suc n \<longleftrightarrow> Suc (m div 2) < 2 ^ n" by auto
    ultimately show ?thesis using ih r' b True by simp
  qed
qed

lemma dec_bits_spec:
  assumes "n \<le> 64" "m < 2 ^ n" "unat r = 2 ^ n * c + brev n m"
  shows "fst (dec_bits n r) = (0 < m) \<and> (0 < m \<longrightarrow> unat (snd (dec_bits n r)) = 2 ^ n * c + brev n (m - 1))"
  using assms
proof (induction n arbitrary: m r c)
  case 0
  then show ?case by simp
next
  case (Suc n)
  obtain b r' where r': "complement64 r n = (b, r')" by (cases "complement64 r n")
  have n: "n < 64" using Suc.prems(1) by simp
  have b: "b \<longleftrightarrow> odd m" using unat_complement(1) [OF n, of r] r' bit_of_rev [OF Suc.prems(3)] by simp
  have u: "unat r' = (if odd m then unat r - 2 ^ n else unat r + 2 ^ n)"
    using unat_complement(2) [OF n, of r] r' bit_of_rev [OF Suc.prems(3)] by simp
  show ?case
  proof (cases "odd m")
    case True
    then have "(m - 1) mod 2 = 0" "(m - 1) div 2 = m div 2" by presburger+
    then have "brev (Suc n) m = 2 ^ n + brev (Suc n) (m - 1)" using True by (simp add: mod_2_eq_odd)
    moreover have "0 < m" using True by (cases m) simp_all
    ultimately show ?thesis using r' b u True Suc.prems(3) by simp
  next
    case False
    have "unat r' = 2 ^ n * (2 * c + 1) + brev n (m div 2)"
      using u False Suc.prems(3) by (simp add: mod_2_eq_odd algebra_simps)
    moreover have "m div 2 < 2 ^ n" using Suc.prems(2) by auto
    ultimately have ih: "fst (dec_bits n r') = (0 < m div 2) \<and>
      (0 < m div 2 \<longrightarrow> unat (snd (dec_bits n r')) = 2 ^ n * (2 * c + 1) + brev n (m div 2 - 1))"
      using Suc.IH [of "m div 2" r' "2 * c + 1"] n by simp
    have "0 < m div 2 \<longleftrightarrow> 0 < m" using False by presburger
    moreover have "0 < m \<Longrightarrow> (m - 1) mod 2 = 1 \<and> (m - 1) div 2 = m div 2 - 1" using False by presburger
    ultimately show ?thesis using ih r' b False by (auto simp: algebra_simps)
  qed
qed

section \<open>The counter\<close>

text \<open>The counter stands at \<open>2 ^ h + m\<close>.\<close>

definition brc_at :: "nat \<Rightarrow> nat \<Rightarrow> bit_reverse_counter \<Rightarrow> bool" where
  "brc_at h m c \<longleftrightarrow> m < 2 ^ h \<and> h < 63 \<and> unat (m_nCounter c) = 2 ^ h + m \<and> unat (m_nReversed c) = 2 ^ h + brev h m \<and>
     m_nHighBit c = int h"

lemma pow_63: "h < 63 \<Longrightarrow> (2::nat) ^ h \<le> 2 ^ 62"
  by (rule power_increasing) simp_all

lemma inc_first: "brc_inc bit_reverse_counter = (1, \<lparr>m_nCounter = 1, m_nReversed = 1, m_nHighBit = 0\<rparr>) \<and>
  brc_at 0 0 \<lparr>m_nCounter = 1, m_nReversed = 1, m_nHighBit = 0\<rparr>"
  by (simp add: brc_inc_def bit_reverse_counter_def brc_at_def)

lemma inc_at:
  assumes at: "brc_at h m c" and lt: "Suc h < 63 \<or> Suc m < 2 ^ h"
  shows "(if Suc m < 2 ^ h then brc_at h (Suc m) (snd (brc_inc c)) else brc_at (Suc h) 0 (snd (brc_inc c))) \<and>
    fst (brc_inc c) = m_nReversed (snd (brc_inc c))"
proof -
  have a: "m < 2 ^ h" "h < 63" "unat (m_nCounter c) = 2 ^ h + m" "unat (m_nReversed c) = 2 ^ h * 1 + brev h m" "m_nHighBit c = int h"
    using at by (simp_all add: brc_at_def)
  obtain s r where sr: "inc_bits h (m_nReversed c) = (s, r)" by (cases "inc_bits h (m_nReversed c)")
  have i: "s = (Suc m < 2 ^ h)" "Suc m < 2 ^ h \<Longrightarrow> unat r = 2 ^ h + brev h (Suc m)"
    using inc_bits_spec [OF _ a(1,4)] a(2) sr by simp_all
  have "2 ^ h + m < 2 ^ 63" using a(1) pow_63 [OF a(2)] by simp
  then have n: "unat (m_nCounter c + 1) = 2 ^ h + Suc m" using a(3) by (simp add: unat_word_ariths)
  show ?thesis
  proof (cases "Suc m < 2 ^ h")
    case True
    then show ?thesis using a(2,5) i n sr by (simp add: brc_inc_def brc_at_def Let_def)
  next
    case False
    then have "Suc m = 2 ^ h" "Suc h < 63" using a(1) lt by simp_all
    then show ?thesis using a(5) i n sr by (simp add: brc_inc_def brc_at_def Let_def)
  qed
qed

lemma brev_ones: "brev k (2 ^ k - 1) = 2 ^ k - 1"
proof (induction k)
  case (Suc k)
  have "(2 ^ Suc k - 1 :: nat) mod 2 = 1" "(2 ^ Suc k - 1 :: nat) div 2 = 2 ^ k - 1"
    using one_le_power [of "2 :: nat" k] by (simp_all, presburger+)
  then show ?case using Suc one_le_power [of "2 :: nat" k] by simp
qed simp

lemma dec_at:
  assumes at: "brc_at h m c"
  shows "if 0 < m then brc_at h (m - 1) (snd (brc_dec c))
    else if 0 < h then brc_at (h - 1) (2 ^ (h - 1) - 1) (snd (brc_dec c)) else snd (brc_dec c) = bit_reverse_counter"
proof -
  have a: "m < 2 ^ h" "h < 63" "unat (m_nCounter c) = 2 ^ h + m" "unat (m_nReversed c) = 2 ^ h * 1 + brev h m" "m_nHighBit c = int h"
    using at by (simp_all add: brc_at_def)
  obtain s r where sr: "dec_bits h (m_nReversed c) = (s, r)" by (cases "dec_bits h (m_nReversed c)")
  have i: "s = (0 < m)" "0 < m \<Longrightarrow> unat r = 2 ^ h + brev h (m - 1)"
    using dec_bits_spec [OF _ a(1,4)] a(2) sr by simp_all
  have "0 < unat (m_nCounter c)" using a(3) by simp
  then have "m_nCounter c \<noteq> 0" by auto
  then have n: "unat (m_nCounter c - 1) = 2 ^ h + m - 1" using a(3) by (simp add: unat_minus_one)
  show ?thesis
  proof (cases "0 < m")
    case True
    then show ?thesis using a i n sr by (simp add: brc_dec_def brc_at_def Let_def)
  next
    case False
    then have d: "snd (brc_dec c) = \<lparr>m_nCounter = m_nCounter c - 1, m_nReversed = m_nCounter c - 1, m_nHighBit = int h - 1\<rparr>"
      using i sr a(5) by (simp add: brc_dec_def Let_def)
    show ?thesis
    proof (cases h)
      case 0
      then have "m_nCounter c - 1 = 0" using False n by (simp add: word_unat_eq_iff)
      then show ?thesis using False 0 d by (simp add: bit_reverse_counter_def)
    next
      case (Suc k)
      have "2 ^ h - 1 = 2 ^ k + (2 ^ k - 1 :: nat)" using Suc one_le_power [of "2 :: nat" k] by simp
      then show ?thesis using False Suc n d a(2) brev_ones [of k] by (simp add: brc_at_def)
    qed
  qed
qed

text \<open>
  C34. The counter and its reversal count in step: after \<open>n\<close> increments it stands at \<open>n\<close>, its reversed value is
  the slot of item \<open>n\<close>, and \<^verbatim>\<open>dec\<close> undoes \<^verbatim>\<open>inc\<close>.
\<close>

theorem brc_roundtrip:
  assumes "brc_at h m c" "Suc h < 63"
  shows "brc_dec (snd (brc_inc c)) = (m_nReversed c, c)"
proof -
  let ?c = "snd (brc_inc c)"
  have i: "if Suc m < 2 ^ h then brc_at h (Suc m) ?c else brc_at (Suc h) 0 ?c" using inc_at [OF assms(1)] assms(2) by simp
  have eq: "snd (brc_dec ?c) = c" if "brc_at h m (snd (brc_dec ?c))"
    using that assms(1) by (cases c, cases "snd (brc_dec ?c)") (simp add: brc_at_def word_unat_eq_iff)
  have "brc_at h m (snd (brc_dec ?c))"
  proof (cases "Suc m < 2 ^ h")
    case True
    then show ?thesis using dec_at [of h "Suc m" ?c] i by simp
  next
    case False
    moreover have "m < 2 ^ h" using assms(1) by (simp add: brc_at_def)
    ultimately have "m = 2 ^ h - 1" by linarith
    then show ?thesis using dec_at [of "Suc h" 0 ?c] i False by simp
  qed
  moreover have "fst (brc_dec x) = m_nReversed (snd (brc_dec x))" for x by (simp add: brc_dec_def Let_def split: prod.split)
  ultimately show ?thesis using eq by (metis prod.collapse)
qed

theorem brc_roundtrip_witness:
  "brc_dec (snd (brc_inc \<lparr>m_nCounter = 6, m_nReversed = 5, m_nHighBit = 2\<rparr>)) = (5, \<lparr>m_nCounter = 6, m_nReversed = 5, m_nHighBit = 2\<rparr>)"
proof -
  have "brev 2 2 = 1" by (simp add: numeral_2_eq_2)
  then have "brc_at 2 2 \<lparr>m_nCounter = 6, m_nReversed = 5, m_nHighBit = 2\<rparr>" by (simp add: brc_at_def)
  then show ?thesis using brc_roundtrip by fastforce
qed

end
