(* ===== verification/MSQ_Heap.thy ===== *)
theory MSQ_Heap
  imports MSQ_Counter "HOL-Library.Multiset"
begin

text \<open>The heap operations keep the heap order and the content.\<close>

section \<open>Nodes\<close>

definition locked_of :: "'a msq \<Rightarrow> nat \<Rightarrow> bool" where
  "locked_of q i = m_nodeLock (m_Heap q ! i)"

definition locked :: "nat \<Rightarrow> 'a msq \<Rightarrow> 'a msq" where
  "locked i q = q\<lparr>m_Heap := (m_Heap q)[i := (m_Heap q ! i)\<lparr>m_nodeLock := True\<rparr>]\<rparr>"

abbreviation cap :: "'a msq \<Rightarrow> nat" where
  "cap q \<equiv> length (m_Heap q)"

named_theorems ms_access \<open>what an access to a node changes\<close>

lemma lock_node_ok [ms_access]: "i < cap q \<Longrightarrow> \<not> locked_of q i \<Longrightarrow> lock_node i q = Some (locked i q)"
  by (simp add: lock_node_def locked_def locked_of_def)

lemma cap_access [ms_access]:
  "cap (locked i q) = cap q" "cap (unlock_node i q) = cap q" "cap (set_tag i t q) = cap q" "cap (set_value i v q) = cap q"
  "cap (swap_nodes i j q) = cap q"
  by (simp_all add: locked_def unlock_node_def set_tag_def set_value_def swap_nodes_def Let_def)

lemma other_access [ms_access]:
  "m_ItemCounter (locked i q) = m_ItemCounter q" "m_ItemCounter (unlock_node i q) = m_ItemCounter q"
  "m_ItemCounter (set_tag i t q) = m_ItemCounter q" "m_ItemCounter (set_value i v q) = m_ItemCounter q"
  "m_ItemCounter (swap_nodes i j q) = m_ItemCounter q"
  "m_sizeLock (locked i q) = m_sizeLock q" "m_sizeLock (unlock_node i q) = m_sizeLock q"
  "m_sizeLock (set_tag i t q) = m_sizeLock q" "m_sizeLock (set_value i v q) = m_sizeLock q"
  "m_sizeLock (swap_nodes i j q) = m_sizeLock q"
  by (simp_all add: locked_def unlock_node_def set_tag_def set_value_def swap_nodes_def Let_def)

lemma nth_upd: "xs[i := x] ! j = (if i = j \<and> i < length xs then x else xs ! j)"
  by (cases "i < length xs") (simp_all add: nth_list_update list_update_beyond)

lemma value_access [ms_access]:
  "value_of (locked i q) = value_of q" "value_of (unlock_node i q) = value_of q" "value_of (set_tag i t q) = value_of q"
  "i < cap q \<Longrightarrow> value_of (set_value i v q) = (value_of q)(i := v)"
  by (simp_all add: locked_def unlock_node_def set_tag_def set_value_def value_of_def fun_eq_iff nth_upd)

lemma tag_access [ms_access]:
  "tag_of (locked i q) = tag_of q" "tag_of (unlock_node i q) = tag_of q" "tag_of (set_value i v q) = tag_of q"
  "i < cap q \<Longrightarrow> tag_of (set_tag i t q) = (tag_of q)(i := t)"
  by (simp_all add: locked_def unlock_node_def set_tag_def set_value_def tag_of_def fun_eq_iff nth_upd)

lemma lock_access [ms_access]:
  "locked_of (set_value i v q) = locked_of q" "locked_of (set_tag i t q) = locked_of q"
  "i < cap q \<Longrightarrow> locked_of (locked i q) = (locked_of q)(i := True)"
  "i < cap q \<Longrightarrow> locked_of (unlock_node i q) = (locked_of q)(i := False)"
  by (simp_all add: locked_def unlock_node_def set_tag_def set_value_def locked_of_def fun_eq_iff nth_upd)

lemma swap_access [ms_access]:
  "i < cap q \<Longrightarrow> j < cap q \<Longrightarrow> i \<noteq> j \<Longrightarrow> value_of (swap_nodes i j q) = (value_of q)(i := value_of q j, j := value_of q i)"
  "i < cap q \<Longrightarrow> j < cap q \<Longrightarrow> i \<noteq> j \<Longrightarrow> tag_of (swap_nodes i j q) = (tag_of q)(i := tag_of q j, j := tag_of q i)"
  "locked_of (swap_nodes i j q) = locked_of q"
  by (simp_all add: swap_nodes_def Let_def ms_access fun_eq_iff)

lemma size_access [ms_access]:
  "m_Heap (unlock_size q) = m_Heap q" "m_ItemCounter (unlock_size q) = m_ItemCounter q" "m_sizeLock (unlock_size q) = False"
  "value_of (unlock_size q) = value_of q" "tag_of (unlock_size q) = tag_of q" "locked_of (unlock_size q) = locked_of q"
  "value_of (q\<lparr>m_ItemCounter := c\<rparr>) = value_of q" "tag_of (q\<lparr>m_ItemCounter := c\<rparr>) = tag_of q"
  "locked_of (q\<lparr>m_ItemCounter := c\<rparr>) = locked_of q"
  "value_of (q\<lparr>m_sizeLock := b\<rparr>) = value_of q" "tag_of (q\<lparr>m_sizeLock := b\<rparr>) = tag_of q"
  "locked_of (q\<lparr>m_sizeLock := b\<rparr>) = locked_of q"
  by (simp_all add: unlock_size_def value_of_def tag_of_def locked_of_def fun_eq_iff)

section \<open>The heap\<close>

text \<open>\<open>U\<close> is a set of slots that is closed under parents and has no right child without the left one.\<close>

definition tree :: "nat set \<Rightarrow> nat \<Rightarrow> bool" where
  "tree U n \<longleftrightarrow> finite U \<and> (\<forall>i \<in> U. 0 < i \<and> i < n \<and> (1 < i \<longrightarrow> i div 2 \<in> U)) \<and>
     (\<forall>p > 0. 2 * p + 1 \<in> U \<longrightarrow> 2 * p \<in> U)"

definition unlocked :: "'a msq \<Rightarrow> bool" where
  "unlocked q \<longleftrightarrow> (\<forall>i < cap q. \<not> locked_of q i)"

definition tags :: "(nat \<Rightarrow> tag_type) \<Rightarrow> nat set \<Rightarrow> nat \<Rightarrow> bool" where
  "tags T U n \<longleftrightarrow> (\<forall>i. 0 < i \<longrightarrow> i < n \<longrightarrow> T i = (if i \<in> U then AvailableTag else EmptyTag))"

definition ordered :: "(nat \<Rightarrow> 'a :: linorder) \<Rightarrow> nat set \<Rightarrow> bool" where
  "ordered V U \<longleftrightarrow> (\<forall>i \<in> U. 1 < i \<longrightarrow> V (i div 2) \<le> V i)"

definition content :: "(nat \<Rightarrow> 'a) \<Rightarrow> nat set \<Rightarrow> 'a multiset" where
  "content V U = image_mset V (mset_set U)"

lemma content_swap:
  assumes "finite U" "i \<in> U" "j \<in> U" "i \<noteq> j"
  shows "content (V(i := V j, j := V i)) U = content V U"
proof -
  let ?W = "U - {i, j}"
  have U: "mset_set U = add_mset i (add_mset j (mset_set ?W))"
  proof -
    have "mset_set (insert i (insert j ?W)) = add_mset i (add_mset j (mset_set ?W))" using assms(1,4) by simp
    moreover have "insert i (insert j ?W) = U" using assms(2,3) by blast
    ultimately show ?thesis by simp
  qed
  have "image_mset (V(i := V j, j := V i)) (mset_set ?W) = image_mset V (mset_set ?W)"
    using assms(1) by (intro image_mset_cong) auto
  then show ?thesis using assms(4) by (simp add: content_def U)
qed

lemma content_cong: "finite U \<Longrightarrow> (\<And>i. i \<in> U \<Longrightarrow> V i = W i) \<Longrightarrow> content V U = content W U"
  unfolding content_def by (rule image_mset_cong) simp

lemma avail_empty: "AvailableTag \<noteq> EmptyTag" "EmptyTag \<noteq> AvailableTag"
  by (simp_all add: AvailableTag_def EmptyTag_def)

section \<open>Upwards\<close>

text \<open>The order holds except that the item at \<open>p\<close> may be smaller than its parent.\<close>

definition rising :: "(nat \<Rightarrow> 'a :: linorder) \<Rightarrow> nat set \<Rightarrow> nat \<Rightarrow> bool" where
  "rising V U p \<longleftrightarrow> (\<forall>i \<in> U. 1 < i \<longrightarrow> i \<noteq> p \<longrightarrow> V (i div 2) \<le> V i) \<and>
     (\<forall>i \<in> U. 1 < i \<longrightarrow> i div 2 = p \<longrightarrow> 1 < p \<longrightarrow> V (p div 2) \<le> V i)"

lemma rising_swap:
  assumes r: "rising V U p" and t: "tree U n" and p: "p \<in> U" "1 < p" and lt: "V p < V (p div 2)"
  shows "rising (V(p := V (p div 2), p div 2 := V p)) U (p div 2)"
proof -
  let ?r = "p div 2" and ?V = "V(p := V (p div 2), p div 2 := V p)"
  have rp: "?r \<noteq> p" "?r \<in> U" "0 < ?r" using p t by (auto simp: tree_def)
  have old: "V (i div 2) \<le> V i" if "i \<in> U" "1 < i" "i \<noteq> p" for i using r that by (simp add: rising_def)
  have child: "V ?r \<le> V i" if "i \<in> U" "1 < i" "i div 2 = p" for i using r p(2) that by (simp add: rising_def)
  have a: "?V (i div 2) \<le> ?V i" if i: "i \<in> U" "1 < i" "i \<noteq> ?r" for i
  proof (cases "i = p")
    case True
    then show ?thesis using lt rp by simp
  next
    case False
    note o = old [OF i(1,2) False]
    have "i div 2 = p \<Longrightarrow> V ?r \<le> V i" by (rule child [OF i(1,2)])
    then show ?thesis using o i(3) False rp(1) lt by auto
  qed
  have b: "?V (?r div 2) \<le> ?V i" if i: "i \<in> U" "1 < i" "i div 2 = ?r" "1 < ?r" for i
  proof -
    have g: "V (?r div 2) \<le> V ?r" by (rule old [OF rp(2) i(4) rp(1)])
    have n: "?r div 2 \<noteq> p" "?r div 2 \<noteq> ?r" using i(4) by auto
    have "i \<noteq> ?r" using i(2,3) by auto
    then show ?thesis using g n old [OF i(1,2)] i(3) by (cases "i = p") auto
  qed
  show ?thesis unfolding rising_def using a b by blast
qed

text \<open>The effect of an operation on the heap.\<close>

definition heap_step :: "'a :: linorder msq \<Rightarrow> nat set \<Rightarrow> 'a msq \<Rightarrow> bool" where
  "heap_step q U q' \<longleftrightarrow> cap q' = cap q \<and> m_ItemCounter q' = m_ItemCounter q \<and> m_sizeLock q' = m_sizeLock q \<and>
     unlocked q' \<and> tags (tag_of q') U (cap q) \<and> ordered (value_of q') U \<and>
     content (value_of q') U = content (value_of q) U"

lemma push_loop_zero: "0 < f \<Longrightarrow> push_loop cmp f 0 c q = Some (0, q)"
  by (cases f) simp_all

lemma heapify_push_ok:
  assumes cmp: "\<And>x y. cmp x y > 0 \<longleftrightarrow> x < y" and c: "c \<noteq> AvailableTag" "c \<noteq> EmptyTag" and t: "tree U (cap q)"
  shows "p < f \<Longrightarrow> p \<in> U \<Longrightarrow> unlocked q \<Longrightarrow> rising (value_of q) U p \<Longrightarrow>
    (\<forall>i. 0 < i \<longrightarrow> i < cap q \<longrightarrow> tag_of q i = (if i = p then c else if i \<in> U then AvailableTag else EmptyTag)) \<Longrightarrow>
    tree U (cap q) \<Longrightarrow> \<exists>q'. heapify_after_push cmp f p c q = Some q' \<and> heap_step q U q'"
proof (induction f arbitrary: p q)
  case 0
  then show ?case by simp
next
  case (Suc f)
  note t = Suc.prems(6)
  have p: "0 < p" "p < cap q" using t Suc.prems(2) by (simp_all add: tree_def)
  have nl: "\<not> locked_of q i" if "i < cap q" for i using Suc.prems(3) that by (simp add: unlocked_def)
  show ?case
  proof (cases "p = 1")
    case True
    let ?q = "unlock_node 1 (set_tag 1 AvailableTag (locked 1 q))"
    have "heapify_after_push cmp (Suc f) p c q = Some ?q"
      using True p nl Suc.prems(5) by (simp add: heapify_after_push_def ms_access)
    moreover have "heap_step q U ?q"
      unfolding heap_step_def unlocked_def tags_def ordered_def
      using True p nl Suc.prems(2,4,5) by (auto simp: ms_access rising_def)
    ultimately show ?thesis by blast
  next
    case False
    let ?r = "p div 2"
    have p1: "1 < p" using p(1) False by simp
    have r: "?r \<in> U" "0 < ?r" "?r < cap q" "?r \<noteq> p" using t Suc.prems(2) p1 by (auto simp: tree_def)
    have tg: "tag_of q ?r = AvailableTag" "tag_of q p = c" using Suc.prems(5) p r by auto
    let ?l = "locked p (locked ?r q)"
    have lk: "lock_node ?r q = Some (locked ?r q)" "lock_node p (locked ?r q) = Some ?l"
      using p r nl by (simp_all add: ms_access)
    show ?thesis
    proof (cases "value_of q p < value_of q ?r")
      case True
      let ?q = "unlock_node ?r (unlock_node p (swap_nodes p ?r ?l))"
      have st: "heapify_after_push cmp (Suc f) p c q = heapify_after_push cmp f ?r c ?q"
        using True p1 lk tg cmp by (simp add: heapify_after_push_def ms_access)
      have v: "value_of ?q = (value_of q)(p := value_of q ?r, ?r := value_of q p)"
        and tq: "tag_of ?q = (tag_of q)(p := AvailableTag, ?r := c)"
        using p r tg by (simp_all add: ms_access)
      have fr: "cap ?q = cap q" "m_ItemCounter ?q = m_ItemCounter q" "m_sizeLock ?q = m_sizeLock q"
        by (simp_all add: ms_access)
      have "\<exists>q'. heapify_after_push cmp f ?r c ?q = Some q' \<and> heap_step ?q U q'"
      proof (rule Suc.IH)
        show "?r < f" using Suc.prems(1) p1 by simp
        show "?r \<in> U" by (rule r(1))
        show "unlocked ?q" using p r nl by (auto simp: unlocked_def ms_access)
        show "rising (value_of ?q) U ?r" unfolding v by (rule rising_swap [OF Suc.prems(4) t Suc.prems(2) p1 True])
        show "\<forall>i. 0 < i \<longrightarrow> i < cap ?q \<longrightarrow> tag_of ?q i = (if i = ?r then c else if i \<in> U then AvailableTag else EmptyTag)"
          unfolding tq fr using Suc.prems(2,5) r(1,4) by auto
        show "tree U (cap ?q)" unfolding fr by (rule t)
      qed
      moreover have "content (value_of ?q) U = content (value_of q) U"
        unfolding v by (rule content_swap) (use t r Suc.prems(2) in \<open>auto simp: tree_def\<close>)
      ultimately show ?thesis using st unfolding heap_step_def fr by auto
    next
      case no: False
      let ?q = "unlock_node ?r (unlock_node p (set_tag p AvailableTag ?l))"
      have "push_loop cmp f 0 c ?q = Some (0, ?q)" by (rule push_loop_zero) (use Suc.prems(1) p in simp)
      then have "heapify_after_push cmp (Suc f) p c q = Some ?q"
        using no p1 lk tg cmp by (simp add: heapify_after_push_def ms_access)
      moreover have "heap_step q U ?q"
      proof -
        have "value_of ?q = value_of q" "tag_of ?q = (tag_of q)(p := AvailableTag)" "cap ?q = cap q"
          "m_ItemCounter ?q = m_ItemCounter q" "m_sizeLock ?q = m_sizeLock q"
          using p r by (simp_all add: ms_access)
        moreover have "unlocked ?q" using p r nl by (auto simp: unlocked_def ms_access)
        moreover have "ordered (value_of q) U" using Suc.prems(4) no unfolding rising_def ordered_def by force
        ultimately show ?thesis using Suc.prems(2,5) by (simp add: heap_step_def tags_def)
      qed
      ultimately show ?thesis by blast
    qed
  qed
qed

section \<open>Downwards\<close>

text \<open>The order holds except that the item at \<open>p\<close> may be larger than its children.\<close>

definition sinking :: "(nat \<Rightarrow> 'a :: linorder) \<Rightarrow> nat set \<Rightarrow> nat \<Rightarrow> bool" where
  "sinking V U p \<longleftrightarrow> (\<forall>i \<in> U. 1 < i \<longrightarrow> i div 2 \<noteq> p \<longrightarrow> V (i div 2) \<le> V i) \<and>
     (\<forall>i \<in> U. 1 < i \<longrightarrow> i div 2 = p \<longrightarrow> 1 < p \<longrightarrow> V (p div 2) \<le> V i)"

lemma sinking_swap:
  assumes s: "sinking V U p" and t: "tree U n" and p: "p \<in> U" and c: "c \<in> U" "1 < c" "c div 2 = p"
    and lt: "V c < V p" and least: "\<And>i. i \<in> U \<Longrightarrow> 1 < i \<Longrightarrow> i div 2 = p \<Longrightarrow> V c \<le> V i"
  shows "sinking (V(p := V c, c := V p)) U c"
proof -
  let ?V = "V(p := V c, c := V p)"
  have cp: "c \<noteq> p" using c(2,3) by auto
  have old: "V (i div 2) \<le> V i" if "i \<in> U" "1 < i" "i div 2 \<noteq> p" for i using s that by (simp add: sinking_def)
  have up: "V (p div 2) \<le> V i" if "i \<in> U" "1 < i" "i div 2 = p" "1 < p" for i using s that by (simp add: sinking_def)
  have a: "?V (i div 2) \<le> ?V i" if i: "i \<in> U" "1 < i" "i div 2 \<noteq> c" for i
  proof (cases "i div 2 = p")
    case True
    then show ?thesis using cp least [OF i(1,2) True] lt by auto
  next
    case False
    have ic: "i \<noteq> c" using False c(3) by auto
    show ?thesis
    proof (cases "i = p")
      case True
      then have "V (p div 2) \<le> V c" using up [OF c] i(2) by simp
      then show ?thesis using True False i(3) cp by simp
    next
      case no: False
      then show ?thesis using old [OF i(1,2) False] False i(3) ic by simp
    qed
  qed
  have b: "?V (c div 2) \<le> ?V i" if i: "i \<in> U" "1 < i" "i div 2 = c" for i
  proof -
    have "i \<noteq> c" "i \<noteq> p" using i c(3) by (auto simp: div_le_dividend le_antisym)
    moreover have "V c \<le> V i" using old [OF i(1,2)] i(3) cp by simp
    ultimately show ?thesis using c(3) cp by simp
  qed
  show ?thesis unfolding sinking_def using a b by blast
qed

lemma no_child_ordered:
  assumes "sinking V U p" "tree U n" "0 < p" "2 * p \<notin> U"
  shows "ordered V U"
proof -
  have "i div 2 \<noteq> p" if "i \<in> U" for i
  proof
    assume "i div 2 = p"
    then have "i = 2 * p \<or> i = 2 * p + 1" by presburger
    then show False using assms(2-4) that by (auto simp: tree_def)
  qed
  then show ?thesis using assms(1) by (auto simp: sinking_def ordered_def)
qed

text \<open>One round of the loop: the child that it chooses is the smaller one.\<close>

definition small_child :: "(nat \<Rightarrow> 'a :: linorder) \<Rightarrow> nat set \<Rightarrow> nat \<Rightarrow> nat" where
  "small_child V U p = (if 2 * p + 1 \<notin> U \<or> V (2 * p) < V (2 * p + 1) then 2 * p else 2 * p + 1)"

lemma small_child_least:
  assumes "2 * p \<in> U" "0 < p"
  shows "small_child V U p \<in> U" "1 < small_child V U p" "small_child V U p div 2 = p"
    "i \<in> U \<Longrightarrow> 1 < i \<Longrightarrow> i div 2 = p \<Longrightarrow> V (small_child V U p) \<le> V i"
proof -
  show "small_child V U p \<in> U" "1 < small_child V U p" "small_child V U p div 2 = p"
    using assms by (auto simp: small_child_def)
  assume i: "i \<in> U" "1 < i" "i div 2 = p"
  then have "i = 2 * p \<or> i = 2 * p + 1" by presburger
  then show "V (small_child V U p) \<le> V i" using i(1) by (auto simp: small_child_def)
qed

lemma heapify_pop_ok:
  assumes cmp: "\<And>x y. cmp x y > 0 \<longleftrightarrow> x < y"
  shows "cap q < f + p \<Longrightarrow> p \<in> U \<Longrightarrow> tree U (cap q) \<Longrightarrow> even (cap q) \<Longrightarrow>
    (\<forall>i < cap q. locked_of q i \<longleftrightarrow> i = p) \<Longrightarrow> sinking (value_of q) U p \<Longrightarrow> tags (tag_of q) U (cap q) \<Longrightarrow>
    \<exists>q'. heapify_after_pop cmp f p q = Some q' \<and> heap_step q U q'"
proof (induction f arbitrary: p q)
  case 0
  then show ?case by (auto simp: tree_def)
next
  case (Suc f)
  note t = Suc.prems(3) and ev = Suc.prems(4) and lk = Suc.prems(5) and tg = Suc.prems(7)
  have p: "0 < p" "p < cap q" using t Suc.prems(2) by (simp_all add: tree_def)
  have fin: "finite U" using t by (simp add: tree_def)
  show ?case
  proof (cases "p < cap q div 2")
    case False
    then have "2 * p \<notin> U" using t ev by (auto simp: tree_def elim!: evenE)
    then have "ordered (value_of q) U" by (rule no_child_ordered [OF Suc.prems(6) t p(1)])
    then have "heap_step q U (unlock_node p q)"
      unfolding heap_step_def unlocked_def using p lk tg by (auto simp: ms_access)
    then show ?thesis using False by simp
  next
    case True
    let ?l = "2 * p" and ?r = "2 * p + 1"
    have b: "?l < cap q" "?r < cap q" using True by linarith+
    have ne: "?l \<noteq> p" "?r \<noteq> p" "?l \<noteq> ?r" using p(1) by presburger+
    let ?k = "locked ?r (locked ?l q)"
    have lkd: "lock_node (p * 2) q = Some (locked ?l q)" "lock_node (p * 2 + 1) (locked ?l q) = Some ?k"
      using b ne lk by (simp_all add: ms_access mult.commute)
    have tgs: "tag_of q ?l = EmptyTag \<longleftrightarrow> ?l \<notin> U" "tag_of q ?r = EmptyTag \<longleftrightarrow> ?r \<notin> U"
      using tg b p(1) by (auto simp: tags_def avail_empty)
    show ?thesis
    proof (cases "?l \<in> U")
      case False
      let ?q = "unlock_node p (unlock_node ?l (unlock_node ?r ?k))"
      have "heapify_after_pop cmp (Suc f) p q = Some ?q"
        using True lkd False tgs(1) by (simp add: ms_access mult.commute)
      moreover have "heap_step q U ?q"
        unfolding heap_step_def unlocked_def
        using b p lk tg no_child_ordered [OF Suc.prems(6) t p(1) False] by (auto simp: ms_access)
      ultimately show ?thesis by blast
    next
      case l: True
      define c where "c = small_child (value_of q) U p"
      let ?o = "if c = ?l then ?r else ?l"
      note cl = small_child_least [OF l p(1), where V = "value_of q", folded c_def]
      have cc: "c < cap q" "c \<noteq> p" "?o \<noteq> c" "?o \<noteq> p" "?o < cap q" "c = ?l \<or> c = ?r"
        using cl(1,2) t b ne by (auto simp: tree_def c_def small_child_def)
      let ?u = "unlock_node ?o ?k"
      have choose: "(if tag_of ?k (p * 2 + 1) = EmptyTag \<or> cmp (value_of ?k (p * 2)) (value_of ?k (p * 2 + 1)) > 0
          then (p * 2, unlock_node (p * 2 + 1) ?k) else (p * 2 + 1, unlock_node (p * 2) ?k)) = (c, ?u)"
        using tgs(2) cmp by (auto simp: c_def small_child_def ms_access mult.commute)
      have loop: "heapify_after_pop cmp (Suc f) p q =
          (if value_of q c < value_of q p then heapify_after_pop cmp f c (unlock_node p (swap_nodes p c ?u))
           else Some (unlock_node p (unlock_node c ?u)))"
      proof -
        have "tag_of ?k (p * 2) \<noteq> EmptyTag" using tgs(1) l by (simp add: ms_access mult.commute)
        then have "heapify_after_pop cmp (Suc f) p q = (case (c, ?u) of (nChild, q) \<Rightarrow>
            if cmp (value_of q nChild) (value_of q p) > 0
            then heapify_after_pop cmp f nChild (unlock_node p (swap_nodes p nChild q))
            else Some (unlock_node p (unlock_node nChild q)))"
          unfolding choose [symmetric] using True lkd by simp
        then show ?thesis using cmp by (simp add: ms_access)
      qed
      show ?thesis
      proof (cases "value_of q c < value_of q p")
        case lt: True
        let ?q = "unlock_node p (swap_nodes p c ?u)"
        have fr: "cap ?q = cap q" "m_ItemCounter ?q = m_ItemCounter q" "m_sizeLock ?q = m_sizeLock q"
          by (simp_all add: ms_access)
        have v: "value_of ?q = (value_of q)(p := value_of q c, c := value_of q p)"
          and tq: "tag_of ?q = (tag_of q)(p := tag_of q c, c := tag_of q p)"
          using p cc by (simp_all add: ms_access)
        have "\<exists>q'. heapify_after_pop cmp f c ?q = Some q' \<and> heap_step ?q U q'"
        proof (rule Suc.IH)
          show "cap ?q < f + c" using Suc.prems(1) cc(6) p(1) unfolding fr by linarith
          show "c \<in> U" by (rule cl(1))
          show "tree U (cap ?q)" "even (cap ?q)" unfolding fr by (rule t, rule ev)
          show "\<forall>i<cap ?q. locked_of ?q i = (i = c)" unfolding fr
            using b p cc lk by (auto simp: ms_access)
          show "sinking (value_of ?q) U c" unfolding v
            by (rule sinking_swap [OF Suc.prems(6) t Suc.prems(2) cl(1-3) lt]) (rule cl(4))
          show "tags (tag_of ?q) U (cap ?q)" unfolding tq fr
            using tg p cc(1) cl(1,2) Suc.prems(2) by (auto simp: tags_def)
        qed
        moreover have "content (value_of ?q) U = content (value_of q) U"
          unfolding v by (rule content_swap [OF fin Suc.prems(2) cl(1)]) (use cc in simp)
        ultimately show ?thesis unfolding loop using lt fr by (simp add: heap_step_def)
      next
        case no: False
        let ?q = "unlock_node p (unlock_node c ?u)"
        have "ordered (value_of q) U"
          unfolding ordered_def
        proof (intro ballI impI)
          fix i assume i: "i \<in> U" "1 < i"
          show "value_of q (i div 2) \<le> value_of q i"
          proof (cases "i div 2 = p")
            case True
            then show ?thesis using no cl(4) [OF i True] by simp
          next
            case False
            then show ?thesis using Suc.prems(6) i by (simp add: sinking_def)
          qed
        qed
        then have "heap_step q U ?q"
          unfolding heap_step_def unlocked_def using b p cc lk tg by (auto simp: ms_access)
        then show ?thesis unfolding loop using no by simp
      qed
    qed
  qed
qed

end
