(* ===== verification/Contracts.thy ===== *)
theory Contracts
  imports Prelude "HOL-Library.Multiset"
begin

text \<open>
  The interfaces that the containers of the program share, stated as locales: a set of integers
  with three operations, and a priority queue. A state is related to the set (or multiset) it stands
  for together with a budget: the number of further operations that the memory can serve.
\<close>

section \<open>Sets\<close>

datatype set_op = Contains u32 | Add u32 | Remove u32

fun op_val :: "set_op \<Rightarrow> u32" where
  "op_val (Contains v) = v"
| "op_val (Add v) = v"
| "op_val (Remove v) = v"

fun set_spec :: "set_op \<Rightarrow> u32 set \<Rightarrow> bool \<times> u32 set" where
  "set_spec (Contains v) K = (v \<in> K, K)"
| "set_spec (Add v) K = (v \<notin> K, insert v K)"
| "set_spec (Remove v) K = (v \<in> K, K - {v})"

fun run_spec :: "set_op list \<Rightarrow> u32 set \<Rightarrow> bool list \<times> u32 set" where
  "run_spec [] K = ([], K)"
| "run_spec (p # ps) K =
     (let (b, K') = set_spec p K; (bs, K'') = run_spec ps K' in (b # bs, K''))"

fun run_ops :: "(set_op \<Rightarrow> 's \<Rightarrow> (bool \<times> 's) option) \<Rightarrow> set_op list \<Rightarrow> 's \<Rightarrow> (bool list \<times> 's) option" where
  "run_ops step [] s = Some ([], s)"
| "run_ops step (p # ps) s = (case step p s of
      None \<Rightarrow> None
    | Some (b, s') \<Rightarrow> (case run_ops step ps s' of None \<Rightarrow> None | Some (bs, s'') \<Rightarrow> Some (b # bs, s'')))"

locale int_set =
  fixes rep :: "'s \<Rightarrow> u32 set \<Rightarrow> nat \<Rightarrow> bool"
    and step :: "set_op \<Rightarrow> 's \<Rightarrow> (bool \<times> 's) option"
    and cost :: nat
    and bound :: u32
  assumes step: "rep s K (m + cost) \<Longrightarrow> op_val p < bound \<Longrightarrow>
    \<exists>s'. step p s = Some (fst (set_spec p K), s') \<and> rep s' (snd (set_spec p K)) m"
begin

text \<open>Any script of operations gives the results of the abstract set, and all of them return.\<close>

lemma run:
  "rep s K (m + cost * length ps) \<Longrightarrow> \<forall>p \<in> set ps. op_val p < bound \<Longrightarrow>
    \<exists>s'. run_ops step ps s = Some (fst (run_spec ps K), s') \<and> rep s' (snd (run_spec ps K)) m"
proof (induction ps arbitrary: s K)
  case Nil
  then show ?case by simp
next
  case (Cons p ps)
  have "rep s K ((m + cost * length ps) + cost)" using Cons.prems(1) by (simp add: algebra_simps)
  then obtain s1 where s1: "step p s = Some (fst (set_spec p K), s1)" "rep s1 (snd (set_spec p K)) (m + cost * length ps)"
    using step [of s K "m + cost * length ps" p] Cons.prems(2) by auto
  obtain s2 where "run_ops step ps s1 = Some (fst (run_spec ps (snd (set_spec p K))), s2)"
    "rep s2 (snd (run_spec ps (snd (set_spec p K)))) m"
    using Cons.IH [OF s1(2)] Cons.prems(2) by auto
  then show ?case using s1(1) by (simp add: split_beta)
qed

end

section \<open>Priority queues\<close>

text \<open>\<open>n\<close> deletions in a row; the values are collected.\<close>

fun drain :: "('s \<Rightarrow> ('a option \<times> 's) option) \<Rightarrow> nat \<Rightarrow> 's \<Rightarrow> ('a list \<times> 's) option" where
  "drain del 0 s = Some ([], s)"
| "drain del (Suc n) s = (case del s of
      Some (Some v, s') \<Rightarrow> (case drain del n s' of None \<Rightarrow> None | Some (vs, s'') \<Rightarrow> Some (v # vs, s''))
    | _ \<Rightarrow> None)"

fun fill :: "('a \<Rightarrow> 's \<Rightarrow> (bool \<times> 's) option) \<Rightarrow> 'a list \<Rightarrow> 's \<Rightarrow> 's option" where
  "fill ins [] s = Some s"
| "fill ins (v # vs) s = (case ins v s of None \<Rightarrow> None | Some (b, s') \<Rightarrow> fill ins vs s')"

text \<open>
  The laws: an insertion is stored unless it is refused, which happens only for a value that is
  there or that \<open>full\<close> excuses; a deletion on a queue that is not empty returns the minimum.
\<close>

locale prio_queue =
  fixes rep :: "'s \<Rightarrow> 'a :: linorder multiset \<Rightarrow> nat \<Rightarrow> bool"
    and ins :: "'a \<Rightarrow> 's \<Rightarrow> (bool \<times> 's) option"
    and del :: "'s \<Rightarrow> ('a option \<times> 's) option"
    and cost :: nat
    and adm :: "'a \<Rightarrow> bool"
    and dup :: bool
  assumes ins: "rep s M (m + cost) \<Longrightarrow> adm v \<Longrightarrow>
      \<exists>s'. ins v s = Some (dup \<or> v \<notin># M, s') \<and> rep s' (if dup \<or> v \<notin># M then add_mset v M else M) m"
    and del: "rep s M m \<Longrightarrow> M \<noteq> {#} \<Longrightarrow>
      \<exists>s'. del s = Some (Some (Min_mset M), s') \<and> rep s' (M - {#Min_mset M#}) m"
begin

text \<open>Draining the queue returns its content in ascending order.\<close>

lemma drain_sorted:
  "rep s M m \<Longrightarrow> \<exists>s'. drain del (size M) s = Some (sorted_list_of_multiset M, s') \<and> rep s' {#} m"
proof (induction "size M" arbitrary: s M)
  case 0
  then show ?case by simp
next
  case (Suc n)
  then have ne: "M \<noteq> {#}" by auto
  let ?x = "Min_mset M"
  obtain s1 where s1: "del s = Some (Some ?x, s1)" "rep s1 (M - {#?x#}) m" using del [OF Suc.prems ne] by blast
  have x: "?x \<in># M" using ne by simp
  have n: "n = size (M - {#?x#})" using Suc.hyps(2) x by (simp add: size_Diff_singleton)
  obtain s2 where s2: "drain del n s1 = Some (sorted_list_of_multiset (M - {#?x#}), s2)" "rep s2 {#} m"
    using Suc.hyps(1) [OF n s1(2)] n by auto
  have "insort ?x (sorted_list_of_multiset (M - {#?x#})) = ?x # sorted_list_of_multiset (M - {#?x#})"
    by (rule insort_is_Cons) (auto dest: in_diffD)
  then have "sorted_list_of_multiset (add_mset ?x (M - {#?x#})) = ?x # sorted_list_of_multiset (M - {#?x#})" by simp
  then have "sorted_list_of_multiset M = ?x # sorted_list_of_multiset (M - {#?x#})" using x by simp
  then show ?case using s1(1) s2 Suc.hyps(2) by (simp add: Suc.hyps(2) [symmetric])
qed

text \<open>Filling an empty queue and draining it sorts.\<close>

definition kept :: "'a list \<Rightarrow> 'a multiset" where
  "kept vs = (if dup then mset vs else mset_set (set vs))"

lemma fill_rep:
  "rep s M (m + cost * length vs) \<Longrightarrow> \<forall>v \<in> set vs. adm v \<Longrightarrow>
    \<exists>s' M'. fill ins vs s = Some s' \<and> rep s' M' m \<and> set_mset M' = set_mset M \<union> set vs \<and>
      (dup \<longrightarrow> M' = M + mset vs) \<and> (\<not> dup \<longrightarrow> (\<forall>v. count M v \<le> 1) \<longrightarrow> (\<forall>v. count M' v \<le> 1))"
proof (induction vs arbitrary: s M)
  case Nil
  then show ?case by (intro exI [of _ s] exI [of _ M]) simp
next
  case (Cons v vs)
  have r: "rep s M ((m + cost * length vs) + cost)" using Cons.prems(1) by (simp add: algebra_simps)
  let ?M = "if dup \<or> v \<notin># M then add_mset v M else M"
  obtain s1 where s1: "ins v s = Some (dup \<or> v \<notin># M, s1)" "rep s1 ?M (m + cost * length vs)"
    using ins [OF r, of v] Cons.prems(2) by auto
  obtain s2 M2 where s2: "fill ins vs s1 = Some s2" "rep s2 M2 m" "set_mset M2 = set_mset ?M \<union> set vs"
    "dup \<longrightarrow> M2 = ?M + mset vs" "\<not> dup \<longrightarrow> (\<forall>v. count ?M v \<le> 1) \<longrightarrow> (\<forall>v. count M2 v \<le> 1)"
    using Cons.IH [OF s1(2)] Cons.prems(2) by auto
  have "\<not> dup \<longrightarrow> (\<forall>v. count M v \<le> 1) \<longrightarrow> (\<forall>v. count ?M v \<le> 1)"
    by (auto simp: not_in_iff)
  then show ?case using s1(1) s2 by (intro exI [of _ s2] exI [of _ M2]) auto
qed

lemma fill_drain:
  assumes r: "rep s {#} (m + cost * length vs)" and a: "\<forall>v \<in> set vs. adm v"
  shows "\<exists>s1 s2. fill ins vs s = Some s1 \<and> drain del (size (kept vs)) s1 = Some (sorted_list_of_multiset (kept vs), s2)"
proof -
  obtain s1 M where s1: "fill ins vs s = Some s1" "rep s1 M m" "set_mset M = set vs" "dup \<longrightarrow> M = mset vs"
    "\<not> dup \<longrightarrow> (\<forall>v. count M v \<le> 1)"
    using fill_rep [OF r a] by auto
  have "M = kept vs"
  proof (cases dup)
    case False
    show ?thesis
    proof (rule multiset_eqI)
      fix v
      have le: "count M v \<le> 1" using s1(5) False by blast
      have k: "count (kept vs) v = (if v \<in> set vs then 1 else 0)" unfolding kept_def using False by simp
      show "count M v = count (kept vs) v"
      proof (cases "v \<in> set vs")
        case True
        then have "0 < count M v" using s1(3) by (metis count_greater_zero_iff)
        then have "count M v = 1" using le by linarith
        then show ?thesis unfolding k by (simp add: True)
      next
        case False
        then have "count M v = 0" using s1(3) by (metis count_eq_zero_iff)
        then show ?thesis unfolding k by (simp add: False)
      qed
    qed
  next
    case True
    then show ?thesis unfolding kept_def using s1(4) by simp
  qed
  then show ?thesis using s1(1) drain_sorted [OF s1(2)] by auto
qed

end

end
