(* ===== verification/MSQ_Props.thy ===== *)
theory MSQ_Props
  imports MSQ_Heap Contracts
begin

text \<open>The operations of the array heap against the multiset of its items.\<close>

section \<open>The counter and the slots\<close>

definition counted :: "bit_reverse_counter \<Rightarrow> nat set \<Rightarrow> bool" where
  "counted c U \<longleftrightarrow> c = bit_reverse_counter \<and> U = {} \<or> (\<exists>h m. brc_at h m c \<and> U = slots h m)"

lemma card_slots: "m < 2 ^ h \<Longrightarrow> card (slots h m) = 2 ^ h + m"
proof -
  assume m: "m < 2 ^ h"
  have "x = y" if "x \<le> m" "y \<le> m" "brev h x = brev h y" for x y using brev_inj [of x h y] m that by simp
  then have "inj_on (\<lambda>j. 2 ^ h + brev h j) {..m}" by (auto intro!: inj_onI)
  then have "card ((\<lambda>j. 2 ^ h + brev h j) ` {..m}) = m + 1" by (simp add: card_image)
  moreover have "{1..<2 ^ h} \<inter> (\<lambda>j. 2 ^ h + brev h j) ` {..m} = {}" by auto
  ultimately show ?thesis
    using one_le_power [of "2 :: nat" h] by (simp add: slots_def card_Un_disjoint)
qed

lemma counted_card: "counted c U \<Longrightarrow> card U = unat (m_nCounter c)"
  by (auto simp: counted_def card_slots brc_at_def bit_reverse_counter_def)

lemma counted_finite: "counted c U \<Longrightarrow> finite U"
  by (auto simp: counted_def)

lemma counted_tree: "counted c U \<Longrightarrow> \<forall>i \<in> U. i < n \<Longrightarrow> tree U n"
  unfolding counted_def tree_def
  using slots_pos slots_parent slots_left by (auto simp: brc_at_def)

lemma slots_high: "2 ^ h \<in> slots h m"
  unfolding slots_def by (auto intro!: image_eqI [of _ _ 0])

lemma counted_inc:
  assumes c: "counted c U" and n: "\<forall>i \<in> U. i < 2 ^ k" "card U < 2 ^ k - 1" "1 \<le> k" "k \<le> 62"
  shows "unat (fst (brc_inc c)) \<notin> U \<and> 0 < unat (fst (brc_inc c)) \<and> unat (fst (brc_inc c)) < 2 ^ k \<and>
    counted (snd (brc_inc c)) (insert (unat (fst (brc_inc c))) U)"
proof (cases "c = bit_reverse_counter \<and> U = {}")
  case True
  have "(2::nat) ^ 1 \<le> 2 ^ k" using n(3) by (intro power_increasing) simp_all
  then show ?thesis using True inc_first slots_first by (auto simp: counted_def)
next
  case False
  then obtain h m where at: "brc_at h m c" and U: "U = slots h m" using c by (auto simp: counted_def)
  let ?c = "snd (brc_inc c)"
  have "2 ^ h \<in> U" unfolding U by (rule slots_high)
  then have "(2::nat) ^ h < 2 ^ k" using n(1) by blast
  then have hk: "h < k" by simp
  have m: "m < 2 ^ h" using at by (simp add: brc_at_def)
  have i: "(if Suc m < 2 ^ h then brc_at h (Suc m) ?c else brc_at (Suc h) 0 ?c) \<and> fst (brc_inc c) = m_nReversed ?c"
    by (rule inc_at [OF at]) (use hk n(4) in simp)
  show ?thesis
  proof (cases "Suc m < 2 ^ h")
    case True
    then have a: "brc_at h (Suc m) ?c" "unat (fst (brc_inc c)) = 2 ^ h + brev h (Suc m)" using i by (auto simp: brc_at_def)
    have "(2::nat) ^ Suc h \<le> 2 ^ k" using hk by (intro power_increasing) simp_all
    then have "2 ^ h + brev h (Suc m) < 2 ^ k" using brev_less [of h "Suc m"] by simp
    then show ?thesis using a slots_next [OF True] unfolding U by (auto simp: counted_def)
  next
    case no: False
    then have a: "brc_at (Suc h) 0 ?c" "unat (fst (brc_inc c)) = 2 ^ Suc h" using i by (auto simp: brc_at_def)
    have mm: "m = 2 ^ h - 1" using m no by linarith
    have "2 ^ h + m < 2 ^ k - 1" using n(2) card_slots [OF m] unfolding U by simp
    then have "(2::nat) ^ Suc h < 2 ^ k" using mm m by simp
    then show ?thesis using a slots_up [of h] unfolding U mm by (auto simp: counted_def)
  qed
qed

lemma counted_dec:
  assumes c: "counted c U" and ne: "U \<noteq> {}"
  shows "unat (m_nReversed c) \<in> U \<and> counted (snd (brc_dec c)) (U - {unat (m_nReversed c)}) \<and>
    (unat (m_nReversed c) = 1 \<longrightarrow> U = {1}) \<and> 1 \<in> U"
proof -
  obtain h m where at: "brc_at h m c" and U: "U = slots h m" using c ne by (auto simp: counted_def)
  let ?c = "snd (brc_dec c)"
  have r: "unat (m_nReversed c) = 2 ^ h + brev h m" "m < 2 ^ h" using at by (simp_all add: brc_at_def)
  have "2 ^ h + brev h m \<in> U" unfolding U slots_def by auto
  moreover have "counted ?c (U - {2 ^ h + brev h m})"
  proof (cases m)
    case (Suc j)
    then have "U = insert (2 ^ h + brev h m) (slots h j)" "2 ^ h + brev h m \<notin> slots h j"
      unfolding U using slots_next [of j h] r(2) by simp_all
    then have "U - {2 ^ h + brev h m} = slots h j" by blast
    moreover have "brc_at h j ?c" using dec_at [OF at] Suc by simp
    ultimately show ?thesis unfolding counted_def by blast
  next
    case 0
    show ?thesis
    proof (cases h)
      case (Suc g)
      then have "U = insert (2 ^ h) (slots g (2 ^ g - 1))" "2 ^ h \<notin> slots g (2 ^ g - 1)"
        unfolding U 0 using slots_up [of g] by simp_all
      then have "U - {2 ^ h + brev h m} = slots g (2 ^ g - 1)" using 0 by auto
      moreover have "brc_at g (2 ^ g - 1) ?c" using dec_at [OF at] Suc 0 by simp
      ultimately show ?thesis unfolding counted_def by blast
    next
      case h0: 0
      then have "?c = bit_reverse_counter" "U - {2 ^ h + brev h m} = {}"
        using dec_at [OF at] 0 U slots_first by simp_all
      then show ?thesis unfolding counted_def by blast
    qed
  qed
  moreover have "2 ^ h + brev h m = 1 \<longrightarrow> U = {1}"
  proof
    assume e: "2 ^ h + brev h m = 1"
    have "h = 0"
    proof (rule ccontr)
      assume "h \<noteq> 0"
      then have "(2::nat) ^ 1 \<le> 2 ^ h" by (intro power_increasing) simp_all
      then show False using e by simp
    qed
    then show "U = {1}" using r(2) U slots_first by simp
  qed
  moreover have "1 \<in> U"
  proof (cases h)
    case 0
    then show ?thesis using r(2) U slots_first by simp
  next
    case (Suc g)
    then have "(2::nat) ^ 1 \<le> 2 ^ h" by (intro power_increasing) simp_all
    then show ?thesis unfolding U slots_def by simp
  qed
  ultimately show ?thesis unfolding r(1) by blast
qed

section \<open>The representation\<close>

definition ms_rep :: "'a :: linorder msq \<Rightarrow> 'a multiset \<Rightarrow> nat \<Rightarrow> bool" where
  "ms_rep q M k \<longleftrightarrow> 1 \<le> k \<and> k \<le> 62 \<and> cap q = 2 ^ k \<and> \<not> m_sizeLock q \<and> unlocked q \<and>
     (\<exists>U. counted (m_ItemCounter q) U \<and> (\<forall>i \<in> U. i < cap q) \<and> tags (tag_of q) U (cap q) \<and>
       ordered (value_of q) U \<and> content (value_of q) U = M)"

lemma ms_rep_size:
  assumes "ms_rep q M k"
  shows "unat (m_nCounter (m_ItemCounter q)) = size M" "unat (ms_capacity q) = 2 ^ k - 1" "size M \<le> 2 ^ k - 1"
proof -
  obtain U where U: "counted (m_ItemCounter q) U" "content (value_of q) U = M" "\<forall>i \<in> U. i < 2 ^ k"
    using assms by (auto simp: ms_rep_def)
  have cU: "card U = size M" using U(2) by (auto simp: content_def)
  show "unat (m_nCounter (m_ItemCounter q)) = size M" using counted_card [OF U(1)] cU by simp
  have "0 \<notin> U" using U(1) slots_pos by (auto simp: counted_def)
  then have "U \<subseteq> {1..<2 ^ k}" using U(3) by (auto simp: Suc_le_eq) (metis gr0I)
  then have "card U \<le> card {1..<2 ^ k :: nat}" by (intro card_mono) simp_all
  then show "size M \<le> 2 ^ k - 1" using cU by simp
  have k: "k \<le> 62" "cap q = 2 ^ k" using assms by (simp_all add: ms_rep_def)
  have "(2::nat) ^ k < 2 ^ 64" using k(1) by (intro power_strict_increasing) simp_all
  then have u: "unat (of_nat (2 ^ k) :: u64) = 2 ^ k" by (simp only: unat_of_nat) (simp add: take_bit_nat_eq_self)
  then have "(of_nat (2 ^ k) :: u64) \<noteq> 0" by (metis power_not_zero unat_0 zero_neq_numeral)
  then show "unat (ms_capacity q) = 2 ^ k - 1" unfolding ms_capacity_def k(2)
    using u unat_minus_one [of "of_nat (2 ^ k) :: u64"] by simp
qed

lemma first_is_min:
  assumes "tree U n" "ordered V U" "i \<in> U"
  shows "V 1 \<le> V i"
  using assms(3)
proof (induction i rule: less_induct)
  case (less i)
  show ?case
  proof (cases "i = 1")
    case False
    have "0 < i" using less.prems assms(1) by (simp add: tree_def)
    then have "1 < i" "i div 2 < i" using False by simp_all
    moreover have "i div 2 \<in> U" using calculation less.prems assms(1) by (simp add: tree_def)
    ultimately show ?thesis using less.IH [of "i div 2"] assms(2) less.prems by (force simp: ordered_def)
  qed simp
qed

lemma unlock_same: "\<not> m_sizeLock q \<Longrightarrow> unlock_size (q\<lparr>m_sizeLock := True\<rparr>) = q"
  by (simp add: unlock_size_def)

section \<open>Insertion\<close>

lemma lock_size_free: "\<not> m_sizeLock q \<Longrightarrow> lock_size q = Some (q\<lparr>m_sizeLock := True\<rparr>)"
  by (simp add: lock_size_def)

lemma full_iff:
  assumes "ms_rep q M k"
  shows "m_nCounter (m_ItemCounter q) \<ge> ms_capacity q \<longleftrightarrow> size M = 2 ^ k - 1"
  using ms_rep_size [OF assms] by (auto simp: word_le_nat_alt)

lemma capacity_lock: "ms_capacity (q\<lparr>m_sizeLock := b\<rparr>) = ms_capacity q"
  by (simp add: ms_capacity_def)

lemma push_full:
  assumes "ms_rep q M k" "size M = 2 ^ k - 1"
  shows "ms_push cmp f c v q = Some (False, q)"
proof -
  have "\<not> m_sizeLock q" using assms(1) by (simp add: ms_rep_def)
  then show ?thesis using full_iff [OF assms(1)] assms(2)
    by (simp add: ms_push_def lock_size_free capacity_lock unlock_same)
qed

text \<open>The part of \<^verbatim>\<open>push\<close> before the item rises.\<close>

definition placed :: "tag_type \<Rightarrow> 'a \<Rightarrow> 'a msq \<Rightarrow> 'a msq" where
  "placed t v q = (let (i, c) = brc_inc (m_ItemCounter q)
     in unlock_node (unat i) (set_tag (unat i) t (set_value (unat i) v (unlock_size (locked (unat i)
          (q\<lparr>m_sizeLock := True, m_ItemCounter := c\<rparr>))))))"

lemma push_placed:
  assumes "ms_rep q M k" "size M < 2 ^ k - 1"
  shows "ms_push cmp f t v q = (case heapify_after_push cmp f (unat (fst (brc_inc (m_ItemCounter q)))) t (placed t v q) of
      None \<Rightarrow> None | Some q' \<Rightarrow> Some (True, q'))"
proof -
  obtain U where U: "counted (m_ItemCounter q) U" "\<forall>i \<in> U. i < 2 ^ k" "content (value_of q) U = M"
    and r: "\<not> m_sizeLock q" "unlocked q" "1 \<le> k" "k \<le> 62" "cap q = 2 ^ k"
    using assms(1) by (auto simp: ms_rep_def)
  have "card U < 2 ^ k - 1" using U(3) assms(2) by (auto simp: content_def)
  note i = counted_inc [OF U(1,2) this r(3,4)]
  obtain n c where n: "brc_inc (m_ItemCounter q) = (n, c)" by (cases "brc_inc (m_ItemCounter q)")
  have "(2::nat) ^ k < 2 ^ 64" using r(4) by (intro power_strict_increasing) simp_all
  then have "unat (of_nat (cap q) :: u64) = cap q" unfolding r(5) by (simp only: unat_of_nat) (simp add: take_bit_nat_eq_self)
  then have lt: "n < of_nat (cap q)" using i n r(5) by (simp add: word_less_nat_alt)
  have "\<not> (m_nCounter (m_ItemCounter q) \<ge> ms_capacity q)" using full_iff [OF assms(1)] assms(2) by simp
  moreover have "lock_node (unat n) (q\<lparr>m_sizeLock := True, m_ItemCounter := c\<rparr>) = Some (locked (unat n) (q\<lparr>m_sizeLock := True, m_ItemCounter := c\<rparr>))"
    by (rule lock_node_ok) (use i n r in \<open>simp_all add: unlocked_def ms_access\<close>)
  ultimately show ?thesis
    using lt n r(1) by (simp add: ms_push_def lock_size_free capacity_lock placed_def Let_def split: option.split)
qed

lemma push_ok:
  assumes cmp: "\<And>x y. cmp x y > 0 \<longleftrightarrow> x < y" and t: "t \<noteq> AvailableTag" "t \<noteq> EmptyTag"
    and rep: "ms_rep q M k" and room: "size M < 2 ^ k - 1" and f: "2 ^ k \<le> f"
  shows "\<exists>q'. ms_push cmp f t v q = Some (True, q') \<and> ms_rep q' (add_mset v M) k"
proof -
  obtain U where U: "counted (m_ItemCounter q) U" "\<forall>i \<in> U. i < 2 ^ k" "content (value_of q) U = M"
      "tags (tag_of q) U (2 ^ k)" "ordered (value_of q) U"
    and r: "\<not> m_sizeLock q" "unlocked q" "1 \<le> k" "k \<le> 62" "cap q = 2 ^ k"
    using rep by (auto simp: ms_rep_def)
  have fin: "finite U" by (rule counted_finite [OF U(1)])
  have "card U < 2 ^ k - 1" using U(3) room by (auto simp: content_def)
  note inc = counted_inc [OF U(1,2) this r(3,4)]
  define i where "i = unat (fst (brc_inc (m_ItemCounter q)))"
  define q1 where "q1 = placed t v q"
  let ?U = "insert i U"
  note inc = inc [folded i_def]
  have i: "i \<notin> U" "i < cap q" using inc r(5) by simp_all
  have q1: "cap q1 = cap q" "m_sizeLock q1 = False" "value_of q1 = (value_of q)(i := v)" "tag_of q1 = (tag_of q)(i := t)"
    "locked_of q1 = (locked_of q)(i := False)" "m_ItemCounter q1 = snd (brc_inc (m_ItemCounter q))"
    using i(2) by (simp_all add: q1_def placed_def i_def ms_access Let_def split_beta)
  have tr: "tree ?U (cap q)" "tree U (cap q)"
    using counted_tree [of _ _ "cap q"] inc U(1,2) i(2) r(5) by auto
  have "\<exists>q'. heapify_after_push cmp f i t q1 = Some q' \<and> heap_step q1 ?U q'"
  proof (rule heapify_push_ok [OF cmp t])
    show "tree ?U (cap q1)" "tree ?U (cap q1)" unfolding q1 by (rule tr)+
    show "i < f" using i(2) r(5) f by simp
    show "i \<in> ?U" by simp
    show "unlocked q1" using r(2) by (auto simp: unlocked_def q1)
    show "rising (value_of q1) ?U i"
    proof -
      have np: "j div 2 \<noteq> i" if "j \<in> U" "1 < j" for j using tr(2) that i(1) by (auto simp: tree_def)
      have "j \<noteq> i" if "j \<in> U" for j using that i(1) by blast
      then show ?thesis unfolding rising_def q1 using U(5) np by (auto simp: ordered_def)
    qed
    show "\<forall>j. 0 < j \<longrightarrow> j < cap q1 \<longrightarrow> tag_of q1 j = (if j = i then t else if j \<in> ?U then AvailableTag else EmptyTag)"
      using U(4) r(5) by (simp add: q1 tags_def)
  qed
  then obtain q' where q': "heapify_after_push cmp f i t q1 = Some q'" "heap_step q1 ?U q'" by blast
  have "content (value_of q1) ?U = add_mset v M"
  proof -
    have "content ((value_of q)(i := v)) U = content (value_of q) U"
      by (rule content_cong [OF fin]) (use i(1) in auto)
    then show ?thesis using U(3) fin i(1) by (simp add: q1 content_def)
  qed
  then have "ms_rep q' (add_mset v M) k"
    using q'(2) inc r U(2) unfolding ms_rep_def heap_step_def q1 by (intro conjI exI [of _ ?U]) simp_all
  then show ?thesis using push_placed [OF rep room, of cmp f t v] q'(1) by (simp add: i_def q1_def)
qed

section \<open>Removal\<close>

lemma pop_none:
  assumes "ms_rep q {#} k"
  shows "pop_with cmp f q = Some (None, q)"
proof -
  have "m_nCounter (m_ItemCounter q) = 0" using ms_rep_size(1) [OF assms] by (simp add: unat_eq_0)
  moreover have "\<not> m_sizeLock q" using assms by (simp add: ms_rep_def)
  ultimately show ?thesis by (simp add: pop_with_def lock_size_free unlock_same)
qed

text \<open>The part of \<^verbatim>\<open>pop_with\<close> before the item sinks, when the bottom is not the top.\<close>

definition lifted :: "'a msq \<Rightarrow> 'a msq" where
  "lifted q = (let b = unat (m_nReversed (m_ItemCounter q));
       q = set_tag b EmptyTag (unlock_size (locked b (q\<lparr>m_sizeLock := True, m_ItemCounter := snd (brc_dec (m_ItemCounter q))\<rparr>)));
       q = locked 1 q
     in set_tag 1 AvailableTag (unlock_node b (set_value 1 (value_of q b) q)))"

lemma pop_lifted:
  assumes "\<not> m_sizeLock q" "unlocked q" "m_nCounter (m_ItemCounter q) \<noteq> 0" "b = unat (m_nReversed (m_ItemCounter q))"
    "b < cap q" "m_nReversed (m_ItemCounter q) \<le> ms_capacity q" "1 < cap q" "b \<noteq> 1" "tag_of q 1 = AvailableTag"
  shows "pop_with cmp f q = (case heapify_after_pop cmp f 1 (lifted q) of None \<Rightarrow> None | Some q' \<Rightarrow> Some (Some (value_of q 1), q'))"
proof -
  let ?c = "snd (brc_dec (m_ItemCounter q))"
  let ?q0 = "q\<lparr>m_sizeLock := True, m_ItemCounter := ?c\<rparr>"
  let ?q1 = "set_tag b EmptyTag (unlock_size (locked b ?q0))"
  have w1: "m_nReversed (m_ItemCounter q) \<noteq> 1" using assms(4,8) by auto
  have l0: "lock_node b ?q0 = Some (locked b ?q0)"
    by (rule lock_node_ok) (use assms in \<open>simp_all add: unlocked_def ms_access\<close>)
  have l1: "lock_node 1 ?q1 = Some (locked 1 ?q1)"
    by (rule lock_node_ok) (use assms in \<open>simp_all add: unlocked_def ms_access\<close>)
  have t1: "tag_of ?q1 1 \<noteq> EmptyTag" "value_of ?q1 = value_of q" using assms(5,8,9) by (simp_all add: ms_access avail_empty)
  show ?thesis
    using assms(1,3,6) w1 l0 l1 t1
    by (simp add: pop_with_def lock_size_free capacity_lock lifted_def Let_def ms_access assms(4) [symmetric] split: option.split)
qed

lemma pop_ok:
  assumes cmp: "\<And>x y. cmp x y > 0 \<longleftrightarrow> x < y" and rep: "ms_rep q M k" and ne: "M \<noteq> {#}" and f: "2 ^ k \<le> f"
  shows "\<exists>q'. pop_with cmp f q = Some (Some (Min_mset M), q') \<and> ms_rep q' (M - {#Min_mset M#}) k"
proof -
  obtain U where U: "counted (m_ItemCounter q) U" "\<forall>i \<in> U. i < 2 ^ k" "content (value_of q) U = M"
      "tags (tag_of q) U (2 ^ k)" "ordered (value_of q) U"
    and r: "\<not> m_sizeLock q" "unlocked q" "1 \<le> k" "k \<le> 62" "cap q = 2 ^ k"
    using rep by (auto simp: ms_rep_def)
  have fin: "finite U" by (rule counted_finite [OF U(1)])
  have "U \<noteq> {}" using U(3) ne by (auto simp: content_def)
  note dec = counted_dec [OF U(1) this]
  define b where "b = unat (m_nReversed (m_ItemCounter q))"
  note dec = dec [folded b_def]
  let ?c = "snd (brc_dec (m_ItemCounter q))" and ?U = "U - {b}" and ?V = "value_of q"
  have tr: "tree U (cap q)" "tree ?U (cap q)"
    using counted_tree [of _ _ "cap q"] dec U(1,2) r(5) by auto
  have b: "b \<in> U" "b < cap q" "0 < b" using dec tr(1) by (auto simp: tree_def)
  have one: "1 \<in> U" "1 < cap q" using dec tr(1) by (auto simp: tree_def)
  have nc: "m_nCounter (m_ItemCounter q) \<noteq> 0" using ms_rep_size(1) [OF rep] ne by auto
  have le: "m_nReversed (m_ItemCounter q) \<le> ms_capacity q"
    using ms_rep_size(2) [OF rep] b(2) r(5) unfolding b_def by (simp add: word_le_nat_alt)
  have min: "Min_mset M = ?V 1"
  proof (rule Min_eqI)
    show "?V 1 \<in># M" using U(3) one(1) fin by (auto simp: content_def)
    show "?V 1 \<le> y" if "y \<in># M" for y using that U(3) fin first_is_min [OF tr(1) U(5)] by (auto simp: content_def)
  qed simp
  show ?thesis
  proof (cases "b = 1")
    case True
    then have Ue: "U = {1}" using dec by simp
    then have M: "M = {#?V 1#}" using U(3) by (simp add: content_def)
    let ?p = "q\<lparr>m_sizeLock := True, m_ItemCounter := ?c\<rparr>"
    let ?q = "unlock_node 1 (set_tag 1 EmptyTag (unlock_size (locked 1 ?p)))"
    have l0: "lock_node 1 ?p = Some (locked 1 ?p)"
      by (rule lock_node_ok) (use one r in \<open>simp_all add: unlocked_def ms_access\<close>)
    have w1: "m_nReversed (m_ItemCounter q) = 1" using True by (simp add: b_def word_unat_eq_iff)
    have "pop_with cmp f q = Some (Some (?V 1), ?q)"
      using r(1) nc le l0 w1 by (simp add: pop_with_def lock_size_free capacity_lock ms_access del: One_nat_def)
    moreover have "ms_rep ?q {#} k"
      unfolding ms_rep_def
    proof (intro conjI exI [of _ "{}"])
      show "counted (m_ItemCounter ?q) {}" using dec True Ue by (simp add: ms_access)
      show "unlocked ?q" using r(2) one by (auto simp: unlocked_def ms_access)
      show "tags (tag_of ?q) {} (cap ?q)" using U(4) Ue one r(5) by (simp add: tags_def ms_access)
    qed (use r in \<open>simp_all add: ms_access ordered_def content_def\<close>)
    moreover have "M - {#Min_mset M#} = {#}" unfolding min by (simp add: M)
    ultimately show ?thesis unfolding min by simp
  next
    case False
    have t1: "tag_of q 1 = AvailableTag" using U(4) one r(5) by (simp add: tags_def)
    note pop = pop_lifted [OF r(1,2) nc b_def b(2) le one(2) False t1, of cmp f]
    let ?q = "lifted q"
    have q1: "cap ?q = cap q" "m_sizeLock ?q = False" "value_of ?q = ?V(1 := ?V b)"
      "tag_of ?q = (tag_of q)(b := EmptyTag, 1 := AvailableTag)" "locked_of ?q = (locked_of q)(b := True, 1 := True, b := False)"
      "m_ItemCounter ?q = ?c"
      using b(2) one(2) by (simp_all add: lifted_def ms_access Let_def b_def [symmetric])
    have oneU: "1 \<in> ?U" using one False by simp
    have "\<exists>q'. heapify_after_pop cmp f 1 ?q = Some q' \<and> heap_step ?q ?U q'"
    proof (rule heapify_pop_ok [OF cmp])
      show "cap ?q < f + 1" using f r(5) by (simp add: q1)
      show "1 \<in> ?U" by (rule oneU)
      show "tree ?U (cap ?q)" unfolding q1 by (rule tr)
      show "even (cap ?q)" using r(3,5) by (simp add: q1)
      show "\<forall>i<cap ?q. locked_of ?q i = (i = 1)" using r(2) False by (auto simp: q1 unlocked_def)
      have "j div 2 \<noteq> 1 \<Longrightarrow> (?V(1 := ?V b)) (j div 2) \<le> (?V(1 := ?V b)) j" if "j \<in> ?U" "1 < j" for j
        using U(5) that by (simp add: ordered_def)
      then show "sinking (value_of ?q) ?U 1" unfolding sinking_def q1 by simp
      show "tags (tag_of ?q) ?U (cap ?q)" using U(4) r(5) oneU by (auto simp: q1 tags_def)
    qed
    then obtain q' where q': "heapify_after_pop cmp f 1 ?q = Some q'" "heap_step ?q ?U q'" by blast
    have "content (value_of ?q) ?U = M - {#?V 1#}"
    proof -
      let ?W = "U - {1, b}"
      have "insert 1 (insert b ?W) = U" "insert 1 ?W = ?U" using one(1) b(1) False by blast+
      moreover have "mset_set (insert 1 (insert b ?W)) = add_mset 1 (add_mset b (mset_set ?W))"
        "mset_set (insert 1 ?W) = add_mset 1 (mset_set ?W)" using fin False by simp_all
      ultimately have "mset_set U = add_mset 1 (add_mset b (mset_set ?W))" "mset_set ?U = add_mset 1 (mset_set ?W)" by metis+
      moreover have "image_mset (?V(1 := ?V b)) (mset_set ?W) = image_mset ?V (mset_set ?W)"
        using fin by (intro image_mset_cong) auto
      ultimately show ?thesis using U(3) by (auto simp: content_def q1)
    qed
    then have "ms_rep q' (M - {#?V 1#}) k"
      using q'(2) dec r U(2) unfolding ms_rep_def heap_step_def q1 by (intro conjI exI [of _ ?U]) simp_all
    then show ?thesis unfolding min using pop q'(1) by simp
  qed
qed

section \<open>Queries and clearing\<close>

lemma size_ok: "ms_rep q M k \<Longrightarrow> ms_size q = Some (of_nat (size M), q)"
proof -
  assume r: "ms_rep q M k"
  then have "\<not> m_sizeLock q" by (simp add: ms_rep_def)
  moreover have "m_nCounter (m_ItemCounter q) = of_nat (size M)"
    using ms_rep_size(1) [OF r, symmetric] by simp
  ultimately show ?thesis by (simp add: ms_size_def lock_size_free unlock_same)
qed

lemma size_word:
  assumes "ms_rep q M k"
  shows "unat (of_nat (size M) :: u64) = size M"
  using ms_rep_size(1) [OF assms, symmetric] by simp

lemma empty_ok: "ms_rep q M k \<Longrightarrow> ms_empty q = Some (M = {#}, q)"
  using size_ok [of q M k] size_word [of q M k] by (auto simp: ms_empty_def unat_eq_0 [symmetric])

lemma full_ok: "ms_rep q M k \<Longrightarrow> ms_full q = Some (size M = 2 ^ k - 1, q)"
  using size_ok [of q M k] size_word [of q M k] ms_rep_size(2) [of q M k] by (auto simp: ms_full_def word_unat_eq_iff)

lemma clear_ok:
  assumes cmp: "\<And>x y. cmp x y > 0 \<longleftrightarrow> x < y"
  shows "ms_rep q M k \<Longrightarrow> 2 ^ k + size M \<le> f \<Longrightarrow>
    \<exists>q'. clear_with cmp f q = Some (sorted_list_of_multiset M, q') \<and> ms_rep q' {#} k"
proof (induction f arbitrary: q M)
  case 0
  then show ?case by simp
next
  case (Suc f)
  show ?case
  proof (cases "M = {#}")
    case True
    then show ?thesis using empty_ok [OF Suc.prems(1)] Suc.prems(1) by simp
  next
    case False
    let ?x = "Min_mset M"
    have "?x \<in># M" using False by simp
    obtain q1 where q1: "pop_with cmp (Suc f) q = Some (Some ?x, q1)" "ms_rep q1 (M - {#?x#}) k"
      using pop_ok [OF cmp Suc.prems(1) False, of "Suc f"] Suc.prems(2) by auto
    have "size M = Suc (size (M - {#?x#}))" using \<open>?x \<in># M\<close> by (simp add: size_Suc_Diff1)
    then have "2 ^ k + size (M - {#?x#}) \<le> f" using Suc.prems(2) by simp
    then obtain q2 where q2: "clear_with cmp f q1 = Some (sorted_list_of_multiset (M - {#?x#}), q2)" "ms_rep q2 {#} k"
      using Suc.IH [OF q1(2)] by blast
    have "insort ?x (sorted_list_of_multiset (M - {#?x#})) = ?x # sorted_list_of_multiset (M - {#?x#})"
      by (rule insort_is_Cons) (auto dest: in_diffD)
    then have "sorted_list_of_multiset (add_mset ?x (M - {#?x#})) = ?x # sorted_list_of_multiset (M - {#?x#})" by simp
    then have "sorted_list_of_multiset M = ?x # sorted_list_of_multiset (M - {#?x#})" using \<open>?x \<in># M\<close> by simp
    then show ?thesis using False empty_ok [OF Suc.prems(1)] q1(1) q2 by simp
  qed
qed

section \<open>Construction\<close>

lemma new_ok:
  assumes "1 < n" "n \<le> 2 ^ 62" "ceil2 (of_nat n) = Some c" "unat c = 2 ^ k" "1 \<le> k" "k \<le> 62"
  shows "\<exists>q. MSPriorityQueue junk (of_nat n) = Some q \<and> ms_rep q {#} k"
proof -
  let ?q = "\<lparr>m_ItemCounter = bit_reverse_counter, m_sizeLock = False,
    m_Heap = map (\<lambda>i. \<lparr>m_Value = junk i, m_nTag = EmptyTag, m_nodeLock = False\<rparr>) [0..<unat c]\<rparr>"
  have c: "c = 2 ^ k"
  proof -
    have "(2::nat) ^ k < 2 ^ 64" using assms(6) by (intro power_strict_increasing) simp_all
    then have "unat (2 ^ k :: u64) = 2 ^ k" using unat_push [of "1 :: u64" k] by simp
    then show ?thesis using assms(4) by (simp add: word_unat_eq_iff)
  qed
  have "(2::nat) ^ 1 \<le> 2 ^ k" using assms(5) by (intro power_increasing) simp_all
  then have "2 \<le> c" using assms(4) by (simp add: word_le_nat_alt)
  moreover have "c AND (c - 1) = 0"
    unfolding c by (rule bit_word_eqI) (auto simp: bit_simps mask_eq_exp_minus_1 [symmetric])
  ultimately have "MSPriorityQueue junk (of_nat n) = Some ?q"
    using assms(3) by (simp add: MSPriorityQueue_def dynamic_buffer_def)
  moreover have "ms_rep ?q {#} k"
    unfolding ms_rep_def
    by (intro conjI exI [of _ "{}"])
      (use assms(4-6) in \<open>simp_all add: counted_def unlocked_def locked_of_def tags_def tag_of_def ordered_def content_def\<close>)
  ultimately show ?thesis by blast
qed

end
