(* ===== verification/Bitop_Count.thy ===== *)
theory Bitop_Count
  imports Bitop
begin

text \<open>The bit counts of libcds count the bits, and the integer logarithms round as they say.\<close>

section \<open>Digits\<close>

lemma bit_join:
  fixes a b :: nat
  assumes "a < 2 ^ k"
  shows "bit (a + 2 ^ k * b) i = (if i < k then bit a i else bit b (i - k))"
proof (cases "i < k")
  case True
  then have "(2::nat) ^ k = 2 ^ i * (2 * 2 ^ (k - i - 1))" by (simp flip: power_add power_Suc)
  then have "(a + 2 ^ k * b) div 2 ^ i = a div 2 ^ i + 2 * 2 ^ (k - i - 1) * b" by (simp add: mult.assoc)
  then show ?thesis using True by (simp add: bit_iff_odd)
next
  case False
  then have "(2::nat) ^ i = 2 ^ k * 2 ^ (i - k)" by (simp flip: power_add)
  then have "(a + 2 ^ k * b) div 2 ^ i = b div 2 ^ (i - k)" using assms by (simp add: div_mult2_eq)
  then show ?thesis using False by (simp add: bit_iff_odd)
qed

lemma bit_small:
  fixes m :: nat
  assumes "m < 2 ^ k" "bit m i"
  shows "i < k"
proof (rule ccontr)
  assume "\<not> i < k"
  then have "(2::nat) ^ k \<le> 2 ^ i" by (intro power_increasing) simp_all
  then have "m < 2 ^ i" using assms(1) by linarith
  then show False using assms(2) by (simp add: bit_iff_odd)
qed

lemma and_small:
  fixes a m :: nat
  assumes "m < 2 ^ k"
  shows "a AND m < 2 ^ k"
proof -
  have "take_bit k (a AND m) = a AND m"
    by (rule bit_eqI) (use bit_small [OF assms] in \<open>auto simp: bit_simps\<close>)
  then show ?thesis by (simp only: take_bit_nat_eq_self_iff)
qed

text \<open>A shift and a mask that does not let bits of the next digit through work digit by digit.\<close>

lemma mask_join:
  fixes a b M :: nat
  assumes "a < 2 ^ w" "m < 2 ^ (w - s)" "s \<le> w"
  shows "((a + 2 ^ w * b) div 2 ^ s) AND (m + 2 ^ w * M) = ((a div 2 ^ s) AND m) + 2 ^ w * ((b div 2 ^ s) AND M)"
proof (rule bit_eqI)
  fix i
  have "(2::nat) ^ (w - s) \<le> 2 ^ w" by (intro power_increasing) simp_all
  then have mw: "m < 2 ^ w" using assms(2) by linarith
  note lt = and_small [OF mw, of "a div 2 ^ s"]
  have d: "bit (c div 2 ^ s) j = bit c (s + j)" for c :: nat and j
    by (simp add: drop_bit_eq_div [symmetric] bit_drop_bit_eq)
  show "bit ((a + 2 ^ w * b) div 2 ^ s AND m + 2 ^ w * M) i = bit ((a div 2 ^ s AND m) + 2 ^ w * (b div 2 ^ s AND M)) i"
  proof (cases "i < w")
    case True
    have "bit m i \<Longrightarrow> s + i < w" using bit_small [OF assms(2)] by fastforce
    then show ?thesis using True by (auto simp: bit_and_iff bit_join [OF lt] bit_join [OF mw] bit_join [OF assms(1)] d)
  next
    case False
    then have "s + i - w = s + (i - w)" by simp
    then show ?thesis using False by (simp add: bit_and_iff bit_join [OF lt] bit_join [OF mw] bit_join [OF assms(1)] d)
  qed
qed

lemmas nibble_mask = mask_join [where w = 4, simplified]
lemmas and_join = mask_join [where s = 0, simplified]

text \<open>The number of bits set among the first \<open>n\<close>.\<close>

fun ones :: "nat \<Rightarrow> nat \<Rightarrow> nat" where
  "ones 0 a = 0"
| "ones (Suc n) a = a mod 2 + ones n (a div 2)"

lemma ones_card: "ones n a = card {i. i < n \<and> bit a i}"
proof (induction n arbitrary: a)
  case 0
  then show ?case by simp
next
  case (Suc n)
  have "{i. i < Suc n \<and> bit a i} = (if odd a then {0} else {}) \<union> Suc ` {i. i < n \<and> bit (a div 2) i}"
    by (auto simp: image_iff bit_0 bit_Suc less_Suc_eq_0_disj elim: not0_implies_Suc)
  also have "card \<dots> = card (if odd a then {0 :: nat} else {}) + card (Suc ` {i. i < n \<and> bit (a div 2) i})"
    by (rule card_Un_disjoint) auto
  also have "card (Suc ` {i. i < n \<and> bit (a div 2) i}) = ones n (a div 2)" by (simp add: Suc.IH card_image)
  also have "card (if odd a then {0 :: nat} else {}) = a mod 2" by (simp add: mod_2_eq_odd)
  finally show ?case by simp
qed

lemma ones_le: "ones n a \<le> n"
proof (induction n a rule: ones.induct)
  case (2 n a)
  have "a mod 2 \<le> 1" by simp
  then show ?case using "2.IH" by simp
qed simp

lemma ones_mod: "ones n (a mod 2 ^ n) = ones n a"
  unfolding ones_card take_bit_eq_mod [symmetric] by (rule arg_cong [of _ _ card]) (auto simp: bit_simps)

lemma ones_add: "ones (m + n) a = ones m a + ones n (a div 2 ^ m)"
  by (induction m arbitrary: a) (simp_all add: div_mult2_eq)

section \<open>The stages\<close>

fun rep :: "nat \<Rightarrow> nat \<Rightarrow> nat \<Rightarrow> nat" where
  "rep b 0 r = 0"
| "rep b (Suc k) r = r + b * rep b k r"

fun digit_ones :: "nat \<Rightarrow> nat \<Rightarrow> nat \<Rightarrow> nat" where
  "digit_ones w 0 a = 0"
| "digit_ones w (Suc k) a = ones w a + 2 ^ w * digit_ones w k (a div 2 ^ w)"

definition stage1 :: "nat \<Rightarrow> nat \<Rightarrow> nat" where
  "stage1 k a = a - ((a div 2) AND rep 16 k 5)"

definition stage2 :: "nat \<Rightarrow> nat \<Rightarrow> nat" where
  "stage2 k a = (a AND rep 16 k 3) + ((a div 4) AND rep 16 k 3)"

lemma ones_4: "ones 4 a = a mod 2 + a div 2 mod 2 + a div 4 mod 2 + a div 8 mod 2"
proof -
  have "ones (Suc (Suc (Suc (Suc 0)))) a = a mod 2 + a div 2 mod 2 + a div 4 mod 2 + a div 8 mod 2"
    by (simp add: div_mult2_eq [symmetric])
  moreover have "Suc (Suc (Suc (Suc 0))) = 4" by simp
  ultimately show ?thesis by (simp only:)
qed

lemma below_16: "(\<forall>a < 16. P a) \<longleftrightarrow> list_all P [0, 1, 2, 3, 4, 5, 6, 7, 8, 9, 10, 11, 12, 13, 14, 15 :: nat]"
proof -
  have "[0, 1, 2, 3, 4, 5, 6, 7, 8, 9, 10, 11, 12, 13, 14, 15 :: nat] = [0..<16]" by (simp add: upt_rec)
  then show ?thesis by (auto simp: list_all_iff simp del: upt_rec_numeral)
qed

lemma nibble_stage1: "\<forall>a < 16 :: nat. (a div 2) AND 5 \<le> a \<and> a - ((a div 2) AND 5) < 16"
  unfolding below_16 by simp

lemma nibble_stages:
  "\<forall>a < 16 :: nat. ((a - ((a div 2) AND 5)) AND 3) + (((a - ((a div 2) AND 5)) div 4) AND 3) = ones 4 a"
  unfolding below_16 ones_4 by simp

lemma digits_16: "a = a mod 16 + 16 * (a div 16)" for a :: nat
  by simp

lemma stage1_digits:
  "((a div 2) AND rep 16 (Suc k) 5) = ((a mod 16 div 2) AND 5) + 16 * ((a div 16 div 2) AND rep 16 k 5)"
  using nibble_mask [of "a mod 16" 5 1 "a div 16" "rep 16 k 5"] by simp

lemma stage1_le: "(a div 2) AND rep 16 k 5 \<le> a"
proof (induction k arbitrary: a)
  case 0
  then show ?case by simp
next
  case (Suc k)
  have "(a mod 16 div 2) AND 5 \<le> a mod 16" using nibble_stage1 by simp
  then show ?case unfolding stage1_digits using Suc.IH [of "a div 16"] by (subst (3) digits_16) (intro add_mono mult_left_mono, simp_all)
qed

lemma diff_digits: "p \<le> m \<Longrightarrow> q \<le> d \<Longrightarrow> a = m + 16 * d \<Longrightarrow> a - (p + 16 * q) = (m - p) + 16 * (d - q)"
  for a :: nat
  by simp

lemma stage1_Suc: "stage1 (Suc k) a = stage1 1 (a mod 16) + 16 * stage1 k (a div 16) \<and> stage1 1 (a mod 16) < 16"
proof -
  have l: "(a mod 16 div 2) AND 5 \<le> a mod 16" "a mod 16 - ((a mod 16 div 2) AND 5) < 16" using nibble_stage1 by simp_all
  have "a - (((a mod 16 div 2) AND 5) + 16 * ((a div 16 div 2) AND rep 16 k 5)) =
    (a mod 16 - ((a mod 16 div 2) AND 5)) + 16 * (a div 16 - ((a div 16 div 2) AND rep 16 k 5))"
    by (rule diff_digits [OF l(1) stage1_le digits_16])
  then show ?thesis using l(2) unfolding stage1_def stage1_digits by simp
qed

lemma stage2_Suc:
  "c < 16 \<Longrightarrow> stage2 (Suc k) (c + 16 * b) = (c AND 3) + ((c div 4) AND 3) + 16 * stage2 k b"
  using and_join [of c 4 3 b "rep 16 k 3"] nibble_mask [of c 3 2 b "rep 16 k 3"] by (simp add: stage2_def)

lemma stages_12: "a < 16 ^ k \<Longrightarrow> stage2 k (stage1 k a) = digit_ones 4 k a"
proof (induction k arbitrary: a)
  case 0
  then show ?case by (simp add: stage2_def)
next
  case (Suc k)
  have "a div 16 < 16 ^ k" using Suc.prems by (simp add: div_less_iff_less_mult mult.commute)
  then have "stage2 k (stage1 k (a div 16)) = digit_ones 4 k (a div 16)" by (rule Suc.IH)
  moreover have "stage1 1 (a mod 16) = a mod 16 - ((a mod 16 div 2) AND 5)" by (simp add: stage1_def)
  ultimately show ?case using stage1_Suc [of k a] nibble_stages ones_mod [of 4 a] by (simp add: stage2_Suc)
qed

definition stage3 :: "nat \<Rightarrow> nat \<Rightarrow> nat" where
  "stage3 k a = (a + a div 16) AND rep 256 k 15"

lemma digit_ones_low: "digit_ones 4 k a mod 16 \<le> 4"
proof (cases k)
  case (Suc j)
  have "ones 4 a mod 16 \<le> ones 4 a" by simp
  then have "ones 4 a mod 16 \<le> 4" using ones_le [of 4 a] by linarith
  then show ?thesis using Suc by simp
qed simp

lemma carry:
  fixes l h b :: nat
  assumes "l < 16"
  shows "l + 16 * (h + 16 * b) + (l + 16 * (h + 16 * b)) div 16 = (l + h + 16 * (h + b mod 16)) + 256 * (b + b div 16)"
proof -
  have d: "(l + 16 * (h + 16 * b)) div 16 = h + 16 * b" using assms by simp
  obtain c e where b: "b = c + 16 * e" "c < 16" by (rule that [of "b mod 16" "b div 16"]) simp_all
  then have "b mod 16 = c" "b div 16 = e" by simp_all
  then show ?thesis unfolding d using b(1) by simp
qed

lemma stage_3: "stage3 k (digit_ones 4 (2 * k) a) = digit_ones 8 k a"
proof (induction k arbitrary: a)
  case 0
  then show ?case by (simp add: stage3_def)
next
  case (Suc k)
  let ?l = "ones 4 a" and ?h = "ones 4 (a div 16)" and ?b = "digit_ones 4 (2 * k) (a div 256)"
  have lt: "?l \<le> 4" "?h \<le> 4" "?b mod 16 \<le> 4" using ones_le digit_ones_low by blast+
  have d: "digit_ones 4 (2 * Suc k) a = ?l + 16 * (?h + 16 * ?b)" by (simp add: div_mult2_eq [symmetric])
  have e1: "?l + 16 * (?h + 16 * ?b) + (?l + 16 * (?h + 16 * ?b)) div 16 = (?l + ?h + 16 * (?h + ?b mod 16)) + 256 * (?b + ?b div 16)"
    by (rule carry) (use lt(1) in simp)
  have e2: "(?l + ?h + 16 * (?h + ?b mod 16)) + 256 * (?b + ?b div 16) AND 15 + 256 * rep 256 k 15 =
      ((?l + ?h + 16 * (?h + ?b mod 16)) AND 15) + 256 * ((?b + ?b div 16) AND rep 256 k 15)"
    using and_join [of "?l + ?h + 16 * (?h + ?b mod 16)" 8 15 "?b + ?b div 16" "rep 256 k 15"] lt by simp
  have e3: "(?l + ?h + 16 * (?h + ?b mod 16)) AND 15 = ?l + ?h"
  proof -
    have "(?l + ?h + 16 * (?h + ?b mod 16)) AND mask 4 = take_bit 4 (?l + ?h + 16 * (?h + ?b mod 16))"
      by (rule take_bit_eq_mask [symmetric])
    moreover have "(?l + ?h + 16 * (?h + ?b mod 16)) mod 16 = (?l + ?h) mod 16" by (rule mod_mult_self2)
    moreover have "(?l + ?h) mod 16 = ?l + ?h" using lt by (intro mod_less) linarith
    ultimately show ?thesis by (simp only: take_bit_eq_mod mask_eq_exp_minus_1) simp
  qed
  have "stage3 (Suc k) (digit_ones 4 (2 * Suc k) a) = ?l + ?h + 256 * stage3 k ?b"
    unfolding stage3_def d rep.simps e1 e2 e3 ..
  moreover have "ones 8 a = ?l + ?h" using ones_add [of 4 4 a] by simp
  ultimately show ?case using Suc.IH [of "a div 256"] by simp
qed

text \<open>The multiplication adds the four bytes up in the highest.\<close>

lemma stage_4:
  assumes "p \<le> 8" "q \<le> 8" "r \<le> 8" "s \<le> 8"
  shows "(((p + 256 * (q + 256 * (r + 256 * s))) * 16843009) mod 2 ^ 32) div 2 ^ 24 = (p + q + r + s :: nat)"
proof -
  let ?lo = "p + 256 * (p + q) + 65536 * (p + q + r)" and ?S = "p + q + r + s"
  let ?hi = "(q + r + s) + 256 * (r + s) + 65536 * s"
  have "(p + 256 * (q + 256 * (r + 256 * s))) * 16843009 = (?lo + 2 ^ 24 * ?S) + 2 ^ 32 * ?hi" by simp
  moreover have "?lo < 2 ^ 24" "?lo + 2 ^ 24 * ?S < 2 ^ 32" using assms by simp_all
  ultimately show ?thesis by (simp only: mod_mult_self2 mod_less div_mult_self2 div_less)
qed

section \<open>The counts\<close>

lemma digits_8: "8 = Suc (Suc (Suc (Suc (Suc (Suc (Suc (Suc 0)))))))" and digits_4: "4 = Suc (Suc (Suc (Suc 0)))"
  by simp_all

lemma rep_masks: "rep 16 8 5 = 0x55555555" "rep 16 8 3 = 0x33333333" "rep 256 4 15 = 0xF0F0F0F"
  unfolding digits_8 digits_4 rep.simps by simp_all

lemma digit_ones_4:
  "digit_ones 8 4 a = ones 8 a + 256 * (ones 8 (a div 2 ^ 8) + 256 * (ones 8 (a div 2 ^ 16) + 256 * ones 8 (a div 2 ^ 24)))"
proof -
  have "digit_ones 8 (Suc (Suc (Suc (Suc 0)))) a =
      ones 8 a + 256 * (ones 8 (a div 2 ^ 8) + 256 * (ones 8 (a div 2 ^ 16) + 256 * ones 8 (a div 2 ^ 24)))"
    by (simp add: div_mult2_eq [symmetric])
  then show ?thesis unfolding digits_4 [symmetric] .
qed

lemma digit_ones_bound: "2 * digit_ones 4 k a < 16 ^ k + (if k = 0 then 1 else 0)"
proof (induction k arbitrary: a)
  case 0
  then show ?case by simp
next
  case (Suc k)
  have "ones 4 a \<le> 4" by (rule ones_le)
  then show ?case using Suc.IH [of "a div 2 ^ 4"] by (cases "k = 0") simp_all
qed

lemma sbc32_ones: "unat (sbc32 x) = ones 32 (unat x)"
proof -
  let ?X = "unat x"
  have lt: "?X < 2 ^ 32"
  proof -
    have "?X < 2 ^ LENGTH(32)" by (rule unsigned_less)
    then show ?thesis by simp
  qed
  have dr: "unat (drop_bit n (y :: u32)) = unat y div 2 ^ n" for n y
    by (simp add: unat_drop_bit_eq) (simp add: drop_bit_eq_div)
  have an: "unat (y AND z) = (unat y AND unat z)" for y z :: u32 by (simp add: unsigned_and_eq)
  have m: "unat (0x55555555 :: u32) = rep 16 8 5" "unat (0x33333333 :: u32) = rep 16 8 3" "unat (0xF0F0F0F :: u32) = rep 256 4 15"
    using rep_masks by simp_all
  define a where "a = x - (drop_bit 1 x AND 0x55555555)"
  define b where "b = (a AND 0x33333333) + (drop_bit 2 a AND 0x33333333)"
  define c where "c = (b + drop_bit 4 b) AND 0xF0F0F0F"
  have s: "sbc32 x = drop_bit 24 (c * 0x1010101)" unfolding sbc32_def Let_def a_def b_def c_def ..
  have "unat (drop_bit 1 x AND 0x55555555) = ((?X div 2) AND rep 16 8 5)" unfolding an dr m by simp
  then have a: "unat a = stage1 8 ?X" unfolding a_def stage1_def using stage1_le [of ?X 8]
    by (simp add: unat_sub word_le_nat_alt)
  let ?Y = "digit_ones 4 8 ?X"
  have st: "stage2 8 (stage1 8 ?X) = ?Y" by (rule stages_12) (use lt in simp)
  have yb: "?Y < 2 ^ 31" using digit_ones_bound [of 8 ?X] by simp
  have b: "unat b = ?Y"
  proof -
    have u: "unat (a AND 0x33333333) = (stage1 8 ?X AND rep 16 8 3)"
      "unat (drop_bit 2 a AND 0x33333333) = ((stage1 8 ?X div 4) AND rep 16 8 3)"
      unfolding an dr m a by simp_all
    then have "unat (a AND 0x33333333) + unat (drop_bit 2 a AND 0x33333333) = ?Y"
      using st by (simp only: stage2_def)
    then show ?thesis unfolding b_def using yb by (subst unat_add_lem [THEN iffD1]) simp_all
  qed
  have c: "unat c = digit_ones 8 4 ?X"
  proof -
    have "unat (drop_bit 4 b) = ?Y div 16" unfolding dr b by simp
    moreover have "?Y div 16 < 2 ^ 27" using yb by (simp add: div_less_iff_less_mult)
    ultimately have "unat (b + drop_bit 4 b) = ?Y + ?Y div 16"
      using yb b by (subst unat_add_lem [THEN iffD1]) simp_all
    then have "unat c = stage3 4 ?Y" unfolding c_def an m stage3_def by simp
    also have "\<dots> = digit_ones 8 4 ?X" using stage_3 [of 4 ?X] by simp
    finally show ?thesis .
  qed
  let ?p = "ones 8 ?X" and ?q = "ones 8 (?X div 2 ^ 8)" and ?r = "ones 8 (?X div 2 ^ 16)" and ?s = "ones 8 (?X div 2 ^ 24)"
  have "unat (c * 0x1010101) = (unat c * 16843009) mod 2 ^ 32"
    by (simp add: unat_word_ariths)
  moreover have "unat c = ?p + 256 * (?q + 256 * (?r + 256 * ?s))" unfolding c digit_ones_4 ..
  ultimately have "unat (sbc32 x) = ?p + ?q + ?r + ?s"
    unfolding s dr by (simp only: stage_4 [OF ones_le ones_le ones_le ones_le])
  also have "\<dots> = ones 32 ?X"
    using ones_add [of 8 24 ?X] ones_add [of 8 16 "?X div 2 ^ 8"] ones_add [of 8 8 "?X div 2 ^ 16"]
    by (simp add: div_mult2_eq [symmetric])
  finally show ?thesis .
qed

text \<open>\<^verbatim>\<open>sbc32\<close> and \<^verbatim>\<open>sbc64\<close> count the bits that are set, \<^verbatim>\<open>zbc32\<close> and \<^verbatim>\<open>zbc64\<close> those that are not.\<close>

theorem bit_counts:
  "unat (sbc32 x) = card {i. bit x i} \<and> unat (sbc64 y) = card {i. bit y i} \<and>
   unat (zbc32 x) = 32 - card {i. bit x i} \<and> unat (zbc64 y) = 64 - card {i. bit y i}"
proof -
  have c32: "ones 32 (unat z) = card {i. bit z i}" for z :: u32
    unfolding ones_card by (rule arg_cong [of _ _ card]) (use bit_imp_le_length [of z] in \<open>auto simp: bit_unat\<close>)
  have c64: "ones 64 (unat y) = card {i. bit y i}"
    unfolding ones_card by (rule arg_cong [of _ _ card]) (use bit_imp_le_length [of y] in \<open>auto simp: bit_unat\<close>)
  have s: "unat (sbc32 z) \<le> 32" for z using sbc32_ones ones_le by simp
  have "unat y < 2 ^ LENGTH(64)" by (rule unsigned_less)
  then have "unat y div 2 ^ 32 < 2 ^ 32" by (simp add: div_less_iff_less_mult)
  then have "take_bit 32 (unat y div 2 ^ 32) = unat y div 2 ^ 32" by (rule take_bit_nat_eq_self)
  then have h: "unat (ucast (drop_bit 32 y) :: u32) = unat y div 2 ^ 32"
    by (simp add: unsigned_ucast_eq unat_drop_bit_eq) (simp add: drop_bit_eq_div)
  have l: "unat (ucast y :: u32) = unat y mod 2 ^ 32" by (simp add: unsigned_ucast_eq take_bit_eq_mod)
  have "unat (sbc64 y) = unat (sbc32 (ucast (drop_bit 32 y))) + unat (sbc32 (ucast y))"
    unfolding sbc64_def using s [of "ucast (drop_bit 32 y)"] s [of "ucast y"]
    by (subst unat_add_lem [THEN iffD1]) simp_all
  also have "\<dots> = ones 64 (unat y)"
    unfolding sbc32_ones h l using ones_add [of 32 32 "unat y"] ones_mod [of 32 "unat y"] by simp
  finally have y: "unat (sbc64 y) = ones 64 (unat y)" .
  have "unat (zbc32 x) = 32 - unat (sbc32 x)"
    unfolding zbc32_def using s [of x] by (simp add: unat_sub word_le_nat_alt)
  moreover have "unat (zbc64 y) = 64 - unat (sbc64 y)"
    unfolding zbc64_def using y ones_le [of 64] by (simp add: unat_sub word_le_nat_alt)
  ultimately show ?thesis using y by (simp add: sbc32_ones c32 c64)
qed

section \<open>Logarithms\<close>

lemma log2floor_spec: "n \<noteq> 0 \<Longrightarrow> log2floor n < 64 \<and> 2 ^ log2floor n \<le> unat n \<and> unat n < 2 ^ (log2floor n + 1)"
  using msb64_spec [of n] by (cases "msb64 n") (auto simp: log2floor_def msb64nz_def)

lemma unat_power: "i < 64 \<Longrightarrow> unat (push_bit i 1 :: u64) = 2 ^ i"
proof -
  assume "i < 64"
  then have "(2::nat) ^ i < 2 ^ 64" by (intro power_strict_increasing) simp_all
  then show ?thesis using unat_push [of "1 :: u64" i] by simp
qed

lemma int_shl_low: "i < 31 \<Longrightarrow> \<exists>p. int_shl_1 i = Some p \<and> unat p = 2 ^ i"
proof -
  assume i: "i < 31"
  have "(push_bit i 1 :: u32) = 2 ^ i" by (simp add: push_bit_eq_mult)
  moreover have "scast (2 ^ i :: u32) = (push_bit i 1 :: u64)"
    using i by (intro bit_word_eqI) (auto simp: bit_simps)
  ultimately show ?thesis using i unat_power [of i] by (simp add: int_shl_1_def)
qed

text \<open>
  \<^verbatim>\<open>floor2\<close> is the largest power of two that is not above its argument, and \<^verbatim>\<open>ceil2\<close> the smallest that
  is not below it, for arguments below \<open>2 ^ 31\<close>; both are 1 at 0.
\<close>

theorem floor2_ceil2_exact:
  "floor2 0 = 1 \<and> ceil2 0 = Some 1 \<and>
   (n \<noteq> 0 \<longrightarrow> (\<exists>i. unat (floor2 n) = 2 ^ i \<and> 2 ^ i \<le> unat n \<and> unat n < 2 ^ Suc i)) \<and>
   (n \<noteq> 0 \<longrightarrow> unat n < 2 ^ 31 \<longrightarrow>
     (\<exists>c i. ceil2 n = Some c \<and> unat c = 2 ^ i \<and> unat n \<le> 2 ^ i \<and> 2 ^ i < 2 * unat n))"
proof -
  have z: "floor2 0 = 1" "ceil2 0 = Some 1"
    by (simp_all add: floor2_def ceil2_def log2ceil_def log2floor_def int_shl_1_def)
  have f: "\<exists>i. unat (floor2 n) = 2 ^ i \<and> 2 ^ i \<le> unat n \<and> unat n < 2 ^ Suc i" if "n \<noteq> 0"
  proof -
    have "unat (floor2 n) = 2 ^ log2floor n" unfolding floor2_def by (rule unat_power) (use log2floor_spec [OF that] in simp)
    then show ?thesis using log2floor_spec [OF that] by (intro exI [of _ "log2floor n"]) simp
  qed
  have c: "\<exists>c i. ceil2 n = Some c \<and> unat c = 2 ^ i \<and> unat n \<le> 2 ^ i \<and> 2 ^ i < 2 * unat n"
    if n: "n \<noteq> 0" "unat n < 2 ^ 31"
  proof -
    let ?i = "log2floor n"
    have i: "2 ^ ?i \<le> unat n" "unat n < 2 ^ (?i + 1)" using log2floor_spec [OF n(1)] by simp_all
    then have "(2::nat) ^ ?i < 2 ^ 31" using n(2) by linarith
    then have lt: "?i < 31" using power_less_imp_less_exp [of "2 :: nat" ?i 31] by simp
    then obtain p where p: "int_shl_1 ?i = Some p" "unat p = 2 ^ ?i" using int_shl_low by blast
    have pn: "p < n \<longleftrightarrow> 2 ^ ?i < unat n" using p(2) by (simp add: word_less_nat_alt)
    show ?thesis
    proof (cases "p < n")
      case True
      then have "ceil2 n = Some (push_bit (?i + 1) 1)" by (simp add: ceil2_def log2ceil_def Let_def p(1))
      moreover have "unat (push_bit (?i + 1) 1 :: u64) = 2 ^ (?i + 1)" by (rule unat_power) (use lt in simp)
      ultimately show ?thesis using True pn i by (intro exI conjI) (assumption, assumption, simp_all)
    next
      case False
      then have "ceil2 n = Some (push_bit ?i 1)" by (simp add: ceil2_def log2ceil_def Let_def p(1))
      moreover have "unat (push_bit ?i 1 :: u64) = 2 ^ ?i" by (rule unat_power) (use lt in simp)
      moreover have "unat n = 2 ^ ?i" using False pn i(1) by simp
      ultimately show ?thesis by (intro exI conjI) (assumption, assumption, simp_all)
    qed
  qed
  show ?thesis using z f c by blast
qed

theorem floor2_ceil2_exact_witness: "\<exists>c i. ceil2 17 = Some c \<and> unat c = 2 ^ i \<and> 17 \<le> (2::nat) ^ i \<and> (2::nat) ^ i < 34"
  using floor2_ceil2_exact [of 17] by simp

text \<open>
  Above that, the shift of an \<^verbatim>\<open>int\<close> in \<^verbatim>\<open>log2ceil\<close> overflows: between \<open>2 ^ 31\<close> and \<open>2 ^ 32\<close> the result of
  \<^verbatim>\<open>ceil2\<close> is rounded down instead of up, and from \<open>2 ^ 32\<close> on the shift count is out of range.
\<close>

theorem ceil2_overflow:
  "(2 ^ 31 < unat n \<longrightarrow> unat n < 2 ^ 32 \<longrightarrow> ceil2 n = Some (2 ^ 31)) \<and> (2 ^ 32 \<le> unat n \<longrightarrow> ceil2 n = None)"
proof (intro conjI impI)
  assume n: "2 ^ 31 < unat n" "unat n < 2 ^ 32"
  then have "n \<noteq> 0" by auto
  note i = log2floor_spec [OF this]
  have "(2::nat) ^ log2floor n < 2 ^ 32" "(2::nat) ^ 31 < 2 ^ (log2floor n + 1)" using n i by linarith+
  then have "log2floor n < 32" "31 < log2floor n + 1" by (simp_all only: power_strict_increasing_iff one_less_numeral_iff semiring_norm)
  then have l: "log2floor n = 31" by simp
  have s: "int_shl_1 31 = Some 0xFFFFFFFF80000000" unfolding int_shl_1_def by code_simp
  have "unat (0xFFFFFFFF80000000 :: u64) = 18446744071562067968" by simp
  then have "\<not> (0xFFFFFFFF80000000 :: u64) < n" using n(2) by (simp add: word_less_nat_alt)
  then have "ceil2 n = Some (push_bit 31 1)" by (simp add: ceil2_def log2ceil_def l s)
  then show "ceil2 n = Some (2 ^ 31)" by simp
next
  assume n: "2 ^ 32 \<le> unat n"
  then have "n \<noteq> 0" by auto
  note i = log2floor_spec [OF this]
  have "(2::nat) ^ 32 < 2 ^ (log2floor n + 1)" using n i by linarith
  then have "32 < log2floor n + 1" by (simp only: power_strict_increasing_iff one_less_numeral_iff semiring_norm)
  then show "ceil2 n = None" by (simp add: ceil2_def log2ceil_def int_shl_1_def)
qed

theorem ceil2_overflow_witness: "ceil2 3000000000 = Some 2147483648 \<and> ceil2 (2 ^ 32) = None"
  using ceil2_overflow [of 3000000000] ceil2_overflow [of "2 ^ 32"] by simp

end
