(* ===== verification/HeapPQ.thy ===== *)
theory HeapPQ
  imports MSQ_Props Bitop_Count
begin

text \<open>
  The queue \<^verbatim>\<open>Heap\<close> of the benchmark: the array heap as an instance of the priority queue contract, and
  the properties of both.
\<close>

section \<open>The contract\<close>

lemma heap_cmp_pos: "heap_cmp x y > 0 \<longleftrightarrow> x < y"
  by (auto simp: heap_cmp_def make_comparator_from_less_def)

text \<open>A thread id is neither of the two special tags; \<open>m\<close> is the room that is left.\<close>

definition heap_rep :: "nat \<Rightarrow> nat \<Rightarrow> tag_type \<Rightarrow> u32 msq \<Rightarrow> u32 multiset \<Rightarrow> nat \<Rightarrow> bool" where
  "heap_rep k f t q M m \<longleftrightarrow> ms_rep q M k \<and> size M + m \<le> 2 ^ k - 1 \<and> 2 ^ k \<le> f \<and> t \<noteq> AvailableTag \<and> t \<noteq> EmptyTag"

interpretation heap: prio_queue "heap_rep k f t" "ms_push heap_cmp f t" "ms_pop heap_cmp f" 1 "\<lambda>v. True" True
proof
  fix q M m and v :: u32
  assume r: "heap_rep k f t q M (m + 1)"
  then have "ms_rep q M k" "size M < 2 ^ k - 1" "2 ^ k \<le> f" "t \<noteq> AvailableTag" "t \<noteq> EmptyTag" by (auto simp: heap_rep_def)
  then obtain q' where "ms_push heap_cmp f t v q = Some (True, q')" "ms_rep q' (add_mset v M) k"
    using push_ok [OF heap_cmp_pos, of t q M k f v] by blast
  then show "\<exists>s'. ms_push heap_cmp f t v q = Some (True \<or> v \<notin># M, s') \<and>
      heap_rep k f t s' (if True \<or> v \<notin># M then add_mset v M else M) m"
    using r by (auto simp: heap_rep_def)
next
  fix q M m
  assume r: "heap_rep k f t q M m" and ne: "M \<noteq> {#}"
  then obtain q' where "pop_with heap_cmp f q = Some (Some (Min_mset M), q')" "ms_rep q' (M - {#Min_mset M#}) k"
    using pop_ok [OF heap_cmp_pos, of q M k f] by (auto simp: heap_rep_def)
  moreover have "size (M - {#Min_mset M#}) \<le> size M" by (rule size_mset_mono) simp
  ultimately show "\<exists>s'. ms_pop heap_cmp f q = Some (Some (Min_mset M), s') \<and> heap_rep k f t s' (M - {#Min_mset M#}) m"
    using r by (auto simp: heap_rep_def ms_pop_def)
qed

section \<open>A concrete heap\<close>

lemma heap_64:
  "\<exists>q. Heap junk 64 = Some q \<and> ms_rep q {#} 6"
proof -
  have "log2floor 64 = 6"
  proof -
    have "(2::nat) ^ log2floor 64 \<le> 2 ^ 6" "(2::nat) ^ 6 < 2 ^ (log2floor 64 + 1)"
      using log2floor_spec [of 64] by simp_all
    then have "log2floor 64 \<le> 6" "6 < log2floor 64 + 1"
      using power_le_imp_le_exp [of "2 :: nat" "log2floor 64" 6] power_less_imp_less_exp [of "2 :: nat" 6 "log2floor 64 + 1"] by simp_all
    then show ?thesis by simp
  qed
  then have "ceil2 (of_nat 64) = Some 64" by (simp add: ceil2_def log2ceil_def int_shl_1_def)
  then show ?thesis using new_ok [of 64 64 6 junk] by (simp add: Heap_def)
qed

section \<open>Properties\<close>

text \<open>
  C11. The operations of the array heap, as one thread runs them, are those of a bounded priority queue: an
  insertion stores the item or, when the heap is full, refuses it; a removal returns an item of
  highest priority, or nothing when the heap is empty; the queries answer for the content.
\<close>

theorem ms_queue_refines:
  assumes "\<And>x y. cmp x y > 0 \<longleftrightarrow> x < (y :: 'a :: linorder)" "t \<noteq> AvailableTag" "t \<noteq> EmptyTag" "ms_rep q M k" "2 ^ k \<le> f"
  shows "(if size M < 2 ^ k - 1 then \<exists>q'. ms_push cmp f t v q = Some (True, q') \<and> ms_rep q' (add_mset v M) k
      else ms_push cmp f t v q = Some (False, q)) \<and>
    (if M = {#} then ms_pop cmp f q = Some (None, q)
      else \<exists>q'. ms_pop cmp f q = Some (Some (Min_mset M), q') \<and> ms_rep q' (M - {#Min_mset M#}) k) \<and>
    ms_size q = Some (of_nat (size M), q) \<and> ms_empty q = Some (M = {#}, q) \<and> ms_full q = Some (size M = 2 ^ k - 1, q)"
proof (intro conjI)
  have "size M \<le> 2 ^ k - 1" by (rule ms_rep_size(3) [OF assms(4)])
  then show "if size M < 2 ^ k - 1 then \<exists>q'. ms_push cmp f t v q = Some (True, q') \<and> ms_rep q' (add_mset v M) k
      else ms_push cmp f t v q = Some (False, q)"
    using push_ok [OF assms(1-4) _ assms(5)] push_full [OF assms(4)] by simp
  show "if M = {#} then ms_pop cmp f q = Some (None, q)
      else \<exists>q'. ms_pop cmp f q = Some (Some (Min_mset M), q') \<and> ms_rep q' (M - {#Min_mset M#}) k"
    using pop_ok [OF assms(1,4) _ assms(5)] pop_none assms(4) by (simp add: ms_pop_def) blast
qed (rule size_ok [OF assms(4)] empty_ok [OF assms(4)] full_ok [OF assms(4)])+

theorem ms_queue_refines_witness:
  "\<exists>q q'. Heap (\<lambda>i. 0) 64 = Some q \<and> ms_pop heap_cmp 64 q = Some (None, q) \<and> ms_push heap_cmp 64 7 9 q = Some (True, q') \<and>
    ms_full q = Some (False, q)"
proof -
  obtain q where q: "Heap (\<lambda>i. 0) 64 = Some q" "ms_rep q {#} 6" using heap_64 by blast
  have "7 \<noteq> AvailableTag" "7 \<noteq> EmptyTag" "(2::nat) ^ 6 \<le> 64" by (simp_all add: AvailableTag_def EmptyTag_def)
  from ms_queue_refines [OF heap_cmp_pos this(1,2) q(2) this(3), of 9]
  show ?thesis using q(1) by auto
qed

text \<open>C16. Filling the heap of the benchmark and draining it sorts, duplicates included.\<close>

theorem heap_sorts:
  assumes "ms_rep q {#} k" "length vs \<le> 2 ^ k - 1" "2 ^ k \<le> f" "t \<noteq> AvailableTag" "t \<noteq> EmptyTag"
  shows "\<exists>q1 q2. fill (ms_push heap_cmp f t) vs q = Some q1 \<and> drain (ms_pop heap_cmp f) (length vs) q1 = Some (sort vs, q2)"
proof -
  have "heap_rep k f t q {#} (0 + 1 * length vs)" using assms by (simp add: heap_rep_def)
  from heap.fill_drain [OF this] show ?thesis
    unfolding heap.kept_def by (simp add: sorted_list_of_multiset_mset)
qed

theorem heap_sorts_witness:
  "\<exists>q q1 q2. Heap (\<lambda>i. 0) 64 = Some q \<and> fill (ms_push heap_cmp 64 7) [5, 2, 5, 1] q = Some q1 \<and>
    drain (ms_pop heap_cmp 64) 4 q1 = Some ([1, 2, 5, 5], q2)"
proof -
  obtain q where q: "Heap (\<lambda>i. 0) 64 = Some q" "ms_rep q {#} 6" using heap_64 by blast
  have "\<exists>q1 q2. fill (ms_push heap_cmp 64 7) [5, 2, 5, 1] q = Some q1 \<and>
      drain (ms_pop heap_cmp 64) (length [5, 2, 5, 1 :: u32]) q1 = Some (sort [5, 2, 5, 1], q2)"
    by (rule heap_sorts [OF q(2)]) (simp_all add: AvailableTag_def EmptyTag_def)
  moreover have "sort [5, 2, 5, 1 :: u32] = [1, 2, 5, 5]" by code_simp
  moreover have "length [5, 2, 5, 1 :: u32] = 4" by simp
  ultimately show ?thesis using q(1) by metis
qed

text \<open>
  When the heap is full, \<^verbatim>\<open>Heap::insert\<close> loses the value without a sign of it: the queue is left as it was.
\<close>

theorem heap_insert_full:
  assumes "ms_rep q M k" "size M = 2 ^ k - 1"
  shows "heap_insert f t v q = Some q"
  using push_full [OF assms, of heap_cmp f t v] by (simp add: heap_insert_def)

theorem heap_insert_full_witness: "\<exists>q q'. Heap (\<lambda>i. 0) 2 = Some q \<and> heap_insert 4 7 5 q = Some q' \<and> heap_insert 4 7 3 q' = Some q'"
proof -
  have "log2floor 2 = 1"
    using log2floor_spec [of 2] power_less_imp_less_exp [of "2 :: nat" 1 "log2floor 2 + 1"]
      power_le_imp_le_exp [of "2 :: nat" "log2floor 2" 1] by simp
  then have "ceil2 (of_nat 2) = Some 2" by (simp add: ceil2_def log2ceil_def int_shl_1_def)
  then obtain q where q: "Heap (\<lambda>i. 0) 2 = Some q" "ms_rep q {#} 1"
    using new_ok [of 2 2 1 "\<lambda>i. 0"] by (auto simp: Heap_def)
  obtain q' where q': "ms_push heap_cmp 4 7 5 q = Some (True, q')" "ms_rep q' {#5#} 1"
    using push_ok [OF heap_cmp_pos _ _ q(2), of 7 4 5] by (auto simp: AvailableTag_def EmptyTag_def)
  have "heap_insert 4 7 3 q' = Some q'" by (rule heap_insert_full [OF q'(2)]) simp
  then show ?thesis using q(1) q'(1) by (auto simp: heap_insert_def)
qed

text \<open>
  A heap that is made for \<open>n\<close> items below \<open>2 ^ 31\<close> gets the next power of two of slots, of which the first is
  not used; for \<open>n\<close> between \<open>2 ^ 31\<close> and \<open>2 ^ 32\<close> the rounding goes down, and from \<open>2 ^ 32\<close> on the
  construction does not return.
\<close>

theorem heap_capacity:
  "(1 < n \<longrightarrow> n < 2 ^ 31 \<longrightarrow> (\<exists>q k. Heap junk (of_nat n) = Some q \<and> ms_rep q {#} k \<and> n \<le> 2 ^ k \<and> 2 ^ k < 2 * n)) \<and>
   (2 ^ 31 < n \<longrightarrow> n < 2 ^ 32 \<longrightarrow> (\<exists>q. Heap junk (of_nat n) = Some q \<and> ms_rep q {#} 31)) \<and>
   (2 ^ 32 \<le> n \<longrightarrow> n < 2 ^ 64 \<longrightarrow> Heap junk (of_nat n) = None)"
proof (intro conjI impI)
  have u: "unat (of_nat n :: u64) = n" if "n < 2 ^ 64"
    using that by (simp only: unat_of_nat) (simp add: take_bit_nat_eq_self)
  {
    assume n: "1 < n" "n < 2 ^ 31"
    have "(2::nat) ^ 31 \<le> 2 ^ 64" by (rule power_increasing) simp_all
    then have un: "unat (of_nat n :: u64) = n" using u n by linarith
    then have "(of_nat n :: u64) \<noteq> 0" using n by auto
    then obtain c i where c: "ceil2 (of_nat n) = Some c" "unat c = 2 ^ i" "n \<le> 2 ^ i" "2 ^ i < 2 * n"
      using floor2_ceil2_exact [of "of_nat n"] un n by auto
    have "(2::nat) ^ i < 2 ^ 32" using c(4) n by simp
    then have "i < 32" using power_less_imp_less_exp [of "2 :: nat" i 32] by simp
    moreover have "0 < i" using c(3) n by (cases i) simp_all
    ultimately show "\<exists>q k. Heap junk (of_nat n) = Some q \<and> ms_rep q {#} k \<and> n \<le> 2 ^ k \<and> 2 ^ k < 2 * n"
      using new_ok [OF n(1) _ c(1,2), of junk] n(2) c(3,4) by (auto simp: Heap_def)
  next
    assume n: "2 ^ 31 < n" "n < 2 ^ 32"
    then have "unat (of_nat n :: u64) = n" using u by simp
    then have c: "ceil2 (of_nat n) = Some (2 ^ 31)" using ceil2_overflow [of "of_nat n"] n by simp
    show "\<exists>q. Heap junk (of_nat n) = Some q \<and> ms_rep q {#} 31"
      using new_ok [OF _ _ c, of 31 junk] n by (simp add: Heap_def)
  next
    assume n: "2 ^ 32 \<le> n" "n < 2 ^ 64"
    then have "ceil2 (of_nat n) = None" using ceil2_overflow [of "of_nat n"] u by simp
    then show "Heap junk (of_nat n) = None" by (simp add: Heap_def MSPriorityQueue_def dynamic_buffer_def)
  }
qed

theorem heap_capacity_witness: "\<exists>q k. Heap (\<lambda>i. 0) (of_nat 100) = Some q \<and> ms_rep q {#} k \<and> (100 :: nat) \<le> 2 ^ k \<and> (2 :: nat) ^ k < 200"
  using heap_capacity [of 100 "\<lambda>i. 0"] by simp

text \<open>Clearing the queue hands out every item, highest priority first, and leaves it empty.\<close>

theorem ms_clear_all:
  assumes "\<And>x y. cmp x y > 0 \<longleftrightarrow> x < (y :: 'a :: linorder)" "ms_rep q M k" "2 ^ k + size M \<le> f"
  shows "\<exists>q'. clear_with cmp f q = Some (sorted_list_of_multiset M, q') \<and> ms_rep q' {#} k"
  by (rule clear_ok [OF assms])

theorem ms_clear_all_witness: "\<exists>q q'. Heap (\<lambda>i. 0) 64 = Some q \<and> clear_with heap_cmp 100 q = Some ([], q')"
proof -
  obtain q where q: "Heap (\<lambda>i. 0) 64 = Some q" "ms_rep q {#} 6" using heap_64 by blast
  show ?thesis using ms_clear_all [OF heap_cmp_pos q(2), of 100] q(1) by auto
qed

end
