(* ===== verification/Threads.thy ===== *)
theory Threads
  imports Prelude
begin

text \<open>
  Threads that take turns: what several of the concurrent components share. A system is a partial
  function \<open>step\<close> that says what event \<open>e\<close> does in a state, \<open>None\<close> when the event is not possible.
\<close>

inductive runs :: "('e \<Rightarrow> 's \<Rightarrow> 's option) \<Rightarrow> 's \<Rightarrow> 's \<Rightarrow> bool" for step where
  runs_refl [intro]: "runs step s s"
| runs_step: "runs step s s' \<Longrightarrow> step e s' = Some s'' \<Longrightarrow> runs step s s''"

lemma runs_trans: "runs step s' s'' \<Longrightarrow> runs step s s' \<Longrightarrow> runs step s s''"
  by (induction rule: runs.induct) (auto intro: runs_step)

lemma runs_one: "step e s = Some s' \<Longrightarrow> runs step s s'"
  by (rule runs_step [OF runs_refl])

lemma runs_Cons: "step e s = Some s' \<Longrightarrow> runs step s' s'' \<Longrightarrow> runs step s s''"
  by (rule runs_trans [OF _ runs_one])

text \<open>A list of events, one after the other.\<close>

fun exec :: "('e \<Rightarrow> 's \<Rightarrow> 's option) \<Rightarrow> 'e list \<Rightarrow> 's \<Rightarrow> 's option" where
  "exec step [] s = Some s"
| "exec step (e # es) s = (case step e s of None \<Rightarrow> None | Some s' \<Rightarrow> exec step es s')"

lemma exec_runs: "exec step es s = Some s' \<Longrightarrow> runs step s s'"
  by (induction es arbitrary: s) (auto split: option.splits intro: runs_Cons)

text \<open>An invariant of a system holds wherever it can get.\<close>

locale machine =
  fixes step :: "'e \<Rightarrow> 's \<Rightarrow> 's option"
    and init :: 's
    and inv :: "'s \<Rightarrow> bool"
  assumes init: "inv init"
    and step: "inv s \<Longrightarrow> step e s = Some s' \<Longrightarrow> inv s'"
begin

lemma run: "runs step s s' \<Longrightarrow> inv s \<Longrightarrow> inv s'"
  by (induction rule: runs.induct) (auto intro: step)

lemma reachable: "runs step init s \<Longrightarrow> inv s"
  using run init by blast

end

end
