(* ===== verification/SpinLock.thy ===== *)
theory SpinLock
  imports Threads
begin

text \<open>
  The spin locks of libcds (\<^verbatim>\<open>cds/lock/spinlock.h\<close>), which guard the heap array and its nodes, under any
  interleaving: one access of a shared variable per step. \<open>dbg\<close> says whether the library is built with
  \<^verbatim>\<open>CDS_DEBUG\<close>, where the owner is recorded and the assertions are checked.
\<close>

type_synonym thread_id = u64

definition nullThreadId :: thread_id where
  "nullThreadId = 0"

section \<open>The spin lock\<close>

record spinlock =
  m_spin :: bool
  m_dbgOwnerId :: thread_id

definition Spinlock :: spinlock where
  "Spinlock = \<lparr>m_spin = False, m_dbgOwnerId = nullThreadId\<rparr>"

definition Spinlock_in :: "bool \<Rightarrow> thread_id \<Rightarrow> spinlock" where
  "Spinlock_in bLocked me = \<lparr>m_spin = bLocked, m_dbgOwnerId = (if bLocked then me else nullThreadId)\<rparr>"

text \<open>The copy constructor does not look at what it copies.\<close>

definition Spinlock_copy :: "spinlock \<Rightarrow> spinlock" where
  "Spinlock_copy l = Spinlock"

text \<open>The assertion of the destructor.\<close>

definition Spinlock_destroy :: "spinlock \<Rightarrow> bool" where
  "Spinlock_destroy l \<longleftrightarrow> \<not> m_spin l"

text \<open>
  The positions of a thread. \<open>Lock_test\<close>, \<open>Lock_load\<close>, \<open>Lock_check\<close>: the assertion at the start of \<^verbatim>\<open>lock\<close>,
  its inner loop and its last assertion. \<open>Try w\<close>, \<open>Cas w\<close>, \<open>Own w\<close>: the assertion of \<^verbatim>\<open>tryLock\<close>,
  the exchange, and storing the owner, where \<open>w\<close> is the caller: \<^verbatim>\<open>lock\<close>, or \<^verbatim>\<open>tryLock(n)\<close> with \<open>k\<close> tries
  left after this one (\<^verbatim>\<open>tryLock()\<close> is the case of no further try). The four steps of \<^verbatim>\<open>unlock\<close>: two
  assertions, clearing the owner, giving the lock back.
\<close>

datatype caller = In_lock | In_try nat

datatype spin_pc = Outside | Lock_test | Lock_load | Lock_check
  | Try caller | Cas caller | Own caller | Inside
  | Unlock_spin | Unlock_owner | Unlock_free | Unlock_store | Failed

text \<open>What a thread that is outside or inside does next.\<close>

datatype spin_cmd = Call_lock | Call_try | Call_try_n u32 | Call_unlock | Continue

definition spin_assert :: "bool \<Rightarrow> bool \<Rightarrow> spin_pc \<Rightarrow> spin_pc" where
  "spin_assert dbg b p = (if dbg \<and> \<not> b then Failed else p)"

definition tryLock_step :: "bool \<Rightarrow> thread_id \<Rightarrow> spin_pc \<Rightarrow> spinlock \<Rightarrow> spin_pc \<times> spinlock" where
  "tryLock_step dbg me p l = (case p of
       Try w \<Rightarrow> (spin_assert dbg (m_dbgOwnerId l \<noteq> me) (Cas w), l)
     | Cas w \<Rightarrow>
         if \<not> m_spin l then (if dbg then Own w else case w of In_lock \<Rightarrow> Lock_check | In_try k \<Rightarrow> Inside, l\<lparr>m_spin := True\<rparr>)
         else (case w of In_lock \<Rightarrow> Lock_load | In_try 0 \<Rightarrow> Outside | In_try (Suc k) \<Rightarrow> Try (In_try k), l)
     | Own w \<Rightarrow> (case w of In_lock \<Rightarrow> Lock_check | In_try k \<Rightarrow> Inside, l\<lparr>m_dbgOwnerId := me\<rparr>)
     | _ \<Rightarrow> (p, l))"

definition tryLock_n_step :: "u32 \<Rightarrow> spin_pc" where
  "tryLock_n_step nTryCount = (if nTryCount = 0 then Outside else Try (In_try (unat nTryCount - 1)))"

definition lock_step :: "bool \<Rightarrow> thread_id \<Rightarrow> spin_pc \<Rightarrow> spinlock \<Rightarrow> spin_pc \<times> spinlock" where
  "lock_step dbg me p l = (case p of
       Lock_test \<Rightarrow> (spin_assert dbg (m_dbgOwnerId l \<noteq> me) (Try In_lock), l)
     | Lock_load \<Rightarrow> (if m_spin l then Lock_load else Try In_lock, l)
     | Lock_check \<Rightarrow> (spin_assert dbg (m_dbgOwnerId l = me) Inside, l)
     | _ \<Rightarrow> (p, l))"

definition unlock_step :: "bool \<Rightarrow> thread_id \<Rightarrow> spin_pc \<Rightarrow> spinlock \<Rightarrow> spin_pc \<times> spinlock" where
  "unlock_step dbg me p l = (case p of
       Unlock_spin \<Rightarrow> (spin_assert dbg (m_spin l) Unlock_owner, l)
     | Unlock_owner \<Rightarrow> (spin_assert dbg (m_dbgOwnerId l = me) Unlock_free, l)
     | Unlock_free \<Rightarrow> (Unlock_store, if dbg then l\<lparr>m_dbgOwnerId := nullThreadId\<rparr> else l)
     | Unlock_store \<Rightarrow> (Outside, l\<lparr>m_spin := False\<rparr>)
     | _ \<Rightarrow> (p, l))"

definition is_locked :: "spinlock \<Rightarrow> bool" where
  "is_locked l \<longleftrightarrow> m_spin l"

record spin_state =
  sp_lock :: spinlock
  sp_pc :: "thread_id \<Rightarrow> spin_pc"

text \<open>A client calls \<^verbatim>\<open>unlock\<close> only when it is inside, and the id of a thread is not the null id.\<close>

definition spin_thread :: "bool \<Rightarrow> thread_id \<Rightarrow> spin_cmd \<Rightarrow> spin_pc \<Rightarrow> spinlock \<Rightarrow> (spin_pc \<times> spinlock) option" where
  "spin_thread dbg me c p l = (case (p, c) of
       (Outside, Call_lock) \<Rightarrow> Some (Lock_test, l)
     | (Outside, Call_try) \<Rightarrow> Some (Try (In_try 0), l)
     | (Outside, Call_try_n n) \<Rightarrow> Some (tryLock_n_step n, l)
     | (Inside, Call_unlock) \<Rightarrow> Some (Unlock_spin, l)
     | (Lock_test, Continue) \<Rightarrow> Some (lock_step dbg me p l)
     | (Lock_load, Continue) \<Rightarrow> Some (lock_step dbg me p l)
     | (Lock_check, Continue) \<Rightarrow> Some (lock_step dbg me p l)
     | (Try w, Continue) \<Rightarrow> Some (tryLock_step dbg me p l)
     | (Cas w, Continue) \<Rightarrow> Some (tryLock_step dbg me p l)
     | (Own w, Continue) \<Rightarrow> Some (tryLock_step dbg me p l)
     | (Unlock_spin, Continue) \<Rightarrow> Some (unlock_step dbg me p l)
     | (Unlock_owner, Continue) \<Rightarrow> Some (unlock_step dbg me p l)
     | (Unlock_free, Continue) \<Rightarrow> Some (unlock_step dbg me p l)
     | (Unlock_store, Continue) \<Rightarrow> Some (unlock_step dbg me p l)
     | _ \<Rightarrow> None)"

definition spin_put :: "thread_id \<Rightarrow> spin_pc \<Rightarrow> spinlock \<Rightarrow> spin_state \<Rightarrow> spin_state" where
  "spin_put me p l s = \<lparr>sp_lock = l, sp_pc = (sp_pc s)(me := p)\<rparr>"

definition spin_step :: "bool \<Rightarrow> thread_id \<times> spin_cmd \<Rightarrow> spin_state \<Rightarrow> spin_state option" where
  "spin_step dbg e s = (let (me, c) = e in
     if me = nullThreadId then None
     else case spin_thread dbg me c (sp_pc s me) (sp_lock s) of None \<Rightarrow> None | Some (p, l) \<Rightarrow> Some (spin_put me p l s))"

definition spin_init :: spin_state where
  "spin_init = \<lparr>sp_lock = Spinlock, sp_pc = (\<lambda>_. Outside)\<rparr>"

section \<open>Mutual exclusion\<close>

text \<open>Who holds the lock, and when the recorded owner is right.\<close>

fun holds :: "spin_pc \<Rightarrow> bool" where
  "holds Lock_check = True"
| "holds (Own w) = True"
| "holds Inside = True"
| "holds Unlock_spin = True"
| "holds Unlock_owner = True"
| "holds Unlock_free = True"
| "holds Unlock_store = True"
| "holds _ = False"

fun owns :: "spin_pc \<Rightarrow> bool" where
  "owns Lock_check = True"
| "owns Inside = True"
| "owns Unlock_spin = True"
| "owns Unlock_owner = True"
| "owns Unlock_free = True"
| "owns _ = False"

definition spin_inv :: "bool \<Rightarrow> spin_state \<Rightarrow> bool" where
  "spin_inv dbg s \<longleftrightarrow>
     (\<forall>t u. holds (sp_pc s t) \<longrightarrow> holds (sp_pc s u) \<longrightarrow> t = u) \<and>
     (m_spin (sp_lock s) \<longleftrightarrow> (\<exists>t. holds (sp_pc s t))) \<and>
     (\<forall>t. sp_pc s t \<noteq> Failed) \<and> sp_pc s nullThreadId = Outside \<and>
     (dbg \<longrightarrow> (\<forall>t. t \<noteq> nullThreadId \<longrightarrow> (m_dbgOwnerId (sp_lock s) = t \<longleftrightarrow> owns (sp_pc s t)))) \<and>
     (\<not> dbg \<longrightarrow> m_dbgOwnerId (sp_lock s) = nullThreadId \<and> (\<forall>t w. sp_pc s t \<noteq> Own w))"

lemma owns_holds: "owns p \<Longrightarrow> holds p"
  by (cases p) simp_all

lemmas spin_steps = spin_thread_def lock_step_def tryLock_step_def unlock_step_def tryLock_n_step_def spin_assert_def

text \<open>What one step may do: keep the lock, take it, give it back; the same for the recorded owner.\<close>

definition spin_change :: "bool \<Rightarrow> thread_id \<Rightarrow> spin_pc \<Rightarrow> spinlock \<Rightarrow> spin_pc \<Rightarrow> spinlock \<Rightarrow> bool" where
  "spin_change dbg me p l p' l' \<longleftrightarrow> p' \<noteq> Failed \<and>
     (m_spin l' = m_spin l \<and> holds p' = holds p \<or> \<not> m_spin l \<and> m_spin l' \<and> holds p' \<or> holds p \<and> \<not> holds p' \<and> \<not> m_spin l') \<and>
     (if dbg then m_dbgOwnerId l' = m_dbgOwnerId l \<and> owns p' = owns p \<or> m_dbgOwnerId l' = me \<and> owns p' \<and> holds p \<or>
        m_dbgOwnerId l' = nullThreadId \<and> owns p \<and> \<not> owns p'
      else m_dbgOwnerId l' = m_dbgOwnerId l \<and> (\<forall>w. p' \<noteq> Own w))"

lemma spin_thread_change:
  assumes "spin_thread dbg me c p l = Some (p', l')" "me \<noteq> nullThreadId" "p \<noteq> Failed" "holds p \<longrightarrow> m_spin l"
    "dbg \<longrightarrow> (m_dbgOwnerId l = me \<longleftrightarrow> owns p)" "\<not> dbg \<longrightarrow> (\<forall>w. p \<noteq> Own w)"
  shows "spin_change dbg me p l p' l'"
proof (cases p)
  case (Cas w)
  then show ?thesis using assms
    by (cases w; cases c) (auto simp: spin_steps spin_change_def split: nat.splits if_splits)
next
  case (Own w)
  then have "dbg" using assms(6) by blast
  with Own show ?thesis using assms(1-5)
    by (cases w; cases c) (auto simp: spin_steps spin_change_def split: if_splits)
qed (use assms in \<open>cases c; force simp: spin_steps spin_change_def split: if_splits\<close>)+

lemma spin_put_inv:
  assumes inv: "spin_inv dbg s" and me: "me \<noteq> nullThreadId"
    and change: "spin_change dbg me (sp_pc s me) (sp_lock s) p' l'"
  shows "spin_inv dbg (spin_put me p' l' s)"
proof -
  note nf = change [unfolded spin_change_def, THEN conjunct1]
  note lock = change [unfolded spin_change_def, THEN conjunct2, THEN conjunct1]
  note owner = change [unfolded spin_change_def, THEN conjunct2, THEN conjunct2]
  have one: "holds (sp_pc s t) \<Longrightarrow> holds (sp_pc s u) \<Longrightarrow> t = u" for t u using inv unfolding spin_inv_def by blast
  have spin: "m_spin (sp_lock s) \<longleftrightarrow> (\<exists>t. holds (sp_pc s t))" using inv unfolding spin_inv_def by blast
  have own: "dbg \<Longrightarrow> t \<noteq> nullThreadId \<Longrightarrow> m_dbgOwnerId (sp_lock s) = t \<longleftrightarrow> owns (sp_pc s t)" for t
    using inv unfolding spin_inv_def by blast
  have rest: "sp_pc s t \<noteq> Failed" "sp_pc s nullThreadId = Outside" "\<not> dbg \<Longrightarrow> m_dbgOwnerId (sp_lock s) = nullThreadId \<and> sp_pc s t \<noteq> Own w" for t w
    using inv unfolding spin_inv_def by blast+
  let ?q = "(sp_pc s)(me := p')"
  have 1: "holds (?q t) \<Longrightarrow> holds (?q u) \<Longrightarrow> t = u" for t u
    using one [of t u] one [of t me] one [of u me] spin lock by (auto split: if_splits)
  have 2: "m_spin l' \<longleftrightarrow> (\<exists>t. holds (?q t))"
  proof (cases "holds p'")
    case True
    then show ?thesis using lock spin by (metis fun_upd_same)
  next
    case False
    then have "(\<exists>t. holds (?q t)) \<longleftrightarrow> (\<exists>t. t \<noteq> me \<and> holds (sp_pc s t))" by auto
    then show ?thesis using lock spin one False by metis
  qed
  have 3: "m_dbgOwnerId l' = t \<longleftrightarrow> owns (?q t)" if "dbg" "t \<noteq> nullThreadId" for t
  proof (cases "t = me")
    case True
    then show ?thesis using owner that(1) own [OF that(1) me] me by auto
  next
    case False
    have o: "m_dbgOwnerId l' = m_dbgOwnerId (sp_lock s) \<or> holds (sp_pc s me) \<and> m_dbgOwnerId l' \<in> {me, nullThreadId}"
      using owner that(1) owns_holds by auto
    have "holds (sp_pc s me) \<Longrightarrow> \<not> owns (sp_pc s t)" using one [of t me] False owns_holds by blast
    moreover have "holds (sp_pc s me) \<Longrightarrow> m_dbgOwnerId (sp_lock s) \<noteq> t" using calculation own [OF that] by blast
    ultimately show ?thesis using o own [OF that] False that(2) by auto
  qed
  have 4: "?q t \<noteq> Failed" "?q nullThreadId = Outside" for t using rest(1,2) nf me by simp_all
  have 5: "m_dbgOwnerId l' = nullThreadId" "?q t \<noteq> Own w" if "\<not> dbg" for t w using rest(3) [OF that] owner that by simp_all
  show ?thesis unfolding spin_inv_def spin_put_def spin_state.simps
  proof (intro conjI allI impI)
    show "m_spin l' = (\<exists>t. holds (?q t))" by (rule 2)
  qed (blast intro: 1 | rule 4 5 | rule 3, assumption+)+
qed

lemma spin_inv_step:
  assumes inv: "spin_inv dbg s" and st: "spin_step dbg e s = Some s'"
  shows "spin_inv dbg s'"
proof -
  obtain me c where e: "e = (me, c)" by (cases e)
  from st obtain p' l' where me: "me \<noteq> nullThreadId" and th: "spin_thread dbg me c (sp_pc s me) (sp_lock s) = Some (p', l')"
    and s': "s' = spin_put me p' l' s"
    by (auto simp: e spin_step_def split: if_splits option.splits)
  have "sp_pc s me \<noteq> Failed" "holds (sp_pc s me) \<longrightarrow> m_spin (sp_lock s)"
    "dbg \<longrightarrow> (m_dbgOwnerId (sp_lock s) = me \<longleftrightarrow> owns (sp_pc s me))" "\<not> dbg \<longrightarrow> (\<forall>w. sp_pc s me \<noteq> Own w)"
    using inv me unfolding spin_inv_def by blast+
  from spin_thread_change [OF th me this] show ?thesis unfolding s' by (rule spin_put_inv [OF inv me])
qed

interpretation spin: machine "spin_step dbg" spin_init "spin_inv dbg"
proof
  show "spin_inv dbg spin_init" by (simp add: spin_inv_def spin_init_def Spinlock_def)
qed (rule spin_inv_step)

section \<open>Progress\<close>

text \<open>How many steps the holder is from giving the lock back, and a waiting thread from having it when it is free.\<close>

fun release_rank :: "spin_pc \<Rightarrow> nat" where
  "release_rank (Own w) = 6"
| "release_rank Lock_check = 5"
| "release_rank Inside = 4"
| "release_rank Unlock_spin = 3"
| "release_rank Unlock_owner = 2"
| "release_rank Unlock_free = 1"
| "release_rank _ = 0"

fun enter_rank :: "spin_pc \<Rightarrow> nat" where
  "enter_rank Lock_test = 5"
| "enter_rank Lock_load = 5"
| "enter_rank (Try w) = 4"
| "enter_rank (Cas w) = 3"
| "enter_rank (Own w) = 2"
| "enter_rank Lock_check = 1"
| "enter_rank _ = 0"

lemma release_thread:
  assumes "holds p"
  shows "\<exists>c p' l'. spin_thread dbg me c p l = Some (p', l') \<and>
    (p' = Failed \<or> p' = Outside \<or> holds p' \<and> release_rank p' < release_rank p)"
proof (cases "p = Inside")
  case True
  then show ?thesis by (intro exI [of _ Call_unlock]) (simp add: spin_steps)
next
  case False
  then show ?thesis using assms
    by (intro exI [of _ Continue], cases p) (auto simp: spin_steps split: caller.splits)
qed

lemma enter_thread:
  assumes "0 < enter_rank p" "holds p \<or> \<not> m_spin l"
  shows "\<exists>p' l'. spin_thread dbg me Continue p l = Some (p', l') \<and>
    (p' = Failed \<or> p' = Inside \<or> 0 < enter_rank p' \<and> enter_rank p' < enter_rank p \<and> (holds p' \<or> \<not> m_spin l'))"
  using assms by (cases p) (auto simp: spin_steps split: caller.splits)

lemma spin_step_ok:
  assumes inv: "spin_inv dbg s" and me: "me \<noteq> nullThreadId"
    and th: "spin_thread dbg me c (sp_pc s me) (sp_lock s) = Some (p', l')"
  shows "spin_step dbg (me, c) s = Some (spin_put me p' l' s)" "spin_inv dbg (spin_put me p' l' s)" "p' \<noteq> Failed"
proof -
  show st: "spin_step dbg (me, c) s = Some (spin_put me p' l' s)" using me th by (simp add: spin_step_def)
  show i: "spin_inv dbg (spin_put me p' l' s)" by (rule spin_inv_step [OF inv st])
  have "sp_pc (spin_put me p' l' s) me = p'" by (simp add: spin_put_def)
  then show "p' \<noteq> Failed" using i unfolding spin_inv_def by metis
qed

lemma spin_inv_facts:
  assumes "spin_inv dbg s"
  shows "holds (sp_pc s t) \<Longrightarrow> t \<noteq> nullThreadId" "holds (sp_pc s t) \<Longrightarrow> holds (sp_pc s u) \<Longrightarrow> t = u"
    "m_spin (sp_lock s) \<longleftrightarrow> (\<exists>t. holds (sp_pc s t))" "sp_pc s t \<noteq> Failed" "sp_pc s nullThreadId = Outside"
proof -
  show "sp_pc s nullThreadId = Outside" using assms unfolding spin_inv_def by blast
  then show "holds (sp_pc s t) \<Longrightarrow> t \<noteq> nullThreadId" by auto
qed (use assms in \<open>unfold spin_inv_def, blast+\<close>)

lemma release_run:
  assumes "spin_inv dbg s" "holds (sp_pc s h)"
  shows "\<exists>s'. runs (spin_step dbg) s s' \<and> spin_inv dbg s' \<and> sp_pc s' = (sp_pc s)(h := Outside)"
  using assms
proof (induction "release_rank (sp_pc s h)" arbitrary: s rule: less_induct)
  case less
  obtain c p' l' where th: "spin_thread dbg h c (sp_pc s h) (sp_lock s) = Some (p', l')"
    and p': "p' = Failed \<or> p' = Outside \<or> holds p' \<and> release_rank p' < release_rank (sp_pc s h)"
    using release_thread [OF less.prems(2)] by blast
  let ?s = "spin_put h p' l' s"
  note ok = spin_step_ok [OF less.prems(1) spin_inv_facts(1) [OF less.prems] th]
  have pc: "sp_pc ?s = (sp_pc s)(h := p')" by (simp add: spin_put_def)
  show ?case
  proof (cases "p' = Outside")
    case True
    then show ?thesis using runs_one [of "spin_step dbg", OF ok(1)] ok(2) pc by auto
  next
    case False
    then obtain s' where s': "runs (spin_step dbg) ?s s'" "spin_inv dbg s'" "sp_pc s' = (sp_pc ?s)(h := Outside)"
      using less.hyps [of ?s] p' ok(2,3) pc by auto
    then show ?thesis using runs_Cons [of "spin_step dbg", OF ok(1)] pc by (intro exI [of _ s']) auto
  qed
qed

lemma enter_run:
  assumes "spin_inv dbg s" "t \<noteq> nullThreadId" "0 < enter_rank (sp_pc s t)" "holds (sp_pc s t) \<or> \<not> m_spin (sp_lock s)"
  shows "\<exists>n s'. n \<le> enter_rank (sp_pc s t) \<and> exec (spin_step dbg) (replicate n (t, Continue)) s = Some s' \<and> sp_pc s' t = Inside"
  using assms
proof (induction "enter_rank (sp_pc s t)" arbitrary: s rule: less_induct)
  case less
  obtain p' l' where th: "spin_thread dbg t Continue (sp_pc s t) (sp_lock s) = Some (p', l')"
    and p': "p' = Failed \<or> p' = Inside \<or> 0 < enter_rank p' \<and> enter_rank p' < enter_rank (sp_pc s t) \<and> (holds p' \<or> \<not> m_spin l')"
    using enter_thread [OF less.prems(3,4)] by blast
  let ?s = "spin_put t p' l' s"
  note ok = spin_step_ok [OF less.prems(1,2) th]
  have pc: "sp_pc ?s t = p'" "sp_lock ?s = l'" by (simp_all add: spin_put_def)
  show ?case
  proof (cases "p' = Inside")
    case True
    then show ?thesis using ok(1) pc less.prems(3) by (intro exI [of _ 1] exI [of _ ?s]) simp
  next
    case False
    then have r: "0 < enter_rank p'" "enter_rank p' < enter_rank (sp_pc s t)" "holds p' \<or> \<not> m_spin l'" using p' ok(3) by auto
    then obtain n s' where "n \<le> enter_rank p'" "exec (spin_step dbg) (replicate n (t, Continue)) ?s = Some s'" "sp_pc s' t = Inside"
      using less.hyps [of ?s] ok(2) less.prems(2) pc by auto
    then show ?thesis using ok(1) r(2) by (intro exI [of _ "Suc n"] exI [of _ s']) simp
  qed
qed

section \<open>Properties\<close>

text \<open>
  C12. At any time at most one thread is between a successful \<^verbatim>\<open>lock\<close> or \<^verbatim>\<open>tryLock\<close> and its \<^verbatim>\<open>unlock\<close>, no assertion of
  the debug build fails, and \<^verbatim>\<open>is_locked\<close> says whether there is such a thread.
\<close>

theorem spin_mutual_exclusion:
  assumes "runs (spin_step dbg) spin_init s"
  shows "(sp_pc s t = Inside \<longrightarrow> sp_pc s u = Inside \<longrightarrow> t = u) \<and> sp_pc s t \<noteq> Failed \<and>
    (is_locked (sp_lock s) \<longleftrightarrow> (\<exists>t. holds (sp_pc s t)))"
proof -
  have i: "spin_inv dbg s" by (rule spin.reachable [OF assms])
  show ?thesis using spin_inv_facts(2) [OF i, of t u] spin_inv_facts(3,4) [OF i] by (auto simp: is_locked_def)
qed

theorem spin_mutual_exclusion_witness:
  "\<exists>s. runs (spin_step True) spin_init s \<and> sp_pc s 1 = Inside \<and> sp_pc s 2 = Lock_load \<and> sp_pc s 2 \<noteq> Failed"
proof -
  let ?es = "(1, Call_lock) # (2, Call_lock) # replicate 5 (1, Continue) @ replicate 3 (2, Continue)"
  obtain s where s: "exec (spin_step True) ?es spin_init = Some s" "sp_pc s 1 = Inside" "sp_pc s 2 = Lock_load"
    by (simp add: spin_step_def spin_steps spin_put_def spin_init_def Spinlock_def nullThreadId_def numeral_eq_Suc)
  show ?thesis using spin_mutual_exclusion [OF exec_runs [OF s(1)], of 2 1] exec_runs [OF s(1)] s(2,3) by blast
qed

text \<open>
  C23. No thread is stuck: from every reachable state a thread that wants the lock can get it, after the holder
  has run to its \<^verbatim>\<open>unlock\<close>; and a thread that runs alone while the lock is free has it within five steps.
\<close>

theorem spin_progress:
  assumes "runs (spin_step dbg) spin_init s" "t \<noteq> nullThreadId" "0 < enter_rank (sp_pc s t)"
  shows "(\<exists>s'. runs (spin_step dbg) s s' \<and> sp_pc s' t = Inside) \<and>
    (\<not> is_locked (sp_lock s) \<longrightarrow> (\<exists>n s'. n \<le> 5 \<and> exec (spin_step dbg) (replicate n (t, Continue)) s = Some s' \<and> sp_pc s' t = Inside))"
proof (intro conjI impI)
  have i: "spin_inv dbg s" by (rule spin.reachable [OF assms(1)])
  have five: "enter_rank p \<le> 5" for p by (cases p) simp_all
  show "\<exists>s'. runs (spin_step dbg) s s' \<and> sp_pc s' t = Inside"
  proof (cases "holds (sp_pc s t) \<or> \<not> m_spin (sp_lock s)")
    case True
    obtain n s' where "exec (spin_step dbg) (replicate n (t, Continue)) s = Some s'" "sp_pc s' t = Inside"
      using enter_run [OF i assms(2,3) True] by blast
    then show ?thesis using exec_runs [of "spin_step dbg"] by blast
  next
    case False
    then obtain h where h: "holds (sp_pc s h)" "h \<noteq> t" using spin_inv_facts(3) [OF i] by auto
    obtain s1 where s1: "runs (spin_step dbg) s s1" "spin_inv dbg s1" "sp_pc s1 = (sp_pc s)(h := Outside)"
      using release_run [OF i h(1)] by blast
    have "\<not> m_spin (sp_lock s1)" using spin_inv_facts(3) [OF s1(2)] spin_inv_facts(2) [OF i h(1)] s1(3) by auto
    moreover have "0 < enter_rank (sp_pc s1 t)" using assms(3) s1(3) h(2) by simp
    ultimately obtain n s' where "exec (spin_step dbg) (replicate n (t, Continue)) s1 = Some s'" "sp_pc s' t = Inside"
      using enter_run [OF s1(2) assms(2)] by blast
    then show ?thesis using runs_trans [OF exec_runs [of "spin_step dbg"] s1(1)] by blast
  qed
  show "\<exists>n s'. n \<le> 5 \<and> exec (spin_step dbg) (replicate n (t, Continue)) s = Some s' \<and> sp_pc s' t = Inside"
    if free: "\<not> is_locked (sp_lock s)"
  proof -
    obtain n s' where "n \<le> enter_rank (sp_pc s t)" "exec (spin_step dbg) (replicate n (t, Continue)) s = Some s'" "sp_pc s' t = Inside"
      using enter_run [OF i assms(2,3)] free unfolding is_locked_def by blast
    moreover have "n \<le> 5" using calculation(1) five [of "sp_pc s t"] by linarith
    ultimately show ?thesis by blast
  qed
qed

theorem spin_progress_witness:
  "\<exists>s s'. runs (spin_step True) spin_init s \<and> sp_pc s 1 = Inside \<and> sp_pc s 2 = Lock_load \<and>
    runs (spin_step True) s s' \<and> sp_pc s' 2 = Inside"
proof -
  let ?es = "(1, Call_lock) # (2, Call_lock) # replicate 5 (1, Continue) @ replicate 3 (2, Continue)"
  obtain s where s: "exec (spin_step True) ?es spin_init = Some s" "sp_pc s 1 = Inside" "sp_pc s 2 = Lock_load"
    by (simp add: spin_step_def spin_steps spin_put_def spin_init_def Spinlock_def nullThreadId_def numeral_eq_Suc)
  show ?thesis using spin_progress [OF exec_runs [OF s(1)], of 2] exec_runs [OF s(1)] s(2,3) by (auto simp: nullThreadId_def)
qed

end
