(* ===== verification/SpinReent.thy ===== *)
theory SpinReent
  imports SpinLock
begin

text \<open>
  The recursive spin lock \<^verbatim>\<open>ReentrantSpinT\<close> of \<^verbatim>\<open>cds/lock/spinlock.h\<close>, at the width of \<^verbatim>\<open>ReentrantSpin32\<close>, under
  any interleaving.
\<close>

record rspin =
  r_spin :: "u32"
  m_OwnerId :: thread_id

definition ReentrantSpinT :: "rspin" where
  "ReentrantSpinT = \<lparr>r_spin = 0, m_OwnerId = nullThreadId\<rparr>"

definition beOwner :: "thread_id \<Rightarrow> rspin \<Rightarrow> rspin" where
  "beOwner tid l = l\<lparr>m_OwnerId := tid\<rparr>"

definition free_owner :: "rspin \<Rightarrow> rspin" where
  "free_owner l = l\<lparr>m_OwnerId := nullThreadId\<rparr>"

definition isOwned :: "thread_id \<Rightarrow> rspin \<Rightarrow> bool" where
  "isOwned tid l \<longleftrightarrow> m_OwnerId l = tid"

definition rspin_is_locked :: "thread_id \<Rightarrow> rspin \<Rightarrow> bool" where
  "rspin_is_locked me l \<longleftrightarrow> \<not> (r_spin l = 0 \<or> isOwned me l)"

text \<open>
  The positions of a thread: the test and the increment of \<^verbatim>\<open>tryLockOwned\<close>; the exchange of \<^verbatim>\<open>tryAcquireLock\<close>,
  where \<open>In_try k\<close> has \<open>k\<close> tries left, this one included; the inner loop of \<^verbatim>\<open>acquireLock\<close>; \<^verbatim>\<open>beOwner\<close>; the
  steps of \<^verbatim>\<open>unlock\<close> and of \<^verbatim>\<open>changeOwner\<close>.
\<close>

datatype rspin_pc = R_Idle | R_Owned caller | R_Add | R_Cas caller | R_Load | R_Own
  | RU_Owner | RU_Load | RU_Store "u32" | RU_Free | RU_Zero
  | RC_Owner thread_id | RC_Store thread_id | R_Failed

text \<open>\<open>R_go False\<close> is an exchange that fails spuriously, as \<^verbatim>\<open>compare_exchange_weak\<close> may.\<close>

datatype rspin_cmd = R_lock | R_try | R_try_n u32 | R_unlock | R_change thread_id | R_go bool

fun tryLockOwned_step :: "thread_id \<Rightarrow> rspin_pc \<Rightarrow> rspin \<Rightarrow> rspin_pc \<times> rspin" where
  "tryLockOwned_step me (R_Owned w) l = (if isOwned me l then R_Add else case w of In_try 0 \<Rightarrow> R_Idle | _ \<Rightarrow> R_Cas w, l)"
| "tryLockOwned_step me R_Add l = (R_Idle, l\<lparr>r_spin := r_spin l + 1\<rparr>)"
| "tryLockOwned_step me p l = (p, l)"

fun acquire_step :: "bool \<Rightarrow> thread_id \<Rightarrow> rspin_pc \<Rightarrow> rspin \<Rightarrow> rspin_pc \<times> rspin" where
  "acquire_step ok me (R_Cas w) l =
     (if ok \<and> r_spin l = 0 then (R_Own, l\<lparr>r_spin := 1\<rparr>)
      else (case w of In_lock \<Rightarrow> R_Load | In_try (Suc (Suc k)) \<Rightarrow> R_Cas (In_try (Suc k)) | In_try _ \<Rightarrow> R_Idle, l))"
| "acquire_step ok me R_Load l = (if r_spin l \<noteq> 0 then R_Load else R_Cas In_lock, l)"
| "acquire_step ok me R_Own l = (R_Idle, beOwner me l)"
| "acquire_step ok me p l = (p, l)"

fun rspin_unlock_step :: "thread_id \<Rightarrow> rspin_pc \<Rightarrow> rspin \<Rightarrow> rspin_pc \<times> rspin" where
  "rspin_unlock_step me RU_Owner l = (if isOwned me l then RU_Load else R_Idle, l)"
| "rspin_unlock_step me RU_Load l = (if r_spin l > 1 then RU_Store (r_spin l) else RU_Free, l)"
| "rspin_unlock_step me (RU_Store n) l = (R_Idle, l\<lparr>r_spin := n - 1\<rparr>)"
| "rspin_unlock_step me RU_Free l = (RU_Zero, free_owner l)"
| "rspin_unlock_step me RU_Zero l = (R_Idle, l\<lparr>r_spin := 0\<rparr>)"
| "rspin_unlock_step me p l = (p, l)"

fun changeOwner_step :: "thread_id \<Rightarrow> rspin_pc \<Rightarrow> rspin \<Rightarrow> rspin_pc \<times> rspin" where
  "changeOwner_step me (RC_Owner u) l =
     (if isOwned me l then if u \<noteq> nullThreadId then RC_Store u else R_Failed else R_Idle, l)"
| "changeOwner_step me (RC_Store u) l = (R_Idle, l\<lparr>m_OwnerId := u\<rparr>)"
| "changeOwner_step me p l = (p, l)"

fun rspin_go :: "bool \<Rightarrow> thread_id \<Rightarrow> rspin_pc \<Rightarrow> rspin \<Rightarrow> rspin_pc \<times> rspin" where
  "rspin_go ok me p l = (case p of
       R_Owned w \<Rightarrow> tryLockOwned_step me p l | R_Add \<Rightarrow> tryLockOwned_step me p l
     | R_Cas w \<Rightarrow> acquire_step ok me p l | R_Load \<Rightarrow> acquire_step ok me p l | R_Own \<Rightarrow> acquire_step ok me p l
     | RC_Owner u \<Rightarrow> changeOwner_step me p l | RC_Store u \<Rightarrow> changeOwner_step me p l
     | _ \<Rightarrow> rspin_unlock_step me p l)"

text \<open>
  The system. \<open>rs_depth\<close> is not in the code: how often a thread has been told that it has the lock and has not
  yet given it back. Only runs are considered in which no depth exceeds \<open>lim\<close>, and in which no client hands the
  lock to the null thread.
\<close>

record rspin_state =
  rs_lock :: "rspin"
  rs_pc :: "thread_id \<Rightarrow> rspin_pc"
  rs_depth :: "thread_id \<Rightarrow> nat"

fun depth_after :: "thread_id \<Rightarrow> rspin_pc \<Rightarrow> (thread_id \<Rightarrow> nat) \<Rightarrow> thread_id \<Rightarrow> nat" where
  "depth_after me R_Add d = d(me := d me + 1)"
| "depth_after me R_Own d = d(me := d me + 1)"
| "depth_after me (RU_Store n) d = d(me := d me - 1)"
| "depth_after me RU_Zero d = d(me := d me - 1)"
| "depth_after me (RC_Store u) d = (if u = me then d else d(u := d me, me := 0))"
| "depth_after me p d = d"

fun rspin_call :: "rspin_cmd \<Rightarrow> rspin_pc option" where
  "rspin_call R_lock = Some (R_Owned In_lock)"
| "rspin_call R_try = Some (R_Owned (In_try 1))"
| "rspin_call (R_try_n n) = Some (R_Owned (In_try (unat n)))"
| "rspin_call R_unlock = Some RU_Owner"
| "rspin_call (R_change u) = (if u \<noteq> nullThreadId then Some (RC_Owner u) else None)"
| "rspin_call (R_go ok) = None"

definition rspin_step :: "nat \<Rightarrow> thread_id \<times> rspin_cmd \<Rightarrow> rspin_state \<Rightarrow> rspin_state option" where
  "rspin_step lim e s = (let (me, c) = e; p = rs_pc s me in
     if me = nullThreadId \<or> p = R_Failed \<or> p = R_Add \<and> lim \<le> rs_depth s me then None
     else if p = R_Idle then
       (case rspin_call c of None \<Rightarrow> None | Some p' \<Rightarrow> Some (s\<lparr>rs_pc := (rs_pc s)(me := p')\<rparr>))
     else (case c of
         R_go ok \<Rightarrow> (let (p', l') = rspin_go ok me p (rs_lock s) in
           Some \<lparr>rs_lock = l', rs_pc = (rs_pc s)(me := p'), rs_depth = depth_after me p (rs_depth s)\<rparr>)
       | _ \<Rightarrow> None))"

definition rspin_init :: "rspin_state" where
  "rspin_init = \<lparr>rs_lock = ReentrantSpinT, rs_pc = (\<lambda>_. R_Idle), rs_depth = (\<lambda>_. 0)\<rparr>"

section \<open>The invariant\<close>

text \<open>
  \<open>h\<close> holds the lock, with depth \<open>d\<close>: the counter is \<open>d\<close>, or 1 while the first acquisition is not yet complete; the
  owner is \<open>h\<close> except between the exchange and \<^verbatim>\<open>beOwner\<close>, and between \<^verbatim>\<open>free\<close> and the store of 0.
\<close>

fun deep :: "rspin_pc \<Rightarrow> u32 \<Rightarrow> nat \<Rightarrow> bool" where
  "deep R_Own n d = (n = 1 \<and> d = 0)"
| "deep R_Add n d = (unat n = d \<and> 0 < d)"
| "deep RU_Load n d = (unat n = d \<and> 0 < d)"
| "deep (RU_Store m) n d = (m = n \<and> unat n = d \<and> 1 < d)"
| "deep RU_Free n d = (unat n = d \<and> d = 1)"
| "deep RU_Zero n d = (unat n = d \<and> d = 1)"
| "deep (RC_Store u) n d = (unat n = d \<and> 0 < d \<and> u \<noteq> nullThreadId)"
| "deep (RC_Owner u) n d = (unat n = d \<and> 0 < d \<and> u \<noteq> nullThreadId)"
| "deep R_Failed n d = False"
| "deep p n d = (unat n = d \<and> 0 < d)"

fun shallow :: "rspin_pc \<Rightarrow> bool" where
  "shallow R_Own = False"
| "shallow R_Add = False"
| "shallow RU_Load = False"
| "shallow (RU_Store n) = False"
| "shallow RU_Free = False"
| "shallow RU_Zero = False"
| "shallow (RC_Store u) = False"
| "shallow (RC_Owner u) = (u \<noteq> nullThreadId)"
| "shallow R_Failed = False"
| "shallow p = True"

definition unowned :: "rspin_pc \<Rightarrow> bool" where
  "unowned p \<longleftrightarrow> p = R_Own \<or> p = RU_Zero"

definition rspin_held :: "thread_id option \<Rightarrow> rspin_state \<Rightarrow> bool" where
  "rspin_held h s \<longleftrightarrow>
     (\<forall>t. h \<noteq> Some t \<longrightarrow> shallow (rs_pc s t) \<and> rs_depth s t = 0) \<and> h \<noteq> Some nullThreadId \<and>
     (case h of None \<Rightarrow> r_spin (rs_lock s) = 0 \<and> m_OwnerId (rs_lock s) = nullThreadId
      | Some t \<Rightarrow> deep (rs_pc s t) (r_spin (rs_lock s)) (rs_depth s t) \<and>
          m_OwnerId (rs_lock s) = (if unowned (rs_pc s t) then nullThreadId else t))"

definition rspin_inv :: "rspin_state \<Rightarrow> bool" where
  "rspin_inv s \<longleftrightarrow> (\<exists>h. rspin_held h s)"

text \<open>A step of a thread that does not hold the lock: it stays without it, or takes it when it is free.\<close>

lemma shallow_go:
  assumes "shallow p" "p \<noteq> R_Idle" "m_OwnerId l \<noteq> me" "rspin_go ok me p l = (p', l')"
  shows "shallow p' \<and> l' = l \<or> p' = R_Own \<and> r_spin l = 0 \<and> l' = l\<lparr>r_spin := 1\<rparr>"
  using assms by (cases p) (auto simp: isOwned_def split: caller.splits nat.splits if_splits)

lemma unat_plus_one: "unat (n :: u32) < 2 ^ 32 - 1 \<Longrightarrow> unat (n + 1) = unat n + 1"
  by (simp add: unat_add_lem [THEN iffD1])

lemma word_gt_one: "(1 :: u32) < n \<longleftrightarrow> 1 < unat n"
  by (simp add: word_less_nat_alt)

lemma deep_go:
  assumes "deep p (r_spin l) (d me)" "p \<noteq> R_Idle" "m_OwnerId l = (if unowned p then nullThreadId else me)" "me \<noteq> nullThreadId"
    "rspin_go ok me p l = (p', l')" "p = R_Add \<longrightarrow> d me < 2 ^ 32 - 1"
  shows "deep p' (r_spin l') (depth_after me p d me) \<and> m_OwnerId l' = (if unowned p' then nullThreadId else me) \<and>
      (\<forall>t. t \<noteq> me \<longrightarrow> depth_after me p d t = d t) \<or>
    p = RU_Zero \<and> p' = R_Idle \<and> r_spin l' = 0 \<and> m_OwnerId l' = nullThreadId \<and> depth_after me p d = d(me := 0) \<or>
    (\<exists>u. p = RC_Store u \<and> u \<noteq> me \<and> u \<noteq> nullThreadId \<and> p' = R_Idle \<and> l' = l\<lparr>m_OwnerId := u\<rparr> \<and>
      depth_after me p d = d(u := d me, me := 0) \<and> 0 < d me \<and> unat (r_spin l) = d me)"
proof (cases p)
  case R_Add
  then show ?thesis using assms unat_plus_one [of "r_spin l"] by (auto simp: unowned_def)
next
  case RU_Load
  then have "r_spin l \<noteq> 0" using assms(1) by auto
  then have "0 < unat (r_spin l)" by (simp add: unat_gt_0)
  then have "\<not> 1 < unat (r_spin l) \<Longrightarrow> unat (r_spin l) = 1" by linarith
  then show ?thesis using RU_Load assms by (auto simp: unowned_def word_gt_one split: if_splits)
next
  case (RU_Store m)
  then have "m \<noteq> 0" using assms(1) by auto
  then have "unat (m - 1) = unat m - 1" by (rule unat_minus_one)
  then show ?thesis using RU_Store assms by (auto simp: unowned_def)
next
  case (RC_Store u)
  then show ?thesis using assms by (cases "u = me") (auto simp: unowned_def)
next
  case (R_Cas w)
  then have "r_spin l \<noteq> 0" using assms(1) by auto
  then show ?thesis using R_Cas assms by (auto simp: unowned_def split: caller.splits nat.splits)
qed (use assms in \<open>force simp: unowned_def isOwned_def beOwner_def free_owner_def split: if_splits caller.splits nat.splits\<close>)+

lemma deep_nonzero: "deep p n d \<Longrightarrow> n \<noteq> 0"
  by (cases p) auto

lemma shallow_deep: "shallow p \<Longrightarrow> unat n = d \<Longrightarrow> 0 < d \<Longrightarrow> deep p n d" and shallow_owned: "shallow p \<Longrightarrow> \<not> unowned p"
  and shallow_depth: "shallow p \<Longrightarrow> p \<noteq> R_Idle \<Longrightarrow> depth_after me p dd = dd"
  by (cases p; simp add: unowned_def)+

lemma call_shallow: "rspin_call c = Some p \<Longrightarrow> shallow p \<and> (deep R_Idle n d \<longrightarrow> deep p n d)"
  by (cases c) (auto split: if_splits)

lemma rspin_held_owner: "rspin_held h s \<Longrightarrow> h \<noteq> Some me \<Longrightarrow> me \<noteq> nullThreadId \<Longrightarrow> m_OwnerId (rs_lock s) \<noteq> me"
  by (auto simp: rspin_held_def split: option.splits if_splits)

lemma rspin_call_held:
  assumes "rspin_held h s" "rs_pc s me = R_Idle" "rspin_call c = Some p"
  shows "rspin_held h (s\<lparr>rs_pc := (rs_pc s)(me := p)\<rparr>)"
  using assms call_shallow [OF assms(3)] shallow_owned [of p]
  by (cases "h = Some me") (auto simp: rspin_held_def unowned_def split: option.splits)

lemma rspin_go_held:
  assumes held: "rspin_held h s" and p: "rs_pc s me \<noteq> R_Idle" and me: "me \<noteq> nullThreadId"
    and go: "rspin_go ok me (rs_pc s me) (rs_lock s) = (p', l')"
    and lim: "rs_pc s me = R_Add \<longrightarrow> rs_depth s me < 2 ^ 32 - 1"
    and s': "s' = \<lparr>rs_lock = l', rs_pc = (rs_pc s)(me := p'), rs_depth = depth_after me (rs_pc s me) (rs_depth s)\<rparr>"
  shows "\<exists>h'. rspin_held h' s'"
proof (cases "h = Some me")
  case False
  then have sh: "shallow (rs_pc s me)" "rs_depth s me = 0" using held by (auto simp: rspin_held_def)
  have d: "depth_after me (rs_pc s me) (rs_depth s) = rs_depth s" by (rule shallow_depth [OF sh(1) p])
  from shallow_go [OF sh(1) p rspin_held_owner [OF held False me] go] show ?thesis
  proof (elim disjE conjE)
    assume "shallow p'" "l' = rs_lock s"
    then have "rspin_held h s'" using held False d by (auto simp: rspin_held_def s' split: option.splits)
    then show ?thesis ..
  next
    assume a: "p' = R_Own" "r_spin (rs_lock s) = 0" "l' = (rs_lock s)\<lparr>r_spin := 1\<rparr>"
    then have "h = None" using held deep_nonzero by (auto simp: rspin_held_def split: option.splits)
    then have "rspin_held (Some me) s'" using held a d me sh by (auto simp: rspin_held_def s' unowned_def)
    then show ?thesis ..
  qed
next
  case True
  then have de: "deep (rs_pc s me) (r_spin (rs_lock s)) (rs_depth s me)"
      "m_OwnerId (rs_lock s) = (if unowned (rs_pc s me) then nullThreadId else me)"
    and others: "\<And>t. t \<noteq> me \<Longrightarrow> shallow (rs_pc s t) \<and> rs_depth s t = 0"
    using held by (auto simp: rspin_held_def)
  from deep_go [where d = "rs_depth s", OF de(1) p de(2) me go lim] show ?thesis
  proof (elim disjE conjE exE)
    assume "deep p' (r_spin l') (depth_after me (rs_pc s me) (rs_depth s) me)"
      "m_OwnerId l' = (if unowned p' then nullThreadId else me)"
      "\<forall>t. t \<noteq> me \<longrightarrow> depth_after me (rs_pc s me) (rs_depth s) t = rs_depth s t"
    then have "rspin_held (Some me) s'" using others me by (auto simp: rspin_held_def s')
    then show ?thesis ..
  next
    assume "p' = R_Idle" "r_spin l' = 0" "m_OwnerId l' = nullThreadId"
      "depth_after me (rs_pc s me) (rs_depth s) = (rs_depth s)(me := 0)"
    then have "rspin_held None s'" using others by (auto simp: rspin_held_def s')
    then show ?thesis ..
  next
    fix u
    assume a: "u \<noteq> me" "u \<noteq> nullThreadId" "p' = R_Idle" "l' = (rs_lock s)\<lparr>m_OwnerId := u\<rparr>"
      "depth_after me (rs_pc s me) (rs_depth s) = (rs_depth s)(u := rs_depth s me, me := 0)" "0 < rs_depth s me"
      "unat (r_spin (rs_lock s)) = rs_depth s me"
    have "rspin_held (Some u) s'"
      using a others shallow_deep [of "rs_pc s u", OF _ a(7,6)] shallow_owned [of "rs_pc s u"]
      by (auto simp: rspin_held_def s')
    then show ?thesis ..
  qed
qed

lemma rspin_inv_step:
  assumes lim: "lim < 2 ^ 32" and inv: "rspin_inv s" and st: "rspin_step lim e s = Some s'"
  shows "rspin_inv s'"
proof -
  obtain me c where e: "e = (me, c)" by (cases e)
  obtain h where h: "rspin_held h s" using inv by (auto simp: rspin_inv_def)
  have me: "me \<noteq> nullThreadId" and add: "\<not> (rs_pc s me = R_Add \<and> lim \<le> rs_depth s me)"
    using st by (auto simp: e rspin_step_def split: if_splits)
  show ?thesis
  proof (cases "rs_pc s me = R_Idle")
    case True
    then obtain p where "rspin_call c = Some p" "s' = s\<lparr>rs_pc := (rs_pc s)(me := p)\<rparr>"
      using st me by (auto simp: e rspin_step_def split: option.splits)
    then show ?thesis using rspin_call_held [OF h True] by (auto simp: rspin_inv_def)
  next
    case False
    then obtain ok where c: "c = R_go ok" using st me add by (cases c) (simp_all add: e rspin_step_def Let_def split: if_splits)
    obtain p' l' where go: "rspin_go ok me (rs_pc s me) (rs_lock s) = (p', l')" by (cases "rspin_go ok me (rs_pc s me) (rs_lock s)")
    have "s' = \<lparr>rs_lock = l', rs_pc = (rs_pc s)(me := p'), rs_depth = depth_after me (rs_pc s me) (rs_depth s)\<rparr>"
      using st False me add go by (simp add: e c rspin_step_def Let_def del: rspin_go.simps split: if_splits)
    moreover have "rs_pc s me = R_Add \<longrightarrow> rs_depth s me < 2 ^ 32 - 1" using add lim by auto
    ultimately show ?thesis using rspin_go_held [OF h False me go] by (auto simp: rspin_inv_def)
  qed
qed

lemma rspin_inv_init: "rspin_inv rspin_init"
  unfolding rspin_inv_def by (rule exI [of _ None]) (simp add: rspin_held_def rspin_init_def ReentrantSpinT_def)

interpretation rspin: machine "rspin_step (2 ^ 32 - 1)" rspin_init rspin_inv
proof
  show "rspin_inv s \<Longrightarrow> rspin_step (2 ^ 32 - 1) e s = Some s' \<Longrightarrow> rspin_inv s'" for s e s'
    by (rule rspin_inv_step) simp_all
qed (rule rspin_inv_init)

text \<open>
  C17. As long as no thread locks \<open>2 ^ 32\<close> times without unlocking, one thread at most has the recursive lock, the
  counter is the number of its acquisitions whenever it is not in the middle of one, and another thread sees
  the lock as taken exactly then.
\<close>

theorem rspin_mutual_exclusion:
  assumes "runs (rspin_step (2 ^ 32 - 1)) rspin_init s"
  shows "(0 < rs_depth s t \<longrightarrow> 0 < rs_depth s u \<longrightarrow> t = u) \<and>
    (0 < rs_depth s t \<longrightarrow> unat (r_spin (rs_lock s)) = rs_depth s t) \<and>
    (0 < rs_depth s t \<longrightarrow> u \<noteq> t \<longrightarrow> u \<noteq> nullThreadId \<longrightarrow> rspin_is_locked u (rs_lock s)) \<and> rs_pc s t \<noteq> R_Failed"
proof -
  obtain h where h: "rspin_held h s" using rspin.reachable [OF assms] by (auto simp: rspin_inv_def)
  have one: "h = Some t" if "0 < rs_depth s t" for t using h that by (auto simp: rspin_held_def)
  have "rs_pc s t \<noteq> R_Failed" using h by (cases "h = Some t") (auto simp: rspin_held_def)
  moreover have "unat (r_spin (rs_lock s)) = rs_depth s t" if "0 < rs_depth s t"
    using one [OF that] h that by (cases "rs_pc s t") (auto simp: rspin_held_def)
  moreover have "rspin_is_locked u (rs_lock s)" if "0 < rs_depth s t" "u \<noteq> t" "u \<noteq> nullThreadId"
    using one [OF that(1)] rspin_held_owner [OF h _ that(3)] that h deep_nonzero
    by (auto simp: rspin_is_locked_def isOwned_def rspin_held_def)
  moreover have "t = u" if "0 < rs_depth s t" "0 < rs_depth s u" using one [OF that(1)] one [OF that(2)] by simp
  ultimately show ?thesis by blast
qed

theorem rspin_mutual_exclusion_witness:
  "\<exists>s. runs (rspin_step (2 ^ 32 - 1)) rspin_init s \<and> rs_depth s 1 = 2 \<and> unat (r_spin (rs_lock s)) = 2 \<and> rspin_is_locked 2 (rs_lock s)"
proof -
  let ?es = "[(1, R_lock), (1, R_go True), (1, R_go True), (1, R_go True), (1, R_try), (1, R_go True), (1, R_go True)]"
  obtain s where s: "exec (rspin_step (2 ^ 32 - 1)) ?es rspin_init = Some s" "rs_depth s 1 = 2"
    by (simp add: rspin_step_def rspin_init_def ReentrantSpinT_def isOwned_def beOwner_def nullThreadId_def Let_def)
  show ?thesis
    using rspin_mutual_exclusion [OF exec_runs [OF s(1)], of 1 2] exec_runs [OF s(1)] s(2) by (auto simp: nullThreadId_def)
qed

text \<open>The state in which thread 1 has locked \<open>n\<close> times and nobody else has done anything.\<close>

definition locked_times :: "nat \<Rightarrow> rspin_state" where
  "locked_times n = \<lparr>rs_lock = \<lparr>r_spin = of_nat n, m_OwnerId = 1\<rparr>, rs_pc = (\<lambda>_. R_Idle), rs_depth = (\<lambda>_. 0)(1 := n)\<rparr>"

lemma locked_times_first: "0 < lim \<Longrightarrow> runs (rspin_step lim) rspin_init (locked_times 1)"
  by (rule exec_runs [where es = "[(1, R_lock), (1, R_go True), (1, R_go True), (1, R_go True)]"])
     (simp add: rspin_step_def rspin_init_def ReentrantSpinT_def isOwned_def beOwner_def nullThreadId_def Let_def locked_times_def fun_eq_iff)

lemma locked_times_next: "n < lim \<Longrightarrow> runs (rspin_step lim) (locked_times n) (locked_times (Suc n))"
  by (rule exec_runs [where es = "[(1, R_lock), (1, R_go True), (1, R_go True)]"])
     (simp add: rspin_step_def isOwned_def nullThreadId_def Let_def locked_times_def fun_eq_iff)

lemma locked_times_run: "0 < n \<Longrightarrow> n \<le> lim \<Longrightarrow> runs (rspin_step lim) rspin_init (locked_times n)"
proof (induction n rule: nat_induct_non_zero)
  case 1
  then show ?case using locked_times_first [of lim] by simp
next
  case (Suc n)
  then show ?case using runs_trans [OF locked_times_next [of n lim]] by simp
qed

text \<open>
  The counter has 32 bits and is not checked: with the \<open>2 ^ 32\<close>-th acquisition in a row the lock looks free, and a
  second thread gets it.
\<close>

theorem rspin_counter_wraps:
  "\<exists>s. runs (rspin_step (2 ^ 32)) rspin_init s \<and> rs_depth s 1 = 2 ^ 32 \<and> rs_depth s 2 = 1"
proof -
  have r: "runs (rspin_step (2 ^ 32)) rspin_init (locked_times (2 ^ 32))" by (rule locked_times_run) simp_all
  have "of_nat (2 ^ 32) = (0 :: u32)" by (simp only: of_nat_power of_nat_numeral) simp
  then obtain s where s: "exec (rspin_step (2 ^ 32)) [(2, R_lock), (2, R_go True), (2, R_go True), (2, R_go True)] (locked_times (2 ^ 32)) = Some s"
    "rs_depth s 1 = 2 ^ 32" "rs_depth s 2 = 1"
    by (simp add: rspin_step_def isOwned_def beOwner_def nullThreadId_def Let_def locked_times_def)
  then show ?thesis using runs_trans [OF exec_runs [OF s(1)] r] by blast
qed

end
