(* ===== verification/Numeric.thy ===== *)
theory Numeric
  imports Prelude "HOL-Library.Signed_Division" "HOL-Library.Monad_Syntax"
begin

text \<open>
  The small numeric routines of the benchmarks and of the spraylist: time differences, logarithms,
  rounding to powers of two, aligned addresses and random numbers. A C \<^verbatim>\<open>int\<close> expression whose
  value does not fit has no defined meaning; \<open>wrap32\<close> is what the usual two's complement machine
  gives, and the properties say where a routine leaves the range of \<^verbatim>\<open>int\<close>.
\<close>

section \<open>Definitions\<close>

text \<open>\<^verbatim>\<open>timediff\<close> of \<^verbatim>\<open>common.c\<close> and of \<^verbatim>\<open>linden_common.c\<close>\<close>

record timespec =
  tv_sec :: int
  tv_nsec :: int

definition timediff :: "timespec \<Rightarrow> timespec \<Rightarrow> timespec" where
  "timediff b e = (if tv_nsec e - tv_nsec b < 0
     then \<lparr>tv_sec = tv_sec e - tv_sec b - 1, tv_nsec = 1000000000 + tv_nsec e - tv_nsec b\<rparr>
     else \<lparr>tv_sec = tv_sec e - tv_sec b, tv_nsec = tv_nsec e - tv_nsec b\<rparr>)"

definition sl_timediff :: "timespec \<Rightarrow> timespec \<Rightarrow> timespec" where
  "sl_timediff b e = (if tv_nsec e - tv_nsec b < 0
     then \<lparr>tv_sec = tv_sec e - tv_sec b - 1, tv_nsec = 1000000000 + tv_nsec e - tv_nsec b\<rparr>
     else \<lparr>tv_sec = tv_sec e - tv_sec b, tv_nsec = tv_nsec e - tv_nsec b\<rparr>)"

definition floor_log_2 :: "u32 \<Rightarrow> int" where
  "floor_log_2 n =
     (let (n1, p1) = (if n \<ge> 2 ^ 16 then (drop_bit 16 n, 0 + 16 :: nat) else (n, 0));
          (n2, p2) = (if n1 \<ge> 2 ^ 8 then (drop_bit 8 n1, p1 + 8) else (n1, p1));
          (n3, p3) = (if n2 \<ge> 2 ^ 4 then (drop_bit 4 n2, p2 + 4) else (n2, p2));
          (n4, p4) = (if n3 \<ge> 2 ^ 2 then (drop_bit 2 n3, p3 + 2) else (n3, p3));
          p5 = (if n4 \<ge> 2 then p4 + 1 else p4)
      in if n4 = 0 then - 1 else int p5)"

definition pow2roundup :: "u32 \<Rightarrow> u32" where
  "pow2roundup x = (if x = 0 then 1 else
     (let x = x - 1; x = x OR drop_bit 1 x; x = x OR drop_bit 2 x; x = x OR drop_bit 4 x;
          x = x OR drop_bit 8 x; x = x OR drop_bit 16 x
      in x + 1))"

text \<open>
  \<^verbatim>\<open>ALIGNED_ALLOC(_s)\<close>: \<open>m\<close> is the address that \<^verbatim>\<open>malloc((_s) + CACHE_LINE_SIZE * 2)\<close> returned
  and \<open>l\<close> is \<^verbatim>\<open>CACHE_LINE_SIZE\<close>.
\<close>

definition aligned_addr :: "u64 \<Rightarrow> u64 \<Rightarrow> u64" where
  "aligned_addr l m = (m + l - 1) AND NOT (l - 1)"

text \<open>
  The random numbers of the spraylist: three words of state, \<^verbatim>\<open>unsigned long\<close>. The divisor is
  converted to \<^verbatim>\<open>unsigned long\<close> as well.
\<close>

type_synonym seeds = "u64 \<times> u64 \<times> u64"

definition seed_rand :: "u64 \<Rightarrow> u64 \<Rightarrow> u64 \<Rightarrow> seeds" where
  "seed_rand t1 t2 t3 = (t1 mod 123456789, t2 mod 362436069, t3 mod 521288629)"

definition xorshf96 :: "seeds \<Rightarrow> u64 \<times> seeds" where
  "xorshf96 = (\<lambda>(x, y, z).
     let x = x XOR push_bit 16 x; x = x XOR drop_bit 5 x; x = x XOR push_bit 1 x; t = x;
         x' = y; y' = z; z' = t XOR x' XOR y'
     in (z', (x', y', z')))"

definition rand_range :: "u64 \<Rightarrow> seeds \<Rightarrow> u64 \<times> seeds" where
  "rand_range r ss = (let (v, ss') = xorshf96 ss in (v mod r + 1, ss'))"

definition rand_range_re :: "u64 \<Rightarrow> seeds \<Rightarrow> u64 \<times> seeds" where
  "rand_range_re r ss = (let (v, ss') = xorshf96 ss in (v mod r + 1, ss'))"

definition fast_rand :: "u64 \<Rightarrow> u32" where
  "fast_rand ticks = ucast (drop_bit 4 (ticks AND 4294967295))"

text \<open>The two versions of the generator of \<^verbatim>\<open>pqueue.c\<close>.\<close>

definition wrap32 :: "int \<Rightarrow> int" where
  "wrap32 x = sint (word_of_int x :: u32)"

definition c_int :: "int \<Rightarrow> int option" where
  "c_int x = (if - (2 ^ 31) \<le> x \<and> x < 2 ^ 31 then Some x else None)"

definition old_marsaglia :: "int \<Rightarrow> int option" where
  "old_marsaglia seed =
     (let a = 16807; m = 2147483647; q = 127773; r = 2836; hi = seed sdiv q; lo = seed smod q
      in do { x \<leftarrow> c_int (a * lo); y \<leftarrow> c_int (r * hi); test \<leftarrow> c_int (x - y);
              if test > 0 then Some test else c_int (test + m) })"

definition marsaglia_c :: "int \<Rightarrow> int option" where
  "marsaglia_c seed =
     (let a = 123456789; m = 2147483647; q = 521288629; r = 88675123; hi = seed sdiv q; lo = seed smod q
      in do { x \<leftarrow> c_int (a * lo); y \<leftarrow> c_int (r * hi); test \<leftarrow> c_int (x - y);
              if test > 0 then Some test else c_int (test + m) })"

text \<open>What the compiled code of \<^verbatim>\<open>_MarsagliaXOR\<close> computes where C leaves the result open.\<close>

definition marsaglia :: "u32 \<Rightarrow> u32" where
  "marsaglia s =
     (let seed = sint s; a = 123456789; m = 2147483647; q = 521288629; r = 88675123;
          hi = seed sdiv q; lo = seed smod q; test = wrap32 (wrap32 (a * lo) - wrap32 (r * hi))
      in word_of_int (if test > 0 then test else wrap32 (test + m)))"

section \<open>Properties\<close>

lemma wrap32_id: "- (2 ^ 31) \<le> x \<Longrightarrow> x < 2 ^ 31 \<Longrightarrow> wrap32 x = x"
  by (simp add: wrap32_def sint_sbintrunc' signed_take_bit_int_eq_self)

text \<open>
  For normalised time stamps, the difference is normalised and leads from the first stamp to
  the second.
\<close>

theorem timediff_exact:
  assumes "0 \<le> tv_nsec b" "tv_nsec b < 1000000000" "0 \<le> tv_nsec e" "tv_nsec e < 1000000000"
  shows "0 \<le> tv_nsec (timediff b e) \<and> tv_nsec (timediff b e) < 1000000000 \<and>
    1000000000 * tv_sec b + tv_nsec b + (1000000000 * tv_sec (timediff b e) + tv_nsec (timediff b e))
      = 1000000000 * tv_sec e + tv_nsec e \<and> sl_timediff b e = timediff b e"
  using assms by (simp add: timediff_def sl_timediff_def)

theorem timediff_exact_witness:
  "tv_nsec (timediff \<lparr>tv_sec = 3, tv_nsec = 900000000\<rparr> \<lparr>tv_sec = 5, tv_nsec = 100000000\<rparr>) < 1000000000"
  using timediff_exact [of "\<lparr>tv_sec = 3, tv_nsec = 900000000\<rparr>" "\<lparr>tv_sec = 5, tv_nsec = 100000000\<rparr>"] by simp

text \<open>One halving step of \<^verbatim>\<open>floor_log_2\<close>: \<open>n\<close> is what is left of \<open>N\<close> after \<open>p\<close> bits.\<close>

definition log_state :: "nat \<Rightarrow> nat \<Rightarrow> u32 \<times> nat \<Rightarrow> bool" where
  "log_state N b np \<longleftrightarrow> unat (fst np) = N div 2 ^ snd np \<and> unat (fst np) < 2 ^ b \<and> (0 < N \<longrightarrow> 0 < unat (fst np))"

lemma log_step:
  assumes "log_state N (k + k) (n, p)" "k < 32"
  shows "log_state N k (if n \<ge> 2 ^ k then (drop_bit k n, p + k) else (n, p))"
proof -
  have "(2::nat) ^ k < 2 ^ 32" using assms(2) by (intro power_strict_increasing) simp_all
  then have u: "unat (2 ^ k :: u32) = 2 ^ k" using unat_of_nat [of "2 ^ k", where 'a = 32] by simp
  have "unat (drop_bit k n) = drop_bit k (unat n)" by (rule unat_drop_bit_eq)
  then have d: "unat (drop_bit k n) = unat n div 2 ^ k" by (simp only: drop_bit_eq_div)
  show ?thesis
  proof (cases "n \<ge> 2 ^ k")
    case True
    then have g: "2 ^ k \<le> unat n" using u by (simp add: word_le_nat_alt)
    have "unat n div 2 ^ k < 2 ^ k"
    proof -
      have "unat n < 2 ^ k * 2 ^ k" using assms(1) unfolding log_state_def fst_conv power_add by blast
      then show ?thesis by (simp add: div_less_iff_less_mult)
    qed
    moreover have "0 < unat n div 2 ^ k" using g by (simp add: div_greater_zero_iff)
    ultimately show ?thesis
      using True assms(1) d by (simp add: log_state_def power_add div_mult2_eq)
  next
    case False
    then have "unat n < 2 ^ k" using u by (simp add: word_le_nat_alt)
    then have "log_state N k (n, p)" using assms(1) unfolding log_state_def fst_conv snd_conv by blast
    then show ?thesis using False by simp
  qed
qed

text \<open>
  \<^verbatim>\<open>floor_log_2\<close> is the position of the highest bit, and -1 for 0.
\<close>

theorem floor_log_2_exact:
  "(n = 0 \<longrightarrow> floor_log_2 n = - 1) \<and>
   (n \<noteq> 0 \<longrightarrow> 0 \<le> floor_log_2 n \<and> 2 ^ nat (floor_log_2 n) \<le> unat n \<and> unat n < 2 ^ Suc (nat (floor_log_2 n)))"
proof (cases "n = 0")
  case True
  then show ?thesis by (simp add: floor_log_2_def Let_def)
next
  case False
  let ?N = "unat n"
  have N: "0 < ?N" using False by (simp add: unat_gt_0)
  have "log_state ?N 32 (n, 0)" using unsigned_less [of n] N by (simp add: log_state_def)
  then have s1: "log_state ?N 16 (if n \<ge> 2 ^ 16 then (drop_bit 16 n, 0 + 16) else (n, 0))" (is "log_state _ _ ?a")
    using log_step [of ?N 16 n 0] by simp
  obtain n1 p1 where a: "?a = (n1, p1)" by (cases ?a) blast
  have s2: "log_state ?N 8 (if n1 \<ge> 2 ^ 8 then (drop_bit 8 n1, p1 + 8) else (n1, p1))" (is "log_state _ _ ?b")
    using log_step [of ?N 8 n1 p1] s1 unfolding a by simp
  obtain n2 p2 where b: "?b = (n2, p2)" by (cases ?b) blast
  have s3: "log_state ?N 4 (if n2 \<ge> 2 ^ 4 then (drop_bit 4 n2, p2 + 4) else (n2, p2))" (is "log_state _ _ ?c")
    using log_step [of ?N 4 n2 p2] s2 unfolding b by simp
  obtain n3 p3 where c: "?c = (n3, p3)" by (cases ?c) blast
  have s4: "log_state ?N 2 (if n3 \<ge> 2 ^ 2 then (drop_bit 2 n3, p3 + 2) else (n3, p3))" (is "log_state _ _ ?d")
    using log_step [of ?N 2 n3 p3] s3 unfolding c by simp
  obtain n4 p4 where d: "?d = (n4, p4)" by (cases ?d) blast
  have n4: "unat n4 = ?N div 2 ^ p4" "unat n4 < 4" "0 < unat n4"
    using s4 N unfolding d by (simp_all add: log_state_def)
  have "n4 \<noteq> 0" using n4(3) by auto
  then have f: "floor_log_2 n = int (if n4 \<ge> 2 then p4 + 1 else p4)"
    unfolding floor_log_2_def Let_def a b c d prod.case by simp
  have e: "unat n4 * 2 ^ p4 \<le> ?N" "?N < (unat n4 + 1) * 2 ^ p4"
    unfolding n4(1) using dividend_less_times_div [of "2 ^ p4" ?N] by (simp_all add: algebra_simps)
  show ?thesis
  proof (cases "n4 \<ge> 2")
    case True
    then have "2 \<le> unat n4" by (simp add: word_le_nat_alt)
    then have "unat n4 = 2 \<or> unat n4 = 3" using n4(2) by linarith
    then show ?thesis using f True e False by (auto simp: nat_add_distrib)
  next
    case no: False
    then have "unat n4 = 1" using n4(3) by (simp add: word_le_nat_alt)
    then show ?thesis using f no e False by simp
  qed
qed

theorem floor_log_2_exact_witness: "floor_log_2 0 = - 1 \<and> 2 ^ nat (floor_log_2 32768) \<le> unat (32768 :: u32)"
  using floor_log_2_exact [of 0] floor_log_2_exact [of 32768] by simp

text \<open>Smearing: after the step with \<open>k\<close>, a bit says whether one of the \<open>2 * k\<close> bits from it on is set.\<close>

definition smeared :: "u32 \<Rightarrow> nat \<Rightarrow> u32 \<Rightarrow> bool" where
  "smeared y k z \<longleftrightarrow> (\<forall>i. bit z i \<longleftrightarrow> i < 32 \<and> (\<exists>j. i \<le> j \<and> j < i + k \<and> bit y j))"

lemma smear_step: 
  assumes "smeared y k z"
  shows "smeared y (k + k) (z OR drop_bit k z)"
proof -
  have "bit (z OR drop_bit k z) i \<longleftrightarrow> i < 32 \<and> (\<exists>j. i \<le> j \<and> j < i + (k + k) \<and> bit y j)" for i
  proof
    assume "bit (z OR drop_bit k z) i"
    then have b: "bit z i \<or> bit z (k + i)" by (simp add: bit_simps)
    then show "i < 32 \<and> (\<exists>j. i \<le> j \<and> j < i + (k + k) \<and> bit y j)"
    proof
      assume "bit z i"
      then obtain j where "i < 32" "i \<le> j" "j < i + k" "bit y j" using assms by (auto simp: smeared_def)
      then show ?thesis by (intro conjI exI [of _ j]) simp_all
    next
      assume "bit z (k + i)"
      then obtain j where "k + i < 32" "k + i \<le> j" "j < k + i + k" "bit y j" using assms by (auto simp: smeared_def)
      then show ?thesis by (intro conjI exI [of _ j]) simp_all
    qed
  next
    assume "i < 32 \<and> (\<exists>j. i \<le> j \<and> j < i + (k + k) \<and> bit y j)"
    then obtain j where j: "i < 32" "i \<le> j" "j < i + (k + k)" "bit y j" by blast
    have "j < 32" using j(4) bit_imp_le_length [of y j] by simp
    show "bit (z OR drop_bit k z) i"
    proof (cases "j < i + k")
      case True
      then show ?thesis using assms j unfolding smeared_def by (auto simp: bit_simps)
    next
      case False
      then have "k + i \<le> j" "j < (k + i) + k" "k + i < 32" using j \<open>j < 32\<close> by simp_all
      then have "bit z (k + i)" using assms j unfolding smeared_def by blast
      then show ?thesis by (simp add: bit_simps)
    qed
  qed
  then show ?thesis by (simp add: smeared_def)
qed

lemma smeared_1: "smeared y 1 y"
proof -
  have "bit y i \<longleftrightarrow> i < 32 \<and> (\<exists>j. i \<le> j \<and> j < i + 1 \<and> bit y j)" for i
  proof
    assume "bit y i"
    moreover have "i < 32" using bit_imp_le_length [OF \<open>bit y i\<close>] by simp
    moreover have "i \<le> i" "i < i + 1" by simp_all
    ultimately show "i < 32 \<and> (\<exists>j. i \<le> j \<and> j < i + 1 \<and> bit y j)" by blast
  next
    assume "i < 32 \<and> (\<exists>j. i \<le> j \<and> j < i + 1 \<and> bit y j)"
    then obtain j where "i \<le> j" "j < i + 1" "bit y j" by blast
    then have "j = i" by linarith
    with \<open>bit y j\<close> show "bit y i" by simp
  qed
  then show ?thesis unfolding smeared_def by blast
qed

lemma smear_all:
  assumes "smeared y 32 z" and h: "bit y h" "\<forall>j>h. \<not> bit y j"
  shows "z = mask (Suc h)"
proof (rule bit_word_eqI)
  fix i assume "i < LENGTH(32)"
  then have "bit z i \<longleftrightarrow> (\<exists>j. i \<le> j \<and> j < i + 32 \<and> bit y j)" using assms(1) by (simp add: smeared_def)
  also have "\<dots> \<longleftrightarrow> i \<le> h"
  proof
    assume "\<exists>j. i \<le> j \<and> j < i + 32 \<and> bit y j"
    then obtain j where "i \<le> j" "bit y j" by blast
    moreover have "j \<le> h" using h(2) \<open>bit y j\<close> by (meson not_le)
    ultimately show "i \<le> h" by simp
  next
    assume "i \<le> h"
    then show "\<exists>j. i \<le> j \<and> j < i + 32 \<and> bit y j"
      using h(1) bit_imp_le_length [of y h] by (intro exI [of _ h]) simp
  qed
  finally show "bit z i = bit (mask (Suc h) :: u32) i"
    using \<open>i < LENGTH(32)\<close> by (auto simp: bit_simps)
qed

lemma top_bit:
  fixes y :: u32
  assumes "y \<noteq> 0"
  obtains h where "bit y h" "\<forall>j>h. \<not> bit y j" "h < 32" "2 ^ h \<le> unat y" "unat y < 2 ^ Suc h"
proof -
  let ?B = "{i. bit y i}"
  have fin: "finite ?B" using bit_imp_le_length [of y] by (auto intro: finite_subset [of _ "{..<32}"])
  have ne: "?B \<noteq> {}" using assms by (auto simp: bit_eq_iff)
  define h where "h = Max ?B"
  have h: "bit y h" using Max_in [OF fin ne] by (simp add: h_def)
  have top: "\<forall>j>h. \<not> bit y j" using Max_ge [OF fin] unfolding h_def by (metis mem_Collect_eq not_le)
  have l: "h < 32" using bit_imp_le_length [OF h] by simp
  have bu: "bit (unat y) i = bit y i" for i
    using bit_imp_le_length [of y i] by (auto simp: bit_simps)
  have "2 ^ h \<le> unat y"
  proof (rule ccontr)
    assume "\<not> 2 ^ h \<le> unat y"
    then have "unat y div 2 ^ h = 0" by simp
    then have "\<not> bit (unat y) h" by (simp add: bit_nat_def)
    then show False using h bu by simp
  qed
  moreover have "take_bit (Suc h) (unat y) = unat y"
  proof (rule bit_eqI)
    fix i
    show "bit (take_bit (Suc h) (unat y)) i = bit (unat y) i"
      using top bu [of i] by (cases "h < i") (simp_all add: bit_take_bit_iff)
  qed
  then have "unat y < 2 ^ Suc h" using take_bit_nat_less_exp [of "Suc h" "unat y"] by simp
  ultimately show ?thesis using that h top l by blast
qed

lemma pow2_top:
  fixes y :: u32
  assumes "bit y h" "\<forall>j>h. \<not> bit y j"
  shows "pow2roundup (y + 1) = (if y + 1 = 0 then 1 else mask (Suc h) + 1)"
proof -
  define a where "a = y OR drop_bit 1 y"
  define b where "b = a OR drop_bit 2 a"
  define c where "c = b OR drop_bit 4 b"
  define d where "d = c OR drop_bit 8 c"
  define e where "e = d OR drop_bit 16 d"
  have "smeared y (1 + 1) a" unfolding a_def by (rule smear_step [OF smeared_1])
  then have "smeared y 2 a" by (simp only: one_add_one)
  then have "smeared y (2 + 2) b" unfolding b_def by (rule smear_step)
  then have "smeared y 4 b" by simp
  then have "smeared y (4 + 4) c" unfolding c_def by (rule smear_step)
  then have "smeared y 8 c" by simp
  then have "smeared y (8 + 8) d" unfolding d_def by (rule smear_step)
  then have "smeared y 16 d" by simp
  then have "smeared y (16 + 16) e" unfolding e_def by (rule smear_step)
  then have "smeared y 32 e" by simp
  then have "e = mask (Suc h)" by (rule smear_all [OF _ assms])
  then show ?thesis
    unfolding pow2roundup_def Let_def add_diff_cancel_right' a_def [symmetric] b_def [symmetric]
      c_def [symmetric] d_def [symmetric] e_def [symmetric] by simp
qed

text \<open>
  \<^verbatim>\<open>pow2roundup\<close> gives the least power of two that is not below a nonzero argument, as long as
  32 bits hold it; for larger arguments the sum wraps to 0.
\<close>

theorem pow2roundup_least:
  assumes "x \<noteq> 0"
  shows "(unat x \<le> 2 ^ 31 \<longrightarrow> (\<exists>k. unat (pow2roundup x) = 2 ^ k \<and> unat x \<le> 2 ^ k \<and> (\<forall>j. unat x \<le> 2 ^ j \<longrightarrow> k \<le> j))) \<and>
    (2 ^ 31 < unat x \<longrightarrow> pow2roundup x = 0)"
proof (cases "x = 1")
  case True
  have "unat (pow2roundup x) = 2 ^ 0" unfolding True by (simp add: pow2roundup_def)
  then show ?thesis using True by (intro conjI impI exI [of _ 0]) simp_all
next
  case False
  define y where "y = x - 1"
  have x: "x = y + 1" by (simp add: y_def)
  have y0: "y \<noteq> 0" using False x by auto
  have ux: "unat x = unat y + 1"
    using assms unat_minus_one [of x] unat_gt_0 [of x] unfolding y_def by linarith
  obtain h where h: "bit y h" "\<forall>j>h. \<not> bit y j" "h < 32" "2 ^ h \<le> unat y" "unat y < 2 ^ Suc h"
    using top_bit [OF y0] by blast
  have p: "pow2roundup x = mask (Suc h) + 1" using pow2_top [OF h(1,2)] assms by (simp add: x)
  have m: "mask (Suc h) + 1 = (2 ^ Suc h :: u32)" by (simp add: mask_eq_exp_minus_1)
  show ?thesis
  proof (cases "h = 31")
    case True
    have "2 ^ 31 < unat x" using h(4) ux True by simp
    moreover have "(2 :: u32) ^ Suc 31 = 0" by simp
    ultimately show ?thesis using p m True by simp
  next
    case h31: False
    then have l: "Suc h \<le> 31" using h(3) by simp
    have "(2::nat) ^ Suc h \<le> 2 ^ 31" by (rule power_increasing [OF l]) simp
    then have e: "unat (2 ^ Suc h :: u32) = 2 ^ Suc h" using unat_of_nat [of "2 ^ Suc h", where 'a = 32] by simp
    have le: "unat x \<le> 2 ^ 31" using h(5) ux \<open>2 ^ Suc h \<le> 2 ^ 31\<close> by linarith
    have "\<forall>j. unat x \<le> 2 ^ j \<longrightarrow> Suc h \<le> j"
    proof (intro allI impI)
      fix j assume "unat x \<le> 2 ^ j"
      then have "(2::nat) ^ h < 2 ^ j" using h(4) ux by linarith
      then show "Suc h \<le> j" by (simp add: Suc_le_eq)
    qed
    moreover have "unat x \<le> 2 ^ Suc h" using h(5) ux by linarith
    ultimately have "\<exists>k. unat (pow2roundup x) = 2 ^ k \<and> unat x \<le> 2 ^ k \<and> (\<forall>j. unat x \<le> 2 ^ j \<longrightarrow> k \<le> j)"
      unfolding p m by (intro exI [of _ "Suc h"] conjI e)
    then show ?thesis using le by (simp only: not_less [symmetric] simp_thms)
  qed
qed

theorem pow2roundup_least_witness: "pow2roundup 33 = 64 \<and> pow2roundup 2147483649 = 0 \<and>
    (\<exists>k. unat (pow2roundup 33) = 2 ^ k \<and> unat (33 :: u32) \<le> 2 ^ k)"
proof -
  have "pow2roundup 33 = 64" by (simp add: pow2roundup_def drop_bit_eq_div)
  then show ?thesis using pow2roundup_least [of 33] pow2roundup_least [of 2147483649] by auto
qed

text \<open>
  \<^verbatim>\<open>_old_MarsagliaXOR\<close> is Schrage's form of the minimal standard generator: on its states it
  computes \<open>16807 * seed mod (2 ^ 31 - 1)\<close> without leaving the range of \<^verbatim>\<open>int\<close>, and stays in them.
\<close>

lemma old_marsaglia_mod:
  assumes "1 \<le> seed" "seed < 2147483647"
  shows "(16807 * seed) mod 2147483647 \<noteq> (0 :: int)"
proof
  assume "(16807 * seed) mod 2147483647 = 0"
  then obtain c where c: "16807 * seed = 2147483647 * c" by (auto simp: mod_eq_0_iff_dvd)
  have "seed = 1407677000 * (16807 * seed) - 2147483647 * (11017 * seed)" by simp
  also have "\<dots> = 2147483647 * (1407677000 * c - 11017 * seed)" unfolding c by (simp add: algebra_simps)
  finally have "2147483647 dvd seed" by (metis dvd_triv_left)
  then show False using assms zdvd_imp_le [of 2147483647 seed] by simp
qed

theorem old_marsaglia_schrage:
  assumes "1 \<le> seed" "seed < 2147483647"
  shows "old_marsaglia seed = Some ((16807 * seed) mod 2147483647) \<and>
    0 < (16807 * seed) mod 2147483647 \<and> (16807 * seed) mod 2147483647 < 2147483647"
proof -
  define hi lo where "hi = seed div 127773" and "lo = seed mod 127773"
  have s: "seed = 127773 * hi + lo" by (simp add: hi_def lo_def)
  have lo: "0 \<le> lo" "lo < 127773" by (simp_all add: lo_def)
  have hi: "0 \<le> hi" "hi \<le> 16807" using assms by (simp_all add: hi_def)
  have sd: "seed sdiv 127773 = hi" "seed smod 127773 = lo"
    using assms by (simp_all add: hi_def lo_def signed_divide_int_def signed_modulo_int_def)
  let ?t = "16807 * lo - 2836 * hi"
  have tr: "?t < 2147483647" "- 2147483647 < ?t" using lo hi by linarith+
  have key: "16807 * seed = ?t + 2147483647 * hi" unfolding s by (simp add: algebra_simps)
  then have md: "(16807 * seed) mod 2147483647 = ?t mod 2147483647" by (simp only: mod_mult_self2)
  have ne: "?t \<noteq> 0" using old_marsaglia_mod [OF assms] md by auto
  have c: "c_int (16807 * lo) = Some (16807 * lo)" "c_int (2836 * hi) = Some (2836 * hi)" "c_int ?t = Some ?t"
    using lo hi by (simp_all add: c_int_def)
  show ?thesis
  proof (cases "?t > 0")
    case True
    then have "?t mod 2147483647 = ?t" using tr by simp
    then show ?thesis using True c sd md tr by (simp add: old_marsaglia_def Let_def)
  next
    case False
    then have n: "?t < 0" using ne by simp
    have "?t mod 2147483647 = (?t + 2147483647) mod 2147483647" by simp
    also have "\<dots> = ?t + 2147483647" using n tr by (intro mod_pos_pos_trivial) linarith+
    finally have m: "?t mod 2147483647 = ?t + 2147483647" .
    have "c_int (?t + 2147483647) = Some (?t + 2147483647)" using n tr by (simp add: c_int_def)
    then show ?thesis using False c sd md m n tr by (simp add: old_marsaglia_def Let_def)
  qed
qed

theorem old_marsaglia_schrage_witness: "old_marsaglia 2147483646 = Some 2147466840"
  using old_marsaglia_schrage [of 2147483646] by simp

text \<open>
  The replacement generator \<^verbatim>\<open>_MarsagliaXOR\<close>, which the delete operations call, has constants
  for which the products do not fit: every seed from 18 up to the divisor overflows \<^verbatim>\<open>int\<close>.
\<close>

theorem marsaglia_overflow:
  assumes "18 \<le> seed" "seed < 521288629"
  shows "marsaglia_c seed = None"
proof -
  have "seed smod 521288629 = seed" "seed sdiv 521288629 = 0"
    using assms by (simp_all add: signed_divide_int_def signed_modulo_int_def)
  then show ?thesis using assms by (simp add: marsaglia_c_def Let_def c_int_def)
qed

theorem marsaglia_overflow_witness: "marsaglia_c 100 = None \<and> marsaglia_c 17 \<noteq> None"
proof -
  have "marsaglia_c 17 \<noteq> None" by code_simp
  then show ?thesis using marsaglia_overflow [of 100] by simp
qed

text \<open>
  The address that \<^verbatim>\<open>ALIGNED_ALLOC\<close> computes is a multiple of the line size, and the \<open>s\<close> bytes
  from it on lie inside the \<open>s + 2 * l\<close> bytes that \<^verbatim>\<open>malloc\<close> returned.
\<close>

theorem aligned_addr_inside:
  assumes "l = 2 ^ k" "k < 63" "unat m + s + 2 * 2 ^ k \<le> 2 ^ 64"
  shows "2 ^ k dvd unat (aligned_addr l m) \<and> unat m \<le> unat (aligned_addr l m) \<and>
    unat (aligned_addr l m) + s \<le> unat m + s + 2 * 2 ^ k"
proof -
  have p: "(2::nat) ^ k < 2 ^ 63" using assms(2) by (intro power_strict_increasing) simp_all
  have ul: "unat l = 2 ^ k" using p unat_of_nat [of "2 ^ k", where 'a = 64] by (simp add: assms(1))
  define z where "z = m + l - 1"
  have one: "0 < (2::nat) ^ k" by simp
  have "unat z = unat m + 2 ^ k - 1"
  proof -
    have ll: "l \<noteq> 0" using ul one by auto
    have a: "unat (l - 1) = 2 ^ k - 1" using ul ll by (simp add: unat_minus_one)
    have "unat (m + (l - 1)) = unat m + unat (l - 1)"
      using assms(3) a by (subst unat_add_lem [symmetric]) simp
    then show ?thesis using a one by (simp add: z_def algebra_simps)
  qed
  moreover have "aligned_addr l m = z AND NOT (mask k)"
    by (simp add: aligned_addr_def z_def assms(1) mask_eq_exp_minus_1)
  moreover have "unat (z AND NOT (mask k)) = unat z - unat z mod 2 ^ k"
  proof -
    have "z - take_bit k z = z AND NOT (take_bit k z)"
      by (rule disjunctive_diff) (simp add: bit_take_bit_iff)
    also have "\<dots> = z AND NOT (mask k)"
      by (rule bit_word_eqI) (auto simp: bit_simps)
    finally have e: "z AND NOT (mask k) = z - take_bit k z" ..
    have t: "unat (take_bit k z) = unat z mod 2 ^ k"
      by (subst unsigned_take_bit_eq) (simp only: take_bit_eq_mod)
    then have "take_bit k z \<le> z" by (simp add: word_le_nat_alt)
    then show ?thesis unfolding e by (simp only: unat_sub t)
  qed
  ultimately have e: "unat (aligned_addr l m) = unat z - unat z mod 2 ^ k" and z: "unat z = unat m + 2 ^ k - 1"
    by simp_all
  have "2 ^ k dvd unat (aligned_addr l m)" unfolding e by (rule dvd_minus_mod)
  moreover have "unat z mod 2 ^ k < 2 ^ k" "unat z mod 2 ^ k \<le> unat z" by simp_all
  then have "unat m \<le> unat (aligned_addr l m)" "unat (aligned_addr l m) + s \<le> unat m + s + 2 * 2 ^ k"
    unfolding e using z one by linarith+
  ultimately show ?thesis by blast
qed

theorem aligned_addr_inside_witness:
  "aligned_addr 64 1000 = 1024 \<and> unat (aligned_addr 64 1000) + 100 \<le> unat (1000 :: u64) + 100 + 2 * 2 ^ 6"
  using aligned_addr_inside [of 64 6 1000 100] by (simp add: aligned_addr_def)

end
