(* ===== verification/Bench.thy ===== *)
theory Bench
  imports Threads Numeric
begin

text \<open>
  The benchmark program (\<^verbatim>\<open>src/pqbench.cpp\<close>; \<^verbatim>\<open>lib/linden/perf_meas.c\<close> is built the same way): the
  threads, the barrier at the start, the flag that starts and stops the measurement, and the report. The
  queue is a parameter: \<open>ins\<close> and \<open>del\<close> are what the two function pointers do to its state.
\<close>

section \<open>The program\<close>

datatype worker_pc = Unborn | Calling_in | Waiting | Operating | Looping | Finished

datatype main_pc = Creating nat | Barrier | Starting | Sleeping | Stopping | Joining nat | Reporting | Exited

text \<open>\<open>b_ops\<close> is not in the code: the number of operations a thread has done.\<close>

record 'q bench =
  wait_barrier :: int
  loop_flag :: bool
  b_main :: main_pc
  b_worker :: "nat \<Rightarrow> worker_pc"
  b_cnt :: "nat \<Rightarrow> u32"
  b_measure :: "nat \<Rightarrow> int"
  b_queue :: 'q
  b_ops :: "nat \<Rightarrow> nat"

text \<open>What the random numbers of a round select.\<close>

datatype round = Insert u32 | Delete

text \<open>\<^verbatim>\<open>run\<close>: one access of a shared variable per step, the operation on the queue being one.\<close>

definition run_step :: "(u32 \<Rightarrow> 'q \<Rightarrow> 'q) \<Rightarrow> ('q \<Rightarrow> 'q) \<Rightarrow> nat \<Rightarrow> round \<Rightarrow> 'q bench \<Rightarrow> 'q bench option" where
  "run_step ins del i r s = (let goto = (\<lambda>p s. Some (s\<lparr>b_worker := (b_worker s)(i := p)\<rparr>)) in
     case b_worker s i of
       Calling_in \<Rightarrow> goto Waiting (s\<lparr>wait_barrier := wait_barrier s + 1\<rparr>)
     | Waiting \<Rightarrow> (if loop_flag s then goto Operating (s\<lparr>b_cnt := (b_cnt s)(i := 0)\<rparr>) else Some s)
     | Operating \<Rightarrow> goto Looping (s\<lparr>
         b_queue := (case r of Insert v \<Rightarrow> ins v (b_queue s) | Delete \<Rightarrow> del (b_queue s)),
         b_cnt := (b_cnt s)(i := b_cnt s i + 1), b_ops := (b_ops s)(i := b_ops s i + 1)\<rparr>)
     | Looping \<Rightarrow> (if loop_flag s then goto Operating s
         else goto Finished (s\<lparr>b_measure := (b_measure s)(i := sint (b_cnt s i))\<rparr>))
     | _ \<Rightarrow> None)"

text \<open>
  \<^verbatim>\<open>main\<close> from the creation of the threads on; \<open>ok\<close> says whether \<^verbatim>\<open>pthread_create\<close> succeeds, which the
  code does not look at. \<^verbatim>\<open>pthread_join\<close> blocks until the thread has returned.
\<close>

definition main_step :: "nat \<Rightarrow> bool \<Rightarrow> 'q bench \<Rightarrow> 'q bench option" where
  "main_step nthreads ok s = (case b_main s of
       Creating i \<Rightarrow>
         if i < nthreads
         then Some (s\<lparr>b_main := Creating (i + 1), b_worker := (if ok then (b_worker s)(i := Calling_in) else b_worker s)\<rparr>)
         else Some (s\<lparr>b_main := Barrier\<rparr>)
     | Barrier \<Rightarrow> Some (if wait_barrier s \<noteq> int nthreads then s else s\<lparr>b_main := Starting\<rparr>)
     | Starting \<Rightarrow> Some (s\<lparr>b_main := Sleeping, loop_flag := True\<rparr>)
     | Sleeping \<Rightarrow> Some (s\<lparr>b_main := Stopping\<rparr>)
     | Stopping \<Rightarrow> Some (s\<lparr>b_main := Joining 0, loop_flag := False\<rparr>)
     | Joining i \<Rightarrow>
         if i < nthreads then (if b_worker s i = Finished then Some (s\<lparr>b_main := Joining (i + 1)\<rparr>) else None)
         else Some (s\<lparr>b_main := Reporting\<rparr>)
     | Reporting \<Rightarrow> Some (s\<lparr>b_main := Exited\<rparr>)
     | Exited \<Rightarrow> None)"

datatype bench_event = Main bool | Worker nat round

fun bench_step :: "nat \<Rightarrow> (u32 \<Rightarrow> 'q \<Rightarrow> 'q) \<Rightarrow> ('q \<Rightarrow> 'q) \<Rightarrow> bench_event \<Rightarrow> 'q bench \<Rightarrow> 'q bench option" where
  "bench_step n ins del (Main ok) s = main_step n ok s"
| "bench_step n ins del (Worker i r) s = run_step ins del i r s"

definition bench_init :: "'q \<Rightarrow> 'q bench" where
  "bench_init q = \<lparr>wait_barrier = 0, loop_flag = False, b_main = Creating 0, b_worker = (\<lambda>_. Unborn),
     b_cnt = (\<lambda>_. 0), b_measure = (\<lambda>_. 0), b_queue = q, b_ops = (\<lambda>_. 0)\<rparr>"

text \<open>The measures that are printed: sum, minimum, maximum; \<open>None\<close> when the sum leaves the range of \<^verbatim>\<open>int\<close>.\<close>

fun report :: "int list \<Rightarrow> int \<times> int \<times> int \<Rightarrow> (int \<times> int \<times> int) option" where
  "report [] acc = Some acc"
| "report (m # ms) (acc, lo, hi) = do { acc \<leftarrow> c_int (acc + m); report ms (acc, min lo m, max hi m) }"

definition bench_report :: "nat \<Rightarrow> 'q bench \<Rightarrow> (int \<times> int \<times> int) option" where
  "bench_report n s = report (map (b_measure s) [0..<n]) (0, 2 ^ 31 - 1, 0)"

section \<open>The invariant\<close>

fun called_in :: "worker_pc \<Rightarrow> bool" where
  "called_in Unborn = False"
| "called_in Calling_in = False"
| "called_in _ = True"

fun begun :: "worker_pc \<Rightarrow> bool" where
  "begun Operating = True"
| "begun Looping = True"
| "begun Finished = True"
| "begun _ = False"

text \<open>Which threads have been created, and whether \<^verbatim>\<open>main\<close> is past the barrier or past the start.\<close>

fun created :: "main_pc \<Rightarrow> nat \<Rightarrow> nat" where
  "created (Creating k) n = k"
| "created _ n = n"

fun passed :: "main_pc \<Rightarrow> bool" where
  "passed (Creating k) = False"
| "passed Barrier = False"
| "passed _ = True"

fun started :: "main_pc \<Rightarrow> bool" where
  "started Starting = False"
| "started p = passed p"

fun joined :: "main_pc \<Rightarrow> nat \<Rightarrow> nat" where
  "joined (Joining k) n = k"
| "joined Reporting n = n"
| "joined Exited n = n"
| "joined _ n = 0"

definition worker_ok :: "nat \<Rightarrow> main_pc \<Rightarrow> nat \<Rightarrow> worker_pc \<Rightarrow> u32 \<Rightarrow> nat \<Rightarrow> int \<Rightarrow> bool" where
  "worker_ok n m i p c k me \<longleftrightarrow>
     (created m n \<le> i \<longrightarrow> p = Unborn) \<and> (passed m \<longrightarrow> i < n \<longrightarrow> called_in p) \<and> (begun p \<longrightarrow> started m) \<and>
     (i < joined m n \<longrightarrow> p = Finished) \<and> c = of_nat k \<and> (\<not> begun p \<longrightarrow> k = 0) \<and>
     (p = Looping \<or> p = Finished \<longrightarrow> 0 < k) \<and> (p = Finished \<longrightarrow> me = sint c)"

abbreviation wok :: "nat \<Rightarrow> 'q bench \<Rightarrow> nat \<Rightarrow> bool" where
  "wok n s i \<equiv> worker_ok n (b_main s) i (b_worker s i) (b_cnt s i) (b_ops s i) (b_measure s i)"

definition calls :: "nat \<Rightarrow> (nat \<Rightarrow> worker_pc) \<Rightarrow> nat" where
  "calls n w = card {i. i < n \<and> called_in (w i)}"

definition bench_inv :: "nat \<Rightarrow> 'q bench \<Rightarrow> bool" where
  "bench_inv n s \<longleftrightarrow> created (b_main s) n \<le> n \<and> joined (b_main s) n \<le> n \<and> wait_barrier s = int (calls n (b_worker s)) \<and>
     (loop_flag s \<longleftrightarrow> b_main s = Sleeping \<or> b_main s = Stopping) \<and> (\<forall>i. wok n s i)"

lemma bench_invD:
  assumes "bench_inv n s"
  shows "created (b_main s) n \<le> n" "joined (b_main s) n \<le> n" "wait_barrier s = int (calls n (b_worker s))"
    "loop_flag s \<longleftrightarrow> b_main s = Sleeping \<or> b_main s = Stopping" "wok n s i"
  using assms unfolding bench_inv_def by blast+

lemma bench_invI:
  assumes "created (b_main s) n \<le> n" "joined (b_main s) n \<le> n" "wait_barrier s = int (calls n (b_worker s))"
    "loop_flag s \<longleftrightarrow> b_main s = Sleeping \<or> b_main s = Stopping" "\<And>i. wok n s i"
  shows "bench_inv n s"
  using assms unfolding bench_inv_def by blast

lemma calls_one:
  assumes "i < n" "called_in p" "\<not> called_in (w i)"
  shows "calls n (w(i := p)) = Suc (calls n w)"
proof -
  have "{j. j < n \<and> called_in ((w(i := p)) j)} = insert i {j. j < n \<and> called_in (w j)}" using assms by auto
  then have "calls n (w(i := p)) = card (insert i {j. j < n \<and> called_in (w j)})" by (simp only: calls_def)
  also have "\<dots> = Suc (card {j. j < n \<and> called_in (w j)})" by (rule card_insert_disjoint) (use assms(3) in simp_all)
  finally show ?thesis by (simp only: calls_def)
qed

lemma calls_same: "called_in p = called_in (w i) \<Longrightarrow> calls n (w(i := p)) = calls n w"
  unfolding calls_def by (rule arg_cong [where f = card]) auto

lemma calls_all: "calls n w = n \<Longrightarrow> i < n \<Longrightarrow> called_in (w i)"
proof -
  assume c: "calls n w = n" "i < n"
  have "{i. i < n \<and> called_in (w i)} = {..<n}"
    by (rule card_subset_eq) (use c(1) in \<open>auto simp: calls_def\<close>)
  then show ?thesis using c(2) by auto
qed

lemma bench_inv_main:
  assumes inv: "bench_inv n s" and st: "main_step n ok s = Some s'"
  shows "bench_inv n s'"
proof (cases "b_main s")
  case (Creating k)
  show ?thesis
  proof (cases "k < n")
    case True
    have w: "b_worker s k = Unborn" "k \<le> n" using bench_invD(5) [OF inv, of k] bench_invD(1) [OF inv] Creating by (simp_all add: worker_ok_def)
    have same: "calls n ((b_worker s)(k := Calling_in)) = calls n (b_worker s)" by (rule calls_same) (simp add: w)
    have s': "s' = s\<lparr>b_main := Creating (k + 1), b_worker := (if ok then (b_worker s)(k := Calling_in) else b_worker s)\<rparr>"
      using st Creating True by (simp add: main_step_def)
    show ?thesis
    proof (rule bench_invI)
      show "wok n s' i" for i using bench_invD(5) [OF inv, of i] w Creating by (auto simp: s' worker_ok_def)
    qed (use bench_invD [OF inv] Creating True same in \<open>auto simp: s'\<close>)
  next
    case False
    then have s': "s' = s\<lparr>b_main := Barrier\<rparr>" using st Creating by (simp add: main_step_def)
    show ?thesis
    proof (rule bench_invI)
      show "wok n s' i" for i using bench_invD(5) [OF inv, of i] bench_invD(1) [OF inv] False Creating by (auto simp: s' worker_ok_def)
    qed (use bench_invD [OF inv] Creating in \<open>auto simp: s'\<close>)
  qed
next
  case Barrier
  show ?thesis
  proof (cases "wait_barrier s = int n")
    case True
    then have c: "i < n \<Longrightarrow> called_in (b_worker s i)" for i using calls_all bench_invD(3) [OF inv] by simp
    have s': "s' = s\<lparr>b_main := Starting\<rparr>" using st Barrier True by (simp add: main_step_def)
    show ?thesis
    proof (rule bench_invI)
      show "wok n s' i" for i using bench_invD(5) [OF inv, of i] c [of i] Barrier by (auto simp: s' worker_ok_def)
    qed (use bench_invD [OF inv] Barrier in \<open>auto simp: s'\<close>)
  qed (use inv st Barrier in \<open>simp add: main_step_def\<close>)
next
  case Starting
  then have s': "s' = s\<lparr>b_main := Sleeping, loop_flag := True\<rparr>" using st by (simp add: main_step_def)
  show ?thesis
  proof (rule bench_invI)
    show "wok n s' i" for i using bench_invD(5) [OF inv, of i] Starting by (auto simp: s' worker_ok_def)
  qed (use bench_invD [OF inv] Starting in \<open>auto simp: s'\<close>)
next
  case Sleeping
  then have s': "s' = s\<lparr>b_main := Stopping\<rparr>" using st by (simp add: main_step_def)
  show ?thesis
  proof (rule bench_invI)
    show "wok n s' i" for i using bench_invD(5) [OF inv, of i] Sleeping by (auto simp: s' worker_ok_def)
  qed (use bench_invD [OF inv] Sleeping in \<open>auto simp: s'\<close>)
next
  case Stopping
  then have s': "s' = s\<lparr>b_main := Joining 0, loop_flag := False\<rparr>" using st by (simp add: main_step_def)
  show ?thesis
  proof (rule bench_invI)
    show "wok n s' i" for i using bench_invD(5) [OF inv, of i] Stopping by (auto simp: s' worker_ok_def)
  qed (use bench_invD [OF inv] Stopping in \<open>auto simp: s'\<close>)
next
  case (Joining k)
  show ?thesis
  proof (cases "k < n")
    case True
    then have s': "s' = s\<lparr>b_main := Joining (k + 1)\<rparr>" "b_worker s k = Finished" using st Joining by (simp_all add: main_step_def split: if_splits)
    show ?thesis
    proof (rule bench_invI)
      show "wok n s' i" for i using bench_invD(5) [OF inv, of i] Joining s'(2) by (cases "i = k") (auto simp: s'(1) worker_ok_def)
    qed (use bench_invD [OF inv] Joining True in \<open>auto simp: s'(1)\<close>)
  next
    case False
    then have s': "s' = s\<lparr>b_main := Reporting\<rparr>" using st Joining by (simp add: main_step_def)
    show ?thesis
    proof (rule bench_invI)
      show "wok n s' i" for i using bench_invD(5) [OF inv, of i] Joining False by (auto simp: s' worker_ok_def)
    qed (use bench_invD [OF inv] Joining in \<open>auto simp: s'\<close>)
  qed
next
  case Reporting
  then have s': "s' = s\<lparr>b_main := Exited\<rparr>" using st by (simp add: main_step_def)
  show ?thesis
  proof (rule bench_invI)
    show "wok n s' i" for i using bench_invD(5) [OF inv, of i] Reporting by (auto simp: s' worker_ok_def)
  qed (use bench_invD [OF inv] Reporting in \<open>auto simp: s'\<close>)
qed (use st in \<open>simp add: main_step_def\<close>)

lemma bench_inv_worker:
  assumes inv: "bench_inv n s" and st: "run_step ins del i r s = Some s'"
  shows "bench_inv n s'"
proof -
  have ok: "wok n s i" by (rule bench_invD(5) [OF inv])
  have live: "b_worker s i \<noteq> Unborn" using st by (cases "b_worker s i") (simp_all add: run_step_def)
  then have "i < created (b_main s) n" using ok unfolding worker_ok_def by (meson not_le)
  then have n: "i < n" using bench_invD(1) [OF inv] by simp
  have m: "b_main s' = b_main s" "loop_flag s' = loop_flag s"
    and others: "j \<noteq> i \<Longrightarrow> b_worker s' j = b_worker s j \<and> b_cnt s' j = b_cnt s j \<and> b_ops s' j = b_ops s j \<and> b_measure s' j = b_measure s j" for j
    using st by (cases "b_worker s i"; auto simp: run_step_def split: if_splits)+
  have calls: "wait_barrier s' = int (calls n (b_worker s'))"
  proof (cases "b_worker s i")
    case Calling_in
    then have "calls n ((b_worker s)(i := Waiting)) = Suc (calls n (b_worker s))" using n by (intro calls_one) simp_all
    then show ?thesis using st Calling_in bench_invD(3) [OF inv] by (auto simp: run_step_def)
  qed (use st bench_invD(3) [OF inv] calls_same [of _ "b_worker s" i n] in \<open>auto simp: run_step_def split: if_splits\<close>)
  have self: "wok n s' i"
    using ok st m bench_invD(4) [OF inv] unfolding worker_ok_def
    by (cases "b_worker s i") (auto simp: run_step_def split: if_splits)
  show ?thesis
  proof (rule bench_invI)
    show "wok n s' j" for j using self others [of j] bench_invD(5) [OF inv, of j] m by (cases "j = i") simp_all
  qed (use bench_invD(1,2,4) [OF inv] m calls in simp_all)
qed

interpretation bench: machine "bench_step n ins del" "bench_init q" "bench_inv n"
proof
  show "bench_inv n (bench_init q)" by (simp add: bench_inv_def bench_init_def worker_ok_def calls_def)
  show "bench_inv n s \<Longrightarrow> bench_step n ins del e s = Some s' \<Longrightarrow> bench_inv n s'" for s e s'
    by (cases e) (auto intro: bench_inv_main bench_inv_worker)
qed

end
