(* ===== verification/BenchProps.thy ===== *)
theory BenchProps
  imports Bench
begin

text \<open>What the benchmark program does: its barrier, its report, and when it comes to an end.\<close>

section \<open>The report\<close>

lemma report_exact:
  assumes "\<forall>m \<in> set ms. 0 \<le> m" "0 \<le> acc" "acc + sum_list ms < 2 ^ 31"
  shows "report ms (acc, lo, hi) = Some (acc + sum_list ms, fold min ms lo, fold max ms hi)"
  using assms
proof (induction ms arbitrary: acc lo hi)
  case (Cons m ms)
  have "0 \<le> sum_list ms" using Cons.prems(1) by (simp add: sum_list_nonneg)
  then have c: "c_int (acc + m) = Some (acc + m)" using Cons.prems by (simp add: c_int_def)
  then show ?case using Cons.IH [of "acc + m"] Cons.prems by (simp add: min.commute max.commute add.assoc)
qed simp

lemma sint_of_nat: "k < 2 ^ 31 \<Longrightarrow> sint (of_nat k :: u32) = int k"
  by (simp add: signed_of_nat signed_take_bit_int_eq_self)

section \<open>When it ends\<close>

text \<open>
  The program is stuck for good when a thread was not created, and when a thread still waits for the start
  after \<^verbatim>\<open>main\<close> has cleared the flag.
\<close>

definition hung :: "nat \<Rightarrow> 'q bench \<Rightarrow> bool" where
  "hung n s \<longleftrightarrow> (\<exists>i < created (b_main s) n. b_worker s i = Unborn) \<or>
     (\<exists>k i. b_main s = Joining k \<and> i < n \<and> b_worker s i = Waiting)"

fun main_rank :: "nat \<Rightarrow> main_pc \<Rightarrow> nat" where
  "main_rank n (Creating k) = (n - k) + n + 7"
| "main_rank n Barrier = n + 6"
| "main_rank n Starting = n + 5"
| "main_rank n Sleeping = n + 4"
| "main_rank n Stopping = n + 3"
| "main_rank n (Joining k) = (n - k) + 2"
| "main_rank n Reporting = 1"
| "main_rank n Exited = 0"

fun worker_rank :: "worker_pc \<Rightarrow> nat" where
  "worker_rank Unborn = 5"
| "worker_rank Calling_in = 4"
| "worker_rank Waiting = 3"
| "worker_rank Operating = 2"
| "worker_rank Looping = 1"
| "worker_rank Finished = 0"

definition bench_rank :: "nat \<Rightarrow> 'q bench \<Rightarrow> nat" where
  "bench_rank n s = main_rank n (b_main s) + (\<Sum>i<n. worker_rank (b_worker s i))"

lemma sum_rank_upd:
  fixes w :: "nat \<Rightarrow> worker_pc"
  assumes "i < n" "worker_rank p < worker_rank (w i)"
  shows "(\<Sum>j<n. worker_rank ((w(i := p)) j)) < (\<Sum>j<n. worker_rank (w j))"
  by (rule sum_strict_mono_ex1) (use assms in auto)

text \<open>Once stuck, it stays stuck.\<close>

lemma hung_step:
  assumes inv: "bench_inv n s" and h: "hung n s" and st: "bench_step n ins del e s = Some s'"
  shows "hung n s'"
proof (cases e)
  case (Main ok)
  show ?thesis
  proof (cases "\<exists>i < created (b_main s) n. b_worker s i = Unborn")
    case True
    then obtain i where i: "i < created (b_main s) n" "b_worker s i = Unborn" by blast
    have "i < created (b_main s') n \<and> b_worker s' i = Unborn"
      using st i Main bench_invD(1) [OF inv] by (cases "b_main s") (auto simp: main_step_def split: if_splits)
    then show ?thesis unfolding hung_def by blast
  next
    case False
    then obtain k i where k: "b_main s = Joining k" "i < n" "b_worker s i = Waiting" using h unfolding hung_def by blast
    have "\<not> n \<le> k"
    proof
      assume "n \<le> k"
      then have "b_worker s i = Finished" using bench_invD(5) [OF inv, of i] k by (simp add: worker_ok_def)
      then show False using k(3) by simp
    qed
    then have "b_main s' = Joining (k + 1) \<and> b_worker s' i = Waiting"
      using st k Main by (auto simp: main_step_def split: if_splits)
    then show ?thesis unfolding hung_def using k(2) by blast
  qed
next
  case (Worker j r)
  have m: "b_main s' = b_main s" and w: "b_worker s j \<noteq> Unborn" "i \<noteq> j \<Longrightarrow> b_worker s' i = b_worker s i" for i
    using st Worker by (cases "b_worker s j"; auto simp: run_step_def split: if_splits)+
  have "b_worker s' j = Waiting" if "b_main s = Joining k" "b_worker s j = Waiting" for k
    using st Worker that bench_invD(4) [OF inv] by (simp add: run_step_def)
  then show ?thesis using h m w unfolding hung_def by metis
qed

lemma hung_runs: "runs (bench_step n ins del) s s' \<Longrightarrow> bench_inv n s \<Longrightarrow> hung n s \<Longrightarrow> bench_inv n s' \<and> hung n s'"
  by (induction rule: runs.induct) (auto intro: hung_step bench.step)

lemma hung_not_exited:
  assumes "bench_inv n s" "hung n s"
  shows "b_main s \<noteq> Exited"
proof
  assume e: "b_main s = Exited"
  then obtain i where "i < n" "b_worker s i = Unborn" using assms(2) by (auto simp: hung_def)
  then show False using bench_invD(5) [OF assms(1), of i] e by (simp add: worker_ok_def)
qed

text \<open>Otherwise there is a step that brings it closer to the end.\<close>

lemma worker_forward:
  assumes inv: "bench_inv n s" and nh: "\<not> hung n s" and i: "i < n" "b_worker s i \<noteq> Unborn" "b_worker s i \<noteq> Finished"
    and w: "b_worker s i = Waiting \<longrightarrow> loop_flag s" and l: "b_worker s i = Looping \<longrightarrow> \<not> loop_flag s"
    and c: "b_worker s i = Calling_in \<longrightarrow> (\<forall>k. b_main s \<noteq> Joining k)"
  shows "\<exists>e s'. bench_step n ins del e s = Some s' \<and> \<not> hung n s' \<and> bench_rank n s' < bench_rank n s"
proof -
  obtain s' p where s': "run_step ins del i Delete s = Some s'" "b_main s' = b_main s" "b_worker s' = (b_worker s)(i := p)"
    "worker_rank p < worker_rank (b_worker s i)" "p \<noteq> Unborn" "p = Waiting \<longrightarrow> b_worker s i = Calling_in"
    using i w l by (cases "b_worker s i") (auto simp: run_step_def)
  have "bench_rank n s' < bench_rank n s"
    using sum_rank_upd [where w = "b_worker s", OF i(1) s'(4)] s'(2,3) by (simp add: bench_rank_def)
  moreover have "\<not> hung n s'" using nh s' c unfolding hung_def by (auto split: if_splits)
  ultimately show ?thesis using s'(1) by (intro exI [of _ "Worker i Delete"] exI [of _ s']) simp
qed

lemma main_forward:
  assumes "main_step n True s = Some s'" "\<not> hung n s'" "b_worker s' = b_worker s" "main_rank n (b_main s') < main_rank n (b_main s)"
  shows "\<exists>e s'. bench_step n ins del e s = Some s' \<and> \<not> hung n s' \<and> bench_rank n s' < bench_rank n s"
  using assms by (intro exI [of _ "Main True"] exI [of _ s']) (simp add: bench_rank_def)

text \<open>A thread that has not called in, or does not stop, or else \<^verbatim>\<open>main\<close>.\<close>

lemma forward:
  assumes inv: "bench_inv n s" and nh: "\<not> hung n s" and ne: "b_main s \<noteq> Exited"
  shows "\<exists>e s'. bench_step n ins del e s = Some s' \<and> \<not> hung n s' \<and> bench_rank n s' < bench_rank n s"
proof (cases "b_main s")
  case (Creating k)
  have k: "k \<le> n" "b_worker s k = Unborn" using bench_invD(1) [OF inv] bench_invD(5) [OF inv, of k] Creating by (simp_all add: worker_ok_def)
  show ?thesis
  proof (cases "k < n")
    case True
    let ?s = "s\<lparr>b_main := Creating (k + 1), b_worker := (b_worker s)(k := Calling_in)\<rparr>"
    have "main_step n True s = Some ?s" using Creating True by (simp add: main_step_def)
    moreover have "\<not> hung n ?s" using nh Creating by (auto simp: hung_def less_Suc_eq)
    moreover have "bench_rank n ?s < bench_rank n s"
      using sum_rank_upd [where w = "b_worker s" and p = Calling_in, OF True] k True Creating by (simp add: bench_rank_def)
    ultimately show ?thesis by (intro exI [of _ "Main True"] exI [of _ ?s]) simp
  next
    case False
    show ?thesis
      by (rule main_forward [of n s "s\<lparr>b_main := Barrier\<rparr>"])
         (use Creating False nh k in \<open>auto simp: main_step_def hung_def\<close>)
  qed
next
  case Barrier
  then have live: "i < n \<Longrightarrow> b_worker s i \<noteq> Unborn" for i using nh by (auto simp: hung_def)
  show ?thesis
  proof (cases "\<exists>i<n. b_worker s i = Calling_in")
    case True
    then obtain i where "i < n" "b_worker s i = Calling_in" by blast
    then show ?thesis using Barrier by (intro worker_forward [OF inv nh]) auto
  next
    case False
    then have "called_in (b_worker s i)" if "i < n" for i using live [OF that] that by (cases "b_worker s i") auto
    then have "{i. i < n \<and> called_in (b_worker s i)} = {..<n}" by auto
    then have "wait_barrier s = int n" using bench_invD(3) [OF inv] by (simp add: calls_def)
    then show ?thesis using Barrier nh by (intro main_forward [of n s "s\<lparr>b_main := Starting\<rparr>"]) (auto simp: main_step_def hung_def)
  qed
next
  case Starting
  then show ?thesis using nh
    by (intro main_forward [of n s "s\<lparr>b_main := Sleeping, loop_flag := True\<rparr>"]) (auto simp: main_step_def hung_def)
next
  case Sleeping
  then show ?thesis using nh
    by (intro main_forward [of n s "s\<lparr>b_main := Stopping\<rparr>"]) (auto simp: main_step_def hung_def)
next
  case Stopping
  show ?thesis
  proof (cases "\<exists>i<n. b_worker s i = Waiting")
    case True
    then obtain i where i: "i < n" "b_worker s i = Waiting" by blast
    moreover have "loop_flag s" using bench_invD(4) [OF inv] Stopping by simp
    ultimately show ?thesis by (intro worker_forward [OF inv nh]) auto
  next
    case False
    then show ?thesis using nh Stopping
      by (intro main_forward [of n s "s\<lparr>b_main := Joining 0, loop_flag := False\<rparr>"]) (auto simp: main_step_def hung_def)
  qed
next
  case (Joining k)
  show ?thesis
  proof (cases "k < n \<and> b_worker s k \<noteq> Finished")
    case True
    moreover have "called_in (b_worker s k)" "\<not> loop_flag s"
      using bench_invD(4) [OF inv] bench_invD(5) [OF inv, of k] Joining True by (simp_all add: worker_ok_def)
    moreover have "b_worker s k \<noteq> Waiting" using nh Joining True by (auto simp: hung_def)
    ultimately show ?thesis by (intro worker_forward [OF inv nh, of k]) auto
  next
    case False
    show ?thesis
    proof (cases "k < n")
      case True
      then show ?thesis using nh Joining False
        by (intro main_forward [of n s "s\<lparr>b_main := Joining (k + 1)\<rparr>"]) (auto simp: main_step_def hung_def)
    next
      case ge: False
      then show ?thesis using nh Joining
        by (intro main_forward [of n s "s\<lparr>b_main := Reporting\<rparr>"]) (auto simp: main_step_def hung_def)
    qed
  qed
next
  case Reporting
  then show ?thesis using nh
    by (intro main_forward [of n s "s\<lparr>b_main := Exited\<rparr>"]) (auto simp: main_step_def hung_def)
qed (use ne in simp)

lemma finish:
  assumes "bench_inv n s" "\<not> hung n s"
  shows "\<exists>s'. runs (bench_step n ins del) s s' \<and> b_main s' = Exited"
  using assms
proof (induction "bench_rank n s" arbitrary: s rule: less_induct)
  case less
  show ?case
  proof (cases "b_main s = Exited")
    case False
    obtain e s1 where s1: "bench_step n ins del e s = Some s1" "\<not> hung n s1" "bench_rank n s1 < bench_rank n s"
      using forward [OF less.prems False, of ins del] by blast
    obtain s' where "runs (bench_step n ins del) s1 s'" "b_main s' = Exited"
      using less.hyps [OF s1(3) bench.step [OF less.prems(1) s1(1)] s1(2)] by blast
    then show ?thesis using runs_Cons [of "bench_step n ins del", OF s1(1)] by blast
  qed auto
qed

section \<open>Properties\<close>

text \<open>
  C18. No thread touches the queue before every thread has called in and \<^verbatim>\<open>main\<close> has given the start: the barrier
  counts exactly the threads that have called in.
\<close>

theorem bench_start_together:
  assumes "runs (bench_step n ins del) (bench_init q) s"
  shows "wait_barrier s = int (card {j. j < n \<and> called_in (b_worker s j)}) \<and>
    (0 < b_ops s i \<longrightarrow> wait_barrier s = int n \<and> started (b_main s) \<and> (\<forall>j<n. called_in (b_worker s j)))"
proof -
  have inv: "bench_inv n s" by (rule bench.reachable [OF assms])
  have "0 < b_ops s i \<Longrightarrow> started (b_main s)" using bench_invD(5) [OF inv, of i] by (auto simp: worker_ok_def)
  moreover have "started (b_main s) \<Longrightarrow> j < n \<Longrightarrow> called_in (b_worker s j)" for j
    using bench_invD(5) [OF inv, of j] by (cases "b_main s") (auto simp: worker_ok_def)
  moreover have "\<forall>j<n. called_in (b_worker s j) \<Longrightarrow> {j. j < n \<and> called_in (b_worker s j)} = {..<n}" by auto
  ultimately show ?thesis using bench_invD(3) [OF inv] by (auto simp: calls_def)
qed

text \<open>The run of the witnesses: one thread that does one insertion, then the end.\<close>

definition short_run :: "bench_event list" where
  "short_run = [Main True, Main True, Worker 0 Delete, Main True, Main True, Worker 0 Delete, Worker 0 (Insert 5), Main True,
     Main True, Worker 0 Delete, Main True, Main True, Main True]"

lemma short_run_exec:
  "\<exists>s. runs (bench_step 1 (#) tl) (bench_init []) s \<and> b_main s = Exited \<and> b_ops s 0 = 1 \<and> b_queue s = [5]"
proof -
  have "exec (bench_step 1 (#) tl) short_run (bench_init []) \<noteq> None"
    by (simp add: short_run_def main_step_def run_step_def bench_init_def)
  then obtain s where s: "exec (bench_step 1 (#) tl) short_run (bench_init []) = Some s" by blast
  then have "b_main s = Exited" "b_ops s 0 = 1" "b_queue s = [5]"
    by (auto simp: short_run_def main_step_def run_step_def bench_init_def)
  then show ?thesis using exec_runs [OF s] by blast
qed

theorem bench_start_together_witness: "\<exists>s. runs (bench_step 1 (#) tl) (bench_init []) s \<and> wait_barrier s = 1 \<and> 0 < b_ops s 0"
proof -
  obtain s where s: "runs (bench_step 1 (#) tl) (bench_init []) s" "b_ops s 0 = 1" using short_run_exec by blast
  show ?thesis using bench_start_together [OF s(1), of 0] s by auto
qed

text \<open>
  C19. When the program ends, the three numbers it prints are the sum, the minimum and the maximum of the numbers
  of operations the threads have done, and every thread has done at least one; provided the sum fits an
  \<^verbatim>\<open>int\<close>.
\<close>

theorem bench_report_exact:
  assumes "runs (bench_step n ins del) (bench_init q) s" "b_main s = Exited" "0 < n" "(\<Sum>i<n. b_ops s i) < 2 ^ 31"
  shows "bench_report n s = Some (int (\<Sum>i<n. b_ops s i), int (Min (b_ops s ` {..<n})), int (Max (b_ops s ` {..<n}))) \<and>
    (\<forall>i<n. 0 < b_ops s i)"
proof
  have inv: "bench_inv n s" by (rule bench.reachable [OF assms(1)])
  have fin: "b_worker s i = Finished" if "i < n" for i using bench_invD(5) [OF inv, of i] assms(2) that by (simp add: worker_ok_def)
  have le: "b_ops s i < 2 ^ 31" if "i < n" for i
    using member_le_sum [of i "{..<n}" "b_ops s"] that assms(4) by simp
  show "\<forall>i<n. 0 < b_ops s i" using fin bench_invD(5) [OF inv] by (auto simp: worker_ok_def)
  have m: "b_measure s i = int (b_ops s i)" if "i < n" for i
    using bench_invD(5) [OF inv, of i] fin [OF that] sint_of_nat [OF le [OF that]] by (simp add: worker_ok_def)
  let ?ms = "map (\<lambda>i. int (b_ops s i)) [0..<n]"
  have ms: "map (b_measure s) [0..<n] = ?ms" using m by simp
  have total: "sum_list ?ms = int (\<Sum>i<n. b_ops s i)" by (simp add: interv_sum_list_conv_sum_set_nat lessThan_atLeast0)
  have "int (\<Sum>i<n. b_ops s i) < int (2 ^ 31)" using assms(4) by (simp only: of_nat_less_iff)
  then have "(\<Sum>i<n. int (b_ops s i)) < 2 ^ 31" by simp
  then have rep: "bench_report n s = Some (sum_list ?ms, fold min ?ms (2 ^ 31 - 1), fold max ?ms 0)"
    unfolding bench_report_def ms using total by (subst report_exact) simp_all
  have img: "set ?ms = int ` (b_ops s ` {..<n})" by (auto simp: image_image)
  have ne: "b_ops s ` {..<n} \<noteq> {}" "finite (b_ops s ` {..<n})" using assms(3) by auto
  have "fold min ?ms (2 ^ 31 - 1) = Min (insert (2 ^ 31 - 1) (set ?ms))" by (metis Min.set_eq_fold list.simps(15))
  also have "\<dots> = min (2 ^ 31 - 1) (Min (set ?ms))" using ne unfolding img by (intro Min_insert) simp_all
  also have "Min (set ?ms) = int (Min (b_ops s ` {..<n}))" unfolding img using ne by (intro mono_Min_commute [symmetric]) (auto simp: mono_def)
  also have "min (2 ^ 31 - 1) (int (Min (b_ops s ` {..<n}))) = int (Min (b_ops s ` {..<n}))"
  proof -
    have "Min (b_ops s ` {..<n}) \<in> b_ops s ` {..<n}" using ne by simp
    then have "Min (b_ops s ` {..<n}) < 2 ^ 31" using le by auto
    then have "int (Min (b_ops s ` {..<n})) < int (2 ^ 31)" by (simp only: of_nat_less_iff)
    then show ?thesis by simp
  qed
  finally have lo: "fold min ?ms (2 ^ 31 - 1) = int (Min (b_ops s ` {..<n}))" .
  have "fold max ?ms 0 = Max (insert 0 (set ?ms))" by (metis Max.set_eq_fold list.simps(15))
  also have "\<dots> = max 0 (Max (set ?ms))" using ne unfolding img by (intro Max_insert) simp_all
  also have "Max (set ?ms) = int (Max (b_ops s ` {..<n}))" unfolding img using ne by (intro mono_Max_commute [symmetric]) (auto simp: mono_def)
  finally have hi: "fold max ?ms 0 = int (Max (b_ops s ` {..<n}))" by simp
  show "bench_report n s = Some (int (\<Sum>i<n. b_ops s i), int (Min (b_ops s ` {..<n})), int (Max (b_ops s ` {..<n})))"
    unfolding rep total lo hi ..
qed

theorem bench_report_exact_witness:
  "\<exists>s. runs (bench_step 1 (#) tl) (bench_init []) s \<and> bench_report 1 s = Some (1, 1, 1)"
proof -
  obtain s where s: "runs (bench_step 1 (#) tl) (bench_init []) s" "b_main s = Exited" "b_ops s 0 = 1" using short_run_exec by blast
  have "{..<1 :: nat} = {0}" by auto
  then show ?thesis using bench_report_exact [OF s(1,2)] s by auto
qed

text \<open>
  C20. From every reachable state the program can still come to its end, except from two kinds: a thread could not
  be created, or a thread was still waiting for the start when \<^verbatim>\<open>main\<close> cleared the flag. From those no
  schedule leads to the end.
\<close>

theorem bench_finishes_iff:
  assumes "runs (bench_step n ins del) (bench_init q) s"
  shows "(\<exists>s'. runs (bench_step n ins del) s s' \<and> b_main s' = Exited) \<longleftrightarrow>
    \<not> ((\<exists>i < created (b_main s) n. b_worker s i = Unborn) \<or> (\<exists>k i. b_main s = Joining k \<and> i < n \<and> b_worker s i = Waiting))"
proof -
  have inv: "bench_inv n s" by (rule bench.reachable [OF assms])
  have "\<not> hung n s \<longleftrightarrow> (\<exists>s'. runs (bench_step n ins del) s s' \<and> b_main s' = Exited)"
    using finish [OF inv] hung_runs [OF _ inv] hung_not_exited by metis
  then show ?thesis unfolding hung_def by blast
qed

theorem bench_finishes_iff_witness:
  "\<exists>s'. runs (bench_step 3 (#) tl) (bench_init []) s' \<and> b_main s' = Exited"
  using bench_finishes_iff [of 3 "(#)" tl "[]", OF runs_refl] by (simp add: bench_init_def)

text \<open>
  The start signal can be missed: a thread that has called in but does not look at the flag while it is set
  waits for ever, and \<^verbatim>\<open>main\<close> waits for it.
\<close>

theorem bench_can_hang:
  "\<exists>s. runs (bench_step 1 ins del) (bench_init q) s \<and> b_worker s 0 = Waiting \<and> b_main s = Joining 0 \<and>
    (\<forall>s'. runs (bench_step 1 ins del) s s' \<longrightarrow> b_main s' \<noteq> Exited)"
proof -
  let ?es = "[Main True, Main True, Worker 0 Delete, Main True, Main True, Main True, Main True]"
  have "exec (bench_step 1 ins del) ?es (bench_init q) \<noteq> None" by (simp add: main_step_def run_step_def bench_init_def)
  then obtain s where s: "exec (bench_step 1 ins del) ?es (bench_init q) = Some s" by blast
  then have w: "b_worker s 0 = Waiting" "b_main s = Joining 0" by (auto simp: main_step_def run_step_def bench_init_def)
  note r = exec_runs [OF s]
  have "hung 1 s" using w by (auto simp: hung_def)
  then show ?thesis using r w hung_runs [OF _ bench.reachable [OF r]] hung_not_exited by blast
qed

end
