(* ===== verification/SL_Alloc.thy ===== *)
theory SL_Alloc
  imports Prelude
begin

text \<open>
  The allocator of the spraylist (\<^verbatim>\<open>lib/spraylist/ssalloc.c\<close>) and the contract its clients rely
  on. Two builds exist: with \<^verbatim>\<open>SSALLOC_USE_MALLOC\<close> (the benchmark of this repository) every call
  goes to \<^verbatim>\<open>malloc\<close> and \<^verbatim>\<open>free\<close>; without it (the Makefile of the spraylist) each thread cuts blocks
  off an arena and keeps freed blocks in a ring of 256 slots.
\<close>

section \<open>Definitions\<close>

definition SSALLOC_SIZE :: u64 where
  "SSALLOC_SIZE = 1024 * 1024 * 1024"

text \<open>
  \<^verbatim>\<open>malloc\<close> is a parameter: what it returns may depend on the size and on every call so far.
\<close>

datatype mal_event = Malloc u64 ptr | Free ptr

record ssalloc_st =
  use_malloc :: bool
  mal_pick :: "mal_event list \<Rightarrow> u64 \<Rightarrow> ptr"
  mal_hist :: "mal_event list"
  app_mem :: "nat \<Rightarrow> ptr"
  alloc_next :: "nat \<Rightarrow> u64"
  free_list :: "nat \<Rightarrow> ptr list"
  free_cur :: "nat \<Rightarrow> u8"
  free_num :: "nat \<Rightarrow> u8"

definition c_malloc :: "u64 \<Rightarrow> ssalloc_st \<Rightarrow> ptr \<times> ssalloc_st" where
  "c_malloc n al = (let ret = mal_pick al (mal_hist al) n
     in (ret, al\<lparr>mal_hist := mal_hist al @ [Malloc n ret]\<rparr>))"

definition c_free :: "ptr \<Rightarrow> ssalloc_st \<Rightarrow> ssalloc_st" where
  "c_free p al = al\<lparr>mal_hist := mal_hist al @ [Free p]\<rparr>"

definition ssalloc_set :: "ptr \<Rightarrow> ssalloc_st \<Rightarrow> ssalloc_st" where
  "ssalloc_set mem al = (if use_malloc al then al else al\<lparr>app_mem := (app_mem al)(0 := mem)\<rparr>)"

text \<open>\<open>m0\<close> and \<open>m1\<close> are what the two calls of \<^verbatim>\<open>memalign\<close> return; the assertion rejects NULL.\<close>

definition ssalloc_init :: "ptr \<Rightarrow> ptr \<Rightarrow> ssalloc_st \<Rightarrow> ssalloc_st option" where
  "ssalloc_init m0 m1 al =
     (if use_malloc al then Some al
      else if m0 = 0 \<or> m1 = 0 then None
      else Some (al\<lparr>app_mem := (app_mem al)(0 := m0, 1 := m1)\<rparr>))"

lemma unat_Suc_mod_64: "unat (n + 1 :: u64) mod 64 = (unat n mod 64 + 1) mod 64"
proof -
  have "unat (n + 1) = (unat n + 1) mod 2 ^ 64" by (simp add: unat_word_ariths)
  then have "unat (n + 1) mod 64 = (unat n + 1) mod 64" by (simp add: mod_mod_cancel)
  then show ?thesis by (simp add: mod_Suc_eq)
qed

lemma word_mod_64: "(n :: u64) mod 64 = 0 \<longleftrightarrow> unat n mod 64 = 0"
  by (simp add: unat_mod word_unat_eq_iff)

function align_loop :: "u64 \<Rightarrow> u64" where
  "align_loop n = (if n mod 64 = 0 then n else align_loop (n + 1))"
  by pat_completeness auto
termination
proof (relation "measure (\<lambda>n. if unat n mod 64 = 0 then 0 else 64 - unat n mod 64)")
  fix n :: u64
  assume "n mod 64 \<noteq> 0"
  then have n: "unat n mod 64 \<noteq> 0" by (simp add: word_mod_64)
  have "unat n mod 64 < 64" by simp
  then show "(n + 1, n) \<in> measure (\<lambda>n. if unat n mod 64 = 0 then 0 else 64 - unat n mod 64)"
    using n unat_Suc_mod_64 [of n] by (cases "unat n mod 64 = 63") auto
qed simp

declare align_loop.simps [simp del]

definition ssalloc_align_alloc :: "nat \<Rightarrow> ssalloc_st \<Rightarrow> ssalloc_st" where
  "ssalloc_align_alloc i al = (if use_malloc al then al
     else al\<lparr>alloc_next := (alloc_next al)(i := align_loop (alloc_next al i))\<rparr>)"

definition ssalloc_align :: "ssalloc_st \<Rightarrow> ssalloc_st" where
  "ssalloc_align al = (if use_malloc al then al
     else al\<lparr>alloc_next := (alloc_next al)(0 := align_loop (alloc_next al 0), 1 := align_loop (alloc_next al 1))\<rparr>)"

definition ssalloc_offset :: "u64 \<Rightarrow> ssalloc_st \<Rightarrow> ssalloc_st" where
  "ssalloc_offset sz al = (if use_malloc al then al
     else al\<lparr>app_mem := (app_mem al)(0 := app_mem al 0 + sz)\<rparr>)"

text \<open>
  \<^verbatim>\<open>ssalloc_alloc\<close>: when more than two blocks are in the ring the oldest is reused, whatever its
  size; otherwise the block is cut off the arena, and a warning is all that happens past its end.
\<close>

definition ssalloc_alloc :: "nat \<Rightarrow> u64 \<Rightarrow> ssalloc_st \<Rightarrow> ptr \<times> ssalloc_st" where
  "ssalloc_alloc i sz al =
     (if use_malloc al then c_malloc sz al
      else if free_num al i > 2 then
        (let spot = free_cur al i - free_num al i; ret = free_list al i ! unat spot
         in (ret, al\<lparr>free_num := (free_num al)(i := free_num al i - 1)\<rparr>))
      else
        (let ret = app_mem al i + alloc_next al i
         in (ret, al\<lparr>alloc_next := (alloc_next al)(i := alloc_next al i + sz)\<rparr>)))"

definition oob_warning :: "nat \<Rightarrow> u64 \<Rightarrow> ssalloc_st \<Rightarrow> bool" where
  "oob_warning i sz al \<longleftrightarrow>
     \<not> use_malloc al \<and> \<not> free_num al i > 2 \<and> alloc_next al i + sz > SSALLOC_SIZE"

definition ssalloc :: "u64 \<Rightarrow> ssalloc_st \<Rightarrow> ptr \<times> ssalloc_st" where
  "ssalloc sz al = ssalloc_alloc 0 sz al"

definition ssfree_alloc :: "nat \<Rightarrow> ptr \<Rightarrow> ssalloc_st \<Rightarrow> ssalloc_st" where
  "ssfree_alloc i p al =
     (if use_malloc al then c_free p al
      else al\<lparr>free_num := (free_num al)(i := free_num al i + 1),
              free_list := (free_list al)(i := (free_list al i)[unat (free_cur al i) := p]),
              free_cur := (free_cur al)(i := free_cur al i + 1)\<rparr>)"

definition ssfree :: "ptr \<Rightarrow> ssalloc_st \<Rightarrow> ssalloc_st" where
  "ssfree p al = ssfree_alloc 0 p al"

section \<open>The contract\<close>

text \<open>
  \<open>ok al L m\<close>: the blocks \<open>L\<close> are the node blocks in use, all of \<open>ns\<close> bytes and pairwise disjoint,
  and \<open>m\<close> more calls are certain to succeed. Arrays come from allocator 0, nodes from allocator 1.
\<close>

definition disj_blocks :: "nat \<Rightarrow> ptr \<Rightarrow> ptr \<Rightarrow> bool" where
  "disj_blocks ns a b \<longleftrightarrow> unat a + ns \<le> unat b \<or> unat b + ns \<le> unat a"

locale node_alloc =
  fixes ns :: u64
    and ok :: "ssalloc_st \<Rightarrow> ptr set \<Rightarrow> nat \<Rightarrow> bool"
    and arr :: "ptr \<Rightarrow> ptr set \<Rightarrow> bool"
  assumes less: "ok al L m \<Longrightarrow> k \<le> m \<Longrightarrow> ok al L k"
    and arr_mono: "arr p L \<Longrightarrow> K \<subseteq> L \<Longrightarrow> arr p K"
    and array: "ok al L (Suc m) \<Longrightarrow> ssalloc n al = (p, al') \<Longrightarrow> arr p L \<and> ok al' L m"
    and free_array: "ok al L (Suc m) \<Longrightarrow> arr p L \<Longrightarrow> ok (ssfree p al) L m"
    and node: "ok al L (Suc m) \<Longrightarrow> ssalloc_alloc 1 ns al = (p, al') \<Longrightarrow>
      p \<notin> L \<and> valid_addr p \<and> ok al' (insert p L) m"
    and free_node: "ok al L (Suc m) \<Longrightarrow> p \<in> L \<Longrightarrow> ok (ssfree_alloc 1 p al) (L - {p}) m"
begin

text \<open>A client that takes an array, or two, and gives them back leaves the node blocks as they are.\<close>

lemma one_array:
  assumes "ok al L (Suc (Suc m))" "ssalloc n al = (p, al1)"
  shows "ok (ssfree p al1) L m"
  using array [OF assms] free_array by blast

lemma two_arrays:
  assumes "ok al L (Suc (Suc (Suc (Suc m))))" "ssalloc n al = (p, al1)" "ssalloc k al1 = (q, al2)"
  shows "ok (ssfree q (ssfree p al2)) L m"
  using array [OF assms(1,2)] array [OF _ assms(3)] free_array by blast

text \<open>A node that is given back while the arrays are in use leaves the other blocks as they are.\<close>

lemma node_back:
  assumes "ok al L (m + 6)" "ssalloc_alloc 1 ns al = (a, al1)" "ssalloc n al1 = (p, al2)" "ssalloc k al2 = (q, al3)"
  shows "ok (ssfree q (ssfree p (ssfree_alloc 1 a al3))) L m"
proof -
  have 1: "a \<notin> L" "ok al1 (insert a L) (Suc (m + 4))" using node [OF _ assms(2)] assms(1) by (simp_all add: numeral_eq_Suc)
  have 2: "arr p (insert a L)" "ok al2 (insert a L) (Suc (m + 3))" using array [OF 1(2) assms(3)] by (simp_all add: numeral_eq_Suc)
  have 3: "arr q (insert a L)" "ok al3 (insert a L) (Suc (m + 2))" using array [OF 2(2) assms(4)] by (simp_all add: numeral_eq_Suc)
  have "ok (ssfree_alloc 1 a al3) (insert a L - {a}) (m + 2)" by (rule free_node [OF 3(2)]) simp
  then have "ok (ssfree_alloc 1 a al3) L (Suc (Suc m))" using 1(1) by simp
  then show ?thesis using free_array arr_mono [OF 2(1), of L] arr_mono [OF 3(1), of L] by (meson subset_insertI)
qed

lemma node_kept:
  assumes "ok al L (m + 6)" "ssalloc_alloc 1 ns al = (a, al1)" "ssalloc n al1 = (p, al2)" "ssalloc k al2 = (q, al3)"
  shows "a \<notin> L \<and> valid_addr a \<and> ok (ssfree q (ssfree p al3)) (insert a L) (Suc m)"
proof -
  have 1: "a \<notin> L" "valid_addr a" "ok al1 (insert a L) (Suc (Suc (Suc (Suc (Suc m)))))"
    using node [OF _ assms(2)] assms(1) by (simp_all add: numeral_eq_Suc)
  then show ?thesis using two_arrays [OF 1(3) assms(3,4)] by blast
qed

end

section \<open>The ring of freed blocks\<close>

text \<open>The blocks that can still be taken from the ring, oldest first.\<close>

definition ring_blocks :: "nat \<Rightarrow> ssalloc_st \<Rightarrow> ptr list" where
  "ring_blocks i al = map (\<lambda>k. free_list al i ! unat (free_cur al i - free_num al i + of_nat k))
     [0..<unat (free_num al i)]"

lemma ring_take:
  assumes "\<not> use_malloc al" "free_num al i > 2" "ssalloc_alloc i sz al = (p, al')"
  shows "ring_blocks i al = p # ring_blocks i al' \<and> alloc_next al' = alloc_next al \<and> app_mem al' = app_mem al
    \<and> \<not> use_malloc al' \<and> free_list al' = free_list al"
proof -
  let ?n = "free_num al i" and ?c = "free_cur al i"
  have n0: "?n \<noteq> 0" using assms(2) by auto
  then have u: "unat ?n = Suc (unat (?n - 1))" using unat_minus_one [of ?n] unat_gt_0 [of ?n] by linarith
  have p: "p = free_list al i ! unat (?c - ?n)" and al': "al' = al\<lparr>free_num := (free_num al)(i := ?n - 1)\<rparr>"
    using assms by (simp_all add: ssalloc_alloc_def Let_def)
  have "[0..<Suc j] = 0 # map Suc [0..<j]" for j by (simp add: map_Suc_upt upt_conv_Cons del: upt_Suc)
  then have "ring_blocks i al = free_list al i ! unat (?c - ?n) #
      map (\<lambda>k. free_list al i ! unat (?c - ?n + of_nat (Suc k))) [0..<unat (?n - 1)]"
    unfolding ring_blocks_def u by simp
  moreover have "?c - ?n + of_nat (Suc k) = ?c - (?n - 1) + of_nat k" for k by simp
  ultimately have "ring_blocks i al = free_list al i ! unat (?c - ?n) #
      map (\<lambda>k. free_list al i ! unat (?c - (?n - 1) + of_nat k)) [0..<unat (?n - 1)]"
    by (simp only:)
  then show ?thesis using assms(1) by (simp add: ring_blocks_def p al')
qed

lemma ring_put:
  assumes "\<not> use_malloc al" "length (free_list al i) = 256" "al' = ssfree_alloc i p al"
  shows "ring_blocks i al' = (if free_num al i = 255 then [] else ring_blocks i al @ [p]) \<and>
    length (free_list al' i) = 256"
proof -
  let ?n = "free_num al i" and ?c = "free_cur al i"
  have al': "free_num al' i = ?n + 1" "free_cur al' i = ?c + 1" "free_list al' i = (free_list al i)[unat ?c := p]"
    using assms by (simp_all add: ssfree_alloc_def)
  have sub: "?c + 1 - (?n + 1) = ?c - ?n" by simp
  show ?thesis
  proof (cases "?n = 255")
    case True
    then show ?thesis using al' assms(2) by (simp add: ring_blocks_def)
  next
    case False
    have lt: "unat ?n < 255"
    proof -
      have "unat ?n < 2 ^ 8" using unsigned_less [of ?n] by simp
      moreover have "unat ?n \<noteq> 255" using False by (simp add: word_unat_eq_iff)
      ultimately show ?thesis by simp
    qed
    then have u: "unat (?n + 1) = Suc (unat ?n)" by (simp add: unat_word_ariths)
    have c: "unat ?c < length (free_list al i)" using assms(2) unsigned_less [of ?c] by simp
    have ne: "unat (?c - ?n + of_nat k) \<noteq> unat ?c" if "k < unat ?n" for k
    proof
      assume "unat (?c - ?n + of_nat k) = unat ?c"
      then have "?c - ?n + of_nat k = ?c" by (simp add: word_unat_eq_iff)
      then have "(of_nat k :: u8) = ?n" by (simp add: algebra_simps)
      then have "unat (of_nat k :: u8) = unat ?n" by simp
      moreover have "unat (of_nat k :: u8) = k" using that lt by (simp add: unat_of_nat)
      ultimately show False using that by simp
    qed
    have "ring_blocks i al' = map (\<lambda>k. (free_list al i)[unat ?c := p] ! unat (?c - ?n + of_nat k)) [0..<unat ?n]
        @ [(free_list al i)[unat ?c := p] ! unat (?c - ?n + of_nat (unat ?n))]"
      unfolding ring_blocks_def al' sub u by simp
    also have "map (\<lambda>k. (free_list al i)[unat ?c := p] ! unat (?c - ?n + of_nat k)) [0..<unat ?n] = ring_blocks i al"
      unfolding ring_blocks_def by (rule map_cong) (simp_all add: nth_list_update_neq ne [THEN not_sym])
    also have "(free_list al i)[unat ?c := p] ! unat (?c - ?n + of_nat (unat ?n)) = p"
      using c by simp
    finally show ?thesis using False al' assms(2) by simp
  qed
qed

section \<open>The arena\<close>

text \<open>
  The ring build: node blocks in use and in the ring lie in the used part of the arena, pairwise
  disjoint, and the arena has room for \<open>m\<close> more.
\<close>

definition in_arena :: "ssalloc_st \<Rightarrow> nat \<Rightarrow> ptr \<Rightarrow> bool" where
  "in_arena al ns a \<longleftrightarrow> unat (app_mem al 1) \<le> unat a \<and>
     unat a + ns \<le> unat (app_mem al 1) + unat (alloc_next al 1) \<and> unat a mod 64 = 0"

definition ring_ok :: "u64 \<Rightarrow> ssalloc_st \<Rightarrow> ptr set \<Rightarrow> nat \<Rightarrow> bool" where
  "ring_ok ns al L m \<longleftrightarrow> \<not> use_malloc al \<and> 0 < unat ns \<and> unat ns mod 64 = 0 \<and>
     length (free_list al 1) = 256 \<and>
     64 \<le> unat (app_mem al 1) \<and> unat (app_mem al 1) mod 64 = 0 \<and> unat (alloc_next al 1) mod 64 = 0 \<and>
     unat (app_mem al 1) + 2 ^ 30 < 2 ^ 64 \<and> unat (alloc_next al 1) + m * unat ns \<le> 2 ^ 30 \<and>
     (\<forall>a \<in> L \<union> set (ring_blocks 1 al). in_arena al (unat ns) a) \<and>
     distinct (ring_blocks 1 al) \<and> L \<inter> set (ring_blocks 1 al) = {} \<and>
     (\<forall>a \<in> L \<union> set (ring_blocks 1 al). \<forall>b \<in> L \<union> set (ring_blocks 1 al). a \<noteq> b \<longrightarrow> disj_blocks (unat ns) a b)"

lemma valid_addr_64: "unat a mod 64 = 0 \<Longrightarrow> 0 < unat a \<Longrightarrow> valid_addr a"
proof -
  assume a: "unat a mod 64 = 0" "0 < unat a"
  have "even (unat a)" using a(1) by presburger
  then have "\<not> bit (unat a) 0" by (simp add: bit_0)
  then have "\<not> bit a 0" by (simp add: bit_unsigned_iff)
  then show "valid_addr a" using a(2) by (auto simp: valid_addr_def is_marked_ref_bit)
qed

lemma ring_alloc_1:
  assumes ok: "ring_ok ns al L (Suc m)" and p: "ssalloc_alloc 1 ns al = (p, al')"
  shows "p \<notin> L \<and> (\<forall>a \<in> L. disj_blocks (unat ns) p a) \<and> valid_addr p \<and> ring_ok ns al' (insert p L) m"
proof (cases "free_num al 1 > 2")
  case True
  have nm: "\<not> use_malloc al" using ok by (simp add: ring_ok_def)
  have t: "ring_blocks 1 al = p # ring_blocks 1 al'" "alloc_next al' = alloc_next al" "app_mem al' = app_mem al"
    "\<not> use_malloc al'" "free_list al' = free_list al"
    using ring_take [OF nm True p] by blast+
  have pn: "p \<notin> L" using ok t(1) by (auto simp: ring_ok_def)
  have ia: "in_arena al' (unat ns) a \<longleftrightarrow> in_arena al (unat ns) a" for a by (simp add: in_arena_def t)
  have ar: "in_arena al (unat ns) p" using ok t(1) by (simp add: ring_ok_def)
  then have "valid_addr p" using ok by (intro valid_addr_64) (simp_all add: in_arena_def ring_ok_def)
  moreover have "\<forall>a \<in> L. disj_blocks (unat ns) p a" using ok pn unfolding ring_ok_def t(1) by auto
  moreover have "insert p L \<union> set (ring_blocks 1 al') = L \<union> set (ring_blocks 1 al)" by (simp add: t(1) del: One_nat_def)
  then have "ring_ok ns al' (insert p L) m"
    using ok pn unfolding ring_ok_def t(2-5) ia by (auto simp: t(1,4) simp del: One_nat_def)
  ultimately show ?thesis using pn by blast
next
  case False
  let ?b = "app_mem al 1" and ?n = "alloc_next al 1"
  have nm: "\<not> use_malloc al" using ok by (simp add: ring_ok_def)
  have pq: "p = ?b + ?n" "al' = al\<lparr>alloc_next := (alloc_next al)(1 := ?n + ns)\<rparr>"
    using p False nm by (simp_all add: ssalloc_alloc_def Let_def)
  have rb: "ring_blocks 1 al' = ring_blocks 1 al" by (simp add: ring_blocks_def pq(2))
  have room: "unat ?n + Suc m * unat ns \<le> 2 ^ 30" "unat ?b + 2 ^ 30 < 2 ^ 64" using ok by (simp_all add: ring_ok_def)
  have un: "unat (?n + ns) = unat ?n + unat ns"
    using room by (subst unat_add_lem [symmetric]) simp
  have up: "unat p = unat ?b + unat ?n"
    unfolding pq(1) using room by (subst unat_add_lem [symmetric]) simp
  have old: "in_arena al (unat ns) a" if "a \<in> L \<union> set (ring_blocks 1 al)" for a
    using ok that by (simp add: ring_ok_def)
  have dj: "disj_blocks (unat ns) p a \<and> disj_blocks (unat ns) a p \<and> a \<noteq> p \<and> in_arena al' (unat ns) a"
    if "a \<in> L \<union> set (ring_blocks 1 al)" for a
    using old [OF that] up ok un
    by (auto simp: in_arena_def disj_blocks_def ring_ok_def pq(2))
  have ip: "in_arena al' (unat ns) p"
    using up un ok by (simp add: in_arena_def pq(2) ring_ok_def mod_add_eq [symmetric])
  have "valid_addr p" using up ok by (intro valid_addr_64) (simp_all add: ring_ok_def mod_add_eq [symmetric])
  moreover have "ring_ok ns al' (insert p L) m"
    unfolding ring_ok_def rb
  proof (intro conjI)
    show "unat (alloc_next al' 1) mod 64 = 0"
      using ok un by (simp add: pq(2) ring_ok_def mod_add_eq [symmetric])
    show "unat (alloc_next al' 1) + m * unat ns \<le> 2 ^ 30" using room un by (simp add: pq(2))
    show "\<forall>a \<in> insert p L \<union> set (ring_blocks 1 al). in_arena al' (unat ns) a" using dj ip by auto
    show "insert p L \<inter> set (ring_blocks 1 al) = {}" using dj ok by (auto simp: ring_ok_def)
    show "\<forall>a \<in> insert p L \<union> set (ring_blocks 1 al). \<forall>b \<in> insert p L \<union> set (ring_blocks 1 al).
        a \<noteq> b \<longrightarrow> disj_blocks (unat ns) a b"
      using dj ok unfolding ring_ok_def by auto
  qed (use ok in \<open>simp_all add: ring_ok_def pq(2)\<close>)
  ultimately show ?thesis using dj by blast
qed

lemma ring_free_1:
  assumes ok: "ring_ok ns al L m" and p: "p \<in> L"
  shows "ring_ok ns (ssfree_alloc 1 p al) (L - {p}) m"
proof -
  let ?al' = "ssfree_alloc 1 p al"
  have nm: "\<not> use_malloc al" and l: "length (free_list al 1) = 256" using ok by (simp_all add: ring_ok_def)
  have r: "ring_blocks 1 ?al' = (if free_num al 1 = 255 then [] else ring_blocks 1 al @ [p])"
    "length (free_list ?al' 1) = 256"
    using ring_put [OF nm l refl] by blast+
  have f: "use_malloc ?al' = use_malloc al" "app_mem ?al' = app_mem al" "alloc_next ?al' = alloc_next al"
    using nm by (simp_all add: ssfree_alloc_def)
  have ia: "in_arena ?al' (unat ns) a \<longleftrightarrow> in_arena al (unat ns) a" for a unfolding in_arena_def f ..
  have sub: "L - {p} \<union> set (ring_blocks 1 ?al') \<subseteq> L \<union> set (ring_blocks 1 al)" using p by (auto simp: r simp del: One_nat_def)
  have "distinct (ring_blocks 1 ?al')" "(L - {p}) \<inter> set (ring_blocks 1 ?al') = {}"
    using ok p by (auto simp: r ring_ok_def simp del: One_nat_def)
  then show ?thesis using ok sub unfolding ring_ok_def f ia r(2) by blast
qed

lemma ring_other:
  assumes "\<not> use_malloc al"
  shows "ring_ok ns (snd (ssalloc n al)) L m = ring_ok ns al L m"
    and "ring_ok ns (ssfree p al) L m = ring_ok ns al L m"
  using assms
  by (simp_all add: ring_ok_def ssalloc_def ssfree_def ssalloc_alloc_def ssfree_alloc_def Let_def ring_blocks_def in_arena_def)

section \<open>malloc\<close>

text \<open>
  The documented behaviour of a \<^verbatim>\<open>malloc\<close> that succeeds: an aligned address that is not NULL and is
  not in use. \<open>N\<close> bounds the number of calls for which it is relied on.
\<close>

fun mal_live :: "mal_event list \<Rightarrow> ptr set" where
  "mal_live [] = {}"
| "mal_live (Malloc n p # es) = mal_live es \<union> {p}"
| "mal_live (Free p # es) = mal_live es - {p}"

definition malloc_ok :: "nat \<Rightarrow> (mal_event list \<Rightarrow> u64 \<Rightarrow> ptr) \<Rightarrow> bool" where
  "malloc_ok N pick \<longleftrightarrow> (\<forall>h n. length h < N \<longrightarrow> valid_addr (pick h n) \<and> pick h n \<notin> mal_live (rev h))"

definition mal_ok :: "nat \<Rightarrow> ssalloc_st \<Rightarrow> ptr set \<Rightarrow> nat \<Rightarrow> bool" where
  "mal_ok N al L m \<longleftrightarrow> use_malloc al \<and> malloc_ok N (mal_pick al) \<and> length (mal_hist al) + m \<le> N \<and>
     L \<subseteq> mal_live (rev (mal_hist al))"

lemma mal_alloc:
  assumes "mal_ok N al L (Suc m)" "ssalloc_alloc i n al = (p, al')"
  shows "p \<notin> L \<and> valid_addr p \<and> mal_ok N al' L m \<and> mal_ok N al' (insert p L) m"
proof -
  have p: "p = mal_pick al (mal_hist al) n" and al': "al' = al\<lparr>mal_hist := mal_hist al @ [Malloc n p]\<rparr>"
    using assms by (auto simp: mal_ok_def ssalloc_alloc_def c_malloc_def Let_def)
  have "length (mal_hist al) < N" using assms(1) by (simp add: mal_ok_def)
  then have "valid_addr p" "p \<notin> mal_live (rev (mal_hist al))"
    using assms(1) unfolding p mal_ok_def malloc_ok_def by blast+
  then show ?thesis using assms(1) by (auto simp: mal_ok_def al')
qed

lemma mal_free: "mal_ok N al L (Suc m) \<Longrightarrow> mal_ok N (ssfree_alloc i p al) (L - {p}) m"
  by (auto simp: mal_ok_def ssfree_alloc_def c_free_def)

section \<open>Both builds keep the contract\<close>

lemma ring_ok_less: "ring_ok ns al L m \<Longrightarrow> k \<le> m \<Longrightarrow> ring_ok ns al L k"
proof -
  assume a: "ring_ok ns al L m" and k: "k \<le> m"
  have "unat (alloc_next al 1) + k * unat ns \<le> unat (alloc_next al 1) + m * unat ns" using k by simp
  then have "unat (alloc_next al 1) + k * unat ns \<le> 2 ^ 30" using a unfolding ring_ok_def by linarith
  then show ?thesis using a unfolding ring_ok_def by blast
qed

lemma ring_array:
  assumes ok: "ring_ok ns al L (Suc m)" and p: "ssalloc n al = (p, al')"
  shows "ring_ok ns al' L m"
proof -
  have "ring_ok ns al' L (Suc m)" using ring_other(1) [of al ns n L "Suc m"] ok p by (simp add: ring_ok_def)
  then show ?thesis by (rule ring_ok_less) simp
qed

interpretation malloc: node_alloc ns "mal_ok N" "\<lambda>p L. p \<notin> L"
proof
  show "mal_ok N al L k" if "mal_ok N al L m" "k \<le> m" for al L m k using that by (simp add: mal_ok_def)
  show "p \<notin> K" if "p \<notin> L" "K \<subseteq> L" for p :: ptr and K L using that by blast
  show "p \<notin> L \<and> mal_ok N al' L m" if "mal_ok N al L (Suc m)" "ssalloc n al = (p, al')" for al L m n p al'
    using mal_alloc [OF that [unfolded ssalloc_def]] by blast
  show "mal_ok N (ssfree p al) L m" if "mal_ok N al L (Suc m)" "p \<notin> L" for al L m p
    using mal_free [OF that(1), of 0 p] that(2) by (simp add: ssfree_def)
  show "p \<notin> L \<and> valid_addr p \<and> mal_ok N al' (insert p L) m"
    if "mal_ok N al L (Suc m)" "ssalloc_alloc 1 ns al = (p, al')" for al L m p al'
    using mal_alloc [OF that] by blast
  show "mal_ok N (ssfree_alloc 1 p al) (L - {p}) m" if "mal_ok N al L (Suc m)" "p \<in> L" for al L m p
    by (rule mal_free [OF that(1)])
qed

interpretation ring: node_alloc ns "ring_ok ns" "\<lambda>p L. True"
proof
  show "ring_ok ns al L k" if "ring_ok ns al L m" "k \<le> m" for al L m k by (rule ring_ok_less [OF that])
  show "True \<and> ring_ok ns al' L m" if "ring_ok ns al L (Suc m)" "ssalloc n al = (p, al')" for al L m n p al'
    using ring_array [OF that] by blast
  show "ring_ok ns (ssfree p al) L m" if "ring_ok ns al L (Suc m)" for al L m p
  proof -
    have "ring_ok ns (ssfree p al) L (Suc m)" using ring_other(2) [of al ns p L "Suc m"] that by (simp add: ring_ok_def)
    then show ?thesis by (rule ring_ok_less) simp
  qed
  show "p \<notin> L \<and> valid_addr p \<and> ring_ok ns al' (insert p L) m"
    if "ring_ok ns al L (Suc m)" "ssalloc_alloc 1 ns al = (p, al')" for al L m p al'
    using ring_alloc_1 [OF that] by blast
  show "ring_ok ns (ssfree_alloc 1 p al) (L - {p}) m" if "ring_ok ns al L (Suc m)" "p \<in> L" for al L m p
    using ring_free_1 [OF ring_ok_less [OF that(1)] that(2)] by simp
qed simp_all

definition al_ok :: "u64 \<Rightarrow> nat \<Rightarrow> ssalloc_st \<Rightarrow> ptr set \<Rightarrow> nat \<Rightarrow> bool" where
  "al_ok ns N al L m \<longleftrightarrow> ring_ok ns al L m \<or> mal_ok N al L m"

end
