(* ===== verification/SL_Mem.thy ===== *)
theory SL_Mem
  imports SL_Alloc Numeric
begin

text \<open>
  The skip list of the spraylist: nodes, the set and its memory (\<^verbatim>\<open>skiplist.h\<close>, \<^verbatim>\<open>skiplist.c\<close>), and
  the lock-free operations on it (\<^verbatim>\<open>fraser.c\<close>) as one thread runs them. \<open>None\<close> means that the code
  does not return: it accesses an address without a node, leaves an array, exits, or needs more
  iterations than the fuel allows.
\<close>

section \<open>Nodes and memory\<close>

definition VAL_MIN :: u32 where
  "VAL_MIN = 2 ^ 31"

definition VAL_MAX :: u32 where
  "VAL_MAX = 2 ^ 31 - 1"

definition NEXT_SLOTS :: nat where
  "NEXT_SLOTS = 19"

text \<open>\<^verbatim>\<open>struct sl_node\<close>; \<open>sn_next\<close> has \<open>NEXT_SLOTS\<close> entries.\<close>

record sl_node =
  sn_val :: u32
  sn_top :: nat
  sn_del :: u64
  sn_next :: "ptr list"

text \<open>
  The memory: nodes, what fresh memory holds in the pointer array (\<open>sl_junk\<close>), the set with its
  head, the globals \<^verbatim>\<open>levelmax\<close> and \<^verbatim>\<open>seeds\<close>, and the allocator.
\<close>

record sl_state =
  sl_heap :: "ptr \<Rightarrow> sl_node option"
  sl_junk :: "ptr \<Rightarrow> ptr list"
  sl_head :: ptr
  levelmax :: nat
  sl_seeds :: seeds
  sl_al :: ssalloc_st

definition sl_rd :: "sl_state \<Rightarrow> ptr \<Rightarrow> nat \<Rightarrow> ptr option" where
  "sl_rd s p i = (case sl_heap s p of
      None \<Rightarrow> None
    | Some n \<Rightarrow> if i < length (sn_next n) then Some (sn_next n ! i) else None)"

definition sl_wr :: "sl_state \<Rightarrow> ptr \<Rightarrow> nat \<Rightarrow> ptr \<Rightarrow> sl_state option" where
  "sl_wr s p i w = (case sl_heap s p of
      None \<Rightarrow> None
    | Some n \<Rightarrow> if i < length (sn_next n)
        then Some (s\<lparr>sl_heap := (sl_heap s)(p \<mapsto> n\<lparr>sn_next := (sn_next n)[i := w]\<rparr>)\<rparr>) else None)"

definition sl_val :: "sl_state \<Rightarrow> ptr \<Rightarrow> u32 option" where
  "sl_val s p = map_option sn_val (sl_heap s p)"

definition sl_top :: "sl_state \<Rightarrow> ptr \<Rightarrow> nat option" where
  "sl_top s p = map_option sn_top (sl_heap s p)"

text \<open>\<^verbatim>\<open>ATOMIC_CAS_MB(&p->next[i], old, new)\<close>\<close>

definition sl_cas :: "sl_state \<Rightarrow> ptr \<Rightarrow> nat \<Rightarrow> ptr \<Rightarrow> ptr \<Rightarrow> (bool \<times> sl_state) option" where
  "sl_cas s p i old new = do {
     w \<leftarrow> sl_rd s p i;
     if w = old then do { s' \<leftarrow> sl_wr s p i new; Some (True, s') } else Some (False, s) }"

text \<open>
  A read of \<^verbatim>\<open>p->deleted\<close>. Through a marked pointer the eight bytes start one byte further: the
  upper seven of \<^verbatim>\<open>deleted\<close> and the lowest of \<^verbatim>\<open>next[0]\<close> (x86-64 is little-endian).
\<close>

definition sl_del :: "sl_state \<Rightarrow> ptr \<Rightarrow> u64 option" where
  "sl_del s p = do {
     n \<leftarrow> sl_heap s (get_unmarked_ref p);
     if is_marked_ref p
     then (case sn_next n of [] \<Rightarrow> None | w # ws \<Rightarrow> Some (drop_bit 8 (sn_del n) OR push_bit 56 w))
     else Some (sn_del n) }"

text \<open>\<^verbatim>\<open>ATOMIC_FETCH_AND_INC_FULL(&p->deleted)\<close>\<close>

definition fetch_inc_del :: "sl_state \<Rightarrow> ptr \<Rightarrow> (u64 \<times> sl_state) option" where
  "fetch_inc_del s p = do {
     n \<leftarrow> sl_heap s p;
     Some (sn_del n, s\<lparr>sl_heap := (sl_heap s)(p \<mapsto> n\<lparr>sn_del := sn_del n + 1\<rparr>)\<rparr>) }"

text \<open>\<^verbatim>\<open>is_marked\<close>, \<^verbatim>\<open>unset_mark\<close> and \<^verbatim>\<open>set_mark\<close> of \<^verbatim>\<open>fraser.c\<close>\<close>

definition is_marked :: "ptr \<Rightarrow> bool" where
  "is_marked i \<longleftrightarrow> i AND 1 \<noteq> 0"

definition unset_mark :: "ptr \<Rightarrow> ptr" where
  "unset_mark i = i AND NOT 1"

definition set_mark :: "ptr \<Rightarrow> ptr" where
  "set_mark i = i OR 1"

section \<open>Nodes and sets are made\<close>

fun level_draws :: "nat \<Rightarrow> nat \<Rightarrow> seeds \<Rightarrow> nat \<times> seeds" where
  "level_draws 0 level ss = (level, ss)"
| "level_draws (Suc n) level ss =
     (let (v, ss') = rand_range 100 ss
      in if sint (v - 1) < 50 then level_draws n (level + 1) ss' else (level, ss'))"

definition get_rand_level :: "sl_state \<Rightarrow> nat \<times> sl_state" where
  "get_rand_level s =
     (let (l, ss) = level_draws (levelmax s - 1) 1 (sl_seeds s) in (l, s\<lparr>sl_seeds := ss\<rparr>))"

text \<open>
  The size of a node block: \<^verbatim>\<open>sizeof(sl_node_t)\<close> is 192 (168 bytes of fields, aligned to 64), and
  room for \<^verbatim>\<open>*levelmax\<close> more pointers is added and rounded up to a multiple of 64.
\<close>

definition node_bytes :: "nat \<Rightarrow> u64" where
  "node_bytes lm =
     (let ns = 192 + of_nat lm * 8; ns_rm = ns mod 64 in if ns_rm \<noteq> 0 then ns + (64 - ns_rm) else ns)"

definition sl_new_simple_node :: "u32 \<Rightarrow> nat \<Rightarrow> int \<Rightarrow> sl_state \<Rightarrow> (ptr \<times> sl_state) option" where
  "sl_new_simple_node v toplevel transactional s =
     (let (a, al) = (if transactional \<noteq> 0 then c_malloc (192 + of_nat toplevel * 8) (sl_al s)
                     else ssalloc_alloc 1 (node_bytes (levelmax s)) (sl_al s));
          ws = (case sl_heap s a of Some n \<Rightarrow> sn_next n | None \<Rightarrow> sl_junk s a)
      in if a = 0 then None
         else Some (a, s\<lparr>sl_heap := (sl_heap s)(a \<mapsto> \<lparr>sn_val = v, sn_top = toplevel, sn_del = 0, sn_next = ws\<rparr>),
                         sl_al := al\<rparr>))"

fun set_nexts :: "nat \<Rightarrow> ptr \<Rightarrow> ptr \<Rightarrow> sl_state \<Rightarrow> sl_state option" where
  "set_nexts 0 p nx s = Some s"
| "set_nexts (Suc i) p nx s = do { s' \<leftarrow> set_nexts i p nx s; sl_wr s' p i nx }"

definition sl_new_node :: "u32 \<Rightarrow> ptr \<Rightarrow> nat \<Rightarrow> int \<Rightarrow> sl_state \<Rightarrow> (ptr \<times> sl_state) option" where
  "sl_new_node v nx toplevel transactional s = do {
     (a, s) \<leftarrow> sl_new_simple_node v toplevel transactional s;
     s \<leftarrow> set_nexts (levelmax s) a nx s;
     Some (a, s) }"

definition sl_delete_node :: "ptr \<Rightarrow> sl_state \<Rightarrow> sl_state" where
  "sl_delete_node n s = s\<lparr>sl_al := ssfree_alloc 1 n (sl_al s)\<rparr>"

text \<open>
  \<^verbatim>\<open>sl_set_new\<close>: the set itself is a block of 64 bytes from the allocator of the nodes; its address
  is returned and its only field becomes \<open>sl_head\<close>.
\<close>

definition sl_set_new :: "sl_state \<Rightarrow> (ptr \<times> sl_state) option" where
  "sl_set_new s =
     (let (st, al) = ssalloc_alloc 1 64 (sl_al s)
      in if st = 0 then None
         else do {
           s \<leftarrow> Some (s\<lparr>sl_al := ssalloc_align_alloc 1 al\<rparr>);
           (mx, s) \<leftarrow> sl_new_node VAL_MAX 0 (levelmax s) 0 s;
           (mn, s) \<leftarrow> sl_new_node VAL_MIN mx (levelmax s) 0 s;
           Some (st, s\<lparr>sl_head := mn\<rparr>) })"

fun delete_nodes :: "nat \<Rightarrow> ptr \<Rightarrow> sl_state \<Rightarrow> sl_state option" where
  "delete_nodes 0 node s = None"
| "delete_nodes (Suc f) node s =
     (if node = 0 then Some s
      else do { w \<leftarrow> sl_rd s node 0; delete_nodes f (w AND NOT 1) (sl_delete_node node s) })"

definition sl_set_delete :: "nat \<Rightarrow> ptr \<Rightarrow> sl_state \<Rightarrow> sl_state option" where
  "sl_set_delete f st s = do {
     s \<leftarrow> delete_nodes f (sl_head s) s;
     Some (s\<lparr>sl_al := ssfree_alloc 1 st (sl_al s)\<rparr>) }"

fun size_loop :: "nat \<Rightarrow> ptr \<Rightarrow> nat \<Rightarrow> sl_state \<Rightarrow> nat option" where
  "size_loop 0 node n s = None"
| "size_loop (Suc f) node n s = do {
     w \<leftarrow> sl_rd s node 0;
     if w \<noteq> 0 then do {
       d \<leftarrow> sl_del s node;
       size_loop f (w AND NOT 1) (if d = 0 then n + 1 else n) s }
     else Some n }"

definition sl_set_size :: "nat \<Rightarrow> sl_state \<Rightarrow> nat option" where
  "sl_set_size f s = do { node \<leftarrow> sl_rd s (sl_head s) 0; size_loop f node 0 s }"

end
