(* ===== verification/SL_Fraser.thy ===== *)
theory SL_Fraser
  imports SL_Mem
begin

text \<open>The lock-free operations of \<^verbatim>\<open>fraser.c\<close>, as one thread runs them.\<close>

section \<open>Search\<close>

text \<open>The inner loop of the search: skip a sequence of marked nodes.\<close>

fun skip_marked :: "nat \<Rightarrow> sl_state \<Rightarrow> nat \<Rightarrow> ptr \<Rightarrow> (ptr \<times> ptr) option" where
  "skip_marked 0 s i right = None"
| "skip_marked (Suc f) s i right = do {
     right_next \<leftarrow> sl_rd s right i;
     if \<not> is_marked right_next then Some (right, right_next)
     else skip_marked f s i (unset_mark right_next) }"

text \<open>Find an unmarked pair of nodes at level \<open>i\<close>: the result is \<open>(left, left_next, right)\<close>.\<close>

fun find_pair :: "nat \<Rightarrow> sl_state \<Rightarrow> nat \<Rightarrow> u32 \<Rightarrow> ptr \<Rightarrow> ptr \<Rightarrow> ptr \<Rightarrow> (ptr \<times> ptr \<times> ptr) option" where
  "find_pair 0 s i v left left_next right = None"
| "find_pair (Suc f) s i v left left_next right = do {
     (right, right_next) \<leftarrow> skip_marked (Suc f) s i right;
     rv \<leftarrow> sl_val s right;
     if rv \<ge> v then Some (left, left_next, right)
     else find_pair f s i v right right_next right_next }"

text \<open>
  The levels from \<open>i - 1\<close> down to 0. The result \<open>None\<close> inside is \<^verbatim>\<open>goto retry\<close>; otherwise it holds the
  two arrays, where index 0 is level 0.
\<close>

fun search_levels :: "nat \<Rightarrow> nat \<Rightarrow> u32 \<Rightarrow> ptr \<Rightarrow> ptr list \<Rightarrow> ptr list \<Rightarrow> sl_state \<Rightarrow>
    (sl_state \<times> (ptr list \<times> ptr list) option) option" where
  "search_levels f 0 v left lefts rights s = Some (s, Some (lefts, rights))"
| "search_levels f (Suc i) v left lefts rights s = do {
     left_next \<leftarrow> sl_rd s left i;
     if is_marked left_next then Some (s, None)
     else do {
       (left, left_next, right) \<leftarrow> find_pair f s i v left left_next left_next;
       (ok, s) \<leftarrow> (if left_next \<noteq> right then sl_cas s left i left_next right else Some (True, s));
       if \<not> ok then Some (s, None)
       else search_levels f i v left (left # lefts) (right # rights) s } }"

fun fraser_search :: "nat \<Rightarrow> u32 \<Rightarrow> sl_state \<Rightarrow> (sl_state \<times> ptr list \<times> ptr list) option" where
  "fraser_search 0 v s = None"
| "fraser_search (Suc f) v s = do {
     (s, r) \<leftarrow> search_levels (Suc f) (levelmax s) v (sl_head s) [] [] s;
     (case r of None \<Rightarrow> fraser_search f v s | Some lr \<Rightarrow> Some (s, lr)) }"

text \<open>Reading an array entry that was never written counts as a fault.\<close>

definition entry :: "ptr list \<Rightarrow> nat \<Rightarrow> ptr option" where
  "entry ps i = (if i < length ps then Some (ps ! i) else None)"

text \<open>\<^verbatim>\<open>ssalloc(*levelmax * sizeof(sl_node_t *))\<close> and \<^verbatim>\<open>ssfree\<close>\<close>

definition array_alloc :: "sl_state \<Rightarrow> ptr \<times> sl_state" where
  "array_alloc s = (let (p, al) = ssalloc (of_nat (levelmax s) * 8) (sl_al s) in (p, s\<lparr>sl_al := al\<rparr>))"

definition array_free :: "ptr \<Rightarrow> sl_state \<Rightarrow> sl_state" where
  "array_free p s = s\<lparr>sl_al := ssfree p (sl_al s)\<rparr>"

section \<open>Find\<close>

definition fraser_find :: "nat \<Rightarrow> u32 \<Rightarrow> sl_state \<Rightarrow> (bool \<times> sl_state) option" where
  "fraser_find f v s = do {
     (arr, s) \<leftarrow> Some (array_alloc s);
     (s, _, succs) \<leftarrow> fraser_search f v s;
     s0 \<leftarrow> entry succs 0;
     x \<leftarrow> sl_val s s0;
     d \<leftarrow> sl_del s s0;
     Some (x = v \<and> d = 0, array_free arr s) }"

section \<open>Remove\<close>

fun mark_slot :: "nat \<Rightarrow> ptr \<Rightarrow> nat \<Rightarrow> sl_state \<Rightarrow> sl_state option" where
  "mark_slot 0 n i s = None"
| "mark_slot (Suc f) n i s = do {
     n_next \<leftarrow> sl_rd s n i;
     if is_marked n_next then Some s
     else do {
       (ok, s) \<leftarrow> sl_cas s n i n_next (set_mark n_next);
       if ok then Some s else mark_slot f n i s } }"

fun mark_slots :: "nat \<Rightarrow> nat \<Rightarrow> ptr \<Rightarrow> sl_state \<Rightarrow> sl_state option" where
  "mark_slots f 0 n s = Some s"
| "mark_slots f (Suc i) n s = do { s \<leftarrow> mark_slot f n i s; mark_slots f i n s }"

definition mark_node_ptrs :: "nat \<Rightarrow> ptr \<Rightarrow> sl_state \<Rightarrow> sl_state option" where
  "mark_node_ptrs f n s = do { t \<leftarrow> sl_top s n; mark_slots f t n s }"

definition fraser_remove :: "nat \<Rightarrow> u32 \<Rightarrow> bool \<Rightarrow> sl_state \<Rightarrow> (bool \<times> sl_state) option" where
  "fraser_remove f v remove_succ s = do {
     (arr, s) \<leftarrow> Some (array_alloc s);
     (s, _, succs) \<leftarrow> fraser_search f v s;
     s0 \<leftarrow> entry succs 0;
     x \<leftarrow> sl_val s s0;
     (result, v) \<leftarrow> (if remove_succ then do { s0_next \<leftarrow> sl_rd s s0 0; Some (s0_next \<noteq> 0, x) }
                     else Some (x = v, v));
     (if \<not> result then Some (False, array_free arr s)
      else do {
        d \<leftarrow> sl_del s s0;
        if d \<noteq> 0 then Some (False, array_free arr s)
        else do {
          (old, s) \<leftarrow> fetch_inc_del s s0;
          if old = 0 then do {
            s \<leftarrow> mark_node_ptrs f s0 s;
            (s, _) \<leftarrow> fraser_search f v s;
            Some (True, array_free arr s) }
          else Some (False, array_free arr s) } }) }"

section \<open>Insert\<close>

text \<open>The loop that fills the pointers of the new node.\<close>

fun fill_nexts :: "nat \<Rightarrow> ptr \<Rightarrow> ptr list \<Rightarrow> sl_state \<Rightarrow> sl_state option" where
  "fill_nexts 0 new succs s = Some s"
| "fill_nexts (Suc i) new succs s = do {
     s \<leftarrow> fill_nexts i new succs s;
     p \<leftarrow> entry succs i;
     sl_wr s new i p }"

text \<open>
  The part up to the insertion at the bottom level: \<open>None\<close> inside means that the value is there
  already, otherwise the arrays of the search that succeeded are returned.
\<close>

fun insert_bottom :: "nat \<Rightarrow> ptr \<Rightarrow> u32 \<Rightarrow> sl_state \<Rightarrow> (sl_state \<times> (ptr list \<times> ptr list) option) option" where
  "insert_bottom 0 new v s = None"
| "insert_bottom (Suc f) new v s = do {
     (s, preds, succs) \<leftarrow> fraser_search (Suc f) v s;
     s0 \<leftarrow> entry succs 0;
     x \<leftarrow> sl_val s s0;
     if x = v then do {
       d \<leftarrow> sl_del s s0;
       if d \<noteq> 0 then do { s \<leftarrow> mark_node_ptrs (Suc f) s0 s; insert_bottom f new v s }
       else Some (sl_delete_node new s, None) }
     else do {
       t \<leftarrow> sl_top s new;
       s \<leftarrow> fill_nexts t new succs s;
       p0 \<leftarrow> entry preds 0;
       (ok, s) \<leftarrow> sl_cas s p0 0 s0 new;
       if \<not> ok then insert_bottom f new v s else Some (s, Some (preds, succs)) } }"

text \<open>
  One level of the second part, the loop \<^verbatim>\<open>while (1)\<close>: the flag says whether it was left by
  \<^verbatim>\<open>goto success\<close>. The address of the array \<^verbatim>\<open>next\<close> of a node is 16 bytes into it.
\<close>

fun insert_level :: "nat \<Rightarrow> nat \<Rightarrow> ptr \<Rightarrow> u32 \<Rightarrow> ptr list \<Rightarrow> ptr list \<Rightarrow> sl_state \<Rightarrow>
    (bool \<times> ptr list \<times> ptr list \<times> sl_state) option" where
  "insert_level 0 i new v preds succs s = None"
| "insert_level (Suc f) i new v preds succs s = do {
     pred \<leftarrow> entry preds i;
     succ \<leftarrow> entry succs i;
     new_next \<leftarrow> sl_rd s new i;
     if is_marked new_next then Some (True, preds, succs, s)
     else do {
       (ok, s) \<leftarrow> (if new_next \<noteq> succ then sl_cas s new i (unset_mark new_next) succ else Some (True, s));
       if \<not> ok then Some (False, preds, succs, s)
       else do {
         x \<leftarrow> sl_val s succ;
         succ \<leftarrow> Some (if x = v then unset_mark (succ + 16) else succ);
         (ok, s) \<leftarrow> sl_cas s pred i succ new;
         if ok then Some (False, preds, succs, s)
         else do {
           (s, preds, succs) \<leftarrow> fraser_search (Suc f) v s;
           insert_level f i new v preds succs s } } } }"

text \<open>The levels \<open>i\<close> to \<open>i + n - 1\<close>.\<close>

fun insert_levels :: "nat \<Rightarrow> nat \<Rightarrow> nat \<Rightarrow> ptr \<Rightarrow> u32 \<Rightarrow> ptr list \<Rightarrow> ptr list \<Rightarrow> sl_state \<Rightarrow> sl_state option" where
  "insert_levels f i 0 new v preds succs s = Some s"
| "insert_levels f i (Suc n) new v preds succs s = do {
     (success, preds, succs, s) \<leftarrow> insert_level f i new v preds succs s;
     if success then Some s else insert_levels f (i + 1) n new v preds succs s }"

definition fraser_insert :: "nat \<Rightarrow> u32 \<Rightarrow> sl_state \<Rightarrow> (bool \<times> sl_state) option" where
  "fraser_insert f v s = do {
     (level, s) \<leftarrow> Some (get_rand_level s);
     (new, s) \<leftarrow> sl_new_simple_node v level 0 s;
     (parr, s) \<leftarrow> Some (array_alloc s);
     (sarr, s) \<leftarrow> Some (array_alloc s);
     (s, r) \<leftarrow> insert_bottom f new v s;
     (case r of
        None \<Rightarrow> Some (False, array_free sarr (array_free parr s))
      | Some (preds, succs) \<Rightarrow> do {
          t \<leftarrow> sl_top s new;
          s \<leftarrow> insert_levels f 1 (t - 1) new v preds succs s;
          Some (True, array_free sarr (array_free parr s)) }) }"

end
