(* ===== verification/SL_Intset.thy ===== *)
theory SL_Intset
  imports SL_Fraser
begin

text \<open>
  The integer set of \<^verbatim>\<open>intset.c\<close> in its three builds, and the delete operations of the priority
  queue (\<^verbatim>\<open>pqueue.c\<close>). The macros \<^verbatim>\<open>TX_LOAD\<close> and \<^verbatim>\<open>TX_STORE\<close> are plain accesses, as
  \<^verbatim>\<open>include/lockfree.h\<close> and \<^verbatim>\<open>include/sequential.h\<close> define them.
\<close>

datatype build = SEQUENTIAL | STM | LOCKFREE

section \<open>The sequential operations\<close>

text \<open>\<^verbatim>\<open>while (next->val < val) { node = next; next = node->next[i]; }\<close>\<close>

fun seq_walk :: "nat \<Rightarrow> nat \<Rightarrow> u32 \<Rightarrow> ptr \<Rightarrow> ptr \<Rightarrow> sl_state \<Rightarrow> (ptr \<times> ptr) option" where
  "seq_walk 0 i v node nx s = None"
| "seq_walk (Suc f) i v node nx s = do {
     x \<leftarrow> sl_val s nx;
     if x < v then do { nx' \<leftarrow> sl_rd s nx i; seq_walk f i v nx nx' s } else Some (node, nx) }"

text \<open>The loop over the levels; the last \<open>next\<close> is kept because \<^verbatim>\<open>sl_remove\<close> uses it afterwards.\<close>

fun seq_levels :: "nat \<Rightarrow> nat \<Rightarrow> u32 \<Rightarrow> ptr \<Rightarrow> ptr \<Rightarrow> ptr list \<Rightarrow> ptr list \<Rightarrow> sl_state \<Rightarrow>
    (ptr \<times> ptr \<times> ptr list \<times> ptr list) option" where
  "seq_levels f 0 v node nx preds succs s = Some (node, nx, preds, succs)"
| "seq_levels f (Suc i) v node nx preds succs s = do {
     nx \<leftarrow> sl_rd s node i;
     (node, nx) \<leftarrow> seq_walk f i v node nx s;
     sc \<leftarrow> sl_rd s node i;
     seq_levels f i v node nx (node # preds) (sc # succs) s }"

definition seq_contains :: "nat \<Rightarrow> u32 \<Rightarrow> sl_state \<Rightarrow> bool option" where
  "seq_contains f v s = do {
     t \<leftarrow> sl_top s (sl_head s);
     (node, _, _, _) \<leftarrow> seq_levels f t v (sl_head s) 0 [] [] s;
     node \<leftarrow> sl_rd s node 0;
     x \<leftarrow> sl_val s node;
     Some (x = v) }"

text \<open>\<^verbatim>\<open>node->next[i] = succs[i]; preds[i]->next[i] = node\<close> for the levels below \<open>l\<close>.\<close>

fun link_levels :: "nat \<Rightarrow> ptr \<Rightarrow> ptr list \<Rightarrow> ptr list \<Rightarrow> sl_state \<Rightarrow> sl_state option" where
  "link_levels 0 node preds succs s = Some s"
| "link_levels (Suc i) node preds succs s = do {
     s \<leftarrow> link_levels i node preds succs s;
     sc \<leftarrow> entry succs i;
     pr \<leftarrow> entry preds i;
     s \<leftarrow> sl_wr s node i sc;
     sl_wr s pr i node }"

definition sl_seq_add :: "nat \<Rightarrow> u32 \<Rightarrow> sl_state \<Rightarrow> (bool \<times> sl_state) option" where
  "sl_seq_add f v s = do {
     t \<leftarrow> sl_top s (sl_head s);
     (node, _, preds, succs) \<leftarrow> seq_levels f t v (sl_head s) 0 [] [] s;
     node \<leftarrow> sl_rd s node 0;
     x \<leftarrow> sl_val s node;
     if x \<noteq> v then do {
       (l, s) \<leftarrow> Some (get_rand_level s);
       (node, s) \<leftarrow> sl_new_simple_node v l 0 s;
       s \<leftarrow> link_levels l node preds succs s;
       Some (True, s) }
     else Some (False, s) }"

text \<open>\<^verbatim>\<open>if (succs[i]->val == val) preds[i]->next[i] = succs[i]->next[i]\<close> for the levels below \<open>l\<close>.\<close>

fun unlink_levels :: "nat \<Rightarrow> u32 \<Rightarrow> ptr list \<Rightarrow> ptr list \<Rightarrow> sl_state \<Rightarrow> sl_state option" where
  "unlink_levels 0 v preds succs s = Some s"
| "unlink_levels (Suc i) v preds succs s = do {
     s \<leftarrow> unlink_levels i v preds succs s;
     sc \<leftarrow> entry succs i;
     x \<leftarrow> sl_val s sc;
     if x = v then do { w \<leftarrow> sl_rd s sc i; pr \<leftarrow> entry preds i; sl_wr s pr i w } else Some s }"

definition seq_remove :: "nat \<Rightarrow> u32 \<Rightarrow> sl_state \<Rightarrow> (bool \<times> sl_state) option" where
  "seq_remove f v s = do {
     t \<leftarrow> sl_top s (sl_head s);
     (_, nx, preds, succs) \<leftarrow> seq_levels f t v (sl_head s) 0 [] [] s;
     x \<leftarrow> sl_val s nx;
     if x = v then do {
       s \<leftarrow> unlink_levels t v preds succs s;
       Some (True, sl_delete_node nx s) }
     else Some (False, s) }"

section \<open>The transactional operations\<close>

text \<open>The loop keeps the value it read last.\<close>

fun stm_walk :: "nat \<Rightarrow> nat \<Rightarrow> u32 \<Rightarrow> ptr \<Rightarrow> ptr \<Rightarrow> sl_state \<Rightarrow> (ptr \<times> ptr \<times> u32) option" where
  "stm_walk 0 i val node nx s = None"
| "stm_walk (Suc f) i val node nx s = do {
     v \<leftarrow> sl_val s nx;
     if v < val then do { nx' \<leftarrow> sl_rd s nx i; stm_walk f i val nx nx' s } else Some (node, nx, v) }"

fun stm_levels :: "nat \<Rightarrow> nat \<Rightarrow> u32 \<Rightarrow> ptr \<Rightarrow> ptr \<Rightarrow> u32 \<Rightarrow> ptr list \<Rightarrow> ptr list \<Rightarrow> sl_state \<Rightarrow>
    (ptr \<times> ptr \<times> u32 \<times> ptr list \<times> ptr list) option" where
  "stm_levels f 0 val node nx v preds succs s = Some (node, nx, v, preds, succs)"
| "stm_levels f (Suc i) val node nx v preds succs s = do {
     nx \<leftarrow> sl_rd s node i;
     (node, nx, v) \<leftarrow> stm_walk f i val node nx s;
     stm_levels f i val node nx v (node # preds) (nx # succs) s }"

definition stm_contains :: "nat \<Rightarrow> u32 \<Rightarrow> sl_state \<Rightarrow> bool option" where
  "stm_contains f val s = do {
     t \<leftarrow> sl_top s (sl_head s);
     (node, _, v, _, _) \<leftarrow> stm_levels f t val (sl_head s) 0 VAL_MIN [] [] s;
     _ \<leftarrow> sl_rd s node 0;
     Some (v = val) }"

fun stm_link :: "nat \<Rightarrow> ptr \<Rightarrow> ptr list \<Rightarrow> sl_state \<Rightarrow> sl_state option" where
  "stm_link 0 node preds s = Some s"
| "stm_link (Suc i) node preds s = do {
     s \<leftarrow> stm_link i node preds s;
     pr \<leftarrow> entry preds i;
     w \<leftarrow> sl_rd s pr i;
     s \<leftarrow> sl_wr s node i w;
     sl_wr s pr i node }"

definition stm_add :: "nat \<Rightarrow> u32 \<Rightarrow> int \<Rightarrow> sl_state \<Rightarrow> (bool \<times> sl_state) option" where
  "stm_add f val transactional s = do {
     t \<leftarrow> sl_top s (sl_head s);
     (_, _, v, preds, _) \<leftarrow> stm_levels f t val (sl_head s) 0 VAL_MIN [] [] s;
     if v \<noteq> val then do {
       (l, s) \<leftarrow> Some (get_rand_level s);
       (node, s) \<leftarrow> sl_new_simple_node val l transactional s;
       s \<leftarrow> stm_link l node preds s;
       Some (True, s) }
     else Some (False, s) }"

definition stm_remove :: "nat \<Rightarrow> u32 \<Rightarrow> sl_state \<Rightarrow> (bool \<times> sl_state) option" where
  "stm_remove f val s = do {
     t \<leftarrow> sl_top s (sl_head s);
     (_, nx, _, preds, succs) \<leftarrow> stm_levels f t val (sl_head s) 0 VAL_MIN [] [] s;
     x \<leftarrow> sl_val s nx;
     if x = val then do {
       s \<leftarrow> unlink_levels t val preds succs s;
       Some (True, s\<lparr>sl_al := c_free nx (sl_al s)\<rparr>) }
     else Some (False, s) }"

section \<open>The operations as the build selects them\<close>

definition sl_contains :: "build \<Rightarrow> nat \<Rightarrow> u32 \<Rightarrow> int \<Rightarrow> sl_state \<Rightarrow> (bool \<times> sl_state) option" where
  "sl_contains b f v transactional s = (case b of
      SEQUENTIAL \<Rightarrow> map_option (\<lambda>r. (r, s)) (seq_contains f v s)
    | STM \<Rightarrow> map_option (\<lambda>r. (r, s)) (stm_contains f v s)
    | LOCKFREE \<Rightarrow> fraser_find f v s)"

definition sl_add :: "build \<Rightarrow> nat \<Rightarrow> u32 \<Rightarrow> int \<Rightarrow> sl_state \<Rightarrow> (bool \<times> sl_state) option" where
  "sl_add b f v transactional s =
     (if transactional = 0 then sl_seq_add f v s
      else (case b of
          SEQUENTIAL \<Rightarrow> sl_seq_add f v s
        | STM \<Rightarrow> stm_add f v transactional s
        | LOCKFREE \<Rightarrow> fraser_insert f v s))"

definition sl_remove :: "build \<Rightarrow> nat \<Rightarrow> u32 \<Rightarrow> int \<Rightarrow> sl_state \<Rightarrow> (bool \<times> sl_state) option" where
  "sl_remove b f v transactional s = (case b of
      SEQUENTIAL \<Rightarrow> seq_remove f v s
    | STM \<Rightarrow> stm_remove f v s
    | LOCKFREE \<Rightarrow> fraser_remove f v False s)"

definition sl_remove_succ :: "nat \<Rightarrow> u32 \<Rightarrow> int \<Rightarrow> sl_state \<Rightarrow> (bool \<times> sl_state) option" where
  "sl_remove_succ f v transactional s = fraser_remove f v True s"

section \<open>Delete-min\<close>

text \<open>The fields of \<^verbatim>\<open>thread_data_t\<close> that the delete operations use.\<close>

record thread_data =
  nb_threads :: u32
  seed2 :: u32
  nb_collisions :: u64
  nb_clean :: u64

text \<open>The inner loop: to the next node that is not deleted, or the tail.\<close>

fun naive_walk :: "nat \<Rightarrow> ptr \<Rightarrow> sl_state \<Rightarrow> ptr option" where
  "naive_walk 0 first s = None"
| "naive_walk (Suc f) first s = do {
     w \<leftarrow> sl_rd s first 0;
     first \<leftarrow> Some (unset_mark w);
     w \<leftarrow> sl_rd s first 0;
     d \<leftarrow> sl_del s first;
     if w \<noteq> 0 \<and> d \<noteq> 0 then naive_walk f first s else Some first }"

fun naive_claim :: "nat \<Rightarrow> ptr \<Rightarrow> thread_data \<Rightarrow> sl_state \<Rightarrow> (ptr \<times> thread_data \<times> sl_state) option" where
  "naive_claim 0 first d s = None"
| "naive_claim (Suc f) first d s = do {
     first \<leftarrow> naive_walk (Suc f) first s;
     (old, s) \<leftarrow> fetch_inc_del s first;
     if old \<noteq> 0 then naive_claim f first (d\<lparr>nb_collisions := nb_collisions d + 1\<rparr>) s
     else Some (first, d, s) }"

text \<open>The result: the returned \<^verbatim>\<open>int\<close>, and \<open>*val\<close> if it was written.\<close>

definition naive_delete_min :: "nat \<Rightarrow> thread_data \<Rightarrow> sl_state \<Rightarrow> (int \<times> u32 option \<times> thread_data \<times> sl_state) option" where
  "naive_delete_min f d s = do {
     (first, d, s) \<leftarrow> naive_claim f (sl_head s) d s;
     w \<leftarrow> sl_rd s first 0;
     if w = 0 then Some (1, None, d, s)
     else do {
       v \<leftarrow> sl_val s first;
       s \<leftarrow> mark_node_ptrs f first s;
       w \<leftarrow> sl_rd s first 0;
       dl \<leftarrow> sl_del s w;
       s \<leftarrow> (if dl = 0 then do { (s, _) \<leftarrow> fraser_search f v s; Some s } else Some s);
       Some (1, Some v, d, s) } }"

definition SCANHEIGHT :: "u32 \<Rightarrow> int" where
  "SCANHEIGHT n = floor_log_2 n + 1"

definition SCANMAX :: "u32 \<Rightarrow> int" where
  "SCANMAX n = floor_log_2 n + 1"

definition SCANINC :: int where
  "SCANINC = 0"

definition SCANSKIP :: nat where
  "SCANSKIP = 1"

text \<open>The steps of the spray that fall on the imagined nodes before the head.\<close>

fun dummy_steps :: "nat \<Rightarrow> u32 \<Rightarrow> u32 \<Rightarrow> nat \<Rightarrow> u32 \<times> nat" where
  "dummy_steps i lim dummy 0 = (dummy, 0)"
| "dummy_steps i lim dummy (Suc scanlen) =
     (if dummy < lim then dummy_steps i lim (dummy + push_bit i 1) scanlen else (dummy, Suc scanlen))"

fun step_right :: "nat \<Rightarrow> nat \<Rightarrow> ptr \<Rightarrow> nat \<Rightarrow> sl_state \<Rightarrow> ptr option" where
  "step_right 0 i cur scanlen s = None"
| "step_right (Suc f) i cur scanlen s =
     (if scanlen = 0 then Some cur
      else do {
        w \<leftarrow> sl_rd s cur i;
        if w = 0 then Some cur
        else do {
          cur \<leftarrow> Some (unset_mark w);
          d \<leftarrow> sl_del s cur;
          step_right f i cur (if d = 0 then scanlen - 1 else scanlen) s } })"

text \<open>The descent: \<open>None\<close> inside means that the end of the list was reached and 0 is returned.\<close>

fun spray_descend :: "nat \<Rightarrow> u32 \<Rightarrow> int \<Rightarrow> nat \<Rightarrow> u32 \<Rightarrow> ptr \<Rightarrow> u32 \<Rightarrow> sl_state \<Rightarrow> (u32 \<times> ptr option) option" where
  "spray_descend 0 n scanmax i dummy cur seed s = None"
| "spray_descend (Suc f) n scanmax i dummy cur seed s = do {
     seed \<leftarrow> Some (marsaglia seed);
     scanlen \<leftarrow> Some (unat (seed mod word_of_int (scanmax + 1)));
     (dummy, scanlen) \<leftarrow> Some (dummy_steps i (n * word_of_int (floor_log_2 n) div 2) dummy scanlen);
     cur \<leftarrow> step_right (Suc f) i cur scanlen s;
     w \<leftarrow> sl_rd s cur 0;
     if w = 0 then Some (seed, None)
     else if i = 0 then Some (seed, Some cur)
     else spray_descend f n (scanmax + SCANINC) (if i \<le> SCANSKIP then 0 else i - SCANSKIP) dummy cur seed s }"

fun skip_deleted :: "nat \<Rightarrow> ptr \<Rightarrow> sl_state \<Rightarrow> ptr option" where
  "skip_deleted 0 cur s = None"
| "skip_deleted (Suc f) cur s = do {
     d \<leftarrow> sl_del s cur;
     w \<leftarrow> sl_rd s cur 0;
     if d \<noteq> 0 \<and> w \<noteq> 0 then skip_deleted f (unset_mark w) s else Some cur }"

definition spray_delete_min :: "nat \<Rightarrow> thread_data \<Rightarrow> sl_state \<Rightarrow> (int \<times> u32 option \<times> thread_data \<times> sl_state) option" where
  "spray_delete_min f d s = do {
     n \<leftarrow> Some (nb_threads d);
     d \<leftarrow> Some (d\<lparr>seed2 := marsaglia (seed2 d)\<rparr>);
     if n = 1 \<or> seed2 d mod n = 0 then naive_delete_min f (d\<lparr>nb_clean := nb_clean d + 1\<rparr>) s
     else do {
       (seed, r) \<leftarrow> spray_descend f n (SCANMAX n) (nat (SCANHEIGHT n)) 0 (sl_head s) (seed2 d) s;
       d \<leftarrow> Some (d\<lparr>seed2 := seed\<rparr>);
       (case r of
          None \<Rightarrow> Some (0, None, d, s)
        | Some cur \<Rightarrow>
            if cur = sl_head s then Some (0, None, d, s)
            else do {
              cur \<leftarrow> skip_deleted f cur s;
              w \<leftarrow> sl_rd s cur 0;
              if w = 0 then Some (0, None, d, s)
              else do {
                dl \<leftarrow> sl_del s cur;
                (result, s) \<leftarrow> (if dl = 0 then fetch_inc_del s cur else Some (1, s));
                if result \<noteq> 0 then Some (0, None, d\<lparr>nb_collisions := nb_collisions d + 1\<rparr>, s)
                else do {
                  v \<leftarrow> sl_val s cur;
                  s \<leftarrow> mark_node_ptrs f cur s;
                  Some (1, Some v, d, s) } } }) } }"

end
