(* ===== verification/SL_Inv.thy ===== *)
theory SL_Inv
  imports SL_Intset
begin

text \<open>
  The invariant of the skip list between the operations of a thread, and what the search does to a
  list that satisfies it.
\<close>

section \<open>Reading the memory\<close>

definition snode :: "sl_state \<Rightarrow> ptr \<Rightarrow> bool" where
  "snode s p \<longleftrightarrow> (\<exists>n. sl_heap s p = Some n \<and> length (sn_next n) = 19)"

definition nx :: "sl_state \<Rightarrow> ptr \<Rightarrow> nat \<Rightarrow> ptr" where
  "nx s p i = sn_next (the (sl_heap s p)) ! i"

definition vl :: "sl_state \<Rightarrow> ptr \<Rightarrow> u32" where
  "vl s p = sn_val (the (sl_heap s p))"

definition tp :: "sl_state \<Rightarrow> ptr \<Rightarrow> nat" where
  "tp s p = sn_top (the (sl_heap s p))"

definition dead :: "sl_state \<Rightarrow> ptr \<Rightarrow> bool" where
  "dead s p \<longleftrightarrow> sn_del (the (sl_heap s p)) \<noteq> 0"

named_theorems sl_access \<open>reads of nodes that exist\<close>

lemma rd_node [sl_access]: "snode s p \<Longrightarrow> i < 19 \<Longrightarrow> sl_rd s p i = Some (nx s p i)"
  by (auto simp: snode_def sl_rd_def nx_def)

lemma val_node [sl_access]: "snode s p \<Longrightarrow> sl_val s p = Some (vl s p)"
  by (auto simp: snode_def sl_val_def vl_def)

lemma top_node [sl_access]: "snode s p \<Longrightarrow> sl_top s p = Some (tp s p)"
  by (auto simp: snode_def sl_top_def tp_def)

lemma is_marked_eq: "is_marked = is_marked_ref"
  by (rule ext) (simp add: is_marked_def is_marked_ref_def)

lemma unset_mark_eq: "unset_mark = get_unmarked_ref"
  by (rule ext) (simp add: unset_mark_def get_unmarked_ref_def)

lemma set_mark_eq: "set_mark = get_marked_ref"
  by (rule ext) (simp add: set_mark_def get_marked_ref_def)

lemmas sl_marks = is_marked_eq unset_mark_eq set_mark_eq

lemma del_node [sl_access]: "snode s p \<Longrightarrow> valid_addr p \<Longrightarrow> sl_del s p = Some (sn_del (the (sl_heap s p)))"
  by (auto simp: snode_def sl_del_def)

text \<open>A write changes one pointer and nothing else.\<close>

definition sl_frame :: "sl_state \<Rightarrow> sl_state \<Rightarrow> bool" where
  "sl_frame s s' \<longleftrightarrow> sl_head s' = sl_head s \<and> levelmax s' = levelmax s \<and> sl_junk s' = sl_junk s \<and>
     sl_seeds s' = sl_seeds s \<and> sl_al s' = sl_al s \<and>
     (\<forall>p. snode s' p = snode s p) \<and> dom (sl_heap s') = dom (sl_heap s) \<and>
     vl s' = vl s \<and> tp s' = tp s \<and> (\<forall>p. sn_del (the (sl_heap s' p)) = sn_del (the (sl_heap s p)))"

lemma frame_refl [simp]: "sl_frame s s"
  by (simp add: sl_frame_def)

lemma frame_trans: "sl_frame s s' \<Longrightarrow> sl_frame s' s'' \<Longrightarrow> sl_frame s s''"
  by (simp add: sl_frame_def)

lemma frame_dead: "sl_frame s s' \<Longrightarrow> dead s' = dead s"
  by (rule ext) (simp add: sl_frame_def dead_def)

lemma wr_node:
  assumes "snode s p" "i < 19"
  shows "\<exists>s'. sl_wr s p i w = Some s' \<and> sl_frame s s' \<and>
    (\<forall>q j. nx s' q j = (if q = p \<and> j = i then w else nx s q j))"
proof -
  obtain n where n: "sl_heap s p = Some n" "length (sn_next n) = 19" using assms(1) by (auto simp: snode_def)
  let ?s' = "s\<lparr>sl_heap := (sl_heap s)(p \<mapsto> n\<lparr>sn_next := (sn_next n)[i := w]\<rparr>)\<rparr>"
  have "sl_wr s p i w = Some ?s'" using n assms(2) by (simp add: sl_wr_def)
  moreover have "sl_frame s ?s'"
    using n by (auto simp: sl_frame_def snode_def vl_def tp_def)
  moreover have "nx ?s' q j = (if q = p \<and> j = i then w else nx s q j)" for q j
    using n assms(2) by (auto simp: nx_def nth_list_update)
  ultimately show ?thesis by blast
qed

lemma cas_node:
  assumes "snode s p" "i < 19" "nx s p i = old"
  shows "\<exists>s'. sl_cas s p i old w = Some (True, s') \<and> sl_frame s s' \<and>
    (\<forall>q j. nx s' q j = (if q = p \<and> j = i then w else nx s q j))"
  using wr_node [OF assms(1,2), of w] assms by (auto simp: sl_cas_def rd_node)

section \<open>The invariant\<close>

text \<open>The list of level \<open>i\<close> between the head and the tail.\<close>

definition lvl :: "sl_state \<Rightarrow> ptr \<Rightarrow> nat \<Rightarrow> ptr list \<Rightarrow> bool" where
  "lvl s te i xs \<longleftrightarrow> successively (\<lambda>p q. unset_mark (nx s p i) = q) (sl_head s # xs @ [te]) \<and>
     sorted_wrt (\<lambda>p q. vl s p < vl s q) xs \<and> (\<forall>p \<in> set xs. i < tp s p)"

definition node_inv :: "sl_state \<Rightarrow> ptr \<Rightarrow> ptr \<Rightarrow> bool" where
  "node_inv s te p \<longleftrightarrow> p \<noteq> sl_head s \<and> p \<noteq> te \<and> valid_addr p \<and> snode s p \<and> 0 < tp s p \<and> tp s p \<le> levelmax s \<and>
     vl s p < VAL_MAX \<and> (\<forall>j < tp s p. is_marked (nx s p j) \<longleftrightarrow> dead s p)"

definition ends_inv :: "sl_state \<Rightarrow> ptr \<Rightarrow> bool" where
  "ends_inv s te \<longleftrightarrow> 0 < levelmax s \<and> levelmax s \<le> 19 \<and>
     (\<forall>p n. sl_heap s p = Some n \<longrightarrow> length (sn_next n) = 19) \<and> (\<forall>p. length (sl_junk s p) = 19) \<and>
     valid_addr (sl_head s) \<and> valid_addr te \<and> sl_head s \<noteq> te \<and> snode s (sl_head s) \<and> snode s te \<and>
     tp s (sl_head s) = levelmax s \<and> vl s te = VAL_MAX \<and>
     (\<forall>i < levelmax s. nx s te i = 0 \<and> \<not> is_marked (nx s (sl_head s) i))"

definition sl_inv :: "sl_state \<Rightarrow> ptr \<Rightarrow> (nat \<Rightarrow> ptr list) \<Rightarrow> bool" where
  "sl_inv s te Ls \<longleftrightarrow> ends_inv s te \<and> (\<forall>p \<in> set (Ls 0). node_inv s te p) \<and>
     (\<forall>i < levelmax s. lvl s te i (Ls i)) \<and> (\<forall>i. Suc i < levelmax s \<longrightarrow> set (Ls (Suc i)) \<subseteq> set (Ls i))"

text \<open>The keys that are in the set: those of the nodes on the bottom level that are not deleted.\<close>

definition keys :: "sl_state \<Rightarrow> (nat \<Rightarrow> ptr list) \<Rightarrow> u32 set" where
  "keys s Ls = vl s ` {p \<in> set (Ls 0). \<not> dead s p}"

lemma inv_subset:
  assumes "sl_inv s te Ls" "i \<le> j" "j < levelmax s"
  shows "set (Ls j) \<subseteq> set (Ls i)"
  using assms(2,3)
proof (induction j)
  case 0
  then show ?case by simp
next
  case (Suc j)
  show ?case
  proof (cases "i = Suc j")
    case False
    then have "set (Ls j) \<subseteq> set (Ls i)" using Suc by simp
    moreover have "set (Ls (Suc j)) \<subseteq> set (Ls j)" using assms(1) Suc.prems(2) by (simp add: sl_inv_def)
    ultimately show ?thesis by blast
  qed simp
qed

lemma inv_node:
  assumes "sl_inv s te Ls" "p \<in> set (Ls i)" "i < levelmax s"
  shows "node_inv s te p \<and> i < tp s p"
  using assms inv_subset [OF assms(1), of 0 i] by (auto simp: sl_inv_def lvl_def)

lemma inv_length:
  assumes "sl_inv s te Ls" "i < levelmax s"
  shows "length (Ls i) \<le> length (Ls 0)"
proof -
  have "distinct (Ls i)" if "i < levelmax s" for i
  proof -
    have "sorted_wrt (\<lambda>p q. vl s p < vl s q) (Ls i)" using assms(1) that by (simp add: sl_inv_def lvl_def)
    then have "sorted_wrt (\<noteq>) (Ls i)" by (rule sorted_wrt_mono_rel [rotated]) auto
    then show ?thesis by (simp add: distinct_conv_nth sorted_wrt_iff_nth_less) (metis linorder_neqE_nat)
  qed
  then have "length (Ls i) = card (set (Ls i))" "length (Ls 0) = card (set (Ls 0))"
    using assms(2) by (simp_all add: distinct_card)
  then show ?thesis using card_mono [OF finite_set inv_subset [OF assms(1) le0 assms(2)]] by simp
qed

section \<open>Search\<close>

text \<open>What the loop at one level finds in the list from \<open>right\<close> on.\<close>

lemma skip_marked_spec:
  assumes "successively (\<lambda>p q. unset_mark (nx s p i) = q) (B @ [te])" "right = hd (B @ [te])" "i < 19"
    and "\<forall>p \<in> set B. snode s p \<and> (is_marked (nx s p i) \<longleftrightarrow> dead s p)" "snode s te" "nx s te i = 0" "length B < f"
  shows "\<exists>D B'. B = D @ B' \<and> (\<forall>p \<in> set D. dead s p) \<and> (B' \<noteq> [] \<longrightarrow> \<not> dead s (hd B')) \<and>
    skip_marked f s i right = Some (hd (B' @ [te]), nx s (hd (B' @ [te])) i)"
  using assms
proof (induction B arbitrary: right f)
  case Nil
  then obtain f' where "f = Suc f'" by (cases f) auto
  then show ?case using Nil by (simp add: sl_access is_marked_def)
next
  case (Cons b B)
  then obtain f' where f: "f = Suc f'" by (cases f) auto
  have b: "snode s b" "right = b" using Cons.prems by auto
  show ?case
  proof (cases "dead s b")
    case True
    have "successively (\<lambda>p q. unset_mark (nx s p i) = q) (B @ [te])" using Cons.prems(1) by (simp add: successively_Cons)
    moreover have "unset_mark (nx s b i) = hd (B @ [te])" using Cons.prems(1) by (cases B) (simp_all add: successively_Cons)
    moreover have "\<forall>p \<in> set B. snode s p \<and> (is_marked (nx s p i) \<longleftrightarrow> dead s p)" "length B < f'"
      using Cons.prems(4,7) f by simp_all
    ultimately obtain D B' where "B = D @ B'" "\<forall>p \<in> set D. dead s p" "B' \<noteq> [] \<longrightarrow> \<not> dead s (hd B')"
      "skip_marked f' s i (unset_mark (nx s b i)) = Some (hd (B' @ [te]), nx s (hd (B' @ [te])) i)"
      using Cons.IH [of "unset_mark (nx s b i)" f', OF _ _ Cons.prems(3) _ Cons.prems(5,6)] by blast
    then show ?thesis using True b Cons.prems(3,4) f
      by (intro exI [of _ "b # D"] exI [of _ B']) (simp add: sl_access)
  next
    case False
    then show ?thesis using b Cons.prems(3,4) f
      by (intro exI [of _ "[]"] exI [of _ "b # B"]) (simp add: sl_access)
  qed
qed

lemma find_pair_spec:
  assumes "successively (\<lambda>p q. unset_mark (nx s p i) = q) (B @ [te])" "right = hd (B @ [te])" "i < 19"
    and "\<forall>p \<in> set B. snode s p \<and> (is_marked (nx s p i) \<longleftrightarrow> dead s p)" "snode s te" "nx s te i = 0" "length B < f"
    and "v \<le> vl s te"
  shows "\<exists>pre run post. B = pre @ run @ post \<and> (\<forall>p \<in> set run. dead s p) \<and>
    (pre \<noteq> [] \<longrightarrow> \<not> dead s (last pre) \<and> vl s (last pre) < v) \<and>
    (post \<noteq> [] \<longrightarrow> \<not> dead s (hd post) \<and> v \<le> vl s (hd post)) \<and>
    find_pair f s i v left ln right =
      Some (last (left # pre), if pre = [] then ln else nx s (last pre) i, hd (post @ [te]))"
  using assms
proof (induction f arbitrary: B right left ln)
  case 0
  then show ?case by simp
next
  case (Suc f)
  obtain D B' where B: "B = D @ B'" and D: "\<forall>p \<in> set D. dead s p" and B': "B' \<noteq> [] \<longrightarrow> \<not> dead s (hd B')"
    and sk: "skip_marked (Suc f) s i right = Some (hd (B' @ [te]), nx s (hd (B' @ [te])) i)"
    using skip_marked_spec [OF Suc.prems(1-7)] by blast
  show ?case
  proof (cases B')
    case Nil
    then have "find_pair (Suc f) s i v left ln right = Some (left, ln, te)"
      using sk Suc.prems(5,8) by (simp add: sl_access)
    then show ?thesis using B D Nil by (intro exI [of _ "[]"] exI [of _ D]) simp
  next
    case (Cons b C)
    have b: "snode s b" "\<not> dead s b" "is_marked (nx s b i) \<longleftrightarrow> dead s b" using Suc.prems(4) B B' Cons by auto
    show ?thesis
    proof (cases "v \<le> vl s b")
      case True
      then have "find_pair (Suc f) s i v left ln right = Some (left, ln, b)"
        using sk Cons b by (simp add: sl_access)
      then show ?thesis using B D Cons b True
        by (intro exI [of _ "[]"] exI [of _ D] exI [of _ B']) simp
    next
      case False
      have st: "find_pair (Suc f) s i v left ln right = find_pair f s i v b (nx s b i) (nx s b i)"
        using sk Cons b False by (simp add: sl_access)
      have suc: "successively (\<lambda>p q. unset_mark (nx s p i) = q) (b # C @ [te])"
        using Suc.prems(1) B Cons by (simp add: successively_append_iff)
      then have "successively (\<lambda>p q. unset_mark (nx s p i) = q) (C @ [te])" by (simp add: successively_Cons)
      moreover have "nx s b i = hd (C @ [te])"
        using suc b by (cases C) (simp_all add: successively_Cons sl_marks unmarked_id)
      moreover have "length C < f" using Suc.prems(7) B Cons by simp
      moreover have "\<forall>p \<in> set C. snode s p \<and> (is_marked (nx s p i) \<longleftrightarrow> dead s p)" using Suc.prems(4) B Cons by simp
      ultimately obtain pre run post where ih: "C = pre @ run @ post" "\<forall>p \<in> set run. dead s p"
        "pre \<noteq> [] \<longrightarrow> \<not> dead s (last pre) \<and> vl s (last pre) < v"
        "post \<noteq> [] \<longrightarrow> \<not> dead s (hd post) \<and> v \<le> vl s (hd post)"
        "find_pair f s i v b (nx s b i) (nx s b i) =
           Some (last (b # pre), if pre = [] then nx s b i else nx s (last pre) i, hd (post @ [te]))"
        using Suc.IH [of C "nx s b i" b "nx s b i"] Suc.prems(3,5,6,8) by blast
      have "B = (D @ b # pre) @ run @ post" using B Cons ih(1) by simp
      moreover have "last (D @ b # pre) = last (b # pre)" by simp
      moreover have "\<not> dead s (last (b # pre)) \<and> vl s (last (b # pre)) < v" using ih(3) b False by auto
      ultimately show ?thesis using ih(2,4,5) st
        by (intro exI [of _ "D @ b # pre"] exI [of _ run] exI [of _ post]) auto
    qed
  qed
qed

definition tight :: "sl_state \<Rightarrow> u32 \<Rightarrow> ptr list \<Rightarrow> ptr list \<Rightarrow> bool" where
  "tight s v pre post \<longleftrightarrow> (pre \<noteq> [] \<longrightarrow> \<not> dead s (last pre) \<and> vl s (last pre) < v) \<and>
     (post \<noteq> [] \<longrightarrow> \<not> dead s (hd post) \<and> v \<le> vl s (hd post))"

lemma sorted_app:
  assumes "sorted_wrt (\<lambda>p q. vl s p < vl s q) (pre @ run @ post)" "tight s v pre post"
  shows "\<forall>p \<in> set pre. vl s p < v" "\<forall>p \<in> set post. v \<le> vl s p"
proof -
  show "\<forall>p \<in> set pre. vl s p < v"
  proof
    fix p assume p: "p \<in> set pre"
    then obtain a x where a: "pre = a @ [x]" by (cases pre rule: rev_cases) auto
    have "p = x \<or> vl s p < vl s x" using p assms(1) a by (auto simp: sorted_wrt_append)
    moreover have "vl s x < v" using assms(2) a by (simp add: tight_def)
    ultimately show "vl s p < v" by auto
  qed
  show "\<forall>p \<in> set post. v \<le> vl s p"
  proof
    fix p assume p: "p \<in> set post"
    then obtain x a where a: "post = x # a" by (cases post) auto
    have "p = x \<or> vl s x < vl s p" using p assms(1) a by (auto simp: sorted_wrt_append)
    moreover have "v \<le> vl s x" using assms(2) a by (simp add: tight_def)
    ultimately show "v \<le> vl s p" by auto
  qed
qed

lemma inv_lvl: "sl_inv s te Ls \<Longrightarrow> i < levelmax s \<Longrightarrow> lvl s te i (Ls i)"
  by (simp add: sl_inv_def)

lemma inv_ends: "sl_inv s te Ls \<Longrightarrow> ends_inv s te"
  by (simp add: sl_inv_def)

lemma find_level:
  assumes inv: "sl_inv s te Ls" and i: "i < levelmax s" and v: "v \<le> VAL_MAX" and f: "length (Ls 0) < f"
    and left: "left = sl_head s \<or> (left \<in> set (Ls i) \<and> \<not> dead s left \<and> vl s left < v)"
  shows "\<exists>pre run post. Ls i = pre @ run @ post \<and> (\<forall>p \<in> set run. dead s p) \<and> tight s v pre post \<and>
    find_pair f s i v left (nx s left i) (nx s left i) =
      Some (last (sl_head s # pre), nx s (last (sl_head s # pre)) i, hd (post @ [te]))"
proof -
  have e: "ends_inv s te" by (rule inv_ends [OF inv])
  have i19: "i < 19" using e i by (simp add: ends_inv_def)
  have nd: "node_inv s te p \<and> i < tp s p" if "p \<in> set (Ls i)" for p using inv_node [OF inv that i] .
  have suc: "successively (\<lambda>p q. unset_mark (nx s p i) = q) (sl_head s # Ls i @ [te])"
    using inv_lvl [OF inv i] by (simp add: lvl_def)
  have len: "length (Ls i) < f" using inv_length [OF inv i] f by simp
  have te: "snode s te" "nx s te i = 0" "vl s te = VAL_MAX" using e i by (auto simp: ends_inv_def)
  obtain A B where AB: "(A = [] \<and> left = sl_head s \<and> B = Ls i) \<or> (\<exists>A'. A = A' @ [left] \<and> Ls i = A @ B \<and> \<not> dead s left \<and> vl s left < v)"
  proof (cases "left = sl_head s")
    case False
    then obtain A' B' where "Ls i = A' @ left # B'" using left by (meson split_list)
    then show ?thesis using that [of "A' @ [left]" B'] False left by simp
  qed blast
  have split: "Ls i = A @ B" using AB by auto
  have lastA: "last (sl_head s # A) = left" using AB by auto
  have um: "\<not> is_marked (nx s left i)"
  proof (cases "left = sl_head s")
    case True
    then show ?thesis using e i by (simp add: ends_inv_def)
  next
    case False
    then have "left \<in> set (Ls i)" "\<not> dead s left" using left by auto
    then show ?thesis using nd [of left] by (simp add: node_inv_def)
  qed
  have "successively (\<lambda>p q. unset_mark (nx s p i) = q) ((sl_head s # A) @ B @ [te])" using suc split by simp
  then have sB: "successively (\<lambda>p q. unset_mark (nx s p i) = q) (B @ [te])"
    and lB: "unset_mark (nx s left i) = hd (B @ [te])"
    using lastA unfolding successively_append_iff by auto
  have rt: "nx s left i = hd (B @ [te])" using lB um by (simp add: sl_marks unmarked_id)
  have nB: "\<forall>p \<in> set B. snode s p \<and> (is_marked (nx s p i) \<longleftrightarrow> dead s p)"
    using nd split by (auto simp: node_inv_def)
  have "length B < f" using len split by simp
  then obtain pre run post where fp: "B = pre @ run @ post" "\<forall>p \<in> set run. dead s p"
    "pre \<noteq> [] \<longrightarrow> \<not> dead s (last pre) \<and> vl s (last pre) < v"
    "post \<noteq> [] \<longrightarrow> \<not> dead s (hd post) \<and> v \<le> vl s (hd post)"
    "find_pair f s i v left (nx s left i) (nx s left i) =
       Some (last (left # pre), if pre = [] then nx s left i else nx s (last pre) i, hd (post @ [te]))"
    using find_pair_spec [OF sB rt i19 nB te(1,2), of f v left "nx s left i"] v te(3) by auto
  have l: "last (sl_head s # (A @ pre)) = last (left # pre)" using lastA by (cases pre) (simp_all split: if_splits)
  have t: "tight s v (A @ pre) post"
    using fp(3,4) AB left by (auto simp: tight_def split: if_splits)
  show ?thesis
    using fp(1,2,5) split l t by (intro exI [of _ "A @ pre"] exI [of _ run] exI [of _ post]) (simp split: if_splits)
qed

lemma succ_upd:
  assumes "successively P xs" "distinct xs" "\<And>p q. p \<noteq> last xs \<Longrightarrow> P p q \<Longrightarrow> Q p q"
  shows "successively Q xs"
  unfolding successively_conv_nth
proof (intro allI impI)
  fix k assume k: "Suc k < length xs"
  then have "P (xs ! k) (xs ! Suc k)" using assms(1) by (simp add: successively_conv_nth)
  moreover have "xs ! k \<noteq> last xs"
  proof
    assume "xs ! k = last xs"
    moreover have "last xs = xs ! (length xs - 1)" using k by (intro last_conv_nth) auto
    ultimately have "k = length xs - 1" using k assms(2) by (simp add: nth_eq_iff_index_eq)
    then show False using k by simp
  qed
  ultimately show "Q (xs ! k) (xs ! Suc k)" by (rule assms(3) [rotated])
qed

lemma vl_distinct: "sorted_wrt (\<lambda>p q. vl s p < vl s q) xs \<Longrightarrow> distinct xs"
  by (induction xs) auto

end
