(* ===== verification/SL_Search.thy ===== *)
theory SL_Search
  imports SL_Inv
begin

text \<open>The search as a whole: it returns, keeps the invariant and the keys, and finds the position.\<close>

lemma unlink_inv:
  assumes inv: "sl_inv s te Ls" and i: "i < levelmax s" and L: "Ls i = pre @ run @ post"
    and live: "pre \<noteq> [] \<longrightarrow> \<not> dead s (last pre)"
    and up: "Suc i < levelmax s \<longrightarrow> set run \<inter> set (Ls (Suc i)) = {}"
    and fr: "sl_frame s s'"
    and upd: "\<forall>q j. nx s' q j = (if q = last (sl_head s # pre) \<and> j = i then hd (post @ [te]) else nx s q j)"
  shows "sl_inv s' te (Ls(i := pre @ post))"
proof -
  let ?l = "last (sl_head s # pre)" and ?r = "hd (post @ [te])"
  have e: "ends_inv s te" by (rule inv_ends [OF inv])
  have nd: "node_inv s te p \<and> i < tp s p" if "p \<in> set (Ls i)" for p using inv_node [OF inv that i] .
  have F: "sl_head s' = sl_head s" "levelmax s' = levelmax s" "vl s' = vl s" "tp s' = tp s" "dead s' = dead s"
    "sl_junk s' = sl_junk s" "\<And>p. snode s' p = snode s p"
    using fr frame_dead [OF fr] by (simp_all add: sl_frame_def)
  have l0: "i < levelmax s \<Longrightarrow> lvl s te i (Ls i)" for i by (rule inv_lvl [OF inv])
  have lv: "successively (\<lambda>p q. unset_mark (nx s p i) = q) ((sl_head s # pre) @ run @ post @ [te])"
    and sw: "sorted_wrt (\<lambda>p q. vl s p < vl s q) (pre @ run @ post)"
    using l0 [OF i] L by (simp_all add: lvl_def)
  have hn: "sl_head s \<notin> set (Ls i)" using nd by (auto simp: node_inv_def)
  have dis: "distinct (sl_head s # pre @ run @ post)" using vl_distinct [OF sw] hn L by simp
  have rv: "valid_addr ?r" using e nd L by (cases post) (auto simp: ends_inv_def node_inv_def)
  have r19: "?r \<noteq> sl_head s" using e nd L by (cases post) (auto simp: ends_inv_def node_inv_def)
  have ll: "?l = sl_head s \<or> ?l \<in> set pre \<and> \<not> dead s ?l"
    using live by (cases "pre = []") simp_all
  have lte: "?l \<noteq> te" using ll e nd L by (auto simp: ends_inv_def node_inv_def)
  have um: "\<not> is_marked ?r" using rv by (simp add: sl_marks)
  have "dom (sl_heap s') = dom (sl_heap s)" using fr by (simp add: sl_frame_def)
  then have len: "length (sn_next n) = 19" if "sl_heap s' p = Some n" for p n
  proof -
    have "sl_heap s p \<noteq> None" using that \<open>dom (sl_heap s') = dom (sl_heap s)\<close> by (metis domIff option.simps(3))
    then have "snode s p" using e by (auto simp: ends_inv_def snode_def)
    then have "snode s' p" by (simp only: F(7))
    then show ?thesis using that by (simp add: snode_def)
  qed
  have e': "ends_inv s' te"
    using e um lte len unfolding ends_inv_def F by (auto simp: upd)
  have mk: "is_marked (nx s' p j) \<longleftrightarrow> is_marked (nx s p j)" if "node_inv s te p" "j < tp s p" for p j
    using that ll um unfolding node_inv_def by (auto simp: upd)
  have ni: "node_inv s' te p" if "node_inv s te p" for p
    using that mk [OF that] by (simp add: node_inv_def F)
  have s1: "successively (\<lambda>p q. unset_mark (nx s' p i) = q) (sl_head s # pre)"
  proof (rule succ_upd)
    show "successively (\<lambda>p q. unset_mark (nx s p i) = q) (sl_head s # pre)"
      using lv unfolding successively_append_iff by blast
    show "distinct (sl_head s # pre)" using dis by simp
  qed (simp add: upd)
  have "successively (\<lambda>p q. unset_mark (nx s p i) = q) (post @ [te])"
    using lv unfolding successively_append_iff by blast
  then have s2: "successively (\<lambda>p q. unset_mark (nx s' p i) = q) (post @ [te])"
  proof (rule successively_mono)
    fix x y
    assume "x \<in> set (post @ [te])" "unset_mark (nx s x i) = y"
    moreover have "x \<noteq> ?l" using \<open>x \<in> set (post @ [te])\<close> dis lte ll L by auto
    ultimately show "unset_mark (nx s' x i) = y" by (simp add: upd)
  qed
  have lk: "unset_mark (nx s' ?l i) = ?r" using rv by (simp add: upd sl_marks)
  have "successively (\<lambda>p q. unset_mark (nx s' p i) = q) ((sl_head s # pre) @ (post @ [te]))"
    using s1 s2 lk unfolding successively_append_iff by blast
  then have li: "lvl s' te i (pre @ post)"
    using sw l0 [OF i] L by (auto simp: lvl_def F sorted_wrt_append)
  have lj: "lvl s' te j (Ls j)" if "j < levelmax s" "j \<noteq> i" for j
    using l0 [OF that(1)] that(2) by (simp add: lvl_def F upd)
  have sub1: "set (Ls (Suc i)) \<subseteq> set (pre @ post)" if up1: "Suc i < levelmax s"
  proof -
    have "set (Ls (Suc i)) \<subseteq> set (Ls i)" using inv up1 by (simp add: sl_inv_def)
    then show ?thesis using up up1 L by auto
  qed
  have sub: "set (Ls (Suc j)) \<subseteq> set (Ls j)" if "Suc j < levelmax s" for j using inv that by (simp add: sl_inv_def)
  show ?thesis
    unfolding sl_inv_def F
  proof (intro conjI allI impI ballI)
    show "ends_inv s' te" by (rule e')
    show "node_inv s' te p" if "p \<in> set ((Ls(i := pre @ post)) 0)" for p
    proof (rule ni)
      have "p \<in> set (Ls 0)" using that L by (cases "i = 0") auto
      then show "node_inv s te p" using inv by (simp add: sl_inv_def)
    qed
    show "lvl s' te j ((Ls(i := pre @ post)) j)" if "j < levelmax s" for j
      using that li lj by (cases "j = i") simp_all
    show "set ((Ls(i := pre @ post)) (Suc j)) \<subseteq> set ((Ls(i := pre @ post)) j)" if "Suc j < levelmax s" for j
      using that sub [OF that] sub1 L by (cases "j = i"; cases "Suc j = i") auto
  qed
qed

lemma cut_inv:
  assumes inv: "sl_inv s te Ls" and i: "i < levelmax s" and L: "Ls i = pre @ run @ post"
    and run: "\<forall>p \<in> set run. dead s p" and t: "tight s v pre post"
    and up: "Suc i < levelmax s \<longrightarrow> (\<exists>pre' post'. Ls (Suc i) = pre' @ post' \<and> tight s v pre' post')"
    and fr: "sl_frame s s'"
    and upd: "\<forall>q j. nx s' q j = (if q = last (sl_head s # pre) \<and> j = i then hd (post @ [te]) else nx s q j)"
  shows "sl_inv s' te (Ls(i := pre @ post))"
proof -
  have l0: "i < levelmax s \<Longrightarrow> lvl s te i (Ls i)" for i by (rule inv_lvl [OF inv])
  have sw: "sorted_wrt (\<lambda>p q. vl s p < vl s q) (pre @ run @ post)" using l0 [OF i] L by (simp add: lvl_def)
  have "set run \<inter> set (Ls (Suc i)) = {}" if up1: "Suc i < levelmax s"
  proof (rule equals0I)
    fix p assume pp: "p \<in> set run \<inter> set (Ls (Suc i))"
    then have p: "p \<in> set (Ls (Suc i))" and pr: "p \<in> set run" by simp_all
    obtain pre' post' where u: "Ls (Suc i) = pre' @ post'" "tight s v pre' post'" using up up1 by blast
    have sub: "set (Ls (Suc i)) \<subseteq> set (Ls i)" using inv up1 by (simp add: sl_inv_def)
    have sw': "sorted_wrt (\<lambda>p q. vl s p < vl s q) (pre' @ post')" using l0 [OF up1] u(1) by (simp add: lvl_def)
    note lo = sorted_app [OF sw t]
    show False
    proof -
      have d: "dead s p" using pr run by blast
      from p u(1) consider "p \<in> set pre'" | "p \<in> set post'" by auto
      then show False
      proof cases
        case 1
        then obtain a x where a: "pre' = a @ [x]" by (cases pre' rule: rev_cases) auto
        have x: "\<not> dead s x" "vl s x < v" using u(2) a by (simp_all add: tight_def)
        then have "p \<noteq> x" using d by auto
        then have px: "vl s p < vl s x" using 1 a sw' by (auto simp: sorted_wrt_append)
        have "x \<in> set pre \<or> x \<in> set run \<or> x \<in> set post" using sub u(1) a L by auto
        then have "x \<in> set pre" using x run lo by auto
        then have "vl s x < vl s p" using pr sw by (auto simp: sorted_wrt_append)
        then show False using px by simp
      next
        case 2
        then obtain x a where a: "post' = x # a" by (cases post') auto
        have x: "\<not> dead s x" "v \<le> vl s x" using u(2) a by (simp_all add: tight_def)
        then have "p \<noteq> x" using d by auto
        then have px: "vl s x < vl s p" using 2 a sw' by (auto simp: sorted_wrt_append)
        have "x \<in> set pre \<or> x \<in> set run \<or> x \<in> set post" using sub u(1) a L by auto
        then have "x \<in> set post" using x run lo by auto
        then have "vl s p < vl s x" using pr sw by (auto simp: sorted_wrt_append)
        then show False using px by simp
      qed
    qed
  qed
  then show ?thesis
    by (intro unlink_inv [OF inv i L _ _ fr upd]) (use t in \<open>auto simp: tight_def\<close>)
qed

text \<open>The state after a search for \<open>v\<close>, and the arrays it fills.\<close>

definition found :: "sl_state \<Rightarrow> ptr \<Rightarrow> (nat \<Rightarrow> ptr list) \<Rightarrow> u32 \<Rightarrow> nat \<Rightarrow> ptr \<Rightarrow> ptr \<Rightarrow> bool" where
  "found s te Ls v i l r \<longleftrightarrow> (\<exists>pre post. Ls i = pre @ post \<and> tight s v pre post \<and>
     l = last (sl_head s # pre) \<and> r = hd (post @ [te]))"

definition shrunk :: "sl_state \<Rightarrow> (nat \<Rightarrow> ptr list) \<Rightarrow> (nat \<Rightarrow> ptr list) \<Rightarrow> bool" where
  "shrunk s Ls Ls' \<longleftrightarrow> (\<forall>i. set (Ls' i) \<subseteq> set (Ls i) \<and> (\<forall>p \<in> set (Ls i). dead s p \<or> p \<in> set (Ls' i)) \<and>
     length (Ls' i) \<le> length (Ls i))"

lemma shrunk_refl [simp]: "shrunk s Ls Ls"
  by (auto simp: shrunk_def)

lemma shrunk_trans: "shrunk s Ls Ls' \<Longrightarrow> shrunk s Ls' Ls'' \<Longrightarrow> shrunk s Ls Ls''"
  unfolding shrunk_def by (meson le_trans subset_trans)

lemma shrunk_keys:
  assumes "shrunk s Ls Ls'" "vl s' = vl s" "dead s' = dead s"
  shows "keys s' Ls' = keys s Ls"
proof -
  have "{p \<in> set (Ls' 0). \<not> dead s p} = {p \<in> set (Ls 0). \<not> dead s p}"
    using assms(1) by (auto simp: shrunk_def)
  then show ?thesis by (simp add: keys_def assms(2,3))
qed

lemma search_levels_spec:
  assumes "sl_inv s te Ls" "i \<le> levelmax s" "v \<le> VAL_MAX" "length (Ls 0) < f"
    and "left = sl_head s \<or> (i < levelmax s \<and> left \<in> set (Ls i) \<and> \<not> dead s left \<and> vl s left < v)"
    and "i < levelmax s \<longrightarrow> (\<exists>pre post. Ls i = pre @ post \<and> tight s v pre post)"
  shows "\<exists>s' Ls' L R. search_levels f i v left lefts rights s = Some (s', Some (L @ lefts, R @ rights)) \<and>
    sl_inv s' te Ls' \<and> sl_frame s s' \<and> shrunk s Ls Ls' \<and> length L = i \<and> length R = i \<and>
    (\<forall>j \<ge> i. Ls' j = Ls j) \<and> (\<forall>j < i. found s' te Ls' v j (L ! j) (R ! j)) \<and>
    (\<forall>q j. q \<noteq> sl_head s \<and> q \<notin> set (Ls j) \<longrightarrow> nx s' q j = nx s q j)"
  using assms
proof (induction i arbitrary: s Ls left lefts rights)
  case 0
  then show ?case by (intro exI [of _ s] exI [of _ Ls] exI [of _ "[]"]) simp
next
  case (Suc i)
  have i: "i < levelmax s" using Suc.prems(2) by simp
  have e: "ends_inv s te" by (rule inv_ends [OF Suc.prems(1)])
  have i19: "i < 19" using e i by (simp add: ends_inv_def)
  have left: "left = sl_head s \<or> (left \<in> set (Ls i) \<and> \<not> dead s left \<and> vl s left < v)"
    using Suc.prems(5) Suc.prems(1) by (auto simp: sl_inv_def)
  obtain pre run post where fl: "Ls i = pre @ run @ post" "\<forall>p \<in> set run. dead s p" "tight s v pre post"
    "find_pair f s i v left (nx s left i) (nx s left i) =
      Some (last (sl_head s # pre), nx s (last (sl_head s # pre)) i, hd (post @ [te]))"
    using find_level [OF Suc.prems(1) i Suc.prems(3,4) left] by blast
  let ?l = "last (sl_head s # pre)" and ?r = "hd (post @ [te])"
  have nd: "node_inv s te p \<and> i < tp s p" if "p \<in> set (Ls i)" for p using inv_node [OF Suc.prems(1) that i] .
  have sl: "snode s left" "\<not> is_marked (nx s left i)"
    using left e nd i by (auto simp: ends_inv_def node_inv_def)
  have ll: "?l = sl_head s \<or> (?l \<in> set (Ls i) \<and> \<not> dead s ?l \<and> vl s ?l < v)"
    using fl(1,3) by (cases "pre = []") (simp_all add: tight_def)
  have sn: "snode s ?l" using ll e nd by (auto simp: ends_inv_def node_inv_def)
  obtain s1 where s1: "(if nx s ?l i \<noteq> ?r then sl_cas s ?l i (nx s ?l i) ?r else Some (True, s)) = Some (True, s1)"
    "sl_frame s s1" "\<forall>q j. nx s1 q j = (if q = ?l \<and> j = i then ?r else nx s q j)"
  proof (cases "nx s ?l i = ?r")
    case True
    then have "\<forall>q j. nx s q j = (if q = ?l \<and> j = i then ?r else nx s q j)" by metis
    then show ?thesis using that [of s] True by (simp only: if_False not_True_eq_False frame_refl simp_thms)
  next
    case False
    then show ?thesis using cas_node [OF sn i19 refl, of ?r] that by auto
  qed
  let ?Ls1 = "Ls(i := pre @ post)"
  have inv1: "sl_inv s1 te ?Ls1"
    by (rule cut_inv [OF Suc.prems(1) i fl(1-3) _ s1(2,3)]) (use Suc.prems(6) in blast)
  have F: "sl_head s1 = sl_head s" "levelmax s1 = levelmax s" "vl s1 = vl s" "dead s1 = dead s" "tp s1 = tp s"
    using s1(2) frame_dead [OF s1(2)] by (simp_all add: sl_frame_def)
  have t1: "tight s1 v pre post" using fl(3) by (simp add: tight_def F)
  have l1: "?l = sl_head s1 \<or> (i < levelmax s1 \<and> ?l \<in> set (?Ls1 i) \<and> \<not> dead s1 ?l \<and> vl s1 ?l < v)"
    using fl(3) i by (cases "pre = []") (simp_all add: tight_def F)
  have len1: "length (?Ls1 0) < f" using Suc.prems(4) fl(1) by (cases "i = 0") auto
  have i1: "i \<le> levelmax s1" using i F(2) by simp
  have up1: "i < levelmax s1 \<longrightarrow> (\<exists>pre post. ?Ls1 i = pre @ post \<and> tight s1 v pre post)" using t1 by auto
  obtain s' Ls' L R where ih:
    "search_levels f i v ?l (?l # lefts) (?r # rights) s1 = Some (s', Some (L @ ?l # lefts, R @ ?r # rights))"
    "sl_inv s' te Ls'" "sl_frame s1 s'" "shrunk s1 ?Ls1 Ls'" "length L = i" "length R = i"
    "\<forall>j \<ge> i. Ls' j = ?Ls1 j" "\<forall>j < i. found s' te Ls' v j (L ! j) (R ! j)"
    "\<forall>q j. q \<noteq> sl_head s1 \<and> q \<notin> set (?Ls1 j) \<longrightarrow> nx s' q j = nx s1 q j"
    using Suc.IH [OF inv1 i1 Suc.prems(3) len1 l1 up1, of "?l # lefts" "?r # rights"] by blast
  have st: "search_levels f (Suc i) v left lefts rights s = search_levels f i v ?l (?l # lefts) (?r # rights) s1"
    using sl fl(4) s1(1) i19 by (simp add: sl_access split del: if_split del: last.simps)
  have sh: "shrunk s Ls Ls'"
  proof (rule shrunk_trans)
    show "shrunk s Ls ?Ls1" using fl(1,2) by (auto simp: shrunk_def)
    show "shrunk s ?Ls1 Ls'" using ih(4) by (simp add: shrunk_def F)
  qed
  have fr: "sl_frame s s'" by (rule frame_trans [OF s1(2) ih(3)])
  have fd: "found s' te Ls' v j ((L @ [?l]) ! j) ((R @ [?r]) ! j)" if "j < Suc i" for j
  proof (cases "j = i")
    case True
    have "Ls' i = pre @ post" using ih(7) by simp
    moreover have "tight s' v pre post" using t1 ih(3) frame_dead [OF ih(3)] by (simp add: tight_def sl_frame_def)
    moreover have "sl_head s' = sl_head s" using fr by (simp add: sl_frame_def)
    ultimately show ?thesis using True ih(5,6) by (auto simp: found_def nth_append)
  next
    case False
    then show ?thesis using that ih(5,6,8) by (simp add: nth_append)
  qed
  have nq: "nx s' q j = nx s q j" if q: "q \<noteq> sl_head s" "q \<notin> set (Ls j)" for q j
  proof -
    have "q \<notin> set (?Ls1 j)" using q fl(1) by (cases "j = i") auto
    then have "nx s' q j = nx s1 q j" using ih(9) q(1) F(1) by simp
    also have "\<dots> = (if q = ?l \<and> j = i then ?r else nx s q j)" using s1(3) by blast
    also have "\<dots> = nx s q j" by (rule if_not_P) (use ll q in auto)
    finally show ?thesis .
  qed
  show ?case
  proof (intro exI conjI)
    show "search_levels f (Suc i) v left lefts rights s = Some (s', Some ((L @ [?l]) @ lefts, (R @ [?r]) @ rights))"
      using st ih(1) by simp
    show "\<forall>j \<ge> Suc i. Ls' j = Ls j" using ih(7) by auto
  qed (use ih(2,5,6) sh fr fd nq in auto)
qed

lemma fraser_search_spec:
  assumes "sl_inv s te Ls" "v \<le> VAL_MAX" "length (Ls 0) < f"
  shows "\<exists>s' Ls' L R. fraser_search f v s = Some (s', L, R) \<and>
    sl_inv s' te Ls' \<and> sl_frame s s' \<and> shrunk s Ls Ls' \<and> length L = levelmax s \<and> length R = levelmax s \<and>
    (\<forall>j < levelmax s. found s' te Ls' v j (L ! j) (R ! j)) \<and>
    (\<forall>q j. q \<noteq> sl_head s \<and> q \<notin> set (Ls j) \<longrightarrow> nx s' q j = nx s q j)"
proof -
  obtain f' where f: "f = Suc f'" using assms(3) by (cases f) auto
  show ?thesis
    using search_levels_spec [OF assms(1) le_refl assms(2,3), of "sl_head s" "[]" "[]"] f by auto
qed

end
