(* ===== verification/SL_Ops.thy ===== *)
theory SL_Ops
  imports SL_Search
begin

text \<open>
  The lock-free operations against a set of keys. \<open>sl_rep ns ok f s K m\<close>: the state represents the
  key set \<open>K\<close>, the allocator grants \<open>m\<close> more calls and the fuel \<open>f\<close> is enough for them.
\<close>

definition sl_rep :: "u64 \<Rightarrow> (ssalloc_st \<Rightarrow> ptr set \<Rightarrow> nat \<Rightarrow> bool) \<Rightarrow> nat \<Rightarrow> sl_state \<Rightarrow> u32 set \<Rightarrow> nat \<Rightarrow> bool" where
  "sl_rep ns ok f s K m \<longleftrightarrow> (\<exists>te Ls L. sl_inv s te Ls \<and> keys s Ls = K \<and> {sl_head s, te} \<union> set (Ls 0) \<subseteq> L \<and>
     ok (sl_al s) L m \<and> node_bytes (levelmax s) = ns \<and> length (Ls 0) + m + 2 < f)"

section \<open>What the search found\<close>

lemma inv_al [simp]: "sl_inv (s\<lparr>sl_al := a\<rparr>) te Ls = sl_inv s te Ls" "keys (s\<lparr>sl_al := a\<rparr>) Ls = keys s Ls"
  by (simp_all add: sl_inv_def ends_inv_def node_inv_def lvl_def keys_def snode_def nx_def vl_def tp_def dead_def [abs_def])

lemma inv_seeds [simp]: "sl_inv (s\<lparr>sl_seeds := a\<rparr>) te Ls = sl_inv s te Ls" "keys (s\<lparr>sl_seeds := a\<rparr>) Ls = keys s Ls"
  by (simp_all add: sl_inv_def ends_inv_def node_inv_def lvl_def keys_def snode_def nx_def vl_def tp_def dead_def [abs_def])

lemma keys_less: "sl_inv s te Ls \<Longrightarrow> k \<in> keys s Ls \<Longrightarrow> k < VAL_MAX"
  by (auto simp: keys_def sl_inv_def node_inv_def)

lemma found_bottom:
  assumes inv: "sl_inv s te Ls" and fd: "found s te Ls v 0 l r"
  shows "(r = te \<and> (\<forall>k \<in> keys s Ls. k < v)) \<or>
    (r \<noteq> te \<and> r \<in> set (Ls 0) \<and> \<not> dead s r \<and> v \<le> vl s r \<and> (\<forall>k \<in> keys s Ls. v \<le> k \<longrightarrow> vl s r \<le> k))"
proof -
  obtain pre post where L: "Ls 0 = pre @ post" "tight s v pre post" "r = hd (post @ [te])"
    using fd by (auto simp: found_def)
  have "0 < levelmax s" using inv_ends [OF inv] by (simp add: ends_inv_def)
  then have "lvl s te 0 (Ls 0)" by (rule inv_lvl [OF inv])
  then have sw: "sorted_wrt (\<lambda>p q. vl s p < vl s q) (pre @ [] @ post)" using L(1) by (simp add: lvl_def)
  note lo = sorted_app [OF sw L(2)]
  show ?thesis
  proof (cases post)
    case Nil
    then show ?thesis using L lo by (auto simp: keys_def)
  next
    case (Cons b C)
    then have rb: "r = b" "r \<in> set (Ls 0)" using L by simp_all
    have nt: "r \<noteq> te" using inv rb by (auto simp: sl_inv_def node_inv_def)
    have "\<not> dead s b" "v \<le> vl s b" using L(2) Cons by (simp_all add: tight_def)
    moreover have "vl s b \<le> k" if k: "k \<in> keys s Ls" "v \<le> k" for k
    proof -
      obtain p where p: "p \<in> set (Ls 0)" "k = vl s p" using k(1) by (auto simp: keys_def)
      then have "p \<notin> set pre" using lo(1) k(2) by (auto simp: not_le [symmetric])
      then have "p = b \<or> p \<in> set C" using p(1) L(1) Cons by auto
      then show ?thesis using sw Cons p(2) by (auto simp: sorted_wrt_append intro: less_imp_le)
    qed
    ultimately show ?thesis using rb nt by simp
  qed
qed

lemma found_key:
  assumes inv: "sl_inv s te Ls" and fd: "found s te Ls v 0 l r" and v: "v < VAL_MAX"
  shows "vl s r = v \<longleftrightarrow> v \<in> keys s Ls"
proof -
  have te: "vl s te = VAL_MAX" using inv_ends [OF inv] by (simp add: ends_inv_def)
  show ?thesis
    using found_bottom [OF inv fd] v te
    by (auto simp: keys_def not_less [symmetric] intro: image_eqI [of v "vl s" r] dest!: spec [of _ v])
qed

lemma found_live:
  assumes inv: "sl_inv s te Ls" and fd: "found s te Ls v 0 l r" and m: "vl s r = v" "v < VAL_MAX"
  shows "\<not> dead s r \<and> r \<in> set (Ls 0) \<and> node_inv s te r"
  using found_bottom [OF inv fd] m inv inv_ends [OF inv] by (auto simp: sl_inv_def ends_inv_def)

lemma found_node:
  assumes inv: "sl_inv s te Ls" and fd: "found s te Ls v 0 l r"
  shows "snode s r \<and> valid_addr r \<and> (r = te \<or> \<not> dead s r)"
  using found_bottom [OF inv fd] inv inv_ends [OF inv] by (auto simp: sl_inv_def ends_inv_def node_inv_def)

section \<open>Find\<close>

lemma array_alloc_eq: "array_alloc s = (fst (ssalloc (of_nat (levelmax s) * 8) (sl_al s)),
    s\<lparr>sl_al := snd (ssalloc (of_nat (levelmax s) * 8) (sl_al s))\<rparr>)"
  by (simp add: array_alloc_def split_beta)

lemma search_al:
  assumes "sl_inv s te Ls" "v \<le> VAL_MAX" "length (Ls 0) < f"
  shows "\<exists>s' Ls' L R. fraser_search f v s = Some (s', L, R) \<and> sl_inv s' te Ls' \<and> sl_frame s s' \<and>
    shrunk s Ls Ls' \<and> length L = levelmax s \<and> length R = levelmax s \<and>
    (\<forall>j < levelmax s. found s' te Ls' v j (L ! j) (R ! j)) \<and> keys s' Ls' = keys s Ls"
proof -
  obtain s' Ls' L R where s: "fraser_search f v s = Some (s', L, R)" "sl_inv s' te Ls'" "sl_frame s s'"
    "shrunk s Ls Ls'" "length L = levelmax s" "length R = levelmax s"
    "\<forall>j < levelmax s. found s' te Ls' v j (L ! j) (R ! j)"
    using fraser_search_spec [OF assms] by blast
  moreover have "keys s' Ls' = keys s Ls"
    using shrunk_keys [OF s(4)] s(3) frame_dead [OF s(3)] by (simp add: sl_frame_def)
  ultimately show ?thesis by blast
qed

section \<open>Deleting a node\<close>

lemma mark_slot_spec:
  assumes "snode s n" "i < 19" "0 < f"
  shows "\<exists>s'. mark_slot f n i s = Some s' \<and> sl_frame s s' \<and>
    (\<forall>q j. nx s' q j = (if q = n \<and> j = i then get_marked_ref (nx s n i) else nx s q j))"
proof -
  obtain f' where f: "f = Suc f'" using assms(3) by (cases f) auto
  show ?thesis
  proof (cases "is_marked (nx s n i)")
    case True
    then show ?thesis using assms f by (auto simp: sl_access sl_marks mark_marked)
  next
    case False
    then show ?thesis using cas_node [OF assms(1,2) refl, of "set_mark (nx s n i)"] assms f
      by (auto simp: sl_access sl_marks)
  qed
qed

lemma mark_slots_spec:
  assumes "snode s n" "t \<le> 19" "0 < f"
  shows "\<exists>s'. mark_slots f t n s = Some s' \<and> sl_frame s s' \<and>
    (\<forall>q j. nx s' q j = (if q = n \<and> j < t then get_marked_ref (nx s n j) else nx s q j))"
  using assms
proof (induction t arbitrary: s)
  case 0
  then show ?case by (intro exI [of _ s]) simp
next
  case (Suc t)
  obtain s1 where s1: "mark_slot f n t s = Some s1" "sl_frame s s1"
    "\<forall>q j. nx s1 q j = (if q = n \<and> j = t then get_marked_ref (nx s n t) else nx s q j)"
    using mark_slot_spec [of s n t f] Suc.prems by auto
  have "snode s1 n" using s1(2) Suc.prems(1) by (simp add: sl_frame_def)
  then obtain s2 where s2: "mark_slots f t n s1 = Some s2" "sl_frame s1 s2"
    "\<forall>q j. nx s2 q j = (if q = n \<and> j < t then get_marked_ref (nx s1 n j) else nx s1 q j)"
    using Suc.IH [of s1] Suc.prems by auto
  have "nx s2 q j = (if q = n \<and> j < Suc t then get_marked_ref (nx s n j) else nx s q j)" for q j
    using s1(3) s2(3) by (auto simp: less_Suc_eq)
  then show ?case using s1(1) s2(1) frame_trans [OF s1(2) s2(2)] by auto
qed

text \<open>The effect of claiming a live node and marking its pointers.\<close>

definition killed :: "ptr \<Rightarrow> sl_state \<Rightarrow> sl_state \<Rightarrow> bool" where
  "killed r s s' \<longleftrightarrow> sl_head s' = sl_head s \<and> levelmax s' = levelmax s \<and> sl_junk s' = sl_junk s \<and>
     sl_seeds s' = sl_seeds s \<and> sl_al s' = sl_al s \<and> dom (sl_heap s') = dom (sl_heap s) \<and>
     (\<forall>p. snode s' p = snode s p) \<and> vl s' = vl s \<and> tp s' = tp s \<and> dead s' = (\<lambda>p. p = r \<or> dead s p) \<and>
     (\<forall>q j. nx s' q j = (if q = r \<and> j < tp s r then get_marked_ref (nx s r j) else nx s q j))"

lemma kill_node:
  assumes "snode s r" "\<not> dead s r" "tp s r \<le> 19" "0 < f"
  shows "\<exists>s1 s2. fetch_inc_del s r = Some (0, s1) \<and> mark_node_ptrs f r s1 = Some s2 \<and> killed r s s2"
proof -
  obtain n where n: "sl_heap s r = Some n" "length (sn_next n) = 19" using assms(1) by (auto simp: snode_def)
  let ?s1 = "s\<lparr>sl_heap := (sl_heap s)(r \<mapsto> n\<lparr>sn_del := sn_del n + 1\<rparr>)\<rparr>"
  have f: "fetch_inc_del s r = Some (0, ?s1)" using n assms(2) by (simp add: fetch_inc_del_def dead_def)
  have a: "snode ?s1 p = snode s p" "vl ?s1 = vl s" "tp ?s1 = tp s" "nx ?s1 = nx s" "dead ?s1 = (\<lambda>p. p = r \<or> dead s p)" for p
    using n assms(2) by (auto simp: snode_def vl_def tp_def nx_def dead_def fun_eq_iff)
  obtain s2 where s2: "mark_slots f (tp s r) r ?s1 = Some s2" "sl_frame ?s1 s2"
    "\<forall>q j. nx s2 q j = (if q = r \<and> j < tp s r then get_marked_ref (nx s r j) else nx s q j)"
    using mark_slots_spec [of ?s1 r "tp s r" f] assms a by auto
  have "mark_node_ptrs f r ?s1 = Some s2" using s2(1) assms(1) a by (simp add: mark_node_ptrs_def sl_access)
  moreover have "dom (sl_heap ?s1) = dom (sl_heap s)" using n by auto
  then have "killed r s s2" using s2(2,3) frame_dead [OF s2(2)] a unfolding killed_def sl_frame_def by simp
  ultimately show ?thesis using f by blast
qed

lemma unmark_of_mark: "get_unmarked_ref (get_marked_ref p) = get_unmarked_ref p"
  by (cases "is_marked_ref p") (simp_all add: mark_marked unmark_mark unmarked_id)

lemma kill_inv:
  assumes inv: "sl_inv s te Ls" and r: "r \<in> set (Ls 0)" and k: "killed r s s'"
  shows "sl_inv s' te Ls" "keys s' Ls = keys s Ls - {vl s r}"
proof -
  have K: "sl_head s' = sl_head s" "levelmax s' = levelmax s" "sl_junk s' = sl_junk s" "\<And>p. snode s' p = snode s p"
    "vl s' = vl s" "tp s' = tp s" "dead s' = (\<lambda>p. p = r \<or> dead s p)" "dom (sl_heap s') = dom (sl_heap s)"
    "\<And>q j. nx s' q j = (if q = r \<and> j < tp s r then get_marked_ref (nx s r j) else nx s q j)"
    using k by (simp_all add: killed_def)
  have e: "ends_inv s te" by (rule inv_ends [OF inv])
  have nr: "node_inv s te r" using inv r by (simp add: sl_inv_def)
  have um: "unset_mark (nx s' q j) = unset_mark (nx s q j)" for q j
    using unmark_of_mark by (simp add: K(9) sl_marks)
  have len: "length (sn_next n) = 19" if "sl_heap s' p = Some n" for p n
  proof -
    have "p \<in> dom (sl_heap s)" using that by (simp add: K(8) [symmetric] domI)
    then have "snode s p" using e by (auto simp: ends_inv_def snode_def)
    then have "snode s' p" by (simp only: K(4))
    then show ?thesis using that by (simp add: snode_def)
  qed
  have "ends_inv s' te" using e nr len unfolding ends_inv_def node_inv_def K by auto
  moreover have "node_inv s' te p" if "node_inv s te p" for p
    using that by (auto simp: node_inv_def K sl_marks)
  moreover have "lvl s' te i (Ls i)" if "i < levelmax s" for i
    using inv_lvl [OF inv that] unfolding lvl_def um K(1-7) .
  ultimately show "sl_inv s' te Ls" using inv unfolding sl_inv_def K by auto
  have "0 < levelmax s" using e by (simp add: ends_inv_def)
  then have "lvl s te 0 (Ls 0)" by (rule inv_lvl [OF inv])
  then have sw: "sorted_wrt (\<lambda>p q. vl s p < vl s q) (Ls 0)" by (simp add: lvl_def)
  have inj: "p = r" if pp: "p \<in> set (Ls 0)" "vl s p = vl s r" for p
  proof (rule ccontr)
    assume "p \<noteq> r"
    obtain i where i: "i < length (Ls 0)" "Ls 0 ! i = p" using pp(1) unfolding in_set_conv_nth by blast
    obtain j where j: "j < length (Ls 0)" "Ls 0 ! j = r" using r unfolding in_set_conv_nth by blast
    have "i < j \<or> j < i" using i(2) j(2) \<open>p \<noteq> r\<close> by (metis linorder_neqE_nat)
    then have "vl s p < vl s r \<or> vl s r < vl s p"
      using sw i j unfolding sorted_wrt_iff_nth_less by blast
    then show False using pp(2) by simp
  qed
  show "keys s' Ls = keys s Ls - {vl s r}"
    using inj by (auto simp: keys_def K)
qed

text \<open>The second half of a removal: the node \<open>r\<close> is live and has the value searched for.\<close>

lemma remove_tail:
  assumes inv: "sl_inv s te Ls" and r: "r \<in> set (Ls 0)" "\<not> dead s r" and f: "length (Ls 0) < f"
  shows "\<exists>s1 s2 s3 lr Ls'. fetch_inc_del s r = Some (0, s1) \<and> mark_node_ptrs f r s1 = Some s2 \<and>
    fraser_search f (vl s r) s2 = Some (s3, lr) \<and> sl_inv s3 te Ls' \<and> keys s3 Ls' = keys s Ls - {vl s r} \<and>
    sl_head s3 = sl_head s \<and> levelmax s3 = levelmax s \<and> sl_al s3 = sl_al s \<and> shrunk s2 Ls Ls'"
proof -
  have nr: "node_inv s te r" using inv r by (simp add: sl_inv_def)
  have "0 < f" using f by simp
  moreover have "snode s r" "tp s r \<le> 19" "vl s r \<le> VAL_MAX"
    using nr inv_ends [OF inv] by (auto simp: node_inv_def ends_inv_def)
  ultimately obtain s1 s2 where s2: "fetch_inc_del s r = Some (0, s1)" "mark_node_ptrs f r s1 = Some s2" "killed r s s2"
    using kill_node [of s r f] r(2) by blast
  note k = kill_inv [OF inv r(1) s2(3)]
  obtain s3 Ls' P R where s3: "fraser_search f (vl s r) s2 = Some (s3, P, R)" "sl_inv s3 te Ls'" "sl_frame s2 s3"
    "shrunk s2 Ls Ls'" "keys s3 Ls' = keys s2 Ls"
    using search_al [OF k(1) \<open>vl s r \<le> VAL_MAX\<close> f] by blast
  have "sl_head s3 = sl_head s \<and> levelmax s3 = levelmax s \<and> sl_al s3 = sl_al s"
    using s2(3) s3(3) by (simp add: killed_def sl_frame_def)
  moreover have "keys s3 Ls' = keys s Ls - {vl s r}" using s3(5) k(2) by simp
  ultimately show ?thesis using s2(1,2) s3(1,2,4) by blast
qed

definition first_from :: "u32 set \<Rightarrow> u32 \<Rightarrow> u32 option" where
  "first_from K v = (if \<exists>k \<in> K. v \<le> k then Some (Min {k \<in> K. v \<le> k}) else None)"

lemma found_first:
  assumes inv: "sl_inv s te Ls" and fd: "found s te Ls v 0 l r"
  shows "r = te \<and> first_from (keys s Ls) v = None \<or>
    r \<noteq> te \<and> r \<in> set (Ls 0) \<and> \<not> dead s r \<and> v \<le> vl s r \<and> first_from (keys s Ls) v = Some (vl s r)"
proof (cases "r = te")
  case True
  then show ?thesis using found_bottom [OF inv fd] by (auto simp: first_from_def not_le)
next
  case False
  then have r: "r \<in> set (Ls 0)" "\<not> dead s r" "v \<le> vl s r" "\<forall>k \<in> keys s Ls. v \<le> k \<longrightarrow> vl s r \<le> k"
    using found_bottom [OF inv fd] by blast+
  then have "vl s r \<in> {k \<in> keys s Ls. v \<le> k}" by (auto simp: keys_def)
  moreover have "finite {k \<in> keys s Ls. v \<le> k}" by simp
  ultimately have "Min {k \<in> keys s Ls. v \<le> k} = vl s r" using r(4) by (intro Min_eqI) auto
  moreover have "\<exists>k \<in> keys s Ls. v \<le> k" using \<open>vl s r \<in> _\<close> by blast
  ultimately show ?thesis using r False by (simp add: first_from_def)
qed

lemma next_nonzero:
  assumes inv: "sl_inv s te Ls" and r: "r \<in> set (Ls 0)"
  shows "nx s r 0 \<noteq> 0"
proof
  assume z: "nx s r 0 = 0"
  have e: "ends_inv s te" by (rule inv_ends [OF inv])
  then have "0 < levelmax s" by (simp add: ends_inv_def)
  then have "lvl s te 0 (Ls 0)" by (rule inv_lvl [OF inv])
  then have suc: "successively (\<lambda>p q. unset_mark (nx s p 0) = q) (sl_head s # Ls 0 @ [te])" by (simp add: lvl_def)
  obtain A B where "Ls 0 = A @ r # B" using split_list [OF r] by blast
  then have "successively (\<lambda>p q. unset_mark (nx s p 0) = q) ((sl_head s # A) @ r # B @ [te])" using suc by simp
  then have "successively (\<lambda>p q. unset_mark (nx s p 0) = q) (r # B @ [te])" unfolding successively_append_iff by blast
  then have "unset_mark (nx s r 0) = hd (B @ [te])" by (cases B) (simp_all add: successively_Cons)
  moreover have "valid_addr (hd (B @ [te]))"
    using e inv \<open>Ls 0 = A @ r # B\<close> by (cases B) (auto simp: ends_inv_def sl_inv_def node_inv_def)
  ultimately show False using z by (simp add: unset_mark_def valid_addr_def)
qed

context node_alloc
begin

text \<open>The common beginning and end of the operations: an array is taken, the search runs, the array is freed.\<close>

lemma open_search:
  assumes rep: "sl_rep ns ok f s K (m + 2)" and v: "v \<le> VAL_MAX"
  obtains ap s1 s' P R te Ls L where "array_alloc s = (ap, s1)" "fraser_search f v s1 = Some (s', P, R)"
    "sl_inv s' te Ls" "keys s' Ls = K" "{sl_head s', te} \<union> set (Ls 0) \<subseteq> L"
    "\<forall>t. sl_al t = sl_al s' \<longrightarrow> ok (sl_al (array_free ap t)) L m" "node_bytes (levelmax s') = ns"
    "length (Ls 0) + m + 2 < f" "entry R 0 = Some (R ! 0)" "found s' te Ls v 0 (P ! 0) (R ! 0)"
proof -
  obtain te Ls L where r: "sl_inv s te Ls" "keys s Ls = K" "{sl_head s, te} \<union> set (Ls 0) \<subseteq> L"
    "ok (sl_al s) L (m + 2)" "node_bytes (levelmax s) = ns" "length (Ls 0) + (m + 2) + 2 < f"
    using rep by (auto simp: sl_rep_def)
  let ?al = "ssalloc (of_nat (levelmax s) * 8) (sl_al s)"
  let ?s1 = "s\<lparr>sl_al := snd ?al\<rparr>"
  have lv: "0 < levelmax s" using inv_ends [OF r(1)] by (simp add: ends_inv_def)
  obtain s' Ls' P R where s: "fraser_search f v ?s1 = Some (s', P, R)" "sl_inv s' te Ls'" "sl_frame ?s1 s'"
    "shrunk ?s1 Ls Ls'" "length R = levelmax s" "\<forall>j < levelmax s. found s' te Ls' v j (P ! j) (R ! j)" "keys s' Ls' = K"
    using search_al [of ?s1 te Ls v f] r v by auto
  have F: "sl_head s' = sl_head s" "levelmax s' = levelmax s" "sl_al s' = snd ?al"
    using s(3) by (simp_all add: sl_frame_def)
  have a: "array_alloc s = (fst ?al, ?s1)" by (rule array_alloc_eq)
  have "ok (sl_al (array_free (fst ?al) t)) L m" if "sl_al t = sl_al s'" for t
    using one_array [of "sl_al s" L m _ "fst ?al" "snd ?al"] r(4) that by (simp add: array_free_def F)
  moreover have "{sl_head s', te} \<union> set (Ls' 0) \<subseteq> L" using r(3) s(4) by (auto simp: F shrunk_def)
  moreover have "length (Ls' 0) \<le> length (Ls 0)" using s(4) by (simp add: shrunk_def)
  then have "length (Ls' 0) + m + 2 < f" using r(6) by simp
  moreover have "entry R 0 = Some (R ! 0)" "found s' te Ls' v 0 (P ! 0) (R ! 0)"
    using s(5,6) lv by (simp_all add: entry_def)
  moreover have "node_bytes (levelmax s') = ns" using r(5) F(2) by simp
  ultimately show ?thesis using that [OF a s(1,2,7)] by simp
qed

lemma close_rep:
  assumes "sl_inv s te Ls" "keys s Ls = K" "{sl_head s, te} \<union> set (Ls 0) \<subseteq> L" "ok (sl_al (array_free a s)) L m"
    "node_bytes (levelmax s) = ns" "length (Ls 0) + m + 2 < f"
  shows "sl_rep ns ok f (array_free a s) K m"
  unfolding sl_rep_def using assms by (intro exI [of _ te] exI [of _ Ls] exI [of _ L]) (simp add: array_free_def)

lemma find_rep:
  assumes rep: "sl_rep ns ok f s K (m + 2)" and v: "v < VAL_MAX"
  shows "\<exists>s'. fraser_find f v s = Some (v \<in> K, s') \<and> sl_rep ns ok f s' K m"
proof -
  obtain ap s1 s' P R te Ls L where s: "array_alloc s = (ap, s1)" "fraser_search f v s1 = Some (s', P, R)"
    "sl_inv s' te Ls" "keys s' Ls = K" "{sl_head s', te} \<union> set (Ls 0) \<subseteq> L"
    "\<forall>t. sl_al t = sl_al s' \<longrightarrow> ok (sl_al (array_free ap t)) L m" "node_bytes (levelmax s') = ns"
    "length (Ls 0) + m + 2 < f" "entry R 0 = Some (R ! 0)" "found s' te Ls v 0 (P ! 0) (R ! 0)"
    using open_search [OF rep less_imp_le [OF v]] by blast
  have nd: "snode s' (R ! 0)" "valid_addr (R ! 0)" using found_node [OF s(3,10)] by simp_all
  have res: "(vl s' (R ! 0) = v \<and> sn_del (the (sl_heap s' (R ! 0))) = 0) = (v \<in> K)"
    using found_key [OF s(3,10) v] found_live [OF s(3,10) _ v] s(4) by (auto simp: dead_def)
  have "fraser_find f v s = Some (v \<in> K, array_free ap s')"
    using s(1,2,9) nd res by (simp add: fraser_find_def sl_access)
  moreover have "sl_rep ns ok f (array_free ap s') K m" by (rule close_rep [OF s(3-5) s(6) [rule_format, OF refl] s(7,8)])
  ultimately show ?thesis by blast
qed

text \<open>
  Both variants of \<^verbatim>\<open>fraser_remove\<close>: the first removes exactly the value, the second the smallest
  value that is not below it.
\<close>

lemma remove_rep:
  assumes rep: "sl_rep ns ok f s K (m + 2)" and v: "v < VAL_MAX"
  shows "\<exists>s'. fraser_remove f v False s = Some (v \<in> K, s') \<and> sl_rep ns ok f s' (K - {v}) m"
proof -
  obtain ap s1 s' P R te Ls L where s: "array_alloc s = (ap, s1)" "fraser_search f v s1 = Some (s', P, R)"
    "sl_inv s' te Ls" "keys s' Ls = K" "{sl_head s', te} \<union> set (Ls 0) \<subseteq> L"
    "\<forall>t. sl_al t = sl_al s' \<longrightarrow> ok (sl_al (array_free ap t)) L m" "node_bytes (levelmax s') = ns"
    "length (Ls 0) + m + 2 < f" "entry R 0 = Some (R ! 0)" "found s' te Ls v 0 (P ! 0) (R ! 0)"
    using open_search [OF rep less_imp_le [OF v]] by blast
  let ?r = "R ! 0"
  have nd: "snode s' ?r" "valid_addr ?r" using found_node [OF s(3,10)] by simp_all
  have key: "vl s' ?r = v \<longleftrightarrow> v \<in> K" using found_key [OF s(3,10) v] s(4) by simp
  show ?thesis
  proof (cases "v \<in> K")
    case False
    then have "fraser_remove f v False s = Some (False, array_free ap s')"
      using s(1,2,9) nd key by (simp add: fraser_remove_def sl_access)
    moreover have "sl_rep ns ok f (array_free ap s') K m" by (rule close_rep [OF s(3-5) s(6) [rule_format, OF refl] s(7,8)])
    ultimately show ?thesis using False by simp
  next
    case True
    then have vr: "vl s' ?r = v" using key by simp
    have lr: "\<not> dead s' ?r" "?r \<in> set (Ls 0)" using found_live [OF s(3,10) vr v] by simp_all
    obtain t1 t2 t3 lr' Ls' where t: "fetch_inc_del s' ?r = Some (0, t1)" "mark_node_ptrs f ?r t1 = Some t2"
      "fraser_search f v t2 = Some (t3, lr')" "sl_inv t3 te Ls'" "keys t3 Ls' = K - {v}"
      "sl_head t3 = sl_head s'" "levelmax t3 = levelmax s'" "sl_al t3 = sl_al s'" "shrunk t2 Ls Ls'"
      using remove_tail [OF s(3) lr(2,1), of f] s(4,8) vr by auto
    have "fraser_remove f v False s = Some (True, array_free ap t3)"
      using s(1,2,9) nd vr t(1-3) lr(1) by (cases lr') (simp add: fraser_remove_def sl_access dead_def)
    moreover have "sl_rep ns ok f (array_free ap t3) (K - {v}) m"
    proof (rule close_rep [OF t(4,5) _ s(6) [rule_format, OF t(8)]])
      show "{sl_head t3, te} \<union> set (Ls' 0) \<subseteq> L" using s(5) t(6,9) by (auto simp: shrunk_def)
      show "node_bytes (levelmax t3) = ns" using s(7) t(7) by simp
      have "length (Ls' 0) \<le> length (Ls 0)" using t(9) by (simp add: shrunk_def)
      then show "length (Ls' 0) + m + 2 < f" using s(8) by simp
    qed
    ultimately show ?thesis using True by simp
  qed
qed

lemma remove_succ_rep:
  assumes rep: "sl_rep ns ok f s K (m + 2)" and v: "v \<le> VAL_MAX"
  shows "\<exists>s'. fraser_remove f v True s = Some (first_from K v \<noteq> None, s') \<and>
    sl_rep ns ok f s' (case first_from K v of None \<Rightarrow> K | Some k \<Rightarrow> K - {k}) m"
proof -
  obtain ap s1 s' P R te Ls L where s: "array_alloc s = (ap, s1)" "fraser_search f v s1 = Some (s', P, R)"
    "sl_inv s' te Ls" "keys s' Ls = K" "{sl_head s', te} \<union> set (Ls 0) \<subseteq> L"
    "\<forall>t. sl_al t = sl_al s' \<longrightarrow> ok (sl_al (array_free ap t)) L m" "node_bytes (levelmax s') = ns"
    "length (Ls 0) + m + 2 < f" "entry R 0 = Some (R ! 0)" "found s' te Ls v 0 (P ! 0) (R ! 0)"
    using open_search [OF rep v] by blast
  let ?r = "R ! 0"
  have nd: "snode s' ?r" "valid_addr ?r" using found_node [OF s(3,10)] by simp_all
  show ?thesis
  proof (cases "?r = te")
    case True
    then have ff: "first_from K v = None" using found_first [OF s(3,10)] s(4) by simp
    have "nx s' ?r 0 = 0" using inv_ends [OF s(3)] True by (simp add: ends_inv_def)
    then have "fraser_remove f v True s = Some (False, array_free ap s')"
      using s(1,2,9) nd by (simp add: fraser_remove_def sl_access)
    moreover have "sl_rep ns ok f (array_free ap s') K m" by (rule close_rep [OF s(3-5) s(6) [rule_format, OF refl] s(7,8)])
    ultimately show ?thesis using ff by simp
  next
    case False
    then have lr: "?r \<in> set (Ls 0)" "\<not> dead s' ?r" and ff: "first_from K v = Some (vl s' ?r)"
      using found_first [OF s(3,10)] s(4) by auto
    have n0: "nx s' ?r 0 \<noteq> 0" by (rule next_nonzero [OF s(3) lr(1)])
    obtain t1 t2 t3 lr' Ls' where t: "fetch_inc_del s' ?r = Some (0, t1)" "mark_node_ptrs f ?r t1 = Some t2"
      "fraser_search f (vl s' ?r) t2 = Some (t3, lr')" "sl_inv t3 te Ls'" "keys t3 Ls' = K - {vl s' ?r}"
      "sl_head t3 = sl_head s'" "levelmax t3 = levelmax s'" "sl_al t3 = sl_al s'" "shrunk t2 Ls Ls'"
      using remove_tail [OF s(3) lr, of f] s(4,8) by auto
    have "fraser_remove f v True s = Some (True, array_free ap t3)"
      using s(1,2,9) nd n0 t(1-3) lr(2) by (cases lr') (simp add: fraser_remove_def sl_access dead_def)
    moreover have "sl_rep ns ok f (array_free ap t3) (K - {vl s' ?r}) m"
    proof (rule close_rep [OF t(4,5) _ s(6) [rule_format, OF t(8)]])
      show "{sl_head t3, te} \<union> set (Ls' 0) \<subseteq> L" using s(5) t(6,9) by (auto simp: shrunk_def)
      show "node_bytes (levelmax t3) = ns" using s(7) t(7) by simp
      have "length (Ls' 0) \<le> length (Ls 0)" using t(9) by (simp add: shrunk_def)
      then show "length (Ls' 0) + m + 2 < f" using s(8) by simp
    qed
    ultimately show ?thesis using ff by simp
  qed
qed

end

end
