(* ===== verification/SL_Insert.thy ===== *)
theory SL_Insert
  imports SL_Ops
begin

text \<open>Insertion: the new node, its linking level by level, and the operation against the key set.\<close>

section \<open>Changes that do not touch the lists\<close>

lemma inv_other:
  assumes inv: "sl_inv s te Ls" and a: "a \<noteq> sl_head s" "a \<noteq> te" "a \<notin> set (Ls 0)"
    and st: "sl_head s' = sl_head s" "levelmax s' = levelmax s" "sl_junk s' = sl_junk s"
    and len: "\<forall>p n. sl_heap s' p = Some n \<longrightarrow> length (sn_next n) = 19"
    and same: "\<And>p. p \<noteq> a \<Longrightarrow> snode s' p = snode s p \<and> vl s' p = vl s p \<and> tp s' p = tp s p \<and> dead s' p = dead s p \<and>
      (\<forall>j. nx s' p j = nx s p j)"
  shows "sl_inv s' te Ls \<and> keys s' Ls = keys s Ls"
proof -
  have nl: "p \<noteq> a" if "p \<in> set (Ls i)" "i < levelmax s" for p i
    using that a(3) inv_subset [OF inv, of 0 i] by auto
  have e: "ends_inv s te" by (rule inv_ends [OF inv])
  then have lm: "0 < levelmax s" by (simp add: ends_inv_def)
  have "ends_inv s' te" using e same len a(1,2) unfolding ends_inv_def st by metis
  moreover have "node_inv s' te p" if "p \<in> set (Ls 0)" for p
  proof -
    have "node_inv s te p" using inv that by (simp add: sl_inv_def)
    then show ?thesis using same [OF nl [OF that lm]] by (simp add: node_inv_def st)
  qed
  moreover have "lvl s' te i (Ls i)" if i: "i < levelmax s" for i
  proof -
    have l: "lvl s te i (Ls i)" by (rule inv_lvl [OF inv i])
    have v: "vl s' p = vl s p \<and> tp s' p = tp s p" if "p \<in> set (Ls i)" for p using same [OF nl [OF that i]] by simp
    have "successively (\<lambda>p q. unset_mark (nx s p i) = q) (sl_head s # Ls i @ [te])" using l by (simp add: lvl_def)
    then have "successively (\<lambda>p q. unset_mark (nx s' p i) = q) (sl_head s # Ls i @ [te])"
    proof (rule successively_mono)
      fix x y assume "x \<in> set (sl_head s # Ls i @ [te])" "unset_mark (nx s x i) = y"
      moreover have "x \<noteq> a" using \<open>x \<in> set _\<close> nl [OF _ i] a(1,2) by auto
      ultimately show "unset_mark (nx s' x i) = y" using same by simp
    qed
    moreover have "sorted_wrt (\<lambda>p q. vl s p < vl s q) (Ls i)" using l by (simp add: lvl_def)
    then have "sorted_wrt (\<lambda>p q. vl s' p < vl s' q) (Ls i)"
      by (rule sorted_wrt_mono_rel [rotated]) (simp add: v)
    ultimately show ?thesis using l v by (simp add: lvl_def st)
  qed
  moreover have "{p \<in> set (Ls 0). \<not> dead s' p} = {p \<in> set (Ls 0). \<not> dead s p}" using same nl lm by blast
  then have "keys s' Ls = keys s Ls" unfolding keys_def
    by (rule image_cong) (use same nl lm in blast)
  ultimately show ?thesis using inv unfolding sl_inv_def st by blast
qed

lemma fill_nexts_spec:
  assumes "snode s a" "t \<le> 19" "t \<le> length R"
  shows "\<exists>s'. fill_nexts t a R s = Some s' \<and> sl_frame s s' \<and>
    (\<forall>q j. nx s' q j = (if q = a \<and> j < t then R ! j else nx s q j))"
  using assms
proof (induction t)
  case 0
  then show ?case by simp
next
  case (Suc t)
  then obtain s1 where s1: "fill_nexts t a R s = Some s1" "sl_frame s s1"
    "\<forall>q j. nx s1 q j = (if q = a \<and> j < t then R ! j else nx s q j)" by auto
  have "snode s1 a" using s1(2) Suc.prems(1) by (simp add: sl_frame_def)
  then obtain s2 where s2: "sl_wr s1 a t (R ! t) = Some s2" "sl_frame s1 s2"
    "\<forall>q j. nx s2 q j = (if q = a \<and> j = t then R ! t else nx s1 q j)"
    using wr_node [of s1 a t "R ! t"] Suc.prems by auto
  have "fill_nexts (Suc t) a R s = Some s2" using s1(1) s2(1) Suc.prems(3) by (simp add: entry_def)
  moreover have "nx s2 q j = (if q = a \<and> j < Suc t then R ! j else nx s q j)" for q j
    using s1(3) s2(3) by (auto simp: less_Suc_eq)
  ultimately show ?case using frame_trans [OF s1(2) s2(2)] by blast
qed

section \<open>Linking a node at one level\<close>

text \<open>The position of a value at a level: between \<open>l\<close> and \<open>r\<close>, which are adjacent there.\<close>

definition pos :: "sl_state \<Rightarrow> ptr \<Rightarrow> (nat \<Rightarrow> ptr list) \<Rightarrow> u32 \<Rightarrow> nat \<Rightarrow> ptr \<Rightarrow> ptr \<Rightarrow> bool" where
  "pos s te Ls v j l r \<longleftrightarrow> (\<exists>pre post. Ls j = pre @ post \<and> l = last (sl_head s # pre) \<and> r = hd (post @ [te]) \<and>
     (\<forall>p \<in> set pre. vl s p < v) \<and> (\<forall>p \<in> set post. v < vl s p) \<and> nx s l j = r \<and> snode s l)"

lemma adjacent:
  assumes inv: "sl_inv s te Ls" and j: "j < levelmax s" and fd: "found s te Ls v j l r"
  shows "\<exists>pre post. Ls j = pre @ post \<and> l = last (sl_head s # pre) \<and> r = hd (post @ [te]) \<and> tight s v pre post \<and>
     (\<forall>p \<in> set pre. vl s p < v) \<and> (\<forall>p \<in> set post. v \<le> vl s p) \<and> nx s l j = r \<and> snode s l \<and> valid_addr r"
proof -
  obtain pre post where L: "Ls j = pre @ post" "tight s v pre post" "l = last (sl_head s # pre)" "r = hd (post @ [te])"
    using fd by (auto simp: found_def)
  have e: "ends_inv s te" by (rule inv_ends [OF inv])
  have l: "lvl s te j (Ls j)" by (rule inv_lvl [OF inv j])
  have nd: "node_inv s te p \<and> j < tp s p" if "p \<in> set (Ls j)" for p using inv_node [OF inv that j] .
  have "sorted_wrt (\<lambda>p q. vl s p < vl s q) (pre @ [] @ post)" using l L(1) by (simp add: lvl_def)
  note lo = sorted_app [OF this L(2)]
  have ll: "l = sl_head s \<or> (l \<in> set (Ls j) \<and> \<not> dead s l)"
    using L(1-3) by (cases "pre = []") (simp_all add: tight_def)
  then have "snode s l" "\<not> is_marked (nx s l j)" using e nd j by (auto simp: ends_inv_def node_inv_def)
  moreover have "valid_addr r" using e nd L by (cases post) (auto simp: ends_inv_def node_inv_def)
  moreover have "successively (\<lambda>p q. unset_mark (nx s p j) = q) ((sl_head s # pre) @ (post @ [te]))"
    using l L(1) by (simp add: lvl_def)
  then have "unset_mark (nx s l j) = r" unfolding L(3,4) successively_append_iff by blast
  ultimately show ?thesis using L lo by (auto simp: sl_marks unmarked_id)
qed

lemma pos_of_found:
  assumes inv: "sl_inv s te Ls" and j: "j < levelmax s" and fd: "found s te Ls v j l r"
    and v: "v \<notin> keys s Ls" "v < VAL_MAX"
  shows "pos s te Ls v j l r \<and> valid_addr r \<and> vl s r \<noteq> v \<and> snode s r"
proof -
  obtain pre post where a: "Ls j = pre @ post" "l = last (sl_head s # pre)" "r = hd (post @ [te])" "tight s v pre post"
    "\<forall>p \<in> set pre. vl s p < v" "\<forall>p \<in> set post. v \<le> vl s p" "nx s l j = r" "snode s l" "valid_addr r"
    using adjacent [OF inv j fd] by blast
  have sub: "set (Ls j) \<subseteq> set (Ls 0)" by (rule inv_subset [OF inv le0 j])
  have te: "vl s te = VAL_MAX" "snode s te" using inv_ends [OF inv] by (simp_all add: ends_inv_def)
  have hdp: "v < vl s (hd post)" if "post \<noteq> []"
  proof -
    have m: "hd post \<in> set (Ls j)" using that a(1) by simp
    have "\<not> dead s (hd post)" using a(4) that by (simp add: tight_def)
    then have "vl s (hd post) \<in> keys s Ls" using m sub by (auto simp: keys_def)
    then have "vl s (hd post) \<noteq> v" using v(1) by auto
    moreover have "v \<le> vl s (hd post)" using a(6) that by simp
    ultimately show ?thesis by simp
  qed
  have "v < vl s p" if p: "p \<in> set post" for p
  proof -
    obtain b C where b: "post = b # C" using p by (cases post) auto
    have "sorted_wrt (\<lambda>p q. vl s p < vl s q) post"
      using inv_lvl [OF inv j] a(1) by (simp add: lvl_def sorted_wrt_append)
    then have "p = b \<or> vl s b < vl s p" using p b by auto
    then show ?thesis using hdp b by auto
  qed
  then have "pos s te Ls v j l r" using a unfolding pos_def by blast
  moreover have "vl s r \<noteq> v" using hdp a(3) te v(2) by (cases "post = []") auto
  moreover have "snode s r" using a(1,3) te inv_node [OF inv _ j] by (cases post) (auto simp: node_inv_def)
  ultimately show ?thesis using a(9) by simp
qed

lemma link_inv:
  assumes inv: "sl_inv s te Ls" and j: "j < levelmax s" and p: "pos s te Ls v j l r"
    and a: "node_inv s te a" "\<not> dead s a" "vl s a = v" "j < tp s a" "nx s a j = r" "a \<notin> set (Ls j)"
    and low: "j = 0 \<or> a \<in> set (Ls (j - 1))"
    and fr: "sl_frame s s'" and upd: "\<forall>q i. nx s' q i = (if q = l \<and> i = j then a else nx s q i)"
  shows "\<exists>L. sl_inv s' te (Ls(j := L)) \<and> set L = insert a (set (Ls j)) \<and> length L = Suc (length (Ls j))"
proof -
  obtain pre post where L: "Ls j = pre @ post" "l = last (sl_head s # pre)" "r = hd (post @ [te])"
    "\<forall>p \<in> set pre. vl s p < v" "\<forall>p \<in> set post. v < vl s p" "nx s l j = r" "snode s l"
    using p by (auto simp: pos_def)
  let ?L = "pre @ a # post"
  have e: "ends_inv s te" by (rule inv_ends [OF inv])
  have lv: "lvl s te j (Ls j)" by (rule inv_lvl [OF inv j])
  have nd: "node_inv s te p \<and> j < tp s p" if "p \<in> set (Ls j)" for p using inv_node [OF inv that j] .
  have F: "sl_head s' = sl_head s" "levelmax s' = levelmax s" "vl s' = vl s" "tp s' = tp s" "dead s' = dead s"
    "sl_junk s' = sl_junk s" "\<And>p. snode s' p = snode s p" "dom (sl_heap s') = dom (sl_heap s)"
    using fr frame_dead [OF fr] by (simp_all add: sl_frame_def)
  have av: "valid_addr a" "a \<noteq> sl_head s" "a \<noteq> te" using a(1) by (simp_all add: node_inv_def)
  have um: "\<not> is_marked a" using av by (simp add: sl_marks)
  have dis: "distinct (sl_head s # pre @ post)"
    using vl_distinct [of s "pre @ post"] lv nd L(1) by (auto simp: lvl_def node_inv_def)
  have ll: "l = sl_head s \<or> l \<in> set pre" using L(2) by (cases "pre = []") auto
  have lne: "l \<noteq> te" "l \<noteq> a" "l \<notin> set post" using ll e nd L(1) av a(6) dis by (auto simp: ends_inv_def node_inv_def)
  have lu: "\<not> is_marked (nx s l j)"
  proof -
    have "valid_addr r" using e nd L by (cases post) (auto simp: ends_inv_def node_inv_def)
    then show ?thesis using L(6) by (simp add: sl_marks)
  qed
  have len: "length (sn_next n) = 19" if "sl_heap s' p = Some n" for p n
  proof -
    have "p \<in> dom (sl_heap s)" using that by (simp add: F(8) [symmetric] domI)
    then have "snode s p" using e by (auto simp: ends_inv_def snode_def)
    then have "snode s' p" by (simp only: F(7))
    then show ?thesis using that by (simp add: snode_def)
  qed
  have e': "ends_inv s' te" using e um lne len unfolding ends_inv_def F by (auto simp: upd)
  have mk: "is_marked (nx s' p i) \<longleftrightarrow> is_marked (nx s p i)" for p i using um lu by (simp add: upd)
  have ni: "node_inv s' te p" if "node_inv s te p" for p using that by (simp add: node_inv_def F mk)
  have s0: "successively (\<lambda>p q. unset_mark (nx s p j) = q) ((sl_head s # pre) @ (post @ [te]))"
    using lv L(1) by (simp add: lvl_def)
  have s1: "successively (\<lambda>p q. unset_mark (nx s' p j) = q) (sl_head s # pre)"
  proof (rule succ_upd)
    show "successively (\<lambda>p q. unset_mark (nx s p j) = q) (sl_head s # pre)"
      using s0 unfolding successively_append_iff by blast
    show "distinct (sl_head s # pre)" using dis by simp
  qed (simp add: upd L(2))
  have "successively (\<lambda>p q. unset_mark (nx s p j) = q) (post @ [te])"
    using s0 unfolding successively_append_iff by blast
  then have s2: "successively (\<lambda>p q. unset_mark (nx s' p j) = q) (post @ [te])"
    by (rule successively_mono) (use lne in \<open>auto simp: upd\<close>)
  have ar: "unset_mark (nx s' a j) = hd (post @ [te])"
  proof -
    have "valid_addr r" using e nd L by (cases post) (auto simp: ends_inv_def node_inv_def)
    then show ?thesis using lne(2) a(5) L(3) by (auto simp: upd sl_marks)
  qed
  have s3: "successively (\<lambda>p q. unset_mark (nx s' p j) = q) (a # (post @ [te]))"
    using s2 ar by (cases "post @ [te]") (simp_all add: successively_Cons)
  have la: "unset_mark (nx s' l j) = a" using av by (simp add: upd sl_marks)
  have "successively (\<lambda>p q. unset_mark (nx s' p j) = q) ((sl_head s # pre) @ (a # (post @ [te])))"
    unfolding successively_append_iff using s1 s3 la L(2) by simp
  moreover have "sorted_wrt (\<lambda>p q. vl s p < vl s q) ?L"
    using lv L(1,4,5) a(3) by (auto simp: lvl_def sorted_wrt_append intro: less_trans)
  ultimately have li: "lvl s' te j ?L" using lv L(1) a(4) by (auto simp: lvl_def F)
  have lj: "lvl s' te i (Ls i)" if "i < levelmax s" "i \<noteq> j" for i
    using inv_lvl [OF inv that(1)] that(2) by (simp add: lvl_def F upd)
  have sub: "set (Ls (Suc i)) \<subseteq> set (Ls i)" if "Suc i < levelmax s" for i using inv that by (simp add: sl_inv_def)
  have "sl_inv s' te (Ls(j := ?L))"
    unfolding sl_inv_def F
  proof (intro conjI allI impI ballI)
    show "ends_inv s' te" by (rule e')
    show "node_inv s' te p" if "p \<in> set ((Ls(j := ?L)) 0)" for p
    proof (rule ni)
      show "node_inv s te p" using that a(1) nd inv L(1) by (cases "j = 0") (auto simp: sl_inv_def)
    qed
    show "lvl s' te i ((Ls(j := ?L)) i)" if "i < levelmax s" for i
      using that li lj by (cases "i = j") simp_all
    show "set ((Ls(j := ?L)) (Suc i)) \<subseteq> set ((Ls(j := ?L)) i)" if "Suc i < levelmax s" for i
      using sub [OF that] low L(1) by (cases "i = j"; cases "Suc i = j") auto
  qed
  then show ?thesis using L(1) by (intro exI [of _ ?L]) auto
qed

section \<open>The levels above the bottom\<close>

lemma pos_frame:
  assumes p: "pos s te Ls v j l r" and fr: "sl_frame s s'" and L: "Ls' j = Ls j" and nx: "nx s' l j = nx s l j"
  shows "pos s' te Ls' v j l r"
  using assms by (auto simp: pos_def sl_frame_def)

lemma insert_levels_spec:
  assumes "sl_inv s te Ls" "node_inv s te a" "\<not> dead s a" "vl s a = v" "i + n = tp s a" "0 < i" "0 < f"
    and "length P = levelmax s" "length R = levelmax s"
    and "\<forall>j. i \<le> j \<and> j < tp s a \<longrightarrow> pos s te Ls v j (P ! j) (R ! j) \<and> nx s a j = R ! j \<and> vl s (R ! j) \<noteq> v \<and>
      snode s (R ! j) \<and> valid_addr (R ! j) \<and> a \<notin> set (Ls j)"
    and "a \<in> set (Ls (i - 1))"
  shows "\<exists>s' Ls'. insert_levels f i n a v P R s = Some s' \<and> sl_inv s' te Ls' \<and> sl_frame s s' \<and> Ls' 0 = Ls 0"
  using assms
proof (induction n arbitrary: i s Ls)
  case 0
  then show ?case by (intro exI [of _ s] exI [of _ Ls]) simp
next
  case (Suc n)
  let ?l = "P ! i" and ?r = "R ! i"
  have it: "i < tp s a" using Suc.prems(5) by simp
  then have i: "i < levelmax s" using Suc.prems(2) by (simp add: node_inv_def)
  have e: "ends_inv s te" by (rule inv_ends [OF Suc.prems(1)])
  have i19: "i < 19" using i e by (simp add: ends_inv_def)
  have q: "pos s te Ls v i ?l ?r" "nx s a i = ?r" "vl s ?r \<noteq> v" "snode s ?r" "valid_addr ?r" "a \<notin> set (Ls i)"
    using Suc.prems(10) it by auto
  have la: "snode s ?l" "nx s ?l i = ?r" using q(1) by (auto simp: pos_def)
  have an: "snode s a" using Suc.prems(2) by (simp add: node_inv_def)
  obtain s1 where s1: "sl_cas s ?l i ?r a = Some (True, s1)" "sl_frame s s1"
    "\<forall>q j. nx s1 q j = (if q = ?l \<and> j = i then a else nx s q j)"
    using cas_node [OF la(1) i19 la(2), of a] by blast
  obtain f' where f: "f = Suc f'" using Suc.prems(7) by (cases f) auto
  have "entry P i = Some ?l" "entry R i = Some ?r" using Suc.prems(8,9) i by (simp_all add: entry_def)
  then have lev: "insert_level f i a v P R s = Some (False, P, R, s1)"
    using q an i19 s1(1) f by (simp add: sl_access sl_marks)
  obtain L where L: "sl_inv s1 te (Ls(i := L))" "set L = insert a (set (Ls i))"
    using link_inv [OF Suc.prems(1) i q(1) Suc.prems(2-4) it q(2,6) _ s1(2,3)] Suc.prems(11) by auto
  have F: "vl s1 = vl s" "tp s1 = tp s" "dead s1 = dead s" "levelmax s1 = levelmax s" "\<And>p. snode s1 p = snode s p"
    "sl_head s1 = sl_head s"
    using s1(2) frame_dead [OF s1(2)] by (simp_all add: sl_frame_def)
  have ia: "node_inv s1 te a" using inv_node [OF L(1), of a i] L(2) i F(4) by simp
  have "\<exists>s' Ls'. insert_levels f (i + 1) n a v P R s1 = Some s' \<and> sl_inv s' te Ls' \<and> sl_frame s1 s' \<and>
      Ls' 0 = (Ls(i := L)) 0"
  proof (rule Suc.IH [OF L(1) ia])
    show "\<not> dead s1 a" "vl s1 a = v" "i + 1 + n = tp s1 a" "0 < i + 1" "0 < f"
      "length P = levelmax s1" "length R = levelmax s1" "a \<in> set ((Ls(i := L)) (i + 1 - 1))"
      using Suc.prems(3-9) L(2) by (simp_all add: F)
    show "\<forall>j. i + 1 \<le> j \<and> j < tp s1 a \<longrightarrow> pos s1 te (Ls(i := L)) v j (P ! j) (R ! j) \<and> nx s1 a j = R ! j \<and>
        vl s1 (R ! j) \<noteq> v \<and> snode s1 (R ! j) \<and> valid_addr (R ! j) \<and> a \<notin> set ((Ls(i := L)) j)"
    proof (intro allI impI)
      fix j assume j: "i + 1 \<le> j \<and> j < tp s1 a"
      then have "i \<le> j \<and> j < tp s a" "j \<noteq> i" by (simp_all add: F)
      then have "pos s te Ls v j (P ! j) (R ! j) \<and> nx s a j = R ! j \<and> vl s (R ! j) \<noteq> v \<and> snode s (R ! j) \<and>
        valid_addr (R ! j) \<and> a \<notin> set (Ls j)" using Suc.prems(10) by blast
      then show "pos s1 te (Ls(i := L)) v j (P ! j) (R ! j) \<and> nx s1 a j = R ! j \<and>
        vl s1 (R ! j) \<noteq> v \<and> snode s1 (R ! j) \<and> valid_addr (R ! j) \<and> a \<notin> set ((Ls(i := L)) j)"
        using pos_frame [OF _ s1(2), of te Ls v j "P ! j" "R ! j" "Ls(i := L)"] \<open>j \<noteq> i\<close> s1(3) by (simp add: F)
    qed
  qed
  then obtain s' Ls' where "insert_levels f (i + 1) n a v P R s1 = Some s'" "sl_inv s' te Ls'" "sl_frame s1 s'"
    "Ls' 0 = (Ls(i := L)) 0" by blast
  then show ?case using lev frame_trans [OF s1(2)] Suc.prems(6) by auto
qed

end
