(* ===== verification/SL_Insert2.thy ===== *)
theory SL_Insert2
  imports SL_Insert
begin

text \<open>Insertion as a whole: the bottom level, the level generator, the new node.\<close>

section \<open>The bottom level\<close>

definition fresh :: "sl_state \<Rightarrow> ptr \<Rightarrow> (nat \<Rightarrow> ptr list) \<Rightarrow> u32 \<Rightarrow> ptr \<Rightarrow> bool" where
  "fresh s te Ls v a \<longleftrightarrow> snode s a \<and> valid_addr a \<and> a \<noteq> sl_head s \<and> a \<noteq> te \<and> a \<notin> set (Ls 0) \<and> vl s a = v \<and>
     \<not> dead s a \<and> 0 < tp s a \<and> tp s a \<le> levelmax s"

lemma frame_len:
  assumes fr: "sl_frame s s'" and e: "ends_inv s te"
  shows "\<forall>p n. sl_heap s' p = Some n \<longrightarrow> length (sn_next n) = 19"
proof (intro allI impI)
  fix p n assume h: "sl_heap s' p = Some n"
  then have "p \<in> dom (sl_heap s)" using fr by (auto simp: sl_frame_def)
  then have "snode s p" using e by (auto simp: ends_inv_def snode_def)
  then have "snode s' p" using fr by (simp add: sl_frame_def)
  then show "length (sn_next n) = 19" using h by (simp add: snode_def)
qed

lemma insert_bottom_dup:
  assumes inv: "sl_inv s te Ls" and v: "v < VAL_MAX" "v \<in> keys s Ls" and f: "length (Ls 0) < f"
  shows "\<exists>s' Ls'. insert_bottom f a v s = Some (sl_delete_node a s', None) \<and> sl_inv s' te Ls' \<and>
    keys s' Ls' = keys s Ls \<and> sl_frame s s' \<and> shrunk s Ls Ls'"
proof -
  obtain f' where f': "f = Suc f'" using f by (cases f) auto
  obtain s' Ls' P R where s: "fraser_search f v s = Some (s', P, R)" "sl_inv s' te Ls'" "sl_frame s s'"
    "shrunk s Ls Ls'" "length R = levelmax s" "\<forall>j < levelmax s. found s' te Ls' v j (P ! j) (R ! j)" "keys s' Ls' = keys s Ls"
    using search_al [OF inv less_imp_le [OF v(1)] f] by blast
  have lv: "0 < levelmax s" using inv_ends [OF inv] by (simp add: ends_inv_def)
  have fd: "found s' te Ls' v 0 (P ! 0) (R ! 0)" using s(6) lv by blast
  have e: "entry R 0 = Some (R ! 0)" using s(5) lv by (simp add: entry_def)
  have nd: "snode s' (R ! 0)" "valid_addr (R ! 0)" using found_node [OF s(2) fd] by simp_all
  have x: "vl s' (R ! 0) = v" using found_key [OF s(2) fd v(1)] s(7) v(2) by simp
  then have "\<not> dead s' (R ! 0)" using found_live [OF s(2) fd _ v(1)] by simp
  then have "insert_bottom f a v s = Some (sl_delete_node a s', None)"
    using s(1) e nd x f' by (simp add: sl_access dead_def del: fraser_search.simps)
  then show ?thesis using s by blast
qed

lemma insert_bottom_new:
  assumes inv: "sl_inv s te Ls" and v: "v < VAL_MAX" "v \<notin> keys s Ls" and f: "length (Ls 0) < f"
    and a: "fresh s te Ls v a"
  shows "\<exists>s' Ls' P R. insert_bottom f a v s = Some (s', Some (P, R)) \<and> sl_inv s' te Ls' \<and>
    keys s' Ls' = insert v (keys s Ls) \<and> sl_frame s s' \<and> set (Ls' 0) \<subseteq> insert a (set (Ls 0)) \<and>
    length (Ls' 0) \<le> Suc (length (Ls 0)) \<and> node_inv s' te a \<and> a \<in> set (Ls' 0) \<and>
    length P = levelmax s \<and> length R = levelmax s \<and>
    (\<forall>j. 1 \<le> j \<and> j < tp s' a \<longrightarrow> pos s' te Ls' v j (P ! j) (R ! j) \<and> nx s' a j = R ! j \<and> vl s' (R ! j) \<noteq> v \<and>
      snode s' (R ! j) \<and> valid_addr (R ! j) \<and> a \<notin> set (Ls' j))"
proof -
  obtain f' where f': "f = Suc f'" using f by (cases f) auto
  obtain s1 Ls1 P R where s: "fraser_search f v s = Some (s1, P, R)" "sl_inv s1 te Ls1" "sl_frame s s1"
    "shrunk s Ls Ls1" "length P = levelmax s" "length R = levelmax s"
    "\<forall>j < levelmax s. found s1 te Ls1 v j (P ! j) (R ! j)" "keys s1 Ls1 = keys s Ls"
    using search_al [OF inv less_imp_le [OF v(1)] f] by blast
  have F: "sl_head s1 = sl_head s" "levelmax s1 = levelmax s" "vl s1 = vl s" "tp s1 = tp s" "dead s1 = dead s"
    "\<And>p. snode s1 p = snode s p"
    using s(3) frame_dead [OF s(3)] by (simp_all add: sl_frame_def)
  have e: "ends_inv s1 te" by (rule inv_ends [OF s(2)])
  have lv: "0 < levelmax s" "levelmax s \<le> 19" using inv_ends [OF inv] by (simp_all add: ends_inv_def)
  have a0: "a \<notin> set (Ls1 0)" using a s(4) by (auto simp: fresh_def shrunk_def)
  have al: "a \<notin> set (Ls1 j)" if "j < levelmax s" for j
    using a0 inv_subset [OF s(2), of 0 j] that F(2) by auto
  have pf: "pos s1 te Ls1 v j (P ! j) (R ! j) \<and> valid_addr (R ! j) \<and> vl s1 (R ! j) \<noteq> v \<and> snode s1 (R ! j)"
    if "j < levelmax s" for j
    using pos_of_found [OF s(2) _ _ _ v(1)] that s(7,8) v(2) F(2) by auto
  let ?t = "tp s a"
  have t: "0 < ?t" "?t \<le> levelmax s" using a by (simp_all add: fresh_def)
  have sa: "snode s1 a" using a by (simp add: fresh_def F)
  obtain s2 where s2: "fill_nexts ?t a R s1 = Some s2" "sl_frame s1 s2"
    "\<forall>q j. nx s2 q j = (if q = a \<and> j < ?t then R ! j else nx s1 q j)"
    using fill_nexts_spec [OF sa, of ?t R] t lv s(6) by auto
  have G: "sl_head s2 = sl_head s1" "levelmax s2 = levelmax s1" "vl s2 = vl s1" "tp s2 = tp s1" "dead s2 = dead s1"
    "\<And>p. snode s2 p = snode s1 p" "sl_junk s2 = sl_junk s1"
    using s2(2) frame_dead [OF s2(2)] by (simp_all add: sl_frame_def)
  have "sl_inv s2 te Ls1 \<and> keys s2 Ls1 = keys s1 Ls1"
    by (rule inv_other [OF s(2), of a])
      (use a a0 G s2(3) frame_len [OF s2(2) e] in \<open>auto simp: fresh_def F\<close>)
  then have inv2: "sl_inv s2 te Ls1" and k2: "keys s2 Ls1 = keys s Ls" using s(8) by simp_all
  have nx2: "nx s2 a j = R ! j" if "j < ?t" for j using s2(3) that by simp
  have na: "node_inv s2 te a"
    using a pf t nx2 v(1) by (auto simp: node_inv_def fresh_def G F sl_marks)
  have p2: "pos s2 te Ls1 v j (P ! j) (R ! j)" if "j < levelmax s" for j
  proof -
    have pj: "pos s1 te Ls1 v j (P ! j) (R ! j)" using pf that by blast
    then have "P ! j = sl_head s1 \<or> P ! j \<in> set (Ls1 j)" by (auto simp: pos_def)
    then have "P ! j \<noteq> a" using al [OF that] a by (auto simp: fresh_def F)
    then show ?thesis by (intro pos_frame [OF pj s2(2)]) (simp_all add: s2(3))
  qed
  have p0: "snode s2 (P ! 0)" "nx s2 (P ! 0) 0 = R ! 0" using p2 lv by (auto simp: pos_def)
  obtain s3 where s3: "sl_cas s2 (P ! 0) 0 (R ! 0) a = Some (True, s3)" "sl_frame s2 s3"
    "\<forall>q j. nx s3 q j = (if q = P ! 0 \<and> j = 0 then a else nx s2 q j)"
    using cas_node [OF p0(1) _ p0(2), of a] by auto
  have lm2: "0 < levelmax s2" using lv(1) by (simp add: G F)
  have da: "\<not> dead s2 a" "vl s2 a = v" "0 < tp s2 a" using a by (simp_all add: fresh_def G F)
  obtain L where L: "sl_inv s3 te (Ls1(0 := L))" "set L = insert a (set (Ls1 0))" "length L = Suc (length (Ls1 0))"
    using link_inv [OF inv2 lm2 p2 [OF lv(1)] na da nx2 [OF t(1)] a0 _ s3(2,3)] by blast
  have H: "vl s3 = vl s2" "tp s3 = tp s2" "dead s3 = dead s2" "levelmax s3 = levelmax s2" "\<And>p. snode s3 p = snode s2 p"
    using s3(2) frame_dead [OF s3(2)] by (simp_all add: sl_frame_def)
  have "entry R 0 = Some (R ! 0)" "entry P 0 = Some (P ! 0)" using s(5,6) lv by (simp_all add: entry_def)
  then have "insert_bottom f a v s = Some (s3, Some (P, R))"
    using s(1) f' pf [OF lv(1)] sa s2(1) s3(1) by (simp add: sl_access F del: fraser_search.simps)
  moreover have "keys s3 (Ls1(0 := L)) = insert v (keys s Ls)"
  proof -
    have "{p \<in> set L. \<not> dead s3 p} = insert a {p \<in> set (Ls1 0). \<not> dead s2 p}" using L(2) da(1) by (auto simp: H)
    then have "keys s3 (Ls1(0 := L)) = insert v (keys s2 Ls1)" using da(2) by (simp add: keys_def H)
    then show ?thesis by (simp add: k2)
  qed
  moreover have "node_inv s3 te a" using inv_node [OF L(1), of a 0] L(2) lm2 by (simp add: H)
  moreover have "pos s3 te (Ls1(0 := L)) v j (P ! j) (R ! j) \<and> nx s3 a j = R ! j \<and> vl s3 (R ! j) \<noteq> v \<and>
      snode s3 (R ! j) \<and> valid_addr (R ! j) \<and> a \<notin> set ((Ls1(0 := L)) j)" if "1 \<le> j \<and> j < tp s3 a" for j
  proof -
    have j: "j < levelmax s" "j < ?t" "j \<noteq> 0" using that t by (auto simp: H G F)
    show ?thesis
      using pos_frame [OF p2 [OF j(1)] s3(2), of "Ls1(0 := L)"] pf [OF j(1)] al [OF j(1)] nx2 [OF j(2)] j(3) s3(3)
      by (simp add: H G)
  qed
  moreover have "set ((Ls1(0 := L)) 0) \<subseteq> insert a (set (Ls 0))" "length ((Ls1(0 := L)) 0) \<le> Suc (length (Ls 0))"
    "a \<in> set ((Ls1(0 := L)) 0)"
    using L(2,3) s(4) by (auto simp: shrunk_def)
  ultimately show ?thesis
    using L(1) s(5,6) frame_trans [OF frame_trans [OF s(3) s2(2)] s3(2)] by blast
qed

section \<open>The new node\<close>

lemma level_draws_bounds: "level \<le> fst (level_draws n level ss) \<and> fst (level_draws n level ss) \<le> level + n"
proof (induction n arbitrary: level ss)
  case 0
  then show ?case by simp
next
  case (Suc n)
  obtain w ss' where r: "rand_range 100 ss = (w, ss')" by (cases "rand_range 100 ss")
  show ?case using Suc.IH [of "level + 1" ss'] by (simp add: r)
qed

lemma rand_level_bounds:
  assumes "get_rand_level s = (l, s')" "0 < levelmax s"
  shows "0 < l \<and> l \<le> levelmax s \<and> (\<exists>ss. s' = s\<lparr>sl_seeds := ss\<rparr>)"
  using assms level_draws_bounds [of 1 "levelmax s - 1" "sl_seeds s"]
  by (auto simp: get_rand_level_def split: prod.splits)

lemma new_node:
  assumes inv: "sl_inv s te Ls"
    and al: "(if tr \<noteq> 0 then c_malloc (192 + of_nat t * 8) (sl_al s)
      else ssalloc_alloc 1 (node_bytes (levelmax s)) (sl_al s)) = (a, al)"
    and a: "valid_addr a" "a \<notin> {sl_head s, te} \<union> set (Ls 0)" and t: "0 < t" "t \<le> levelmax s"
  shows "\<exists>s'. sl_new_simple_node v t tr s = Some (a, s') \<and> sl_inv s' te Ls \<and> keys s' Ls = keys s Ls \<and>
    sl_head s' = sl_head s \<and> levelmax s' = levelmax s \<and> sl_al s' = al \<and> fresh s' te Ls v a \<and>
    tp s' a = t \<and> (\<forall>p. p \<noteq> a \<longrightarrow> vl s' p = vl s p \<and> dead s' p = dead s p)"
proof -
  let ?ws = "case sl_heap s a of Some n \<Rightarrow> sn_next n | None \<Rightarrow> sl_junk s a"
  let ?n = "\<lparr>sn_val = v, sn_top = t, sn_del = 0, sn_next = ?ws\<rparr>"
  let ?s1 = "s\<lparr>sl_heap := (sl_heap s)(a \<mapsto> ?n)\<rparr>"
  let ?s' = "s\<lparr>sl_heap := (sl_heap s)(a \<mapsto> ?n), sl_al := al\<rparr>"
  have e: "ends_inv s te" by (rule inv_ends [OF inv])
  have w: "length ?ws = 19" using e by (auto simp: ends_inv_def split: option.split)
  have "sl_inv ?s1 te Ls \<and> keys ?s1 Ls = keys s Ls"
  proof (rule inv_other [OF inv, of a])
    show "\<forall>p n. sl_heap ?s1 p = Some n \<longrightarrow> length (sn_next n) = 19" using e w by (auto simp: ends_inv_def)
  qed (use a in \<open>auto simp: snode_def vl_def tp_def dead_def nx_def\<close>)
  moreover have "?s' = ?s1\<lparr>sl_al := al\<rparr>" by simp
  ultimately have "sl_inv ?s' te Ls" "keys ?s' Ls = keys s Ls" by (simp_all only: inv_al)
  moreover have "a \<noteq> 0" using a(1) by auto
  then have "sl_new_simple_node v t tr s = Some (a, ?s')" using al by (simp add: sl_new_simple_node_def Let_def)
  moreover have "fresh ?s' te Ls v a"
    using a t w by (simp add: fresh_def snode_def vl_def tp_def dead_def)
  moreover have "tp ?s' a = t \<and> (\<forall>p. p \<noteq> a \<longrightarrow> vl ?s' p = vl s p \<and> dead ?s' p = dead s p)"
    by (simp add: tp_def vl_def dead_def)
  ultimately show ?thesis by (intro exI [of _ ?s']) simp
qed

section \<open>The operation\<close>

context node_alloc
begin

lemma insert_rep:
  assumes rep: "sl_rep ns ok f s K (m + 6)" and v: "v < VAL_MAX"
  shows "\<exists>s'. fraser_insert f v s = Some (v \<notin> K, s') \<and> sl_rep ns ok f s' (insert v K) m"
proof -
  obtain te Ls L where r: "sl_inv s te Ls" "keys s Ls = K" "{sl_head s, te} \<union> set (Ls 0) \<subseteq> L"
    "ok (sl_al s) L (m + 6)" "node_bytes (levelmax s) = ns" "length (Ls 0) + (m + 6) + 2 < f"
    using rep by (auto simp: sl_rep_def)
  have lm: "0 < levelmax s" using inv_ends [OF r(1)] by (simp add: ends_inv_def)
  obtain l s1 where l: "get_rand_level s = (l, s1)" by (cases "get_rand_level s")
  obtain ss where s1: "s1 = s\<lparr>sl_seeds := ss\<rparr>" and lb: "0 < l" "l \<le> levelmax s" using rand_level_bounds [OF l lm] by blast
  obtain a al1 where al1: "ssalloc_alloc 1 ns (sl_al s) = (a, al1)" by (cases "ssalloc_alloc 1 ns (sl_al s)")
  let ?n = "of_nat (levelmax s) * 8 :: u64"
  obtain p al2 where al2: "ssalloc ?n al1 = (p, al2)" by (cases "ssalloc ?n al1")
  obtain q al3 where al3: "ssalloc ?n al2 = (q, al3)" by (cases "ssalloc ?n al2")
  have kept: "a \<notin> L" "valid_addr a" "ok (ssfree q (ssfree p al3)) (insert a L) m"
    using node_kept [OF r(4) al1 al2 al3] less by auto
  have given: "ok (ssfree q (ssfree p (ssfree_alloc 1 a al3))) L m" by (rule node_back [OF r(4) al1 al2 al3])
  have inv1: "sl_inv s1 te Ls" and k1: "keys s1 Ls = K" using r(1,2) by (simp_all add: s1)
  obtain s2 where s2: "sl_new_simple_node v l 0 s1 = Some (a, s2)" "sl_inv s2 te Ls" "keys s2 Ls = K"
    "sl_head s2 = sl_head s" "levelmax s2 = levelmax s" "sl_al s2 = al1" "fresh s2 te Ls v a"
    using new_node [OF inv1, of 0 l a al1 v] al1 r(3,5) kept lb k1 by (auto simp: s1)
  let ?s3 = "s2\<lparr>sl_al := al3\<rparr>"
  have aa: "array_alloc s2 = (p, s2\<lparr>sl_al := al2\<rparr>)" "array_alloc (s2\<lparr>sl_al := al2\<rparr>) = (q, ?s3)"
    using al2 al3 by (simp_all add: array_alloc_eq s2(5,6))
  have inv3: "sl_inv ?s3 te Ls" "keys ?s3 Ls = K" using s2(2,3) by simp_all
  have fr3: "fresh ?s3 te Ls v a"
    using s2(7) by (simp add: fresh_def snode_def vl_def tp_def dead_def)
  have f: "length (Ls 0) < f" "0 < f" using r(6) by simp_all
  show ?thesis
  proof (cases "v \<in> K")
    case True
    obtain s4 Ls4 where b: "insert_bottom f a v ?s3 = Some (sl_delete_node a s4, None)" "sl_inv s4 te Ls4"
      "keys s4 Ls4 = K" "sl_frame ?s3 s4" "shrunk ?s3 Ls Ls4"
      using insert_bottom_dup [OF inv3(1) v _ f(1), of a] True inv3(2) by auto
    have F: "sl_head s4 = sl_head s" "levelmax s4 = levelmax s" "sl_al s4 = al3"
      using b(4) s2(4,5) by (simp_all add: sl_frame_def)
    let ?s5 = "array_free q (array_free p (sl_delete_node a s4))"
    have "fraser_insert f v s = Some (False, ?s5)" using l s2(1) aa b(1) by (simp add: fraser_insert_def)
    moreover have "sl_rep ns ok f ?s5 K m"
      unfolding sl_rep_def
    proof (intro exI conjI)
      show "sl_inv ?s5 te Ls4" "keys ?s5 Ls4 = K" using b(2,3) by (simp_all add: array_free_def sl_delete_node_def)
      show "{sl_head ?s5, te} \<union> set (Ls4 0) \<subseteq> L"
        using r(3) b(5) by (auto simp: array_free_def sl_delete_node_def F shrunk_def)
      show "ok (sl_al ?s5) L m" using given by (simp add: array_free_def sl_delete_node_def F)
      show "node_bytes (levelmax ?s5) = ns" using r(5) by (simp add: array_free_def sl_delete_node_def F)
      have "length (Ls4 0) \<le> length (Ls 0)" using b(5) by (simp add: shrunk_def)
      then show "length (Ls4 0) + m + 2 < f" using r(6) by simp
    qed
    ultimately show ?thesis using True by (simp add: insert_absorb)
  next
    case False
    obtain s4 Ls4 P R where b: "insert_bottom f a v ?s3 = Some (s4, Some (P, R))" "sl_inv s4 te Ls4"
      "keys s4 Ls4 = insert v K" "sl_frame ?s3 s4" "set (Ls4 0) \<subseteq> insert a (set (Ls 0))"
      "length (Ls4 0) \<le> Suc (length (Ls 0))" "node_inv s4 te a" "a \<in> set (Ls4 0)"
      "length P = levelmax s" "length R = levelmax s"
      "\<forall>j. 1 \<le> j \<and> j < tp s4 a \<longrightarrow> pos s4 te Ls4 v j (P ! j) (R ! j) \<and> nx s4 a j = R ! j \<and> vl s4 (R ! j) \<noteq> v \<and>
        snode s4 (R ! j) \<and> valid_addr (R ! j) \<and> a \<notin> set (Ls4 j)"
      using insert_bottom_new [OF inv3(1) v _ f(1) fr3] False inv3(2) s2(5) by auto
    have F: "sl_head s4 = sl_head s" "levelmax s4 = levelmax s" "sl_al s4 = al3" "vl s4 a = v" "\<not> dead s4 a"
      using b(4) s2(4,5) fr3 frame_dead [OF b(4)] by (auto simp: sl_frame_def fresh_def)
    have sa: "snode s4 a" "1 + (tp s4 a - 1) = tp s4 a" using b(7) by (simp_all add: node_inv_def)
    obtain s5 Ls5 where c: "insert_levels f 1 (tp s4 a - 1) a v P R s4 = Some s5" "sl_inv s5 te Ls5" "sl_frame s4 s5"
      "Ls5 0 = Ls4 0"
      using insert_levels_spec [OF b(2,7) F(5,4) sa(2) _ f(2), of P R] b(8-11) F(2) by auto
    let ?s6 = "array_free q (array_free p s5)"
    have "fraser_insert f v s = Some (True, ?s6)" using l s2(1) aa b(1) c(1) sa(1)
      by (simp add: fraser_insert_def sl_access)
    moreover have "sl_rep ns ok f ?s6 (insert v K) m"
      unfolding sl_rep_def
    proof (intro exI conjI)
      have G: "sl_head s5 = sl_head s" "levelmax s5 = levelmax s" "sl_al s5 = al3" "vl s5 = vl s4" "dead s5 = dead s4"
        using c(3) frame_dead [OF c(3)] F by (simp_all add: sl_frame_def)
      show "sl_inv ?s6 te Ls5" using c(2) by (simp add: array_free_def)
      have "keys s5 Ls5 = keys s4 Ls4" by (simp add: keys_def G c(4))
      then show "keys ?s6 Ls5 = insert v K" using b(3) by (simp add: array_free_def)
      show "{sl_head ?s6, te} \<union> set (Ls5 0) \<subseteq> insert a L" using r(3) b(5) c(4) by (auto simp: array_free_def G)
      show "ok (sl_al ?s6) (insert a L) m" using kept(3) by (simp add: array_free_def G)
      show "node_bytes (levelmax ?s6) = ns" using r(5) by (simp add: array_free_def G)
      show "length (Ls5 0) + m + 2 < f" using r(6) b(6) c(4) by simp
    qed
    ultimately show ?thesis using False by simp
  qed
qed

end

end
