(* ===== verification/SL_Seq.thy ===== *)
theory SL_Seq
  imports SL_Insert2
begin

text \<open>
  The sequential and the transactional operations against the same key set: lists on which no node
  is logically deleted.
\<close>

definition alive :: "sl_state \<Rightarrow> (nat \<Rightarrow> ptr list) \<Rightarrow> bool" where
  "alive s Ls \<longleftrightarrow> (\<forall>p \<in> set (Ls 0). \<not> dead s p)"

section \<open>Search\<close>

lemma seq_walk_spec:
  assumes "successively (\<lambda>p q. unset_mark (nx s p i) = q) (B @ [te])" "i < 19"
    and "\<forall>p \<in> set B. snode s p \<and> \<not> is_marked (nx s p i)" "snode s te" "v \<le> vl s te" "length B < f"
  shows "\<exists>pre post. B = pre @ post \<and> (\<forall>p \<in> set pre. vl s p < v) \<and> (post \<noteq> [] \<longrightarrow> v \<le> vl s (hd post)) \<and>
    seq_walk f i v node (hd (B @ [te])) s = Some (last (node # pre), hd (post @ [te]))"
  using assms
proof (induction f arbitrary: B node)
  case 0
  then show ?case by simp
next
  case (Suc f)
  show ?case
  proof (cases B)
    case Nil
    then show ?thesis using Suc.prems by (intro exI [of _ "[]"] exI [of _ "[]"]) (simp add: sl_access leD)
  next
    case (Cons b C)
    have b: "snode s b" "\<not> is_marked (nx s b i)" using Suc.prems(3) Cons by simp_all
    have suc: "successively (\<lambda>p q. unset_mark (nx s p i) = q) (C @ [te])" "unset_mark (nx s b i) = hd (C @ [te])"
      using Suc.prems(1) Cons by (cases C; simp add: successively_Cons)+
    have nb: "nx s b i = hd (C @ [te])" using suc(2) b(2) by (simp add: sl_marks unmarked_id)
    show ?thesis
    proof (cases "vl s b < v")
      case False
      then show ?thesis using Cons b by (intro exI [of _ "[]"] exI [of _ B]) (simp add: sl_access leI)
    next
      case True
      have C: "\<forall>p \<in> set C. snode s p \<and> \<not> is_marked (nx s p i)" "length C < f" using Suc.prems(3,6) Cons by auto
      obtain pre post where ih: "C = pre @ post" "\<forall>p \<in> set pre. vl s p < v" "post \<noteq> [] \<longrightarrow> v \<le> vl s (hd post)"
        "seq_walk f i v b (hd (C @ [te])) s = Some (last (b # pre), hd (post @ [te]))"
        using Suc.IH [OF suc(1) Suc.prems(2) C(1) Suc.prems(4,5) C(2), of b] by blast
      have "seq_walk (Suc f) i v node (hd (B @ [te])) s = seq_walk f i v b (hd (C @ [te])) s"
        using Cons b True nb Suc.prems(2) by (simp add: sl_access)
      then show ?thesis using ih Cons True by (intro exI [of _ "b # pre"] exI [of _ post]) auto
    qed
  qed
qed

lemma seq_level:
  assumes inv: "sl_inv s te Ls" and al: "alive s Ls" and i: "i < levelmax s" and v: "v \<le> VAL_MAX" and f: "length (Ls 0) < f"
    and node: "node = sl_head s \<or> (node \<in> set (Ls i) \<and> vl s node < v)"
  shows "\<exists>l r. seq_walk f i v node (nx s node i) s = Some (l, r) \<and> found s te Ls v i l r \<and> sl_rd s l i = Some r \<and>
    (l = sl_head s \<or> (l \<in> set (Ls i) \<and> vl s l < v))"
proof -
  have e: "ends_inv s te" by (rule inv_ends [OF inv])
  have i19: "i < 19" using e i by (simp add: ends_inv_def)
  have nd: "node_inv s te p \<and> i < tp s p" if "p \<in> set (Ls i)" for p using inv_node [OF inv that i] .
  have dl: "\<not> dead s p" if "p \<in> set (Ls i)" for p
    using al that inv_subset [OF inv le0 i] by (auto simp: alive_def)
  have lv: "lvl s te i (Ls i)" by (rule inv_lvl [OF inv i])
  have suc: "successively (\<lambda>p q. unset_mark (nx s p i) = q) (sl_head s # Ls i @ [te])" using lv by (simp add: lvl_def)
  have te: "snode s te" "vl s te = VAL_MAX" using e by (auto simp: ends_inv_def)
  obtain A B where AB: "(A = [] \<and> node = sl_head s \<and> B = Ls i) \<or> (\<exists>A'. A = A' @ [node] \<and> Ls i = A @ B \<and> vl s node < v)"
  proof (cases "node = sl_head s")
    case False
    then obtain A' B' where "Ls i = A' @ node # B'" using node by (meson split_list)
    then show ?thesis using that [of "A' @ [node]" B'] False node by simp
  qed blast
  have split: "Ls i = A @ B" and lastA: "last (sl_head s # A) = node" using AB by auto
  have um: "\<not> is_marked (nx s node i)"
    using node e nd dl i by (auto simp: ends_inv_def node_inv_def)
  have "successively (\<lambda>p q. unset_mark (nx s p i) = q) ((sl_head s # A) @ B @ [te])" using suc split by simp
  then have sB: "successively (\<lambda>p q. unset_mark (nx s p i) = q) (B @ [te])"
    and lB: "unset_mark (nx s node i) = hd (B @ [te])"
    using lastA unfolding successively_append_iff by auto
  have rt: "nx s node i = hd (B @ [te])" using lB um by (simp add: sl_marks unmarked_id)
  have nB: "\<forall>p \<in> set B. snode s p \<and> \<not> is_marked (nx s p i)"
    using nd dl split by (auto simp: node_inv_def)
  have lenB: "length B < f" using inv_length [OF inv i] f split by simp
  have vle: "v \<le> vl s te" using v te(2) by simp
  obtain pre post where w: "B = pre @ post" "\<forall>p \<in> set pre. vl s p < v" "post \<noteq> [] \<longrightarrow> v \<le> vl s (hd post)"
    "seq_walk f i v node (nx s node i) s = Some (last (node # pre), hd (post @ [te]))"
    using seq_walk_spec [OF sB i19 nB te(1) vle lenB, of node] unfolding rt by blast
  have l: "last (sl_head s # (A @ pre)) = last (node # pre)" using lastA by (cases pre) (simp_all split: if_splits)
  have t: "tight s v (A @ pre) post"
    using w AB dl split by (auto simp: tight_def split: if_splits)
  have fd: "found s te Ls v i (last (node # pre)) (hd (post @ [te]))"
    unfolding found_def using split w(1) l t by (intro exI [of _ "A @ pre"] exI [of _ post]) simp
  have "sl_rd s (last (node # pre)) i = Some (hd (post @ [te]))"
    using adjacent [OF inv i fd] i19 by (auto simp: sl_access)
  moreover have "last (node # pre) = sl_head s \<or> (last (node # pre) \<in> set (Ls i) \<and> vl s (last (node # pre)) < v)"
    using w(1,2) node split by (cases "pre = []") auto
  ultimately show ?thesis using w(4) fd by blast
qed

lemma seq_levels_spec:
  assumes "sl_inv s te Ls" "alive s Ls" "i \<le> levelmax s" "v \<le> VAL_MAX" "length (Ls 0) < f"
    and "node = sl_head s \<or> (i < levelmax s \<and> node \<in> set (Ls i) \<and> vl s node < v)"
  shows "\<exists>P R. seq_levels f i v node x preds succs s =
      Some (if i = 0 then node else P ! 0, if i = 0 then x else R ! 0, P @ preds, R @ succs) \<and>
    length P = i \<and> length R = i \<and> (\<forall>j < i. found s te Ls v j (P ! j) (R ! j))"
  using assms
proof (induction i arbitrary: node x preds succs)
  case 0
  then show ?case by simp
next
  case (Suc i)
  have i: "i < levelmax s" using Suc.prems(3) by simp
  have e: "ends_inv s te" by (rule inv_ends [OF Suc.prems(1)])
  have i19: "i < 19" using e i by (simp add: ends_inv_def)
  have nd: "node = sl_head s \<or> (node \<in> set (Ls i) \<and> vl s node < v)"
    using Suc.prems(6) Suc.prems(1) by (auto simp: sl_inv_def)
  then have sn: "snode s node" using e inv_node [OF Suc.prems(1) _ i] by (auto simp: ends_inv_def node_inv_def)
  obtain l r where w: "seq_walk f i v node (nx s node i) s = Some (l, r)" "found s te Ls v i l r" "sl_rd s l i = Some r"
    "l = sl_head s \<or> (l \<in> set (Ls i) \<and> vl s l < v)"
    using seq_level [OF Suc.prems(1,2) i Suc.prems(4,5) nd] by blast
  have l: "l = sl_head s \<or> (i < levelmax s \<and> l \<in> set (Ls i) \<and> vl s l < v)" using w(4) i by blast
  have i': "i \<le> levelmax s" using i by simp
  obtain P R where ih: "seq_levels f i v l r (l # preds) (r # succs) s =
      Some (if i = 0 then l else P ! 0, if i = 0 then r else R ! 0, P @ l # preds, R @ r # succs)"
    "length P = i" "length R = i" "\<forall>j < i. found s te Ls v j (P ! j) (R ! j)"
    using Suc.IH [OF Suc.prems(1,2) i' Suc.prems(4,5) l, of r "l # preds" "r # succs"] by blast
  have "seq_levels f (Suc i) v node x preds succs s = seq_levels f i v l r (l # preds) (r # succs) s"
    using sn i19 w(1,3) by (simp add: sl_access)
  then show ?case using ih w(2)
    by (intro exI [of _ "P @ [l]"] exI [of _ "R @ [r]"]) (auto simp: nth_append less_Suc_eq)
qed

text \<open>The transactional search reads the same nodes; \<open>v\<close> is the value of the last one.\<close>

lemma stm_walk_seq:
  "seq_walk f i v node x s = Some (l, r) \<Longrightarrow> sl_rd s node i = Some x \<Longrightarrow>
    sl_rd s l i = Some r \<and> (\<exists>w. sl_val s r = Some w \<and> stm_walk f i v node x s = Some (l, r, w))"
proof (induction f arbitrary: node x)
  case 0
  then show ?case by simp
next
  case (Suc f)
  then show ?case by (auto simp: Option.bind_eq_Some_conv split: if_splits) blast+
qed

lemma stm_levels_seq:
  "seq_levels f i v node x preds succs s = Some (l, r, P, R) \<Longrightarrow>
    \<exists>w'. stm_levels f i v node x w preds succs s = Some (l, r, w', P, R) \<and> (0 < i \<longrightarrow> sl_val s r = Some w' \<and> sl_rd s l 0 = Some r) \<and> (i = 0 \<longrightarrow> w' = w)"
proof (induction i arbitrary: node x preds succs w)
  case 0
  then show ?case by simp
next
  case (Suc i)
  obtain n l1 r1 sc where a: "sl_rd s node i = Some n" "seq_walk f i v node n s = Some (l1, r1)" "sl_rd s l1 i = Some sc"
    "seq_levels f i v l1 r1 (l1 # preds) (sc # succs) s = Some (l, r, P, R)"
    using Suc.prems by (auto simp: Option.bind_eq_Some_conv)
  obtain w1 where b: "sl_rd s l1 i = Some r1" "sl_val s r1 = Some w1" "stm_walk f i v node n s = Some (l1, r1, w1)"
    using stm_walk_seq [OF a(2,1)] by blast
  have "sc = r1" using a(3) b(1) by simp
  then obtain w' where c: "stm_levels f i v l1 r1 w1 (l1 # preds) (r1 # succs) s = Some (l, r, w', P, R)"
    "0 < i \<longrightarrow> sl_val s r = Some w' \<and> sl_rd s l 0 = Some r" "i = 0 \<longrightarrow> w' = w1"
    using Suc.IH [of l1 r1 "l1 # preds" "sc # succs" w1] a(4) by blast
  have "i = 0 \<longrightarrow> r = r1 \<and> l = l1" using a(4) by auto
  then show ?case using a(1) b c by auto
qed

end
