(* ===== verification/SL_Seq2.thy ===== *)
theory SL_Seq2
  imports SL_Seq
begin

text \<open>Adding and removing in the sequential and the transactional build.\<close>

section \<open>The invariant depends on what can be read only\<close>

lemma inv_cong:
  assumes "sl_inv s te Ls" "sl_frame s s'" "\<forall>q j. nx s' q j = nx s q j"
  shows "sl_inv s' te Ls \<and> keys s' Ls = keys s Ls"
proof -
  have F: "sl_head s' = sl_head s" "levelmax s' = levelmax s" "vl s' = vl s" "tp s' = tp s" "dead s' = dead s"
    "sl_junk s' = sl_junk s" "\<And>p. snode s' p = snode s p" "\<And>q j. nx s' q j = nx s q j"
    using assms(2,3) frame_dead [OF assms(2)] by (simp_all add: sl_frame_def)
  have "ends_inv s' te"
    using inv_ends [OF assms(1)] frame_len [OF assms(2) inv_ends [OF assms(1)]] unfolding ends_inv_def F by blast
  then have "sl_inv s' te Ls" using assms(1) by (simp add: sl_inv_def node_inv_def lvl_def F)
  moreover have "keys s' Ls = keys s Ls" by (simp add: keys_def F)
  ultimately show ?thesis by simp
qed

lemma frame_join: "sl_frame s s1 \<Longrightarrow> sl_frame s s2 \<Longrightarrow> sl_frame s1 s2"
  by (simp add: sl_frame_def)

section \<open>Linking all levels\<close>

lemma link_levels_spec:
  assumes "snode s a" "l \<le> 19" "l \<le> length P" "l \<le> length R" "\<forall>j < l. snode s (P ! j) \<and> P ! j \<noteq> a"
  shows "\<exists>s'. link_levels l a P R s = Some s' \<and> sl_frame s s' \<and>
    (\<forall>q j. nx s' q j = (if j < l \<and> q = P ! j then a else if j < l \<and> q = a then R ! j else nx s q j))"
  using assms
proof (induction l)
  case 0
  then show ?case by simp
next
  case (Suc l)
  then obtain s1 where s1: "link_levels l a P R s = Some s1" "sl_frame s s1"
    "\<forall>q j. nx s1 q j = (if j < l \<and> q = P ! j then a else if j < l \<and> q = a then R ! j else nx s q j)" by auto
  have n1: "snode s1 a" "snode s1 (P ! l)" using s1(2) Suc.prems(1,5) by (simp_all add: sl_frame_def)
  obtain s2 where s2: "sl_wr s1 a l (R ! l) = Some s2" "sl_frame s1 s2"
    "\<forall>q j. nx s2 q j = (if q = a \<and> j = l then R ! l else nx s1 q j)"
    using wr_node [OF n1(1), of l "R ! l"] Suc.prems(2) by auto
  have n2: "snode s2 (P ! l)" using s2(2) n1(2) by (simp add: sl_frame_def)
  obtain s3 where s3: "sl_wr s2 (P ! l) l a = Some s3" "sl_frame s2 s3"
    "\<forall>q j. nx s3 q j = (if q = P ! l \<and> j = l then a else nx s2 q j)"
    using wr_node [OF n2, of l a] Suc.prems(2) by auto
  have "link_levels (Suc l) a P R s = Some s3"
    using s1(1) s2(1) s3(1) Suc.prems(3,4) by (simp add: entry_def)
  moreover have "nx s3 q j = (if j < Suc l \<and> q = P ! j then a else if j < Suc l \<and> q = a then R ! j else nx s q j)" for q j
    using s1(3) s2(3) s3(3) Suc.prems(5) by (auto simp: less_Suc_eq)
  ultimately show ?case using frame_trans [OF frame_trans [OF s1(2) s2(2)] s3(2)] by blast
qed

text \<open>The transactional loop reads the successor again, and finds it unchanged.\<close>

lemma stm_link_eq:
  assumes "snode s a" "l \<le> 19" "l \<le> length P" "l \<le> length R"
    "\<forall>j < l. snode s (P ! j) \<and> P ! j \<noteq> a \<and> nx s (P ! j) j = R ! j"
  shows "stm_link l a P s = link_levels l a P R s"
  using assms
proof (induction l)
  case 0
  then show ?case by simp
next
  case (Suc l)
  then have ih: "stm_link l a P s = link_levels l a P R s" by simp
  obtain s1 where s1: "link_levels l a P R s = Some s1" "sl_frame s s1"
    "\<forall>q j. nx s1 q j = (if j < l \<and> q = P ! j then a else if j < l \<and> q = a then R ! j else nx s q j)"
    using link_levels_spec [of s a l P R] Suc.prems by auto
  have n1: "snode s1 (P ! l)" using s1(2) Suc.prems(5) by (simp add: sl_frame_def)
  have "nx s1 (P ! l) l = R ! l" using s1(3) Suc.prems(5) by simp
  then show ?case using ih s1(1) n1 Suc.prems(2-4) by (simp add: entry_def sl_access)
qed

text \<open>Linking level by level, from a node whose pointers are already set.\<close>

lemma link_all:
  assumes inv: "sl_inv s te Ls" and a: "node_inv s te a" "\<not> dead s a" "vl s a = v"
    and p: "\<forall>j < tp s a. pos s te Ls v j (P ! j) (R ! j) \<and> nx s a j = R ! j \<and> a \<notin> set (Ls j) \<and> P ! j \<noteq> a"
    and n: "n \<le> tp s a"
  shows "\<exists>s' Ls'. sl_frame s s' \<and> (\<forall>q j. nx s' q j = (if j < n \<and> q = P ! j then a else nx s q j)) \<and> sl_inv s' te Ls' \<and>
    (\<forall>j \<ge> n. Ls' j = Ls j) \<and> (\<forall>j < n. set (Ls' j) = insert a (set (Ls j)) \<and> length (Ls' j) = Suc (length (Ls j)))"
  using n
proof (induction n)
  case 0
  then show ?case using inv by (intro exI [of _ s] exI [of _ Ls]) simp
next
  case (Suc n)
  then obtain s1 Ls1 where ih: "sl_frame s s1" "\<forall>q j. nx s1 q j = (if j < n \<and> q = P ! j then a else nx s q j)"
    "sl_inv s1 te Ls1" "\<forall>j \<ge> n. Ls1 j = Ls j"
    "\<forall>j < n. set (Ls1 j) = insert a (set (Ls j)) \<and> length (Ls1 j) = Suc (length (Ls j))" by auto
  have F: "vl s1 = vl s" "tp s1 = tp s" "dead s1 = dead s" "levelmax s1 = levelmax s" "sl_head s1 = sl_head s"
    "\<And>p. snode s1 p = snode s p"
    using ih(1) frame_dead [OF ih(1)] by (simp_all add: sl_frame_def)
  have nt: "n < tp s a" using Suc.prems by simp
  have q: "pos s te Ls v n (P ! n) (R ! n)" "nx s a n = R ! n" "a \<notin> set (Ls n)" "P ! n \<noteq> a" using p nt by auto
  have lm: "n < levelmax s1" using nt a(1) by (simp add: node_inv_def F)
  have nxa: "nx s1 a j = nx s a j" if "j < tp s a" for j using ih(2) p that by auto
  have na: "node_inv s1 te a" using a(1) nxa by (simp add: node_inv_def F)
  have ps: "pos s1 te Ls1 v n (P ! n) (R ! n)" using pos_frame [OF q(1) ih(1), of Ls1] ih(2,4) by simp
  have sn: "snode s1 (P ! n)" "nx s1 (P ! n) n = R ! n" using ps by (auto simp: pos_def)
  have n19: "n < 19" using lm inv_ends [OF ih(3)] by (simp add: ends_inv_def)
  obtain s2 where s2: "sl_frame s1 s2" "\<forall>q j. nx s2 q j = (if q = P ! n \<and> j = n then a else nx s1 q j)"
    using wr_node [OF sn(1) n19, of a] by blast
  have d: "\<not> dead s1 a" "vl s1 a = v" "n < tp s1 a" "nx s1 a n = R ! n" "a \<notin> set (Ls1 n)"
    using a(2,3) nt q ih(2,4) by (simp_all add: F)
  have low: "n = 0 \<or> a \<in> set (Ls1 (n - 1))" using ih(5) by (cases n) auto
  obtain L where L: "sl_inv s2 te (Ls1(n := L))" "set L = insert a (set (Ls1 n))" "length L = Suc (length (Ls1 n))"
    using link_inv [OF ih(3) lm ps na d low s2] by blast
  have nx2: "\<forall>q j. nx s2 q j = (if j < Suc n \<and> q = P ! j then a else nx s q j)"
    using ih(2) s2(2) by (auto simp: less_Suc_eq)
  have keep: "\<forall>j \<ge> Suc n. (Ls1(n := L)) j = Ls j" using ih(4) by simp
  have new: "\<forall>j < Suc n. set ((Ls1(n := L)) j) = insert a (set (Ls j)) \<and> length ((Ls1(n := L)) j) = Suc (length (Ls j))"
    using L(2,3) ih(4,5) by (auto simp: less_Suc_eq)
  show ?case using frame_trans [OF ih(1) s2(1)] nx2 L(1) keep new by blast
qed

text \<open>Both loops put a fresh node in its place.\<close>

lemma link_fresh:
  assumes inv: "sl_inv s te Ls" and al: "alive s Ls" and v: "v < VAL_MAX" "v \<notin> keys s Ls" and a: "fresh s te Ls v a"
    and fd: "\<forall>j < levelmax s. found s te Ls v j (P ! j) (R ! j)" and len: "length P = levelmax s" "length R = levelmax s"
  shows "\<exists>s' Ls'. link_levels (tp s a) a P R s = Some s' \<and> stm_link (tp s a) a P s = Some s' \<and> sl_frame s s' \<and>
    sl_inv s' te Ls' \<and> alive s' Ls' \<and> keys s' Ls' = insert v (keys s Ls) \<and> set (Ls' 0) = insert a (set (Ls 0)) \<and>
    length (Ls' 0) = Suc (length (Ls 0))"
proof -
  let ?t = "tp s a"
  have e: "ends_inv s te" by (rule inv_ends [OF inv])
  have t: "0 < ?t" "?t \<le> levelmax s" "?t \<le> 19" and sa: "snode s a"
    using a e by (simp_all add: fresh_def ends_inv_def)
  have lt: "?t \<le> length P" "?t \<le> length R" using t len by simp_all
  have al0: "a \<notin> set (Ls j)" if "j < levelmax s" for j
    using a inv_subset [OF inv, of 0 j] that by (auto simp: fresh_def)
  have pf: "pos s te Ls v j (P ! j) (R ! j) \<and> valid_addr (R ! j)" if "j < levelmax s" for j
    using pos_of_found [OF inv that _ v(2,1)] fd that by blast
  have pn: "snode s (P ! j) \<and> P ! j \<noteq> a \<and> nx s (P ! j) j = R ! j" if j: "j < ?t" for j
  proof -
    have jl: "j < levelmax s" using j t by simp
    then have "pos s te Ls v j (P ! j) (R ! j)" using pf by blast
    then have "P ! j = sl_head s \<or> P ! j \<in> set (Ls j)" by (auto simp: pos_def)
    then have "P ! j \<noteq> a" using al0 [OF jl] a by (auto simp: fresh_def)
    then show ?thesis using pf [OF jl] by (auto simp: pos_def)
  qed
  obtain s' where s': "link_levels ?t a P R s = Some s'" "sl_frame s s'"
    "\<forall>q j. nx s' q j = (if j < ?t \<and> q = P ! j then a else if j < ?t \<and> q = a then R ! j else nx s q j)"
    using link_levels_spec [OF sa t(3) lt] pn by blast
  have stm: "stm_link ?t a P s = Some s'" using stm_link_eq [OF sa t(3) lt] pn s'(1) by simp
  obtain s1 where s1: "sl_frame s s1" "\<forall>q j. nx s1 q j = (if q = a \<and> j < ?t then R ! j else nx s q j)"
    using fill_nexts_spec [OF sa t(3) lt(2)] by blast
  have G: "sl_head s1 = sl_head s" "levelmax s1 = levelmax s" "vl s1 = vl s" "tp s1 = tp s" "dead s1 = dead s"
    "\<And>p. snode s1 p = snode s p" "sl_junk s1 = sl_junk s"
    using s1(1) frame_dead [OF s1(1)] by (simp_all add: sl_frame_def)
  have ao: "a \<noteq> sl_head s" "a \<noteq> te" "a \<notin> set (Ls 0)" using a by (simp_all add: fresh_def)
  have "sl_inv s1 te Ls \<and> keys s1 Ls = keys s Ls"
    by (rule inv_other [OF inv ao]) (use G s1(2) frame_len [OF s1(1) e] in auto)
  then have inv1: "sl_inv s1 te Ls" and k1: "keys s1 Ls = keys s Ls" by simp_all
  have na: "node_inv s1 te a" "\<not> dead s1 a" "vl s1 a = v"
    using a pf t s1(2) v(1) by (auto simp: node_inv_def fresh_def G sl_marks)
  have pp: "\<forall>j < tp s1 a. pos s1 te Ls v j (P ! j) (R ! j) \<and> nx s1 a j = R ! j \<and> a \<notin> set (Ls j) \<and> P ! j \<noteq> a"
  proof (intro allI impI)
    fix j assume "j < tp s1 a"
    then have j: "j < ?t" "j < levelmax s" using t by (simp_all add: G)
    show "pos s1 te Ls v j (P ! j) (R ! j) \<and> nx s1 a j = R ! j \<and> a \<notin> set (Ls j) \<and> P ! j \<noteq> a"
      using pos_frame [of s te Ls v j "P ! j" "R ! j" s1 Ls] pf [OF j(2)] s1 pn [OF j(1)] al0 [OF j(2)] j(1) by simp
  qed
  obtain s2 Ls2 where s2: "sl_frame s1 s2" "\<forall>q j. nx s2 q j = (if j < ?t \<and> q = P ! j then a else nx s1 q j)"
    "sl_inv s2 te Ls2"
    "\<forall>j < ?t. set (Ls2 j) = insert a (set (Ls j)) \<and> length (Ls2 j) = Suc (length (Ls j))"
    using link_all [OF inv1 na pp, of ?t] by (auto simp: G)
  have fr: "sl_frame s2 s'" by (rule frame_join [OF frame_trans [OF s1(1) s2(1)] s'(2)])
  have nxe: "\<forall>q j. nx s' q j = nx s2 q j" using s'(3) s2(2) s1(2) by auto
  have inv': "sl_inv s' te Ls2" "keys s' Ls2 = keys s2 Ls2" using inv_cong [OF s2(3) fr nxe] by simp_all
  have H: "vl s2 = vl s" "dead s2 = dead s" "dead s' = dead s"
    using s2(1) frame_dead [OF s2(1)] frame_dead [OF s'(2)] G by (simp_all add: sl_frame_def)
  have set2: "set (Ls2 0) = insert a (set (Ls 0))" "length (Ls2 0) = Suc (length (Ls 0))" using s2(4) t(1) by auto
  have "\<not> dead s a" "vl s a = v" using a by (simp_all add: fresh_def)
  then have "{p \<in> set (Ls2 0). \<not> dead s p} = insert a {p \<in> set (Ls 0). \<not> dead s p}" using set2(1) by auto
  then have "keys s' Ls2 = insert v (keys s Ls)" using inv'(2) \<open>vl s a = v\<close> by (simp add: keys_def H)
  moreover have "alive s' Ls2" using al set2(1) \<open>\<not> dead s a\<close> by (simp add: alive_def H)
  ultimately show ?thesis using s' stm inv'(1) set2 by blast
qed

end
