(* ===== verification/SL_Seq3.thy ===== *)
theory SL_Seq3
  imports SL_Seq2
begin

text \<open>Removal without logical deletion, and the operations of the two builds against the key set.\<close>

section \<open>Unlinking all levels\<close>

lemma unlink_levels_spec:
  assumes "l \<le> 19" "l \<le> length P" "l \<le> length R" "\<forall>j < l. snode s (P ! j) \<and> snode s (R ! j)"
  shows "\<exists>s'. unlink_levels l v P R s = Some s' \<and> sl_frame s s' \<and>
    (\<forall>q j. nx s' q j = (if j < l \<and> q = P ! j \<and> vl s (R ! j) = v then nx s (R ! j) j else nx s q j))"
  using assms
proof (induction l)
  case 0
  then show ?case by simp
next
  case (Suc l)
  then obtain s1 where s1: "unlink_levels l v P R s = Some s1" "sl_frame s s1"
    "\<forall>q j. nx s1 q j = (if j < l \<and> q = P ! j \<and> vl s (R ! j) = v then nx s (R ! j) j else nx s q j)" by auto
  have n: "snode s1 (P ! l)" "snode s1 (R ! l)" "vl s1 = vl s" using s1(2) Suc.prems(4) by (simp_all add: sl_frame_def)
  have r: "nx s1 (R ! l) l = nx s (R ! l) l" using s1(3) by simp
  show ?case
  proof (cases "vl s (R ! l) = v")
    case True
    obtain s2 where s2: "sl_wr s1 (P ! l) l (nx s (R ! l) l) = Some s2" "sl_frame s1 s2"
      "\<forall>q j. nx s2 q j = (if q = P ! l \<and> j = l then nx s (R ! l) l else nx s1 q j)"
      using wr_node [OF n(1), of l "nx s (R ! l) l"] Suc.prems(1) by auto
    have "unlink_levels (Suc l) v P R s = Some s2"
      using s1(1) s2(1) n r True Suc.prems(1-3) by (simp add: entry_def sl_access)
    moreover have "nx s2 q j = (if j < Suc l \<and> q = P ! j \<and> vl s (R ! j) = v then nx s (R ! j) j else nx s q j)" for q j
      using s1(3) s2(3) True by (auto simp: less_Suc_eq)
    ultimately show ?thesis using frame_trans [OF s1(2) s2(2)] by blast
  next
    case False
    have "unlink_levels (Suc l) v P R s = Some s1"
      using s1(1) n False Suc.prems(1-3) by (simp add: entry_def sl_access)
    moreover have "nx s1 q j = (if j < Suc l \<and> q = P ! j \<and> vl s (R ! j) = v then nx s (R ! j) j else nx s q j)" for q j
      using s1(3) False by (auto simp: less_Suc_eq)
    ultimately show ?thesis using s1(2) by blast
  qed
qed

lemma vl_inj:
  assumes inv: "sl_inv s te Ls" and p: "p \<in> set (Ls 0)" "q \<in> set (Ls 0)" "vl s p = vl s q"
  shows "p = q"
proof (rule ccontr)
  assume "p \<noteq> q"
  have "0 < levelmax s" using inv_ends [OF inv] by (simp add: ends_inv_def)
  then have "lvl s te 0 (Ls 0)" by (rule inv_lvl [OF inv])
  then have sw: "sorted_wrt (\<lambda>p q. vl s p < vl s q) (Ls 0)" by (simp add: lvl_def)
  obtain i where i: "i < length (Ls 0)" "Ls 0 ! i = p" using p(1) unfolding in_set_conv_nth by blast
  obtain j where j: "j < length (Ls 0)" "Ls 0 ! j = q" using p(2) unfolding in_set_conv_nth by blast
  have "i < j \<or> j < i" using i(2) j(2) \<open>p \<noteq> q\<close> by (metis linorder_neqE_nat)
  then have "vl s p < vl s q \<or> vl s q < vl s p" using sw i j unfolding sorted_wrt_iff_nth_less by blast
  then show False using p(3) by simp
qed

text \<open>At one level: the node is unlinked if it is there.\<close>

lemma unlink_one:
  assumes inv: "sl_inv s te Ls" and al: "alive s Ls" and j: "j < levelmax s" and fd: "found s te Ls v j l x"
    and r: "r \<in> set (Ls 0)" "vl s r = v" and up: "Suc j < levelmax s \<longrightarrow> r \<notin> set (Ls (Suc j))"
    and fr: "sl_frame s s'"
    and upd: "\<forall>q i. nx s' q i = (if i = j \<and> q = l \<and> vl s x = v then nx s x j else nx s q i)"
  shows "\<exists>L. sl_inv s' te (Ls(j := L)) \<and> set L = set (Ls j) - {r}"
proof -
  obtain pre post where a: "Ls j = pre @ post" "l = last (sl_head s # pre)" "x = hd (post @ [te])" "tight s v pre post"
    "\<forall>p \<in> set pre. vl s p < v" "\<forall>p \<in> set post. v \<le> vl s p" "nx s l j = x" "snode s l" "valid_addr x"
    using adjacent [OF inv j fd] by blast
  have sub: "set (Ls j) \<subseteq> set (Ls 0)" by (rule inv_subset [OF inv le0 j])
  have sw: "sorted_wrt (\<lambda>p q. vl s p < vl s q) (pre @ post)" using inv_lvl [OF inv j] a(1) by (simp add: lvl_def)
  have te: "vl s te = VAL_MAX" "te \<notin> set (Ls 0)"
    using inv inv_ends [OF inv] by (auto simp: ends_inv_def sl_inv_def node_inv_def)
  have vm: "v < VAL_MAX" using inv r by (auto simp: sl_inv_def node_inv_def)
  show ?thesis
  proof (cases "vl s x = v")
    case True
    have "post \<noteq> []" using True a(3) te vm by auto
    then obtain post' where p: "post = x # post'" using a(3) by (cases post) auto
    have "x \<in> set (Ls 0)" using p a(1) sub by auto
    then have xr: "x = r" using vl_inj [OF inv _ r(1)] True r(2) by simp
    have "\<not> dead s x" using al \<open>x \<in> set (Ls 0)\<close> by (simp add: alive_def)
    moreover have "node_inv s te x \<and> j < tp s x" using inv_node [OF inv _ j, of x] p a(1) by simp
    ultimately have um: "\<not> is_marked (nx s x j)" by (simp add: node_inv_def)
    have "successively (\<lambda>p q. unset_mark (nx s p j) = q) ((sl_head s # pre) @ x # post' @ [te])"
      using inv_lvl [OF inv j] a(1) p by (simp add: lvl_def)
    then have "successively (\<lambda>p q. unset_mark (nx s p j) = q) (x # post' @ [te])" unfolding successively_append_iff by blast
    then have "nx s x j = hd (post' @ [te])" using um by (cases post') (simp_all add: successively_Cons sl_marks unmarked_id)
    then have u: "\<forall>q i. nx s' q i = (if q = last (sl_head s # pre) \<and> i = j then hd (post' @ [te]) else nx s q i)"
      using upd True a(2) by auto
    have live: "pre \<noteq> [] \<longrightarrow> \<not> dead s (last pre)" using a(4) by (simp add: tight_def)
    have "sl_inv s' te (Ls(j := pre @ post'))"
      by (rule unlink_inv [OF inv j _ live _ fr u, of "[x]"]) (use a(1) p up xr in auto)
    moreover have "distinct (pre @ post)" by (rule vl_distinct [OF sw])
    then have "set (pre @ post') = set (Ls j) - {r}" using a(1) p xr by auto
    ultimately show ?thesis by blast
  next
    case False
    have "r \<notin> set (Ls j)"
    proof
      assume rj: "r \<in> set (Ls j)"
      then have "r \<in> set post" using a(1,5) r(2) by auto
      then obtain b C where b: "post = b # C" by (cases post) auto
      then have "x = b" "v \<le> vl s b" using a(3,6) by simp_all
      then have "v < vl s b" using False by (simp add: order_less_le)
      moreover have "r = b \<or> vl s b < vl s r" using \<open>r \<in> set post\<close> b sw by (auto simp: sorted_wrt_append)
      ultimately show False using r(2) by auto
    qed
    moreover have "sl_inv s' te Ls" using inv_cong [OF inv fr] upd False by simp
    ultimately show ?thesis by (intro exI [of _ "Ls j"]) simp
  qed
qed

lemma unlink_all:
  assumes inv: "sl_inv s te Ls" and al: "alive s Ls" and r: "r \<in> set (Ls 0)" "vl s r = v"
    and fd: "\<forall>j < levelmax s. found s te Ls v j (P ! j) (R ! j)" and n: "n \<le> levelmax s"
  shows "\<exists>s' Ls'. sl_frame s s' \<and> sl_inv s' te Ls' \<and>
    (\<forall>q j. nx s' q j = (if levelmax s - n \<le> j \<and> j < levelmax s \<and> q = P ! j \<and> vl s (R ! j) = v then nx s (R ! j) j else nx s q j)) \<and>
    (\<forall>j < levelmax s - n. Ls' j = Ls j) \<and> (\<forall>j. levelmax s - n \<le> j \<and> j < levelmax s \<longrightarrow> set (Ls' j) = set (Ls j) - {r})"
  using n
proof (induction n)
  case 0
  then show ?case using inv by (intro exI [of _ s] exI [of _ Ls]) auto
next
  case (Suc n)
  let ?m = "levelmax s"
  let ?j = "?m - Suc n"
  obtain s1 Ls1 where ih: "sl_frame s s1" "sl_inv s1 te Ls1"
    "\<forall>q j. nx s1 q j = (if ?m - n \<le> j \<and> j < ?m \<and> q = P ! j \<and> vl s (R ! j) = v then nx s (R ! j) j else nx s q j)"
    "\<forall>j < ?m - n. Ls1 j = Ls j" "\<forall>j. ?m - n \<le> j \<and> j < ?m \<longrightarrow> set (Ls1 j) = set (Ls j) - {r}"
    using Suc by auto
  have j: "?j < ?m" "Suc ?j = ?m - n" "?j < ?m - n" using Suc.prems by simp_all
  have F: "vl s1 = vl s" "dead s1 = dead s" "levelmax s1 = levelmax s" "sl_head s1 = sl_head s" "\<And>p. snode s1 p = snode s p"
    using ih(1) frame_dead [OF ih(1)] by (simp_all add: sl_frame_def)
  have f1: "found s1 te Ls1 v ?j (P ! ?j) (R ! ?j)"
    using fd j(1) ih(4) j(3) by (simp add: found_def tight_def F)
  obtain pre post where a: "P ! ?j = last (sl_head s1 # pre)" "snode s1 (P ! ?j)"
    using adjacent [OF ih(2) _ f1] j(1) F(3) by auto
  have j19: "?j < 19" using j(1) inv_ends [OF inv] by (auto simp: ends_inv_def)
  obtain w where w: "w = (if vl s (R ! ?j) = v then nx s (R ! ?j) ?j else nx s1 (P ! ?j) ?j)" by blast
  obtain s2 where s2: "sl_frame s1 s2" "\<forall>q i. nx s2 q i = (if q = P ! ?j \<and> i = ?j then w else nx s1 q i)"
    using wr_node [OF a(2) j19, of w] by blast
  have u: "\<forall>q i. nx s2 q i = (if i = ?j \<and> q = P ! ?j \<and> vl s1 (R ! ?j) = v then nx s1 (R ! ?j) ?j else nx s1 q i)"
    using s2(2) w ih(3) j by (auto simp: F)
  have "0 < ?m - n" using j(3) by linarith
  then have L0: "Ls1 0 = Ls 0" using ih(4) by blast
  have r1: "r \<in> set (Ls1 0)" "vl s1 r = v" using r by (simp_all add: F L0)
  have al1: "alive s1 Ls1" using al by (simp add: alive_def F L0)
  have up: "Suc ?j < levelmax s1 \<longrightarrow> r \<notin> set (Ls1 (Suc ?j))" using ih(5) j(2) F(3) by auto
  obtain L where L: "sl_inv s2 te (Ls1(?j := L))" "set L = set (Ls1 ?j) - {r}"
    using unlink_one [OF ih(2) al1 _ f1 r1 up s2(1) u] j(1) F(3) by auto
  have nx2: "\<forall>q j. nx s2 q j = (if ?m - Suc n \<le> j \<and> j < ?m \<and> q = P ! j \<and> vl s (R ! j) = v then nx s (R ! j) j else nx s q j)"
  proof (intro allI)
    fix q i
    show "nx s2 q i = (if ?m - Suc n \<le> i \<and> i < ?m \<and> q = P ! i \<and> vl s (R ! i) = v then nx s (R ! i) i else nx s q i)"
    proof (cases "i = ?j")
      case True
      then show ?thesis using s2(2) w ih(3) j by auto
    next
      case False
      then have "?m - Suc n \<le> i \<longleftrightarrow> ?m - n \<le> i" using j(2) by linarith
      then show ?thesis using False s2(2) ih(3) by auto
    qed
  qed
  have keep: "\<forall>i < ?m - Suc n. (Ls1(?j := L)) i = Ls i" using ih(4) j by auto
  have new: "\<forall>i. ?m - Suc n \<le> i \<and> i < ?m \<longrightarrow> set ((Ls1(?j := L)) i) = set (Ls i) - {r}"
  proof (intro allI impI)
    fix i assume i: "?m - Suc n \<le> i \<and> i < ?m"
    show "set ((Ls1(?j := L)) i) = set (Ls i) - {r}"
    proof (cases "i = ?j")
      case True
      then show ?thesis using L(2) ih(4) j(3) by simp
    next
      case False
      then have "?m - n \<le> i" using i j(2) by linarith
      then show ?thesis using False ih(5) i by simp
    qed
  qed
  show ?case using frame_trans [OF ih(1) s2(1)] L(1) nx2 keep new by blast
qed

section \<open>The operations\<close>

definition seq_rep :: "u64 \<Rightarrow> (ssalloc_st \<Rightarrow> ptr set \<Rightarrow> nat \<Rightarrow> bool) \<Rightarrow> nat \<Rightarrow> sl_state \<Rightarrow> u32 set \<Rightarrow> nat \<Rightarrow> bool" where
  "seq_rep ns ok f s K m \<longleftrightarrow> (\<exists>te Ls L. sl_inv s te Ls \<and> alive s Ls \<and> keys s Ls = K \<and>
     {sl_head s, te} \<union> set (Ls 0) \<subseteq> L \<and> ok (sl_al s) L m \<and> node_bytes (levelmax s) = ns \<and> length (Ls 0) + m + 2 < f)"

text \<open>The search from the head, as the three operations start.\<close>

lemma seq_search:
  assumes inv: "sl_inv s te Ls" and al: "alive s Ls" and v: "v < VAL_MAX" and f: "length (Ls 0) < f"
  obtains P R where "sl_top s (sl_head s) = Some (levelmax s)"
    "seq_levels f (levelmax s) v (sl_head s) 0 [] [] s = Some (P ! 0, R ! 0, P, R)"
    "length P = levelmax s" "length R = levelmax s" "\<forall>j < levelmax s. found s te Ls v j (P ! j) (R ! j)"
    "sl_rd s (P ! 0) 0 = Some (R ! 0)" "sl_val s (R ! 0) = Some (vl s (R ! 0))" "vl s (R ! 0) = v \<longleftrightarrow> v \<in> keys s Ls"
    "\<forall>j < levelmax s. snode s (P ! j) \<and> snode s (R ! j)"
proof -
  have e: "ends_inv s te" by (rule inv_ends [OF inv])
  then have lm: "0 < levelmax s" and tp: "sl_top s (sl_head s) = Some (levelmax s)"
    by (auto simp: ends_inv_def sl_access)
  obtain P R where s: "seq_levels f (levelmax s) v (sl_head s) 0 [] [] s = Some (P ! 0, R ! 0, P, R)"
    "length P = levelmax s" "length R = levelmax s" "\<forall>j < levelmax s. found s te Ls v j (P ! j) (R ! j)"
    using seq_levels_spec [OF inv al le_refl less_imp_le [OF v] f, of "sl_head s" 0 "[]" "[]"] lm by auto
  have sn: "snode s (P ! j) \<and> snode s (R ! j) \<and> nx s (P ! j) j = R ! j" if j: "j < levelmax s" for j
  proof -
    have fd: "found s te Ls v j (P ! j) (R ! j)" using s(4) j by blast
    obtain pre post where a: "Ls j = pre @ post" "R ! j = hd (post @ [te])" "nx s (P ! j) j = R ! j" "snode s (P ! j)"
      using adjacent [OF inv j fd] by blast
    moreover have "snode s (R ! j)" using a(1,2) e inv_node [OF inv _ j] by (cases post) (auto simp: ends_inv_def node_inv_def)
    ultimately show ?thesis by simp
  qed
  have "sl_rd s (P ! 0) 0 = Some (R ! 0)" "sl_val s (R ! 0) = Some (vl s (R ! 0))" using sn lm by (auto simp: sl_access)
  moreover have "vl s (R ! 0) = v \<longleftrightarrow> v \<in> keys s Ls" using found_key [OF inv _ v] s(4) lm by blast
  ultimately show ?thesis using that [OF tp s] sn by blast
qed

lemma seq_contains_rep:
  assumes rep: "seq_rep ns ok f s K m" and v: "v < VAL_MAX"
  shows "seq_contains f v s = Some (v \<in> K)"
proof -
  obtain te Ls L where r: "sl_inv s te Ls" "alive s Ls" "keys s Ls = K" "length (Ls 0) + m + 2 < f"
    using rep by (auto simp: seq_rep_def)
  have f: "length (Ls 0) < f" using r(4) by simp
  show ?thesis
    by (rule seq_search [OF r(1,2) v f]) (simp add: seq_contains_def r(3))
qed

text \<open>The transactional version gives the same answers, whatever the memory holds.\<close>

lemma stm_contains_eq:
  assumes "seq_contains f v s = Some b" "sl_top s (sl_head s) = Some t" "0 < t"
  shows "stm_contains f v s = Some b"
proof -
  obtain l r P R n x where a: "seq_levels f t v (sl_head s) 0 [] [] s = Some (l, r, P, R)" "sl_rd s l 0 = Some n"
    "sl_val s n = Some x" "b \<longleftrightarrow> x = v"
    using assms(1,2) by (auto simp: seq_contains_def Option.bind_eq_Some_conv)
  obtain w where w: "stm_levels f t v (sl_head s) 0 VAL_MIN [] [] s = Some (l, r, w, P, R)" "sl_val s r = Some w"
    "sl_rd s l 0 = Some r"
    using stm_levels_seq [OF a(1)] assms(3) by blast
  then show ?thesis using a w assms(2) by (simp add: stm_contains_def)
qed

text \<open>A new value: the node is made and linked, in either build.\<close>

lemma add_core:
  assumes inv: "sl_inv s te Ls" and al: "alive s Ls" and v: "v < VAL_MAX" "v \<notin> keys s Ls"
    and fd: "\<forall>j < levelmax s. found s te Ls v j (P ! j) (R ! j)" and len: "length P = levelmax s" "length R = levelmax s"
    and l: "get_rand_level s = (l, s1)"
    and alloc: "(if tr \<noteq> 0 then c_malloc (192 + of_nat l * 8) (sl_al s)
      else ssalloc_alloc 1 (node_bytes (levelmax s)) (sl_al s)) = (a, al')"
    and a: "valid_addr a" "a \<notin> {sl_head s, te} \<union> set (Ls 0)"
  shows "\<exists>s2 s' Ls'. sl_new_simple_node v l tr s1 = Some (a, s2) \<and> link_levels l a P R s2 = Some s' \<and>
    stm_link l a P s2 = Some s' \<and> sl_inv s' te Ls' \<and> alive s' Ls' \<and> keys s' Ls' = insert v (keys s Ls) \<and>
    set (Ls' 0) = insert a (set (Ls 0)) \<and> length (Ls' 0) = Suc (length (Ls 0)) \<and> sl_head s' = sl_head s \<and>
    levelmax s' = levelmax s \<and> sl_al s' = al'"
proof -
  have lm: "0 < levelmax s" using inv_ends [OF inv] by (simp add: ends_inv_def)
  obtain ss where s1: "s1 = s\<lparr>sl_seeds := ss\<rparr>" and lb: "0 < l" "l \<le> levelmax s" using rand_level_bounds [OF l lm] by blast
  have inv1: "sl_inv s1 te Ls" "keys s1 Ls = keys s Ls" using inv by (simp_all add: s1)
  have S: "sl_head s1 = sl_head s" "levelmax s1 = levelmax s" "vl s1 = vl s" "dead s1 = dead s" "sl_al s1 = sl_al s"
    by (simp_all add: s1 vl_def dead_def fun_eq_iff)
  have alloc1: "(if tr \<noteq> 0 then c_malloc (192 + of_nat l * 8) (sl_al s1)
      else ssalloc_alloc 1 (node_bytes (levelmax s1)) (sl_al s1)) = (a, al')" using alloc by (simp only: S)
  have a1: "a \<notin> {sl_head s1, te} \<union> set (Ls 0)" using a(2) by (simp only: S not_False_eq_True)
  have lb1: "0 < l" "l \<le> levelmax s1" using lb by (simp_all only: S)
  obtain s2 where s2: "sl_new_simple_node v l tr s1 = Some (a, s2)" "sl_inv s2 te Ls" "keys s2 Ls = keys s Ls"
    "sl_head s2 = sl_head s" "levelmax s2 = levelmax s" "sl_al s2 = al'" "fresh s2 te Ls v a" "tp s2 a = l"
    "\<forall>p. p \<noteq> a \<longrightarrow> vl s2 p = vl s p \<and> dead s2 p = dead s p"
    using new_node [OF inv1(1) alloc1 a(1) a1 lb1, of v] inv1(2) unfolding S by metis
  have nl: "p \<noteq> a" if "p \<in> set (Ls j)" "j < levelmax s" for p j
    using that a(2) inv_subset [OF inv, of 0 j] by auto
  have al2: "alive s2 Ls" using al s2(9) nl lm by (auto simp: alive_def)
  have fd2: "\<forall>j < levelmax s2. found s2 te Ls v j (P ! j) (R ! j)"
  proof (intro allI impI)
    fix j assume "j < levelmax s2"
    then have j: "j < levelmax s" by (simp add: s2(5))
    then obtain pre post where p: "Ls j = pre @ post" "tight s v pre post" "P ! j = last (sl_head s # pre)" "R ! j = hd (post @ [te])"
      using fd by (auto simp: found_def)
    have "pre \<noteq> [] \<Longrightarrow> last pre \<noteq> a" "post \<noteq> [] \<Longrightarrow> hd post \<noteq> a" using nl [OF _ j] p(1) by auto
    then have "tight s2 v pre post" using p(2) s2(9) by (simp add: tight_def)
    then show "found s2 te Ls v j (P ! j) (R ! j)" using p s2(4) by (auto simp: found_def)
  qed
  have len2: "length P = levelmax s2" "length R = levelmax s2" using len s2(5) by simp_all
  have vk: "v \<notin> keys s2 Ls" using v(2) s2(3) by simp
  obtain s' Ls' where s': "link_levels l a P R s2 = Some s'" "stm_link l a P s2 = Some s'" "sl_frame s2 s'"
    "sl_inv s' te Ls'" "alive s' Ls'" "keys s' Ls' = insert v (keys s Ls)" "set (Ls' 0) = insert a (set (Ls 0))"
    "length (Ls' 0) = Suc (length (Ls 0))"
    using link_fresh [OF s2(2) al2 v(1) vk s2(7) fd2 len2] s2(3,8) by auto
  have "sl_head s' = sl_head s \<and> levelmax s' = levelmax s \<and> sl_al s' = al'" using s'(3) s2(4-6) by (simp add: sl_frame_def)
  then show ?thesis using s2(1) s' by blast
qed

text \<open>A value that is there: its node leaves all lists.\<close>

lemma remove_core:
  assumes inv: "sl_inv s te Ls" and al: "alive s Ls" and v: "v < VAL_MAX" "v \<in> keys s Ls"
    and fd: "\<forall>j < levelmax s. found s te Ls v j (P ! j) (R ! j)" and len: "length P = levelmax s" "length R = levelmax s"
    and sn: "\<forall>j < levelmax s. snode s (P ! j) \<and> snode s (R ! j)"
  shows "\<exists>s' Ls'. unlink_levels (levelmax s) v P R s = Some s' \<and> sl_inv s' te Ls' \<and> alive s' Ls' \<and>
    keys s' Ls' = keys s Ls - {v} \<and> set (Ls' 0) = set (Ls 0) - {R ! 0} \<and> R ! 0 \<in> set (Ls 0) \<and>
    sl_head s' = sl_head s \<and> levelmax s' = levelmax s \<and> sl_al s' = sl_al s \<and> length (Ls' 0) \<le> length (Ls 0)"
proof -
  let ?r = "R ! 0"
  have e: "ends_inv s te" by (rule inv_ends [OF inv])
  then have lm: "0 < levelmax s" "levelmax s \<le> 19" by (simp_all add: ends_inv_def)
  have fd0: "found s te Ls v 0 (P ! 0) ?r" using fd lm by blast
  have vr: "vl s ?r = v" using found_key [OF inv fd0 v(1)] v(2) by simp
  have r: "?r \<in> set (Ls 0)" using found_live [OF inv fd0 vr v(1)] by simp
  obtain s' where s': "unlink_levels (levelmax s) v P R s = Some s'" "sl_frame s s'"
    "\<forall>q j. nx s' q j = (if j < levelmax s \<and> q = P ! j \<and> vl s (R ! j) = v then nx s (R ! j) j else nx s q j)"
    using unlink_levels_spec [OF lm(2), of P R s v] len sn by auto
  obtain s2 Ls2 where s2: "sl_frame s s2" "sl_inv s2 te Ls2"
    "\<forall>q j. nx s2 q j = (if j < levelmax s \<and> q = P ! j \<and> vl s (R ! j) = v then nx s (R ! j) j else nx s q j)"
    "\<forall>j < levelmax s. set (Ls2 j) = set (Ls j) - {?r}"
    using unlink_all [OF inv al r vr fd, of "levelmax s"] by auto
  have inv': "sl_inv s' te Ls2" using inv_cong [OF s2(2) frame_join [OF s2(1) s'(2)]] s2(3) s'(3) by simp
  have F: "vl s' = vl s" "dead s' = dead s" "sl_head s' = sl_head s" "levelmax s' = levelmax s" "sl_al s' = sl_al s"
    using s'(2) frame_dead [OF s'(2)] by (simp_all add: sl_frame_def)
  have set0: "set (Ls2 0) = set (Ls 0) - {?r}" using s2(4) lm by blast
  have "alive s' Ls2" using al set0 by (simp add: alive_def F)
  moreover have "keys s' Ls2 = keys s Ls - {v}"
    using set0 vr vl_inj [OF inv _ r] by (auto simp: keys_def F)
  moreover have "length (Ls2 0) \<le> length (Ls 0)"
  proof -
    have d: "distinct (Ls 0)" "distinct (Ls2 0)"
      using inv_lvl [OF inv lm(1)] inv_lvl [OF inv', of 0] lm(1) vl_distinct F(4) by (auto simp: lvl_def)
    have "card (set (Ls2 0)) \<le> card (set (Ls 0))" unfolding set0 by (rule card_mono) auto
    then show ?thesis using d by (simp add: distinct_card)
  qed
  ultimately show ?thesis using s'(1) inv' set0 r F(3-5) by blast
qed

context node_alloc
begin

lemma seq_add_rep:
  assumes rep: "seq_rep ns ok f s K (Suc m)" and v: "v < VAL_MAX"
  shows "\<exists>s'. sl_seq_add f v s = Some (v \<notin> K, s') \<and> seq_rep ns ok f s' (insert v K) m"
proof -
  obtain te Ls L where r: "sl_inv s te Ls" "alive s Ls" "keys s Ls = K" "{sl_head s, te} \<union> set (Ls 0) \<subseteq> L"
    "ok (sl_al s) L (Suc m)" "node_bytes (levelmax s) = ns" "length (Ls 0) + Suc m + 2 < f"
    using rep by (auto simp: seq_rep_def)
  have f: "length (Ls 0) < f" using r(7) by simp
  obtain P R where s: "sl_top s (sl_head s) = Some (levelmax s)"
    "seq_levels f (levelmax s) v (sl_head s) 0 [] [] s = Some (P ! 0, R ! 0, P, R)"
    "length P = levelmax s" "length R = levelmax s" "\<forall>j < levelmax s. found s te Ls v j (P ! j) (R ! j)"
    "sl_rd s (P ! 0) 0 = Some (R ! 0)" "sl_val s (R ! 0) = Some (vl s (R ! 0))" "vl s (R ! 0) = v \<longleftrightarrow> v \<in> keys s Ls"
    by (rule seq_search [OF r(1,2) v f])
  show ?thesis
  proof (cases "v \<in> K")
    case True
    then have "sl_seq_add f v s = Some (False, s)" using s r(3) by (simp add: sl_seq_add_def)
    moreover have "seq_rep ns ok f s K m"
      unfolding seq_rep_def using r less [OF r(5), of m] by (intro exI [of _ te] exI [of _ Ls] exI [of _ L]) simp
    ultimately show ?thesis using True by (simp add: insert_absorb)
  next
    case False
    obtain l s1 where l: "get_rand_level s = (l, s1)" by (cases "get_rand_level s")
    obtain a al1 where al1: "ssalloc_alloc 1 ns (sl_al s) = (a, al1)" by (cases "ssalloc_alloc 1 ns (sl_al s)")
    note na = node [OF r(5) al1]
    have vk: "v \<notin> keys s Ls" using False r(3) by simp
    obtain s2 s' Ls' where c: "sl_new_simple_node v l 0 s1 = Some (a, s2)" "link_levels l a P R s2 = Some s'"
      "sl_inv s' te Ls'" "alive s' Ls'" "keys s' Ls' = insert v (keys s Ls)" "set (Ls' 0) = insert a (set (Ls 0))"
      "length (Ls' 0) = Suc (length (Ls 0))" "sl_head s' = sl_head s" "levelmax s' = levelmax s" "sl_al s' = al1"
      using add_core [OF r(1,2) v vk s(5,3,4) l, of 0 a al1] al1 r(4,6) na by auto
    have "sl_seq_add f v s = Some (True, s')" using s l c(1,2) False r(3) by (simp add: sl_seq_add_def)
    moreover have "seq_rep ns ok f s' (insert v K) m"
      unfolding seq_rep_def
      using c r(3,4,6,7) na by (intro exI [of _ te] exI [of _ Ls'] exI [of _ "insert a L"]) auto
    ultimately show ?thesis using False by simp
  qed
qed

lemma seq_remove_rep:
  assumes rep: "seq_rep ns ok f s K (Suc m)" and v: "v < VAL_MAX"
  shows "\<exists>s'. seq_remove f v s = Some (v \<in> K, s') \<and> seq_rep ns ok f s' (K - {v}) m"
proof -
  obtain te Ls L where r: "sl_inv s te Ls" "alive s Ls" "keys s Ls = K" "{sl_head s, te} \<union> set (Ls 0) \<subseteq> L"
    "ok (sl_al s) L (Suc m)" "node_bytes (levelmax s) = ns" "length (Ls 0) + Suc m + 2 < f"
    using rep by (auto simp: seq_rep_def)
  have f: "length (Ls 0) < f" using r(7) by simp
  obtain P R where s: "sl_top s (sl_head s) = Some (levelmax s)"
    "seq_levels f (levelmax s) v (sl_head s) 0 [] [] s = Some (P ! 0, R ! 0, P, R)"
    "length P = levelmax s" "length R = levelmax s" "\<forall>j < levelmax s. found s te Ls v j (P ! j) (R ! j)"
    "sl_rd s (P ! 0) 0 = Some (R ! 0)" "sl_val s (R ! 0) = Some (vl s (R ! 0))" "vl s (R ! 0) = v \<longleftrightarrow> v \<in> keys s Ls"
    "\<forall>j < levelmax s. snode s (P ! j) \<and> snode s (R ! j)"
    by (rule seq_search [OF r(1,2) v f])
  show ?thesis
  proof (cases "v \<in> K")
    case False
    then have "seq_remove f v s = Some (False, s)" using s r(3) by (simp add: seq_remove_def)
    moreover have "seq_rep ns ok f s K m"
      unfolding seq_rep_def using r less [OF r(5), of m] by (intro exI [of _ te] exI [of _ Ls] exI [of _ L]) simp
    ultimately show ?thesis using False by simp
  next
    case True
    have vk: "v \<in> keys s Ls" using True r(3) by simp
    obtain s' Ls' where c: "unlink_levels (levelmax s) v P R s = Some s'" "sl_inv s' te Ls'" "alive s' Ls'"
      "keys s' Ls' = keys s Ls - {v}" "set (Ls' 0) = set (Ls 0) - {R ! 0}" "R ! 0 \<in> set (Ls 0)"
      "sl_head s' = sl_head s" "levelmax s' = levelmax s" "sl_al s' = sl_al s" "length (Ls' 0) \<le> length (Ls 0)"
      using remove_core [OF r(1,2) v vk s(5,3,4,9)] by blast
    let ?s2 = "sl_delete_node (R ! 0) s'"
    have "seq_remove f v s = Some (True, ?s2)" using s c(1) True r(3) by (simp add: seq_remove_def)
    moreover have "seq_rep ns ok f ?s2 (K - {v}) m"
      unfolding seq_rep_def
    proof (intro exI conjI)
      have rl: "R ! 0 \<in> L" using c(6) r(4) by blast
      show "ok (sl_al ?s2) (L - {R ! 0}) m" using free_node [OF r(5) rl] by (simp add: sl_delete_node_def c(9))
      have "R ! 0 \<noteq> sl_head s" "R ! 0 \<noteq> te" using c(6) r(1) by (auto simp: sl_inv_def node_inv_def)
      then show "{sl_head ?s2, te} \<union> set (Ls' 0) \<subseteq> L - {R ! 0}" using r(4) c(5) by (auto simp: sl_delete_node_def c(7))
      show "alive ?s2 Ls'" using c(3) by (simp add: alive_def sl_delete_node_def dead_def)
    qed (use c r(3,6,7) in \<open>simp_all add: sl_delete_node_def\<close>)
    ultimately show ?thesis using True by simp
  qed
qed

end

end
