(* ===== verification/SL_Delmin.thy ===== *)
theory SL_Delmin
  imports SL_Seq3
begin

text \<open>The delete operations of the priority queue against the key set.\<close>

section \<open>Walking along a level\<close>

lemma level_next:
  assumes inv: "sl_inv s te Ls" and i: "i < levelmax s" and L: "sl_head s # Ls i = A @ c # B"
  shows "unset_mark (nx s c i) = hd (B @ [te]) \<and> snode s c \<and> valid_addr c \<and> nx s c i \<noteq> 0"
proof -
  have e: "ends_inv s te" by (rule inv_ends [OF inv])
  have nd: "node_inv s te p" if "p \<in> set (Ls i)" for p using inv_node [OF inv that i] by simp
  have "successively (\<lambda>p q. unset_mark (nx s p i) = q) ((sl_head s # Ls i) @ [te])"
    using inv_lvl [OF inv i] by (simp add: lvl_def)
  then have "successively (\<lambda>p q. unset_mark (nx s p i) = q) (A @ c # B @ [te])" by (simp add: L)
  then have "successively (\<lambda>p q. unset_mark (nx s p i) = q) (c # B @ [te])" unfolding successively_append_iff by blast
  then have u: "unset_mark (nx s c i) = hd (B @ [te])" by (cases B) (simp_all add: successively_Cons)
  have "set (A @ c # B) = insert (sl_head s) (set (Ls i))" by (simp add: L [symmetric])
  then have c: "c = sl_head s \<or> c \<in> set (Ls i)" and B: "set B \<subseteq> insert (sl_head s) (set (Ls i))" by auto
  have "valid_addr (hd (B @ [te]))" using B e nd by (cases B) (auto simp: ends_inv_def node_inv_def)
  then have "nx s c i \<noteq> 0" using u by (auto simp: unset_mark_def valid_addr_def)
  then show ?thesis using u c e nd by (auto simp: ends_inv_def node_inv_def)
qed

text \<open>The first live node from a position on, or the tail.\<close>

lemma naive_walk_spec:
  assumes inv: "sl_inv s te Ls" and L: "sl_head s # Ls 0 = A @ c # B" and f: "length B < f"
  shows "\<exists>D C. B = D @ C \<and> (\<forall>p \<in> set D. dead s p) \<and> (C \<noteq> [] \<longrightarrow> \<not> dead s (hd C)) \<and>
    naive_walk f c s = Some (hd (C @ [te]))"
  using L f
proof (induction f arbitrary: A c B)
  case 0
  then show ?case by simp
next
  case (Suc f)
  have e: "ends_inv s te" by (rule inv_ends [OF inv])
  then have lm: "0 < levelmax s" by (simp add: ends_inv_def)
  note nc = level_next [OF inv lm Suc.prems(1)]
  have rc: "sl_rd s c 0 = Some (nx s c 0)" using nc by (simp add: sl_access)
  show ?case
  proof (cases B)
    case Nil
    have te: "snode s te" "valid_addr te" "nx s te 0 = 0" using e lm by (auto simp: ends_inv_def)
    then have "naive_walk (Suc f) c s = Some te" using rc nc Nil by (simp add: sl_access)
    then show ?thesis using Nil by (intro exI [of _ "[]"]) simp
  next
    case (Cons b B')
    have L': "sl_head s # Ls 0 = (A @ [c]) @ b # B'" using Suc.prems(1) Cons by simp
    note nb = level_next [OF inv lm L']
    have rb: "sl_rd s b 0 = Some (nx s b 0)" "sl_del s b = Some (sn_del (the (sl_heap s b)))" using nb by (simp_all add: sl_access)
    show ?thesis
    proof (cases "dead s b")
      case True
      obtain D C where ih: "B' = D @ C" "\<forall>p \<in> set D. dead s p" "C \<noteq> [] \<longrightarrow> \<not> dead s (hd C)"
        "naive_walk f b s = Some (hd (C @ [te]))"
        using Suc.IH [OF L'] Suc.prems(2) Cons by auto
      have "naive_walk (Suc f) c s = naive_walk f b s" using rc nc rb nb Cons True by (simp add: dead_def)
      then show ?thesis using ih Cons True by (intro exI [of _ "b # D"] exI [of _ C]) simp
    next
      case False
      then have "naive_walk (Suc f) c s = Some b" using rc nc rb nb Cons by (simp add: dead_def)
      then show ?thesis using Cons False by (intro exI [of _ "[]"] exI [of _ B]) simp
    qed
  qed
qed

text \<open>The same for the last walk of the spray, which may start at a live node.\<close>

lemma skip_deleted_spec:
  assumes inv: "sl_inv s te Ls" and L: "Ls 0 = A @ B" and f: "length B < f"
  shows "\<exists>D C. B = D @ C \<and> (\<forall>p \<in> set D. dead s p) \<and> (C \<noteq> [] \<longrightarrow> \<not> dead s (hd C)) \<and>
    skip_deleted f (hd (B @ [te])) s = Some (hd (C @ [te]))"
  using L f
proof (induction f arbitrary: A B)
  case 0
  then show ?case by simp
next
  case (Suc f)
  have e: "ends_inv s te" by (rule inv_ends [OF inv])
  then have lm: "0 < levelmax s" by (simp add: ends_inv_def)
  show ?case
  proof (cases B)
    case Nil
    have te: "snode s te" "valid_addr te" "nx s te 0 = 0" using e lm by (auto simp: ends_inv_def)
    then have "skip_deleted (Suc f) te s = Some te" by (simp add: sl_access)
    then show ?thesis using Nil by (intro exI [of _ "[]"]) simp
  next
    case (Cons b B')
    have L': "sl_head s # Ls 0 = (sl_head s # A) @ b # B'" using Suc.prems(1) Cons by simp
    note nb = level_next [OF inv lm L']
    have rb: "sl_rd s b 0 = Some (nx s b 0)" "sl_del s b = Some (sn_del (the (sl_heap s b)))" using nb by (simp_all add: sl_access)
    show ?thesis
    proof (cases "dead s b")
      case True
      have L2: "Ls 0 = (A @ [b]) @ B'" "length B' < f" using Suc.prems Cons by simp_all
      obtain D C where ih: "B' = D @ C" "\<forall>p \<in> set D. dead s p" "C \<noteq> [] \<longrightarrow> \<not> dead s (hd C)"
        "skip_deleted f (hd (B' @ [te])) s = Some (hd (C @ [te]))"
        using Suc.IH [OF L2] by blast
      have "skip_deleted (Suc f) (hd (B @ [te])) s = skip_deleted f (hd (B' @ [te])) s"
        using rb nb Cons True by (simp add: dead_def)
      then show ?thesis using ih Cons True by (intro exI [of _ "b # D"] exI [of _ C]) simp
    next
      case False
      then have "skip_deleted (Suc f) (hd (B @ [te])) s = Some b" using rb nb Cons by (simp add: dead_def)
      then show ?thesis using Cons False by (intro exI [of _ "[]"] exI [of _ B]) simp
    qed
  qed
qed

lemma step_right_spec:
  assumes inv: "sl_inv s te Ls" and i: "i < levelmax s" and L: "sl_head s # Ls i = A @ c # B" and f: "length B + 1 < f"
  shows "\<exists>c'. step_right f i c n s = Some c' \<and> (c' = te \<or> c' = sl_head s \<or> c' \<in> set (Ls i))"
  using L f
proof (induction f arbitrary: A c B n)
  case 0
  then show ?case by simp
next
  case (Suc f)
  have e: "ends_inv s te" by (rule inv_ends [OF inv])
  have i19: "i < 19" using e i by (simp add: ends_inv_def)
  note nc = level_next [OF inv i Suc.prems(1)]
  have "c \<in> set (A @ c # B)" by simp
  then have "c \<in> set (sl_head s # Ls i)" unfolding Suc.prems(1) .
  then have cin: "c = sl_head s \<or> c \<in> set (Ls i)" by simp
  show ?case
  proof (cases "n = 0")
    case True
    then show ?thesis using cin by simp
  next
    case n: False
    show ?thesis
    proof (cases B)
      case Nil
      have te: "snode s te" "valid_addr te" "nx s te i = 0" using e i by (auto simp: ends_inv_def)
      obtain f' where f': "f = Suc f'" using Suc.prems(2) by (cases f) auto
      have "step_right f i te k s = Some te" for k using te i19 f' by (simp add: sl_access)
      then have "step_right (Suc f) i c n s = Some te" using nc n Nil te i19 by (simp add: sl_access)
      then show ?thesis by simp
    next
      case (Cons b B')
      have L': "sl_head s # Ls i = (A @ [c]) @ b # B'" using Suc.prems(1) Cons by simp
      note nb = level_next [OF inv i L']
      have "\<exists>c'. step_right f i b (if sn_del (the (sl_heap s b)) = 0 then n - 1 else n) s = Some c' \<and>
          (c' = te \<or> c' = sl_head s \<or> c' \<in> set (Ls i))"
        using Suc.IH [OF L'] Suc.prems(2) Cons by simp
      then show ?thesis using nc nb n Cons i19 by (simp add: sl_access)
    qed
  qed
qed

lemma spray_descend_spec:
  assumes inv: "sl_inv s te Ls" and i: "i < levelmax s" and c: "c = sl_head s \<or> c \<in> set (Ls i)"
    and f: "length (Ls 0) + 1 + i < f"
  shows "\<exists>seed' r. spray_descend f n scanmax i dummy c seed s = Some (seed', r) \<and>
    (\<forall>c'. r = Some c' \<longrightarrow> c' = sl_head s \<or> c' \<in> set (Ls 0))"
  using i c f
proof (induction f arbitrary: i c scanmax dummy seed)
  case 0
  then show ?case by simp
next
  case (Suc f)
  have e: "ends_inv s te" by (rule inv_ends [OF inv])
  obtain A B where L: "sl_head s # Ls i = A @ c # B" using Suc.prems(2) by (metis list.set_intros split_list)
  have "length B \<le> length (Ls i)"
  proof -
    have "length (sl_head s # Ls i) = length A + Suc (length B)" unfolding L by simp
    then show ?thesis by simp
  qed
  then have lb: "length B + 1 < Suc f" using inv_length [OF inv Suc.prems(1)] Suc.prems(3) by simp
  define sd where "sd = marsaglia seed"
  obtain dm k where d: "dummy_steps i (n * word_of_int (floor_log_2 n) div 2) dummy (unat (sd mod word_of_int (scanmax + 1))) = (dm, k)"
    by (cases "dummy_steps i (n * word_of_int (floor_log_2 n) div 2) dummy (unat (sd mod word_of_int (scanmax + 1)))")
  obtain c' where c': "step_right (Suc f) i c k s = Some c'" "c' = te \<or> c' = sl_head s \<or> c' \<in> set (Ls i)"
    using step_right_spec [OF inv Suc.prems(1) L lb] by blast
  have lm: "0 < levelmax s" using Suc.prems(1) by simp
  show ?case
  proof (cases "c' = te")
    case True
    have "sl_rd s te 0 = Some 0" using e lm by (auto simp: ends_inv_def sl_access)
    then show ?thesis using d c'(1) True by (simp add: sd_def del: step_right.simps)
  next
    case False
    then have ci: "c' = sl_head s \<or> c' \<in> set (Ls i)" using c'(2) by simp
    then have "c' \<in> set (sl_head s # Ls 0)" using inv_subset [OF inv le0 Suc.prems(1)] by auto
    then obtain A0 B0 where L0: "sl_head s # Ls 0 = A0 @ c' # B0" by (meson split_list)
    note n0 = level_next [OF inv lm L0]
    have r0: "sl_rd s c' 0 = Some (nx s c' 0)" using n0 by (simp add: sl_access)
    show ?thesis
    proof (cases "i = 0")
      case True
      then show ?thesis using d c'(1) r0 n0 ci by (simp add: sd_def del: step_right.simps)
    next
      case i0: False
      let ?i = "if i \<le> SCANSKIP then 0 else i - SCANSKIP"
      have il: "?i < levelmax s" "?i < i" using Suc.prems(1) i0 by (auto simp: SCANSKIP_def)
      then have "set (Ls i) \<subseteq> set (Ls ?i)" using inv_subset [OF inv _ Suc.prems(1), of ?i] by simp
      then have ci': "c' = sl_head s \<or> c' \<in> set (Ls ?i)" using ci by blast
      have fl: "length (Ls 0) + 1 + ?i < f" using Suc.prems(3) il(2) by linarith
      show ?thesis
        using Suc.IH [OF il(1) ci' fl, of "scanmax + SCANINC" dm sd] d c'(1) r0 n0 i0
        by (simp add: sd_def del: step_right.simps)
    qed
  qed
qed

section \<open>The operations\<close>

text \<open>Deleting the node that was claimed, without a search afterwards.\<close>

lemma first_live_min:
  assumes inv: "sl_inv s te Ls" and L: "Ls 0 = D @ C" and d: "\<forall>p \<in> set D. dead s p"
  shows "(C = [] \<longrightarrow> keys s Ls = {}) \<and>
    (C \<noteq> [] \<and> \<not> dead s (hd C) \<longrightarrow> vl s (hd C) \<in> keys s Ls \<and> vl s (hd C) = Min (keys s Ls))"
proof (intro conjI impI)
  show "keys s Ls = {}" if "C = []" using that d L by (auto simp: keys_def)
  assume C: "C \<noteq> [] \<and> \<not> dead s (hd C)"
  then obtain b C' where b: "C = b # C'" by (cases C) auto
  show k: "vl s (hd C) \<in> keys s Ls" using C L b by (simp add: keys_def)
  have "0 < levelmax s" using inv_ends [OF inv] by (simp add: ends_inv_def)
  then have "lvl s te 0 (Ls 0)" by (rule inv_lvl [OF inv])
  then have sw: "sorted_wrt (\<lambda>p q. vl s p < vl s q) (D @ b # C')" using L b by (simp add: lvl_def)
  have "vl s b \<le> k" if k: "k \<in> keys s Ls" for k
  proof -
    obtain p where p: "p \<in> set (Ls 0)" "\<not> dead s p" "k = vl s p" using k by (auto simp: keys_def)
    then have "p \<in> set C" using L d by auto
    then show ?thesis using sw b p(3) by (auto simp: sorted_wrt_append intro: less_imp_le)
  qed
  moreover have "finite (keys s Ls)" by (simp add: keys_def)
  ultimately show "vl s (hd C) = Min (keys s Ls)" using k b by (intro Min_eqI [symmetric]) auto
qed

text \<open>\<open>nb_collisions\<close> and the other fields of the thread do not change when one thread runs alone.\<close>

lemma naive_rep:
  assumes rep: "sl_rep ns ok f s K m" and ne: "K \<noteq> {}"
  shows "\<exists>s'. naive_delete_min f d s = Some (1, Some (Min K), d, s') \<and> sl_rep ns ok f s' (K - {Min K}) m"
proof -
  obtain te Ls L where r: "sl_inv s te Ls" "keys s Ls = K" "{sl_head s, te} \<union> set (Ls 0) \<subseteq> L"
    "ok (sl_al s) L m" "node_bytes (levelmax s) = ns" "length (Ls 0) + m + 2 < f"
    using rep by (auto simp: sl_rep_def)
  have e: "ends_inv s te" by (rule inv_ends [OF r(1)])
  have f: "length (Ls 0) < f" "0 < f" using r(6) by simp_all
  obtain f' where f': "f = Suc f'" using f(2) by (cases f) auto
  obtain D C where w: "Ls 0 = D @ C" "\<forall>p \<in> set D. dead s p" "C \<noteq> [] \<longrightarrow> \<not> dead s (hd C)"
    "naive_walk f (sl_head s) s = Some (hd (C @ [te]))"
    using naive_walk_spec [OF r(1) _ f(1), of "[]" "sl_head s"] by auto
  note mn = first_live_min [OF r(1) w(1,2)]
  have "C \<noteq> []" using mn ne r(2) by auto
  then obtain x C' where C: "C = x # C'" by (cases C) auto
  have x: "x \<in> set (Ls 0)" "\<not> dead s x" "vl s x = Min K" using C w mn r(2) by auto
  have nx_: "node_inv s te x" using r(1) x(1) by (simp add: sl_inv_def)
  have sx: "snode s x" "tp s x \<le> 19" "0 < tp s x" "vl s x \<le> VAL_MAX"
    using nx_ e by (auto simp: node_inv_def ends_inv_def)
  obtain s1 s2 where s2: "fetch_inc_del s x = Some (0, s1)" "mark_node_ptrs f x s1 = Some s2" "killed x s s2"
    using kill_node [OF sx(1) x(2) sx(2) f(2)] by blast
  note k = kill_inv [OF r(1) x(1) s2(3)]
  have claim: "naive_claim f (sl_head s) d s = Some (x, d, s1)" using f' w(4) C s2(1) by (simp del: naive_walk.simps)
  have s1e: "snode s1 x" "vl s1 x = vl s x" "nx s1 x 0 = nx s x 0"
    using s2(1) sx(1) by (auto simp: fetch_inc_del_def snode_def vl_def nx_def Option.bind_eq_Some_conv)
  have nz: "nx s x 0 \<noteq> 0" by (rule next_nonzero [OF r(1) x(1)])
  have K: "sl_head s2 = sl_head s" "levelmax s2 = levelmax s" "sl_al s2 = sl_al s" "snode s2 x" "\<And>p. snode s2 p = snode s p"
    "nx s2 x 0 = get_marked_ref (nx s x 0)"
    using s2(3) sx(1,3) by (simp_all add: killed_def)
  have lm: "0 < levelmax s" using e by (simp add: ends_inv_def)
  obtain A B where L: "sl_head s # Ls 0 = A @ x # B" using x(1) by (metis list.set_intros(2) split_list)
  have u: "unset_mark (nx s x 0) = hd (B @ [te])" using level_next [OF r(1) lm L] by simp
  have "set (A @ x # B) = insert (sl_head s) (set (Ls 0))" by (simp add: L [symmetric])
  then have "set B \<subseteq> insert (sl_head s) (set (Ls 0))" by auto
  then have "snode s (hd (B @ [te]))"
    using e r(1) by (cases B) (auto simp: ends_inv_def sl_inv_def node_inv_def)
  then have sn: "snode s2 (get_unmarked_ref (nx s2 x 0))" using u K(5,6) unmark_of_mark by (simp add: sl_marks)
  have "\<exists>dl. sl_del s2 (nx s2 x 0) = Some dl"
  proof -
    obtain n where n: "sl_heap s2 (get_unmarked_ref (nx s2 x 0)) = Some n" "length (sn_next n) = 19"
      using sn by (auto simp: snode_def)
    then obtain y ys where "sn_next n = y # ys" by (cases "sn_next n") auto
    then show ?thesis using n by (simp add: sl_del_def)
  qed
  then obtain dl where dl: "sl_del s2 (nx s2 x 0) = Some dl" by blast
  obtain s3 Ls3 P R where s3: "fraser_search f (vl s x) s2 = Some (s3, P, R)" "sl_inv s3 te Ls3" "sl_frame s2 s3"
    "shrunk s2 Ls Ls3" "keys s3 Ls3 = keys s2 Ls"
    using search_al [OF k(1) sx(4) f(1)] by blast
  let ?s' = "if dl = 0 then s3 else s2"
  have "naive_delete_min f d s = Some (1, Some (Min K), d, ?s')"
    using claim s1e nz s2(2) K(4) dl s3(1) x(3) by (simp add: naive_delete_min_def sl_access)
  moreover have "sl_rep ns ok f ?s' (K - {Min K}) m"
  proof (cases "dl = 0")
    case True
    have F: "sl_head s3 = sl_head s" "levelmax s3 = levelmax s" "sl_al s3 = sl_al s"
      using s3(3) K(1-3) by (simp_all add: sl_frame_def)
    have "length (Ls3 0) \<le> length (Ls 0)" using s3(4) by (simp add: shrunk_def)
    then have "length (Ls3 0) + m + 2 < f" using r(6) by simp
    moreover have "{sl_head s3, te} \<union> set (Ls3 0) \<subseteq> L" using r(3) s3(4) by (auto simp: F shrunk_def)
    moreover have "keys s3 Ls3 = K - {Min K}" using s3(5) k(2) r(2) x(3) by simp
    ultimately show ?thesis using True s3(2) r(4,5) F unfolding sl_rep_def by auto
  next
    case False
    have "keys s2 Ls = K - {Min K}" using k(2) r(2) x(3) by simp
    then show ?thesis using False k(1) r(3-6) K(1-3) unfolding sl_rep_def by auto
  qed
  ultimately show ?thesis by blast
qed

text \<open>
  On an empty set the tail is claimed: 1 is returned and the value is not written. The set still
  represents the empty set, but a second call runs off the end.
\<close>

lemma naive_empty_first:
  assumes r: "sl_inv s te Ls" "keys s Ls = {}" and f: "length (Ls 0) < f" and tail: "\<not> dead s te"
  shows "\<exists>s'. naive_delete_min f d s = Some (1, None, d, s') \<and> sl_inv s' te Ls \<and> keys s' Ls = {} \<and> dead s' te
    \<and> dom (sl_heap s') = dom (sl_heap s)"
proof -
  have e: "ends_inv s te" by (rule inv_ends [OF r(1)])
  obtain f' where f': "f = Suc f'" using f by (cases f) auto
  obtain D C where w: "Ls 0 = D @ C" "\<forall>p \<in> set D. dead s p" "C \<noteq> [] \<longrightarrow> \<not> dead s (hd C)"
    "naive_walk f (sl_head s) s = Some (hd (C @ [te]))"
    using naive_walk_spec [OF r(1) _ f, of "[]" "sl_head s"] by auto
  have "C = []"
  proof (rule ccontr)
    assume "C \<noteq> []"
    then have "vl s (hd C) \<in> keys s Ls" using first_live_min [OF r(1) w(1,2)] w(3) by blast
    then show False using r(2) by simp
  qed
  then have wt: "naive_walk f (sl_head s) s = Some te" using w(4) by simp
  have st: "snode s te" using e by (simp add: ends_inv_def)
  then obtain n where n: "sl_heap s te = Some n" "length (sn_next n) = 19" by (auto simp: snode_def)
  let ?s1 = "s\<lparr>sl_heap := (sl_heap s)(te \<mapsto> n\<lparr>sn_del := sn_del n + 1\<rparr>)\<rparr>"
  have nd: "sn_del n = 0" using tail n by (simp add: dead_def)
  have a: "snode ?s1 p = snode s p" "vl ?s1 = vl s" "tp ?s1 = tp s" "nx ?s1 = nx s" "dead ?s1 = (\<lambda>p. p = te \<or> dead s p)" for p
    using n nd by (auto simp: snode_def vl_def tp_def nx_def dead_def fun_eq_iff)
  have tn: "te \<notin> set (Ls 0)" using r(1) by (auto simp: sl_inv_def node_inv_def)
  have lm: "0 < levelmax s" using e by (simp add: ends_inv_def)
  have cl: "naive_claim f (sl_head s) d s = Some (te, d, ?s1)" using f' wt n nd by (simp add: fetch_inc_del_def del: naive_walk.simps)
  have "nx s te 0 = 0" using e lm by (simp add: ends_inv_def)
  then have "naive_delete_min f d s = Some (1, None, d, ?s1)"
    using cl st a(1) by (simp add: naive_delete_min_def sl_access a(4))
  moreover have "ends_inv ?s1 te" using e n unfolding ends_inv_def a by auto
  then have "sl_inv ?s1 te Ls"
    using r(1) tn unfolding sl_inv_def by (auto simp: node_inv_def lvl_def a)
  moreover have "keys ?s1 Ls = {}" using r(2) by (auto simp: keys_def a)
  moreover have "dead ?s1 te" by (simp add: a)
  moreover have "dom (sl_heap ?s1) = dom (sl_heap s)" using n by auto
  ultimately show ?thesis by blast
qed

lemma naive_walk_mono: "naive_walk g c s = Some r \<Longrightarrow> naive_walk (g + k) c s = Some r"
  by (induction g arbitrary: c) (auto simp: Option.bind_eq_Some_conv split: if_splits)

lemma naive_empty_again:
  assumes inv: "sl_inv s te Ls" and k: "keys s Ls = {}" and d: "dead s te" and z: "sl_heap s 0 = None"
  shows "naive_delete_min f d' s = None"
proof -
  have e: "ends_inv s te" by (rule inv_ends [OF inv])
  have lm: "0 < levelmax s" using e by (simp add: ends_inv_def)
  have te: "snode s te" "valid_addr te" "nx s te 0 = 0" using e lm by (auto simp: ends_inv_def)
  then obtain n where n: "sl_heap s te = Some n" "length (sn_next n) = 19" by (auto simp: snode_def)
  let ?s1 = "s\<lparr>sl_heap := (sl_heap s)(te \<mapsto> n\<lparr>sn_del := sn_del n + 1\<rparr>)\<rparr>"
  have walk: "w = te" if w: "naive_walk g (sl_head s) s = Some w" for g w
  proof -
    have L0: "sl_head s # Ls 0 = [] @ sl_head s # Ls 0" by simp
    have big: "length (Ls 0) < g + Suc (length (Ls 0))" by simp
    obtain D C where c: "Ls 0 = D @ C" "\<forall>p \<in> set D. dead s p" "C \<noteq> [] \<longrightarrow> \<not> dead s (hd C)"
      "naive_walk (g + Suc (length (Ls 0))) (sl_head s) s = Some (hd (C @ [te]))"
      using naive_walk_spec [OF inv L0 big] by blast
    have "C = []"
    proof (rule ccontr)
      assume "C \<noteq> []"
      then have "vl s (hd C) \<in> keys s Ls" using first_live_min [OF inv c(1,2)] c(3) by blast
      then show False using k by simp
    qed
    then show ?thesis using c(4) naive_walk_mono [OF w, of "Suc (length (Ls 0))"] by (simp del: naive_walk.simps)
  qed
  have "te \<noteq> 0" using te(2) by auto
  then have "sl_rd ?s1 te 0 = Some 0" "sl_rd ?s1 0 0 = None"
    using n te(3) z by (simp_all add: sl_rd_def nx_def)
  then have stuck: "naive_walk g te ?s1 = None" for g
    by (cases g) (simp_all add: unset_mark_def)
  have "naive_claim f (sl_head s) d' s = None"
  proof (cases f)
    case (Suc f')
    show ?thesis
    proof (cases "naive_walk f (sl_head s) s")
      case None
      then show ?thesis using Suc by (simp del: naive_walk.simps)
    next
      case (Some w)
      then have "w = te" by (rule walk)
      moreover have "fetch_inc_del s te = Some (sn_del n, ?s1)" using n by (simp add: fetch_inc_del_def)
      moreover have "sn_del n \<noteq> 0" using d n by (simp add: dead_def)
      moreover have "naive_claim f' te c ?s1 = None" for c
        using stuck by (cases f') (simp_all del: naive_walk.simps)
      ultimately show ?thesis using Some Suc by (simp del: naive_walk.simps)
    qed
  qed simp
  then show ?thesis by (simp add: naive_delete_min_def)
qed

text \<open>The spray: a key of the set is deleted and returned, or 0 is returned and nothing changes.\<close>

lemma spray_core:
  assumes inv: "sl_inv s te Ls" and len: "length (Ls 0) + 20 < f"
    and n: "nb_threads d \<noteq> 1" "marsaglia (seed2 d) mod nb_threads d \<noteq> 0"
    and h: "0 \<le> SCANHEIGHT (nb_threads d)" "nat (SCANHEIGHT (nb_threads d)) < levelmax s"
  shows "\<exists>d'. spray_delete_min f d s = Some (0, None, d', s) \<or>
    (\<exists>y s'. spray_delete_min f d s = Some (1, Some (vl s y), d', s') \<and> y \<in> set (Ls 0) \<and> \<not> dead s y \<and> killed y s s')"
proof -
  have e: "ends_inv s te" by (rule inv_ends [OF inv])
  have f: "length (Ls 0) < f" "0 < f" using len by simp_all
  have lm: "0 < levelmax s" "levelmax s \<le> 19" using e by (simp_all add: ends_inv_def)
  let ?h = "nat (SCANHEIGHT (nb_threads d))" and ?d1 = "d\<lparr>seed2 := marsaglia (seed2 d)\<rparr>"
  have fl: "length (Ls 0) + 1 + ?h < f" using len h(2) lm(2) by linarith
  obtain seed' c where sp: "spray_descend f (nb_threads d) (SCANMAX (nb_threads d)) ?h 0 (sl_head s) (marsaglia (seed2 d)) s =
      Some (seed', c)" "\<forall>c'. c = Some c' \<longrightarrow> c' = sl_head s \<or> c' \<in> set (Ls 0)"
    using spray_descend_spec [OF inv h(2) _ fl, of "sl_head s"] by blast
  let ?d2 = "?d1\<lparr>seed2 := seed'\<rparr>"
  have none: "spray_delete_min f d s = Some (0, None, ?d2, s)" if "c = None \<or> c = Some (sl_head s)"
    using that sp(1) n by (auto simp: spray_delete_min_def)
  show ?thesis
  proof (cases "c = None \<or> c = Some (sl_head s)")
    case True
    then show ?thesis using none by blast
  next
    case False
    then obtain x where x: "c = Some x" "x \<noteq> sl_head s" "x \<in> set (Ls 0)" using sp(2) by auto
    obtain A B where AB: "Ls 0 = A @ x # B" using x(3) by (meson split_list)
    have lb: "length (x # B) < f" using f(1) AB by simp
    obtain D C where w: "x # B = D @ C" "\<forall>p \<in> set D. dead s p" "C \<noteq> [] \<longrightarrow> \<not> dead s (hd C)"
      "skip_deleted f (hd ((x # B) @ [te])) s = Some (hd (C @ [te]))"
      using skip_deleted_spec [OF inv AB lb] by blast
    have "hd ((x # B) @ [te]) = x" by simp
    then have sk: "skip_deleted f x s = Some (hd (C @ [te]))" using w(4) by (simp only:)
    show ?thesis
    proof (cases C)
      case Nil
      have "sl_rd s te 0 = Some 0" using e lm by (auto simp: ends_inv_def sl_access)
      then have "spray_delete_min f d s = Some (0, None, ?d2, s)"
        using sp(1) n x sk Nil by (simp add: spray_delete_min_def)
      then show ?thesis by blast
    next
      case (Cons y C')
      have "y \<in> set (x # B)" using w(1) Cons by simp
      then have y: "y \<in> set (Ls 0)" "\<not> dead s y" using AB w(3) Cons by auto
      have ny: "node_inv s te y" using inv y(1) by (simp add: sl_inv_def)
      have sy: "snode s y" "valid_addr y" "tp s y \<le> 19" using ny lm by (auto simp: node_inv_def)
      obtain s1 s2 where s2: "fetch_inc_del s y = Some (0, s1)" "mark_node_ptrs f y s1 = Some s2" "killed y s s2"
        using kill_node [OF sy(1) y(2) sy(3) f(2)] by blast
      have s1e: "snode s1 y" "vl s1 y = vl s y"
        using s2(1) sy(1) by (auto simp: fetch_inc_del_def snode_def vl_def Option.bind_eq_Some_conv)
      have nz: "nx s y 0 \<noteq> 0" by (rule next_nonzero [OF inv y(1)])
      have dl: "sn_del (the (sl_heap s y)) = 0" using y(2) by (simp add: dead_def)
      have "spray_delete_min f d s = Some (1, Some (vl s y), ?d2, s2)"
        using sp(1) n x sk Cons sy nz dl s1e s2(1,2) by (simp add: spray_delete_min_def sl_access)
      then show ?thesis using y s2(3) by blast
    qed
  qed
qed

lemma spray_rep:
  assumes rep: "sl_rep ns ok f s K m" and m: "18 \<le> m"
    and n: "nb_threads d \<noteq> 1" "marsaglia (seed2 d) mod nb_threads d \<noteq> 0"
    and h: "0 \<le> SCANHEIGHT (nb_threads d)" "nat (SCANHEIGHT (nb_threads d)) < levelmax s"
  shows "\<exists>d'. spray_delete_min f d s = Some (0, None, d', s) \<or>
    (\<exists>v s'. spray_delete_min f d s = Some (1, Some v, d', s') \<and> v \<in> K \<and> sl_rep ns ok f s' (K - {v}) m)"
proof -
  obtain te Ls L where r: "sl_inv s te Ls" "keys s Ls = K" "{sl_head s, te} \<union> set (Ls 0) \<subseteq> L"
    "ok (sl_al s) L m" "node_bytes (levelmax s) = ns" "length (Ls 0) + m + 2 < f"
    using rep by (auto simp: sl_rep_def)
  have len: "length (Ls 0) + 20 < f" using r(6) m by simp
  have "sl_rep ns ok f s' (K - {vl s y}) m" if y: "y \<in> set (Ls 0)" "killed y s s'" for y s'
  proof -
    note k = kill_inv [OF r(1) y]
    have "sl_head s' = sl_head s" "levelmax s' = levelmax s" "sl_al s' = sl_al s"
      using y(2) by (simp_all add: killed_def)
    then show ?thesis using k r(2-6) unfolding sl_rep_def by auto
  qed
  moreover have "vl s y \<in> K" if "y \<in> set (Ls 0)" "\<not> dead s y" for y using that r(2) by (auto simp: keys_def)
  ultimately show ?thesis using spray_core [OF r(1) len n h] by blast
qed

section \<open>Size and destruction\<close>

lemma size_loop_spec:
  assumes inv: "sl_inv s te Ls" and L: "Ls 0 = A @ B" and f: "length B < f" and um: "c = hd (B @ [te])"
  shows "size_loop f c k s = Some (k + length (filter (\<lambda>p. \<not> dead s p) B))"
  using L f um
proof (induction f arbitrary: A B c k)
  case 0
  then show ?case by simp
next
  case (Suc f)
  have e: "ends_inv s te" by (rule inv_ends [OF inv])
  then have lm: "0 < levelmax s" by (simp add: ends_inv_def)
  show ?case
  proof (cases B)
    case Nil
    then show ?thesis using e lm Suc.prems(3) by (auto simp: ends_inv_def sl_access)
  next
    case (Cons b B')
    have L': "sl_head s # Ls 0 = (sl_head s # A) @ b # B'" using Suc.prems(1) Cons by simp
    note nb = level_next [OF inv lm L']
    have L2: "Ls 0 = (A @ [b]) @ B'" "length B' < f" using Suc.prems Cons by simp_all
    have u: "nx s b 0 AND NOT 1 = hd (B' @ [te])" using nb by (simp add: unset_mark_def)
    show ?thesis
      using Suc.IH [OF L2 refl, of "if dead s b then k else k + 1"] nb Suc.prems(3) Cons u
      by (auto simp: sl_access dead_def)
  qed
qed

lemma size_rep:
  assumes rep: "sl_rep ns ok f s K m"
  shows "sl_set_size f s = Some (card K)"
proof -
  obtain te Ls where r: "sl_inv s te Ls" "keys s Ls = K" "length (Ls 0) + m + 2 < f"
    using rep by (auto simp: sl_rep_def)
  have e: "ends_inv s te" by (rule inv_ends [OF r(1)])
  then have lm: "0 < levelmax s" by (simp add: ends_inv_def)
  have L: "sl_head s # Ls 0 = [] @ sl_head s # Ls 0" by simp
  note nh = level_next [OF r(1) lm L]
  have "\<not> is_marked (nx s (sl_head s) 0)" using e lm by (simp add: ends_inv_def)
  then have h: "nx s (sl_head s) 0 = hd (Ls 0 @ [te])" using nh by (simp add: sl_marks unmarked_id)
  have "Ls 0 = [] @ Ls 0" "length (Ls 0) < f" using r(3) by simp_all
  then have "size_loop f (hd (Ls 0 @ [te])) 0 s = Some (length (filter (\<lambda>p. \<not> dead s p) (Ls 0)))"
    using size_loop_spec [OF r(1), of "[]" "Ls 0" f _ 0] by simp
  moreover have "length (filter (\<lambda>p. \<not> dead s p) (Ls 0)) = card K"
  proof -
    have "distinct (Ls 0)" using inv_lvl [OF r(1) lm] vl_distinct by (auto simp: lvl_def)
    then have "length (filter (\<lambda>p. \<not> dead s p) (Ls 0)) = card {p \<in> set (Ls 0). \<not> dead s p}"
      by (metis distinct_card distinct_filter set_filter)
    also have "\<dots> = card (vl s ` {p \<in> set (Ls 0). \<not> dead s p})"
      by (rule card_image [symmetric]) (auto intro!: inj_onI vl_inj [OF r(1)])
    finally show ?thesis using r(2) by (simp add: keys_def)
  qed
  ultimately show ?thesis using nh h by (simp add: sl_set_size_def sl_access)
qed

text \<open>Every node that is linked at the bottom level is freed, in order, then the set.\<close>

lemma delete_nodes_spec:
  assumes "sl_inv s te Ls" "sl_head s # Ls 0 @ [te] = A @ B" "length B < f"
    and "\<forall>p. sl_heap t p = sl_heap s p"
  shows "delete_nodes f (if B = [] then 0 else hd B) t = Some (t\<lparr>sl_al := fold (ssfree_alloc 1) B (sl_al t)\<rparr>)"
  using assms(2-4)
proof (induction f arbitrary: A B t)
  case 0
  then show ?case by simp
next
  case (Suc f)
  have e: "ends_inv s te" by (rule inv_ends [OF assms(1)])
  then have lm: "0 < levelmax s" by (simp add: ends_inv_def)
  have rd: "sl_rd t p 0 = sl_rd s p 0" for p using Suc.prems(3) by (simp add: sl_rd_def)
  show ?case
  proof (cases B)
    case Nil
    then show ?thesis by simp
  next
    case (Cons b B')
    have B': "sl_head s # Ls 0 @ [te] = (A @ [b]) @ B'" "length B' < f" using Suc.prems(1,2) Cons by simp_all
    have hp: "\<forall>p. sl_heap (sl_delete_node b t) p = sl_heap s p" using Suc.prems(3) by (simp add: sl_delete_node_def)
    have nxt: "\<exists>w. sl_rd s b 0 = Some w \<and> w AND NOT 1 = (if B' = [] then 0 else hd B') \<and> b \<noteq> 0"
    proof (cases B')
      case Nil
      then have "b = te" using B'(1) by (metis append_Nil2 last_ConsR last_snoc snoc_eq_iff_butlast)
      then show ?thesis using Nil e lm by (auto simp: ends_inv_def sl_access)
    next
      case (Cons c C)
      obtain B2 where B2: "B' = B2 @ [te]" using B'(1) Cons
        by (metis append_butlast_last_id last.simps last_append list.distinct(1) snoc_eq_iff_butlast)
      then have L: "sl_head s # Ls 0 = A @ b # B2" using B'(1) by simp
      show ?thesis using level_next [OF assms(1) lm L] B2 by (auto simp: sl_access unset_mark_def hd_append split: if_splits)
    qed
    then obtain w where w: "sl_rd s b 0 = Some w" "w AND NOT 1 = (if B' = [] then 0 else hd B')" "b \<noteq> 0" by blast
    have "delete_nodes (Suc f) b t = delete_nodes f (if B' = [] then 0 else hd B') (sl_delete_node b t)"
      using w rd by (simp only: delete_nodes.simps if_False bind.bind_lunit w)
    then show ?thesis using Suc.IH [OF B' hp] Cons by (simp add: sl_delete_node_def)
  qed
qed

lemma set_delete_rep:
  assumes rep: "sl_rep ns ok f s K (m + 2)"
  shows "\<exists>xs. distinct xs \<and> hd xs = sl_head s \<and> K \<subseteq> vl s ` set xs \<and>
    sl_set_delete f st s = Some (s\<lparr>sl_al := fold (ssfree_alloc 1) (xs @ [st]) (sl_al s)\<rparr>)"
proof -
  obtain te Ls where r: "sl_inv s te Ls" "keys s Ls = K" "length (Ls 0) + (m + 2) + 2 < f"
    using rep by (auto simp: sl_rep_def)
  have e: "ends_inv s te" by (rule inv_ends [OF r(1)])
  then have lm: "0 < levelmax s" by (simp add: ends_inv_def)
  let ?xs = "sl_head s # Ls 0 @ [te]"
  have f: "length ?xs < f" using r(3) by simp
  have "delete_nodes f (sl_head s) s = Some (s\<lparr>sl_al := fold (ssfree_alloc 1) ?xs (sl_al s)\<rparr>)"
    using delete_nodes_spec [OF r(1) _ f, of "[]" s] by simp
  then have "sl_set_delete f st s = Some (s\<lparr>sl_al := fold (ssfree_alloc 1) (?xs @ [st]) (sl_al s)\<rparr>)"
    by (simp add: sl_set_delete_def)
  moreover have "distinct ?xs"
    using inv_lvl [OF r(1) lm] vl_distinct e r(1) by (auto simp: lvl_def ends_inv_def sl_inv_def node_inv_def)
  moreover have "K \<subseteq> vl s ` set ?xs" using r(2) by (auto simp: keys_def)
  ultimately show ?thesis by (intro exI [of _ ?xs]) simp
qed

end
