(* ===== verification/SL_Build.thy ===== *)
theory SL_Build
  imports SL_Delmin Contracts
begin

text \<open>
  A fresh set represents the empty set; the transactional build; and the builds as instances of the
  contracts.
\<close>

section \<open>A fresh set\<close>

lemma set_nexts_spec:
  assumes "snode s p" "n \<le> 19"
  shows "\<exists>s'. set_nexts n p w s = Some s' \<and> sl_frame s s' \<and> (\<forall>q j. nx s' q j = (if q = p \<and> j < n then w else nx s q j))"
  using assms
proof (induction n)
  case 0
  then show ?case by simp
next
  case (Suc n)
  then obtain s1 where s1: "set_nexts n p w s = Some s1" "sl_frame s s1"
    "\<forall>q j. nx s1 q j = (if q = p \<and> j < n then w else nx s q j)" by auto
  have "snode s1 p" using s1(2) Suc.prems(1) by (simp add: sl_frame_def)
  then obtain s2 where s2: "sl_wr s1 p n w = Some s2" "sl_frame s1 s2"
    "\<forall>q j. nx s2 q j = (if q = p \<and> j = n then w else nx s1 q j)"
    using wr_node [of s1 p n w] Suc.prems(2) by auto
  have "set_nexts (Suc n) p w s = Some s2" using s1(1) s2(1) by simp
  moreover have "nx s2 q j = (if q = p \<and> j < Suc n then w else nx s q j)" for q j
    using s1(3) s2(3) by (auto simp: less_Suc_eq)
  ultimately show ?case using frame_trans [OF s1(2) s2(2)] by blast
qed

definition mem_ok :: "sl_state \<Rightarrow> bool" where
  "mem_ok s \<longleftrightarrow> (\<forall>p n. sl_heap s p = Some n \<longrightarrow> length (sn_next n) = 19) \<and> (\<forall>p. length (sl_junk s p) = 19)"

lemma sl_new_node_spec:
  assumes mem: "mem_ok s" and lm: "levelmax s \<le> 19"
    and al: "ssalloc_alloc 1 (node_bytes (levelmax s)) (sl_al s) = (a, al')" and a: "valid_addr a"
  shows "\<exists>s'. sl_new_node v w t 0 s = Some (a, s') \<and> mem_ok s' \<and> levelmax s' = levelmax s \<and> sl_al s' = al' \<and>
    snode s' a \<and> vl s' a = v \<and> tp s' a = t \<and> \<not> dead s' a \<and> (\<forall>j < levelmax s. nx s' a j = w) \<and>
    (\<forall>p. p \<noteq> a \<longrightarrow> snode s' p = snode s p \<and> vl s' p = vl s p \<and> tp s' p = tp s p \<and> dead s' p = dead s p \<and>
      (\<forall>j. nx s' p j = nx s p j)) \<and> dom (sl_heap s') = insert a (dom (sl_heap s))"
proof -
  let ?ws = "case sl_heap s a of Some n \<Rightarrow> sn_next n | None \<Rightarrow> sl_junk s a"
  let ?n = "\<lparr>sn_val = v, sn_top = t, sn_del = 0, sn_next = ?ws\<rparr>"
  let ?s1 = "s\<lparr>sl_heap := (sl_heap s)(a \<mapsto> ?n), sl_al := al'\<rparr>"
  have w: "length ?ws = 19" using mem by (auto simp: mem_ok_def split: option.split)
  have "a \<noteq> 0" using a by auto
  then have n1: "sl_new_simple_node v t 0 s = Some (a, ?s1)" using al by (simp add: sl_new_simple_node_def)
  have sa: "snode ?s1 a" using w by (simp add: snode_def)
  obtain s2 where s2: "set_nexts (levelmax s) a w ?s1 = Some s2" "sl_frame ?s1 s2"
    "\<forall>q j. nx s2 q j = (if q = a \<and> j < levelmax s then w else nx ?s1 q j)"
    using set_nexts_spec [OF sa lm, of w] by blast
  have F: "vl s2 = vl ?s1" "tp s2 = tp ?s1" "dead s2 = dead ?s1" "levelmax s2 = levelmax s" "sl_al s2 = al'"
    "sl_junk s2 = sl_junk s" "\<And>p. snode s2 p = snode ?s1 p" "dom (sl_heap s2) = insert a (dom (sl_heap s))"
    using s2(2) frame_dead [OF s2(2)] by (auto simp: sl_frame_def)
  have "length (sn_next n) = 19" if h: "sl_heap s2 p = Some n" for p n
  proof -
    have "p \<in> insert a (dom (sl_heap s))" using h F(8) by blast
    then have "snode ?s1 p" using mem w by (auto simp: snode_def mem_ok_def)
    then have "snode s2 p" by (simp only: F(7))
    then show ?thesis using h by (simp add: snode_def)
  qed
  then have "mem_ok s2" using mem by (simp add: mem_ok_def F)
  moreover have "sl_new_node v w t 0 s = Some (a, s2)" using n1 s2(1) by (simp add: sl_new_node_def)
  moreover have "vl s2 a = v \<and> tp s2 a = t \<and> \<not> dead s2 a" by (simp add: F vl_def tp_def dead_def)
  moreover have "snode s2 p = snode s p \<and> vl s2 p = vl s p \<and> tp s2 p = tp s p \<and> dead s2 p = dead s p \<and>
      (\<forall>j. nx s2 p j = nx s p j)" if "p \<noteq> a" for p
  proof -
    have "snode ?s1 p = snode s p \<and> vl ?s1 p = vl s p \<and> tp ?s1 p = tp s p \<and> dead ?s1 p = dead s p \<and> nx ?s1 p = nx s p"
      using that by (simp add: snode_def vl_def tp_def dead_def nx_def fun_eq_iff)
    then show ?thesis using that s2(3) by (simp add: F)
  qed
  ultimately show ?thesis using F(4,5,7,8) sa s2(3) by auto
qed

context node_alloc
begin

lemma set_new_rep:
  assumes mem: "mem_ok s" and lm: "0 < levelmax s" "levelmax s \<le> 19" and nsz: "node_bytes (levelmax s) = ns"
    and st: "ssalloc_alloc 1 64 (sl_al s) = (st, al1)" "st \<noteq> 0"
    and ok: "ok (ssalloc_align_alloc 1 al1) {} (m + 2)" and f: "m + 2 < f"
  shows "\<exists>s' te. sl_set_new s = Some (st, s') \<and> seq_rep ns ok f s' {} m \<and> levelmax s' = levelmax s \<and>
    sl_inv s' te (\<lambda>_. []) \<and> \<not> dead s' te \<and> (sl_heap s 0 = None \<longrightarrow> sl_heap s' 0 = None)"
proof -
  let ?al2 = "ssalloc_align_alloc 1 al1"
  let ?s1 = "s\<lparr>sl_al := ?al2\<rparr>"
  obtain mx al3 where al3: "ssalloc_alloc 1 ns ?al2 = (mx, al3)" by (cases "ssalloc_alloc 1 ns ?al2")
  obtain mn al4 where al4: "ssalloc_alloc 1 ns al3 = (mn, al4)" by (cases "ssalloc_alloc 1 ns al3")
  have ok': "ok ?al2 {} (Suc (Suc m))" using ok by simp
  note n3 = node [OF ok' al3]
  have n4: "mn \<notin> {mx}" "valid_addr mn" "ok al4 {mn, mx} m" using node [OF _ al4, of "{mx}" m] n3 by auto
  have mem1: "mem_ok ?s1" using mem by (simp add: mem_ok_def)
  obtain s2 where s2: "sl_new_node VAL_MAX 0 (levelmax s) 0 ?s1 = Some (mx, s2)" "mem_ok s2" "levelmax s2 = levelmax s"
    "sl_al s2 = al3" "dom (sl_heap s2) = insert mx (dom (sl_heap s))" "snode s2 mx" "vl s2 mx = VAL_MAX" "\<not> dead s2 mx" "\<forall>j < levelmax s. nx s2 mx j = 0"
    using sl_new_node_spec [OF mem1, of mx al3 VAL_MAX 0 "levelmax s"] lm al3 n3 nsz by auto
  obtain s3 where s3: "sl_new_node VAL_MIN mx (levelmax s) 0 s2 = Some (mn, s3)" "mem_ok s3" "levelmax s3 = levelmax s"
    "sl_al s3 = al4" "dom (sl_heap s3) = insert mn (dom (sl_heap s2))" "snode s3 mn" "tp s3 mn = levelmax s" "\<forall>j < levelmax s. nx s3 mn j = mx"
    "\<forall>p. p \<noteq> mn \<longrightarrow> snode s3 p = snode s2 p \<and> vl s3 p = vl s2 p \<and> tp s3 p = tp s2 p \<and> dead s3 p = dead s2 p \<and>
      (\<forall>j. nx s3 p j = nx s2 p j)"
    using sl_new_node_spec [OF s2(2), of mn al4 VAL_MIN mx "levelmax s"] lm al4 n4 nsz s2(3,4) by auto
  let ?s' = "s3\<lparr>sl_head := mn\<rparr>"
  have new: "sl_set_new s = Some (st, ?s')" using st s2(1) s3(1) by (simp add: sl_set_new_def s2(3))
  have H: "snode ?s' p = snode s3 p" "vl ?s' p = vl s3 p" "tp ?s' p = tp s3 p" "dead ?s' p = dead s3 p" "nx ?s' p j = nx s3 p j" for p j
    by (simp_all add: snode_def vl_def tp_def dead_def nx_def)
  have mm: "mx \<noteq> mn" using n4(1) by auto
  have e: "ends_inv ?s' mx"
    unfolding ends_inv_def H using s2 s3 lm n3 n4(2) mm by (simp add: mem_ok_def sl_marks)
  have "lvl ?s' mx i []" if "i < levelmax s" for i
    using s3(8) that n3 unfolding lvl_def H by (simp add: sl_marks)
  then have inv: "sl_inv ?s' mx (\<lambda>_. [])" using e s3(3) by (simp add: sl_inv_def)
  moreover have "\<not> dead ?s' mx" using s3(9) s2(8) mm by (simp add: H)
  moreover have "seq_rep ns ok f ?s' {} m"
    unfolding seq_rep_def
  proof (intro exI conjI)
    show "sl_inv ?s' mx (\<lambda>_. [])" by (rule inv)
    show "ok (sl_al ?s') {mn, mx} m" using n4(3) s3(4) by simp
  qed (use s3(3) nsz f in \<open>simp_all add: alive_def keys_def\<close>)
  moreover have "sl_heap s 0 = None \<longrightarrow> sl_heap ?s' 0 = None"
  proof -
    have "mx \<noteq> 0" "mn \<noteq> 0" using n3 n4(2) by auto
    moreover have "dom (sl_heap ?s') = insert mn (insert mx (dom (sl_heap s)))" using s2(5) s3(5) by simp
    ultimately show ?thesis by (metis domIff insertE)
  qed
  ultimately show ?thesis using new s3(3) by auto
qed

lemma seq_rep_sl_rep: "seq_rep ns ok f s K m \<Longrightarrow> sl_rep ns ok f s K m"
  by (auto simp: seq_rep_def sl_rep_def)

end

lemma align_loop_0: "n mod 64 = 0 \<Longrightarrow> align_loop n = n"
  by (subst align_loop.simps) simp

text \<open>The two allocators when the set is made.\<close>

lemma ring_start:
  assumes "\<not> use_malloc al" "alloc_next al 1 = 0" "free_num al 1 = 0" "length (free_list al 1) = 256"
    "64 \<le> unat (app_mem al 1)" "unat (app_mem al 1) mod 64 = 0" "unat (app_mem al 1) + 2 ^ 30 < 2 ^ 64"
    "0 < unat ns" "unat ns mod 64 = 0" "64 + m * unat ns \<le> 2 ^ 30"
  shows "fst (ssalloc_alloc 1 64 al) = app_mem al 1 \<and> app_mem al 1 \<noteq> 0 \<and>
    ring_ok ns (ssalloc_align_alloc 1 (snd (ssalloc_alloc 1 64 al))) {} m"
proof -
  have a: "ssalloc_alloc 1 64 al = (app_mem al 1, al\<lparr>alloc_next := (alloc_next al)(1 := 64)\<rparr>)"
    using assms(1-3) by (simp add: ssalloc_alloc_def)
  have "ssalloc_align_alloc 1 (al\<lparr>alloc_next := (alloc_next al)(1 := 64)\<rparr>) = al\<lparr>alloc_next := (alloc_next al)(1 := 64)\<rparr>"
    using assms(1) by (simp add: ssalloc_align_alloc_def align_loop_0)
  moreover have "ring_blocks 1 (al\<lparr>alloc_next := (alloc_next al)(1 := 64)\<rparr>) = []"
    using assms(3) by (simp add: ring_blocks_def)
  moreover have "app_mem al 1 \<noteq> 0" using assms(5) by auto
  ultimately show ?thesis using assms unfolding a by (simp add: ring_ok_def)
qed

lemma malloc_start:
  assumes "mal_ok N al {} (Suc m)"
  shows "fst (ssalloc_alloc 1 64 al) \<noteq> 0 \<and> mal_ok N (ssalloc_align_alloc 1 (snd (ssalloc_alloc 1 64 al))) {} m"
proof -
  obtain p al' where p: "ssalloc_alloc 1 64 al = (p, al')" by (cases "ssalloc_alloc 1 64 al")
  have "valid_addr p" "mal_ok N al' {} m" using mal_alloc [OF assms p] by simp_all
  moreover have "ssalloc_align_alloc 1 al' = al'" using \<open>mal_ok N al' {} m\<close> by (simp add: mal_ok_def ssalloc_align_alloc_def)
  ultimately show ?thesis using p by auto
qed

section \<open>The transactional build\<close>

text \<open>With \<^verbatim>\<open>malloc\<close> as the allocator, where a node may be released by either kind of \<^verbatim>\<open>free\<close>.\<close>

lemma stm_add_rep:
  assumes rep: "seq_rep ns (mal_ok N) f s K (Suc m)" and v: "v < VAL_MAX" and tr: "tr \<noteq> 0"
  shows "\<exists>s'. stm_add f v tr s = Some (v \<notin> K, s') \<and> seq_rep ns (mal_ok N) f s' (insert v K) m"
proof -
  obtain te Ls L where r: "sl_inv s te Ls" "alive s Ls" "keys s Ls = K" "{sl_head s, te} \<union> set (Ls 0) \<subseteq> L"
    "mal_ok N (sl_al s) L (Suc m)" "node_bytes (levelmax s) = ns" "length (Ls 0) + Suc m + 2 < f"
    using rep by (auto simp: seq_rep_def)
  have f: "length (Ls 0) < f" using r(7) by simp
  have lm: "0 < levelmax s" using inv_ends [OF r(1)] by (simp add: ends_inv_def)
  obtain P R where s: "sl_top s (sl_head s) = Some (levelmax s)"
    "seq_levels f (levelmax s) v (sl_head s) 0 [] [] s = Some (P ! 0, R ! 0, P, R)"
    "length P = levelmax s" "length R = levelmax s" "\<forall>j < levelmax s. found s te Ls v j (P ! j) (R ! j)"
    "sl_val s (R ! 0) = Some (vl s (R ! 0))" "vl s (R ! 0) = v \<longleftrightarrow> v \<in> keys s Ls"
    by (rule seq_search [OF r(1,2) v f])
  have t: "stm_levels f (levelmax s) v (sl_head s) 0 VAL_MIN [] [] s = Some (P ! 0, R ! 0, vl s (R ! 0), P, R)"
    using stm_levels_seq [OF s(2), of VAL_MIN] lm s(6) by auto
  show ?thesis
  proof (cases "v \<in> K")
    case True
    then have "stm_add f v tr s = Some (False, s)" using s t r(3) by (simp add: stm_add_def)
    moreover have "seq_rep ns (mal_ok N) f s K m"
      unfolding seq_rep_def using r by (intro exI [of _ te] exI [of _ Ls] exI [of _ L]) (simp add: mal_ok_def)
    ultimately show ?thesis using True by (simp add: insert_absorb)
  next
    case False
    obtain l s1 where l: "get_rand_level s = (l, s1)" by (cases "get_rand_level s")
    obtain a al1 where al1: "c_malloc (192 + of_nat l * 8) (sl_al s) = (a, al1)" by (cases "c_malloc (192 + of_nat l * 8) (sl_al s)")
    have "ssalloc_alloc 1 (192 + of_nat l * 8) (sl_al s) = (a, al1)"
      using al1 r(5) by (simp add: ssalloc_alloc_def mal_ok_def)
    note na = mal_alloc [OF r(5) this]
    have vk: "v \<notin> keys s Ls" using False r(3) by simp
    obtain s2 s' Ls' where c: "sl_new_simple_node v l tr s1 = Some (a, s2)" "stm_link l a P s2 = Some s'"
      "sl_inv s' te Ls'" "alive s' Ls'" "keys s' Ls' = insert v (keys s Ls)" "set (Ls' 0) = insert a (set (Ls 0))"
      "length (Ls' 0) = Suc (length (Ls 0))" "sl_head s' = sl_head s" "levelmax s' = levelmax s" "sl_al s' = al1"
      using add_core [OF r(1,2) v vk s(5,3,4) l, of tr a al1] al1 tr r(4,6) na by auto
    have "stm_add f v tr s = Some (True, s')" using s t l c(1,2) False r(3) by (simp add: stm_add_def)
    moreover have "seq_rep ns (mal_ok N) f s' (insert v K) m"
      unfolding seq_rep_def
      using c r(3,4,6,7) na by (intro exI [of _ te] exI [of _ Ls'] exI [of _ "insert a L"]) auto
    ultimately show ?thesis using False by simp
  qed
qed

lemma stm_remove_rep:
  assumes rep: "seq_rep ns (mal_ok N) f s K (Suc m)" and v: "v < VAL_MAX"
  shows "\<exists>s'. stm_remove f v s = Some (v \<in> K, s') \<and> seq_rep ns (mal_ok N) f s' (K - {v}) m"
proof -
  obtain te Ls L where r: "sl_inv s te Ls" "alive s Ls" "keys s Ls = K" "{sl_head s, te} \<union> set (Ls 0) \<subseteq> L"
    "mal_ok N (sl_al s) L (Suc m)" "node_bytes (levelmax s) = ns" "length (Ls 0) + Suc m + 2 < f"
    using rep by (auto simp: seq_rep_def)
  have f: "length (Ls 0) < f" using r(7) by simp
  have lm: "0 < levelmax s" using inv_ends [OF r(1)] by (simp add: ends_inv_def)
  obtain P R where s: "sl_top s (sl_head s) = Some (levelmax s)"
    "seq_levels f (levelmax s) v (sl_head s) 0 [] [] s = Some (P ! 0, R ! 0, P, R)"
    "length P = levelmax s" "length R = levelmax s" "\<forall>j < levelmax s. found s te Ls v j (P ! j) (R ! j)"
    "sl_val s (R ! 0) = Some (vl s (R ! 0))" "vl s (R ! 0) = v \<longleftrightarrow> v \<in> keys s Ls"
    "\<forall>j < levelmax s. snode s (P ! j) \<and> snode s (R ! j)"
    by (rule seq_search [OF r(1,2) v f])
  have t: "stm_levels f (levelmax s) v (sl_head s) 0 VAL_MIN [] [] s = Some (P ! 0, R ! 0, vl s (R ! 0), P, R)"
    using stm_levels_seq [OF s(2), of VAL_MIN] lm s(6) by auto
  show ?thesis
  proof (cases "v \<in> K")
    case False
    then have "stm_remove f v s = Some (False, s)" using s t r(3) by (simp add: stm_remove_def)
    moreover have "seq_rep ns (mal_ok N) f s K m"
      unfolding seq_rep_def using r by (intro exI [of _ te] exI [of _ Ls] exI [of _ L]) (simp add: mal_ok_def)
    ultimately show ?thesis using False by simp
  next
    case True
    have vk: "v \<in> keys s Ls" using True r(3) by simp
    obtain s' Ls' where c: "unlink_levels (levelmax s) v P R s = Some s'" "sl_inv s' te Ls'" "alive s' Ls'"
      "keys s' Ls' = keys s Ls - {v}" "set (Ls' 0) = set (Ls 0) - {R ! 0}" "R ! 0 \<in> set (Ls 0)"
      "sl_head s' = sl_head s" "levelmax s' = levelmax s" "sl_al s' = sl_al s" "length (Ls' 0) \<le> length (Ls 0)"
      using remove_core [OF r(1,2) v vk s(5,3,4,8)] by blast
    let ?s2 = "s'\<lparr>sl_al := c_free (R ! 0) (sl_al s')\<rparr>"
    have "stm_remove f v s = Some (True, ?s2)" using s t c(1) True r(3) by (simp add: stm_remove_def)
    moreover have "seq_rep ns (mal_ok N) f ?s2 (K - {v}) m"
      unfolding seq_rep_def
    proof (intro exI conjI)
      have "c_free (R ! 0) (sl_al s) = ssfree_alloc 1 (R ! 0) (sl_al s)" using r(5) by (simp add: mal_ok_def ssfree_alloc_def)
      then show "mal_ok N (sl_al ?s2) (L - {R ! 0}) m" using mal_free [OF r(5), of 1 "R ! 0"] by (simp add: c(9))
      have "R ! 0 \<noteq> sl_head s" "R ! 0 \<noteq> te" using c(6) r(1) by (auto simp: sl_inv_def node_inv_def)
      then show "{sl_head ?s2, te} \<union> set (Ls' 0) \<subseteq> L - {R ! 0}" using r(4) c(5) by (auto simp: c(7))
      show "alive ?s2 Ls'" using c(3) by (simp add: alive_def dead_def)
    qed (use c r(3,6,7) in simp_all)
    ultimately show ?thesis using True by simp
  qed
qed

end
