(* ===== verification/SL_Range.thy ===== *)
theory SL_Range
  imports SL_Build
begin

text \<open>Keys above the largest value that the list can tell from its tail.\<close>

text \<open>The addresses that the search reads at level \<open>i\<close>: the nodes of the level, the tail and NULL.\<close>

definition on_level :: "sl_state \<Rightarrow> ptr \<Rightarrow> (nat \<Rightarrow> ptr list) \<Rightarrow> nat \<Rightarrow> ptr \<Rightarrow> bool" where
  "on_level s te Ls i p \<longleftrightarrow> p = 0 \<or> p = te \<or> p \<in> set (Ls i)"

lemma succ_in:
  assumes "successively R (x # xs)" "p \<in> set (x # xs)" "p \<noteq> last (x # xs)"
  shows "\<exists>q \<in> set xs. R p q"
  using assms by (induction xs arbitrary: x) (auto split: if_splits)

lemma on_level_next:
  assumes inv: "sl_inv s te Ls" and i: "i < levelmax s" and p: "on_level s te Ls i p" "p \<noteq> 0"
  shows "snode s p \<and> vl s p \<le> VAL_MAX \<and> on_level s te Ls i (unset_mark (nx s p i))"
proof -
  have e: "ends_inv s te" by (rule inv_ends [OF inv])
  show ?thesis
  proof (cases "p = te")
    case True
    then show ?thesis using e i by (simp add: ends_inv_def on_level_def unset_mark_def)
  next
    case False
    then have m: "p \<in> set (Ls i)" using p by (simp add: on_level_def)
    then have nd: "node_inv s te p" using inv_node [OF inv m i] by blast
    have "successively (\<lambda>p q. unset_mark (nx s p i) = q) (sl_head s # Ls i @ [te])"
      using inv_lvl [OF inv i] by (simp add: lvl_def)
    moreover have "p \<in> set (sl_head s # Ls i @ [te])" "p \<noteq> last (sl_head s # Ls i @ [te])" using m False by simp_all
    ultimately have "\<exists>q \<in> set (Ls i @ [te]). unset_mark (nx s p i) = q" by (rule succ_in)
    then show ?thesis using nd by (auto simp: node_inv_def on_level_def)
  qed
qed

lemma skip_marked_level:
  assumes inv: "sl_inv s te Ls" and i: "i < levelmax s" and z: "sl_heap s 0 = None"
  shows "on_level s te Ls i p \<Longrightarrow> skip_marked f s i p = Some (r, n) \<Longrightarrow>
    r \<noteq> 0 \<and> on_level s te Ls i r \<and> on_level s te Ls i n"
proof (induction f arbitrary: p)
  case 0
  then show ?case by simp
next
  case (Suc f)
  have p: "p \<noteq> 0" using Suc.prems(2) z by (auto simp: sl_rd_def)
  note n = on_level_next [OF inv i Suc.prems(1) p]
  have "i < 19" using inv_ends [OF inv] i by (simp add: ends_inv_def)
  then have rd: "sl_rd s p i = Some (nx s p i)" using n by (simp add: sl_access)
  show ?case
  proof (cases "is_marked (nx s p i)")
    case True
    then show ?thesis using Suc.IH [of "unset_mark (nx s p i)"] n Suc.prems(2) rd by simp
  next
    case False
    then show ?thesis using n Suc.prems p rd by (auto simp: sl_marks unmarked_id)
  qed
qed

lemma find_pair_above:
  assumes inv: "sl_inv s te Ls" and i: "i < levelmax s" and z: "sl_heap s 0 = None" and v: "VAL_MAX < v"
  shows "on_level s te Ls i p \<Longrightarrow> find_pair f s i v l ln p = None"
proof (induction f arbitrary: l ln p)
  case 0
  then show ?case by simp
next
  case (Suc f)
  show ?case
  proof (cases "skip_marked (Suc f) s i p")
    case (Some rn)
    obtain r n where rn: "rn = (r, n)" by (cases rn)
    have k: "r \<noteq> 0" "on_level s te Ls i r" "on_level s te Ls i n"
      using skip_marked_level [OF inv i z Suc.prems] Some rn by blast+
    have "snode s r" "vl s r \<le> VAL_MAX" using on_level_next [OF inv i k(2,1)] by blast+
    then have "sl_val s r = Some (vl s r)" "\<not> v \<le> vl s r" using v by (auto simp: sl_access)
    then show ?thesis using Some rn Suc.IH [OF k(3)] by simp
  qed simp
qed

text \<open>The search for such a key runs off the list, whatever the fuel.\<close>

lemma search_above:
  assumes inv: "sl_inv s te Ls" and z: "sl_heap s 0 = None" and v: "VAL_MAX < v"
  shows "fraser_search f v s = None"
proof (cases f)
  case (Suc g)
  have e: "ends_inv s te" by (rule inv_ends [OF inv])
  then obtain i where i: "levelmax s = Suc i" by (cases "levelmax s") (auto simp: ends_inv_def)
  have h: "sl_rd s (sl_head s) i = Some (nx s (sl_head s) i)" "\<not> is_marked (nx s (sl_head s) i)"
    using e i by (auto simp: ends_inv_def sl_access)
  have "successively (\<lambda>p q. unset_mark (nx s p i) = q) (sl_head s # Ls i @ [te])"
    using inv_lvl [OF inv] i by (simp add: lvl_def)
  then have "on_level s te Ls i (unset_mark (nx s (sl_head s) i))"
    by (cases "Ls i") (auto simp: on_level_def)
  then have "on_level s te Ls i (nx s (sl_head s) i)" using h(2) by (simp add: sl_marks unmarked_id)
  then have "find_pair f s i v (sl_head s) n (nx s (sl_head s) i) = None" for n
    using find_pair_above [OF inv _ z v] i by simp
  then show ?thesis using Suc i h by simp
qed simp

context node_alloc
begin

lemma above_range:
  assumes rep: "sl_rep ns ok f s K 6" and z: "sl_heap s 0 = None" and v: "VAL_MAX < v"
  shows "fraser_find g v s = None \<and> fraser_remove g v b s = None \<and> fraser_insert g v s = None"
proof -
  obtain te Ls L where r: "sl_inv s te Ls" "{sl_head s, te} \<union> set (Ls 0) \<subseteq> L"
    "ok (sl_al s) L (0 + 6)" "node_bytes (levelmax s) = ns"
    using rep by (auto simp: sl_rep_def)
  have sr: "fraser_search g v (snd (array_alloc s)) = None"
    by (rule search_above [OF _ _ v]) (use r(1) z in \<open>simp_all add: array_alloc_eq\<close>)
  have lm: "0 < levelmax s" using inv_ends [OF r(1)] by (simp add: ends_inv_def)
  obtain l s1 where l: "get_rand_level s = (l, s1)" by (cases "get_rand_level s")
  obtain ss where s1: "s1 = s\<lparr>sl_seeds := ss\<rparr>" and lb: "0 < l" "l \<le> levelmax s" using rand_level_bounds [OF l lm] by blast
  obtain a al1 where al1: "ssalloc_alloc 1 ns (sl_al s) = (a, al1)" by (cases "ssalloc_alloc 1 ns (sl_al s)")
  have a: "a \<notin> L" "valid_addr a" using node [of _ _ 5, OF _ al1] r(3) by (auto simp: numeral_eq_Suc)
  have inv1: "sl_inv s1 te Ls" using r(1) by (simp add: s1)
  have "(if 0 \<noteq> (0::int) then c_malloc (192 + of_nat l * 8) (sl_al s1)
      else ssalloc_alloc 1 (node_bytes (levelmax s1)) (sl_al s1)) = (a, al1)" using al1 r(4) by (simp add: s1)
  then obtain s2 where s2: "sl_new_simple_node v l 0 s1 = Some (a, s2)" "sl_inv s2 te Ls"
    using new_node [OF inv1, of 0 l a al1 v] r(2) a lb by (auto simp: s1)
  have "a \<noteq> 0" using a(2) by auto
  then have z2: "sl_heap s2 0 = None" using s2(1) z by (auto simp: sl_new_simple_node_def s1 Let_def split: prod.splits if_splits)
  define s4 where "s4 = snd (array_alloc (snd (array_alloc s2)))"
  have "sl_inv s4 te Ls" "sl_heap s4 0 = None" using s2(2) z2 by (simp_all add: s4_def array_alloc_eq)
  then have sr4: "fraser_search h v s4 = None" for h by (rule search_above [OF _ _ v])
  then have "insert_bottom g a v s4 = None" by (cases g) simp_all
  then have "fraser_insert g v s = None"
    using l s2(1) by (simp add: fraser_insert_def s4_def split_beta)
  moreover have "fraser_find g v s = None" "fraser_remove g v b s = None"
    using sr by (simp_all add: fraser_find_def fraser_remove_def split_beta)
  ultimately show ?thesis by blast
qed

end

end
