(* ===== verification/SL_Props.thy ===== *)
theory SL_Props
  imports SL_Range
begin

text \<open>The spraylist as an instance of the contracts, and its properties with their witnesses.\<close>

section \<open>Instances of the contracts\<close>

definition sl_step :: "build \<Rightarrow> nat \<Rightarrow> set_op \<Rightarrow> sl_state \<Rightarrow> (bool \<times> sl_state) option" where
  "sl_step b f p s = (case p of
      Contains v \<Rightarrow> sl_contains b f v 1 s
    | Add v \<Rightarrow> sl_add b f v 1 s
    | Remove v \<Rightarrow> sl_remove b f v 1 s)"

text \<open>The priority queue of one thread: the lock-free insertion and the exact delete-min.\<close>

definition pq_ins :: "nat \<Rightarrow> u32 \<Rightarrow> thread_data \<times> sl_state \<Rightarrow> (bool \<times> thread_data \<times> sl_state) option" where
  "pq_ins f v ds = (case fraser_insert f v (snd ds) of None \<Rightarrow> None | Some (b, s) \<Rightarrow> Some (b, fst ds, s))"

definition pq_del :: "nat \<Rightarrow> thread_data \<times> sl_state \<Rightarrow> (u32 option \<times> thread_data \<times> sl_state) option" where
  "pq_del f ds = (case naive_delete_min f (fst ds) (snd ds) of None \<Rightarrow> None | Some (r, v, d, s) \<Rightarrow> Some (v, d, s))"

definition pq_rep :: "u64 \<Rightarrow> (ssalloc_st \<Rightarrow> ptr set \<Rightarrow> nat \<Rightarrow> bool) \<Rightarrow> nat \<Rightarrow> thread_data \<times> sl_state \<Rightarrow> u32 multiset \<Rightarrow> nat \<Rightarrow> bool" where
  "pq_rep ns ok f ds M m \<longleftrightarrow> sl_rep ns ok f (snd ds) (set_mset M) m \<and> (\<forall>v. count M v \<le> 1)"

context node_alloc
begin

lemma sl_rep_less:
  assumes "sl_rep ns ok f s K m" "k \<le> m"
  shows "sl_rep ns ok f s K k"
proof -
  obtain te Ls L where r: "sl_inv s te Ls" "keys s Ls = K" "{sl_head s, te} \<union> set (Ls 0) \<subseteq> L"
    "ok (sl_al s) L m" "node_bytes (levelmax s) = ns" "length (Ls 0) + m + 2 < f"
    using assms(1) by (auto simp: sl_rep_def)
  moreover have "ok (sl_al s) L k" by (rule less [OF r(4) assms(2)])
  moreover have "length (Ls 0) + k + 2 < f" using r(6) assms(2) by simp
  ultimately show ?thesis unfolding sl_rep_def by blast
qed

lemma seq_rep_less:
  assumes "seq_rep ns ok f s K m" "k \<le> m"
  shows "seq_rep ns ok f s K k"
proof -
  obtain te Ls L where r: "sl_inv s te Ls" "alive s Ls" "keys s Ls = K" "{sl_head s, te} \<union> set (Ls 0) \<subseteq> L"
    "ok (sl_al s) L m" "node_bytes (levelmax s) = ns" "length (Ls 0) + m + 2 < f"
    using assms(1) by (auto simp: seq_rep_def)
  moreover have "ok (sl_al s) L k" by (rule less [OF r(5) assms(2)])
  moreover have "length (Ls 0) + k + 2 < f" using r(7) assms(2) by simp
  ultimately show ?thesis unfolding seq_rep_def by blast
qed

lemma lockfree_set: "int_set (sl_rep ns ok f) (sl_step LOCKFREE f) 6 VAL_MAX"
proof
  fix s K m and p :: set_op
  assume r: "sl_rep ns ok f s K (m + 6)" and v: "op_val p < VAL_MAX"
  have r2: "sl_rep ns ok f s K (m + 2)" by (rule sl_rep_less [OF r]) simp
  show "\<exists>s'. sl_step LOCKFREE f p s = Some (fst (set_spec p K), s') \<and> sl_rep ns ok f s' (snd (set_spec p K)) m"
  proof (cases p)
    case (Contains v)
    then show ?thesis using find_rep [OF r2, of v] v by (simp add: sl_step_def sl_contains_def)
  next
    case (Add v)
    then show ?thesis using insert_rep [OF r, of v] v by (simp add: sl_step_def sl_add_def)
  next
    case (Remove v)
    then show ?thesis using remove_rep [OF r2, of v] v by (simp add: sl_step_def sl_remove_def)
  qed
qed

lemma sequential_set: "int_set (seq_rep ns ok f) (sl_step SEQUENTIAL f) 1 VAL_MAX"
proof
  fix s K m and p :: set_op
  assume r: "seq_rep ns ok f s K (m + 1)" and v: "op_val p < VAL_MAX"
  have r0: "seq_rep ns ok f s K m" by (rule seq_rep_less [OF r]) simp
  show "\<exists>s'. sl_step SEQUENTIAL f p s = Some (fst (set_spec p K), s') \<and> seq_rep ns ok f s' (snd (set_spec p K)) m"
  proof (cases p)
    case (Contains v)
    then show ?thesis using seq_contains_rep [OF r, of v] r0 v by (simp add: sl_step_def sl_contains_def)
  next
    case (Add v)
    then show ?thesis using seq_add_rep [of f s K m v] r v by (simp add: sl_step_def sl_add_def)
  next
    case (Remove v)
    then show ?thesis using seq_remove_rep [of f s K m v] r v by (simp add: sl_step_def sl_remove_def)
  qed
qed

lemma lockfree_queue: "prio_queue (pq_rep ns ok f) (pq_ins f) (pq_del f) 6 (\<lambda>v. v < VAL_MAX) False"
proof
  fix ds :: "thread_data \<times> sl_state" and M m and v :: u32
  assume r: "pq_rep ns ok f ds M (m + 6)" and v: "v < VAL_MAX"
  obtain s' where s': "fraser_insert f v (snd ds) = Some (v \<notin># M, s')" "sl_rep ns ok f s' (insert v (set_mset M)) m"
    using insert_rep [of f "snd ds" "set_mset M" m v] r v by (auto simp: pq_rep_def)
  have "pq_rep ns ok f (fst ds, s') (if v \<notin># M then add_mset v M else M) m"
    using s'(2) r by (auto simp: pq_rep_def insert_absorb not_in_iff)
  then show "\<exists>s'. pq_ins f v ds = Some (False \<or> v \<notin># M, s') \<and>
      pq_rep ns ok f s' (if False \<or> v \<notin># M then add_mset v M else M) m"
    using s'(1) by (simp add: pq_ins_def)
next
  fix ds :: "thread_data \<times> sl_state" and M m
  assume r: "pq_rep ns ok f ds M m" and ne: "M \<noteq> {#}"
  let ?x = "Min_mset M"
  obtain s' where s': "naive_delete_min f (fst ds) (snd ds) = Some (1, Some ?x, fst ds, s')"
    "sl_rep ns ok f s' (set_mset M - {?x}) m"
    using naive_rep [of ns ok f "snd ds" "set_mset M" m "fst ds"] r ne by (auto simp: pq_rep_def)
  have one: "count M v \<le> 1" for v using r by (simp add: pq_rep_def)
  have "set_mset (M - {#?x#}) = set_mset M - {?x}"
    using one [of ?x] by (auto simp: in_diff_count dest: in_diffD split: if_splits)
  moreover have "count (M - {#?x#}) v \<le> 1" for v using one [of v] by simp
  ultimately have "pq_rep ns ok f (fst ds, s') (M - {#?x#}) m" using s'(2) by (simp add: pq_rep_def)
  then show "\<exists>s'. pq_del f ds = Some (Some ?x, s') \<and> pq_rep ns ok f s' (M - {#?x#}) m"
    using s'(1) by (auto simp: pq_del_def)
qed

end

lemma stm_set: "int_set (seq_rep ns (mal_ok N) f) (sl_step STM f) 1 VAL_MAX"
proof
  fix s K m and p :: set_op
  assume r: "seq_rep ns (mal_ok N) f s K (m + 1)" and v: "op_val p < VAL_MAX"
  have r0: "seq_rep ns (mal_ok N) f s K m" by (rule malloc.seq_rep_less [OF r]) simp
  obtain te Ls where inv: "sl_inv s te Ls" using r by (auto simp: seq_rep_def)
  have tp: "sl_top s (sl_head s) = Some (levelmax s)" "0 < levelmax s"
    using inv_ends [OF inv] by (auto simp: ends_inv_def sl_access)
  show "\<exists>s'. sl_step STM f p s = Some (fst (set_spec p K), s') \<and> seq_rep ns (mal_ok N) f s' (snd (set_spec p K)) m"
  proof (cases p)
    case (Contains v)
    then have "seq_contains f v s = Some (v \<in> K)" using seq_contains_rep [OF r, of v] v by simp
    then have "stm_contains f v s = Some (v \<in> K)" by (rule stm_contains_eq [OF _ tp])
    then show ?thesis using r0 Contains by (simp add: sl_step_def sl_contains_def)
  next
    case (Add v)
    then show ?thesis using stm_add_rep [of ns N f s K m v 1] r v by (simp add: sl_step_def sl_add_def)
  next
    case (Remove v)
    then show ?thesis using stm_remove_rep [of ns N f s K m v] r v by (simp add: sl_step_def sl_remove_def)
  qed
qed

interpretation lf_ring: int_set "sl_rep ns (ring_ok ns) f" "sl_step LOCKFREE f" 6 VAL_MAX
  by (rule ring.lockfree_set)

interpretation lf_mal: int_set "sl_rep ns (mal_ok N) f" "sl_step LOCKFREE f" 6 VAL_MAX
  by (rule malloc.lockfree_set)

interpretation seq_ring: int_set "seq_rep ns (ring_ok ns) f" "sl_step SEQUENTIAL f" 1 VAL_MAX
  by (rule ring.sequential_set)

interpretation seq_mal: int_set "seq_rep ns (mal_ok N) f" "sl_step SEQUENTIAL f" 1 VAL_MAX
  by (rule malloc.sequential_set)

interpretation stm_mal: int_set "seq_rep ns (mal_ok N) f" "sl_step STM f" 1 VAL_MAX
  by (rule stm_set)

interpretation pq_ring: prio_queue "pq_rep ns (ring_ok ns) f" "pq_ins f" "pq_del f" 6 "\<lambda>v. v < VAL_MAX" False
  by (rule ring.lockfree_queue)

interpretation pq_mal: prio_queue "pq_rep ns (mal_ok N) f" "pq_ins f" "pq_del f" 6 "\<lambda>v. v < VAL_MAX" False
  by (rule malloc.lockfree_queue)

section \<open>A concrete start\<close>

text \<open>The ring build: both arenas are there and nothing was allocated.\<close>

definition ring_al :: ssalloc_st where
  "ring_al = \<lparr>use_malloc = False, mal_pick = (\<lambda>h n. 0), mal_hist = [], app_mem = (\<lambda>i. if i = 1 then 4096 else 8589934592),
     alloc_next = (\<lambda>i. 0), free_list = (\<lambda>i. replicate 256 0), free_cur = (\<lambda>i. 0), free_num = (\<lambda>i. 0)\<rparr>"

text \<open>The malloc build: the first address that was never handed out.\<close>

definition first_free :: "mal_event list \<Rightarrow> u64 \<Rightarrow> ptr" where
  "first_free h n = (case filter (\<lambda>p. \<forall>e \<in> set h. case e of Malloc k q \<Rightarrow> q \<noteq> p | Free q \<Rightarrow> True)
      (map (\<lambda>k. 64 * of_nat k) [1..<length h + 2]) of [] \<Rightarrow> 64 | p # ps \<Rightarrow> p)"

definition mal_al :: ssalloc_st where
  "mal_al = ring_al\<lparr>use_malloc := True, mal_pick := first_free\<rparr>"

definition start :: "ssalloc_st \<Rightarrow> sl_state" where
  "start al = \<lparr>sl_heap = Map.empty, sl_junk = (\<lambda>a. replicate 19 0), sl_head = 0, levelmax = 15,
     sl_seeds = (1, 2, 3), sl_al = al\<rparr>"

lemma mal_live_sub: "mal_live es \<subseteq> {q. \<exists>k. Malloc k q \<in> set es}"
  by (induction es rule: mal_live.induct) auto

lemma unat_64_mult: "k < 2 ^ 20 \<Longrightarrow> unat (64 * of_nat k :: u64) = 64 * k"
proof -
  assume k: "k < 2 ^ 20"
  then have "take_bit 64 (64 * k) = 64 * k" by (intro take_bit_nat_eq_self) simp
  then have "unat (of_nat (64 * k) :: u64) = 64 * k" by (simp add: unsigned_of_nat del: of_nat_mult)
  then show ?thesis by (simp only: of_nat_mult of_nat_numeral)
qed

lemma first_free_ok: "malloc_ok (2 ^ 19) first_free"
  unfolding malloc_ok_def
proof (intro allI impI)
  fix h :: "mal_event list" and n
  assume h: "length h < 2 ^ 19"
  let ?A = "{q. \<exists>k. Malloc k q \<in> set h}"
  let ?c = "map (\<lambda>k. 64 * of_nat k :: u64) [1..<length h + 2]"
  let ?ok = "\<lambda>p. \<forall>e \<in> set h. case e of Malloc k q \<Rightarrow> q \<noteq> p | Free q \<Rightarrow> True"
  have okA: "?ok p \<longleftrightarrow> p \<notin> ?A" for p by (auto split: mal_event.splits)
  have "?A \<subseteq> (\<lambda>e. case e of Malloc k q \<Rightarrow> q | Free q \<Rightarrow> q) ` set h" by (force simp: image_iff)
  then have "card ?A \<le> card ((\<lambda>e. case e of Malloc k q \<Rightarrow> q | Free q \<Rightarrow> q) ` set h)" by (intro card_mono) auto
  also have "\<dots> \<le> length h" by (meson card_image_le card_length finite_set le_trans)
  finally have cA: "card ?A \<le> length h" .
  have "inj_on (\<lambda>k. 64 * of_nat k :: u64) {1..<length h + 2}"
  proof (rule inj_onI)
    fix x y assume "x \<in> {1..<length h + 2}" "y \<in> {1..<length h + 2}" "(64 * of_nat x :: u64) = 64 * of_nat y"
    then have "unat (64 * of_nat x :: u64) = unat (64 * of_nat y :: u64)" "x < 2 ^ 20" "y < 2 ^ 20" using h by simp_all
    then show "x = y" using unat_64_mult by simp
  qed
  then have "card ((\<lambda>k. 64 * of_nat k :: u64) ` {1..<length h + 2}) = length h + 1"
    by (simp only: card_image card_atLeastLessThan)
  moreover have "set ?c = (\<lambda>k. 64 * of_nat k :: u64) ` {1..<length h + 2}" by (simp only: set_map set_upt)
  ultimately have "card (set ?c) = length h + 1" by (simp only:)
  moreover have "finite ?A" by simp
  ultimately have "\<not> set ?c \<subseteq> ?A" using cA card_mono [of ?A "set ?c"] by linarith
  then have "filter ?ok ?c \<noteq> []" using okA by (auto simp: filter_empty_conv)
  then obtain p ps where f: "filter ?ok ?c = p # ps" by (cases "filter ?ok ?c") auto
  then have pp: "first_free h n = p" by (simp add: first_free_def)
  have "p \<in> set (filter ?ok ?c)" unfolding f by simp
  then have "?ok p" "p \<in> set ?c" unfolding set_filter mem_Collect_eq by blast+
  then have "p \<notin> ?A" using okA by blast
  then have "p \<notin> mal_live (rev h)" using mal_live_sub [of "rev h"] by auto
  moreover obtain k where k: "p = 64 * of_nat k" "1 \<le> k" "k < length h + 2" using \<open>p \<in> set ?c\<close> unfolding set_map set_upt by auto
  have "unat p = 64 * k" using k h unat_64_mult [of k] by simp
  then have "valid_addr p" using k(2) by (intro valid_addr_64) simp_all
  ultimately show "valid_addr (first_free h n) \<and> first_free h n \<notin> mal_live (rev h)" using pp by simp
qed

lemma node_bytes_15: "node_bytes 15 = 320"
  by (simp add: node_bytes_def Let_def)

lemma start_ring:
  "\<exists>s te. sl_set_new (start ring_al) = Some (4096, s) \<and> seq_rep 320 (ring_ok 320) 500 s {} 400 \<and> levelmax s = 15 \<and>
    sl_inv s te (\<lambda>_. []) \<and> \<not> dead s te \<and> sl_heap s 0 = None"
proof -
  let ?al = "ssalloc_alloc 1 64 ring_al"
  have r: "fst ?al = 4096" "ring_ok 320 (ssalloc_align_alloc 1 (snd ?al)) {} 402"
    using ring_start [of ring_al 320 402] by (simp_all add: ring_al_def)
  show ?thesis
    using ring.set_new_rep [of "start ring_al" 320 4096 "snd ?al" 400 500] r
    by (simp add: start_def mem_ok_def node_bytes_15 prod_eq_iff)
qed

lemma start_mal:
  "\<exists>s st. sl_set_new (start mal_al) = Some (st, s) \<and> seq_rep 320 (mal_ok (2 ^ 19)) 500 s {} 400 \<and> levelmax s = 15"
proof -
  let ?al = "ssalloc_alloc 1 64 mal_al"
  have "mal_ok (2 ^ 19) mal_al {} 403" using first_free_ok by (simp add: mal_ok_def mal_al_def ring_al_def)
  then have r: "fst ?al \<noteq> 0" "mal_ok (2 ^ 19) (ssalloc_align_alloc 1 (snd ?al)) {} 402"
    using malloc_start [of "2 ^ 19" mal_al 402] by simp_all
  show ?thesis
    using malloc.set_new_rep [of "start mal_al" 320 "fst ?al" "snd ?al" "2 ^ 19" 400 500] r
    by (auto simp: start_def mem_ok_def node_bytes_15)
qed

section \<open>The set\<close>

lemma sl_rep_al_ok:
  "sl_rep ns (al_ok ns N) f s K m \<longleftrightarrow> sl_rep ns (ring_ok ns) f s K m \<or> sl_rep ns (mal_ok N) f s K m"
  by (simp add: sl_rep_def al_ok_def) blast

lemma start_rep: "\<exists>s. sl_set_new (start ring_al) = Some (4096, s) \<and> sl_rep 320 (al_ok 320 N) 500 s {} 400 \<and> levelmax s = 15"
  using start_ring ring.seq_rep_sl_rep by (auto simp: sl_rep_al_ok)

lemma al_rep_less: "sl_rep ns (al_ok ns N) f s K m \<Longrightarrow> k \<le> m \<Longrightarrow> sl_rep ns (al_ok ns N) f s K k"
  unfolding sl_rep_al_ok using ring.sl_rep_less malloc.sl_rep_less by blast

text \<open>
  C10. Any script of insertions, removals and queries by one thread, run by the lock-free operations in
  either allocator build, returns, gives the answers of a mathematical set, and leaves a list whose
  size is that of the set.
\<close>

theorem sl_lockfree_script:
  assumes "sl_rep ns (al_ok ns N) f s K (6 * length ps)" "\<forall>p \<in> set ps. op_val p < VAL_MAX"
  shows "\<exists>s'. run_ops (sl_step LOCKFREE f) ps s = Some (fst (run_spec ps K), s') \<and>
    sl_rep ns (al_ok ns N) f s' (snd (run_spec ps K)) 0 \<and> sl_set_size f s' = Some (card (snd (run_spec ps K)))"
proof -
  consider "sl_rep ns (ring_ok ns) f s K (0 + 6 * length ps)" | "sl_rep ns (mal_ok N) f s K (0 + 6 * length ps)"
    using assms(1) unfolding sl_rep_al_ok by auto
  then have "\<exists>s'. run_ops (sl_step LOCKFREE f) ps s = Some (fst (run_spec ps K), s') \<and>
      sl_rep ns (al_ok ns N) f s' (snd (run_spec ps K)) 0"
    unfolding sl_rep_al_ok using lf_ring.run [OF _ assms(2)] lf_mal.run [OF _ assms(2)] by cases blast+
  then show ?thesis using size_rep by blast
qed

theorem sl_lockfree_script_witness:
  "\<exists>s s'. sl_set_new (start ring_al) = Some (4096, s) \<and>
    run_ops (sl_step LOCKFREE 500) [Add 5, Add 3, Add 5, Remove 3, Contains 3, Contains 5] s =
      Some ([True, True, False, True, False, True], s') \<and> sl_set_size 500 s' = Some 1"
proof -
  let ?ps = "[Add 5, Add 3, Add 5, Remove 3, Contains 3, Contains 5]"
  obtain s where s: "sl_set_new (start ring_al) = Some (4096, s)" "sl_rep 320 (al_ok 320 1) 500 s {} 400"
    using start_rep by blast
  have "sl_rep 320 (al_ok 320 1) 500 s {} (6 * length ?ps)"
    by (rule al_rep_less [OF s(2)]) simp
  moreover have "\<forall>p \<in> set ?ps. op_val p < VAL_MAX" by (simp add: VAL_MAX_def)
  ultimately obtain s' where s': "run_ops (sl_step LOCKFREE 500) ?ps s = Some (fst (run_spec ?ps {}), s')"
    "sl_set_size 500 s' = Some (card (snd (run_spec ?ps {})))"
    using sl_lockfree_script [of 320 1 500 s "{}" ?ps] by blast
  have r: "run_spec ?ps {} = ([True, True, False, True, False, True], {5})" by (simp add: insert_Diff_if)
  have "card {5 :: u32} = 1" by simp
  then show ?thesis using s(1) s' unfolding r fst_conv snd_conv by metis
qed

text \<open>
  C13. The three builds agree: on states that stand for the same set, the lock-free, the sequential and
  the transactional operations give the same answers to every script.
\<close>

theorem sl_builds_equivalent:
  assumes "sl_rep ns (mal_ok N) f s K (6 * length ps)" "seq_rep ns (mal_ok N) f t K (length ps)"
    "\<forall>p \<in> set ps. op_val p < VAL_MAX"
  shows "\<exists>bs s' t' u'. run_ops (sl_step LOCKFREE f) ps s = Some (bs, s') \<and>
    run_ops (sl_step SEQUENTIAL f) ps t = Some (bs, t') \<and> run_ops (sl_step STM f) ps t = Some (bs, u')"
  using lf_mal.run [of ns N f s K 0 ps] seq_mal.run [of ns N f t K 0 ps] stm_mal.run [of ns N f t K 0 ps] assms
  by auto

theorem sl_builds_equivalent_witness:
  "\<exists>st s bs s' t' u'. sl_set_new (start mal_al) = Some (st, s) \<and>
    run_ops (sl_step LOCKFREE 500) [Add 7, Remove 7, Remove 7] s = Some (bs, s') \<and>
    run_ops (sl_step SEQUENTIAL 500) [Add 7, Remove 7, Remove 7] s = Some (bs, t') \<and>
    run_ops (sl_step STM 500) [Add 7, Remove 7, Remove 7] s = Some (bs, u')"
proof -
  let ?ps = "[Add 7, Remove 7, Remove 7]"
  obtain s st where s: "sl_set_new (start mal_al) = Some (st, s)" "seq_rep 320 (mal_ok (2 ^ 19)) 500 s {} 400"
    using start_mal by blast
  have q: "seq_rep 320 (mal_ok (2 ^ 19)) 500 s {} (length ?ps)" by (rule malloc.seq_rep_less [OF s(2)]) simp
  have l: "sl_rep 320 (mal_ok (2 ^ 19)) 500 s {} (6 * length ?ps)"
    by (rule malloc.sl_rep_less [OF malloc.seq_rep_sl_rep [OF s(2)]]) simp
  have "\<forall>p \<in> set ?ps. op_val p < VAL_MAX" by (simp add: VAL_MAX_def)
  then show ?thesis using sl_builds_equivalent [OF l q] s(1) by blast
qed

text \<open>
  \<^verbatim>\<open>fraser_remove\<close> with \<^verbatim>\<open>remove_succ\<close> removes the smallest key that is not below the argument, and
  reports whether there was one.
\<close>

theorem sl_remove_succ_first:
  assumes "sl_rep ns (al_ok ns N) f s K (m + 2)" "v \<le> VAL_MAX"
  shows "\<exists>s'. sl_remove_succ f v tr s = Some (\<exists>k \<in> K. v \<le> k, s') \<and>
    sl_rep ns (al_ok ns N) f s' (if \<exists>k \<in> K. v \<le> k then K - {Min {k \<in> K. v \<le> k}} else K) m"
proof -
  let ?r = "first_from K v"
  have "\<exists>s'. fraser_remove f v True s = Some (?r \<noteq> None, s') \<and>
      sl_rep ns (al_ok ns N) f s' (case ?r of None \<Rightarrow> K | Some x \<Rightarrow> K - {x}) m"
    using assms(1) ring.remove_succ_rep [OF _ assms(2), of ns f s K m] malloc.remove_succ_rep [OF _ assms(2), of ns N f s K m]
    unfolding sl_rep_al_ok by blast
  then show ?thesis unfolding sl_remove_succ_def by (cases "\<exists>k \<in> K. v \<le> k") (simp_all add: first_from_def)
qed

theorem sl_remove_succ_first_witness:
  "\<exists>s s'. sl_set_new (start ring_al) = Some (4096, s) \<and> sl_remove_succ 500 9 0 s = Some (False, s')"
proof -
  obtain s where s: "sl_set_new (start ring_al) = Some (4096, s)" "sl_rep 320 (al_ok 320 1) 500 s {} (398 + 2)"
    using start_rep by auto
  show ?thesis using sl_remove_succ_first [OF s(2), of 9 0] s(1) by (auto simp: VAL_MAX_def)
qed

section \<open>The priority queue\<close>

text \<open>
  C14. Filling an empty queue and draining it with the exact delete-min returns the distinct values in
  ascending order.
\<close>

theorem sl_drain_sorted:
  assumes "sl_rep ns (al_ok ns N) f s {} (6 * length vs)" "\<forall>v \<in> set vs. v < VAL_MAX"
  shows "\<exists>x y. fill (pq_ins f) vs (d, s) = Some x \<and>
    drain (pq_del f) (card (set vs)) x = Some (sorted_list_of_set (set vs), y)"
  using assms pq_ring.fill_drain [of ns f "(d, s)" 0 vs] pq_mal.fill_drain [of ns N f "(d, s)" 0 vs]
  unfolding sl_rep_al_ok pq_ring.kept_def pq_mal.kept_def
  by (auto simp: pq_rep_def sorted_list_of_mset_set)

theorem sl_drain_sorted_witness:
  "\<exists>s x y. sl_set_new (start ring_al) = Some (4096, s) \<and> fill (pq_ins 500) [9, 4, 9, 7] (\<lparr>nb_threads = 1, seed2 = 7, nb_collisions = 0, nb_clean = 0\<rparr>, s) = Some x \<and>
    drain (pq_del 500) 3 x = Some ([4, 7, 9], y)"
proof -
  obtain s where s: "sl_set_new (start ring_al) = Some (4096, s)" "sl_rep 320 (al_ok 320 1) 500 s {} 400"
    using start_rep by blast
  have "sl_rep 320 (al_ok 320 1) 500 s {} (6 * length [9, 4, 9, 7 :: u32])"
    by (rule al_rep_less [OF s(2)]) simp
  then have "\<exists>x y. fill (pq_ins 500) [9, 4, 9, 7] (\<lparr>nb_threads = 1, seed2 = 7, nb_collisions = 0, nb_clean = 0\<rparr>, s) = Some x \<and>
      drain (pq_del 500) (card (set [9, 4, 9, 7 :: u32])) x = Some (sorted_list_of_set (set [9, 4, 9, 7 :: u32]), y)"
    by (rule sl_drain_sorted) (simp add: VAL_MAX_def)
  moreover have "sorted_list_of_set (set [9, 4, 9, 7 :: u32]) = [4, 7, 9]" by code_simp
  moreover have "card (set [9, 4, 9, 7 :: u32]) = 3" by code_simp
  ultimately show ?thesis using s(1) by auto
qed



text \<open>
  C39. On an empty set \<^verbatim>\<open>naive_delete_min\<close> claims the tail: it returns 1 although \<^verbatim>\<open>*val\<close> is not
  written, and no later call returns.
\<close>

theorem sl_naive_empty:
  assumes "sl_inv s te Ls" "keys s Ls = {}" "length (Ls 0) < f" "\<not> dead s te" "sl_heap s 0 = None"
  shows "\<exists>s'. naive_delete_min f d s = Some (1, None, d, s') \<and> (\<forall>f' d'. naive_delete_min f' d' s' = None)"
proof -
  obtain s' where s': "naive_delete_min f d s = Some (1, None, d, s')" "sl_inv s' te Ls" "keys s' Ls = {}" "dead s' te"
    "dom (sl_heap s') = dom (sl_heap s)"
    using naive_empty_first [OF assms(1-4)] by blast
  have "sl_heap s' 0 = None" using s'(5) assms(5) by (metis domIff)
  then show ?thesis using s'(1) naive_empty_again [OF s'(2-4)] by blast
qed

theorem sl_naive_empty_witness:
  "\<exists>s s'. sl_set_new (start ring_al) = Some (4096, s) \<and>
    naive_delete_min 500 \<lparr>nb_threads = 1, seed2 = 7, nb_collisions = 0, nb_clean = 0\<rparr> s = Some (1, None, \<lparr>nb_threads = 1, seed2 = 7, nb_collisions = 0, nb_clean = 0\<rparr>, s') \<and>
    naive_delete_min 500 \<lparr>nb_threads = 1, seed2 = 7, nb_collisions = 0, nb_clean = 0\<rparr> s' = None"
proof -
  obtain s te where s: "sl_set_new (start ring_al) = Some (4096, s)" "sl_inv s te (\<lambda>_. [])" "\<not> dead s te" "sl_heap s 0 = None"
    using start_ring by blast
  have k: "keys s (\<lambda>_. []) = {}" by (simp add: keys_def)
  show ?thesis using sl_naive_empty [OF s(2) k _ s(3,4), of 500 "\<lparr>nb_threads = 1, seed2 = 7, nb_collisions = 0, nb_clean = 0\<rparr>"] s(1) by auto
qed

text \<open>
  A key above \<^verbatim>\<open>INT_MAX\<close> is not found, removed or inserted: each of the three operations runs off
  the end of the list and does not return, whatever the fuel.
\<close>

theorem sl_key_range:
  assumes "sl_rep ns (al_ok ns N) f s K 6" "sl_heap s 0 = None" "VAL_MAX < v"
  shows "fraser_find g v s = None \<and> fraser_remove g v b s = None \<and> fraser_insert g v s = None"
  using assms(1) ring.above_range [OF _ assms(2,3)] malloc.above_range [OF _ assms(2,3)]
  unfolding sl_rep_al_ok by blast

theorem sl_key_range_witness:
  "\<exists>s. sl_set_new (start ring_al) = Some (4096, s) \<and> (\<forall>g. fraser_insert g 4000000000 s = None)"
proof -
  obtain s where s: "sl_set_new (start ring_al) = Some (4096, s)" "seq_rep 320 (ring_ok 320) 500 s {} 400" "sl_heap s 0 = None"
    using start_ring by blast
  have "sl_rep 320 (ring_ok 320) 500 s {} 400" by (rule ring.seq_rep_sl_rep [OF s(2)])
  then have "sl_rep 320 (al_ok 320 1) 500 s {} 400" by (simp add: sl_rep_al_ok)
  then have "sl_rep 320 (al_ok 320 1) 500 s {} 6" by (rule al_rep_less) simp
  then show ?thesis using sl_key_range [of 320 1 500 s "{}" 4000000000] s(1,3) by (auto simp: VAL_MAX_def)
qed

section \<open>The allocator\<close>






text \<open>
  The counter of the ring has 8 bits: the 256th block that is given back without one being taken
  empties the ring, so all the blocks in it are lost.
\<close>

theorem ssalloc_wrap_leak:
  assumes "\<not> use_malloc al" "length (free_list al i) = 256" "length (ring_blocks i al) = 255"
  shows "ring_blocks i (ssfree_alloc i p al) = []"
proof -
  have "unat (free_num al i) = 255" using assms(3) by (simp add: ring_blocks_def)
  then have "free_num al i = 255" by (simp add: word_unat_eq_iff)
  then show ?thesis using ring_put [OF assms(1,2) refl] by simp
qed

theorem ssalloc_wrap_leak_witness:
  "ring_blocks 1 (ssfree_alloc 1 4096 (ring_al\<lparr>free_num := (\<lambda>i. 255)\<rparr>)) = []"
  by (rule ssalloc_wrap_leak) (simp_all add: ring_al_def ring_blocks_def)

section \<open>Levels and marks\<close>

text \<open>
  The level of a new node is at least 1, and at most \<^verbatim>\<open>levelmax\<close> exactly when that is not 0.
\<close>

theorem sl_rand_level_range:
  "1 \<le> fst (get_rand_level s) \<and> (fst (get_rand_level s) \<le> levelmax s \<longleftrightarrow> levelmax s \<noteq> 0)"
proof (cases "levelmax s = 0")
  case True
  then show ?thesis by (simp add: get_rand_level_def)
next
  case False
  obtain l s' where "get_rand_level s = (l, s')" by (cases "get_rand_level s")
  then show ?thesis using rand_level_bounds [of s l s'] False by simp
qed

text \<open>
  The test whether the successor of a claimed node is deleted goes through a marked pointer, one
  byte off: unless the successor was claimed 256 times, it reads the lowest byte of the successor's own
  bottom pointer and nothing of its \<^verbatim>\<open>deleted\<close>.
\<close>

theorem sl_cleanup_test:
  assumes "sl_heap s p = Some n" "valid_addr p" "sn_next n = w # ws" "sn_del n < 256"
  shows "sl_del s (set_mark p) = Some (push_bit 56 w)"
proof -
  have "drop_bit 8 (sn_del n) = 0"
  proof -
    have "unat (sn_del n) < 256" using assms(4) by (simp add: word_less_nat_alt)
    then have "unat (drop_bit 8 (sn_del n)) = 0" by (simp add: unat_drop_bit_eq) (simp add: drop_bit_eq_div)
    then show ?thesis by (simp add: word_unat_eq_iff)
  qed
  then show ?thesis using assms(1-3) by (simp add: sl_del_def sl_marks)
qed

theorem sl_cleanup_test_witness:
  "sl_del ((start ring_al)\<lparr>sl_heap := [64 \<mapsto> \<lparr>sn_val = 1, sn_top = 1, sn_del = 1, sn_next = [256]\<rparr>]\<rparr>) (set_mark 64) = Some 0"
proof -
  let ?s = "(start ring_al)\<lparr>sl_heap := [64 \<mapsto> \<lparr>sn_val = 1, sn_top = 1, sn_del = 1, sn_next = [256]\<rparr>]\<rparr>"
  have "sl_del ?s (set_mark 64) = Some (push_bit 56 256)"
    by (rule sl_cleanup_test [of _ _ "\<lparr>sn_val = 1, sn_top = 1, sn_del = 1, sn_next = [256]\<rparr>"])
      (auto intro: valid_addr_64)
  moreover have "push_bit 56 (256 :: u64) = 0" by code_simp
  ultimately show ?thesis by simp
qed

end
