(* ===== verification/Wrappers.thy ===== *)
theory Wrappers
  imports SL_Props Linden_Spec
begin

text \<open>
  The classes that give the queues of the benchmark one interface (\<^verbatim>\<open>src/globallock.cpp\<close>, \<^verbatim>\<open>src/noble.cpp\<close>,
  \<^verbatim>\<open>src/linden.cpp\<close>, \<^verbatim>\<open>src/spraylist.cpp\<close>; \<^verbatim>\<open>src/heap.cpp\<close> is in MSQueue), and the options of
  \<^verbatim>\<open>src/pqbench.cpp\<close> that select one of them.
\<close>

section \<open>GlobalLock\<close>

text \<open>\<^verbatim>\<open>std::priority_queue<uint32_t>\<close>: its top is the largest element. The list holds the elements in descending order.\<close>

fun pq_push :: "u32 \<Rightarrow> u32 list \<Rightarrow> u32 list" where
  "pq_push v [] = [v]"
| "pq_push v (x # xs) = (if v > x then v # x # xs else x # pq_push v xs)"

record globallock =
  m_mutex :: bool
  gl_q :: "u32 list"

definition GlobalLock :: globallock where
  "GlobalLock = \<lparr>m_mutex = False, gl_q = []\<rparr>"

text \<open>\<^verbatim>\<open>std::lock_guard\<close>: takes the mutex, runs the rest of the block, gives it back on every way out.\<close>

definition lock_guard :: "(globallock \<Rightarrow> 'a \<times> globallock) \<Rightarrow> globallock \<Rightarrow> ('a \<times> globallock) option" where
  "lock_guard body g = (if m_mutex g then None
     else let (r, g) = body (g\<lparr>m_mutex := True\<rparr>) in Some (r, g\<lparr>m_mutex := False\<rparr>))"

definition gl_insert :: "u32 \<Rightarrow> globallock \<Rightarrow> (bool \<times> globallock) option" where
  "gl_insert v g = lock_guard (\<lambda>g. (True, g\<lparr>gl_q := pq_push v (gl_q g)\<rparr>)) g"

text \<open>The value that is written to \<^verbatim>\<open>v\<close>; \<open>None\<close> when \<^verbatim>\<open>false\<close> is returned.\<close>

definition gl_delete_min :: "globallock \<Rightarrow> (u32 option \<times> globallock) option" where
  "gl_delete_min g = lock_guard (\<lambda>g. case gl_q g of [] \<Rightarrow> (None, g) | x # xs \<Rightarrow> (Some x, g\<lparr>gl_q := xs\<rparr>)) g"

lemma pq_push_descending: "sorted (rev xs) \<Longrightarrow> sorted (rev (pq_push v xs)) \<and> mset (pq_push v xs) = add_mset v (mset xs)"
  by (induction xs) (auto simp: sorted_append set_mset_mset [symmetric] simp del: set_mset_mset)

lemma gl_fill:
  "\<not> m_mutex g \<Longrightarrow> sorted (rev (gl_q g)) \<Longrightarrow> \<exists>g'. fill gl_insert vs g = Some g' \<and> \<not> m_mutex g' \<and> sorted (rev (gl_q g')) \<and>
    mset (gl_q g') = mset vs + mset (gl_q g)"
proof (induction vs arbitrary: g)
  case (Cons v vs)
  let ?g = "g\<lparr>m_mutex := False, gl_q := pq_push v (gl_q g)\<rparr>"
  have "gl_insert v g = Some (True, ?g)" using Cons.prems(1) by (simp add: gl_insert_def lock_guard_def)
  then show ?case using Cons.IH [of ?g] pq_push_descending [OF Cons.prems(2), of v] by auto
qed auto

lemma gl_drain: "\<not> m_mutex g \<Longrightarrow> drain gl_delete_min (length (gl_q g)) g = Some (gl_q g, g\<lparr>gl_q := []\<rparr>)"
proof (induction "gl_q g" arbitrary: g)
  case Nil
  have "g = g\<lparr>gl_q := []\<rparr>" using Nil by simp
  then show ?case using Nil by simp
next
  case (Cons x xs)
  have d: "gl_delete_min g = Some (Some x, g\<lparr>gl_q := xs\<rparr>)"
    using Cons.prems Cons.hyps(2) [symmetric] by (simp add: gl_delete_min_def lock_guard_def)
  have "xs = gl_q (g\<lparr>gl_q := xs\<rparr>)" "\<not> m_mutex (g\<lparr>gl_q := xs\<rparr>)" using Cons.prems by simp_all
  then have "drain gl_delete_min (length xs) (g\<lparr>gl_q := xs\<rparr>) = Some (xs, g\<lparr>gl_q := []\<rparr>)"
    using Cons.hyps(1) [of "g\<lparr>gl_q := xs\<rparr>"] by simp
  then show ?case using d Cons.hyps(2) [symmetric] by simp
qed

text \<open>
  \<^verbatim>\<open>GlobalLock::delete_min\<close> removes the largest value: filling an empty queue and draining it returns the
  values in descending order, where the other queues return them in ascending order.
\<close>

theorem gl_returns_max:
  "\<exists>g g'. fill gl_insert vs GlobalLock = Some g \<and> drain gl_delete_min (length vs) g = Some (rev (sort vs), g') \<and>
    gl_delete_min g' = Some (None, g')"
proof -
  obtain g where g: "fill gl_insert vs GlobalLock = Some g" "\<not> m_mutex g" "sorted (rev (gl_q g))" "mset (gl_q g) = mset vs"
    using gl_fill [of GlobalLock vs] by (auto simp: GlobalLock_def)
  have "sort vs = rev (gl_q g)" by (rule properties_for_sort) (use g in simp_all)
  then have q: "gl_q g = rev (sort vs)" by simp
  then have "drain gl_delete_min (length vs) g = Some (rev (sort vs), g\<lparr>gl_q := []\<rparr>)"
    using gl_drain [OF g(2)] by simp
  moreover have "gl_delete_min (g\<lparr>gl_q := []\<rparr>) = Some (None, g\<lparr>gl_q := []\<rparr>)"
    using g(2) by (simp add: gl_delete_min_def lock_guard_def)
  ultimately show ?thesis using g(1) by blast
qed

section \<open>Noble\<close>

text \<open>
  The queue of the NOBLE library is not part of the sources: \<open>nIns\<close> and \<open>nDel\<close> are its \<^verbatim>\<open>Insert\<close> and \<^verbatim>\<open>DeleteMin\<close>. A
  pointer into the table \<^verbatim>\<open>m_keys\<close> is its index; \<open>None\<close> as a pointer is NULL.
\<close>

definition K_STRIDE :: u32 where
  "K_STRIDE = push_bit 12 1"

definition K_SIZE :: u32 where
  "K_SIZE = push_bit 20 1"

definition m_keys :: "u32 \<Rightarrow> u32 option" where
  "m_keys i = (if i < K_SIZE then Some (i * K_STRIDE) else None)"

definition noble_insert :: "(u32 \<Rightarrow> u32 \<Rightarrow> 'q \<Rightarrow> 'q) \<Rightarrow> u32 \<Rightarrow> 'q \<Rightarrow> 'q option" where
  "noble_insert nIns v q = (let i = v div K_STRIDE in if i < K_SIZE then Some (nIns i i q) else None)"

definition noble_delete_min :: "('q \<Rightarrow> u32 option \<times> 'q) \<Rightarrow> 'q \<Rightarrow> (bool \<times> u32 option \<times> 'q) option" where
  "noble_delete_min nDel q = (case nDel q of
       (None, q) \<Rightarrow> Some (False, None, q)
     | (Some u, q) \<Rightarrow> (case m_keys u of None \<Rightarrow> None | Some v \<Rightarrow> Some (True, Some v, q)))"

text \<open>The loop of the destructor, for \<open>f\<close> rounds at most.\<close>

fun noble_destroy :: "nat \<Rightarrow> ('q \<Rightarrow> u32 option \<times> 'q) \<Rightarrow> 'q \<Rightarrow> 'q option" where
  "noble_destroy 0 nDel q = None"
| "noble_destroy (Suc f) nDel q = (case noble_delete_min nDel q of
       None \<Rightarrow> None | Some (nonempty, v, q) \<Rightarrow> if nonempty then noble_destroy f nDel q else Some q)"

text \<open>
  What is relied on: \<^verbatim>\<open>DeleteMin\<close> returns a pointer that was inserted and not yet removed, or NULL when there is
  none. \<open>rep q M\<close>: \<open>q\<close> holds the pointers \<open>M\<close>.
\<close>

definition pqueue_contract :: "('q \<Rightarrow> u32 multiset \<Rightarrow> bool) \<Rightarrow> (u32 \<Rightarrow> u32 \<Rightarrow> 'q \<Rightarrow> 'q) \<Rightarrow> ('q \<Rightarrow> u32 option \<times> 'q) \<Rightarrow> bool" where
  "pqueue_contract rep nIns nDel \<longleftrightarrow>
     (\<forall>q M i. rep q M \<longrightarrow> rep (nIns i i q) (add_mset i M)) \<and>
     (\<forall>q M. rep q M \<longrightarrow> (case nDel q of (None, q') \<Rightarrow> M = {#} \<and> rep q' M | (Some u, q') \<Rightarrow> u \<in># M \<and> rep q' (M - {#u#})))"

lemma contract_del:
  "pqueue_contract rep nIns nDel \<Longrightarrow> rep q M \<Longrightarrow>
    (case nDel q of (None, q') \<Rightarrow> M = {#} \<and> rep q' M | (Some u, q') \<Rightarrow> u \<in># M \<and> rep q' (M - {#u#}))"
  unfolding pqueue_contract_def by (elim conjE allE impE)

lemma K_STRIDE_eq: "K_STRIDE = 4096" "K_SIZE = 1048576"
  by (simp_all add: K_STRIDE_def K_SIZE_def)

lemma unat_div_stride: "unat (v div 4096 :: u32) = unat v div 4096"
  by (simp add: unat_div)

lemma stride_less: "(v :: u32) div 4096 < 1048576"
proof -
  have "unat v < 2 ^ 32" using unsigned_less [of v] by simp
  then have "unat v div 4096 < 1048576" by simp
  then show ?thesis by (simp add: word_less_nat_alt unat_div_stride)
qed

text \<open>
  Insertion stays inside the table for every value, and what \<^verbatim>\<open>delete_min\<close> returns is one of the inserted values
  rounded down to a multiple of 4096: the values themselves are lost.
\<close>

theorem noble_rounds:
  assumes "pqueue_contract rep nIns nDel" "rep q (image_mset (\<lambda>v. v div K_STRIDE) M)"
  shows "(\<exists>q'. noble_insert nIns v q = Some q' \<and> rep q' (image_mset (\<lambda>v. v div K_STRIDE) (add_mset v M))) \<and>
    (if M = {#} then \<exists>q'. noble_delete_min nDel q = Some (False, None, q')
     else \<exists>x q'. x \<in># M \<and> noble_delete_min nDel q = Some (True, Some (x - x mod 4096), q') \<and>
       rep q' (image_mset (\<lambda>v. v div K_STRIDE) (M - {#x#})))"
proof
  show "\<exists>q'. noble_insert nIns v q = Some q' \<and> rep q' (image_mset (\<lambda>v. v div K_STRIDE) (add_mset v M))"
    using assms stride_less [of v] by (simp add: noble_insert_def Let_def K_STRIDE_eq pqueue_contract_def)
  have del: "case nDel q of (None, q') \<Rightarrow> image_mset (\<lambda>v. v div K_STRIDE) M = {#} \<and> rep q' (image_mset (\<lambda>v. v div K_STRIDE) M)
      | (Some u, q') \<Rightarrow> u \<in># image_mset (\<lambda>v. v div K_STRIDE) M \<and> rep q' (image_mset (\<lambda>v. v div K_STRIDE) M - {#u#})"
    by (rule contract_del [OF assms])
  obtain r q' where r: "nDel q = (r, q')" by (cases "nDel q")
  show "if M = {#} then \<exists>q'. noble_delete_min nDel q = Some (False, None, q')
     else \<exists>x q'. x \<in># M \<and> noble_delete_min nDel q = Some (True, Some (x - x mod 4096), q') \<and>
       rep q' (image_mset (\<lambda>v. v div K_STRIDE) (M - {#x#}))"
  proof (cases r)
    case None
    then show ?thesis using del r by (simp add: noble_delete_min_def)
  next
    case (Some u)
    then obtain x where x: "x \<in># M" "u = x div K_STRIDE" "rep q' (image_mset (\<lambda>v. v div K_STRIDE) M - {#u#})"
      using del r by auto
    have "u < K_SIZE" using stride_less [of x] by (simp add: x(2) K_STRIDE_eq)
    moreover have "x div 4096 * 4096 = x - x mod 4096" by (metis minus_mod_eq_div_mult)
    ultimately have "noble_delete_min nDel q = Some (True, Some (x - x mod 4096), q')"
      using Some r by (simp add: noble_delete_min_def m_keys_def x(2) K_STRIDE_eq)
    moreover have "image_mset (\<lambda>v. v div K_STRIDE) M - {#u#} = image_mset (\<lambda>v. v div K_STRIDE) (M - {#x#})"
      using x(1,2) by (simp add: image_mset_Diff)
    ultimately show ?thesis using x(1,3) by auto
  qed
qed

theorem noble_rounds_witness:
  "\<exists>q. noble_insert (\<lambda>k p q. p # q) 5000 [] = Some q \<and>
    (\<exists>q'. noble_delete_min (\<lambda>q. case q of [] \<Rightarrow> (None, q) | p # q' \<Rightarrow> (Some p, q')) q = Some (True, Some 4096, q'))"
proof -
  let ?rep = "\<lambda>q M. mset q = M" and ?nIns = "\<lambda>k p q. p # q" and ?nDel = "\<lambda>q. case q of [] \<Rightarrow> (None, q) | p # q' \<Rightarrow> (Some p, q')"
  have c: "pqueue_contract ?rep ?nIns ?nDel" by (auto simp: pqueue_contract_def split: list.splits)
  obtain q where q: "noble_insert ?nIns 5000 [] = Some q" "?rep q (image_mset (\<lambda>v. v div K_STRIDE) {#5000#})"
    using noble_rounds [OF c, of "[]" "{#}" 5000] by auto
  show ?thesis using noble_rounds [OF c q(2), of 0] q(1) by simp
qed

section \<open>Linden\<close>

text \<open>The value is the key; the result of \<^verbatim>\<open>deletemin\<close>, which is 0 when the queue is empty, comes with \<^verbatim>\<open>true\<close>.\<close>

definition linden_insert :: "u32 \<Rightarrow> u32 opcall" where
  "linden_insert v = Op_Insert v v"

definition linden_delete_min :: "u32 \<Rightarrow> bool \<times> u32" where
  "linden_delete_min r = (True, r)"

section \<open>The options of the benchmark\<close>

datatype queue_kind = Use_globallock | Use_heap | Use_linden | Use_noble | Use_spraylist

record bench_opts =
  o_nthreads :: int
  o_secs :: int
  o_init_size :: int
  o_verbose :: bool
  o_type :: "string option"

text \<open>How the start of \<^verbatim>\<open>main\<close> ends.\<close>

datatype outcome = Exit_success | Exit_failure | Assertion | Benchmark bench_opts queue_kind

definition default_opts :: bench_opts where
  "default_opts = \<lparr>o_nthreads = 1, o_secs = 10, o_init_size = 2 ^ 15, o_verbose = False, o_type = None\<rparr>"

text \<open>The options as \<^verbatim>\<open>getopt\<close> hands them out one by one, with \<^verbatim>\<open>optarg\<close>; \<^verbatim>\<open>atoi\<close> is a parameter.\<close>

fun read_opts :: "(string \<Rightarrow> int) \<Rightarrow> (char \<times> string) list \<Rightarrow> bench_opts \<Rightarrow> outcome + bench_opts" where
  "read_opts atoi [] o1 = Inr o1"
| "read_opts atoi ((opt, optarg) # rest) o1 =
     (if opt = CHR ''h'' then Inl Exit_success
      else if opt = CHR ''n'' then read_opts atoi rest (o1\<lparr>o_nthreads := atoi optarg\<rparr>)
      else if opt = CHR ''q'' then read_opts atoi rest (o1\<lparr>o_type := Some optarg\<rparr>)
      else if opt = CHR ''s'' then read_opts atoi rest (o1\<lparr>o_init_size := atoi optarg\<rparr>)
      else if opt = CHR ''t'' then read_opts atoi rest (o1\<lparr>o_secs := atoi optarg\<rparr>)
      else if opt = CHR ''v'' then read_opts atoi rest (o1\<lparr>o_verbose := True\<rparr>)
      else Inl Assertion)"

definition select_queue :: "string option \<Rightarrow> queue_kind option" where
  "select_queue t = (case t of None \<Rightarrow> None | Some s \<Rightarrow>
      if s = ''globallock'' then Some Use_globallock else if s = ''heap'' then Some Use_heap
      else if s = ''linden'' then Some Use_linden else if s = ''noble'' then Some Use_noble
      else if s = ''spraylist'' then Some Use_spraylist else None)"

definition bench_main :: "(string \<Rightarrow> int) \<Rightarrow> (char \<times> string) list \<Rightarrow> outcome" where
  "bench_main atoi opts = (case read_opts atoi opts default_opts of
       Inl r \<Rightarrow> r
     | Inr o1 \<Rightarrow> (case select_queue (o_type o1) of None \<Rightarrow> Exit_failure | Some k \<Rightarrow> Benchmark o1 k))"

text \<open>\<^verbatim>\<open>getopt\<close> is told to accept \<open>-o\<close> with an argument, but no case handles it.\<close>

theorem bench_option_o:
  "bench_main atoi (map (\<lambda>a. (CHR ''n'', a)) as @ (CHR ''o'', a) # rest) = Assertion"
proof -
  have "read_opts atoi (map (\<lambda>a. (CHR ''n'', a)) as @ (CHR ''o'', a) # rest) o1 = Inl Assertion" for o1
    by (induction as arbitrary: o1) simp_all
  then show ?thesis by (simp add: bench_main_def)
qed

end
