(* ===== verification/SprayWrap.thy ===== *)
theory SprayWrap
  imports Wrappers
begin

text \<open>
  The class \<^verbatim>\<open>SprayList\<close> of \<^verbatim>\<open>src/spraylist.cpp\<close>: the skip list of the spraylist in the build of the benchmark (lock-free
  operations, \<^verbatim>\<open>malloc\<close> as the allocator) behind the interface of the other queues.
\<close>

section \<open>The class\<close>

text \<open>
  The object and the variables of the calling thread. \<open>sp_unit_tx\<close> is the field \<^verbatim>\<open>unit_tx\<close> of \<^verbatim>\<open>d\<close>, which the macro
  \<^verbatim>\<open>TRANSACTIONAL\<close> names.
\<close>

record spraylist =
  sp_state :: sl_state
  sp_q :: ptr
  sp_initialized :: bool
  sp_d :: thread_data
  sp_unit_tx :: int




definition spray_destroy :: "nat \<Rightarrow> spraylist \<Rightarrow> sl_state option" where
  "spray_destroy f o1 = sl_set_delete f (sp_q o1) (sp_state o1)"

text \<open>The result of \<^verbatim>\<open>sl_add\<close>, which is returned here, is dropped by \<^verbatim>\<open>SprayList::insert\<close>.\<close>

definition spray_insert :: "nat \<Rightarrow> u32 \<Rightarrow> spraylist \<Rightarrow> (bool \<times> spraylist) option" where
  "spray_insert f v o1 = do {
     (b, s) \<leftarrow> sl_add LOCKFREE f v (sp_unit_tx o1) (sp_state o1);
     Some (b, o1\<lparr>sp_state := s\<rparr>) }"

text \<open>The result: what is returned, and the value that was written to \<^verbatim>\<open>v\<close>, if any.\<close>

definition spray_delete :: "nat \<Rightarrow> spraylist \<Rightarrow> (bool \<times> u32 option \<times> spraylist) option" where
  "spray_delete f o1 = do {
     (ret, v, d, s) \<leftarrow> spray_delete_min f (sp_d o1) (sp_state o1);
     Some (ret = 1, v, o1\<lparr>sp_state := s, sp_d := d\<rparr>) }"

section \<open>One thread\<close>







text \<open>Before the object is made.\<close>

definition no_spraylist :: spraylist where
  "no_spraylist = \<lparr>sp_state = start mal_al, sp_q = 0, sp_initialized = False,
     sp_d = \<lparr>nb_threads = 0, seed2 = 0, nb_collisions = 0, nb_clean = 0\<rparr>, sp_unit_tx = 0\<rparr>"



section \<open>The uninitialised field\<close>

text \<open>
  If \<^verbatim>\<open>unit_tx\<close> happens to be 0, which is what fresh memory often holds, the insertions are those of the
  sequential build: they do not expect the marked pointers that a deletion by the spray leaves behind.
\<close>

lemma dead_blocks_seq_levels:
  assumes inv: "sl_inv s te Ls" and L: "Ls 0 = [x]" and d: "dead s x" and v: "vl s x < v" "v \<le> VAL_MAX"
    and odd: "\<forall>p. is_marked p \<longrightarrow> sl_heap s p = None" and i: "0 < i" "i \<le> levelmax s"
  shows "seq_levels f i v (sl_head s) n P R s = None"
  using i
proof (induction i arbitrary: n P R)
  case 0
  then show ?case by simp
next
  case (Suc i)
  have e: "ends_inv s te" by (rule inv_ends [OF inv])
  have lm: "i < levelmax s" "i < 19" using Suc.prems e by (simp_all add: ends_inv_def)
  have h: "snode s (sl_head s)" "snode s te" "vl s te = VAL_MAX" "\<not> is_marked (nx s (sl_head s) i)" using e lm(1) by (simp_all add: ends_inv_def)
  have lv: "lvl s te i (Ls i)" by (rule inv_lvl [OF inv lm(1)])
  have "unset_mark (nx s (sl_head s) i) = hd (Ls i @ [te])" using lv by (cases "Ls i") (simp_all add: lvl_def)
  then have n0: "nx s (sl_head s) i = hd (Ls i @ [te])" using h(4) by (simp add: sl_marks unmarked_id)
  have sub: "set (Ls i) \<subseteq> {x}" using inv_subset [OF inv le0 lm(1)] L by simp
  show ?case
  proof (cases "x \<in> set (Ls i)")
    case True
    then have hx: "hd (Ls i @ [te]) = x" using sub by (cases "Ls i") auto
    have x: "node_inv s te x" "i < tp s x" using inv_node [OF inv True lm(1)] by simp_all
    then have m: "is_marked (nx s x i)" using d by (simp add: node_inv_def)
    have sx: "snode s x" using x(1) by (simp add: node_inv_def)
    have "sl_val s (nx s x i) = None" using m odd by (simp add: sl_val_def)
    then have "seq_walk g i v x (nx s x i) s = None" for g by (cases g) simp_all
    then have "seq_walk f i v (sl_head s) x s = None" using sx v(1) lm(2) by (cases f) (simp_all add: sl_access)
    then show ?thesis using h(1) lm(2) n0 hx by (simp add: sl_access)
  next
    case False
    then have Li: "Ls i = []" using sub by (cases "Ls i") auto
    then have "i \<noteq> 0" using L by (cases i) auto
    moreover have "\<not> VAL_MAX < v" using v(2) by simp
    then have "seq_walk f i v (sl_head s) te s = None \<or> seq_walk f i v (sl_head s) te s = Some (sl_head s, te)"
      using h(2,3) by (cases f) (simp_all add: sl_access)
    ultimately show ?thesis using Suc.IH lm h(1) n0 Li by (auto simp: sl_access)
  qed
qed

text \<open>A spray that takes the only node: with these seeds it goes one step to the right on the bottom level.\<close>

lemma spray_hit:
  assumes inv: "sl_inv s te Ls" and L: "Ls 0 = [x]" and x: "\<not> dead s x" and lm: "2 < levelmax s"
    and f: "f = Suc (Suc (Suc (Suc g0)))" and d: "nb_threads d = 2" "seed2 d = 113"
  shows "\<exists>d' s'. spray_delete_min f d s = Some (1, Some (vl s x), d', s')"
proof -
  have e: "ends_inv s te" by (rule inv_ends [OF inv])
  have l19: "levelmax s \<le> 19" using e by (simp add: ends_inv_def)
  have h: "snode s (sl_head s)" "snode s te" "valid_addr te" "\<not> is_marked (nx s (sl_head s) 0)" "nx s te 0 = 0"
    using e lm by (auto simp: ends_inv_def)
  have nd: "node_inv s te x" using inv L by (simp add: sl_inv_def)
  then have sx: "snode s x" "valid_addr x" "tp s x \<le> 19" "x \<noteq> sl_head s" using l19 by (auto simp: node_inv_def)
  have "lvl s te 0 [x]" using inv_lvl [OF inv, of 0] lm L by simp
  then have u: "unset_mark (nx s (sl_head s) 0) = x" by (simp add: lvl_def)
  then have n0: "nx s (sl_head s) 0 = x" using h(4) by (simp add: sl_marks unmarked_id)
  have ux: "unset_mark x = x" using u n0 by simp
  have xz: "x \<noteq> 0" "nx s x 0 \<noteq> 0" using sx(2) next_nonzero [OF inv, of x] L by auto
  have m: "marsaglia 113 = 1065715269" "marsaglia 1065715269 = 270692497" "marsaglia 270692497 = 1635932388"
    "marsaglia 1635932388 = 773791888" "SCANHEIGHT 2 = 2" "SCANMAX 2 = 2" "floor_log_2 2 = 1" by code_simp+
  have k: "unat ((270692497 :: u32) mod word_of_int (2 + 1)) = 1" "unat ((1635932388 :: u32) mod word_of_int (2 + 1)) = 0"
    "unat ((773791888 :: u32) mod word_of_int (2 + 1)) = 1" by code_simp+
  have lim: "(2 :: u32) * word_of_int 1 div 2 = 1" by code_simp
  have ds: "dummy_steps 2 1 0 1 = (4, 0)" "dummy_steps 1 1 4 0 = (4, 0)" "dummy_steps 0 1 4 1 = (4, 1)" by code_simp+
  have "step_right (Suc (Suc g)) 0 (sl_head s) 1 s = Some x" for g
    using h(1) n0 xz sx x by (simp add: sl_access ux dead_def)
  then have d0: "spray_descend (Suc (Suc g)) 2 2 0 4 (sl_head s) 1635932388 s = Some (773791888, Some x)" for g
    unfolding spray_descend.simps m(4,7) k lim by (simp only: bind.simps prod.case k ds lim m) (simp add: sx(1) sl_access xz)
  have d1: "spray_descend (Suc (Suc (Suc g))) 2 2 1 4 (sl_head s) 270692497 s = Some (773791888, Some x)" for g
    using d0 [of g] h(1) n0 xz
    by (subst spray_descend.simps) (simp only: bind.simps prod.case k ds lim m SCANINC_def SCANSKIP_def step_right.simps, simp add: sl_access)
  have sp: "spray_descend f 2 2 2 0 (sl_head s) 1065715269 s = Some (773791888, Some x)"
    using d1 [of g0] h(1) n0 xz unfolding f
    by (subst spray_descend.simps) (simp only: bind.simps prod.case k ds lim m SCANINC_def SCANSKIP_def step_right.simps, simp add: sl_access)
  have sk: "skip_deleted f x s = Some x" using sx x by (simp add: f sl_access dead_def)
  obtain s1 s2 where s2: "fetch_inc_del s x = Some (0, s1)" "mark_node_ptrs f x s1 = Some s2"
    using kill_node [OF sx(1) x sx(3), of f] f by auto
  have s1e: "snode s1 x" "vl s1 x = vl s x"
    using s2(1) sx(1) by (auto simp: fetch_inc_del_def snode_def vl_def Option.bind_eq_Some_conv)
  show ?thesis
    using d m(1,5,6) sp sk sx xz s2 s1e x by (simp add: spray_delete_min_def sl_access dead_def)
qed

text \<open>
  C33. A thread of several sprays the only key off the list; the node stays linked. If \<^verbatim>\<open>unit_tx\<close> is 0 the next
  insertion of a larger key follows the marked pointer and reads the fields of a node one byte off its start
  (where the model has no object), otherwise it succeeds.
\<close>

theorem spraylist_unit_tx:
  assumes rep: "seq_rep ns (mal_ok N) f (sp_state o1) {w} m" "18 \<le> m"
    and odd: "\<forall>p. is_marked p \<longrightarrow> sl_heap (sp_state o1) p = None"
    and n: "nb_threads (sp_d o1) \<noteq> 1" "marsaglia (seed2 (sp_d o1)) mod nb_threads (sp_d o1) \<noteq> 0"
      "0 \<le> SCANHEIGHT (nb_threads (sp_d o1))" "nat (SCANHEIGHT (nb_threads (sp_d o1))) < levelmax (sp_state o1)"
    and del: "spray_delete f o1 = Some (True, r, o2)" and v: "w < v" "v < VAL_MAX"
  shows "r = Some w \<and> (if sp_unit_tx o1 = 0 then spray_insert f v o2 = None else \<exists>o3. spray_insert f v o2 = Some (True, o3))"
proof -
  let ?s = "sp_state o1"
  obtain te Ls L where r: "sl_inv ?s te Ls" "alive ?s Ls" "keys ?s Ls = {w}" "{sl_head ?s, te} \<union> set (Ls 0) \<subseteq> L"
    "mal_ok N (sl_al ?s) L m" "node_bytes (levelmax ?s) = ns" "length (Ls 0) + m + 2 < f"
    using rep(1) by (auto simp: seq_rep_def)
  have len: "length (Ls 0) + 20 < f" using r(7) rep(2) by simp
  obtain y d' s' where y: "spray_delete_min f (sp_d o1) ?s = Some (1, Some (vl ?s y), d', s')" "y \<in> set (Ls 0)" "\<not> dead ?s y" "killed y ?s s'"
    using spray_core [OF r(1) len n] del by (auto simp: spray_delete_def)
  have o2: "o2 = o1\<lparr>sp_state := s', sp_d := d'\<rparr>" "r = Some (vl ?s y)" using del y(1) by (simp_all add: spray_delete_def)
  have al: "\<forall>p \<in> set (Ls 0). \<not> dead ?s p" using r(2) by (simp add: alive_def)
  then have k: "vl ?s ` set (Ls 0) = {w}" using r(3) by (auto simp: keys_def)
  have "sorted_wrt (\<lambda>p q. vl ?s p < vl ?s q) (Ls 0)" using r(1) by (simp add: sl_inv_def lvl_def ends_inv_def)
  then have one: "Ls 0 = [y]"
    using k y(2) by (cases "Ls 0" rule: remdups_adj.cases) auto
  have w: "vl ?s y = w" using k one by simp
  note K = kill_inv [OF r(1) y(2,4)]
  have kk: "vl s' = vl ?s" "dead s' y" "levelmax s' = levelmax ?s" "sl_al s' = sl_al ?s" "sl_head s' = sl_head ?s" "dom (sl_heap s') = dom (sl_heap ?s)"
    using y(4) by (simp_all add: killed_def)
  have "spray_insert f v o2 = None" if "sp_unit_tx o1 = 0"
  proof -
    have lm: "0 < levelmax s'" "sl_top s' (sl_head s') = Some (levelmax s')" using inv_ends [OF K(1)] by (auto simp: ends_inv_def sl_access)
    have odd': "\<forall>p. is_marked p \<longrightarrow> sl_heap s' p = None" using odd kk(6) by (metis domIff)
    have "seq_levels f (levelmax s') v (sl_head s') 0 [] [] s' = None"
      by (rule dead_blocks_seq_levels [OF K(1) one kk(2) _ _ odd' lm(1)]) (use w v kk in simp_all)
    then have "sl_seq_add f v s' = None" using lm(2) by (simp add: sl_seq_add_def)
    then show ?thesis using that by (simp add: o2 spray_insert_def sl_add_def)
  qed
  moreover have "\<exists>o3. spray_insert f v o2 = Some (True, o3)" if "sp_unit_tx o1 \<noteq> 0"
  proof -
    have "mal_ok N (sl_al s') L m" "node_bytes (levelmax s') = ns" "length (Ls 0) + m + 2 < f" "{sl_head s', te} \<union> set (Ls 0) \<subseteq> L"
      using r(4-7) kk by simp_all
    moreover have "keys s' Ls = {}" using K(2) r(3) w by simp
    ultimately have "sl_rep ns (mal_ok N) f s' {} m"
      unfolding sl_rep_def using K(1) by (intro exI [of _ te] exI [of _ Ls] exI [of _ L] conjI) simp_all
    then have "sl_rep ns (mal_ok N) f s' {} (0 + 6)" by (rule malloc.sl_rep_less) (use rep(2) in simp)
    then obtain s'' where "fraser_insert f v s' = Some (True, s'')" using malloc.insert_rep [of ns N f s' "{}" 0 v] v(2) by auto
    then show ?thesis using that by (simp add: o2 spray_insert_def sl_add_def)
  qed
  ultimately show ?thesis using o2(2) w by simp
qed


text \<open>A list with the one key 5 on the bottom level, in a thread that believes to be one of two.\<close>

definition one_key :: sl_state where
  "one_key = \<lparr>sl_heap = [64 \<mapsto> \<lparr>sn_val = VAL_MIN, sn_top = 15, sn_del = 0, sn_next = 192 # replicate 18 128\<rparr>,
       128 \<mapsto> \<lparr>sn_val = VAL_MAX, sn_top = 15, sn_del = 0, sn_next = replicate 19 0\<rparr>,
       192 \<mapsto> \<lparr>sn_val = 5, sn_top = 1, sn_del = 0, sn_next = replicate 19 128\<rparr>],
     sl_junk = (\<lambda>a. replicate 19 0), sl_head = 64, levelmax = 15, sl_seeds = (1, 2, 3),
     sl_al = mal_al\<lparr>mal_hist := [Malloc 320 64, Malloc 320 128, Malloc 320 192]\<rparr>\<rparr>"

lemma valid_64: "valid_addr 64" "valid_addr 128" "valid_addr 192"
  by (simp_all add: valid_addr_def is_marked_ref_def)

lemma one_key_reads:
  "snode one_key p \<longleftrightarrow> p = 64 \<or> p = 128 \<or> p = 192" "vl one_key 128 = VAL_MAX" "vl one_key 192 = 5" "tp one_key 64 = 15" "tp one_key 192 = 1"
  "\<not> dead one_key 192" "i < 19 \<Longrightarrow> nx one_key 64 i = (if i = 0 then 192 else 128)" "i < 19 \<Longrightarrow> nx one_key 128 i = 0"
  "i < 19 \<Longrightarrow> nx one_key 192 i = 128"
  by (auto simp: one_key_def snode_def vl_def tp_def dead_def nx_def nth_Cons')

lemma one_key_inv: "sl_inv one_key 128 (\<lambda>i. if i = 0 then [192] else [])"
proof -
  have g: "sl_head one_key = 64" "levelmax one_key = 15" by (simp_all add: one_key_def)
  have len: "sl_heap one_key p = Some n \<longrightarrow> length (sn_next n) = 19" "length (sl_junk one_key p) = 19" for p n
    by (auto simp: one_key_def)
  have mk: "\<not> is_marked 128" "\<not> is_marked 192" "\<not> is_marked 64" by (simp_all add: is_marked_def)
  have "ends_inv one_key 128"
    unfolding ends_inv_def g using len mk valid_64 by (auto simp: one_key_reads)
  moreover have "node_inv one_key 128 192"
    using mk valid_64 by (simp add: node_inv_def one_key_reads g VAL_MAX_def)
  moreover have "lvl one_key 128 i (if i = 0 then [192] else [])" if "i < 15" for i
    using that by (simp add: lvl_def one_key_reads g unset_mark_def)
  ultimately show ?thesis by (simp add: sl_inv_def g)
qed

lemma one_key_rep: "seq_rep 320 (mal_ok (2 ^ 19)) 500 one_key {5} 100"
  unfolding seq_rep_def
proof (intro exI conjI)
  show "sl_inv one_key 128 (\<lambda>i. if i = 0 then [192] else [])" by (rule one_key_inv)
  show "mal_ok (2 ^ 19) (sl_al one_key) {64, 128, 192} 100"
    using first_free_ok by (simp add: mal_ok_def one_key_def mal_al_def ring_al_def)
  show "node_bytes (levelmax one_key) = 320" by (simp add: one_key_def node_bytes_15)
  show "keys one_key (\<lambda>i. if i = 0 then [192] else []) = {5}" by (auto simp: keys_def one_key_reads)
  show "alive one_key (\<lambda>i. if i = 0 then [192] else [])" by (simp add: alive_def one_key_reads)
  show "{sl_head one_key, 128} \<union> set (if (0::nat) = 0 then [192] else []) \<subseteq> {64, 128, 192}" by (simp add: one_key_def)
qed simp

definition two_threads :: "int \<Rightarrow> spraylist" where
  "two_threads tx = no_spraylist\<lparr>sp_state := one_key, sp_initialized := True,
     sp_d := \<lparr>nb_threads = 2, seed2 = 113, nb_collisions = 0, nb_clean = 0\<rparr>, sp_unit_tx := tx\<rparr>"

theorem spraylist_unit_tx_witness:
  "\<exists>o2. spray_delete 500 (two_threads 0) = Some (True, Some 5, o2) \<and> spray_insert 500 7 o2 = None"
proof -
  have "\<exists>d' s'. spray_delete_min 500 (sp_d (two_threads 0)) one_key = Some (1, Some (vl one_key 192), d', s')"
    by (rule spray_hit [OF one_key_inv, where ?g0.0 = 496])
      (simp_all add: one_key_reads two_threads_def, simp_all add: one_key_def)
  then obtain o2 r where del: "spray_delete 500 (two_threads 0) = Some (True, r, o2)"
    by (auto simp: spray_delete_def two_threads_def)
  have t: "sp_state (two_threads 0) = one_key" "nb_threads (sp_d (two_threads 0)) = 2" "seed2 (sp_d (two_threads 0)) = 113"
    "sp_unit_tx (two_threads 0) = 0" by (simp_all add: two_threads_def)
  have m: "marsaglia 113 mod 2 \<noteq> 0" "SCANHEIGHT 2 = 2" by code_simp+
  have odd: "\<forall>p. is_marked p \<longrightarrow> sl_heap one_key p = None" by (auto simp: one_key_def is_marked_def)
  have lm: "levelmax one_key = 15" by (simp add: one_key_def)
  have rep: "seq_rep 320 (mal_ok (2 ^ 19)) 500 (sp_state (two_threads 0)) {5} 100" using one_key_rep by (simp add: t)
  have "r = Some 5 \<and> (if sp_unit_tx (two_threads 0) = 0 then spray_insert 500 7 o2 = None else \<exists>o3. spray_insert 500 7 o2 = Some (True, o3))"
    by (rule spraylist_unit_tx [OF rep _ _ _ _ _ _ del]) (simp_all add: t m odd lm VAL_MAX_def)
  then show ?thesis using del t(4) by auto
qed

end
