(* ===== verification/Barrier.thy ===== *)
theory Barrier
  imports Threads
begin

text \<open>
  The barrier of \<^verbatim>\<open>lib/spraylist/test.c\<close>: a mutex, a condition variable and two counters. Any number of
  threads call \<^verbatim>\<open>barrier_cross\<close> at the same time.
\<close>

section \<open>The code\<close>

text \<open>
  Where a thread is: before the mutex, at the increment, at the test, inside \<^verbatim>\<open>pthread_cond_wait\<close>, woken up and
  about to take the mutex again, at the broadcast, at the reset, at the unlock, through.
\<close>

datatype bar_pc = B_Start | B_Incr | B_Test | B_Wait | B_Woken | B_Broadcast | B_Reset | B_Unlock | B_Through

record barrier =
  b_count :: int
  b_crossing :: int
  b_mutex :: bool
  b_pc :: "nat \<Rightarrow> bar_pc"

definition barrier_init :: "int \<Rightarrow> barrier" where
  "barrier_init n = \<lparr>b_count = n, b_crossing = 0, b_mutex = False, b_pc = (\<lambda>_. B_Start)\<rparr>"

definition bar_goto :: "nat \<Rightarrow> bar_pc \<Rightarrow> barrier \<Rightarrow> barrier" where
  "bar_goto t p b = b\<lparr>b_pc := (b_pc b)(t := p)\<rparr>"

text \<open>
  The steps of thread \<open>t\<close>. Waiting releases the mutex in the same step; the broadcast wakes every thread that waits.
\<close>

definition barrier_cross :: "nat \<Rightarrow> barrier \<Rightarrow> barrier option" where
  "barrier_cross t b = (case b_pc b t of
      B_Start \<Rightarrow> if b_mutex b then None else Some (bar_goto t B_Incr (b\<lparr>b_mutex := True\<rparr>))
    | B_Incr \<Rightarrow> Some (bar_goto t B_Test (b\<lparr>b_crossing := b_crossing b + 1\<rparr>))
    | B_Test \<Rightarrow>
        if b_crossing b < b_count b then Some (bar_goto t B_Wait (b\<lparr>b_mutex := False\<rparr>))
        else Some (bar_goto t B_Broadcast b)
    | B_Wait \<Rightarrow> None
    | B_Woken \<Rightarrow> if b_mutex b then None else Some (bar_goto t B_Unlock (b\<lparr>b_mutex := True\<rparr>))
    | B_Broadcast \<Rightarrow> Some (b\<lparr>b_pc := (\<lambda>u. if u = t then B_Reset else if b_pc b u = B_Wait then B_Woken else b_pc b u)\<rparr>)
    | B_Reset \<Rightarrow> Some (bar_goto t B_Unlock (b\<lparr>b_crossing := 0\<rparr>))
    | B_Unlock \<Rightarrow> Some (bar_goto t B_Through (b\<lparr>b_mutex := False\<rparr>))
    | B_Through \<Rightarrow> None)"

text \<open>
  A thread takes a step, or wakes up without a broadcast, which \<^verbatim>\<open>pthread_cond_wait\<close> is allowed to do;
  \<open>spurious\<close> says whether it does.
\<close>

datatype bar_event = Go nat | Wake nat

fun bar_step :: "nat \<Rightarrow> bool \<Rightarrow> bar_event \<Rightarrow> barrier \<Rightarrow> barrier option" where
  "bar_step n spurious (Go t) b = (if t < n then barrier_cross t b else None)"
| "bar_step n spurious (Wake t) b =
     (if spurious \<and> t < n \<and> b_pc b t = B_Wait then Some (bar_goto t B_Woken b) else None)"

section \<open>The invariant\<close>

text \<open>The threads that hold the mutex, and those that were counted.\<close>

fun inside :: "bar_pc \<Rightarrow> bool" where
  "inside B_Start = False"
| "inside B_Wait = False"
| "inside B_Woken = False"
| "inside B_Through = False"
| "inside _ = True"

fun arrived :: "bar_pc \<Rightarrow> bool" where
  "arrived B_Start = False"
| "arrived B_Incr = False"
| "arrived _ = True"

fun past :: "bar_pc \<Rightarrow> bool" where
  "past B_Start = False"
| "past B_Incr = False"
| "past B_Test = False"
| "past B_Wait = False"
| "past B_Broadcast = False"
| "past _ = True"

definition arrivals :: "nat \<Rightarrow> barrier \<Rightarrow> nat set" where
  "arrivals n b = {t. t < n \<and> arrived (b_pc b t)}"

text \<open>The mutex has one holder when it is taken and none when it is free.\<close>

definition locked :: "nat \<Rightarrow> barrier \<Rightarrow> bool" where
  "locked n b \<longleftrightarrow> (\<forall>t < n. inside (b_pc b t) \<longrightarrow> b_mutex b) \<and> (b_mutex b \<longrightarrow> (\<exists>t < n. inside (b_pc b t))) \<and>
     (\<forall>t < n. \<forall>u < n. inside (b_pc b t) \<longrightarrow> inside (b_pc b u) \<longrightarrow> t = u)"

text \<open>The three phases: threads gather; the last one is about to wake the others; all are past the wait.\<close>

definition gathering :: "nat \<Rightarrow> barrier \<Rightarrow> bool" where
  "gathering n b \<longleftrightarrow> (\<forall>t < n. b_pc b t \<in> {B_Start, B_Incr, B_Test, B_Wait}) \<and>
     b_crossing b = int (card (arrivals n b)) \<and> (card (arrivals n b) = n \<longrightarrow> 0 < n \<longrightarrow> (\<exists>t < n. b_pc b t = B_Test))"

definition last_one :: "nat \<Rightarrow> barrier \<Rightarrow> bool" where
  "last_one n b \<longleftrightarrow> (\<exists>u < n. b_pc b u = B_Broadcast \<and> (\<forall>t < n. t \<noteq> u \<longrightarrow> b_pc b t = B_Wait))"

definition all_past :: "nat \<Rightarrow> barrier \<Rightarrow> bool" where
  "all_past n b \<longleftrightarrow> (\<forall>t < n. past (b_pc b t)) \<and> ((\<forall>t < n. b_pc b t \<noteq> B_Reset) \<longrightarrow> b_crossing b = 0)"

definition bar_inv :: "nat \<Rightarrow> barrier \<Rightarrow> bool" where
  "bar_inv n b \<longleftrightarrow> b_count b = int n \<and> locked n b \<and> (gathering n b \<or> last_one n b \<or> all_past n b)"

lemma arrivals_finite [simp]: "finite (arrivals n b)" by (simp add: arrivals_def)

lemma arrivals_le: "card (arrivals n b) \<le> n"
  using card_mono [of "{..<n}" "arrivals n b"] by (auto simp: arrivals_def)

lemma arrivals_all: "card (arrivals n b) = n \<Longrightarrow> t < n \<Longrightarrow> arrived (b_pc b t)"
  using card_subset_eq [of "{..<n}" "arrivals n b"] by (auto simp: arrivals_def)

lemma arrivals_some: "\<not> arrived (b_pc b t) \<Longrightarrow> t < n \<Longrightarrow> card (arrivals n b) < n"
  using arrivals_all [of n b t] arrivals_le [of n b] by linarith

lemma arrivals_same: "\<forall>t < n. arrived (b_pc b' t) = arrived (b_pc b t) \<Longrightarrow> arrivals n b' = arrivals n b"
  by (auto simp: arrivals_def)

lemma arrivals_more:
  assumes "t < n" "\<not> arrived (b_pc b t)" "arrived p" "b_pc b' = b_pc b"
  shows "card (arrivals n (bar_goto t p b')) = card (arrivals n b) + 1"
proof -
  have "arrivals n (bar_goto t p b') = insert t (arrivals n b)" using assms by (auto simp: arrivals_def bar_goto_def)
  moreover have "t \<notin> arrivals n b" using assms by (simp add: arrivals_def)
  ultimately show ?thesis by simp
qed

text \<open>One thread moves: how the holder of the mutex changes.\<close>

lemma locked_stay:
  assumes "locked n b" "t < n" "inside p = inside (b_pc b t)" "b_mutex b' = b_mutex b" "b_pc b' = b_pc b"
  shows "locked n (bar_goto t p b')"
  using assms by (auto simp: locked_def bar_goto_def)

lemma locked_take:
  assumes "locked n b" "t < n" "\<not> b_mutex b" "inside p"
  shows "locked n (bar_goto t p (b\<lparr>b_mutex := True\<rparr>))"
  using assms by (auto simp: locked_def bar_goto_def)

lemma locked_free:
  assumes "locked n b" "t < n" "inside (b_pc b t)" "\<not> inside p"
  shows "locked n (bar_goto t p (b\<lparr>b_mutex := False\<rparr>))"
  using assms by (auto simp: locked_def bar_goto_def)

lemma all_past_goto:
  assumes "all_past n b" "b_pc b t \<noteq> B_Reset" "past p" "b_crossing b' = b_crossing b" "b_pc b' = b_pc b"
  shows "all_past n (bar_goto t p b')"
proof -
  have "\<forall>u < n. b_pc b u \<noteq> B_Reset" if "\<forall>u < n. ((b_pc b)(t := p)) u \<noteq> B_Reset"
    using that assms(2) by (metis fun_upd_other)
  then show ?thesis using assms by (auto simp: all_past_def bar_goto_def)
qed

lemma bar_inv_step:
  assumes inv: "bar_inv n b" and st: "bar_step n False e b = Some b'"
  shows "bar_inv n b'"
proof -
  obtain t where e: "e = Go t" and t: "t < n" and c: "barrier_cross t b = Some b'"
    using st by (cases e) (auto split: if_splits)
  have l: "locked n b" and cnt: "b_count b = int n" using inv by (simp_all add: bar_inv_def)
  consider (g) "gathering n b" | (o) "last_one n b" | (p) "all_past n b" using inv by (auto simp: bar_inv_def)
  then show ?thesis
  proof cases
    case g
    then have pcs: "b_pc b u \<in> {B_Start, B_Incr, B_Test, B_Wait}" if "u < n" for u using that by (simp add: gathering_def)
    have cr: "b_crossing b = int (card (arrivals n b))" using g by (simp add: gathering_def)
    consider "b_pc b t = B_Start" | "b_pc b t = B_Incr" | "b_pc b t = B_Test" using pcs [OF t] c by (auto simp: barrier_cross_def)
    then show ?thesis
    proof cases
      case 1
      then have b': "b' = bar_goto t B_Incr (b\<lparr>b_mutex := True\<rparr>)" "\<not> b_mutex b" using c by (auto simp: barrier_cross_def split: if_splits)
      have s: "arrivals n b' = arrivals n b" by (rule arrivals_same) (use 1 in \<open>auto simp: b' bar_goto_def\<close>)
      have "card (arrivals n b) < n" by (rule arrivals_some [OF _ t]) (simp add: 1)
      then have "gathering n b'" unfolding gathering_def s using pcs cr by (auto simp: b' bar_goto_def)
      then show ?thesis using locked_take [OF l t b'(2), of B_Incr] cnt by (simp add: bar_inv_def b'(1)) (simp add: bar_goto_def)
    next
      case 2
      then have b': "b' = bar_goto t B_Test (b\<lparr>b_crossing := b_crossing b + 1\<rparr>)" using c by (auto simp: barrier_cross_def)
      have s: "card (arrivals n b') = card (arrivals n b) + 1" unfolding b' by (rule arrivals_more [OF t]) (simp_all add: 2)
      have "gathering n b'" unfolding gathering_def s using pcs cr t by (auto simp: b' bar_goto_def)
      moreover have "locked n b'" unfolding b' by (rule locked_stay [OF l t]) (simp_all add: 2)
      ultimately show ?thesis using cnt by (simp add: bar_inv_def) (simp add: b' bar_goto_def)
    next
      case 3
      show ?thesis
      proof (cases "b_crossing b < b_count b")
        case True
        then have b': "b' = bar_goto t B_Wait (b\<lparr>b_mutex := False\<rparr>)" using c 3 by (auto simp: barrier_cross_def)
        have s: "arrivals n b' = arrivals n b" by (rule arrivals_same) (use 3 in \<open>auto simp: b' bar_goto_def\<close>)
        have "card (arrivals n b) < n" using True cr cnt by simp
        then have "gathering n b'" unfolding gathering_def s using pcs cr by (auto simp: b' bar_goto_def)
        then show ?thesis using locked_free [OF l t, of B_Wait] 3 cnt by (simp add: bar_inv_def b'(1)) (simp add: bar_goto_def)
      next
        case False
        then have b': "b' = bar_goto t B_Broadcast b" using c 3 by (auto simp: barrier_cross_def)
        have "card (arrivals n b) = n" using False cr cnt arrivals_le [of n b] by simp
        then have "arrived (b_pc b u)" if "u < n" for u using arrivals_all that by blast
        moreover have "b_pc b u \<noteq> B_Test" if "u < n" "u \<noteq> t" for u using l t that 3 by (auto simp: locked_def)
        ultimately have "b_pc b u = B_Wait" if "u < n" "u \<noteq> t" for u using pcs [OF that(1)] that by fastforce
        then have "last_one n b'" unfolding last_one_def using t by (intro exI [of _ t]) (auto simp: b' bar_goto_def)
        moreover have "locked n b'" unfolding b' by (rule locked_stay [OF l t]) (simp_all add: 3)
        ultimately show ?thesis using cnt by (simp add: bar_inv_def) (simp add: b' bar_goto_def)
      qed
    qed
  next
    case o
    then obtain u where u: "u < n" "b_pc b u = B_Broadcast" "\<forall>t < n. t \<noteq> u \<longrightarrow> b_pc b t = B_Wait" by (auto simp: last_one_def)
    have tu: "t = u" using c u(3) t by (force simp: barrier_cross_def)
    have b': "b' = b\<lparr>b_pc := (\<lambda>v. if v = t then B_Reset else if b_pc b v = B_Wait then B_Woken else b_pc b v)\<rparr>"
      using c u(2) tu by (simp add: barrier_cross_def)
    have pc': "b_pc b' v = (if v = t then B_Reset else B_Woken)" if "v < n" for v using u(3) tu that by (simp add: b')
    have m: "b_mutex b'" using l u(1,2) by (auto simp: locked_def b')
    have "all_past n b'" unfolding all_past_def using pc' t by auto
    moreover have "locked n b'" unfolding locked_def using pc' m t by (auto split: if_splits)
    ultimately show ?thesis using cnt by (simp add: bar_inv_def) (simp add: b')
  next
    case p
    then have pt: "past (b_pc b t)" using t by (simp add: all_past_def)
    have "all_past n b' \<and> locked n b' \<and> b_count b' = b_count b"
    proof (cases "b_pc b t")
      case B_Woken
      then have "b' = bar_goto t B_Unlock (b\<lparr>b_mutex := True\<rparr>)" "\<not> b_mutex b" using c by (auto simp: barrier_cross_def split: if_splits)
      then show ?thesis using locked_take [OF l t, of B_Unlock] all_past_goto [OF p, of t B_Unlock] B_Woken
        by (simp add: bar_goto_def)
    next
      case B_Reset
      then have b': "b' = bar_goto t B_Unlock (b\<lparr>b_crossing := 0\<rparr>)" using c by (simp add: barrier_cross_def)
      have "locked n b'" unfolding b' by (rule locked_stay [OF l t]) (simp_all add: B_Reset)
      moreover have "all_past n b'" unfolding all_past_def using p by (auto simp: all_past_def bar_goto_def b')
      ultimately show ?thesis by (simp add: b' bar_goto_def)
    next
      case B_Unlock
      then have "b' = bar_goto t B_Through (b\<lparr>b_mutex := False\<rparr>)" using c by (simp add: barrier_cross_def)
      then show ?thesis using locked_free [OF l t, of B_Through] all_past_goto [OF p, of t B_Through] B_Unlock
        by (simp add: bar_goto_def)
    qed (use pt c in \<open>simp_all add: barrier_cross_def\<close>)
    then show ?thesis using cnt by (simp add: bar_inv_def)
  qed
qed

lemma bar_inv_init: "bar_inv n (barrier_init (int n))"
  by (simp add: bar_inv_def barrier_init_def locked_def gathering_def arrivals_def)

interpretation bar: machine "bar_step n False" "barrier_init (int n)" "bar_inv n"
  by unfold_locales (rule bar_inv_init, rule bar_inv_step)

section \<open>The properties\<close>

text \<open>
  C25. Without spurious wake-ups, no thread gets through before all have called in.
\<close>

theorem barrier_holds:
  assumes "runs (bar_step n False) (barrier_init (int n)) b" "t < n" "b_pc b t = B_Through" "u < n"
  shows "arrived (b_pc b u)"
proof -
  have "bar_inv n b" by (rule bar.reachable [OF assms(1)])
  moreover have "\<not> gathering n b" "\<not> last_one n b" using assms(2,3) by (force simp: gathering_def last_one_def)+
  ultimately have "past (b_pc b u)" using assms(4) by (simp add: bar_inv_def all_past_def)
  then show ?thesis by (cases "b_pc b u") simp_all
qed

text \<open>Every step brings the threads nearer to the end.\<close>

fun bar_rank :: "bar_pc \<Rightarrow> nat" where
  "bar_rank B_Start = 8"
| "bar_rank B_Incr = 7"
| "bar_rank B_Test = 6"
| "bar_rank B_Wait = 5"
| "bar_rank B_Broadcast = 4"
| "bar_rank B_Woken = 3"
| "bar_rank B_Reset = 2"
| "bar_rank B_Unlock = 1"
| "bar_rank B_Through = 0"

definition bar_left :: "nat \<Rightarrow> barrier \<Rightarrow> nat" where
  "bar_left n b = (\<Sum>t < n. bar_rank (b_pc b t))"

lemma bar_left_less:
  assumes "t < n" "bar_rank (b_pc b' t) < bar_rank (b_pc b t)" "\<forall>u < n. bar_rank (b_pc b' u) \<le> bar_rank (b_pc b u)"
  shows "bar_left n b' < bar_left n b"
  unfolding bar_left_def by (rule sum_strict_mono_ex1) (use assms in auto)

lemma barrier_cross_left:
  assumes c: "barrier_cross t b = Some b'" and t: "t < n"
  shows "bar_left n b' < bar_left n b"
  by (rule bar_left_less [OF t])
    (use c in \<open>auto simp: barrier_cross_def bar_goto_def split: bar_pc.splits if_splits\<close>)

lemma barrier_enabled:
  assumes inv: "bar_inv n b" and some: "\<exists>t < n. b_pc b t \<noteq> B_Through"
  shows "\<exists>t < n. barrier_cross t b \<noteq> None"
proof (cases "b_mutex b")
  case True
  then obtain t where "t < n" "inside (b_pc b t)" using inv by (auto simp: bar_inv_def locked_def)
  then have "barrier_cross t b \<noteq> None" by (auto simp: barrier_cross_def split: bar_pc.splits)
  then show ?thesis using \<open>t < n\<close> by blast
next
  case False
  have free: "\<not> inside (b_pc b t)" if "t < n" for t using inv False that by (auto simp: bar_inv_def locked_def)
  have "\<exists>t < n. b_pc b t = B_Start \<or> b_pc b t = B_Woken"
  proof (rule ccontr)
    assume no: "\<not> ?thesis"
    then have w: "b_pc b t = B_Wait \<or> b_pc b t = B_Through" if "t < n" for t using free [OF that] that by (cases "b_pc b t") auto
    then have "\<not> last_one n b" by (force simp: last_one_def)
    moreover have "\<not> gathering n b"
    proof
      assume g: "gathering n b"
      then have "b_pc b t = B_Wait" if "t < n" for t using w [OF that] that by (auto simp: gathering_def)
      then have "arrivals n b = {..<n}" by (auto simp: arrivals_def)
      then obtain t where "t < n" "b_pc b t = B_Test" using g some by (auto simp: gathering_def)
      then show False using w by fastforce
    qed
    moreover have "\<not> all_past n b" using some w by (force simp: all_past_def)
    ultimately show False using inv by (simp add: bar_inv_def)
  qed
  then show ?thesis using False by (auto simp: barrier_cross_def)
qed

lemma bar_left_0: "bar_left n b = 0 \<longleftrightarrow> (\<forall>t < n. b_pc b t = B_Through)"
proof -
  have "bar_rank p = 0 \<longleftrightarrow> p = B_Through" for p by (cases p) simp_all
  then show ?thesis by (auto simp: bar_left_def)
qed

lemma bar_finish:
  "bar_inv n b \<Longrightarrow> \<exists>b'. runs (bar_step n False) b b' \<and> (\<forall>t < n. b_pc b' t = B_Through)"
proof (induction "bar_left n b" arbitrary: b rule: less_induct)
  case less
  show ?case
  proof (cases "\<forall>t < n. b_pc b t = B_Through")
    case False
    then obtain t b1 where t: "t < n" "barrier_cross t b = Some b1" using barrier_enabled [OF less.prems] by auto
    then have s: "bar_step n False (Go t) b = Some b1" by simp
    obtain b' where "runs (bar_step n False) b1 b'" "\<forall>t < n. b_pc b' t = B_Through"
      using less.hyps [OF barrier_cross_left [OF t(2,1)] bar_inv_step [OF less.prems s]] by blast
    then show ?thesis using runs_Cons [where step = "bar_step n False", OF s] by blast
  qed auto
qed

text \<open>
  C26. The barrier cannot get stuck: from wherever it is, all threads can get through, and then the counter is back at 0.
\<close>

theorem barrier_opens:
  assumes "runs (bar_step n False) (barrier_init (int n)) b"
  shows "(\<exists>b'. runs (bar_step n False) b b' \<and> (\<forall>t < n. b_pc b' t = B_Through)) \<and>
    (0 < n \<longrightarrow> (\<forall>t < n. b_pc b t = B_Through) \<longrightarrow> b_crossing b = 0)"
proof (intro conjI impI)
  have inv: "bar_inv n b" by (rule bar.reachable [OF assms])
  show "\<exists>b'. runs (bar_step n False) b b' \<and> (\<forall>t < n. b_pc b' t = B_Through)" by (rule bar_finish [OF inv])
  assume "0 < n" "\<forall>t < n. b_pc b t = B_Through"
  then have th: "0 < n" "b_pc b t = B_Through" if "t < n" for t using that by blast+
  have "\<not> gathering n b" "\<not> last_one n b" using th(2) [OF \<open>0 < n\<close>] th \<open>0 < n\<close> by (auto simp: gathering_def last_one_def)
  then show "b_crossing b = 0" using inv th by (simp add: bar_inv_def all_past_def)
qed

text \<open>The run of two threads: the first waits, the second wakes it.\<close>

definition two_cross :: "bar_event list" where
  "two_cross = [Go 0, Go 0, Go 0, Go 1, Go 1, Go 1, Go 1, Go 1, Go 1, Go 0]"

lemma two_cross_run: "\<exists>b. runs (bar_step 2 False) (barrier_init 2) b \<and> b_pc b 1 = B_Through \<and> b_pc b 0 = B_Unlock"
proof -
  have "exec (bar_step 2 False) two_cross (barrier_init 2) \<noteq> None"
    by (simp add: two_cross_def barrier_cross_def barrier_init_def bar_goto_def)
  then obtain b where b: "exec (bar_step 2 False) two_cross (barrier_init 2) = Some b" by blast
  then have "b_pc b 1 = B_Through" "b_pc b 0 = B_Unlock"
    by (auto simp: two_cross_def barrier_cross_def barrier_init_def bar_goto_def)
  then show ?thesis using exec_runs [OF b] by blast
qed

theorem barrier_holds_witness:
  "\<exists>b. runs (bar_step 2 False) (barrier_init 2) b \<and> b_pc b 1 = B_Through \<and> arrived (b_pc b 0)"
proof -
  obtain b where b: "runs (bar_step 2 False) (barrier_init 2) b" "b_pc b 1 = B_Through" using two_cross_run by blast
  show ?thesis using barrier_holds [of 2 b 1 0] b by auto
qed

theorem barrier_opens_witness: "\<exists>b. runs (bar_step 2 False) (barrier_init 2) b \<and> (\<forall>t < 2. b_pc b t = B_Through)"
  using barrier_opens [of 2 "barrier_init 2"] by auto

text \<open>
  \<^verbatim>\<open>pthread_cond_wait\<close> may return without a broadcast, and the code does not test its condition again: one
  thread gets through although the other has not called in.
\<close>

theorem barrier_spurious:
  "\<exists>b. runs (bar_step 2 True) (barrier_init 2) b \<and> b_pc b 0 = B_Through \<and> b_pc b 1 = B_Start"
proof -
  let ?es = "[Go 0, Go 0, Go 0, Wake 0, Go 0, Go 0]"
  have "exec (bar_step 2 True) ?es (barrier_init 2) \<noteq> None"
    by (simp add: barrier_cross_def barrier_init_def bar_goto_def)
  then obtain b where b: "exec (bar_step 2 True) ?es (barrier_init 2) = Some b" by blast
  then have "b_pc b 0 = B_Through" "b_pc b 1 = B_Start" by (auto simp: barrier_cross_def barrier_init_def bar_goto_def)
  then show ?thesis using exec_runs [OF b] by blast
qed

end
