(* ===== verification/TestProg.thy ===== *)
theory TestProg
  imports SL_Props Linden_Props
begin

text \<open>
  The stress test of the spraylist (\<^verbatim>\<open>lib/spraylist/test.c\<close>): the body of a thread with its counters, for
  the skip list and for the Linden queue, the filling of the queue, the set-up of the threads, the options
  and the expected size at the end. The build is the one without \<^verbatim>\<open>PAPI\<close> and \<^verbatim>\<open>DISTRIBUTION_EXPERIMENT\<close>.
\<close>

section \<open>The Linden queue, used by one thread at a time\<close>

text \<open>
  A call runs by itself until it has returned; \<open>alloc\<close> says which block \<^verbatim>\<open>gc_alloc\<close> returns in a state of the memory.
\<close>

fun lin_alone :: "nat \<Rightarrow> (u64 shared \<Rightarrow> ptr) \<Rightarrow> u64 shared \<Rightarrow> u64 thr \<Rightarrow> (u64 shared \<times> u64 thr) option" where
  "lin_alone 0 alloc s l = None"
| "lin_alone (Suc f) alloc s l = (case pc l of
      Returned \<Rightarrow> Some (s, l\<lparr>pc := Idle\<rparr>)
    | Crashed e \<Rightarrow> None
    | _ \<Rightarrow> (let (s', l') = thread_step spray_variant (alloc s) s l in lin_alone f alloc s' l'))"

definition lin_insert :: "nat \<Rightarrow> (u64 shared \<Rightarrow> ptr) \<Rightarrow> u64 \<Rightarrow> u64 \<Rightarrow> u64 shared \<Rightarrow> u64 thr \<Rightarrow> (bool \<times> u64 shared \<times> u64 thr) option" where
  "lin_insert f alloc k v s l = do {
     (s, l) \<leftarrow> lin_alone f alloc s (call_insert k v (replicate NUM_LEVELS 0) (replicate NUM_LEVELS 0) l);
     Some (v_ok l, s, l) }"

definition lin_deletemin :: "nat \<Rightarrow> (u64 shared \<Rightarrow> ptr) \<Rightarrow> u64 shared \<Rightarrow> u64 thr \<Rightarrow> (u64 \<times> u64 shared \<times> u64 thr) option" where
  "lin_deletemin f alloc s l = do {
     (s, l) \<leftarrow> lin_alone f alloc s (call_deletemin l);
     Some (v_ret l, s, l) }"

section \<open>The state of a thread\<close>

text \<open>
  The fields of \<^verbatim>\<open>thread_data_t\<close> (those of the delete operations are in \<open>d_del\<close>), the locals \<^verbatim>\<open>unext\<close>, \<^verbatim>\<open>last\<close>,
  \<^verbatim>\<open>val\<close> of \<^verbatim>\<open>test\<close>, the thread-local random state, and the registers of the Linden operations.
\<close>

record tester =
  d_del :: thread_data
  d_first :: u32
  d_range :: u64
  d_update :: int
  d_unit_tx :: int
  d_alternate :: bool
  d_pq :: bool
  d_sl :: bool
  d_es :: bool
  d_effective :: bool
  d_lin :: bool
  d_first_remove :: int
  d_add :: u64
  d_added :: u64
  d_remove :: u64
  d_removed :: u64
  d_contains :: u64
  d_found :: u64
  l_unext :: bool
  l_last :: int
  l_val :: u32
  l_seeds :: seeds
  l_thr :: "u64 thr"

text \<open>What the threads share: the set, the Linden queue, the dependencies of the event simulator.\<close>

record world =
  w_set :: sl_state
  w_lin :: "u64 shared"
  w_deps :: "u32 list list"

definition MAX_DEPS :: nat where
  "MAX_DEPS = 10"

text \<open>The random numbers come from the thread's own seeds, which \<^verbatim>\<open>get_rand_level\<close> uses as well.\<close>

definition test_rand :: "u64 \<Rightarrow> tester \<Rightarrow> u64 \<times> tester" where
  "test_rand r d = (let (v, ss) = rand_range_re r (l_seeds d) in (v, d\<lparr>l_seeds := ss\<rparr>))"

text \<open>An operation on the set, run with the seeds of the thread.\<close>

definition on_set :: "(sl_state \<Rightarrow> ('r \<times> sl_state) option) \<Rightarrow> tester \<Rightarrow> world \<Rightarrow> ('r \<times> tester \<times> world) option" where
  "on_set f d w = do {
     (r, s) \<leftarrow> f ((w_set w)\<lparr>sl_seeds := l_seeds d\<rparr>);
     Some (r, d\<lparr>l_seeds := sl_seeds s\<rparr>, w\<lparr>w_set := s\<rparr>) }"

definition test_contains :: "build \<Rightarrow> nat \<Rightarrow> u32 \<Rightarrow> tester \<Rightarrow> world \<Rightarrow> (bool \<times> tester \<times> world) option" where
  "test_contains b f v d = on_set (sl_contains b f v (d_unit_tx d)) d"

definition test_add :: "build \<Rightarrow> nat \<Rightarrow> u32 \<Rightarrow> tester \<Rightarrow> world \<Rightarrow> (bool \<times> tester \<times> world) option" where
  "test_add b f v d = on_set (sl_add b f v (d_unit_tx d)) d"

definition test_remove :: "build \<Rightarrow> nat \<Rightarrow> u32 \<Rightarrow> tester \<Rightarrow> world \<Rightarrow> (bool \<times> tester \<times> world) option" where
  "test_remove b f v d = on_set (sl_remove b f v (d_unit_tx d)) d"

definition test_remove_succ :: "nat \<Rightarrow> u32 \<Rightarrow> tester \<Rightarrow> world \<Rightarrow> (bool \<times> tester \<times> world) option" where
  "test_remove_succ f v d = on_set (sl_remove_succ f v (d_unit_tx d)) d"

text \<open>Both delete operations return an \<^verbatim>\<open>int\<close> and write \<^verbatim>\<open>val\<close> when they have a value.\<close>

definition test_delete :: "(thread_data \<Rightarrow> sl_state \<Rightarrow> (int \<times> u32 option \<times> thread_data \<times> sl_state) option) \<Rightarrow>
    tester \<Rightarrow> world \<Rightarrow> (bool \<times> tester \<times> world) option" where
  "test_delete del d w = do {
     (r, v, td, s) \<leftarrow> del (d_del d) ((w_set w)\<lparr>sl_seeds := l_seeds d\<rparr>);
     Some (r \<noteq> 0, d\<lparr>d_del := td, l_val := (case v of None \<Rightarrow> l_val d | Some x \<Rightarrow> x), l_seeds := sl_seeds s\<rparr>,
       w\<lparr>w_set := s\<rparr>) }"

section \<open>One round of the loop\<close>

text \<open>\<^verbatim>\<open>unext = (rand_range_re(&d->seed, 100) - 1 < d->update)\<close>\<close>

definition test_first :: "tester \<Rightarrow> tester" where
  "test_first d = (let (v, d) = test_rand 100 d in d\<lparr>l_unext := (sint v - 1 < d_update d)\<rparr>)"

definition test_next :: "tester \<Rightarrow> tester" where
  "test_next d =
     (if d_effective d
      then d\<lparr>l_unext := (100 * (d_added d + d_removed d) < word_of_int (d_update d) * (d_add d + d_remove d + d_contains d))\<rparr>
      else test_first d)"

text \<open>What every successful removal does.\<close>

definition note_removed :: "int \<Rightarrow> tester \<Rightarrow> tester" where
  "note_removed v d = d\<lparr>d_removed := d_removed d + 1,
     d_first_remove := (if d_first_remove d = - 1 then v else d_first_remove d)\<rparr>"

definition test_insert_op :: "build \<Rightarrow> nat \<Rightarrow> (u64 shared \<Rightarrow> ptr) \<Rightarrow> tester \<Rightarrow> world \<Rightarrow> (tester \<times> world) option" where
  "test_insert_op b f alloc d w = do {
     (v, d) \<leftarrow> Some (test_rand (d_range d) d);
     d \<leftarrow> Some (d\<lparr>l_val := ucast v\<rparr>);
     (d, w) \<leftarrow> (if d_lin d then do {
         pval \<leftarrow> Some (ucast (l_val d));
         (_, s, l) \<leftarrow> lin_insert f alloc pval pval (w_lin w) (l_thr d);
         Some (d\<lparr>l_thr := l, d_added := d_added d + 1, l_last := sint (ucast pval :: u32)\<rparr>, w\<lparr>w_lin := s\<rparr>) }
       else do {
         (r, d, w) \<leftarrow> test_add b f (l_val d) d w;
         Some (if r then d\<lparr>d_added := d_added d + 1, l_last := sint (l_val d)\<rparr> else d, w) });
     Some (d\<lparr>d_add := d_add d + 1\<rparr>, w) }"

definition test_remove_op :: "build \<Rightarrow> nat \<Rightarrow> (u64 shared \<Rightarrow> ptr) \<Rightarrow> tester \<Rightarrow> world \<Rightarrow> (tester \<times> world) option" where
  "test_remove_op b f alloc d w = do {
     (d, w) \<leftarrow> (if d_pq d then do {
         (r, d, w) \<leftarrow> test_delete (naive_delete_min f) d w;
         Some ((if r then note_removed (sint (l_val d)) d else d)\<lparr>l_last := - 1\<rparr>, w) }
       else if d_sl d then do {
         (r, d, w) \<leftarrow> test_delete (spray_delete_min f) d w;
         Some (if r then (note_removed (sint (l_val d)) d)\<lparr>l_last := - 1\<rparr> else d, w) }
       else if d_lin d then do {
         (pval, s, l) \<leftarrow> lin_deletemin f alloc (w_lin w) (l_thr d);
         d \<leftarrow> Some (d\<lparr>l_thr := l\<rparr>);
         Some (if pval \<noteq> 0 then (note_removed (sint (ucast pval :: u32)) d)\<lparr>l_last := - 1\<rparr> else d, w\<lparr>w_lin := s\<rparr>) }
       else if d_alternate d then do {
         (r, d, w) \<leftarrow> test_remove b f (word_of_int (l_last d)) d w;
         Some ((if r then note_removed (sint (l_val d)) d else d)\<lparr>l_last := - 1\<rparr>, w) }
       else do {
         (v, d) \<leftarrow> Some (test_rand (d_range d) d);
         d \<leftarrow> Some (d\<lparr>l_val := ucast v\<rparr>);
         (r, d, w) \<leftarrow> test_remove_succ f (l_val d) d w;
         Some (if r then (note_removed (sint (l_val d)) d)\<lparr>l_last := - 1\<rparr> else d, w) });
     Some (d\<lparr>d_remove := d_remove d + 1\<rparr>, w) }"

text \<open>The value that a read asks for.\<close>

definition read_val :: "tester \<Rightarrow> tester" where
  "read_val d =
     (let random = (\<lambda>d. let (v, d) = test_rand (d_range d) d in d\<lparr>l_val := ucast v\<rparr>) in
      if d_alternate d
      then if d_update d = 0
        then if l_last d < 0 then d\<lparr>l_val := d_first d, l_last := sint (d_first d)\<rparr>
             else (random d)\<lparr>l_last := - 1\<rparr>
        else if l_last d < 0 then random d
             else d\<lparr>l_val := word_of_int (l_last d)\<rparr>
      else random d)"

definition test_read_op :: "build \<Rightarrow> nat \<Rightarrow> tester \<Rightarrow> world \<Rightarrow> (tester \<times> world) option" where
  "test_read_op b f d w = do {
     d \<leftarrow> Some (read_val d);
     (r, d, w) \<leftarrow> test_contains b f (l_val d) d w;
     Some (d\<lparr>d_found := (if r then d_found d + 1 else d_found d), d_contains := d_contains d + 1\<rparr>, w) }"

text \<open>
  The event simulator: \<^verbatim>\<open>deps[p][i]\<close> is read before \<^verbatim>\<open>i\<close> is compared, \<open>None\<close> is an access outside the array.
\<close>

function lin_deps :: "nat \<Rightarrow> (u64 shared \<Rightarrow> ptr) \<Rightarrow> u32 list \<Rightarrow> nat \<Rightarrow> tester \<Rightarrow> world \<Rightarrow> (tester \<times> world) option" where
  "lin_deps f alloc ds i d w =
     (if i < length ds
      then let dep = ds ! i in
        if dep \<noteq> - 1 \<and> i < MAX_DEPS then do {
          d \<leftarrow> Some (d\<lparr>d_add := d_add d + 1\<rparr>);
          (r, s, l) \<leftarrow> lin_insert f alloc (ucast dep) (ucast dep) (w_lin w) (l_thr d);
          lin_deps f alloc ds (i + 1) (d\<lparr>l_thr := l, d_added := (if r then d_added d + 1 else d_added d)\<rparr>) (w\<lparr>w_lin := s\<rparr>) }
        else Some (d, w)
      else None)"
  by pat_completeness auto
termination by (relation "measure (\<lambda>(f, alloc, ds, i, d, w). length ds - i)") auto

function set_deps :: "build \<Rightarrow> nat \<Rightarrow> u32 list \<Rightarrow> nat \<Rightarrow> tester \<Rightarrow> world \<Rightarrow> (tester \<times> world) option" where
  "set_deps b f ds i d w =
     (if i < length ds
      then let dep = ds ! i in
        if dep \<noteq> - 1 \<and> i < MAX_DEPS then do {
          (there, d, w) \<leftarrow> test_contains b f dep d w;
          (d, w) \<leftarrow> (if there then Some (d, w) else do {
              (r, d, w) \<leftarrow> test_add b f dep d w;
              Some (d\<lparr>d_added := (if r then d_added d + 1 else d_added d), d_add := d_add d + 1\<rparr>, w) });
          set_deps b f ds (i + 1) d w }
        else Some (d, w)
      else None)"
  by pat_completeness auto
termination by (relation "measure (\<lambda>(b, f, ds, i, d, w). length ds - i)") auto

declare lin_deps.simps [simp del] set_deps.simps [simp del]

text \<open>\<^verbatim>\<open>deps[p]\<close>\<close>

definition deps_of :: "nat \<Rightarrow> world \<Rightarrow> u32 list option" where
  "deps_of p w = (if p < length (w_deps w) then Some (w_deps w ! p) else None)"

definition event_lin :: "nat \<Rightarrow> (u64 shared \<Rightarrow> ptr) \<Rightarrow> tester \<Rightarrow> world \<Rightarrow> (tester \<times> world) option" where
  "event_lin f alloc d w = do {
     e \<leftarrow> empty_test (w_lin w);
     if e then Some (d, w)
     else do {
       d \<leftarrow> Some (d\<lparr>d_remove := d_remove d + 1\<rparr>);
       (pval, s, l) \<leftarrow> lin_deletemin f alloc (w_lin w) (l_thr d);
       (d, w) \<leftarrow> Some (d\<lparr>l_thr := l, d_removed := d_removed d + 1\<rparr>, w\<lparr>w_lin := s\<rparr>);
       ds \<leftarrow> deps_of (unat pval) w;
       lin_deps f alloc ds 0 d w } }"

text \<open>\<^verbatim>\<open>continue\<close> ends the round.\<close>

definition event_set :: "build \<Rightarrow> nat \<Rightarrow> tester \<Rightarrow> world \<Rightarrow> (tester \<times> world) option" where
  "event_set b f d w = do {
     n \<leftarrow> sl_rd (w_set w) (sl_head (w_set w)) 0;
     n \<leftarrow> sl_rd (w_set w) n 0;
     if n = 0 then Some (d, w)
     else do {
       d \<leftarrow> Some (d\<lparr>d_remove := d_remove d + 1\<rparr>);
       (go, d, w) \<leftarrow> (if d_sl d then test_delete (spray_delete_min f) d w
         else if d_pq d then test_delete (naive_delete_min f) d w
         else Some (True, d, w));
       if \<not> go then Some (d, w)
       else do {
         d \<leftarrow> Some (if d_sl d \<or> d_pq d then d\<lparr>d_removed := d_removed d + 1\<rparr> else d);
         ds \<leftarrow> deps_of (unat (l_val d)) w;
         set_deps b f ds 0 d w } } }"

definition test_round :: "build \<Rightarrow> nat \<Rightarrow> (u64 shared \<Rightarrow> ptr) \<Rightarrow> tester \<Rightarrow> world \<Rightarrow> (tester \<times> world) option" where
  "test_round b f alloc d w =
     (if d_es d then (if d_lin d then event_lin f alloc d w else event_set b f d w)
      else do {
        (d, w) \<leftarrow> (if l_unext d
          then if l_last d < 0 then test_insert_op b f alloc d w else test_remove_op b f alloc d w
          else test_read_op b f d w);
        Some (test_next d, w) })"

text \<open>Threads take rounds in the order of a schedule.\<close>

fun test_run :: "build \<Rightarrow> nat \<Rightarrow> (u64 shared \<Rightarrow> ptr) \<Rightarrow> nat list \<Rightarrow> tester list \<Rightarrow> world \<Rightarrow> (tester list \<times> world) option" where
  "test_run b f alloc [] ds w = Some (ds, w)"
| "test_run b f alloc (t # ts) ds w = do {
     (d, w) \<leftarrow> test_round b f alloc (ds ! t) w;
     test_run b f alloc ts (ds[t := d]) w }"

text \<open>
  The expected size that \<^verbatim>\<open>main\<close> prints: \<^verbatim>\<open>size += data[i].nb_added - data[i].nb_removed\<close>, where \<^verbatim>\<open>size\<close> is an \<^verbatim>\<open>int\<close>.
\<close>

fun test_expected :: "int \<Rightarrow> tester list \<Rightarrow> int" where
  "test_expected n [] = n"
| "test_expected n (d # ds) = test_expected (sint (ucast (word_of_int n + (d_added d - d_removed d)) :: u32)) ds"

section \<open>Options and set-up\<close>

record test_opts =
  o_duration :: int
  o_initial :: int
  o_threads :: int
  o_range :: int
  o_seed :: int
  o_update :: int
  o_unit_tx :: int
  o_alternate :: bool
  o_pq :: bool
  o_sl :: bool
  o_es :: bool
  o_lin :: bool
  o_effective :: int
  o_depdist :: u64

definition default_test_opts :: test_opts where
  "default_test_opts = \<lparr>o_duration = 1000, o_initial = 1024, o_threads = 1, o_range = 2 * 1024, o_seed = 0, o_update = 20,
     o_unit_tx = 4, o_alternate = False, o_pq = False, o_sl = False, o_es = False, o_lin = False, o_effective = 1, o_depdist = 0\<rparr>"

datatype test_outcome = Test_exit int | Test_assert | Test_start test_opts

text \<open>The options as \<^verbatim>\<open>getopt_long\<close> hands them out; \<^verbatim>\<open>atoi\<close> (and \<^verbatim>\<open>atol\<close>) is a parameter.\<close>

fun read_test_opts :: "(string \<Rightarrow> int) \<Rightarrow> (char \<times> string) list \<Rightarrow> test_opts \<Rightarrow> int + test_opts" where
  "read_test_opts atoi [] p = Inr p"
| "read_test_opts atoi ((c, optarg) # rest) p =
     (if c = CHR ''h'' \<or> c = CHR ''?'' then Inl 0
      else if c = CHR ''A'' then read_test_opts atoi rest (p\<lparr>o_alternate := True\<rparr>)
      else if c = CHR ''l'' then read_test_opts atoi rest (p\<lparr>o_sl := True\<rparr>)
      else if c = CHR ''p'' then read_test_opts atoi rest (p\<lparr>o_pq := True\<rparr>)
      else if c = CHR ''e'' then read_test_opts atoi rest (p\<lparr>o_es := True, o_depdist := word_of_int (atoi optarg)\<rparr>)
      else if c = CHR ''L'' then read_test_opts atoi rest (p\<lparr>o_lin := True\<rparr>)
      else if c = CHR ''f'' then read_test_opts atoi rest (p\<lparr>o_effective := atoi optarg\<rparr>)
      else if c = CHR ''d'' then read_test_opts atoi rest (p\<lparr>o_duration := atoi optarg\<rparr>)
      else if c = CHR ''i'' then read_test_opts atoi rest (p\<lparr>o_initial := atoi optarg\<rparr>)
      else if c = CHR ''n'' then read_test_opts atoi rest (p\<lparr>o_threads := atoi optarg\<rparr>)
      else if c = CHR ''r'' then read_test_opts atoi rest (p\<lparr>o_range := atoi optarg\<rparr>)
      else if c = CHR ''s'' then read_test_opts atoi rest (p\<lparr>o_seed := atoi optarg\<rparr>)
      else if c = CHR ''u'' then read_test_opts atoi rest (p\<lparr>o_update := atoi optarg\<rparr>)
      else if c = CHR ''x'' then read_test_opts atoi rest (p\<lparr>o_unit_tx := atoi optarg\<rparr>)
      else Inl 1)"

text \<open>The assertions on the options; then the range is set, whatever \<^verbatim>\<open>-r\<close> said.\<close>

definition test_options :: "(string \<Rightarrow> int) \<Rightarrow> (char \<times> string) list \<Rightarrow> test_outcome" where
  "test_options atoi opts = (case read_test_opts atoi opts default_test_opts of
      Inl e \<Rightarrow> Test_exit e
    | Inr p \<Rightarrow>
        if 0 \<le> o_duration p \<and> 0 \<le> o_initial p \<and> 0 < o_threads p \<and> 0 < o_range p \<and> 0 \<le> o_update p \<and> o_update p \<le> 100
        then Test_start (p\<lparr>o_range := 100000000\<rparr>) else Test_assert)"

text \<open>
  What \<^verbatim>\<open>main\<close> writes into \<^verbatim>\<open>data[i]\<close>: \<open>lst\<close> is the last value that was filled in, \<open>r\<close> the random number for
  \<^verbatim>\<open>seed2\<close>; and what \<^verbatim>\<open>test\<close> does before its loop, with the seeds \<open>ss\<close> that \<^verbatim>\<open>seed_rand\<close> returns.
\<close>

definition init_tester :: "test_opts \<Rightarrow> u32 \<Rightarrow> u32 \<Rightarrow> u64 thr \<Rightarrow> tester" where
  "init_tester p lst r l = \<lparr>
     d_del = \<lparr>nb_threads = word_of_int (o_threads p), seed2 = r, nb_collisions = 0, nb_clean = 0\<rparr>,
     d_first = lst, d_range = word_of_int (o_range p), d_update = o_update p, d_unit_tx = o_unit_tx p,
     d_alternate = o_alternate p, d_pq = o_pq p, d_sl = o_sl p, d_es = o_es p, d_effective = (o_effective p \<noteq> 0), d_lin = o_lin p,
     d_first_remove = - 1, d_add = 0, d_added = 0, d_remove = 0, d_removed = 0, d_contains = 0, d_found = 0,
     l_unext = False, l_last = - 1, l_val = 0, l_seeds = (0, 0, 0), l_thr = l\<rparr>"

definition start_tester :: "test_opts \<Rightarrow> u32 \<Rightarrow> u32 \<Rightarrow> u64 thr \<Rightarrow> seeds \<Rightarrow> tester" where
  "start_tester p lst r l ss = test_first ((init_tester p lst r l)\<lparr>l_seeds := ss\<rparr>)"

section \<open>Filling the queue\<close>

text \<open>Random values until \<open>i\<close> of them were new; \<open>k\<close> bounds the number of draws.\<close>

fun fill_set :: "nat \<Rightarrow> nat \<Rightarrow> build \<Rightarrow> u64 \<Rightarrow> nat \<Rightarrow> u32 \<Rightarrow> sl_state \<Rightarrow> (u32 \<times> sl_state) option" where
  "fill_set k f b r 0 lst s = Some (lst, s)"
| "fill_set 0 f b r (Suc i) lst s = None"
| "fill_set (Suc k) f b r (Suc i) lst s = do {
     (v, ss) \<leftarrow> Some (rand_range_re r (sl_seeds s));
     (new, s) \<leftarrow> sl_add b f (ucast v) 0 (s\<lparr>sl_seeds := ss\<rparr>);
     if new then fill_set k f b r i (ucast v) s else fill_set k f b r (Suc i) lst s }"

fun fill_lin :: "nat \<Rightarrow> (u64 shared \<Rightarrow> ptr) \<Rightarrow> u64 \<Rightarrow> nat \<Rightarrow> u32 \<Rightarrow> seeds \<Rightarrow> u64 shared \<Rightarrow> u64 thr \<Rightarrow>
    (u32 \<times> seeds \<times> u64 shared \<times> u64 thr) option" where
  "fill_lin f alloc r 0 lst ss s l = Some (lst, ss, s, l)"
| "fill_lin f alloc r (Suc i) lst ss s l = do {
     (pval, ss) \<leftarrow> Some (rand_range_re r ss);
     (_, s, l) \<leftarrow> lin_insert f alloc pval pval s l;
     fill_lin f alloc r i (ucast pval) ss s l }"

text \<open>\<^verbatim>\<open>(int) sqrt(depdist)\<close>: the square root of a \<^verbatim>\<open>double\<close>, rounded down; exact below \<open>2 ^ 53\<close>.\<close>

fun isqrt :: "nat \<Rightarrow> nat" where
  "isqrt 0 = 0"
| "isqrt (Suc n) = (let r = isqrt n in if (r + 1) * (r + 1) \<le> Suc n then r + 1 else r)"

text \<open>
  The dependencies of event \<open>i\<close>, at most \<open>k\<close> more; a range of 0 for the random number is a division by zero, a
  square root of \<open>2 ^ 30\<close> or more overflows the \<^verbatim>\<open>int\<close> \<^verbatim>\<open>2*dep_var\<close>.
\<close>

fun gen_deps :: "nat \<Rightarrow> int \<Rightarrow> int \<Rightarrow> u64 \<Rightarrow> seeds \<Rightarrow> (u32 list \<times> seeds) option" where
  "gen_deps 0 i initial depdist ss = Some ([], ss)"
| "gen_deps (Suc k) i initial depdist ss =
     (if i < initial - 1
      then let (v, ss) = rand_range_re 3 ss in
        if v mod 2 \<noteq> 0 then do {
          dep_var \<leftarrow> Some (of_nat (isqrt (unat depdist)) :: u64);
          if 2 * dep_var = 0 \<or> dep_var \<ge> 2 ^ 30 then None
          else do {
            (r, ss) \<leftarrow> Some (rand_range_re (2 * dep_var) ss);
            dep \<leftarrow> Some (ucast (ucast (word_of_int i + 1 :: u32) + (depdist + r - dep_var)) :: u32);
            dep \<leftarrow> Some (if dep \<ge> word_of_int initial then word_of_int (initial - 1) else dep);
            (ds, ss) \<leftarrow> gen_deps k i initial depdist ss;
            Some (dep # ds, ss) } }
        else Some ([], ss)
      else Some ([], ss))"

text \<open>The array of an event: its dependencies, the end mark when there is room, and what the allocator left in the rest.\<close>

definition deps_row :: "u32 list \<Rightarrow> u32 list \<Rightarrow> u32 list" where
  "deps_row ds junk = (if length ds < MAX_DEPS then ds @ - 1 # drop (length ds + 1) junk else ds)"

fun fill_events :: "nat \<Rightarrow> build \<Rightarrow> (u64 shared \<Rightarrow> ptr) \<Rightarrow> test_opts \<Rightarrow> u32 list \<Rightarrow> int \<Rightarrow> nat \<Rightarrow> world \<Rightarrow> u64 thr \<Rightarrow> (world \<times> u64 thr) option" where
  "fill_events f b alloc p junk i 0 w l = Some (w, l)"
| "fill_events f b alloc p junk i (Suc n) w l = do {
     (w, l) \<leftarrow> (if o_lin p then do {
         (_, s, l) \<leftarrow> lin_insert f alloc (word_of_int i) (word_of_int i) (w_lin w) l;
         Some (w\<lparr>w_lin := s\<rparr>, l) }
       else do {
         (_, s) \<leftarrow> sl_add b f (word_of_int i) 0 (w_set w);
         Some (w\<lparr>w_set := s\<rparr>, l) });
     (ds, ss) \<leftarrow> gen_deps MAX_DEPS i (o_initial p) (o_depdist p) (sl_seeds (w_set w));
     w \<leftarrow> Some (w\<lparr>w_set := (w_set w)\<lparr>sl_seeds := ss\<rparr>, w_deps := w_deps w @ [deps_row ds junk]\<rparr>);
     fill_events f b alloc p junk (i + 1) n w l }"

end
