(* ===== verification/SL_Keep.thy ===== *)
theory SL_Keep
  imports SL_Intset
begin

text \<open>
  No operation on the list changes the number of its levels, nor the number of threads in \<^verbatim>\<open>thread_data_t\<close>.
  \<open>lv n p x\<close>: when there is a result \<open>x\<close>, \<open>p\<close> of it is \<open>n\<close>. The rules follow the shape of the code.
\<close>

definition lv :: "'b \<Rightarrow> ('a \<Rightarrow> 'b) \<Rightarrow> 'a option \<Rightarrow> bool" where
  "lv n p x \<longleftrightarrow> (\<forall>a. x = Some a \<longrightarrow> p a = n)"

named_theorems lv_rules

lemma lv_bind [lv_rules]: "(\<And>a. m = Some a \<Longrightarrow> lv n p (g a)) \<Longrightarrow> lv n p (Option.bind m g)"
  by (cases m) (simp_all add: lv_def)

lemma lv_pair [lv_rules]: "(\<And>a b. x = (a, b) \<Longrightarrow> lv n p (g a b)) \<Longrightarrow> lv n p (case x of (a, b) \<Rightarrow> g a b)"
  by (cases x) simp

lemma lv_if [lv_rules]: "(c \<Longrightarrow> lv n p x) \<Longrightarrow> (\<not> c \<Longrightarrow> lv n p y) \<Longrightarrow> lv n p (if c then x else y)"
  by simp

lemma lv_opt [lv_rules]: "(x = None \<Longrightarrow> lv n p y) \<Longrightarrow> (\<And>a. x = Some a \<Longrightarrow> lv n p (g a)) \<Longrightarrow>
    lv n p (case x of None \<Rightarrow> y | Some a \<Rightarrow> g a)"
  by (cases x) simp_all

lemma lv_Some [lv_rules]: "p a = n \<Longrightarrow> lv n p (Some a)"
  by (simp add: lv_def)

lemma lv_None [lv_rules]: "lv n p None"
  by (simp add: lv_def)

lemma lvD: "x = Some a \<Longrightarrow> lv n p x \<Longrightarrow> p a = n"
  by (simp add: lv_def)

lemma wr_lv: "levelmax s = n \<Longrightarrow> lv n levelmax (sl_wr s p i w)"
  by (auto simp: lv_def sl_wr_def split: option.splits if_splits)

lemma lm_wr: "sl_wr s p i w = Some s' \<Longrightarrow> levelmax s' = levelmax s"
  using wr_lv [of s _ p i w] by (simp add: lv_def)

lemma lm_cas: "sl_cas s p i u w = Some (b, s') \<Longrightarrow> levelmax s' = levelmax s"
proof -
  have "lv (levelmax s) (\<lambda>x. levelmax (snd x)) (sl_cas s p i u w)"
    unfolding sl_cas_def by (intro lv_rules) (simp_all add: lm_wr)
  then show "sl_cas s p i u w = Some (b, s') \<Longrightarrow> levelmax s' = levelmax s" by (simp add: lv_def)
qed

lemma lm_inc: "fetch_inc_del s p = Some (u, s') \<Longrightarrow> levelmax s' = levelmax s"
  by (cases "sl_heap s p") (auto simp: fetch_inc_del_def)

lemma search_levels_lv: "levelmax s = n \<Longrightarrow> lv n (\<lambda>x. levelmax (fst x)) (search_levels f i v l ls rs s)"
proof (induction i arbitrary: l ls rs s)
  case (Suc i)
  then show ?case unfolding search_levels.simps
    by (intro lv_rules Suc.IH) (auto dest: lm_cas split: if_splits)
qed (simp add: lv_def)

lemma search_lv: "levelmax s = n \<Longrightarrow> lv n (\<lambda>x. levelmax (fst x)) (fraser_search f v s)"
proof (induction f arbitrary: s)
  case (Suc f)
  then show ?case unfolding fraser_search.simps
    by (intro lv_rules Suc.IH) (auto dest: lvD [OF _ search_levels_lv [OF refl]])
qed (simp add: lv_def)

lemma lm_search: "fraser_search f v s = Some (s', r) \<Longrightarrow> levelmax s' = levelmax s"
  using lvD [OF _ search_lv [OF refl]] by fastforce

lemma mark_slot_lv: "levelmax s = n \<Longrightarrow> lv n levelmax (mark_slot f q i s)"
proof (induction f arbitrary: s)
  case (Suc f)
  then show ?case unfolding mark_slot.simps
    by (intro lv_rules Suc.IH) (auto dest: lm_cas)
qed (simp add: lv_def)

lemma mark_slots_lv: "levelmax s = n \<Longrightarrow> lv n levelmax (mark_slots f i q s)"
proof (induction i arbitrary: s)
  case (Suc i)
  then show ?case unfolding mark_slots.simps
    by (intro lv_rules Suc.IH) (auto dest: lvD [OF _ mark_slot_lv [OF refl]])
qed (simp add: lv_def)

lemma lm_mark_node: "mark_node_ptrs f q s = Some s' \<Longrightarrow> levelmax s' = levelmax s"
  by (cases "sl_top s q") (auto simp: mark_node_ptrs_def dest: lvD [OF _ mark_slots_lv [OF refl]])

lemma fill_nexts_lv: "levelmax s = n \<Longrightarrow> lv n levelmax (fill_nexts i q ps s)"
proof (induction i arbitrary: s)
  case (Suc i)
  show ?case unfolding fill_nexts.simps
    by (intro lv_rules wr_lv) (use lvD [OF _ Suc.IH [OF Suc.prems]] in auto)
qed (simp add: lv_def)

lemma lm_array [simp]: "array_alloc s = (p, s') \<Longrightarrow> levelmax s' = levelmax s" "levelmax (array_free p s) = levelmax s"
  "levelmax (sl_delete_node p s) = levelmax s"
  by (auto simp: array_alloc_def array_free_def sl_delete_node_def split: prod.splits)

lemmas lm_list = lm_cas lm_inc lm_search lm_mark_node lm_array(1)
  lvD [OF _ fill_nexts_lv [OF refl], simplified]

lemma insert_bottom_lv: "levelmax s = n \<Longrightarrow> lv n (\<lambda>x. levelmax (fst x)) (insert_bottom f q v s)"
proof (induction f arbitrary: s)
  case (Suc f)
  then show ?case unfolding insert_bottom.simps
    by (intro lv_rules Suc.IH) (auto dest!: lm_list simp del: fraser_search.simps)
qed (simp add: lv_def)

lemma insert_level_lv: "levelmax s = n \<Longrightarrow> lv n (\<lambda>(_, _, _, s). levelmax s) (insert_level f i q v ps ss s)"
proof (induction f arbitrary: s ps ss)
  case (Suc f)
  then show ?case unfolding insert_level.simps
    by (intro lv_rules Suc.IH) (auto dest!: lm_list split: if_splits simp del: fraser_search.simps)
qed (simp add: lv_def)

lemma insert_levels_lv: "levelmax s = n \<Longrightarrow> lv n levelmax (insert_levels f i k q v ps ss s)"
proof (induction k arbitrary: i s ps ss)
  case (Suc k)
  then show ?case unfolding insert_levels.simps
    by (intro lv_rules Suc.IH) (auto dest: lvD [OF _ insert_level_lv [OF refl]])
qed (simp add: lv_def)

lemma lm_new_node: "sl_new_simple_node v l t s = Some (p, s') \<Longrightarrow> levelmax s' = levelmax s"
  by (auto simp: sl_new_simple_node_def Let_def split: prod.splits if_splits)

lemma lm_get_level: "get_rand_level s = (l, s') \<Longrightarrow> levelmax s' = levelmax s"
  by (auto simp: get_rand_level_def split: prod.splits)

lemma lm_find: "fraser_find f v s = Some (b, s') \<Longrightarrow> levelmax s' = levelmax s"
proof -
  have "lv (levelmax s) (\<lambda>x. levelmax (snd x)) (fraser_find f v s)"
    unfolding fraser_find_def by (intro lv_rules) (auto dest!: lm_list)
  then show "fraser_find f v s = Some (b, s') \<Longrightarrow> levelmax s' = levelmax s" by (simp add: lv_def)
qed

lemma lm_remove: "fraser_remove f v c s = Some (b, s') \<Longrightarrow> levelmax s' = levelmax s"
proof -
  have "lv (levelmax s) (\<lambda>x. levelmax (snd x)) (fraser_remove f v c s)"
    unfolding fraser_remove_def by (intro lv_rules) (auto dest!: lm_list)
  then show "fraser_remove f v c s = Some (b, s') \<Longrightarrow> levelmax s' = levelmax s" by (simp add: lv_def)
qed

lemma lm_insert: "fraser_insert f v s = Some (b, s') \<Longrightarrow> levelmax s' = levelmax s"
proof -
  have "lv (levelmax s) (\<lambda>x. levelmax (snd x)) (fraser_insert f v s)"
    unfolding fraser_insert_def
    by (intro lv_rules) (auto dest!: lm_list lm_new_node lm_get_level lvD [OF _ insert_bottom_lv [OF refl]]
        lvD [OF _ insert_levels_lv [OF refl]])
  then show "fraser_insert f v s = Some (b, s') \<Longrightarrow> levelmax s' = levelmax s" by (simp add: lv_def)
qed

lemma naive_claim_lv: "levelmax s = n \<Longrightarrow> lv n (\<lambda>(_, _, s). levelmax s) (naive_claim f p d s)"
proof (induction f arbitrary: p d s)
  case (Suc f)
  then show ?case unfolding naive_claim.simps
    by (intro lv_rules Suc.IH) (auto dest: lm_inc)
qed (simp add: lv_def)

lemma lm_search_state: "fraser_search f v s \<bind> (\<lambda>(s, _). Some s) = Some s' \<Longrightarrow> levelmax s' = levelmax s"
  by (cases "fraser_search f v s") (auto dest: lm_search)

lemma naive_lv: "lv (levelmax s) (\<lambda>(_, _, _, s). levelmax s) (naive_delete_min f d s)"
  unfolding naive_delete_min_def
  by (intro lv_rules) (auto dest!: lm_list lm_search_state lvD [OF _ naive_claim_lv [OF refl]] split: if_splits)

lemma lm_naive: "naive_delete_min f d s = Some (r, v, d', s') \<Longrightarrow> levelmax s' = levelmax s"
  using lvD [OF _ naive_lv] by fastforce

lemma lm_spray: "spray_delete_min f d s = Some (r, v, d', s') \<Longrightarrow> levelmax s' = levelmax s"
proof -
  have "lv (levelmax s) (\<lambda>(_, _, _, s). levelmax s) (spray_delete_min f d s)"
    unfolding spray_delete_min_def
    by (intro lv_rules naive_lv) (auto dest!: lm_list split: if_splits)
  then show "spray_delete_min f d s = Some (r, v, d', s') \<Longrightarrow> levelmax s' = levelmax s" by (simp add: lv_def)
qed

lemma claim_threads: "nb_threads d = n \<Longrightarrow> lv n (\<lambda>(_, d, _). nb_threads d) (naive_claim f p d s)"
proof (induction f arbitrary: p d s)
  case (Suc f)
  then show ?case unfolding naive_claim.simps by (intro lv_rules Suc.IH) auto
qed (simp add: lv_def)

lemma naive_threads: "nb_threads d = n \<Longrightarrow> lv n (\<lambda>(_, _, d, _). nb_threads d) (naive_delete_min f d s)"
  unfolding naive_delete_min_def by (intro lv_rules) (auto dest!: lvD [OF _ claim_threads [OF refl]])

lemma spray_threads: "spray_delete_min f d s = Some (r, v, d', s') \<Longrightarrow> nb_threads d' = nb_threads d"
proof -
  have "lv (nb_threads d) (\<lambda>(_, _, d, _). nb_threads d) (spray_delete_min f d s)"
    unfolding spray_delete_min_def by (intro lv_rules naive_threads) auto
  then show "spray_delete_min f d s = Some (r, v, d', s') \<Longrightarrow> nb_threads d' = nb_threads d" by (simp add: lv_def)
qed

end
