(* ===== verification/TestProps.thy ===== *)
theory TestProps
  imports TestProg SL_Props SL_Keep
begin

text \<open>
  What the stress test relies on from the set, as a locale; that a round of a thread keeps the books; and that the
  size that the program prints as expected is the size of the set.
\<close>

section \<open>The interface of the set\<close>

text \<open>When a thread that sprays has an admissible starting height: one thread does not spray at all.\<close>

definition spray_fits :: "nat \<Rightarrow> u32 \<Rightarrow> bool" where
  "spray_fits lm n \<longleftrightarrow> n = 1 \<or> 0 \<le> SCANHEIGHT n \<and> nat (SCANHEIGHT n) < lm"

locale test_set =
  fixes rep :: "sl_state \<Rightarrow> u32 set \<Rightarrow> nat \<Rightarrow> bool"
    and b :: build
    and f :: nat
    and lm :: nat
  assumes less: "rep s K m \<Longrightarrow> k \<le> m \<Longrightarrow> rep s K k"
    and seeds: "rep (s\<lparr>sl_seeds := ss\<rparr>) K m = rep s K m"
    and bound: "rep s K m \<Longrightarrow> finite K \<and> (\<forall>k \<in> K. k < VAL_MAX)"
    and size: "rep s K m \<Longrightarrow> sl_set_size f s = Some (card K)"
    and contains: "rep s K (m + 6) \<Longrightarrow> v < VAL_MAX \<Longrightarrow>
      \<exists>s'. sl_contains b f v tx s = Some (v \<in> K, s') \<and> rep s' K m"
    and add: "rep s K (m + 6) \<Longrightarrow> v < VAL_MAX \<Longrightarrow> tx \<noteq> 0 \<Longrightarrow>
      \<exists>s'. sl_add b f v tx s = Some (v \<notin> K, s') \<and> rep s' (insert v K) m"
    and remove: "rep s K (m + 6) \<Longrightarrow> v < VAL_MAX \<Longrightarrow>
      \<exists>s'. sl_remove b f v tx s = Some (v \<in> K, s') \<and> rep s' (K - {v}) m"
    and remove_succ: "rep s K (m + 6) \<Longrightarrow> v < VAL_MAX \<Longrightarrow>
      (\<exists>s'. sl_remove_succ f v tx s = Some (False, s') \<and> rep s' K m) \<or>
      (\<exists>s' k. sl_remove_succ f v tx s = Some (True, s') \<and> k \<in> K \<and> rep s' (K - {k}) m)"
    and naive: "rep s K (m + 6) \<Longrightarrow> K \<noteq> {} \<Longrightarrow>
      \<exists>s'. naive_delete_min f d s = Some (1, Some (Min K), d, s') \<and> rep s' (K - {Min K}) m"
    and spray: "rep s K (m + 6) \<Longrightarrow> K \<noteq> {} \<Longrightarrow> 18 \<le> m \<Longrightarrow> spray_fits lm (nb_threads d) \<Longrightarrow>
      \<exists>d'. nb_threads d' = nb_threads d \<and> ((\<exists>s'. spray_delete_min f d s = Some (0, None, d', s') \<and> rep s' K m) \<or>
        (\<exists>s' v. spray_delete_min f d s = Some (1, Some v, d', s') \<and> v \<in> K \<and> rep s' (K - {v}) m))"

text \<open>The list provides it in the lock-free build, with either allocator.\<close>

definition lf_rep :: "u64 \<Rightarrow> (ssalloc_st \<Rightarrow> ptr set \<Rightarrow> nat \<Rightarrow> bool) \<Rightarrow> nat \<Rightarrow> nat \<Rightarrow> sl_state \<Rightarrow> u32 set \<Rightarrow> nat \<Rightarrow> bool" where
  "lf_rep ns ok f lm s K m \<longleftrightarrow> sl_rep ns ok f s K m \<and> levelmax s = lm"

context node_alloc
begin

lemma test_set: "test_set (lf_rep ns ok f lm) LOCKFREE f lm"
proof
  fix s K m k ss v tx d
  show "lf_rep ns ok f lm s K k" if "lf_rep ns ok f lm s K m" "k \<le> m"
    using that sl_rep_less [of f s K m k] by (simp add: lf_rep_def)
  show "lf_rep ns ok f lm (s\<lparr>sl_seeds := ss\<rparr>) K m = lf_rep ns ok f lm s K m" by (simp add: lf_rep_def sl_rep_def)
  show "finite K \<and> (\<forall>k \<in> K. k < VAL_MAX)" if "lf_rep ns ok f lm s K m"
    using that keys_less by (auto simp: lf_rep_def sl_rep_def keys_def)
  show "sl_set_size f s = Some (card K)" if "lf_rep ns ok f lm s K m"
    using that size_rep by (auto simp: lf_rep_def)
  have down: "lf_rep ns ok f lm s' K' m" if "sl_rep ns ok f s' K' (m + 4)" "levelmax s' = levelmax s" "levelmax s = lm" for s' K'
    using that sl_rep_less [OF that(1), of m] by (simp add: lf_rep_def)
  show "\<exists>s'. sl_contains LOCKFREE f v tx s = Some (v \<in> K, s') \<and> lf_rep ns ok f lm s' K m"
    if a: "lf_rep ns ok f lm s K (m + 6)" "v < VAL_MAX"
  proof -
    obtain s' where s': "fraser_find f v s = Some (v \<in> K, s')" "sl_rep ns ok f s' K (m + 4)"
      using a find_rep [of f s K "m + 4" v] by (auto simp: lf_rep_def add.commute)
    then show ?thesis using down [OF s'(2) lm_find [OF s'(1)]] a by (auto simp: lf_rep_def sl_contains_def)
  qed
  show "\<exists>s'. sl_add LOCKFREE f v tx s = Some (v \<notin> K, s') \<and> lf_rep ns ok f lm s' (insert v K) m"
    if a: "lf_rep ns ok f lm s K (m + 6)" "v < VAL_MAX" "tx \<noteq> 0"
  proof -
    obtain s' where s': "fraser_insert f v s = Some (v \<notin> K, s')" "sl_rep ns ok f s' (insert v K) m"
      using a insert_rep [of f s K m v] by (auto simp: lf_rep_def)
    then show ?thesis using lm_insert [OF s'(1)] a by (auto simp: lf_rep_def sl_add_def)
  qed
  show "\<exists>s'. sl_remove LOCKFREE f v tx s = Some (v \<in> K, s') \<and> lf_rep ns ok f lm s' (K - {v}) m"
    if a: "lf_rep ns ok f lm s K (m + 6)" "v < VAL_MAX"
  proof -
    obtain s' where s': "fraser_remove f v False s = Some (v \<in> K, s')" "sl_rep ns ok f s' (K - {v}) (m + 4)"
      using a remove_rep [of f s K "m + 4" v] by (auto simp: lf_rep_def add.commute)
    then show ?thesis using down [OF s'(2) lm_remove [OF s'(1)]] a by (auto simp: lf_rep_def sl_remove_def)
  qed
  show "(\<exists>s'. sl_remove_succ f v tx s = Some (False, s') \<and> lf_rep ns ok f lm s' K m) \<or>
      (\<exists>s' k. sl_remove_succ f v tx s = Some (True, s') \<and> k \<in> K \<and> lf_rep ns ok f lm s' (K - {k}) m)"
    if a: "lf_rep ns ok f lm s K (m + 6)" "v < VAL_MAX"
  proof -
    obtain s' where s': "fraser_remove f v True s = Some (first_from K v \<noteq> None, s')"
      "sl_rep ns ok f s' (case first_from K v of None \<Rightarrow> K | Some k \<Rightarrow> K - {k}) (m + 4)"
      using a(1) remove_succ_rep [of f s K "m + 4" v] less_imp_le [OF a(2)] by (auto simp: lf_rep_def add.commute)
    have l: "levelmax s' = lm" using lm_remove [OF s'(1)] a(1) by (simp add: lf_rep_def)
    have r: "lf_rep ns ok f lm s' (case first_from K v of None \<Rightarrow> K | Some k \<Rightarrow> K - {k}) m"
      using sl_rep_less [OF s'(2), of m] l by (simp add: lf_rep_def)
    have fin: "finite K" using a(1) by (auto simp: lf_rep_def sl_rep_def keys_def)
    show ?thesis
    proof (cases "\<exists>k \<in> K. v \<le> k")
      case True
      then have "Min {k \<in> K. v \<le> k} \<in> {k \<in> K. v \<le> k}" using fin by (intro Min_in) auto
      then show ?thesis using s'(1) r True by (auto simp: sl_remove_succ_def first_from_def)
    next
      case False
      then show ?thesis using s'(1) r by (auto simp: sl_remove_succ_def first_from_def)
    qed
  qed
  show nv: "\<exists>s'. naive_delete_min f d s = Some (1, Some (Min K), d, s') \<and> lf_rep ns ok f lm s' (K - {Min K}) m"
    if r: "lf_rep ns ok f lm s K (m + 6)" and ne: "K \<noteq> {}" for d
  proof -
    have rs: "sl_rep ns ok f s K m" using r sl_rep_less [of f s K "m + 6" m] by (simp add: lf_rep_def)
    obtain s' where s': "naive_delete_min f d s = Some (1, Some (Min K), d, s')" "sl_rep ns ok f s' (K - {Min K}) m"
      using naive_rep [OF rs ne] by blast
    show ?thesis using s' lm_naive [OF s'(1)] r by (auto simp: lf_rep_def)
  qed
  show "\<exists>d'. nb_threads d' = nb_threads d \<and> ((\<exists>s'. spray_delete_min f d s = Some (0, None, d', s') \<and> lf_rep ns ok f lm s' K m) \<or>
      (\<exists>s' v. spray_delete_min f d s = Some (1, Some v, d', s') \<and> v \<in> K \<and> lf_rep ns ok f lm s' (K - {v}) m))"
    if r: "lf_rep ns ok f lm s K (m + 6)" and ne: "K \<noteq> {}" and m: "18 \<le> m" and fits: "spray_fits lm (nb_threads d)"
  proof (cases "nb_threads d = 1 \<or> marsaglia (seed2 d) mod nb_threads d = 0")
    case True
    let ?d = "d\<lparr>seed2 := marsaglia (seed2 d)\<rparr>"
    let ?d' = "?d\<lparr>nb_clean := nb_clean ?d + 1\<rparr>"
    have e: "spray_delete_min f d s = naive_delete_min f ?d' s" using True by (simp add: spray_delete_min_def)
    have "finite K" using r by (auto simp: lf_rep_def sl_rep_def keys_def)
    then have "Min K \<in> K" using ne by simp
    moreover obtain s' where "naive_delete_min f ?d' s = Some (1, Some (Min K), ?d', s')" "lf_rep ns ok f lm s' (K - {Min K}) m"
      using nv [OF r ne] by blast
    ultimately show ?thesis unfolding e by (intro exI [of _ ?d']) auto
  next
    case False
    have rs: "sl_rep ns ok f s K (m + 6)" and lm: "levelmax s = lm" using r by (simp_all add: lf_rep_def)
    have h: "0 \<le> SCANHEIGHT (nb_threads d)" "nat (SCANHEIGHT (nb_threads d)) < levelmax s"
      using fits False lm by (auto simp: spray_fits_def)
    obtain d' where d': "spray_delete_min f d s = Some (0, None, d', s) \<or>
        (\<exists>v s'. spray_delete_min f d s = Some (1, Some v, d', s') \<and> v \<in> K \<and> sl_rep ns ok f s' (K - {v}) (m + 6))"
      using spray_rep [OF rs _ _ _ h] False m by auto
    have down6: "sl_rep ns ok f s' K' (m + 6) \<Longrightarrow> sl_rep ns ok f s' K' m" for s' K' by (erule sl_rep_less) (rule le_add1)
    have "nb_threads d' = nb_threads d" using d' spray_threads by blast
    then show ?thesis using d' down6 lm rs lm_spray by (intro exI [of _ d']) (auto simp: lf_rep_def)
  qed
qed

end

interpretation test_ring: test_set "lf_rep ns (ring_ok ns) f lm" LOCKFREE f lm
  by (rule ring.test_set)

interpretation test_malloc: test_set "lf_rep ns (mal_ok N) f lm" LOCKFREE f lm
  by (rule malloc.test_set)

section \<open>One round\<close>

text \<open>
  The set-up of a thread for the modes of the skip list, and what a round keeps of it. \<open>hold\<close>: the thread has
  inserted a value that it has not removed since. \<open>books\<close>: what it has added minus what it has removed.
\<close>

definition ok_tester :: "nat \<Rightarrow> tester \<Rightarrow> bool" where
  "ok_tester lm d \<longleftrightarrow> \<not> d_es d \<and> \<not> d_lin d \<and> d_unit_tx d \<noteq> 0 \<and> 0 < d_range d \<and> d_range d < 2 ^ 31 - 1 \<and>
     d_first d < VAL_MAX \<and> (0 \<le> l_last d \<longrightarrow> word_of_int (l_last d) < VAL_MAX) \<and>
     (d_update d = 0 \<longrightarrow> \<not> l_unext d) \<and> (d_sl d \<longrightarrow> spray_fits lm (nb_threads (d_del d)))"

definition hold :: "tester \<Rightarrow> nat" where
  "hold d = (if 0 \<le> l_last d \<and> d_update d \<noteq> 0 then 1 else 0)"

definition books :: "tester \<Rightarrow> u64" where
  "books d = d_added d - d_removed d"

lemma sint_low: "unat (w :: 'a :: len word) < 2 ^ (LENGTH('a) - 1) \<Longrightarrow> sint w = int (unat w)"
proof -
  assume u: "unat w < 2 ^ (LENGTH('a) - 1)"
  have "uint w < 2 ^ (LENGTH('a) - 1)" using u by (metis of_nat_less_iff of_nat_numeral of_nat_power uint_nat)
  moreover have "0 \<le> uint w" by simp
  then have "- (2 ^ (LENGTH('a) - 1)) \<le> uint w" by (rule order.trans [rotated]) simp
  ultimately have "signed_take_bit (LENGTH('a) - 1) (uint w) = uint w" by (intro signed_take_bit_int_eq_self)
  then show ?thesis by (simp add: sint_uint)
qed

lemma mod_range:
  fixes x r :: u64
  assumes "0 < r" "r < 2 ^ 31 - 1"
  shows "(ucast (x mod r + 1) :: u32) < VAL_MAX" "0 < sint (x mod r + 1)" "sint (x mod r + 1) \<le> uint r"
proof -
  have r: "0 < unat r" "unat r < 2 ^ 31 - 1" using assms by (simp_all add: word_less_nat_alt unat_gt_0)
  have m: "unat (x mod r) < unat r" using r(1) by (simp add: unat_mod)
  have u: "unat (x mod r + 1) = unat (x mod r) + 1"
    using m r(2) by (subst unat_add_lem [THEN iffD1]) simp_all
  have "unat (ucast (x mod r + 1) :: u32) = unat (x mod r) + 1"
    using m r(2) by (simp add: unsigned_ucast_eq u take_bit_nat_eq_self)
  moreover have "unat VAL_MAX = 2 ^ 31 - 1" by (simp add: VAL_MAX_def)
  ultimately show "(ucast (x mod r + 1) :: u32) < VAL_MAX" unfolding word_less_nat_alt using m r(2) by linarith
  have "sint (x mod r + 1) = int (unat (x mod r) + 1)"
    using m r(2) sint_low [of "x mod r + 1"] by (simp add: u)
  moreover have "uint r = int (unat r)" by simp
  ultimately show "0 < sint (x mod r + 1)" "sint (x mod r + 1) \<le> uint r" using m by linarith+
qed

lemma low_sint: "v < VAL_MAX \<Longrightarrow> 0 \<le> sint (v :: u32)"
  using sint_low [of v] by (simp add: VAL_MAX_def word_less_nat_alt)

lemma test_rand_next:
  obtains v ss where "test_rand r d = (v, d\<lparr>l_seeds := ss\<rparr>)" "\<exists>x. v = x mod r + 1"
  by (cases "xorshf96 (l_seeds d)") (auto simp: test_rand_def rand_range_re_def)

lemma next_ok:
  assumes "ok_tester lm d"
  shows "ok_tester lm (test_next d) \<and> hold (test_next d) = hold d \<and> books (test_next d) = books d"
proof -
  obtain v ss where r: "test_rand 100 d = (v, d\<lparr>l_seeds := ss\<rparr>)" "\<exists>x. v = x mod 100 + 1" by (rule test_rand_next)
  have "0 < sint v" using r(2) mod_range(2) [of 100] by auto
  then show ?thesis using assms r(1) by (auto simp: test_next_def test_first_def ok_tester_def hold_def books_def)
qed

text \<open>A change of the set that is booked: the size less the books is what it was.\<close>

definition booked :: "u32 set \<Rightarrow> tester \<Rightarrow> u32 set \<Rightarrow> tester \<Rightarrow> bool" where
  "booked K d K' d' \<longleftrightarrow> of_nat (card K') - books d' = of_nat (card K) - books d \<and> card K + hold d' \<le> card K' + hold d"

lemma booked_add: "finite K \<Longrightarrow> v \<notin> K \<Longrightarrow> books d' = books d + 1 \<Longrightarrow> hold d' \<le> hold d + 1 \<Longrightarrow> booked K d (insert v K) d'"
  by (simp add: booked_def)

lemma booked_remove:
  assumes "finite K" "v \<in> K" "books d' = books d - 1" "hold d' + 1 \<le> hold d"
  shows "booked K d (K - {v}) d'"
proof -
  have c: "card K = Suc (card (K - {v}))" using card_Suc_Diff1 [of K v] assms(1,2) by simp
  show ?thesis unfolding booked_def c using assms(3,4) by simp
qed

lemma booked_same: "books d' = books d \<Longrightarrow> hold d' \<le> hold d \<Longrightarrow> booked K d K d'"
  by (simp add: booked_def)

lemmas tester_defs = ok_tester_def hold_def books_def

lemma note_removed_fields [simp]:
  "d_removed (note_removed v d) = d_removed d + 1" "d_added (note_removed v d) = d_added d" "l_last (note_removed v d) = l_last d"
  "d_update (note_removed v d) = d_update d" "ok_tester lm (note_removed v d) = ok_tester lm d"
  by (simp_all add: note_removed_def ok_tester_def)

lemma group_swap:
  fixes c :: "'a :: ab_group_add"
  assumes "t' + x = t + y" "c' - y = c - x"
  shows "c' - t' = c - t"
proof -
  have "t' = t + y - x" using assms(1) by (simp add: eq_diff_eq)
  moreover have "c' = c - x + y" using assms(2) by (metis diff_add_cancel)
  ultimately show ?thesis by simp
qed

lemma sum_list_replace:
  fixes g :: "'a \<Rightarrow> 'b :: comm_monoid_add"
  assumes "t < length ds"
  shows "sum_list (map g (ds[t := d'])) + g (ds ! t) = sum_list (map g ds) + g d'"
  using assms
proof (induction ds arbitrary: t)
  case (Cons d ds)
  show ?case
  proof (cases t)
    case (Suc k)
    then show ?thesis using Cons.IH [of k] Cons.prems by (simp add: add.assoc)
  qed (simp add: add.assoc add.commute add.left_commute)
qed simp

context test_set
begin

definition keeps :: "u32 set \<Rightarrow> tester \<Rightarrow> nat \<Rightarrow> (tester \<times> world) option \<Rightarrow> bool" where
  "keeps K d m r \<longleftrightarrow> (\<exists>d' w' K'. r = Some (d', w') \<and> rep (w_set w') K' m \<and> ok_tester lm d' \<and> booked K d K' d')"

lemma keepsI: "r = Some (d', w') \<Longrightarrow> rep (w_set w') K' m \<Longrightarrow> ok_tester lm d' \<Longrightarrow> booked K d K' d' \<Longrightarrow> keeps K d m r"
  unfolding keeps_def by blast

lemma on_set_Some:
  assumes "g ((w_set w)\<lparr>sl_seeds := l_seeds d\<rparr>) = Some (r, s')"
  shows "on_set g d w = Some (r, d\<lparr>l_seeds := sl_seeds s'\<rparr>, w\<lparr>w_set := s'\<rparr>)"
  using assms by (simp add: on_set_def)

lemma insert_op_keeps:
  assumes ok: "ok_tester lm d" and r: "rep (w_set w) K (m + 6)" and last: "l_last d < 0"
  shows "keeps K d m (test_insert_op b f alloc d w)"
proof -
  obtain v ss where v: "test_rand (d_range d) d = (v, d\<lparr>l_seeds := ss\<rparr>)" "\<exists>x. v = x mod d_range d + 1" by (rule test_rand_next)
  let ?d = "d\<lparr>l_seeds := ss, l_val := ucast v\<rparr>" and ?v = "ucast v :: u32"
  have low: "?v < VAL_MAX" using v(2) mod_range(1) ok by (auto simp: ok_tester_def)
  have "rep ((w_set w)\<lparr>sl_seeds := l_seeds ?d\<rparr>) K (m + 6)" using r by (simp add: seeds)
  then obtain s' where s': "sl_add b f ?v (d_unit_tx ?d) ((w_set w)\<lparr>sl_seeds := l_seeds ?d\<rparr>) = Some (?v \<notin> K, s')" "rep s' (insert ?v K) m"
    using add [OF _ low, of _ K m "d_unit_tx ?d"] ok by (auto simp: ok_tester_def)
  have a: "test_add b f ?v ?d w = Some (?v \<notin> K, ?d\<lparr>l_seeds := sl_seeds s'\<rparr>, w\<lparr>w_set := s'\<rparr>)"
    unfolding test_add_def by (rule on_set_Some) (rule s'(1))
  have fin: "finite K" using bound [OF r] by blast
  show ?thesis
  proof (cases "?v \<in> K")
    case True
    let ?d' = "?d\<lparr>l_seeds := sl_seeds s', d_add := d_add d + 1\<rparr>"
    have "booked K d K ?d'" by (rule booked_same) (simp_all add: tester_defs)
    moreover have "ok_tester lm ?d'" using ok by (simp add: ok_tester_def)
    ultimately show ?thesis using v(1) a ok s'(2) True
      by (intro keepsI [where d' = ?d' and w' = "w\<lparr>w_set := s'\<rparr>" and K' = K]) (simp_all add: test_insert_op_def ok_tester_def insert_absorb)
  next
    case False
    let ?d' = "?d\<lparr>l_seeds := sl_seeds s', d_added := d_added d + 1, l_last := sint ?v, d_add := d_add d + 1\<rparr>"
    have "booked K d (insert ?v K) ?d'" by (rule booked_add [OF fin False]) (simp_all add: tester_defs)
    moreover have "ok_tester lm ?d'" using ok low by (simp add: ok_tester_def)
    ultimately show ?thesis using v(1) a ok s'(2) False
      by (intro keepsI [where d' = ?d' and w' = "w\<lparr>w_set := s'\<rparr>" and K' = "insert ?v K"]) (simp_all add: test_insert_op_def ok_tester_def)
  qed
qed

lemma gone:
  assumes "r1 = Some (d', w\<lparr>w_set := s'\<rparr>)" "rep s' (K - {v}) m" "v \<in> K" "finite K" "ok_tester lm d'" "hold d = 1"
    "d_added d' = d_added d" "d_removed d' = d_removed d + 1" "l_last d' = - 1"
  shows "keeps K d m r1"
proof (rule keepsI [OF assms(1) _ assms(5)])
  show "rep (w_set (w\<lparr>w_set := s'\<rparr>)) (K - {v}) m" using assms(2) by simp
  show "booked K d (K - {v}) d'"
    by (rule booked_remove [OF assms(4,3)]) (use assms(6-9) in \<open>simp_all add: books_def hold_def\<close>)
qed

lemma stay:
  assumes "r1 = Some (d', w\<lparr>w_set := s'\<rparr>)" "rep s' K m" "ok_tester lm d'"
    "d_added d' = d_added d" "d_removed d' = d_removed d" "d_update d' = d_update d" "l_last d' = l_last d \<or> l_last d' < 0 \<or> d_update d = 0"
  shows "keeps K d m r1"
proof (rule keepsI [OF assms(1) _ assms(3)])
  show "rep (w_set (w\<lparr>w_set := s'\<rparr>)) K m" using assms(2) by simp
  show "booked K d K d'" by (rule booked_same) (use assms(4-7) in \<open>auto simp: books_def hold_def\<close>)
qed

text \<open>The four ways to remove, for a thread that holds a value.\<close>

lemma remove_naive_keeps:
  assumes ok: "ok_tester lm d" and r: "rep (w_set w) K (m + 6)" and h: "hold d = 1" "K \<noteq> {}" and mode: "d_pq d"
  shows "keeps K d m (test_remove_op b f alloc d w)"
proof -
  have fin: "finite K" using bound [OF r] by blast
  have rs: "rep ((w_set w)\<lparr>sl_seeds := l_seeds d\<rparr>) K (m + 6)" using r by (simp add: seeds)
  obtain s' where s': "naive_delete_min f (d_del d) ((w_set w)\<lparr>sl_seeds := l_seeds d\<rparr>) = Some (1, Some (Min K), d_del d, s')"
    "rep s' (K - {Min K}) m"
    using naive [OF rs h(2)] by blast
  let ?d' = "(note_removed (sint (Min K)) (d\<lparr>l_val := Min K, l_seeds := sl_seeds s'\<rparr>))\<lparr>l_last := - 1, d_remove := d_remove d + 1\<rparr>"
  have "test_remove_op b f alloc d w = Some (?d', w\<lparr>w_set := s'\<rparr>)"
    using mode s'(1) by (simp add: test_remove_op_def test_delete_def note_removed_def)
  then show ?thesis
    by (rule gone [OF _ s'(2) Min_in [OF fin h(2)] fin _ h(1)]) (use ok in \<open>simp_all add: ok_tester_def note_removed_def\<close>)
qed

lemma remove_spray_keeps:
  assumes ok: "ok_tester lm d" and r: "rep (w_set w) K (m + 6)" and h: "hold d = 1" "K \<noteq> {}" "18 \<le> m"
    and mode: "\<not> d_pq d" "d_sl d"
  shows "keeps K d m (test_remove_op b f alloc d w)"
proof -
  let ?s = "(w_set w)\<lparr>sl_seeds := l_seeds d\<rparr>"
  have fin: "finite K" using bound [OF r] by blast
  have rs: "rep ?s K (m + 6)" using r by (simp add: seeds)
  have fits: "spray_fits lm (nb_threads (d_del d))" using ok mode by (simp add: ok_tester_def)
  obtain td where td: "nb_threads td = nb_threads (d_del d)"
    "(\<exists>s'. spray_delete_min f (d_del d) ?s = Some (0, None, td, s') \<and> rep s' K m) \<or>
     (\<exists>s' v. spray_delete_min f (d_del d) ?s = Some (1, Some v, td, s') \<and> v \<in> K \<and> rep s' (K - {v}) m)"
    using spray [OF rs h(2,3) fits] by blast
  from td(2) show ?thesis
  proof (elim disjE exE conjE)
    fix s' assume s': "spray_delete_min f (d_del d) ?s = Some (0, None, td, s')" "rep s' K m"
    let ?d' = "d\<lparr>d_del := td, l_seeds := sl_seeds s', d_remove := d_remove d + 1\<rparr>"
    have "test_remove_op b f alloc d w = Some (?d', w\<lparr>w_set := s'\<rparr>)"
      using mode s'(1) by (simp add: test_remove_op_def test_delete_def)
    then show ?thesis by (rule stay [OF _ s'(2)]) (use ok td(1) in \<open>simp_all add: ok_tester_def\<close>)
  next
    fix s' v assume s': "spray_delete_min f (d_del d) ?s = Some (1, Some v, td, s')" "v \<in> K" "rep s' (K - {v}) m"
    let ?d' = "(note_removed (sint v) (d\<lparr>d_del := td, l_val := v, l_seeds := sl_seeds s'\<rparr>))\<lparr>l_last := - 1, d_remove := d_remove d + 1\<rparr>"
    have "test_remove_op b f alloc d w = Some (?d', w\<lparr>w_set := s'\<rparr>)"
      using mode s'(1) by (simp add: test_remove_op_def test_delete_def note_removed_def)
    then show ?thesis by (rule gone [OF _ s'(3,2) fin _ h(1)]) (use ok td(1) in \<open>simp_all add: ok_tester_def note_removed_def\<close>)
  qed
qed

lemma remove_last_keeps:
  assumes ok: "ok_tester lm d" and r: "rep (w_set w) K (m + 6)" and h: "hold d = 1"
    and mode: "\<not> d_pq d" "\<not> d_sl d" "d_alternate d"
  shows "keeps K d m (test_remove_op b f alloc d w)"
proof -
  let ?s = "(w_set w)\<lparr>sl_seeds := l_seeds d\<rparr>" and ?v = "word_of_int (l_last d) :: u32"
  have fin: "finite K" using bound [OF r] by blast
  have rs: "rep ?s K (m + 6)" using r by (simp add: seeds)
  have low: "?v < VAL_MAX" and lin: "\<not> d_lin d" using ok h by (simp_all add: ok_tester_def hold_def split: if_splits)
  obtain s' where s': "sl_remove b f ?v (d_unit_tx d) ?s = Some (?v \<in> K, s')" "rep s' (K - {?v}) m"
    using remove [OF rs low] by blast
  have e: "test_remove b f ?v d w = Some (?v \<in> K, d\<lparr>l_seeds := sl_seeds s'\<rparr>, w\<lparr>w_set := s'\<rparr>)"
    unfolding test_remove_def by (rule on_set_Some) (rule s'(1))
  let ?d = "d\<lparr>l_seeds := sl_seeds s'\<rparr>"
  let ?d' = "(if ?v \<in> K then note_removed (sint (l_val d)) ?d else ?d)\<lparr>l_last := - 1, d_remove := d_remove d + 1\<rparr>"
  have t: "test_remove_op b f alloc d w = Some (?d', w\<lparr>w_set := s'\<rparr>)"
    using mode lin e by (simp add: test_remove_op_def note_removed_def)
  have okd: "ok_tester lm ?d'" using ok by (simp add: ok_tester_def note_removed_def)
  show ?thesis
  proof (cases "?v \<in> K")
    case True
    then show ?thesis by (intro gone [OF t s'(2) True fin okd h]) simp_all
  next
    case False
    then have s2: "rep s' K m" using s'(2) by simp
    show ?thesis by (rule stay [OF t s2 okd]) (use False in simp_all)
  qed
qed

lemma remove_succ_keeps:
  assumes ok: "ok_tester lm d" and r: "rep (w_set w) K (m + 6)" and h: "hold d = 1"
    and mode: "\<not> d_pq d" "\<not> d_sl d" "\<not> d_alternate d"
  shows "keeps K d m (test_remove_op b f alloc d w)"
proof -
  have fin: "finite K" using bound [OF r] by blast
  have lin: "\<not> d_lin d" using ok by (simp add: ok_tester_def)
  obtain v ss where v: "test_rand (d_range d) d = (v, d\<lparr>l_seeds := ss\<rparr>)" "\<exists>x. v = x mod d_range d + 1" by (rule test_rand_next)
  let ?d = "d\<lparr>l_seeds := ss, l_val := ucast v\<rparr>" and ?v = "ucast v :: u32"
  let ?s = "(w_set w)\<lparr>sl_seeds := l_seeds ?d\<rparr>"
  have low: "?v < VAL_MAX" using v(2) mod_range(1) ok by (auto simp: ok_tester_def)
  have "rep ?s K (m + 6)" using r by (simp add: seeds)
  from remove_succ [OF this low, of "d_unit_tx ?d"] show ?thesis
  proof (elim disjE exE conjE)
    fix s' assume s': "sl_remove_succ f ?v (d_unit_tx ?d) ?s = Some (False, s')" "rep s' K m"
    let ?d' = "?d\<lparr>l_seeds := sl_seeds s', d_remove := d_remove d + 1\<rparr>"
    have "test_remove_succ f ?v ?d w = Some (False, ?d\<lparr>l_seeds := sl_seeds s'\<rparr>, w\<lparr>w_set := s'\<rparr>)"
      unfolding test_remove_succ_def by (rule on_set_Some) (rule s'(1))
    then have "test_remove_op b f alloc d w = Some (?d', w\<lparr>w_set := s'\<rparr>)"
      using mode lin v(1) by (simp add: test_remove_op_def)
    then show ?thesis by (rule stay [OF _ s'(2)]) (use ok in \<open>simp_all add: ok_tester_def\<close>)
  next
    fix s' k assume s': "sl_remove_succ f ?v (d_unit_tx ?d) ?s = Some (True, s')" "k \<in> K" "rep s' (K - {k}) m"
    let ?d' = "(note_removed (sint ?v) (?d\<lparr>l_seeds := sl_seeds s'\<rparr>))\<lparr>l_last := - 1, d_remove := d_remove d + 1\<rparr>"
    have "test_remove_succ f ?v ?d w = Some (True, ?d\<lparr>l_seeds := sl_seeds s'\<rparr>, w\<lparr>w_set := s'\<rparr>)"
      unfolding test_remove_succ_def by (rule on_set_Some) (rule s'(1))
    then have "test_remove_op b f alloc d w = Some (?d', w\<lparr>w_set := s'\<rparr>)"
      using mode lin v(1) by (simp add: test_remove_op_def note_removed_def)
    then show ?thesis by (rule gone [OF _ s'(3,2) fin _ h]) (use ok in \<open>simp_all add: ok_tester_def note_removed_def\<close>)
  qed
qed

lemma read_op_keeps:
  assumes ok: "ok_tester lm d" and r: "rep (w_set w) K (m + 6)"
  shows "keeps K d m (test_read_op b f d w)"
proof -
  obtain v ss where v: "test_rand (d_range d) d = (v, d\<lparr>l_seeds := ss\<rparr>)" "\<exists>x. v = x mod d_range d + 1" by (rule test_rand_next)
  have lowv: "(ucast v :: u32) < VAL_MAX" using v(2) mod_range(1) ok by (auto simp: ok_tester_def)
  let ?d = "read_val d"
  have okd: "ok_tester lm ?d" "l_val ?d < VAL_MAX" "d_added ?d = d_added d" "d_removed ?d = d_removed d"
      "d_update ?d = d_update d" "l_last ?d = l_last d \<or> l_last ?d < 0 \<or> d_update d = 0"
    using ok lowv by (auto simp: read_val_def Let_def v(1) ok_tester_def)
  have "rep ((w_set w)\<lparr>sl_seeds := l_seeds ?d\<rparr>) K (m + 6)" using r by (simp add: seeds)
  then obtain s' where s': "sl_contains b f (l_val ?d) (d_unit_tx ?d) ((w_set w)\<lparr>sl_seeds := l_seeds ?d\<rparr>) = Some (l_val ?d \<in> K, s')" "rep s' K m"
    using contains [OF _ okd(2)] by blast
  have "test_contains b f (l_val ?d) ?d w = Some (l_val ?d \<in> K, ?d\<lparr>l_seeds := sl_seeds s'\<rparr>, w\<lparr>w_set := s'\<rparr>)"
    unfolding test_contains_def by (rule on_set_Some) (rule s'(1))
  then have "test_read_op b f d w = Some (?d\<lparr>l_seeds := sl_seeds s', d_found := (if l_val ?d \<in> K then d_found ?d + 1 else d_found ?d),
      d_contains := d_contains ?d + 1\<rparr>, w\<lparr>w_set := s'\<rparr>)"
    by (simp add: test_read_op_def)
  then show ?thesis by (rule stay [OF _ s'(2)]) (use okd in \<open>simp_all add: ok_tester_def\<close>)
qed

lemma round_keeps:
  assumes ok: "ok_tester lm d" and r: "rep (w_set w) K (m + 6)" and m: "18 \<le> m" and h: "hold d \<le> card K"
  shows "keeps K d m (test_round b f alloc d w)"
proof -
  have es: "\<not> d_es d" using ok by (simp add: ok_tester_def)
  let ?op = "if l_unext d then if l_last d < 0 then test_insert_op b f alloc d w else test_remove_op b f alloc d w
    else test_read_op b f d w"
  have "keeps K d m ?op"
  proof (cases "l_unext d \<and> 0 \<le> l_last d")
    case True
    then have h1: "hold d = 1" using ok by (auto simp: ok_tester_def hold_def)
    then have ne: "K \<noteq> {}" using h by auto
    show ?thesis using True remove_naive_keeps [OF ok r h1 ne] remove_spray_keeps [OF ok r h1 ne m]
      remove_last_keeps [OF ok r h1] remove_succ_keeps [OF ok r h1]
      by (cases "d_pq d"; cases "d_sl d"; cases "d_alternate d") auto
  next
    case False
    then show ?thesis using insert_op_keeps [OF ok r] read_op_keeps [OF ok r] by auto
  qed
  then obtain d' w' K' where k: "?op = Some (d', w')" "rep (w_set w') K' m" "ok_tester lm d'" "booked K d K' d'"
    unfolding keeps_def by blast
  have "test_round b f alloc d w = Some (test_next d', w')" using es k(1) by (simp add: test_round_def)
  moreover have "booked K d K' (test_next d')" using k(4) next_ok [OF k(3)] by (simp add: booked_def)
  ultimately show ?thesis using k(2) next_ok [OF k(3)] by (intro keepsI) auto
qed

lemma run_keeps:
  assumes "rep (w_set w) K (m + 6 * length ts)" "18 \<le> m" "\<forall>d \<in> set ds. ok_tester lm d" "\<forall>t \<in> set ts. t < length ds"
    "sum_list (map hold ds) \<le> card K"
  shows "\<exists>ds' w' K'. test_run b f alloc ts ds w = Some (ds', w') \<and> rep (w_set w') K' m \<and>
    of_nat (card K') - sum_list (map books ds') = of_nat (card K) - sum_list (map books ds)"
  using assms
proof (induction ts arbitrary: ds w K)
  case Nil
  then show ?case by auto
next
  case (Cons t ts)
  have t: "t < length ds" "ds ! t \<in> set ds" using Cons.prems(4) by auto
  have h: "hold (ds ! t) \<le> card K" using Cons.prems(5) member_le_sum_list [of "hold (ds ! t)" "map hold ds"] t(2) by auto
  have "rep (w_set w) K ((m + 6 * length ts) + 6)" using Cons.prems(1) by (simp add: algebra_simps)
  then have "keeps K (ds ! t) (m + 6 * length ts) (test_round b f alloc (ds ! t) w)"
    using Cons.prems(2,3) t(2) h by (intro round_keeps) auto
  then obtain d' w' K' where r: "test_round b f alloc (ds ! t) w = Some (d', w')" "rep (w_set w') K' (m + 6 * length ts)"
    "ok_tester lm d'" "booked K (ds ! t) K' d'"
    unfolding keeps_def by blast
  let ?ds = "ds[t := d']"
  note su = sum_list_replace [OF t(1), of _ d']
  have hs: "sum_list (map hold ?ds) \<le> card K'" using su [of hold] r(4) Cons.prems(5) by (simp add: booked_def)
  have "of_nat (card K') - sum_list (map books ?ds) = of_nat (card K) - sum_list (map books ds)"
    by (rule group_swap [OF su]) (use r(4) in \<open>simp add: booked_def\<close>)
  moreover have "\<forall>d \<in> set ?ds. ok_tester lm d" using Cons.prems(3) r(3) set_update_subset_insert [of ds t d'] by auto
  moreover have "\<forall>t \<in> set ts. t < length ?ds" using Cons.prems(4) by simp
  ultimately show ?case using Cons.IH [OF r(2) Cons.prems(2) _ _ hs] r(1) by auto
qed

end

section \<open>The expected size\<close>











end
