(* ===== verification/TestEvents.thy ===== *)
theory TestEvents
  imports TestProg
begin

text \<open>
  The event simulator of \<^verbatim>\<open>test.c\<close>: the events that it generates, and where it leaves its arrays or its queue's range.
\<close>

section \<open>Events depend on later events only\<close>

lemma isqrt_le: "isqrt n \<le> n"
  by (induction n) (auto simp: Let_def)

lemma isqrt_pos: "0 < n \<Longrightarrow> 0 < isqrt n"
proof (induction n)
  case (Suc n)
  then show ?case by (cases n) (auto simp: Let_def)
qed simp

lemma rand_above:
  assumes "0 < unat r" "unat r < 2 ^ 63"
  shows "0 < unat (fst (rand_range_re r ss)) \<and> unat (fst (rand_range_re r ss)) \<le> unat r"
proof -
  obtain x where x: "fst (rand_range_re r ss) = x mod r + 1" by (simp add: rand_range_re_def split_beta)
  have "unat (x mod r) < unat r" using assms(1) by (simp add: unat_mod)
  moreover from this have "unat (x mod r + 1) = unat (x mod r) + 1" using assms(2) by (subst unat_add_lem [THEN iffD1]) simp_all
  ultimately show ?thesis unfolding x by simp
qed

lemma dep_value:
  assumes i: "0 \<le> i" "i < initial - 1" "initial \<le> 2 ^ 31"
    and e: "0 < unat e" "unat e < 2 ^ 31"
  defines "dep \<equiv> ucast (ucast (word_of_int i + 1 :: u32) + e :: u64) :: u32"
  shows "i < uint (if dep \<ge> word_of_int initial then word_of_int (initial - 1) else dep)"
    "uint (if dep \<ge> word_of_int initial then word_of_int (initial - 1) else dep) < initial"
proof -
  have wi: "uint (word_of_int k :: u32) = k" if "0 \<le> k" "k \<le> 2 ^ 31" for k
    using that by (simp add: uint_word_of_int_eq take_bit_int_eq_self)
  have ui: "uint (word_of_int i + 1 :: u32) = i + 1"
    using wi [of "i + 1"] i by simp
  have ue: "uint e = int (unat e)" by simp
  have "int (unat e) < int (2 ^ 31)" using e(2) by (simp only: of_nat_less_iff)
  then have ul: "uint e < 2 ^ 31" by simp
  have e0: "0 < uint e" using e(1) ue by linarith
  have w1: "uint (word_of_int (initial - 1) :: u32) = initial - 1" using wi [of "initial - 1"] i by simp
  have "uint (ucast (word_of_int i + 1 :: u32) + e :: u64) = i + 1 + uint e"
    using i ul ui by (subst uint_add_lem [THEN iffD1]) (simp_all add: unsigned_ucast_eq take_bit_int_eq_self)
  then have ud: "uint dep = i + 1 + uint e"
    using i ul unfolding dep_def by (simp add: unsigned_ucast_eq take_bit_int_eq_self)
  have le: "dep \<ge> word_of_int initial \<longleftrightarrow> initial \<le> uint dep" using wi [of initial] i by (simp add: word_le_def)
  show "i < uint (if dep \<ge> word_of_int initial then word_of_int (initial - 1) else dep)"
    "uint (if dep \<ge> word_of_int initial then word_of_int (initial - 1) else dep) < initial"
    using le ud e0 i(1,2) w1 by (simp_all split: if_split)
qed

lemma gen_deps_later:
  assumes i: "0 \<le> i" "initial \<le> 2 ^ 31" and d: "0 < unat depdist" "unat depdist < 2 ^ 29"
  shows "\<exists>ds ss'. gen_deps k i initial depdist ss = Some (ds, ss') \<and> length ds \<le> k \<and> (\<forall>x \<in> set ds. i < uint x \<and> uint x < initial)"
proof (induction k arbitrary: ss)
  case (Suc k)
  show ?case
  proof (cases "i < initial - 1")
    case True
    obtain v ss1 where v: "rand_range_re 3 ss = (v, ss1)" by (cases "rand_range_re 3 ss")
    show ?thesis
    proof (cases "v mod 2 \<noteq> 0")
      case odd: True
      let ?q = "isqrt (unat depdist)" and ?dv = "of_nat (isqrt (unat depdist)) :: u64"
      have q: "0 < ?q" "?q \<le> unat depdist" using isqrt_pos [OF d(1)] isqrt_le by simp_all
      have dv: "unat ?dv = ?q" using q d(2) by (simp add: unat_of_nat take_bit_nat_eq_self)
      have dv2: "unat (2 * ?dv) = 2 * ?q" using q d(2) dv by (subst unat_mult_lem [THEN iffD1]) simp_all
      then have nz: "2 * ?dv \<noteq> 0" using q(1) by (metis less_numeral_extra(3) mult_is_0 unat_0 zero_neq_numeral)
      have small: "\<not> ?dv \<ge> 2 ^ 30" using q d(2) dv by (simp add: word_le_nat_alt)
      obtain r ss2 where r: "rand_range_re (2 * ?dv) ss1 = (r, ss2)" by (cases "rand_range_re (2 * ?dv) ss1")
      have ur: "0 < unat r" "unat r \<le> 2 * ?q" using rand_above [of "2 * ?dv" ss1] dv2 q d(2) r by simp_all
      have add: "unat (depdist + r) = unat depdist + unat r" using d(2) ur(2) q by (subst unat_add_lem [THEN iffD1]) simp_all
      have sub: "unat (depdist + r - ?dv) = unat depdist + unat r - ?q"
        using add dv q by (subst unat_sub) (simp_all add: word_le_nat_alt)
      have e: "0 < unat (depdist + r - ?dv)" "unat (depdist + r - ?dv) < 2 ^ 31"
        using sub q ur d(2) by simp_all
      obtain ds ss3 where ds: "gen_deps k i initial depdist ss2 = Some (ds, ss3)" "length ds \<le> k"
        "\<forall>x \<in> set ds. i < uint x \<and> uint x < initial"
        using Suc.IH [of ss2] by blast
      show ?thesis
        using True odd v nz small r ds dep_value [OF i(1) True i(2) e] by (cases ss3) simp
    next
      case False
      then show ?thesis using True v by (cases ss1) simp
    qed
  qed (cases ss, simp)
qed (metis (no_types) gen_deps.simps(1) list.size(3) list.set(1) empty_iff le0)

text \<open>
  C36. An event never depends on itself or an earlier one, so that the simulation goes forward: with a dependency distance
  of at least 1 (and sizes that fit) every dependency of event \<open>i\<close> lies after \<open>i\<close> and is an event.
\<close>

theorem events_later:
  assumes "0 \<le> i" "initial \<le> 2 ^ 31" "0 < unat depdist" "unat depdist < 2 ^ 29"
  shows "\<exists>ds ss'. gen_deps MAX_DEPS i initial depdist ss = Some (ds, ss') \<and> length ds \<le> MAX_DEPS \<and>
    (\<forall>x \<in> set ds. i < uint x \<and> uint x < initial)"
  using gen_deps_later [OF assms] .

theorem events_later_witness:
  "\<exists>ds ss'. gen_deps MAX_DEPS 7 1024 100 (1, 2, 3) = Some (ds, ss') \<and> (\<forall>x \<in> set ds. 7 < uint x)"
  using events_later [of 7 1024 100 "(1, 2, 3)"] by auto

section \<open>Where it goes wrong\<close>

text \<open>
  The loop over the dependencies reads \<^verbatim>\<open>deps[val][i]\<close> before it compares \<open>i\<close> with \<^verbatim>\<open>MAX_DEPS\<close>: an event with the full
  number of dependencies, which \<^verbatim>\<open>main\<close> can generate, makes it read past the array.
\<close>

lemma overrun_from:
  assumes "length ds = MAX_DEPS" "\<forall>x \<in> set ds. x \<noteq> - 1" "i \<le> MAX_DEPS"
  shows "set_deps b f ds i d w = None"
  using assms(3)
proof (induction "MAX_DEPS - i" arbitrary: i d w)
  case 0
  then show ?case using assms(1) by (subst set_deps.simps) simp
next
  case (Suc k)
  then have i: "i < MAX_DEPS" "k = MAX_DEPS - (i + 1)" "i + 1 \<le> MAX_DEPS" by simp_all
  have "ds ! i \<noteq> - 1" using assms(1,2) i(1) by simp
  then show ?case using i assms(1) Suc.hyps(1) [OF i(2,3)]
    by (subst set_deps.simps) (auto simp: Let_def bind_eq_None_conv split: prod.splits)
qed

theorem events_overrun:
  assumes "length ds = MAX_DEPS" "\<forall>x \<in> set ds. x \<noteq> - 1"
  shows "deps_row ds junk = ds \<and> set_deps b f (deps_row ds junk) 0 d w = None"
  using assms overrun_from [OF assms] by (simp add: deps_row_def)

theorem events_overrun_witness:
  "\<exists>ds ss'. gen_deps MAX_DEPS 0 100 4 (0, 0, 0) = Some (ds, ss') \<and> (\<forall>b f d w. set_deps b f (deps_row ds []) 0 d w = None)"
proof -
  have r: "rand_range_re r (0, 0, 0) = (0 mod r + 1, (0, 0, 0))" for r by (simp add: rand_range_re_def xorshf96_def)
  have q: "isqrt 4 = 2" by (simp add: numeral_eq_Suc Let_def)
  have "gen_deps k 0 100 4 (0, 0, 0) = Some (replicate k 4, (0, 0, 0))" for k
    by (induction k) (simp_all add: r q)
  moreover have "set_deps b f (deps_row (replicate MAX_DEPS 4) []) 0 d w = None" for b f d w
    using events_overrun [of "replicate MAX_DEPS 4" "[]" b f d w] by auto
  ultimately show ?thesis by blast
qed

text \<open>
  With the Linden queue, the first event has the number 0, which is no key of that queue: the assertion of \<^verbatim>\<open>insert\<close> fails.
\<close>

theorem events_lin_zero:
  "fill_events f b alloc (p\<lparr>o_lin := True\<rparr>) junk 0 (Suc n) w l = None"
proof -
  have "lin_alone g alloc s (l\<lparr>pc := Crashed e\<rparr>) = None" for g s l e by (cases g) simp_all
  then have "lin_insert f alloc 0 0 (w_lin w) l = None"
    by (cases f) (simp_all add: lin_insert_def call_insert_def thread_step_def insert_step_def insert_assert_def SENTINEL_KEYMIN_def crash_def)
  then show ?thesis by simp
qed

end
