(* ===== verification/Perf.thy ===== *)
theory Perf
  imports Bench Linden_Spec
begin

text \<open>
  The benchmark program of the Linden-Jonsson queue (\<^verbatim>\<open>lib/linden/perf_meas.c\<close>): its options, the table of the
  DES workload, the pre-filling, the two workloads, the threads and \<^verbatim>\<open>main\<close>. The queue is the sequential
  specification that \<^verbatim>\<open>insert\<close> and \<^verbatim>\<open>deletemin\<close> are linearised to.
\<close>

section \<open>The queue as a client sees it\<close>

type_synonym entries = "(u32 \<times> u32) list"

definition pq_put :: "u32 \<Rightarrow> u32 \<Rightarrow> entries \<Rightarrow> entries" where
  "pq_put k v q = (if k \<in> fst ` set q then q else insort_key fst (k, v) q)"

definition pq_take :: "entries \<Rightarrow> entries" where
  "pq_take q = drop 1 q"

lemma sorted_keys_distinct: "sorted_wrt (<) (map fst q) \<Longrightarrow> distinct (map (fst :: 'a::linorder \<times> 'b \<Rightarrow> 'a) q)"
  using strict_sorted_iff by blast

lemma pq_put_sorted: "sorted_wrt (<) (map fst q) \<Longrightarrow> sorted_wrt (<) (map fst (pq_put k v q))"
  by (simp add: pq_put_def strict_sorted_iff sorted_insort_key distinct_map set_insort_key inj_on_def) (force simp: distinct_insort)

lemma pq_take_sorted: "sorted_wrt (<) (map fst q) \<Longrightarrow> sorted_wrt (<) (map fst (pq_take q))"
  by (cases q) (simp_all add: pq_take_def)

lemma pq_put_keys: "fst ` set (pq_put k v q) = insert k (fst ` set q)"
  by (auto simp: pq_put_def set_insort_key)

lemma pq_put_length: "k \<notin> fst ` set q \<Longrightarrow> length (pq_put k v q) = Suc (length q)"
  by (simp add: pq_put_def)

text \<open>They are the steps of the specification.\<close>

lemma map_of_insort:
  "k \<notin> fst ` set q \<Longrightarrow> map_of (insort_key fst (k, v) q) = (map_of q)(k \<mapsto> v)"
  by (induction q) (auto simp: fun_eq_iff)

lemma pq_put_spec:
  assumes "sorted_wrt (<) (map fst q)"
  shows "pq_spec (map_of q) (if k \<in> fst ` set q then Dup k else Ins p k v) (map_of (pq_put k v q))"
proof (cases "k \<in> fst ` set q")
  case True
  then show ?thesis by (simp add: pq_put_def spec_dup dom_map_of_conv_image_fst)
next
  case False
  then show ?thesis using spec_ins [of k "map_of q" p v] by (simp add: pq_put_def map_of_insort dom_map_of_conv_image_fst)
qed

lemma pq_take_spec:
  assumes "sorted_wrt (<) (map fst q)"
  shows "pq_spec (map_of q) (case q of [] \<Rightarrow> Empty | (k, v) # _ \<Rightarrow> Del p k v) (map_of (pq_take q))"
proof (cases q)
  case Nil
  then show ?thesis by (simp add: pq_take_def spec_empty)
next
  case (Cons e q')
  obtain k v where e: "e = (k, v)" by fastforce
  have lt: "\<forall>k' \<in> fst ` set q'. k < k'" using assms Cons e by simp
  then have "map_of q' k = None" by (auto simp: map_of_eq_None_iff)
  then have "(map_of q)(k := None) = map_of q'" using Cons e by (auto simp: fun_eq_iff)
  moreover have "\<forall>k' \<in> dom (map_of q). k \<le> k'" using lt Cons e by (auto simp: dom_map_of_conv_image_fst less_imp_le)
  ultimately show ?thesis using spec_del [of "map_of q" k v p] Cons e by (simp add: pq_take_def)
qed

section \<open>The table of the DES workload\<close>

text \<open>
  \<^verbatim>\<open>gen_exps\<close>: \<open>ds\<close> are the values that \<^verbatim>\<open>gsl_ran_geometric\<close> returns, one for every entry but the first.
\<close>

fun exps_loop :: "u64 \<Rightarrow> u32 list \<Rightarrow> u64 list" where
  "exps_loop x [] = []"
| "exps_loop x (d # ds) = (x + ucast d) # exps_loop (x + ucast d) ds"

definition gen_exps :: "u32 list \<Rightarrow> u64 list" where
  "gen_exps ds = 2 # exps_loop 2 ds"

definition EXPS :: nat where
  "EXPS = 100000000"

section \<open>Options\<close>

datatype workload = Work_uni | Work_exp

record perf_opts =
  q_nthreads :: int
  q_offset :: int
  q_secs :: int
  q_work :: workload
  q_init_size :: int
  q_concise :: bool

definition default_perf_opts :: perf_opts where
  "default_perf_opts = \<lparr>q_nthreads = 1, q_offset = 32, q_secs = 10, q_work = Work_uni, q_init_size = 2 ^ 15, q_concise = False\<rparr>"

text \<open>\<open>None\<close> is the exit after the usage text; an unknown option falls through the \<^verbatim>\<open>switch\<close>.\<close>

fun read_perf_opts :: "(string \<Rightarrow> int) \<Rightarrow> (char \<times> string) list \<Rightarrow> perf_opts \<Rightarrow> perf_opts option" where
  "read_perf_opts atoi [] p = Some p"
| "read_perf_opts atoi ((opt, optarg) # rest) p =
     (if opt = CHR ''n'' then read_perf_opts atoi rest (p\<lparr>q_nthreads := atoi optarg\<rparr>)
      else if opt = CHR ''t'' then read_perf_opts atoi rest (p\<lparr>q_secs := atoi optarg\<rparr>)
      else if opt = CHR ''o'' then read_perf_opts atoi rest (p\<lparr>q_offset := atoi optarg\<rparr>)
      else if opt = CHR ''s'' then read_perf_opts atoi rest (p\<lparr>q_init_size := atoi optarg\<rparr>)
      else if opt = CHR ''x'' then read_perf_opts atoi rest (p\<lparr>q_concise := True\<rparr>)
      else if opt = CHR ''e'' then read_perf_opts atoi rest (p\<lparr>q_work := Work_exp\<rparr>)
      else if opt = CHR ''h'' then None
      else read_perf_opts atoi rest p)"

section \<open>The state\<close>

datatype perf_pc = P_Unborn | P_Calling | P_Waiting | P_Work | P_Fetch | P_Insert int | P_Loop | P_Done

text \<open>\<open>Aborted\<close>: the assertion of \<^verbatim>\<open>insert\<close> has failed. \<open>Undefined\<close>: a read past the table, an overflow of
  \<^verbatim>\<open>int\<close>, or a key that the queue is not made for.\<close>

datatype perf_status = Working | Aborted | Undefined

text \<open>\<open>e_misses\<close> is not in the code: how often the DES workload has found the queue empty.\<close>

record perf =
  e_barrier :: int
  e_loop :: bool
  e_main :: main_pc
  e_thread :: "nat \<Rightarrow> perf_pc"
  e_cnt :: "nat \<Rightarrow> int"
  e_measure :: "nat \<Rightarrow> int"
  e_exps :: "u64 list"
  e_exps_pos :: int
  e_queue :: entries
  e_status :: perf_status
  e_misses :: nat

text \<open>
  \<^verbatim>\<open>insert(pq, elem, (void *)elem)\<close>: the parameters are 32 bits wide, and the code asserts that the key
  is between the sentinels. The assertion lets through a key that is not below the tail's: what the queue does then
  is left open.
\<close>

definition perf_insert :: "u64 \<Rightarrow> perf \<Rightarrow> perf" where
  "perf_insert elem s = (if \<not> insert_assert (ucast elem :: u32) then s\<lparr>e_status := Aborted\<rparr>
     else if tail_key \<le> (ucast elem :: u32) then s\<lparr>e_status := Undefined\<rparr>
     else s\<lparr>e_queue := pq_put (ucast elem) (ucast elem) (e_queue s)\<rparr>)"

definition read_exps :: "perf \<Rightarrow> int \<Rightarrow> u64 option" where
  "read_exps s pos = (if 0 \<le> pos \<and> pos < int (length (e_exps s)) then Some (e_exps s ! nat pos) else None)"

section \<open>Pre-filling\<close>

text \<open>The first loop of \<^verbatim>\<open>main\<close>; \<open>d n\<close> is the value that \<^verbatim>\<open>gsl_rng_get\<close> returns when \<open>n\<close> more rounds follow.\<close>

fun perf_prefill :: "workload \<Rightarrow> (nat \<Rightarrow> u32) \<Rightarrow> nat \<Rightarrow> perf \<Rightarrow> perf" where
  "perf_prefill w d 0 s = s"
| "perf_prefill w d (Suc n) s =
     (if e_status s \<noteq> Working then s
      else case w of
        Work_exp \<Rightarrow> (case read_exps s (e_exps_pos s) of
            None \<Rightarrow> s\<lparr>e_status := Undefined\<rparr>
          | Some elem \<Rightarrow> perf_prefill w d n (perf_insert elem (s\<lparr>e_exps_pos := e_exps_pos s + 1\<rparr>)))
      | Work_uni \<Rightarrow> perf_prefill w d n (perf_insert (ucast (d n)) s))"

definition perf_init :: "u64 list \<Rightarrow> perf" where
  "perf_init ex = \<lparr>e_barrier = 0, e_loop = False, e_main = Creating 0, e_thread = (\<lambda>_. P_Unborn), e_cnt = (\<lambda>_. 0),
     e_measure = (\<lambda>_. 0), e_exps = ex, e_exps_pos = 0, e_queue = [], e_status = Working, e_misses = 0\<rparr>"

text \<open>The state in which \<^verbatim>\<open>main\<close> starts to create the threads.\<close>

definition perf_start :: "workload \<Rightarrow> u64 list \<Rightarrow> (nat \<Rightarrow> u32) \<Rightarrow> int \<Rightarrow> perf" where
  "perf_start w ex d init_size = perf_prefill w d (nat init_size) (perf_init ex)"

section \<open>The threads\<close>

definition to_pc :: "nat \<Rightarrow> perf_pc \<Rightarrow> perf \<Rightarrow> perf" where
  "to_pc i p s = s\<lparr>e_thread := (e_thread s)(i := p)\<rparr>"

text \<open>The end of a round, if there is one: \<^verbatim>\<open>cnt++\<close>.\<close>

definition count_round :: "nat \<Rightarrow> perf \<Rightarrow> perf" where
  "count_round i s = (if e_status s \<noteq> Working then s else case c_int (e_cnt s i + 1) of
      None \<Rightarrow> s\<lparr>e_status := Undefined\<rparr>
    | Some c \<Rightarrow> to_pc i P_Loop (s\<lparr>e_cnt := (e_cnt s)(i := c)\<rparr>))"

text \<open>\<^verbatim>\<open>work_uni\<close>: one operation, chosen by a random number.\<close>

definition work_uni :: "nat \<Rightarrow> round \<Rightarrow> perf \<Rightarrow> perf" where
  "work_uni i r s = count_round i (case r of
      Insert elem \<Rightarrow> perf_insert (ucast elem) s
    | Delete \<Rightarrow> s\<lparr>e_queue := pq_take (e_queue s)\<rparr>)"

text \<open>
  \<^verbatim>\<open>work_exp\<close> in three steps: \<^verbatim>\<open>deletemin\<close>; \<^verbatim>\<open>__sync_fetch_and_add\<close>, which wraps; the read of the table
  and \<^verbatim>\<open>insert\<close>.
\<close>

definition work_exp :: "nat \<Rightarrow> perf \<Rightarrow> perf" where
  "work_exp i s = (case e_thread s i of
      P_Work \<Rightarrow> to_pc i P_Fetch (s\<lparr>e_queue := pq_take (e_queue s),
        e_misses := e_misses s + (if e_queue s = [] then 1 else 0)\<rparr>)
    | P_Fetch \<Rightarrow> to_pc i (P_Insert (e_exps_pos s)) (s\<lparr>e_exps_pos := sint (word_of_int (e_exps_pos s + 1) :: u32)\<rparr>)
    | P_Insert pos \<Rightarrow> (case read_exps s pos of
          None \<Rightarrow> s\<lparr>e_status := Undefined\<rparr>
        | Some elem \<Rightarrow> count_round i (perf_insert elem s))
    | _ \<Rightarrow> s)"

definition perf_run_step :: "workload \<Rightarrow> nat \<Rightarrow> round \<Rightarrow> perf \<Rightarrow> perf option" where
  "perf_run_step w i r s = (case e_thread s i of
      P_Unborn \<Rightarrow> None
    | P_Calling \<Rightarrow> Some (to_pc i P_Waiting (s\<lparr>e_barrier := e_barrier s + 1\<rparr>))
    | P_Waiting \<Rightarrow> Some (if e_loop s then to_pc i P_Work (s\<lparr>e_cnt := (e_cnt s)(i := 0)\<rparr>) else s)
    | P_Loop \<Rightarrow> Some (if e_loop s then to_pc i P_Work s
        else to_pc i P_Done (s\<lparr>e_measure := (e_measure s)(i := e_cnt s i)\<rparr>))
    | P_Done \<Rightarrow> None
    | _ \<Rightarrow> Some (case w of Work_uni \<Rightarrow> work_uni i r s | Work_exp \<Rightarrow> work_exp i s))"

text \<open>\<^verbatim>\<open>main\<close> from the creation of the threads on; \<^verbatim>\<open>E_en\<close> prints a message when \<^verbatim>\<open>pthread_create\<close> fails, and goes on.\<close>

definition perf_main_step :: "nat \<Rightarrow> bool \<Rightarrow> perf \<Rightarrow> perf option" where
  "perf_main_step nthreads ok s = (case e_main s of
       Creating i \<Rightarrow>
         if i < nthreads
         then Some (let s = s\<lparr>e_main := Creating (i + 1)\<rparr> in if ok then to_pc i P_Calling s else s)
         else Some (s\<lparr>e_main := Barrier\<rparr>)
     | Barrier \<Rightarrow> Some (if e_barrier s \<noteq> int nthreads then s else s\<lparr>e_main := Starting\<rparr>)
     | Starting \<Rightarrow> Some (s\<lparr>e_main := Sleeping, e_loop := True\<rparr>)
     | Sleeping \<Rightarrow> Some (s\<lparr>e_main := Stopping\<rparr>)
     | Stopping \<Rightarrow> Some (s\<lparr>e_main := Joining 0, e_loop := False\<rparr>)
     | Joining i \<Rightarrow>
         if i < nthreads then (if e_thread s i = P_Done then Some (s\<lparr>e_main := Joining (i + 1)\<rparr>) else None)
         else Some (s\<lparr>e_main := Reporting\<rparr>)
     | Reporting \<Rightarrow> Some (s\<lparr>e_main := Exited\<rparr>)
     | Exited \<Rightarrow> None)"

text \<open>Nothing runs on after a failed assertion; after undefined behaviour nothing is said.\<close>

fun perf_step :: "nat \<Rightarrow> workload \<Rightarrow> bench_event \<Rightarrow> perf \<Rightarrow> perf option" where
  "perf_step n w (Main ok) s = (if e_status s = Working then perf_main_step n ok s else None)"
| "perf_step n w (Worker i r) s = (if e_status s = Working then perf_run_step w i r s else None)"

text \<open>The figures at the end: sum, minimum and maximum of the measures.\<close>

definition perf_report :: "nat \<Rightarrow> perf \<Rightarrow> (int \<times> int \<times> int) option" where
  "perf_report nthreads s = report (map (e_measure s) [0..<nthreads]) (0, 2 ^ 31 - 1, 0)"

end
