(* ===== verification/PerfProps.thy ===== *)
theory PerfProps
  imports Perf BenchProps
begin

text \<open>What the benchmark program of the Linden-Jonsson queue does.\<close>

section \<open>The table\<close>

lemma exps_loop_length: "length (exps_loop x ds) = length ds"
  by (induction ds arbitrary: x) simp_all

lemma unat_ucast_wide: "unat (ucast (d :: u32) :: u64) = unat d"
  by (simp add: unsigned_ucast_eq take_bit_nat_eq_self_iff less_trans [OF unsigned_less])

lemma exps_loop_nth:
  "i < length ds \<Longrightarrow> unat x + sum_list (map unat ds) < 2 ^ 64 \<Longrightarrow>
    unat (exps_loop x ds ! i) = unat x + sum_list (map unat (take (Suc i) ds))"
proof (induction ds arbitrary: x i)
  case (Cons d ds)
  note d = unat_ucast_wide [of d]
  have "unat x + unat (ucast d :: u64) < 2 ^ 64" using Cons.prems(2) d by simp
  then have s: "unat (x + ucast d) = unat x + unat d" using d by (simp add: unat_word_ariths)
  show ?case
  proof (cases i)
    case 0
    then show ?thesis using s by simp
  next
    case (Suc j)
    then show ?thesis using Cons.IH [of j "x + ucast d"] Cons.prems s by simp
  qed
qed simp

lemma draws_bound: "sum_list (map unat (ds :: u32 list)) \<le> length ds * (2 ^ 32 - 1)"
proof (induction ds)
  case (Cons d ds)
  have "unat d < 2 ^ LENGTH(32)" by (rule unsigned_less)
  then have "unat d \<le> 2 ^ 32 - 1" by simp
  then show ?case using Cons by (simp add: algebra_simps)
qed simp

lemma gen_exps_nth:
  assumes "length ds < EXPS" "i \<le> length ds"
  shows "unat (gen_exps ds ! i) = 2 + sum_list (map unat (take i ds))"
proof -
  have "length ds * (2 ^ 32 - 1) \<le> EXPS * (2 ^ 32 - 1)" using assms(1) by (intro mult_right_mono) simp_all
  then have "(2 :: nat) + sum_list (map unat ds) < 2 ^ 64" using draws_bound [of ds] by (simp add: EXPS_def)
  then show ?thesis
    using exps_loop_nth [of "i - 1" ds 2] assms(2) by (cases i) (simp_all add: gen_exps_def)
qed

text \<open>
  C35. The table of the DES workload: it has one entry more than numbers were drawn, starts with 2 and increases
  strictly, whatever positive numbers \<^verbatim>\<open>gsl_ran_geometric\<close> returns: 64 bits are wide enough.
\<close>

theorem gen_exps_increasing:
  assumes "length ds < EXPS" and "\<forall>d \<in> set ds. 1 \<le> d"
  shows "length (gen_exps ds) = Suc (length ds) \<and> gen_exps ds ! 0 = 2 \<and> sorted_wrt (<) (gen_exps ds) \<and>
    (\<forall>x \<in> set (gen_exps ds). 2 \<le> x \<and> x < 2 ^ 59)"
proof (intro conjI)
  show len: "length (gen_exps ds) = Suc (length ds)" by (simp add: gen_exps_def exps_loop_length)
  show "gen_exps ds ! 0 = 2" by (simp add: gen_exps_def)
  have "gen_exps ds ! i < gen_exps ds ! Suc i" if i: "Suc i < length (gen_exps ds)" for i
  proof -
    have il: "i < length ds" using i len by simp
    then have "1 \<le> ds ! i" using assms(2) by simp
    then have "0 < unat (ds ! i)" by (simp add: word_le_nat_alt)
    then have "unat (gen_exps ds ! i) < unat (gen_exps ds ! Suc i)"
      using il gen_exps_nth [OF assms(1)] by (simp add: take_Suc_conv_app_nth)
    then show ?thesis by (simp add: word_less_nat_alt)
  qed
  then show "sorted_wrt (<) (gen_exps ds)" by (intro sorted_wrt_iff_nth_Suc_transp [THEN iffD2]) simp_all
  show "\<forall>x \<in> set (gen_exps ds). 2 \<le> x \<and> x < 2 ^ 59"
  proof
    fix x assume "x \<in> set (gen_exps ds)"
    then obtain i where i: "i \<le> length ds" "x = gen_exps ds ! i" using len by (auto simp: in_set_conv_nth less_Suc_eq_le)
    have "sum_list (map unat (take i ds)) \<le> i * (2 ^ 32 - 1)" using draws_bound [of "take i ds"] i(1) by (simp add: min_absorb2)
    also have "\<dots> \<le> EXPS * (2 ^ 32 - 1)" using i(1) assms(1) by (intro mult_right_mono) simp_all
    finally have "unat x < 2 ^ 59" using gen_exps_nth [OF assms(1) i(1)] i(2) by (simp add: EXPS_def)
    moreover have "2 \<le> unat x" using gen_exps_nth [OF assms(1) i(1)] i(2) by simp
    ultimately show "2 \<le> x \<and> x < 2 ^ 59" by (simp add: word_le_nat_alt word_less_nat_alt)
  qed
qed

theorem gen_exps_increasing_witness: "sorted_wrt (<) (gen_exps [5, 1, 0xFFFFFFFF, 7])"
  using gen_exps_increasing [of "[5, 1, 0xFFFFFFFF, 7]"] by (simp add: EXPS_def)

section \<open>The same program as the benchmark of all queues\<close>

fun abs_pc :: "perf_pc \<Rightarrow> worker_pc" where
  "abs_pc P_Unborn = Unborn"
| "abs_pc P_Calling = Calling_in"
| "abs_pc P_Waiting = Waiting"
| "abs_pc P_Work = Operating"
| "abs_pc P_Fetch = Operating"
| "abs_pc (P_Insert p) = Operating"
| "abs_pc P_Loop = Looping"
| "abs_pc P_Done = Finished"

text \<open>The queue is forgotten; a round of \<^verbatim>\<open>work\<close> counts as one operation when it is over.\<close>

definition perf_abs :: "perf \<Rightarrow> unit bench" where
  "perf_abs s = \<lparr>wait_barrier = e_barrier s, loop_flag = e_loop s, b_main = e_main s, b_worker = (\<lambda>i. abs_pc (e_thread s i)),
     b_cnt = (\<lambda>i. word_of_int (e_cnt s i)), b_measure = e_measure s, b_queue = (), b_ops = (\<lambda>i. nat (e_cnt s i))\<rparr>"

lemma perf_abs_sel [simp]:
  "wait_barrier (perf_abs s) = e_barrier s" "loop_flag (perf_abs s) = e_loop s" "b_main (perf_abs s) = e_main s"
  "b_worker (perf_abs s) i = abs_pc (e_thread s i)" "b_cnt (perf_abs s) i = word_of_int (e_cnt s i)"
  "b_measure (perf_abs s) = e_measure s" "b_ops (perf_abs s) i = nat (e_cnt s i)"
  by (simp_all add: perf_abs_def)

lemma perf_abs_eqI:
  assumes "e_barrier s = wait_barrier b" "e_loop s = loop_flag b" "e_main s = b_main b"
    "\<And>i. abs_pc (e_thread s i) = b_worker b i" "\<And>i. word_of_int (e_cnt s i) = b_cnt b i" "\<And>i. e_measure s i = b_measure b i"
    "\<And>i. nat (e_cnt s i) = b_ops b i"
  shows "perf_abs s = (b :: unit bench)"
  using assms by (intro bench.equality) (simp_all add: fun_eq_iff)

lemma abs_pc_Done [simp]: "abs_pc p = Finished \<longleftrightarrow> p = P_Done"
  by (cases p) simp_all

definition perf_inv :: "nat \<Rightarrow> perf \<Rightarrow> bool" where
  "perf_inv n s \<longleftrightarrow> bench_inv n (perf_abs s) \<and> (\<forall>i. 0 \<le> e_cnt s i \<and> e_cnt s i < 2 ^ 31)"

abbreviation skeleton :: "nat \<Rightarrow> bench_event \<Rightarrow> unit bench \<Rightarrow> unit bench option" where
  "skeleton n \<equiv> bench_step n (\<lambda>_ u. u) (\<lambda>u. u)"

lemma main_abs: "perf_main_step n ok s = Some s' \<Longrightarrow> main_step n ok (perf_abs s) = Some (perf_abs s') \<and> e_cnt s' = e_cnt s"
  by (cases "e_main s")
     (auto simp: perf_main_step_def main_step_def to_pc_def Let_def split: if_splits intro!: perf_abs_eqI [symmetric])

text \<open>The end of a round in which the queue was all that changed.\<close>

lemma perf_insert_skeleton [simp]:
  "e_barrier (perf_insert v s) = e_barrier s" "e_loop (perf_insert v s) = e_loop s" "e_main (perf_insert v s) = e_main s"
  "e_thread (perf_insert v s) = e_thread s" "e_cnt (perf_insert v s) = e_cnt s" "e_measure (perf_insert v s) = e_measure s"
  "e_exps (perf_insert v s) = e_exps s" "e_exps_pos (perf_insert v s) = e_exps_pos s" "e_misses (perf_insert v s) = e_misses s"
  by (simp_all add: perf_insert_def)

lemma round_abs:
  assumes o: "abs_pc (e_thread s i) = Operating" and c: "0 \<le> e_cnt s i"
    and s: "e_barrier u = e_barrier s" "e_loop u = e_loop s" "e_main u = e_main s" "e_thread u = e_thread s" "e_cnt u = e_cnt s"
      "e_measure u = e_measure s"
  shows "perf_abs (count_round i u) = perf_abs s \<or> run_step (\<lambda>_ u. u) (\<lambda>u. u) i Delete (perf_abs s) = Some (perf_abs (count_round i u))"
proof (cases "e_status u = Working \<and> e_cnt s i + 1 < 2 ^ 31")
  case True
  then have "count_round i u = to_pc i P_Loop (u\<lparr>e_cnt := (e_cnt u)(i := e_cnt s i + 1)\<rparr>)"
    using c s by (simp add: count_round_def c_int_def)
  then have "run_step (\<lambda>_ u. u) (\<lambda>u. u) i Delete (perf_abs s) = Some (perf_abs (count_round i u))"
    using o c s by (auto simp: run_step_def Let_def to_pc_def nat_add_distrib intro!: perf_abs_eqI [symmetric])
  then show ?thesis ..
next
  case False
  then have "perf_abs (count_round i u) = perf_abs s"
    using c s by (intro perf_abs_eqI) (auto simp: count_round_def c_int_def)
  then show ?thesis ..
qed

lemma count_round_cnt:
  assumes "0 \<le> e_cnt s j" "e_cnt s j < 2 ^ 31" "e_cnt u = e_cnt s"
  shows "0 \<le> e_cnt (count_round i u) j \<and> e_cnt (count_round i u) j < 2 ^ 31"
  using assms by (auto simp: count_round_def c_int_def to_pc_def)

lemma sint_small: "0 \<le> k \<Longrightarrow> k < 2 ^ 31 \<Longrightarrow> sint (word_of_int k :: u32) = k"
  by (simp add: signed_of_int signed_take_bit_int_eq_self)

lemma worker_abs:
  assumes inv: "perf_inv n s" and st: "perf_run_step w i r s = Some s'"
  shows "(perf_abs s' = perf_abs s \<or> (\<exists>r'. run_step (\<lambda>_ u. u) (\<lambda>u. u) i r' (perf_abs s) = Some (perf_abs s'))) \<and>
    (\<forall>j. 0 \<le> e_cnt s' j \<and> e_cnt s' j < 2 ^ 31)"
proof -
  have c: "0 \<le> e_cnt s j" "e_cnt s j < 2 ^ 31" for j using inv by (simp_all add: perf_inv_def)
  have ok: "wok n (perf_abs s) i" using inv bench_invD(5) unfolding perf_inv_def by blast
  have rounds: ?thesis if "s' = count_round i u" "e_barrier u = e_barrier s" "e_loop u = e_loop s" "e_main u = e_main s"
    "e_thread u = e_thread s" "e_cnt u = e_cnt s" "e_measure u = e_measure s" "abs_pc (e_thread s i) = Operating" for u
    using round_abs [OF that(8) c(1) that(2-7)] count_round_cnt [OF c that(6)] that(1) by blast
  have work: ?thesis if p: "abs_pc (e_thread s i) = Operating"
  proof (cases w)
    case Work_uni
    then have s': "s' = work_uni i r s" using st p by (cases "e_thread s i") (simp_all add: perf_run_step_def)
    show ?thesis
      by (rule rounds [of "case r of Insert elem \<Rightarrow> perf_insert (ucast elem) s | Delete \<Rightarrow> s\<lparr>e_queue := pq_take (e_queue s)\<rparr>"])
         (use s' p in \<open>simp_all add: work_uni_def split: round.split\<close>)
  next
    case Work_exp
    then have s': "s' = work_exp i s" using st p by (cases "e_thread s i") (simp_all add: perf_run_step_def)
    show ?thesis
    proof (cases "\<exists>pos elem. e_thread s i = P_Insert pos \<and> read_exps s pos = Some elem")
      case True
      then obtain pos elem where e: "e_thread s i = P_Insert pos" "read_exps s pos = Some elem" by blast
      show ?thesis by (rule rounds [of "perf_insert elem s"]) (use s' e in \<open>simp_all add: work_exp_def\<close>)
    next
      case False
      then have "perf_abs s' = perf_abs s \<and> e_cnt s' = e_cnt s"
        using s' p by (cases "e_thread s i") (auto simp: work_exp_def to_pc_def split: option.split intro!: perf_abs_eqI)
      then show ?thesis using c by simp
    qed
  qed
  consider "abs_pc (e_thread s i) = Operating" | "e_thread s i = P_Calling" | "e_thread s i = P_Waiting" | "e_thread s i = P_Loop"
    using st by (cases "e_thread s i") (simp_all add: perf_run_step_def)
  then show ?thesis
  proof cases
    case 1
    then show ?thesis by (rule work)
  next
    case 2
    then have "run_step (\<lambda>_ u. u) (\<lambda>u. u) i r (perf_abs s) = Some (perf_abs s')" "e_cnt s' = e_cnt s"
      using st by (auto simp: perf_run_step_def run_step_def Let_def to_pc_def intro!: perf_abs_eqI [symmetric])
    then show ?thesis using c by auto
  next
    case 3
    then have z: "e_cnt s i = 0" using ok c(1) [of i] by (simp add: worker_ok_def)
    then have "run_step (\<lambda>_ u. u) (\<lambda>u. u) i r (perf_abs s) = Some (perf_abs s')" "e_cnt s' = e_cnt s"
      using st 3 by (auto simp: perf_run_step_def run_step_def Let_def to_pc_def fun_eq_iff split: if_splits intro!: perf_abs_eqI [symmetric])
    then show ?thesis using c by auto
  next
    case 4
    have "sint (word_of_int (e_cnt s i) :: u32) = e_cnt s i" by (rule sint_small) (rule c)+
    then have "run_step (\<lambda>_ u. u) (\<lambda>u. u) i r (perf_abs s) = Some (perf_abs s')" "e_cnt s' = e_cnt s"
      using st 4 by (auto simp: perf_run_step_def run_step_def Let_def to_pc_def split: if_splits intro!: perf_abs_eqI [symmetric])
    then show ?thesis using c by auto
  qed
qed

lemma perf_step_abs:
  assumes inv: "perf_inv n s" and st: "perf_step n w e s = Some s'"
  shows "runs (skeleton n) (perf_abs s) (perf_abs s') \<and> perf_inv n s'"
proof -
  have "(perf_abs s' = perf_abs s \<or> (\<exists>e'. skeleton n e' (perf_abs s) = Some (perf_abs s'))) \<and> (\<forall>j. 0 \<le> e_cnt s' j \<and> e_cnt s' j < 2 ^ 31)"
  proof (cases e)
    case (Main ok)
    then have "main_step n ok (perf_abs s) = Some (perf_abs s') \<and> e_cnt s' = e_cnt s" using st main_abs by (simp split: if_splits)
    then show ?thesis using inv by (auto simp: perf_inv_def intro!: exI [of _ "Main ok"])
  next
    case (Worker i r)
    then have "perf_run_step w i r s = Some s'" using st by (simp split: if_splits)
    then show ?thesis using worker_abs [OF inv] bench_step.simps(2) by metis
  qed
  then show ?thesis
  proof (elim conjE disjE exE)
    fix e' assume e': "skeleton n e' (perf_abs s) = Some (perf_abs s')" "\<forall>j. 0 \<le> e_cnt s' j \<and> e_cnt s' j < 2 ^ 31"
    have "bench_inv n (perf_abs s')" using bench.step [OF _ e'(1)] inv by (simp add: perf_inv_def)
    then show ?thesis using e' runs_one [of "skeleton n", OF e'(1)] by (simp add: perf_inv_def)
  qed (use inv in \<open>auto simp: perf_inv_def\<close>)
qed

lemma prefill_skeleton:
  "e_barrier (perf_prefill w d k s) = e_barrier s \<and> e_loop (perf_prefill w d k s) = e_loop s \<and> e_main (perf_prefill w d k s) = e_main s \<and>
   e_thread (perf_prefill w d k s) = e_thread s \<and> e_cnt (perf_prefill w d k s) = e_cnt s \<and> e_measure (perf_prefill w d k s) = e_measure s"
proof (induction k arbitrary: s)
  case (Suc k)
  then show ?case by (cases w; cases "read_exps s (e_exps_pos s)") simp_all
qed simp

lemma perf_start_abs: "perf_abs (perf_start w ex d m) = bench_init ()"
  by (rule perf_abs_eqI) (simp_all add: perf_start_def prefill_skeleton perf_init_def bench_init_def)

lemma perf_start_inv: "perf_inv n (perf_start w ex d m)"
  using bench.init [of n "()"] perf_start_abs by (simp add: perf_inv_def perf_start_def prefill_skeleton perf_init_def)

lemma perf_runs_abs: "runs (perf_step n w) s s' \<Longrightarrow> perf_inv n s \<Longrightarrow> runs (skeleton n) (perf_abs s) (perf_abs s') \<and> perf_inv n s'"
proof (induction rule: runs.induct)
  case (runs_step s s' e s'')
  then show ?case using perf_step_abs [of n s' w e s''] by (meson runs_trans)
qed auto

text \<open>
  C22. The program runs the same protocol as the benchmark of all queues, whatever the workload: every run of it,
  seen without the queue and with the steps of one round of \<^verbatim>\<open>work\<close> as one, is a run of that program, and prints
  the same figures. So its barrier, its start and stop and its report are the ones that are proved correct there, and
  it has the same lost start signal.
\<close>

theorem perf_refines_bench:
  assumes "runs (perf_step n w) (perf_start w ex d m) s"
  shows "runs (bench_step n (\<lambda>_ u. u) (\<lambda>u. u)) (bench_init ()) (perf_abs s) \<and> perf_report n s = bench_report n (perf_abs s)"
  using perf_runs_abs [OF assms perf_start_inv] perf_start_abs by (simp add: perf_report_def bench_report_def)

theorem perf_refines_bench_witness:
  "\<exists>s. runs (perf_step 2 Work_exp) (perf_start Work_exp [2, 5, 9] (\<lambda>_. 0) 2) s \<and> e_main s = Creating 1 \<and>
     runs (bench_step 2 (\<lambda>_ u. u) (\<lambda>u. u)) (bench_init ()) (perf_abs s)"
proof -
  let ?s = "perf_start Work_exp [2, 5, 9] (\<lambda>_. 0) 2"
  have s: "e_main ?s = Creating 0" by (simp add: perf_start_def prefill_skeleton perf_init_def)
  have "e_status ?s = Working" by code_simp
  then have "perf_step 2 Work_exp (Main True) ?s = Some (to_pc 0 P_Calling (?s\<lparr>e_main := Creating 1\<rparr>))"
    using s by (simp add: perf_main_step_def)
  then have r: "runs (perf_step 2 Work_exp) ?s (to_pc 0 P_Calling (?s\<lparr>e_main := Creating 1\<rparr>))" by (rule runs_one)
  show ?thesis using r perf_refines_bench [OF r] by (intro exI [of _ "to_pc 0 P_Calling (?s\<lparr>e_main := Creating 1\<rparr>)"]) (simp add: to_pc_def)
qed

section \<open>The DES workload\<close>




























end
