(* ===== verification/Spec2Isabelle.thy ===== *)
theory Spec2Isabelle
  imports Linden_Props Linden_Return GC_Props GC_Race HeapPQ SpinReent BenchProps SprayWrap Barrier TestProps TestEvents PerfProps
begin

text \<open>
  Verification of the concurrent priority queues of this repository: the program under \<^verbatim>\<open>src/\<close> that compares
  five queues, and the queues themselves under \<^verbatim>\<open>lib/\<close>. Paths are relative to the root of the repository.

  \<^bold>\<open>The program.\<close> \<^verbatim>\<open>src/pqbench.cpp\<close> parses its options, picks one of five wrapper classes and lets threads insert
  and delete for some seconds. The wrappers stand on: a binary heap under one mutex (\<^verbatim>\<open>src/globallock.cpp\<close>);
  the array heap of libcds (\<^verbatim>\<open>lib/libcds/cds/intrusive/mspriority_queue.h\<close>, with its bit-reversed counter, bit
  algorithms and spin locks); the lock-free queue of Linden and Jonsson (\<^verbatim>\<open>lib/linden/prioq.c\<close>) with the epoch-based
  collector of Fraser (\<^verbatim>\<open>lib/linden/gc/\<close>); the spraylist (\<^verbatim>\<open>lib/spraylist/\<close>: a skip list in a sequential, a
  transactional and a lock-free build, its allocator, and the spray deletion on top); and the binary library Noble.
  \<^verbatim>\<open>lib/linden/perf_meas.c\<close> and \<^verbatim>\<open>lib/spraylist/test.c\<close> are the two libraries' own programs.

  \<^bold>\<open>How the code is modelled.\<close> Structures are records, tagged or marked pointers are words whose bit 0 is the mark,
  memory is a map from addresses to nodes and a missing address is a fault. Integers have their C width; an \<^verbatim>\<open>int\<close>
  expression that leaves its range has no result. A failed assertion, a bad access and undefined behaviour are
  values (\<open>Crashed\<close>, \<open>None\<close>, a status), never left out. Concurrent code is a step function of one thread with
  at most one access to shared memory per step; a system is any number of threads that take turns in any order.
  Memory is sequentially consistent.
\<close>

text \<open>
  \<^bold>\<open>Shared theories.\<close> \<open>Prelude\<close>: machine types, faults, marked pointers, collections of simplification rules.
  \<open>Threads\<close>: runs of a system of threads; the locale \<open>machine\<close> (a step function, an initial state, an
  invariant), interpreted for the spin locks, the barrier and the benchmark. \<open>Contracts\<close>: the locales \<open>int_set\<close>
  and \<open>prio_queue\<close>, what the clients of the containers rely on. \<open>Numeric\<close>: random number generators, time
  differences, logarithms (\<^verbatim>\<open>lib/linden/common.c\<close>, \<^verbatim>\<open>lib/spraylist/include/\<close>, \<^verbatim>\<open>lib/spraylist/pqueue.c\<close>).

  \<^bold>\<open>The Linden-Jonsson queue\<close> (\<^verbatim>\<open>lib/linden/prioq.c\<close>, \<^verbatim>\<open>prioq.h\<close> and the copy \<^verbatim>\<open>lib/spraylist/linden.c\<close>, which
  differs by the flags of \<open>variant\<close> and by its 64-bit keys).
  \<^item> \<open>Linden_Mem\<close>, \<open>Linden_Level\<close>: nodes, reads, writes, compare-and-swap, \<^verbatim>\<open>alloc_node\<close>, \<^verbatim>\<open>pq_init\<close>, the level.
  \<^item> \<open>Linden_Step\<close>: \<^verbatim>\<open>locate_preds\<close>, \<^verbatim>\<open>insert\<close>, \<^verbatim>\<open>restructure\<close>, \<^verbatim>\<open>deletemin\<close> as \<open>locate_step\<close>, \<open>insert_step\<close>,
    \<open>restructure_step\<close>, \<open>deletemin_step\<close> over a program counter. \<open>Linden_Sys\<close>: the interleaving.
  \<^item> \<open>Linden_Spec\<close>: a priority queue as a finite map, histories, linearisation points.
  \<^item> \<open>Linden_Inv\<close> states the invariant of the memory (\<open>glob\<close>) and of a thread at each program counter (\<open>loc\<close>);
    \<open>Linden_Evo\<close>, \<open>Linden_Chain\<close>, \<open>Linden_Update\<close>, \<open>Linden_Own\<close> and \<open>Linden_Lin\<close> prove it: what a step may do to
    other threads, each update of memory, each step of a thread, the induction over the interleaving.
  \<^item> \<open>Linden_Abs\<close>, \<open>Linden_Count\<close>, \<open>Linden_Run\<close>: the contents read off the memory, the nesting of critical sections,
    executable schedules for the witnesses. \<open>Linden_Props\<close>: linearisability, no fault and no failed assertion,
    forward simulation of the map, the shape of the levels, balanced critical sections (and the leak of the copy).
  \<^item> \<open>Linden_Order\<close>, \<open>Linden_Acyclic\<close>, \<open>Linden_Solo\<close>, \<open>Linden_Return\<close>: pointers lead forward on the bottom level and form
    no cycle above it, so every walk ends; a compare-and-swap fails at most once for a thread that runs alone. Together:
    obstruction freedom of \<^verbatim>\<open>insert\<close> and \<^verbatim>\<open>deletemin\<close> from every reachable state.

  \<^bold>\<open>The collector\<close> (\<^verbatim>\<open>lib/linden/gc/gc.c\<close>, \<^verbatim>\<open>ptst.c\<close>). \<open>GC_Mem\<close>, \<open>GC_Ops\<close>: chunks, lists, allocation, freeing,
  reclamation, entry and exit, registration, as one thread runs them; \<open>GC_Ring\<close>, \<open>GC_Lists\<close>, \<open>GC_Props\<close>: the circular
  lists and what each operation does to the blocks. \<open>GC_Epoch\<close> has the epoch protocol under any interleaving;
  \<open>GC_Race\<close> shows that it never hands out a block in use if the entry is atomic, and that it does as written.

  \<^bold>\<open>The array heap\<close> (\<^verbatim>\<open>mspriority_queue.h\<close>, \<^verbatim>\<open>bit_reverse_counter.h\<close>, \<^verbatim>\<open>bitop_generic.h\<close>, \<^verbatim>\<open>int_algo.h\<close>, \<^verbatim>\<open>spinlock.h\<close>).
  \<open>Bitop\<close>, \<open>Bitop_Count\<close>: the bit algorithms at 32 and 64 bits. \<open>MSQueue\<close>: the heap with the lock of every node;
  \<open>MSQ_Counter\<close>: the slots that the counter hands out; \<open>MSQ_Heap\<close>, \<open>MSQ_Props\<close>, \<open>HeapPQ\<close>: heap order and content,
  the operations as those of a bounded multiset, sorting. \<open>SpinLock\<close>, \<open>SpinReent\<close>: both locks under any interleaving.

  \<^bold>\<open>The spraylist\<close> (\<^verbatim>\<open>lib/spraylist/\<close>). \<open>SL_Alloc\<close>: \<^verbatim>\<open>ssalloc.c\<close> and the locale \<open>node_alloc\<close> with both builds as
  instances. \<open>SL_Mem\<close>, \<open>SL_Fraser\<close>, \<open>SL_Intset\<close>: \<^verbatim>\<open>skiplist.c\<close>, \<^verbatim>\<open>fraser.c\<close>, \<^verbatim>\<open>intset.c\<close>, \<^verbatim>\<open>pqueue.c\<close>. \<open>SL_Inv\<close>,
  \<open>SL_Search\<close>, \<open>SL_Ops\<close>, \<open>SL_Insert\<close>, \<open>SL_Insert2\<close>: the lock-free operations against a set of keys; \<open>SL_Seq\<close>,
  \<open>SL_Seq2\<close>, \<open>SL_Seq3\<close>: the other builds; \<open>SL_Delmin\<close>, \<open>SL_Build\<close>, \<open>SL_Range\<close>, \<open>SL_Keep\<close>: deletion of the least and
  spray deletion, fresh sets, keys out of range, what no operation changes. \<open>SL_Props\<close>: scripts of operations answer
  like a mathematical set in every build, draining sorts, spraying never leaves the list.

  \<^bold>\<open>Programs.\<close> \<open>Wrappers\<close>, \<open>SprayWrap\<close>: the five classes, option parsing and choice of \<^verbatim>\<open>pqbench.cpp\<close>. \<open>Bench\<close>,
  \<open>BenchProps\<close>: its threads, start and stop flag and report; exactly when it can come to its end. \<open>Perf\<close>,
  \<open>PerfProps\<close>: \<^verbatim>\<open>perf_meas.c\<close> refines that protocol; its table and its DES workload. \<open>Barrier\<close>, \<open>TestProg\<close>,
  \<open>TestProps\<close>, \<open>TestEvents\<close>: the barrier of \<^verbatim>\<open>test.c\<close>, the body of its threads, its options, its bookkeeping and
  its event simulator.
\<close>

text \<open>
  \<^bold>\<open>Bounds and fuel.\<close> Loops of the lock-free and sequential skip list, of the heap and of the collector take a number
  \<open>f\<close> that bounds their iterations; \<open>None\<close> means that it did not suffice or that the code faulted. The theorems ask
  for a bound above the number of nodes (levels, retries) and then state that there is a result, so that termination is
  part of them. The Linden queue has no fuel: its steps are single accesses, and that they end is proved as such. A
  memory budget says how many more nodes the arena of \<^verbatim>\<open>ssalloc.c\<close> or \<^verbatim>\<open>malloc\<close> can serve.

  \<^bold>\<open>Parameters.\<close> The block that \<^verbatim>\<open>gc_alloc\<close> returns to the queue is any aligned address that is not in use: the
  collector's own theorem is the reason, and \<open>GC_Race\<close> shows where the code falls short of it. The Noble library, the
  random numbers of GSL and of the C++ library, \<^verbatim>\<open>atoi\<close> and \<^verbatim>\<open>getopt\<close> are parameters with their documented behaviour.

  \<^bold>\<open>Not modelled.\<close>
  \<^item> Interleavings of the lock-free skip list and of the array heap: their operations run one at a time, with every
    access to shared memory and every lock in place. Transactions commit.
  \<^item> Weak memory; the barriers of the code have no effect in the model.
  \<^item> Pinning of threads, clocks, cycle counters, signals, printing, usage texts: they do not touch the state of a queue.
    So are the statistics of \<^verbatim>\<open>measurements.c\<close>, compiled out by default, and most counters of \<^verbatim>\<open>thread_data_t\<close>.
  \<^item> The options of the collector that the build does not select (\<^verbatim>\<open>WEAK_MEM_ORDER\<close>, \<^verbatim>\<open>YIELD_TO_HELP_PROGRESS\<close>,
    \<^verbatim>\<open>PROFILE_GC\<close>).
  \<^item> The rest of libcds, the vendored \<^verbatim>\<open>atomic_ops\<close> and Noble: third-party code that the program does not use, or only
    through the operations that are modelled; and the Promela model \<^verbatim>\<open>prioq_model.pml\<close>, of which \<open>Linden_Spec\<close> takes
    the linearisation points.
\<close>

end
